(* ===== verification/Prelude.thy ===== *)
theory Prelude
  imports Main "HOL-Library.Word"
begin

text \<open>
  The prelude of the development: the machine types of the Go program (bytes and the unsigned
  integers as words, \<open>[]byte\<close> as a list of bytes), the run-time panics of Go as values, the
  error monad every fallible operation is written in, checked indexing and slicing, and the
  lemma collections the component theories share.
\<close>

unbundle bit_operations_syntax

section \<open>Machine types\<close>

type_synonym byte = "8 word"
type_synonym bytes = "8 word list"
type_synonym u16 = "16 word"
type_synonym u32 = "32 word"
type_synonym u64 = "64 word"

section \<open>Run-time panics and the error monad\<close>

text \<open>
  What the Go run time (or an explicit \<open>panic\<close>) raises. A function whose panic is not
  recovered has results of type \<open>go_panic + 'a\<close>; a function that also returns errors has an
  error type of its own that embeds \<open>go_panic\<close>.
\<close>

datatype go_panic =
    IndexOutOfRange
  | SliceOutOfRange
  | NilPointer
  | MakeSlice
  | ExplicitPanic string

definition andThen :: "'e + 'a \<Rightarrow> ('a \<Rightarrow> 'e + 'b) \<Rightarrow> 'e + 'b" where
  "andThen m f = (case m of Inl e \<Rightarrow> Inl e | Inr x \<Rightarrow> f x)"

lemma andThen_simps [simp]:
  "andThen (Inl e) f = Inl e"
  "andThen (Inr x) f = f x"
  by (simp_all add: andThen_def)

lemma andThen_cong [fundef_cong]:
  "m = m' \<Longrightarrow> (\<And>x. m' = Inr x \<Longrightarrow> f x = g x) \<Longrightarrow> andThen m f = andThen m' g"
  by (cases m') simp_all

lemma andThen_assoc: "andThen (andThen m f) g = andThen m (\<lambda>x. andThen (f x) g)"
  by (cases m) simp_all

text \<open>Elimination facts: what a successful computation says about its parts.\<close>

named_theorems ok_iff
named_theorems go_eval

lemma andThen_ok [ok_iff]: "andThen m f = Inr y \<longleftrightarrow> (\<exists>x. m = Inr x \<and> f x = Inr y)"
  by (cases m) simp_all

lemma andThen_err: "andThen m f = Inl e \<longleftrightarrow> m = Inl e \<or> (\<exists>x. m = Inr x \<and> f x = Inl e)"
  by (cases m) simp_all

text \<open>A guard of the code: the early return \<open>if c \<dots> return\<close> with its error.\<close>

definition failIf :: "bool \<Rightarrow> 'e \<Rightarrow> 'e + unit" where
  "failIf c e = (if c then Inl e else Inr ())"

lemma failIf_simps [simp]:
  "failIf True e = Inl e"
  "failIf False e = Inr ()"
  by (simp_all add: failIf_def)

lemma failIf_ok [ok_iff]: "failIf c e = Inr u \<longleftrightarrow> \<not> c"
  by (simp add: failIf_def)

lemma andThen_failIf_ok [ok_iff]: "andThen (failIf c e) f = Inr y \<longleftrightarrow> \<not> c \<and> f () = Inr y"
  by (simp add: failIf_def)

text \<open>Changing the error type: a panic seen from a caller with a wider error type.\<close>

definition liftErr :: "('d \<Rightarrow> 'e) \<Rightarrow> 'd + 'a \<Rightarrow> 'e + 'a" where
  "liftErr h m = (case m of Inl e \<Rightarrow> Inl (h e) | Inr x \<Rightarrow> Inr x)"

lemma liftErr_simps [simp]:
  "liftErr h (Inl e) = Inl (h e)"
  "liftErr h (Inr x) = Inr x"
  by (simp_all add: liftErr_def)

lemma liftErr_ok [ok_iff]: "liftErr h m = Inr y \<longleftrightarrow> m = Inr y"
  by (cases m) simp_all

definition isOk :: "'e + 'a \<Rightarrow> bool" where
  "isOk m = (case m of Inl _ \<Rightarrow> False | Inr _ \<Rightarrow> True)"

lemma isOk_simps [simp]: "\<not> isOk (Inl e)" "isOk (Inr x)"
  by (simp_all add: isOk_def)

lemma isOk_iff: "isOk m \<longleftrightarrow> (\<exists>x. m = Inr x)"
  by (cases m) simp_all

section \<open>Checked indexing, slicing and dereferencing\<close>

definition index :: "'a list \<Rightarrow> nat \<Rightarrow> go_panic + 'a" where
  "index xs i = (if i < length xs then Inr (xs ! i) else Inl IndexOutOfRange)"

lemma index_ok [ok_iff]: "index xs i = Inr x \<longleftrightarrow> i < length xs \<and> xs ! i = x"
  by (simp add: index_def)

lemma index_in [simp]: "i < length xs \<Longrightarrow> index xs i = Inr (xs ! i)"
  by (simp add: index_def)

definition deref :: "'a option \<Rightarrow> go_panic + 'a" where
  "deref p = (case p of None \<Rightarrow> Inl NilPointer | Some x \<Rightarrow> Inr x)"

lemma deref_simps [simp]: "deref None = Inl NilPointer" "deref (Some x) = Inr x"
  by (simp_all add: deref_def)

lemma deref_ok [ok_iff]: "deref p = Inr x \<longleftrightarrow> p = Some x"
  by (cases p) simp_all

text \<open>
  A Go slice: the bytes up to its length, and the bytes of the underlying array between its
  length and its capacity. Indexing and \<open>b[lo:]\<close> check the length; \<open>b[lo:hi]\<close> checks the
  capacity only, so it can reach into the spare bytes.
\<close>

record slice =
  sl_data :: bytes
  sl_spare :: bytes

definition slice_index :: "slice \<Rightarrow> nat \<Rightarrow> go_panic + byte" where
  "slice_index b i = index (sl_data b) i"

definition slice_from :: "slice \<Rightarrow> nat \<Rightarrow> go_panic + slice" where
  "slice_from b lo =
     (if lo \<le> length (sl_data b)
      then Inr \<lparr>sl_data = drop lo (sl_data b), sl_spare = sl_spare b\<rparr>
      else Inl SliceOutOfRange)"

definition slice_range :: "slice \<Rightarrow> nat \<Rightarrow> nat \<Rightarrow> go_panic + bytes" where
  "slice_range b lo hi =
     (if lo \<le> hi \<and> hi \<le> length (sl_data b @ sl_spare b)
      then Inr (take (hi - lo) (drop lo (sl_data b @ sl_spare b)))
      else Inl SliceOutOfRange)"

lemma slice_from_ok [ok_iff]:
  "slice_from b lo = Inr c \<longleftrightarrow>
     lo \<le> length (sl_data b) \<and> c = \<lparr>sl_data = drop lo (sl_data b), sl_spare = sl_spare b\<rparr>"
  by (auto simp: slice_from_def)

lemma slice_range_ok [ok_iff]:
  "slice_range b lo hi = Inr c \<longleftrightarrow>
     lo \<le> hi \<and> hi \<le> length (sl_data b) + length (sl_spare b)
     \<and> c = take (hi - lo) (drop lo (sl_data b @ sl_spare b))"
  by (auto simp: slice_range_def)

text \<open>\<open>b[offs:]\<close> of a slice whose spare bytes are not looked at.\<close>

definition bytes_from :: "bytes \<Rightarrow> int \<Rightarrow> go_panic + bytes" where
  "bytes_from b offs =
     (if 0 \<le> offs \<and> offs \<le> int (length b) then Inr (drop (nat offs) b) else Inl SliceOutOfRange)"

lemma bytes_from_in [simp]: "n \<le> length b \<Longrightarrow> bytes_from b (int n) = Inr (drop n b)"
  by (simp add: bytes_from_def)

lemma bytes_from_ok [ok_iff]:
  "bytes_from b offs = Inr c \<longleftrightarrow> 0 \<le> offs \<and> offs \<le> int (length b) \<and> c = drop (nat offs) b"
  by (auto simp: bytes_from_def)

text \<open>
  \<open>make([]T, n)\<close> panics on a negative length and on one whose bytes exceed the address space
  of the run time (2^48 on amd64); running out of memory below that limit is not modelled.
\<close>

definition make_ok :: "int \<Rightarrow> int \<Rightarrow> bool" where
  "make_ok elem_size n \<longleftrightarrow> 0 \<le> n \<and> elem_size * n \<le> 2 ^ 48"

section \<open>Loops over lists that can stop with an error\<close>

fun concatE :: "('a \<Rightarrow> 'e + 'b list) \<Rightarrow> 'a list \<Rightarrow> 'e + 'b list" where
  "concatE f [] = Inr []"
| "concatE f (x # xs) =
     andThen (f x) (\<lambda>ys. andThen (concatE f xs) (\<lambda>zs. Inr (ys @ zs)))"

lemma concatE_Inr: "(\<And>x. x \<in> set xs \<Longrightarrow> f x = Inr (g x)) \<Longrightarrow> concatE f xs = Inr (concat (map g xs))"
  by (induction xs) simp_all

section \<open>Words\<close>

lemma byte_of_nat_unat: "n < 256 \<Longrightarrow> unat (of_nat n :: byte) = n"
  by (simp add: unat_of_nat take_bit_eq_mod)

lemma byte_lt_256 [simp]: "unat (b :: byte) < 256"
  using unsigned_less [of b] by simp

lemma byte_low7: "unat ((b :: byte) AND 0x7f) = unat b mod 128"
proof -
  have "b AND 0x7f = take_bit 7 b" by (simp add: take_bit_eq_mask mask_eq_exp_minus_1)
  then have "unat (b AND 0x7f) = take_bit 7 (unat b)" by (simp only: unsigned_take_bit_eq)
  then show ?thesis by (simp only: take_bit_eq_mod) simp
qed

lemma unat_add_small:
  "unat a + unat b < 2 ^ LENGTH('a) \<Longrightarrow> unat ((a :: 'a::len word) + b) = unat a + unat b"
  by (simp add: unat_word_ariths)

lemma unat_mult_small:
  "unat a * unat b < 2 ^ LENGTH('a) \<Longrightarrow> unat ((a :: 'a::len word) * b) = unat a * unat b"
  by (simp add: unat_word_ariths)

lemma unat_sub_small: "unat b \<le> unat a \<Longrightarrow> unat ((a :: 'a::len word) - b) = unat a - unat b"
  by (simp add: unat_sub word_le_nat_alt)

end
