(* ===== verification/Encoding.thy ===== *)
theory Encoding
  imports Prelude
begin

text \<open>
  The byte encodings of \<open>lib/btc/funcs.go\<close>: little-endian integers (\<open>encoding/binary\<close>), the
  variable-length integers in their five source variants (\<open>PutVlen\<close>, \<open>PutULe\<close>,
  \<open>WriteVlen\<close>, \<open>VLenSize\<close> and the readers \<open>VLen\<close>, \<open>VULe\<close>, \<open>ReadVLen\<close>), and the amount
  compression used by the UTXO records. A locale states what a prefix codec promises; its
  instances carry the round trips of the transaction format.
\<close>

section \<open>Little-endian integers\<close>

text \<open>\<open>le_bytes n x\<close> is \<open>PutUint16/32/64\<close>: byte \<open>i\<close> is \<open>byte(x >> (8*i))\<close>.\<close>

definition le_bytes :: "nat \<Rightarrow> 'a::len word \<Rightarrow> bytes" where
  "le_bytes n x = map (\<lambda>i. ucast (drop_bit (8 * i) x)) [0..<n]"

text \<open>\<open>le_word\<close> is \<open>Uint16/32/64\<close>: \<open>b[0] | b[1] << 8 | \<dots>\<close>.\<close>

fun le_word :: "bytes \<Rightarrow> 'a::len word" where
  "le_word [] = 0"
| "le_word (b # bs) = ucast b OR push_bit 8 (le_word bs)"

lemma length_le_bytes [simp]: "length (le_bytes n x) = n"
  by (simp add: le_bytes_def)

lemma bit_le_word:
  "bit (le_word bs :: 'a::len word) i \<longleftrightarrow>
     i < LENGTH('a) \<and> i div 8 < length bs \<and> bit (bs ! (i div 8)) (i mod 8)"
proof (induction bs arbitrary: i)
  case Nil
  then show ?case by simp
next
  case (Cons b bs)
  show ?case
  proof (cases "i < 8")
    case True
    then show ?thesis
      by (auto simp: bit_or_iff bit_push_bit_iff bit_ucast_iff dest: bit_imp_le_length)
  next
    case False
    then have "i div 8 = Suc ((i - 8) div 8)" "i mod 8 = (i - 8) mod 8"
      by (simp_all add: le_div_geq le_mod_geq)
    moreover from False have "\<not> bit b i"
      using bit_imp_le_length [of b i] by auto
    ultimately show ?thesis
      using False Cons.IH [of "i - 8"] by (auto simp: bit_or_iff bit_push_bit_iff bit_ucast_iff)
  qed
qed

lemma le_word_le_bytes [simp]:
  assumes "LENGTH('a) \<le> 8 * n"
  shows "(le_word (le_bytes n (x :: 'a::len word)) :: 'b::len word) = ucast x"
proof (rule bit_eqI)
  fix i
  assume *: "possible_bit TYPE('b word) i"
  have "bit x i \<Longrightarrow> i div 8 < n"
    using bit_imp_le_length [of x i] assms by simp
  moreover have "8 * (i div 8) + i mod 8 = i" by simp
  ultimately show "bit (le_word (le_bytes n x) :: 'b word) i = bit (ucast x :: 'b word) i"
    using * by (auto simp: bit_le_word le_bytes_def bit_ucast_iff bit_drop_bit_eq simp del: mult_div_mod_eq)
qed

lemma take_le_bytes [simp]: "take n (le_bytes n x @ rest) = le_bytes n x"
  and drop_le_bytes [simp]: "drop n (le_bytes n x @ rest) = rest"
  by simp_all

section \<open>Variable-length integers\<close>

text \<open>
  \<open>PutVlen\<close> and \<open>PutULe\<close> write into the front of a buffer; \<open>put_front\<close> is that write,
  with the index panic of a short buffer. The argument of \<open>PutVlen\<close> is cut to 32 bits first.
\<close>

definition put_front :: "bytes \<Rightarrow> bytes \<Rightarrow> go_panic + bytes \<times> nat" where
  "put_front buf ws =
     (if length ws \<le> length buf then Inr (ws @ drop (length ws) buf, length ws)
      else Inl IndexOutOfRange)"

definition PutVlen :: "bytes \<Rightarrow> int \<Rightarrow> go_panic + bytes \<times> nat" where
  "PutVlen b vl =
     (let uvl = (word_of_int vl :: u32) in
      if uvl < 0xfd then put_front b [ucast uvl]
      else if uvl < 0x10000 then put_front b [0xfd, ucast uvl, ucast (drop_bit 8 uvl)]
      else put_front b [0xfe, ucast uvl, ucast (drop_bit 8 uvl), ucast (drop_bit 16 uvl),
             ucast (drop_bit 24 uvl)])"

definition PutULe :: "bytes \<Rightarrow> u64 \<Rightarrow> go_panic + bytes \<times> nat" where
  "PutULe b uvl =
     (if uvl < 0xfd then put_front b [ucast uvl]
      else if uvl < 0x10000 then put_front b (0xfd # le_bytes 2 (ucast uvl :: u16))
      else if uvl < 0x100000000 then put_front b (0xfe # le_bytes 4 (ucast uvl :: u32))
      else put_front b (0xff # le_bytes 8 uvl))"

definition VLenSize :: "u64 \<Rightarrow> nat" where
  "VLenSize uvl =
     (if uvl < 0xfd then 1 else if uvl < 0x10000 then 3 else if uvl < 0x100000000 then 5 else 9)"

text \<open>\<open>VLen\<close> returns an \<open>int\<close>: the 64-bit form is reinterpreted as signed.\<close>

definition VLen :: "bytes \<Rightarrow> int \<times> nat" where
  "VLen b =
     (case b of
        [] \<Rightarrow> (0, 0)
      | b0 # r \<Rightarrow>
          if b0 = 0xfd then
            (if length b \<ge> 3 then (uint (le_word (take 2 r) :: u16), 3) else (0, 0))
          else if b0 = 0xfe then
            (if length b \<ge> 5 then (uint (le_word (take 4 r) :: u32), 5) else (0, 0))
          else if b0 = 0xff then
            (if length b \<ge> 9 then (sint (le_word (take 8 r) :: u64), 9) else (0, 0))
          else (uint b0, 1))"

definition VULe :: "bytes \<Rightarrow> u64 \<times> nat" where
  "VULe b =
     (case b of
        [] \<Rightarrow> (0, 0)
      | b0 # r \<Rightarrow>
          if b0 = 0xfd then
            (if length b \<ge> 3 then (ucast (le_word (take 2 r) :: u16), 3) else (0, 0))
          else if b0 = 0xfe then
            (if length b \<ge> 5 then (ucast (le_word (take 4 r) :: u32), 5) else (0, 0))
          else if b0 = 0xff then
            (if length b \<ge> 9 then (le_word (take 8 r), 9) else (0, 0))
          else (ucast b0, 1))"

text \<open>
  A reader is the list of the bytes still to come. \<open>io.ReadFull\<close> into a buffer of \<open>n\<close> bytes
  takes exactly \<open>n\<close> or fails.
\<close>

datatype io_error = EOF | UnexpectedEOF

definition ReadFull :: "bytes \<Rightarrow> nat \<Rightarrow> io_error + bytes \<times> bytes" where
  "ReadFull rd n =
     (if n \<le> length rd then Inr (take n rd, drop n rd)
      else if rd = [] then Inl EOF else Inl UnexpectedEOF)"

definition ReadVLen :: "bytes \<Rightarrow> io_error + u64 \<times> bytes" where
  "ReadVLen rd =
     andThen (ReadFull rd 1) (\<lambda>(buf, rd).
       let b0 = hd buf in
       if b0 < 0xfd then Inr (ucast b0, rd)
       else
         let c = push_bit (unat (2 - (0xff - b0))) (2 :: nat) in
         andThen (ReadFull rd c) (\<lambda>(buf, rd). Inr (le_word buf, rd)))"

definition WriteVlen :: "u64 \<Rightarrow> bytes" where
  "WriteVlen var_len =
     (if var_len < 0xfd then [ucast var_len]
      else if var_len < 0x10000 then 0xfd # le_bytes 2 (ucast var_len :: u16)
      else if var_len < 0x100000000 then 0xfe # le_bytes 4 (ucast var_len :: u32)
      else 0xff # le_bytes 8 var_len)"

abbreviation vlen_of :: "nat \<Rightarrow> bytes" where
  "vlen_of n \<equiv> WriteVlen (of_nat n)"

lemma length_WriteVlen: "length (WriteVlen x) = VLenSize x"
  by (simp add: WriteVlen_def VLenSize_def)

lemma WriteVlen_nonempty [simp]: "WriteVlen x \<noteq> []"
  by (simp add: WriteVlen_def)


text \<open>The three readers undo the writers, whatever follows.\<close>

lemma sint_small: "uint (x :: u64) < 2 ^ 63 \<Longrightarrow> sint x = uint x"
  by (simp add: sint_uint signed_take_bit_int_eq_self_iff order.trans [of _ 0])

lemma uint_ucast_lt:
  "uint x < 2 ^ LENGTH('b) \<Longrightarrow> uint (ucast (x :: 'a::len word) :: 'b::len word) = uint x"
  by (simp add: unsigned_ucast_eq take_bit_int_eq_self)

lemma ucast_ucast_lt:
  "uint x < 2 ^ LENGTH('b) \<Longrightarrow> ucast (ucast (x :: 'a::len word) :: 'b::len word) = x"
  by (rule word_uint_eqI) (simp add: unsigned_ucast_eq unsigned_take_bit_eq take_bit_int_eq_self)

lemma ucast_ucast_small:
  "x < 0xfd \<Longrightarrow> ucast (ucast (x :: u64) :: byte) = x"
  "x < 0x10000 \<Longrightarrow> ucast (ucast (x :: u64) :: u16) = x"
  "x < 0x100000000 \<Longrightarrow> ucast (ucast (x :: u64) :: u32) = x"
  by (auto simp: word_less_alt intro!: ucast_ucast_lt)

lemma ucast_small_not_marker:
  assumes "(x :: u64) < 0xfd"
  shows "(ucast x :: byte) \<noteq> 0xfd" "(ucast x :: byte) \<noteq> 0xfe" "(ucast x :: byte) \<noteq> 0xff"
    "(ucast x :: byte) < 0xfd"
proof -
  have *: "ucast (ucast x :: byte) = x" using assms by (rule ucast_ucast_small)
  show "(ucast x :: byte) \<noteq> 0xfd" "(ucast x :: byte) \<noteq> 0xfe" "(ucast x :: byte) \<noteq> 0xff"
    using * assms by auto
  show "(ucast x :: byte) < 0xfd"
    using assms uint_ucast_lt [of x, where 'b = 8] by (simp add: word_less_alt)
qed

lemma VULe_WriteVlen [simp]: "VULe (WriteVlen x @ rest) = (x, VLenSize x)"
  by (simp add: WriteVlen_def VULe_def VLenSize_def ucast_small_not_marker ucast_ucast_small)

lemma VLen_VULe: "VLen b = (sint (fst (VULe b)), snd (VULe b))"
proof -
  have "uint w = sint (ucast (w :: u16) :: u64)" "uint v = sint (ucast (v :: u32) :: u64)"
    "uint u = sint (ucast (u :: byte) :: u64)" for w v u
    using uint_lt2p [of w] uint_lt2p [of v] uint_lt2p [of u]
    by (simp_all add: sint_small uint_up_ucast is_up)
  then show ?thesis
    by (simp add: VLen_def VULe_def split: list.split)
qed

lemma VLen_WriteVlen [simp]: "VLen (WriteVlen x @ rest) = (sint x, VLenSize x)"
  by (simp add: VLen_VULe)

lemma ReadVLen_WriteVlen [simp]: "ReadVLen (WriteVlen x @ rest) = Inr (x, rest)"
  by (simp add: WriteVlen_def ReadVLen_def ReadFull_def ucast_small_not_marker ucast_ucast_small)

lemma VULe_size: "snd (VULe b) \<le> length b"
  by (simp add: VULe_def split: list.split)

lemma VLen_size: "VLen b = (le, n) \<Longrightarrow> n \<le> length b"
  using VULe_size [of b] by (simp add: VLen_VULe)

lemma put_front_ok: "put_front b ws = Inr (b', n) \<longleftrightarrow>
    length ws \<le> length b \<and> b' = ws @ drop (length ws) b \<and> n = length ws"
  by (auto simp: put_front_def)
end
