(* ===== verification/Opcodes.thy ===== *)
theory Opcodes
  imports Encoding
begin

text \<open>
  Reading and writing script instructions: \<open>GetOpcode\<close>, the scans built on it (\<open>IsPushOnly\<close>,
  the signature-operation counts, \<open>IsWitnessProgram\<close>) and the push encoders of
  \<open>lib/btc/funcs.go\<close> and \<open>lib/btc/script.go\<close>. A scan over \<open>scr[pc:]\<close> is a recursion on the
  remaining bytes; \<open>script_ops\<close>, the parsed instruction list, is what the scans are specified by.
\<close>

section \<open>Constants of \<open>lib/btc/const.go\<close> and \<open>lib/btc/opcodes.go\<close>\<close>

abbreviation (input) OP_PUSHDATA1 :: nat where "OP_PUSHDATA1 \<equiv> 0x4c"
abbreviation (input) OP_PUSHDATA2 :: nat where "OP_PUSHDATA2 \<equiv> 0x4d"
abbreviation (input) OP_PUSHDATA4 :: nat where "OP_PUSHDATA4 \<equiv> 0x4e"
abbreviation (input) OP_16 :: nat where "OP_16 \<equiv> 0x60"
abbreviation (input) MAX_SCRIPT_ELEMENT_SIZE :: nat where "MAX_SCRIPT_ELEMENT_SIZE \<equiv> 520"
abbreviation (input) MAX_PUBKEYS_PER_MULTISIG :: nat where "MAX_PUBKEYS_PER_MULTISIG \<equiv> 20"

section \<open>\<open>GetOpcode\<close>\<close>

datatype opcode_error =
    GetOpcodeError1
  | GetOpcodeError2
  | GetOpcodeError3
  | GetOpcodeError4
  | SizeExceedsRemaining nat nat

text \<open>
  The instruction at the front of \<open>b\<close>: its opcode, the bytes it pushes (\<open>None\<close> is the nil of a
  non-push), and its length. The four-byte size of \<open>OP_PUSHDATA4\<close> is read with \<open>Uint16\<close>, as in
  the code: only its low 16 bits count.
\<close>

definition fetch_push :: "bytes \<Rightarrow> nat \<Rightarrow> nat \<Rightarrow> nat \<Rightarrow> opcode_error + nat \<times> bytes option \<times> nat" where
  "fetch_push b opcode siz pc =
     (if pc + siz > length b then Inl (SizeExceedsRemaining (pc + siz) (length b))
      else Inr (opcode, Some (take siz (drop pc b)), pc + siz))"

definition GetOpcode :: "bytes \<Rightarrow> opcode_error + nat \<times> bytes option \<times> nat" where
  "GetOpcode b =
     (if 1 > length b then Inl GetOpcodeError1
      else
        let opcode = unat (b ! 0) in
        if opcode \<le> OP_PUSHDATA4 then
          if opcode = OP_PUSHDATA1 then
            if 2 > length b then Inl GetOpcodeError2
            else fetch_push b opcode (unat (b ! 1)) 2
          else if opcode = OP_PUSHDATA2 then
            if 3 > length b then Inl GetOpcodeError3
            else fetch_push b opcode (unat (le_word (take 2 (drop 1 b)) :: u16)) 3
          else if opcode = OP_PUSHDATA4 then
            if 5 > length b then Inl GetOpcodeError4
            else fetch_push b opcode (unat (le_word (take 2 (take 4 (drop 1 b))) :: u16)) 5
          else fetch_push b opcode opcode 1
        else Inr (opcode, None, 1))"

lemma fetch_push_ok [ok_iff]: "fetch_push b opc siz pc = Inr (op, d, n) \<longleftrightarrow>
    pc + siz \<le> length b \<and> op = opc \<and> d = Some (take siz (drop pc b)) \<and> n = pc + siz"
  by (auto simp: fetch_push_def)

text \<open>The value on each form of instruction, by the shape of the bytes.\<close>

lemma GetOpcode_Nil [simp]: "GetOpcode [] = Inl GetOpcodeError1"
  by (simp add: GetOpcode_def)

lemma GetOpcode_short [go_eval]:
  "unat b0 < OP_PUSHDATA1 \<Longrightarrow> GetOpcode (b0 # r) =
     (if unat b0 \<le> length r then Inr (unat b0, Some (take (unat b0) r), 1 + unat b0)
      else Inl (SizeExceedsRemaining (1 + unat b0) (1 + length r)))"
  by (simp add: GetOpcode_def fetch_push_def Let_def)

lemma GetOpcode_PUSHDATA1 [go_eval]:
  "GetOpcode (0x4c # s # r) =
     (if unat s \<le> length r then Inr (OP_PUSHDATA1, Some (take (unat s) r), 2 + unat s)
      else Inl (SizeExceedsRemaining (2 + unat s) (2 + length r)))"
  by (simp add: GetOpcode_def fetch_push_def Let_def)

lemma GetOpcode_PUSHDATA2 [go_eval]:
  "GetOpcode (0x4d # s0 # s1 # r) =
     (let s = unat (le_word [s0, s1] :: u16) in
      if s \<le> length r then Inr (OP_PUSHDATA2, Some (take s r), 3 + s)
      else Inl (SizeExceedsRemaining (3 + s) (3 + length r)))"
  by (simp add: GetOpcode_def fetch_push_def Let_def)

lemma GetOpcode_PUSHDATA4 [go_eval]:
  "GetOpcode (0x4e # s0 # s1 # s2 # s3 # r) =
     (let s = unat (le_word [s0, s1] :: u16) in
      if s \<le> length r then Inr (OP_PUSHDATA4, Some (take s r), 5 + s)
      else Inl (SizeExceedsRemaining (5 + s) (5 + length r)))"
  by (simp add: GetOpcode_def fetch_push_def Let_def)

lemma GetOpcode_nonpush [go_eval]:
  "OP_PUSHDATA4 < unat b0 \<Longrightarrow> GetOpcode (b0 # r) = Inr (unat b0, None, 1)"
  by (simp add: GetOpcode_def)

text \<open>
  Conversely a successful read splits the bytes into a header (the opcode and, for the long
  pushes, the size), the pushed bytes and the rest.
\<close>

datatype op_form = FShort byte | FPush1 byte | FPush2 byte byte | FPush4 byte byte byte byte | FOp byte

fun form_header :: "op_form \<Rightarrow> bytes" where
  "form_header (FShort b) = [b]"
| "form_header (FPush1 s) = [0x4c, s]"
| "form_header (FPush2 s0 s1) = [0x4d, s0, s1]"
| "form_header (FPush4 s0 s1 s2 s3) = [0x4e, s0, s1, s2, s3]"
| "form_header (FOp b) = [b]"

fun form_size :: "op_form \<Rightarrow> nat" where
  "form_size (FShort b) = unat b"
| "form_size (FPush1 s) = unat s"
| "form_size (FPush2 s0 s1) = unat (le_word [s0, s1] :: u16)"
| "form_size (FPush4 s0 s1 _ _) = unat (le_word [s0, s1] :: u16)"
| "form_size (FOp b) = 0"

fun form_ok :: "op_form \<Rightarrow> bool" where
  "form_ok (FShort b) = (unat b < OP_PUSHDATA1)"
| "form_ok (FOp b) = (OP_PUSHDATA4 < unat b)"
| "form_ok _ = True"

definition form_data :: "op_form \<Rightarrow> bytes \<Rightarrow> bytes option" where
  "form_data f d = (case f of FOp _ \<Rightarrow> None | _ \<Rightarrow> Some d)"

lemma GetOpcode_form:
  "form_ok f \<Longrightarrow> length d = form_size f \<Longrightarrow>
     GetOpcode (form_header f @ d @ c) =
       Inr (unat (hd (form_header f)), form_data f d, length (form_header f) + length d)"
  by (cases f) (auto simp: GetOpcode_short GetOpcode_PUSHDATA1 GetOpcode_PUSHDATA2
      GetOpcode_PUSHDATA4 GetOpcode_nonpush form_data_def Let_def)

lemma GetOpcode_okE:
  assumes "GetOpcode b = Inr (op, d, n)"
  obtains f p c where "form_ok f" "length p = form_size f" "b = form_header f @ p @ c"
    "op = unat (hd (form_header f))" "d = form_data f p" "n = length (form_header f) + length p"
proof -
  from assms obtain b0 r where b: "b = b0 # r" by (cases b) auto
  have "unat b0 < OP_PUSHDATA1 \<or> unat b0 = 0x4c \<or> unat b0 = 0x4d \<or> unat b0 = 0x4e \<or> OP_PUSHDATA4 < unat b0"
    by linarith
  then consider "unat b0 < OP_PUSHDATA1" | "b0 = 0x4c" | "b0 = 0x4d" | "b0 = 0x4e" | "OP_PUSHDATA4 < unat b0"
    by (auto simp: word_unat_eq_iff)
  then show thesis
  proof cases
    case 1
    with assms b have "unat b0 \<le> length r \<and> op = unat b0 \<and> d = Some (take (unat b0) r) \<and> n = 1 + unat b0"
      by (auto simp: GetOpcode_short split: if_splits)
    with 1 b show ?thesis
      by (intro that [of "FShort b0" "take (unat b0) r" "drop (unat b0) r"]) (simp_all add: form_data_def)
  next
    case 2
    with assms b obtain s r' where r: "r = s # r'"
      by (cases r) (auto simp: GetOpcode_def split: if_splits)
    with 2 assms b have "unat s \<le> length r' \<and> op = unat b0 \<and> d = Some (take (unat s) r') \<and> n = 2 + unat s"
      by (simp add: GetOpcode_PUSHDATA1 split: if_splits)
    with 2 b r show ?thesis
      by (intro that [of "FPush1 s" "take (unat s) r'" "drop (unat s) r'"]) (simp_all add: form_data_def)
  next
    case 3
    with assms b have "2 \<le> length r"
      by (simp add: GetOpcode_def Let_def split: if_splits)
    then obtain s0 s1 r' where r: "r = s0 # s1 # r'"
      by (auto simp: numeral_eq_Suc Suc_le_length_iff)
    define s where "s = unat (le_word [s0, s1] :: u16)"
    from 3 assms b r have "s \<le> length r' \<and> op = unat b0 \<and> d = Some (take s r') \<and> n = 3 + s"
      by (simp add: GetOpcode_PUSHDATA2 flip: s_def del: le_word.simps split: if_splits)
    with 3 b r show ?thesis
      by (intro that [of "FPush2 s0 s1" "take s r'" "drop s r'"])
         (simp_all add: form_data_def s_def del: le_word.simps)
  next
    case 4
    with assms b have "4 \<le> length r"
      by (simp add: GetOpcode_def Let_def split: if_splits)
    then obtain s0 s1 s2 s3 r' where r: "r = s0 # s1 # s2 # s3 # r'"
      by (auto simp: numeral_eq_Suc Suc_le_length_iff)
    define s where "s = unat (le_word [s0, s1] :: u16)"
    from 4 assms b r have "s \<le> length r' \<and> op = unat b0 \<and> d = Some (take s r') \<and> n = 5 + s"
      by (simp add: GetOpcode_PUSHDATA4 flip: s_def del: le_word.simps split: if_splits)
    with 4 b r show ?thesis
      by (intro that [of "FPush4 s0 s1 s2 s3" "take s r'" "drop s r'"])
         (simp_all add: form_data_def s_def del: le_word.simps)
  next
    case 5
    with assms b have "op = unat b0 \<and> d = None \<and> n = 1"
      by (simp add: GetOpcode_nonpush)
    with 5 b show ?thesis
      by (intro that [of "FOp b0" "[]" r]) (simp_all add: form_data_def)
  qed
qed

lemma form_header_nonempty [simp]: "form_header f \<noteq> []"
  by (cases f) simp_all

lemma GetOpcode_ok_size:
  assumes "GetOpcode b = Inr (op, d, n)"
  shows "0 < n \<and> n \<le> length b"
  using assms by (rule GetOpcode_okE) simp

lemma GetOpcode_ok_op: "GetOpcode b = Inr (op, d, n) \<Longrightarrow> b \<noteq> [] \<and> op = unat (b ! 0) \<and> op < 256"
  by (erule GetOpcode_okE) (auto simp: nth_append hd_conv_nth)

lemma GetOpcode_push_iff:
  assumes "GetOpcode b = Inr (op, d, n)"
  shows "op \<le> OP_PUSHDATA4 \<longleftrightarrow> d \<noteq> None"
  using assms
proof (rule GetOpcode_okE)
  fix f p assume "form_ok f" "op = unat (hd (form_header f))" "d = form_data f p"
  then show ?thesis by (cases f) (simp_all add: form_data_def)
qed

lemma drop_shorter [termination_simp]:
  "b \<noteq> [] \<Longrightarrow> GetOpcode b = Inr (op, d, n) \<Longrightarrow> length b - n < length b"
  using GetOpcode_ok_size by force

text \<open>The instruction depends on its own bytes only.\<close>

lemma GetOpcode_prefix:
  assumes "GetOpcode b = Inr (op, d, n)"
  shows "GetOpcode (take n b @ c) = Inr (op, d, n)"
  using assms by (rule GetOpcode_okE) (simp add: GetOpcode_form)

lemma GetOpcode_append:
  assumes "GetOpcode b = Inr (op, d, n)"
  shows "GetOpcode (b @ c) = Inr (op, d, n)"
  using GetOpcode_prefix [OF assms, of "drop n b @ c"] by (simp flip: append_assoc)

section \<open>The instruction list of a script\<close>

text \<open>
  Not a function of the code: the instructions a scan meets, each with its pushed bytes and its
  own bytes, and whether the scan reached the end of the script without an error.
\<close>

function script_ops :: "bytes \<Rightarrow> (nat \<times> bytes option \<times> bytes) list \<times> bool" where
  "script_ops scr =
     (if scr = [] then ([], True)
      else case GetOpcode scr of
             Inl _ \<Rightarrow> ([], False)
           | Inr (op, d, n) \<Rightarrow>
               (let (ops, ok) = script_ops (drop n scr) in ((op, d, take n scr) # ops, ok)))"
  by pat_completeness auto
termination by (relation "measure length") (auto simp: drop_shorter)

declare script_ops.simps [simp del]

lemma script_ops_Nil [simp]: "script_ops [] = ([], True)"
  by (simp add: script_ops.simps)

lemma script_ops_concat:
  "snd (script_ops scr) \<Longrightarrow> concat (map (\<lambda>(_, _, raw). raw) (fst (script_ops scr))) = scr"
proof (induction scr rule: script_ops.induct)
  case (1 scr)
  then show ?case
    by (auto simp: script_ops.simps [of scr] split: sum.splits prod.splits if_splits)
qed

section \<open>Scans\<close>

text \<open>\<open>IsPushOnly\<close>: no instruction above \<open>OP_16\<close>, and no broken one.\<close>

function IsPushOnly :: "bytes \<Rightarrow> bool" where
  "IsPushOnly scr =
     (if scr = [] then True
      else case GetOpcode scr of
             Inl _ \<Rightarrow> False
           | Inr (op, _, n) \<Rightarrow> if op > OP_16 then False else IsPushOnly (drop n scr))"
  by pat_completeness auto
termination by (relation "measure length") (auto simp: drop_shorter)

definition DecodeOP_N :: "byte \<Rightarrow> int" where
  "DecodeOP_N opcode = (if opcode = 0 then 0 else uint opcode - 0x50)"

text \<open>
  \<open>GetSigOpCount\<close>. The loop carries the previous opcode (initially \<open>0xff\<close>) and the count, a
  \<open>uint\<close>; it stops at a broken instruction and at \<open>OP_RETURN\<close>.
\<close>

function sigop_loop :: "bool \<Rightarrow> bytes \<Rightarrow> byte \<Rightarrow> nat \<Rightarrow> nat" where
  "sigop_loop fAccurate scr lastOpcode n =
     (if scr = [] then n
      else case GetOpcode scr of
             Inl _ \<Rightarrow> n
           | Inr (opcode, _, le) \<Rightarrow>
               if opcode = 0x6a then n
               else
                 let n' = (if opcode = 0xac \<or> opcode = 0xad then n + 1
                           else if opcode = 0xae \<or> opcode = 0xaf then
                             (if fAccurate \<and> 0x51 \<le> lastOpcode \<and> lastOpcode \<le> 0x60
                              then n + nat (DecodeOP_N lastOpcode)
                              else n + MAX_PUBKEYS_PER_MULTISIG)
                           else n)
                 in sigop_loop fAccurate (drop le scr) (of_nat opcode) n')"
  by pat_completeness auto
termination by (relation "measure (\<lambda>(_, scr, _). length scr)") (auto simp: drop_shorter)

definition GetSigOpCount :: "bytes \<Rightarrow> bool \<Rightarrow> nat" where
  "GetSigOpCount scr fAccurate = sigop_loop fAccurate scr 0xff 0"

text \<open>\<open>GetP2SHSigOpCount\<close>: the count of the last item a push-only script leaves (nil if none).\<close>

function p2sh_last :: "bytes \<Rightarrow> bytes option \<Rightarrow> bytes option option" where
  "p2sh_last scr data =
     (if scr = [] then Some data
      else case GetOpcode scr of
             Inl _ \<Rightarrow> None
           | Inr (opcode, data', le) \<Rightarrow>
               if opcode > OP_16 then None else p2sh_last (drop le scr) data')"
  by pat_completeness auto
termination by (relation "measure (\<lambda>(scr, _). length scr)") (auto simp: drop_shorter)

definition bytes_of :: "bytes option \<Rightarrow> bytes" where
  "bytes_of d = (case d of None \<Rightarrow> [] | Some b \<Rightarrow> b)"

definition GetP2SHSigOpCount :: "bytes \<Rightarrow> nat" where
  "GetP2SHSigOpCount scr =
     (case p2sh_last scr None of
        None \<Rightarrow> 0
      | Some data \<Rightarrow> GetSigOpCount (bytes_of data) True)"

text \<open>\<open>IsWitnessProgram\<close>: version 0 and the nil program when the script is none.\<close>

definition IsWitnessProgram :: "bytes \<Rightarrow> int \<times> bytes option" where
  "IsWitnessProgram scr =
     (if length scr < 4 \<or> length scr > 42 then (0, None)
      else if scr ! 0 \<noteq> 0 \<and> (scr ! 0 < 0x51 \<or> scr ! 0 > 0x60) then (0, None)
      else if unat (scr ! 1) + 2 = length scr then (DecodeOP_N (scr ! 0), Some (drop 2 scr))
      else (0, None))"

definition WitnessSigOps :: "int \<Rightarrow> bytes \<Rightarrow> bytes list \<Rightarrow> nat" where
  "WitnessSigOps witversion witprogram witness =
     (if witversion = 0 then
        if length witprogram = 20 then 1
        else if length witprogram = 32 \<and> length witness > 0
        then GetSigOpCount (last witness) True
        else 0
      else 0)"

definition IsPayToScript :: "bytes \<Rightarrow> bool" where
  "IsPayToScript scr \<longleftrightarrow>
     length scr = 23 \<and> scr ! 0 = 0xa9 \<and> scr ! 1 = 0x14 \<and> scr ! 22 = 0x87"

section \<open>Writing pushes\<close>

text \<open>\<open>WritePutLen\<close>, with the comparison \<open>data_len <= OP_PUSHDATA1\<close> of the code.\<close>

definition WritePutLen :: "u32 \<Rightarrow> bytes" where
  "WritePutLen data_len =
     (if data_len \<le> 0x4c then [ucast data_len]
      else if data_len < 0x100 then [0x4c, ucast data_len]
      else if data_len < 0x10000 then 0x4d # le_bytes 2 (ucast data_len :: u16)
      else 0x4e # le_bytes 4 data_len)"

definition RawToStack :: "bytes \<Rightarrow> bytes" where
  "RawToStack sig =
     (if length sig = 1 \<and> sig ! 0 = 0x81 then [0x4f]
      else if length sig = 1 \<and> (sig ! 0 = 0x80 \<or> sig ! 0 = 0x00) then [0x00]
      else if length sig = 1 \<and> sig ! 0 \<le> 16 then [0x51 - 1 + sig ! 0]
      else
        (if length sig < OP_PUSHDATA1 then [of_nat (length sig)]
         else if length sig \<le> 0xff then [0x4c, of_nat (length sig)]
         else if length sig \<le> 0xffff then 0x4d # le_bytes 2 (of_nat (length sig) :: u16)
         else 0x4e # le_bytes 4 (of_nat (length sig) :: u32)) @ sig)"

declare IsPushOnly.simps [simp del] sigop_loop.simps [simp del] p2sh_last.simps [simp del]

text \<open>
  The scans against the parsed instruction list: a push-only script parses to the end and its instructions
  are at most \<open>OP_16\<close>; the count of a P2SH input is that of the data of its last instruction.
\<close>

lemma IsPushOnly_script_ops:
  "IsPushOnly scr \<longleftrightarrow> snd (script_ops scr) \<and> list_all (\<lambda>(op, _). op \<le> OP_16) (fst (script_ops scr))"
proof (induction scr rule: IsPushOnly.induct)
  case (1 scr)
  show ?case
  proof (cases "scr = []")
    case False
    with 1 show ?thesis
      by (subst IsPushOnly.simps, subst (1 2) script_ops.simps)
         (auto simp: Let_def not_less split: sum.split prod.splits)
  qed (simp add: IsPushOnly.simps)
qed

lemma p2sh_last_script_ops:
  "p2sh_last scr data = (if IsPushOnly scr then Some (last (data # map (\<lambda>(_, d, _). d) (fst (script_ops scr)))) else None)"
proof (induction scr data rule: p2sh_last.induct)
  case (1 scr data)
  show ?case
  proof (cases "scr = []")
    case False
    with 1 show ?thesis
      by (subst p2sh_last.simps, subst IsPushOnly.simps, subst script_ops.simps)
         (auto simp: Let_def split: sum.split prod.splits)
  qed (simp add: p2sh_last.simps IsPushOnly.simps)
qed

end
