(* ===== verification/ScriptNum.thy ===== *)
theory ScriptNum
  imports Opcodes
begin

text \<open>
  The script stack and its numbers (\<open>lib/script/stack.go\<close>). \<open>scrStack.data\<close> grows at its end;
  the model keeps the top of the stack first, so \<open>top(-k)\<close> is the element \<open>k - 1\<close> and
  \<open>at(i)\<close> counts from the end. Stack elements are never written to in place, so sharing them
  is not visible. Numbers are \<open>int\<close>: the code's \<open>int64\<close> values come from at most five bytes
  and from sums and differences of two of them, so none of its operations can wrap.
\<close>

type_synonym stack = "bytes list"

abbreviation (input) nMaxNumSize :: nat where "nMaxNumSize \<equiv> 4"

section \<open>Pushing\<close>

definition push :: "bytes \<Rightarrow> stack \<Rightarrow> stack" where
  "push d s = d # s"

definition pushBool :: "bool \<Rightarrow> stack \<Rightarrow> stack" where
  "pushBool v s = (if v then [1] # s else [] # s)"

fun int_bytes :: "nat \<Rightarrow> bytes" where
  "int_bytes val = (if val = 0 then [] else of_nat val # int_bytes (val div 256))"

declare int_bytes.simps [simp del]

definition int_enc :: "int \<Rightarrow> bytes" where
  "int_enc val =
     (let negative = val < 0;
          d = int_bytes (nat (if negative then - val else val))
      in if val \<noteq> 0 then
           if negative then
             if last d AND 0x80 \<noteq> 0 then d @ [0x80]
             else d[length d - 1 := last d OR 0x80]
           else if last d AND 0x80 \<noteq> 0 then d @ [0x00]
           else d
         else d)"

definition pushInt :: "int \<Rightarrow> stack \<Rightarrow> stack" where
  "pushInt val s = int_enc val # s"

section \<open>Reading numbers and booleans\<close>

definition bts_num :: "bytes \<Rightarrow> int" where
  "bts_num d =
     (if length d = 0 then 0
      else
        let i = length d - 1;
            res = fold (\<lambda>i res. res OR push_bit (i * 8) (uint (d ! i))) [0..<i] 0
        in if d ! i AND 0x80 \<noteq> 0
           then - (res OR push_bit (i * 8) (uint (d ! i AND 0x7f)))
           else res OR push_bit (i * 8) (uint (d ! i)))"

definition bts2int :: "bytes \<Rightarrow> go_panic + int" where
  "bts2int d =
     (if length d > nMaxNumSize then Inl (ExplicitPanic ''Int on the stack is too long'')
      else Inr (bts_num d))"

definition is_minimal :: "bytes \<Rightarrow> bool" where
  "is_minimal d =
     (if length d > 0 then
        if d ! (length d - 1) AND 0x7f = 0 then
          \<not> (length d \<le> 1 \<or> d ! (length d - 2) AND 0x80 = 0)
        else True
      else True)"

definition bts2int_ext :: "bytes \<Rightarrow> nat \<Rightarrow> bool \<Rightarrow> go_panic + int" where
  "bts2int_ext d max_bytes forcemin =
     (if length d > max_bytes then Inl (ExplicitPanic ''bts2int_ext: Int on the stack is too long'')
      else if length d = 0 then Inr 0
      else if forcemin \<and> \<not> is_minimal d then Inl (ExplicitPanic ''bts2int_ext: Not a minimal length'')
      else Inr (bts_num d))"

definition bts2bool :: "bytes \<Rightarrow> bool" where
  "bts2bool d =
     (if length d = 0 then False
      else if list_ex (\<lambda>i. d ! i \<noteq> 0) [0..<length d - 1] then True
      else d ! (length d - 1) AND 0x7f \<noteq> 0)"

section \<open>Access\<close>

definition pop :: "stack \<Rightarrow> go_panic + bytes \<times> stack" where
  "pop s = (case s of [] \<Rightarrow> Inl (ExplicitPanic ''stack is empty'') | d # s' \<Rightarrow> Inr (d, s'))"

definition popInt :: "bool \<Rightarrow> stack \<Rightarrow> go_panic + int \<times> stack" where
  "popInt check_for_min s =
     andThen (pop s) (\<lambda>(d, s').
     if check_for_min \<and> \<not> is_minimal d then Inl (ExplicitPanic ''Not minimal value'')
     else andThen (bts2int d) (\<lambda>v. Inr (v, s')))"

definition popBool :: "stack \<Rightarrow> go_panic + bool \<times> stack" where
  "popBool s = andThen (pop s) (\<lambda>(d, s'). Inr (bts2bool d, s'))"

text \<open>\<open>top k s\<close> is the code's \<open>s.top(-k)\<close>, \<open>topInt k\<close> its \<open>topInt(-k, _)\<close>.\<close>

definition top :: "nat \<Rightarrow> stack \<Rightarrow> go_panic + bytes" where
  "top k s = (if k = 0 then Inl IndexOutOfRange else index s (k - 1))"

definition at :: "nat \<Rightarrow> stack \<Rightarrow> go_panic + bytes" where
  "at i s = index (rev s) i"

definition topInt :: "nat \<Rightarrow> bool \<Rightarrow> stack \<Rightarrow> go_panic + int" where
  "topInt k check_for_min s =
     andThen (top k s) (\<lambda>d.
     if check_for_min \<and> \<not> is_minimal d then Inl (ExplicitPanic ''Not minimal value'')
     else bts2int d)"

definition topBool :: "nat \<Rightarrow> stack \<Rightarrow> go_panic + bool" where
  "topBool k s = andThen (top k s) (\<lambda>d. Inr (bts2bool d))"

definition nofalse :: "stack \<Rightarrow> bool" where
  "nofalse s = list_all bts2bool s"

text \<open>
  \<open>resize(siz)\<close> keeps the oldest \<open>siz\<close> elements. The code reslices, which may also grow a
  stack up to its capacity; its callers only shrink a non-empty stack to one element.
\<close>

definition resize :: "nat \<Rightarrow> stack \<Rightarrow> go_panic + stack" where
  "resize siz s = (if siz \<le> length s then Inr (drop (length s - siz) s) else Inl SliceOutOfRange)"

definition GetSerializeSize :: "stack \<Rightarrow> nat" where
  "GetSerializeSize s =
     VLenSize (of_nat (length s)) + sum_list (map (\<lambda>d. VLenSize (of_nat (length d)) + length d) s)"

lemma pop_Cons [simp]: "pop (d # s) = Inr (d, s)"
  by (simp add: pop_def)

lemma pop_Nil [simp]: "pop [] = Inl (ExplicitPanic ''stack is empty'')"
  by (simp add: pop_def)

lemma pop_ok [ok_iff]: "pop s = Inr (d, s') \<longleftrightarrow> s = d # s'"
  by (cases s) auto

lemma top_in [simp]: "0 < k \<Longrightarrow> k \<le> length s \<Longrightarrow> top k s = Inr (s ! (k - 1))"
  by (simp add: top_def)

lemma top_ok [ok_iff]: "top k s = Inr d \<longleftrightarrow> 0 < k \<and> k \<le> length s \<and> d = s ! (k - 1)"
  by (auto simp: top_def ok_iff)

section \<open>The value of a number\<close>

fun mag :: "bytes \<Rightarrow> nat" where
  "mag [] = 0"
| "mag (b # bs) = unat b + 256 * mag bs"

lemma mag_less: "mag d < 256 ^ length d"
proof (induction d)
  case (Cons b d)
  have "unat b + 256 * mag d < 256 + 256 * mag d" by simp
  also have "\<dots> \<le> 256 * 256 ^ length d" using Cons by simp
  finally show ?case by simp
qed simp

lemma mag_append: "mag (xs @ ys) = mag xs + 256 ^ length xs * mag ys"
  by (induction xs) (simp_all add: algebra_simps)

lemma or_push_bit_add:
  fixes a b :: int
  assumes "0 \<le> a" "a < 2 ^ n"
  shows "a OR push_bit n b = a + push_bit n b"
proof -
  have "take_bit n a = a" using assms by (simp add: take_bit_int_eq_self)
  then have "\<not> bit a k \<or> \<not> bit (push_bit n b) k" for k
    by (metis bit_push_bit_iff bit_take_bit_iff linorder_not_less)
  then show ?thesis by (simp add: disjunctive_add)
qed

lemma fold_or_mag:
  "i \<le> length d \<Longrightarrow>
   fold (\<lambda>i res. res OR push_bit (i * 8) (uint (d ! i))) [0..<i] 0 = int (mag (take i d))"
proof (induction i)
  case (Suc i)
  have "mag (take i d) < 2 ^ (i * 8)"
    using mag_less [of "take i d"] Suc.prems
    by (simp add: power_mult mult.commute [of i])
  then have "int (mag (take i d)) < 2 ^ (i * 8)" by (metis of_nat_less_numeral_power_cancel_iff)
  moreover have "mag (take (Suc i) d) = mag (take i d) + 2 ^ (i * 8) * unat (d ! i)"
    using Suc.prems by (simp add: take_Suc_conv_app_nth mag_append power_mult mult.commute [of i])
  ultimately show ?case
    using Suc.IH [OF Suc_leD [OF Suc.prems]]
    by (simp add: or_push_bit_add del: push_bit_of_nat) (simp add: push_bit_eq_mult)
qed simp

lemma byte_sign: "(b :: byte) AND 0x80 \<noteq> 0 \<longleftrightarrow> 128 \<le> unat b"
proof -
  have "b AND 0x80 \<noteq> 0 \<longleftrightarrow> bit b 7"
    using and_exp_eq_0_iff_not_bit [of b 7] by simp
  also have "\<dots> \<longleftrightarrow> bit (unat b) 7" by (simp add: bit_unsigned_iff)
  also have "\<dots> \<longleftrightarrow> odd (unat b div 128)" by (simp add: bit_iff_odd)
  also have "\<dots> \<longleftrightarrow> 128 \<le> unat b"
  proof -
    have "unat b div 128 < 2" using byte_lt_256 [of b] by linarith
    then consider "unat b div 128 = 0" | "unat b div 128 = 1" by linarith
    then show ?thesis by cases auto
  qed
  finally show ?thesis .
qed

lemma byte_low7_0: "(b :: byte) AND 0x7f = 0 \<longleftrightarrow> unat b mod 128 = 0"
  by (simp add: unat_eq_zero flip: byte_low7)

lemma bts_num_snoc:
  "bts_num (m @ [b]) =
     (if 128 \<le> unat b then - int (mag m + 256 ^ length m * (unat b mod 128))
      else int (mag m + 256 ^ length m * unat b))"
proof -
  have "mag m < 2 ^ (length m * 8)"
    using mag_less [of m] by (simp add: power_mult mult.commute [of _ 8])
  then have lt: "int (mag m) < 2 ^ (length m * 8)" by (metis of_nat_less_numeral_power_cancel_iff)
  have f: "fold (\<lambda>i res. res OR push_bit (i * 8) (uint ((m @ [b]) ! i))) [0..<length m] 0 = int (mag m)"
    using fold_or_mag [of "length m" "m @ [b]"] by simp
  have u: "uint (b AND 0x7f) = int (unat b mod 128)"
    by (simp only: uint_nat byte_low7)
  have p: "push_bit (length m * 8) (int x) = int (256 ^ length m * x)" for x
    by (simp add: push_bit_eq_mult power_mult mult.commute [of _ 8])
  have o: "int (mag m) OR push_bit (length m * 8) (int x) = int (mag m + 256 ^ length m * x)" for x
    unfolding or_push_bit_add [OF of_nat_0_le_iff lt] by (simp only: p of_nat_add)
  have i: "(m @ [b]) ! length m = b" "length (m @ [b]) - 1 = length m" "length (m @ [b]) \<noteq> 0"
    by simp_all
  show ?thesis
    by (simp only: bts_num_def Let_def i f u o uint_nat [of b] byte_sign if_False)
qed

definition num_mag :: "bytes \<Rightarrow> byte \<Rightarrow> nat" where
  "num_mag m b = mag m + 256 ^ length m * (unat b mod 128)"

lemma bts_num_mag: "bts_num (m @ [b]) = (if 128 \<le> unat b then - int (num_mag m b) else int (num_mag m b))"
  by (simp only: bts_num_snoc num_mag_def) simp

lemma num_mag_0: "num_mag m b = 0 \<longleftrightarrow> mag m = 0 \<and> unat b mod 128 = 0"
  by (simp add: num_mag_def)

lemma bts_num_Nil [simp]: "bts_num [] = 0"
  by (simp add: bts_num_def)

lemma is_minimal_Nil [simp]: "is_minimal []"
  by (simp add: is_minimal_def)

lemma is_minimal_snoc:
  "is_minimal (m @ [b]) \<longleftrightarrow> unat b mod 128 \<noteq> 0 \<or> (m \<noteq> [] \<and> 128 \<le> unat (last m))"
  using byte_sign [of "last m"]
  by (cases m rule: rev_cases) (auto simp: is_minimal_def byte_low7_0 nth_append)

lemma bts2bool_snoc: "bts2bool (m @ [b]) \<longleftrightarrow> mag m \<noteq> 0 \<or> unat b mod 128 \<noteq> 0"
proof -
  have "list_ex (\<lambda>i. (m @ [b]) ! i \<noteq> 0) [0..<length m] \<longleftrightarrow> (\<exists>i < length m. m ! i \<noteq> 0)"
    by (auto simp: list_ex_iff nth_append)
  also have "\<dots> \<longleftrightarrow> (\<exists>x \<in> set m. x \<noteq> 0)"
    by (auto simp: set_conv_nth)
  also have "\<dots> \<longleftrightarrow> mag m \<noteq> 0"
    by (induction m) (simp_all add: unat_eq_zero)
  finally show ?thesis by (simp add: bts2bool_def byte_low7_0)
qed

lemma bts2bool_Nil [simp]: "\<not> bts2bool []"
  by (simp add: bts2bool_def)

text \<open>A boolean is false exactly when its number is zero, of either sign and of any length.\<close>

lemma bts2bool_num: "bts2bool d \<longleftrightarrow> bts_num d \<noteq> 0"
proof (cases d rule: rev_cases)
  case (snoc m b)
  show ?thesis
    by (simp only: snoc bts2bool_snoc bts_num_mag num_mag_0 if_split_eq1 neg_equal_0_iff_equal of_nat_eq_0_iff split: if_split) argo
qed simp

text \<open>A number of \<open>k\<close> bytes is smaller than \<open>2^(8k - 1)\<close> in absolute value.\<close>

lemma bts_num_bound:
  assumes "d \<noteq> []"
  shows "\<bar>bts_num d\<bar> < 2 ^ (8 * length d - 1)"
proof -
  obtain m b where d: "d = m @ [b]" using assms by (cases d rule: rev_cases) auto
  have v: "\<bar>bts_num d\<bar> = int (mag m + 256 ^ length m * (unat b mod 128))"
    unfolding d bts_num_mag num_mag_def by (simp only: abs_minus_cancel abs_of_nat if_cancel split: if_split) simp
  have "mag m + 256 ^ length m * (unat b mod 128) < 256 ^ length m + 256 ^ length m * (unat b mod 128)"
    using mag_less [of m] by simp
  also have "\<dots> = 256 ^ length m * (1 + unat b mod 128)" by (simp add: algebra_simps)
  also have "\<dots> \<le> 256 ^ length m * 128"
    by (rule mult_le_mono2) (use mod_less_divisor [of 128 "unat b"] in linarith)
  also have "\<dots> = 2 ^ (8 * length m + 7)" by (simp add: power_add power_mult)
  also have "8 * length m + 7 = 8 * length d - 1" by (simp add: d)
  finally have "mag m + 256 ^ length m * (unat b mod 128) < 2 ^ (8 * length d - 1)" .
  then show ?thesis unfolding v by (metis of_nat_less_iff of_nat_numeral of_nat_power)
qed

section \<open>The encoder\<close>

lemma int_bytes_0 [simp]: "int_bytes 0 = []"
  by (simp add: int_bytes.simps)

lemma mag_int_bytes: "mag (int_bytes n) = n"
proof (induction n rule: int_bytes.induct)
  case (1 n)
  have "unat (of_nat n :: byte) = n mod 256" by (simp add: unat_of_nat)
  with 1 show ?case by (subst int_bytes.simps) simp
qed

lemma int_bytes_last: "0 < n \<Longrightarrow> int_bytes n \<noteq> [] \<and> last (int_bytes n) \<noteq> 0"
proof (induction n rule: int_bytes.induct)
  case (1 n)
  show ?case
  proof (cases "n div 256 = 0")
    case True
    with 1 have "(of_nat n :: byte) \<noteq> 0"
      using byte_of_nat_unat [of n] by (auto simp: div_eq_0_iff)
    with True 1 show ?thesis by (subst (1 2) int_bytes.simps) simp
  next
    case False
    with 1 show ?thesis by (subst (1 2) int_bytes.simps) simp
  qed
qed

lemma int_bytes_length: "n < 256 ^ k \<Longrightarrow> length (int_bytes n) \<le> k"
proof (induction k arbitrary: n)
  case (Suc k)
  then have "n div 256 < 256 ^ k" by (simp add: less_mult_imp_div_less mult.commute)
  then have "length (int_bytes (n div 256)) \<le> k" by (rule Suc.IH)
  then show ?case by (subst int_bytes.simps) simp
qed simp

text \<open>The bytes of a magnitude without a zero at the end are determined by it.\<close>

lemma int_bytes_mag: "d = [] \<or> last d \<noteq> 0 \<Longrightarrow> int_bytes (mag d) = d"
proof (induction d)
  case (Cons b d)
  then have IH: "int_bytes (mag d) = d" by (cases d) auto
  have "unat b + 256 * mag d \<noteq> 0"
  proof (cases "d = []")
    case True
    with Cons.prems show ?thesis by (simp add: unat_eq_zero)
  next
    case False
    with IH have "mag d \<noteq> 0" by (cases "mag d = 0") auto
    then show ?thesis by simp
  qed
  moreover have "(of_nat (unat b + 256 * mag d) :: byte) = b"
  proof -
    have "unat (of_nat (unat b + 256 * mag d) :: byte) = (unat b + 256 * mag d) mod 256"
      by (simp only: unat_of_nat take_bit_eq_mod) simp
    also have "\<dots> = unat b" using byte_lt_256 [of b] by (simp del: byte_lt_256)
    finally show ?thesis by (simp only: word_unat_eq_iff)
  qed
  ultimately show ?case using IH by (subst int_bytes.simps) simp
qed simp

lemma byte_set_sign: "unat (b :: byte) < 128 \<Longrightarrow> unat (b OR 0x80) = unat b + 128"
proof -
  assume b: "unat b < 128"
  then have "\<not> bit b 7" using byte_sign [of b] and_exp_eq_0_iff_not_bit [of b 7] by simp
  moreover have "bit (0x80 :: byte) n \<Longrightarrow> n = 7" for n
    using bit_exp_iff [of 7 n, where 'a = byte] by simp
  ultimately have "b + 0x80 = b OR 0x80"
    by (intro disjunctive_add) blast
  then have "unat (b OR 0x80) = unat (b + 0x80)" by simp
  also have "\<dots> = unat b + 128" using b by (subst unat_add_small) simp_all
  finally show ?thesis .
qed

lemma byte_clear_sign: "128 \<le> unat (b :: byte) \<Longrightarrow> (b AND 0x7f) OR 0x80 = b"
proof -
  assume b: "128 \<le> unat b"
  have "unat b mod 128 = unat b - 128"
    using b byte_lt_256 [of b] by (simp add: mod_if del: byte_lt_256)
  moreover have "unat b mod 128 < 128" by simp
  ultimately have "unat ((b AND 0x7f) OR 0x80) = unat b"
    using b by (simp only: byte_set_sign byte_low7)
  then show ?thesis by (simp only: word_unat_eq_iff)
qed

lemma int_bytes_snoc:
  assumes "0 < n"
  obtains m b where "int_bytes n = m @ [b]" "b \<noteq> 0" "n = mag m + 256 ^ length m * unat b"
proof -
  have "int_bytes n \<noteq> []" "last (int_bytes n) \<noteq> 0" using int_bytes_last [OF assms] by auto
  then obtain m b where mb: "int_bytes n = m @ [b]" "b \<noteq> 0" by (cases "int_bytes n" rule: rev_cases) auto
  have "n = mag (m @ [b])" using mag_int_bytes [of n] mb by simp
  then show thesis using that mb by (simp add: mag_append)
qed

text \<open>The three forms of an encoded number.\<close>

lemma int_enc_0 [simp]: "int_enc 0 = []"
  by (simp add: int_enc_def)

lemma int_enc_form:
  assumes "int_bytes n = m @ [b]" "0 < n" "v = int n \<or> v = - int n"
  shows "int_enc v = (if 128 \<le> unat b then m @ [b, if v < 0 then 0x80 else 0x00]
                      else m @ [if v < 0 then b OR 0x80 else b])"
proof -
  have "v \<noteq> 0" "nat (if v < 0 then - v else v) = n" using assms(2,3) by auto
  moreover have "last (m @ [b]) = b" "(m @ [b])[length (m @ [b]) - 1 := b OR 0x80] = m @ [b OR 0x80]"
    by simp_all
  ultimately show ?thesis
    unfolding int_enc_def Let_def by (simp only: assms(1) byte_sign if_True not_False_eq_True) simp
qed

lemma bts_num_int_enc: "bts_num (int_enc v) = v"
proof (cases "v = 0")
  case False
  define n where "n = nat \<bar>v\<bar>"
  have n: "0 < n" "v = int n \<or> v = - int n" using False by (auto simp: n_def)
  obtain m b where mb: "int_bytes n = m @ [b]" "n = mag m + 256 ^ length m * unat b"
    using n(1) by (rule int_bytes_snoc)
  have neg: "v = (if v < 0 then - int n else int n)" using n by auto
  show ?thesis
  proof (cases "128 \<le> unat b")
    case True
    have "int_enc v = (m @ [b]) @ [if v < 0 then 0x80 else 0x00]"
      using int_enc_form [OF mb(1) n] True by simp
    moreover have "num_mag (m @ [b]) (if v < 0 then 0x80 else 0x00) = n"
      by (simp add: num_mag_def mag_append mb(2))
    ultimately show ?thesis using neg by (cases "v < 0") (simp_all only: bts_num_mag if_True if_False, simp_all)
  next
    case False
    have e: "int_enc v = m @ [if v < 0 then b OR 0x80 else b]"
      using int_enc_form [OF mb(1) n] False by simp
    have u: "unat (b OR 0x80) = unat b + 128" using False by (intro byte_set_sign) simp
    have "num_mag m (if v < 0 then b OR 0x80 else b) = n"
      using False u by (simp add: num_mag_def mb(2))
    then show ?thesis
      using False u neg unfolding e bts_num_mag by (cases "v < 0") simp_all
  qed
qed simp

lemma is_minimal_int_enc: "is_minimal (int_enc v)"
proof (cases "v = 0")
  case False
  define n where "n = nat \<bar>v\<bar>"
  have n: "0 < n" "v = int n \<or> v = - int n" using False by (auto simp: n_def)
  obtain m b where mb: "int_bytes n = m @ [b]" "b \<noteq> 0" using n(1) by (rule int_bytes_snoc)
  show ?thesis
  proof (cases "128 \<le> unat b")
    case True
    then have "int_enc v = (m @ [b]) @ [if v < 0 then 0x80 else 0x00]"
      using int_enc_form [OF mb(1) n] by simp
    with True show ?thesis by (simp add: is_minimal_snoc del: append_assoc)
  next
    case False
    have e: "int_enc v = m @ [if v < 0 then b OR 0x80 else b]"
      using int_enc_form [OF mb(1) n] False by simp
    have "unat (b OR 0x80) = unat b + 128" using False by (intro byte_set_sign) simp
    moreover have "unat b mod 128 \<noteq> 0" using False mb(2) by (simp add: unat_eq_zero)
    ultimately show ?thesis unfolding e is_minimal_snoc by simp
  qed
qed simp

text \<open>Numbers below \<open>2^(8k - 1)\<close> take at most \<open>k\<close> bytes.\<close>

lemma length_int_enc:
  assumes "\<bar>v\<bar> < 2 ^ (8 * k + 7)"
  shows "length (int_enc v) \<le> k + 1"
proof (cases "v = 0")
  case False
  define n where "n = nat \<bar>v\<bar>"
  have n: "0 < n" "v = int n \<or> v = - int n" using False by (auto simp: n_def)
  have lt: "n < 2 ^ (8 * k + 7)" using assms by (simp add: n_def nat_less_iff)
  obtain m b where mb: "int_bytes n = m @ [b]" "n = mag m + 256 ^ length m * unat b"
    using n(1) by (rule int_bytes_snoc)
  have "n < 256 ^ (k + 1)" using lt by (simp add: power_add power_mult)
  then have l: "length (m @ [b]) \<le> k + 1" using int_bytes_length [of n "k + 1"] mb(1) by simp
  show ?thesis
  proof (cases "128 \<le> unat b")
    case True
    have "length m \<noteq> k"
    proof
      assume "length m = k"
      then have "256 ^ k * 128 \<le> n" using True by (simp add: mb(2) mult.commute trans_le_add2)
      with lt show False by (simp add: power_add power_mult)
    qed
    with l True show ?thesis using int_enc_form [OF mb(1) n] by simp
  next
    case False
    with l show ?thesis using int_enc_form [OF mb(1) n] by simp
  qed
qed simp

lemma int_enc_neg_last: "v < 0 \<Longrightarrow> int_enc v \<noteq> [] \<and> 128 \<le> unat (last (int_enc v))"
  by (metis bts_num_Nil bts_num_int_enc bts_num_mag append_butlast_last_id of_nat_0_le_iff order_less_irrefl
      linorder_not_less)

text \<open>Conversely a minimal encoding is the one the encoder writes.\<close>

lemma int_enc_bts_num:
  assumes "is_minimal d"
  shows "int_enc (bts_num d) = d"
proof (cases d rule: rev_cases)
  case (snoc m b)
  let ?n = "num_mag m b"
  have min: "unat b mod 128 \<noteq> 0 \<or> (m \<noteq> [] \<and> 128 \<le> unat (last m))"
    using assms by (simp add: snoc is_minimal_snoc)
  have v: "bts_num d = int ?n \<or> bts_num d = - int ?n" "bts_num d < 0 \<longleftrightarrow> 128 \<le> unat b \<and> 0 < ?n"
    by (auto simp: snoc bts_num_mag)
  show ?thesis
  proof (cases "unat b mod 128 = 0")
    case False
    then have pos: "0 < ?n" by (simp add: num_mag_def)
    have "unat (b AND 0x7f) = unat b mod 128" by (rule byte_low7)
    then have n: "?n = mag (m @ [b AND 0x7f])" by (simp add: num_mag_def mag_append)
    have nz: "b AND 0x7f \<noteq> 0" using False by (simp add: byte_low7_0)
    have enc: "int_bytes ?n = m @ [b AND 0x7f]" unfolding n by (rule int_bytes_mag) (simp add: nz)
    have lt: "\<not> 128 \<le> unat (b AND 0x7f)" by (simp add: byte_low7)
    have "(b AND 0x7f) = b" if "\<not> 128 \<le> unat b"
      using that by (simp only: word_unat_eq_iff byte_low7) simp
    then show ?thesis
      using int_enc_form [OF enc pos v(1)] lt v(2) pos byte_clear_sign [of b]
      by (cases "128 \<le> unat b") (simp_all add: snoc)
  next
    case True
    with min obtain m' c where m: "m = m' @ [c]" and c: "128 \<le> unat c"
      by (cases m rule: rev_cases) auto
    have "?n = mag m" using True by (simp add: num_mag_def)
    have c0: "c \<noteq> 0" using c by (auto simp: word_unat_eq_iff)
    then have enc: "int_bytes ?n = m' @ [c]" unfolding \<open>?n = mag m\<close> unfolding m by (intro int_bytes_mag) simp
    then have pos: "0 < ?n" by (cases "?n = 0") auto
    have "unat b = 0 \<or> unat b = 128" using True byte_lt_256 [of b] by presburger
    then have "b = (if 128 \<le> unat b then 0x80 else 0x00)" by (auto simp: word_unat_eq_iff)
    then show ?thesis
      using int_enc_form [OF enc pos v(1)] c v(2) pos by (cases "128 \<le> unat b") (simp_all add: snoc m)
  qed
qed simp

text \<open>What is pushed is popped, within the four bytes of a number operand.\<close>

lemma popInt_pushInt:
  assumes "\<bar>v\<bar> < 2 ^ 31"
  shows "popInt check_for_min (pushInt v s) = Inr (v, s)"
proof -
  have "length (int_enc v) \<le> 3 + 1" by (rule length_int_enc) (use assms in simp)
  then show ?thesis
    by (simp add: popInt_def pushInt_def is_minimal_int_enc bts2int_def bts_num_int_enc)
qed

lemma popInt_ok:
  "popInt c s = Inr (v, s') \<longleftrightarrow>
     (\<exists>d. s = d # s' \<and> length d \<le> 4 \<and> (c \<longrightarrow> is_minimal d) \<and> v = bts_num d)"
  by (cases s) (auto simp: popInt_def bts2int_def)

lemma popInt_bound:
  assumes "popInt c s = Inr (v, s')"
  shows "\<bar>v\<bar> < 2 ^ 31"
proof -
  obtain d where d: "length d \<le> 4" "v = bts_num d" using assms by (auto simp: popInt_ok)
  show ?thesis
  proof (cases "d = []")
    case False
    have "\<bar>v\<bar> < 2 ^ (8 * length d - 1)" using bts_num_bound [OF False] d(2) by simp
    also have "\<dots> \<le> 2 ^ 31" using d(1) by (intro power_increasing) auto
    finally show ?thesis .
  qed (simp add: d(2))
qed

end
