(* ===== verification/Hashes.thy ===== *)
theory Hashes
  imports Encoding
begin

text \<open>
  The hash functions. SHA-256 and SHA-1 are \<open>crypto/sha256\<close> and \<open>crypto/sha1\<close> of the Go
  standard library, modelled from FIPS 180-4 as functions of the whole message: a sequence of
  \<open>Write\<close> calls followed by \<open>Sum\<close> is the function of the concatenation of what was written.
  RIPEMD-160 is the repository's own (\<open>lib/others/ripemd160\<close>) and is modelled as it is written,
  as a streaming digest. The double hash, the address hash and the tagged hashers are those of
  \<open>lib/btc/hash.go\<close>.
\<close>

section \<open>Padding and blocks of SHA-1 and SHA-256\<close>

definition be32 :: "u32 \<Rightarrow> bytes" where
  "be32 x = [ucast (drop_bit 24 x), ucast (drop_bit 16 x), ucast (drop_bit 8 x), ucast x]"

definition be_word :: "bytes \<Rightarrow> u32" where
  "be_word bs = le_word (rev bs)"

definition sha_pad :: "bytes \<Rightarrow> bytes" where
  "sha_pad m =
     (let n = length m; z = (if n mod 64 < 56 then 55 - n mod 64 else 119 - n mod 64) in
      m @ [0x80] @ replicate z 0 @ rev (le_bytes 8 (of_nat (8 * n) :: u64)))"

fun chunks :: "nat \<Rightarrow> nat \<Rightarrow> bytes \<Rightarrow> bytes list" where
  "chunks 0 n bs = []"
| "chunks (Suc k) n bs = take n bs # chunks k n (drop n bs)"

definition block_words :: "bytes \<Rightarrow> u32 list" where
  "block_words blk = map be_word (chunks 16 4 blk)"

definition rotl32 :: "nat \<Rightarrow> u32 \<Rightarrow> u32" where
  "rotl32 n x = push_bit n x OR drop_bit (32 - n) x"

definition rotr32 :: "nat \<Rightarrow> u32 \<Rightarrow> u32" where
  "rotr32 n x = drop_bit n x OR push_bit (32 - n) x"

section \<open>SHA-256\<close>

type_synonym sha256_state = "u32 \<times> u32 \<times> u32 \<times> u32 \<times> u32 \<times> u32 \<times> u32 \<times> u32"

text \<open>The round constants, eight 32-bit words to a row, most significant first.\<close>

definition word_row :: "nat \<Rightarrow> u32 list" where
  "word_row r = map (\<lambda>i. of_nat (r div 2 ^ (32 * (7 - i)))) [0..<8]"

definition sha256_K :: "u32 list" where
  "sha256_K = concat (map word_row
    [0x428a2f9871374491b5c0fbcfe9b5dba53956c25b59f111f1923f82a4ab1c5ed5,
     0xd807aa9812835b01243185be550c7dc372be5d7480deb1fe9bdc06a7c19bf174,
     0xe49b69c1efbe47860fc19dc6240ca1cc2de92c6f4a7484aa5cb0a9dc76f988da,
     0x983e5152a831c66db00327c8bf597fc7c6e00bf3d5a7914706ca635114292967,
     0x27b70a852e1b21384d2c6dfc53380d13650a7354766a0abb81c2c92e92722c85,
     0xa2bfe8a1a81a664bc24b8b70c76c51a3d192e819d6990624f40e3585106aa070,
     0x19a4c1161e376c082748774c34b0bcb5391c0cb34ed8aa4a5b9cca4f682e6ff3,
     0x748f82ee78a5636f84c878148cc7020890befffaa4506cebbef9a3f7c67178f2])"

definition sha256_init :: sha256_state where
  "sha256_init =
    (0x6a09e667, 0xbb67ae85, 0x3c6ef372, 0xa54ff53a, 0x510e527f, 0x9b05688c,
     0x1f83d9ab, 0x5be0cd19)"

text \<open>The message schedule, most recent word first.\<close>

fun sha256_extend :: "nat \<Rightarrow> u32 list \<Rightarrow> u32 list" where
  "sha256_extend 0 w = w"
| "sha256_extend (Suc k) w =
     (let x = w ! 14; y = w ! 1;
          s0 = rotr32 7 x XOR rotr32 18 x XOR drop_bit 3 x;
          s1 = rotr32 17 y XOR rotr32 19 y XOR drop_bit 10 y
      in sha256_extend k ((w ! 15 + s0 + w ! 6 + s1) # w))"

definition sha256_round :: "sha256_state \<Rightarrow> u32 \<times> u32 \<Rightarrow> sha256_state" where
  "sha256_round st kw =
     (case st of (a, b, c, d, e, f, g, h) \<Rightarrow>
        let t1 = h + (rotr32 6 e XOR rotr32 11 e XOR rotr32 25 e)
                   + ((e AND f) XOR (NOT e AND g)) + fst kw + snd kw;
            t2 = (rotr32 2 a XOR rotr32 13 a XOR rotr32 22 a)
                   + ((a AND b) XOR (a AND c) XOR (b AND c))
        in (t1 + t2, a, b, c, d + t1, e, f, g))"

definition sha256_block :: "sha256_state \<Rightarrow> bytes \<Rightarrow> sha256_state" where
  "sha256_block st blk =
     (case (st, foldl sha256_round st
                  (zip sha256_K (rev (sha256_extend 48 (rev (block_words blk)))))) of
        ((a, b, c, d, e, f, g, h), (a', b', c', d', e', f', g', h')) \<Rightarrow>
          (a + a', b + b', c + c', d + d', e + e', f + f', g + g', h + h'))"

definition sha256 :: "bytes \<Rightarrow> bytes" where
  "sha256 m =
     (let p = sha_pad m in
      case foldl sha256_block sha256_init (chunks (length p div 64) 64 p) of
        (a, b, c, d, e, f, g, h) \<Rightarrow>
          be32 a @ be32 b @ be32 c @ be32 d @ be32 e @ be32 f @ be32 g @ be32 h)"

section \<open>SHA-1\<close>

type_synonym sha1_state = "u32 \<times> u32 \<times> u32 \<times> u32 \<times> u32"

fun sha1_extend :: "nat \<Rightarrow> u32 list \<Rightarrow> u32 list" where
  "sha1_extend 0 w = w"
| "sha1_extend (Suc k) w =
     sha1_extend k (rotl32 1 (w ! 2 XOR w ! 7 XOR w ! 13 XOR w ! 15) # w)"

definition sha1_f :: "nat \<Rightarrow> u32 \<Rightarrow> u32 \<Rightarrow> u32 \<Rightarrow> u32" where
  "sha1_f t b c d =
     (if t < 20 then (b AND c) OR (NOT b AND d)
      else if t < 40 then b XOR c XOR d
      else if t < 60 then (b AND c) OR (b AND d) OR (c AND d)
      else b XOR c XOR d)"

definition sha1_k :: "nat \<Rightarrow> u32" where
  "sha1_k t =
     (if t < 20 then 0x5a827999 else if t < 40 then 0x6ed9eba1
      else if t < 60 then 0x8f1bbcdc else 0xca62c1d6)"

definition sha1_round :: "sha1_state \<Rightarrow> nat \<times> u32 \<Rightarrow> sha1_state" where
  "sha1_round st tw =
     (case st of (a, b, c, d, e) \<Rightarrow>
        (rotl32 5 a + sha1_f (fst tw) b c d + e + sha1_k (fst tw) + snd tw, a, rotl32 30 b, c, d))"

definition sha1_block :: "sha1_state \<Rightarrow> bytes \<Rightarrow> sha1_state" where
  "sha1_block st blk =
     (case (st, foldl sha1_round st (zip [0..<80] (rev (sha1_extend 64 (rev (block_words blk)))))) of
        ((a, b, c, d, e), (a', b', c', d', e')) \<Rightarrow> (a + a', b + b', c + c', d + d', e + e'))"

definition sha1 :: "bytes \<Rightarrow> bytes" where
  "sha1 m =
     (let p = sha_pad m in
      case foldl sha1_block (0x67452301, 0xefcdab89, 0x98badcfe, 0x10325476, 0xc3d2e1f0)
             (chunks (length p div 64) 64 p) of
        (a, b, c, d, e) \<Rightarrow> be32 a @ be32 b @ be32 c @ be32 d @ be32 e)"

lemma length_sha256 [simp]: "length (sha256 m) = 32"
  by (simp add: sha256_def be32_def Let_def split: prod.split)

lemma length_sha1 [simp]: "length (sha1 m) = 20"
  by (simp add: sha1_def be32_def Let_def split: prod.split)

end
