(* ===== verification/Ripemd160.thy ===== *)
theory Ripemd160
  imports Hashes
begin

text \<open>
  RIPEMD-160 as \<open>lib/others/ripemd160\<close> writes it: the digest record with its 64-byte buffer, the
  streaming \<open>Write\<close>, the block function with its five double rounds, and \<open>Sum\<close> with the panic it
  ends in if padding left the buffer non-empty. The lemmas show that splitting the input over
  several writes does not matter and that the panic is never reached. The second half holds
  \<open>lib/btc/hash.go\<close>.
\<close>

section \<open>The block function (\<open>ripemd160block.go\<close>)\<close>

definition rmd_n :: "nat list" where
  "rmd_n = [
     0, 1, 2, 3, 4, 5, 6, 7, 8, 9, 10, 11, 12, 13, 14, 15,
     7, 4, 13, 1, 10, 6, 15, 3, 12, 0, 9, 5, 2, 14, 11, 8,
     3, 10, 14, 4, 9, 15, 8, 1, 2, 7, 0, 6, 13, 11, 5, 12,
     1, 9, 11, 10, 0, 8, 12, 4, 13, 3, 7, 15, 14, 5, 6, 2,
     4, 0, 5, 9, 7, 12, 2, 10, 14, 1, 3, 8, 11, 6, 15, 13]"

definition rmd_r :: "nat list" where
  "rmd_r = [
     11, 14, 15, 12, 5, 8, 7, 9, 11, 13, 14, 15, 6, 7, 9, 8,
     7, 6, 8, 13, 11, 9, 7, 15, 7, 12, 15, 9, 11, 7, 13, 12,
     11, 13, 6, 7, 14, 9, 13, 15, 14, 8, 13, 6, 5, 12, 7, 5,
     11, 12, 14, 15, 14, 15, 9, 8, 9, 14, 5, 6, 8, 6, 5, 12,
     9, 15, 5, 11, 6, 8, 13, 12, 5, 12, 13, 14, 11, 8, 5, 6]"

definition rmd_n' :: "nat list" where
  "rmd_n' = [
     5, 14, 7, 0, 9, 2, 11, 4, 13, 6, 15, 8, 1, 10, 3, 12,
     6, 11, 3, 7, 0, 13, 5, 10, 14, 15, 8, 12, 4, 9, 1, 2,
     15, 5, 1, 3, 7, 14, 6, 9, 11, 8, 12, 2, 10, 0, 4, 13,
     8, 6, 4, 1, 3, 11, 15, 0, 5, 12, 2, 13, 9, 7, 10, 14,
     12, 15, 10, 4, 1, 5, 8, 7, 6, 2, 13, 14, 0, 3, 9, 11]"

definition rmd_r' :: "nat list" where
  "rmd_r' = [
     8, 9, 9, 11, 13, 15, 15, 5, 7, 7, 8, 11, 14, 14, 12, 6,
     9, 13, 15, 7, 12, 8, 9, 11, 7, 7, 12, 7, 6, 15, 13, 11,
     9, 7, 15, 11, 8, 6, 6, 14, 12, 13, 5, 14, 13, 13, 7, 5,
     15, 5, 8, 11, 14, 14, 6, 14, 6, 9, 12, 9, 12, 5, 15, 8,
     8, 5, 12, 9, 12, 5, 14, 6, 8, 13, 6, 5, 15, 13, 11, 11]"

type_synonym rmd_chain = "u32 \<times> u32 \<times> u32 \<times> u32 \<times> u32"

text \<open>The assignments every line of every round ends with, given the sum \<open>alpha\<close>.\<close>

definition rmd_turn :: "u32 \<Rightarrow> nat \<Rightarrow> rmd_chain \<Rightarrow> rmd_chain" where
  "rmd_turn alpha s ch =
     (case ch of (a, b, c, d, e) \<Rightarrow>
        let alpha = rotl32 s alpha + e; beta = rotl32 10 c in (e, alpha, b, beta, d))"

text \<open>One pass of each of the five loops, on the two parallel lines.\<close>

definition rmd_round1 :: "u32 list \<Rightarrow> rmd_chain \<times> rmd_chain \<Rightarrow> nat \<Rightarrow> rmd_chain \<times> rmd_chain" where
  "rmd_round1 x st i =
     (case st of ((a, b, c, d, e), (aa, bb, cc, dd, ee)) \<Rightarrow>
        (rmd_turn (a + (b XOR c XOR d) + x ! (rmd_n ! i)) (rmd_r ! i) (a, b, c, d, e),
         rmd_turn (aa + (bb XOR (cc OR NOT dd)) + x ! (rmd_n' ! i) + 0x50a28be6) (rmd_r' ! i)
           (aa, bb, cc, dd, ee)))"

definition rmd_round2 :: "u32 list \<Rightarrow> rmd_chain \<times> rmd_chain \<Rightarrow> nat \<Rightarrow> rmd_chain \<times> rmd_chain" where
  "rmd_round2 x st i =
     (case st of ((a, b, c, d, e), (aa, bb, cc, dd, ee)) \<Rightarrow>
        (rmd_turn (a + ((b AND c) OR (NOT b AND d)) + x ! (rmd_n ! i) + 0x5a827999) (rmd_r ! i)
           (a, b, c, d, e),
         rmd_turn (aa + ((bb AND dd) OR (cc AND NOT dd)) + x ! (rmd_n' ! i) + 0x5c4dd124) (rmd_r' ! i)
           (aa, bb, cc, dd, ee)))"

definition rmd_round3 :: "u32 list \<Rightarrow> rmd_chain \<times> rmd_chain \<Rightarrow> nat \<Rightarrow> rmd_chain \<times> rmd_chain" where
  "rmd_round3 x st i =
     (case st of ((a, b, c, d, e), (aa, bb, cc, dd, ee)) \<Rightarrow>
        (rmd_turn (a + ((b OR NOT c) XOR d) + x ! (rmd_n ! i) + 0x6ed9eba1) (rmd_r ! i)
           (a, b, c, d, e),
         rmd_turn (aa + ((bb OR NOT cc) XOR dd) + x ! (rmd_n' ! i) + 0x6d703ef3) (rmd_r' ! i)
           (aa, bb, cc, dd, ee)))"

definition rmd_round4 :: "u32 list \<Rightarrow> rmd_chain \<times> rmd_chain \<Rightarrow> nat \<Rightarrow> rmd_chain \<times> rmd_chain" where
  "rmd_round4 x st i =
     (case st of ((a, b, c, d, e), (aa, bb, cc, dd, ee)) \<Rightarrow>
        (rmd_turn (a + ((b AND d) OR (c AND NOT d)) + x ! (rmd_n ! i) + 0x8f1bbcdc) (rmd_r ! i)
           (a, b, c, d, e),
         rmd_turn (aa + ((bb AND cc) OR (NOT bb AND dd)) + x ! (rmd_n' ! i) + 0x7a6d76e9) (rmd_r' ! i)
           (aa, bb, cc, dd, ee)))"

definition rmd_round5 :: "u32 list \<Rightarrow> rmd_chain \<times> rmd_chain \<Rightarrow> nat \<Rightarrow> rmd_chain \<times> rmd_chain" where
  "rmd_round5 x st i =
     (case st of ((a, b, c, d, e), (aa, bb, cc, dd, ee)) \<Rightarrow>
        (rmd_turn (a + (b XOR (c OR NOT d)) + x ! (rmd_n ! i) + 0xa953fd4e) (rmd_r ! i)
           (a, b, c, d, e),
         rmd_turn (aa + (bb XOR cc XOR dd) + x ! (rmd_n' ! i)) (rmd_r' ! i)
           (aa, bb, cc, dd, ee)))"

text \<open>The 16 little-endian words of a block, the rounds, and the final combination.\<close>

definition rmd_words :: "bytes \<Rightarrow> u32 list" where
  "rmd_words p = map (\<lambda>i. le_word [p ! (4 * i), p ! (4 * i + 1), p ! (4 * i + 2), p ! (4 * i + 3)]) [0..<16]"

definition rmd_combine :: "rmd_chain \<Rightarrow> rmd_chain \<times> rmd_chain \<Rightarrow> rmd_chain" where
  "rmd_combine s st =
     (case (s, st) of ((s0, s1, s2, s3, s4), ((a, b, c, d, e), (aa, bb, cc, dd, ee))) \<Rightarrow>
        (dd + (c + s1), s2 + d + ee, s3 + e + aa, s4 + a + bb, s0 + b + cc))"

definition rmd_compress :: "rmd_chain \<Rightarrow> bytes \<Rightarrow> rmd_chain" where
  "rmd_compress s p =
     (let x = rmd_words p;
          st = (s, s);
          st = foldl (rmd_round1 x) st [0..<16];
          st = foldl (rmd_round2 x) st [16..<32];
          st = foldl (rmd_round3 x) st [32..<48];
          st = foldl (rmd_round4 x) st [48..<64];
          st = foldl (rmd_round5 x) st [64..<80]
      in rmd_combine s st)"

text \<open>\<open>_Block\<close>: as many whole blocks as the input holds; returns how many bytes it took.\<close>

function rmd_Block :: "rmd_chain \<Rightarrow> bytes \<Rightarrow> nat \<Rightarrow> rmd_chain \<times> nat" where
  "rmd_Block s p n =
     (if length p \<ge> 64 then rmd_Block (rmd_compress s p) (drop 64 p) (n + 64) else (s, n))"
  by pat_completeness auto
termination by (relation "measure (\<lambda>(s, p, n). length p)") auto

declare rmd_Block.simps [simp del]

section \<open>The digest (\<open>ripemd160.go\<close>)\<close>

record digest =
  d_s :: rmd_chain
  d_x :: bytes
  d_nx :: nat
  d_tc :: u64

text \<open>\<open>New\<close> is a zeroed digest after \<open>Reset\<close>.\<close>

definition rmd_Reset :: "digest \<Rightarrow> digest" where
  "rmd_Reset d =
     d\<lparr>d_s := (0x67452301, 0xefcdab89, 0x98badcfe, 0x10325476, 0xc3d2e1f0), d_nx := 0, d_tc := 0\<rparr>"

definition rmd_New :: digest where
  "rmd_New = rmd_Reset \<lparr>d_s = (0, 0, 0, 0, 0), d_x = replicate 64 0, d_nx = 0, d_tc = 0\<rparr>"

definition copy_at :: "bytes \<Rightarrow> nat \<Rightarrow> bytes \<Rightarrow> bytes" where
  "copy_at x k p = take k x @ p @ drop (k + length p) x"

definition rmd_Write :: "digest \<Rightarrow> bytes \<Rightarrow> digest" where
  "rmd_Write d p =
     (let d = d\<lparr>d_tc := d_tc d + of_nat (length p)\<rparr>;
          (d, p) =
            (if d_nx d > 0 then
               let n = (if length p > 64 - d_nx d then 64 - d_nx d else length p);
                   d = d\<lparr>d_x := copy_at (d_x d) (d_nx d) (take n p), d_nx := d_nx d + n\<rparr>;
                   d = (if d_nx d = 64
                        then d\<lparr>d_s := fst (rmd_Block (d_s d) (d_x d) 0), d_nx := 0\<rparr> else d)
               in (d, drop n p)
             else (d, p));
          (s, n) = rmd_Block (d_s d) p 0;
          d = d\<lparr>d_s := s\<rparr>;
          p = drop n p
      in if length p > 0 then d\<lparr>d_x := copy_at (d_x d) 0 p, d_nx := length p\<rparr> else d)"

definition rmd_out :: "rmd_chain \<Rightarrow> bytes" where
  "rmd_out s =
     (case s of (s0, s1, s2, s3, s4) \<Rightarrow>
        le_bytes 4 s0 @ le_bytes 4 s1 @ le_bytes 4 s2 @ le_bytes 4 s3 @ le_bytes 4 s4)"

definition rmd_Sum :: "digest \<Rightarrow> bytes \<Rightarrow> go_panic + bytes" where
  "rmd_Sum d inp =
     (let tc = d_tc d;
          tmp = (0x80 :: byte) # replicate 63 0;
          d = (if tc mod 64 < 56 then rmd_Write d (take (unat (56 - tc mod 64)) tmp)
               else rmd_Write d (take (unat (64 + 56 - tc mod 64)) tmp));
          tc = push_bit 3 tc;
          d = rmd_Write d (le_bytes 8 tc)
      in if d_nx d \<noteq> 0 then Inl (ExplicitPanic ''d.nx != 0'')
         else Inr (inp @ rmd_out (d_s d)))"

section \<open>Streaming equals hashing the whole message\<close>

text \<open>The reference: pad, then compress block by block.\<close>

function rmd_blocks :: "rmd_chain \<Rightarrow> bytes \<Rightarrow> rmd_chain" where
  "rmd_blocks s p = (if length p \<ge> 64 then rmd_blocks (rmd_compress s p) (drop 64 p) else s)"
  by pat_completeness auto
termination by (relation "measure (\<lambda>(s, p). length p)") auto

declare rmd_blocks.simps [simp del]

definition rmd_pad :: "bytes \<Rightarrow> bytes" where
  "rmd_pad m =
     (let n = length m; z = (if n mod 64 < 56 then 56 - n mod 64 else 120 - n mod 64) in
      m @ take z (0x80 # replicate 63 0) @ le_bytes 8 (push_bit 3 (of_nat n :: u64)))"

definition ripemd160 :: "bytes \<Rightarrow> bytes" where
  "ripemd160 m = rmd_out (rmd_blocks (d_s rmd_New) (rmd_pad m))"

lemma rmd_blocks_short [simp]: "length p < 64 \<Longrightarrow> rmd_blocks s p = s"
  by (simp add: rmd_blocks.simps [of s p])

lemma rmd_Block_eq: "rmd_Block s p n = (rmd_blocks s p, n + 64 * (length p div 64))"
proof (induction s p n rule: rmd_Block.induct)
  case (1 s p n)
  then show ?case
    by (cases "64 \<le> length p")
       (simp_all add: rmd_Block.simps [of s p n] rmd_blocks.simps [of s p] le_div_geq)
qed

lemma rmd_compress_append:
  assumes "64 \<le> length a"
  shows "rmd_compress s (a @ b) = rmd_compress s a"
proof -
  have "rmd_words (a @ b) = rmd_words a"
    using assms by (auto simp: rmd_words_def nth_append intro!: map_cong)
  then show ?thesis by (simp add: rmd_compress_def)
qed

lemma rmd_blocks_append:
  "length a mod 64 = 0 \<Longrightarrow> rmd_blocks s (a @ b) = rmd_blocks (rmd_blocks s a) b"
proof (induction s a rule: rmd_blocks.induct)
  case (1 s a)
  show ?case
  proof (cases "64 \<le> length a")
    case True
    then have "rmd_blocks (rmd_compress s a) (drop 64 a @ b) = rmd_blocks (rmd_blocks (rmd_compress s a) (drop 64 a)) b"
      using "1.IH" "1.prems" by (simp add: le_mod_geq)
    with True show ?thesis
      by (simp add: rmd_blocks.simps [of s "a @ b"] rmd_blocks.simps [of s a] rmd_compress_append)
  next
    case False
    with "1.prems" have "a = []" by simp
    then show ?thesis by simp
  qed
qed

lemma rmd_blocks_tail:
  "length a mod 64 = 0 \<Longrightarrow> length t < 64 \<Longrightarrow> rmd_blocks s (a @ t) = rmd_blocks s a"
  by (simp add: rmd_blocks_append)

text \<open>A digest represents the bytes written so far.\<close>

definition rmd_repr :: "digest \<Rightarrow> bytes \<Rightarrow> bool" where
  "rmd_repr d m \<longleftrightarrow>
     (\<exists>a t. m = a @ t \<and> length a mod 64 = 0 \<and> length t < 64 \<and> d_s d = rmd_blocks (d_s rmd_New) a \<and>
            d_nx d = length t \<and> take (length t) (d_x d) = t) \<and>
     length (d_x d) = 64 \<and> d_tc d = of_nat (length m)"

lemma rmd_reprI:
  "m = a @ t \<Longrightarrow> length a mod 64 = 0 \<Longrightarrow> length t < 64 \<Longrightarrow> d_s d = rmd_blocks (d_s rmd_New) a \<Longrightarrow>
   d_nx d = length t \<Longrightarrow> take (length t) (d_x d) = t \<Longrightarrow> length (d_x d) = 64 \<Longrightarrow>
   d_tc d = of_nat (length m) \<Longrightarrow> rmd_repr d m"
  unfolding rmd_repr_def by (rule conjI, rule exI [of _ a], rule exI [of _ t]) simp_all

lemma rmd_repr_New: "rmd_repr rmd_New []"
  by (simp add: rmd_repr_def rmd_New_def rmd_Reset_def)

text \<open>The part of \<open>Write\<close> after the buffer has been dealt with.\<close>

definition rmd_absorb :: "digest \<Rightarrow> bytes \<Rightarrow> digest" where
  "rmd_absorb d p =
     (let (s, n) = rmd_Block (d_s d) p 0; d = d\<lparr>d_s := s\<rparr>; p = drop n p
      in if length p > 0 then d\<lparr>d_x := copy_at (d_x d) 0 p, d_nx := length p\<rparr> else d)"

lemma rmd_absorb_repr:
  assumes s: "d_s d = rmd_blocks (d_s rmd_New) a" and a: "length a mod 64 = 0"
    and nx: "d_nx d = 0" and x: "length (d_x d) = 64" and tc: "d_tc d = of_nat (length (a @ p))"
  shows "rmd_repr (rmd_absorb d p) (a @ p)"
proof -
  let ?n = "64 * (length p div 64)"
  let ?h = "take ?n p" and ?t = "drop ?n p"
  have n: "?n \<le> length p" by simp
  have lt: "length ?t = length p mod 64" by (simp add: minus_mult_div_eq_mod)
  have h: "length ?h mod 64 = 0" using n by simp
  have "rmd_blocks (d_s d) p = rmd_blocks (rmd_blocks (d_s d) ?h) ?t"
    using rmd_blocks_append [OF h, of "d_s d" ?t] by simp
  also have "\<dots> = rmd_blocks (rmd_blocks (d_s rmd_New) a) ?h"
    using lt by (simp add: s)
  also have "\<dots> = rmd_blocks (d_s rmd_New) (a @ ?h)"
    by (simp add: rmd_blocks_append [OF a])
  finally have blocks: "rmd_blocks (d_s d) p = rmd_blocks (d_s rmd_New) (a @ ?h)" .
  have ah: "length (a @ ?h) mod 64 = 0" using a h by (simp add: mod_add_eq [symmetric])
  show ?thesis
  proof (rule rmd_reprI [OF _ ah])
    show "a @ p = (a @ ?h) @ ?t" by simp
    show "length ?t < 64" using lt by simp
    show "d_s (rmd_absorb d p) = rmd_blocks (d_s rmd_New) (a @ ?h)"
      using blocks by (simp add: rmd_absorb_def rmd_Block_eq Let_def)
    show "d_nx (rmd_absorb d p) = length ?t"
      using nx by (simp add: rmd_absorb_def rmd_Block_eq Let_def)
    show "take (length ?t) (d_x (rmd_absorb d p)) = ?t"
      by (simp add: rmd_absorb_def rmd_Block_eq Let_def copy_at_def)
    show "length (d_x (rmd_absorb d p)) = 64"
      using x lt by (simp add: rmd_absorb_def rmd_Block_eq Let_def copy_at_def)
    show "d_tc (rmd_absorb d p) = of_nat (length (a @ p))"
      using tc by (simp add: rmd_absorb_def rmd_Block_eq Let_def)
  qed
qed

text \<open>\<open>Write\<close> by the state of the buffer.\<close>

lemma rmd_Write_empty:
  "d_nx d = 0 \<Longrightarrow> rmd_Write d p = rmd_absorb (d\<lparr>d_tc := d_tc d + of_nat (length p)\<rparr>) p"
  by (simp add: rmd_Write_def rmd_absorb_def Let_def)

lemma rmd_Write_short:
  "0 < d_nx d \<Longrightarrow> d_nx d + length p < 64 \<Longrightarrow>
     rmd_Write d p = d\<lparr>d_tc := d_tc d + of_nat (length p), d_x := copy_at (d_x d) (d_nx d) p,
       d_nx := d_nx d + length p\<rparr>"
  by (simp add: rmd_Write_def rmd_Block_eq Let_def)

lemma rmd_Write_fill:
  "0 < d_nx d \<Longrightarrow> d_nx d < 64 \<Longrightarrow> 64 \<le> d_nx d + length p \<Longrightarrow>
     rmd_Write d p =
       rmd_absorb (d\<lparr>d_tc := d_tc d + of_nat (length p),
           d_x := copy_at (d_x d) (d_nx d) (take (64 - d_nx d) p),
           d_s := rmd_blocks (d_s d) (copy_at (d_x d) (d_nx d) (take (64 - d_nx d) p)), d_nx := 0\<rparr>)
         (drop (64 - d_nx d) p)"
  by (cases "length p > 64 - d_nx d") (simp_all add: rmd_Write_def rmd_absorb_def rmd_Block_eq Let_def)

text \<open>One \<open>Write\<close> appends to the represented message.\<close>

lemma rmd_Write_repr:
  assumes "rmd_repr d m"
  shows "rmd_repr (rmd_Write d p) (m @ p)"
proof -
  obtain a t where m: "m = a @ t" "length a mod 64 = 0" "length t < 64"
    and d: "d_s d = rmd_blocks (d_s rmd_New) a" "d_nx d = length t" "take (length t) (d_x d) = t"
      "length (d_x d) = 64" "d_tc d = of_nat (length m)"
    using assms unfolding rmd_repr_def by auto
  consider "t = []" | "t \<noteq> []" "length p < 64 - length t" | "t \<noteq> []" "64 - length t \<le> length p"
    by linarith
  then show ?thesis
  proof cases
    case 1
    with rmd_absorb_repr [of "d\<lparr>d_tc := d_tc d + of_nat (length p)\<rparr>" a p] m d show ?thesis
      by (simp add: rmd_Write_empty)
  next
    case 2
    then have "rmd_Write d p = d\<lparr>d_tc := d_tc d + of_nat (length p),
        d_x := copy_at (d_x d) (length t) p, d_nx := length t + length p\<rparr>"
      using d m rmd_Write_short [of d p] by simp
    then show ?thesis
      by (simp, intro rmd_reprI [of _ a "t @ p"]) (use m d 2 in \<open>simp_all add: copy_at_def\<close>)
  next
    case 3
    let ?b = "t @ take (64 - length t) p"
    have b: "length ?b = 64" using 3 m by simp
    have "copy_at (d_x d) (length t) (take (64 - length t) p) = ?b"
      using 3 m d by (simp add: copy_at_def)
    then have w: "rmd_Write d p = rmd_absorb (d\<lparr>d_tc := d_tc d + of_nat (length p),
        d_x := ?b, d_s := rmd_blocks (d_s d) ?b, d_nx := 0\<rparr>) (drop (64 - length t) p)"
      using 3 d m rmd_Write_fill [of d p] by simp
    have "rmd_repr (rmd_Write d p) ((a @ ?b) @ drop (64 - length t) p)"
      unfolding w
    proof (rule rmd_absorb_repr)
      show "length (a @ ?b) mod 64 = 0" using m b by (simp add: mod_add_eq [symmetric])
    qed (use m d b in \<open>simp_all add: rmd_blocks_append\<close>)
    then show ?thesis using m by simp
  qed
qed

lemma rmd_repr_whole:
  assumes "rmd_repr d m" "length m mod 64 = 0"
  shows "d_nx d = 0" "d_s d = rmd_blocks (d_s rmd_New) m"
proof -
  obtain a t where at: "m = a @ t" "length a mod 64 = 0" "length t < 64"
    "d_s d = rmd_blocks (d_s rmd_New) a" "d_nx d = length t"
    using assms(1) unfolding rmd_repr_def by auto
  have "length t mod 64 = 0"
    using at assms(2) by (metis length_append mod_add_eq add_0 mod_mod_trivial)
  then have "t = []" using at by simp
  with at show "d_nx d = 0" "d_s d = rmd_blocks (d_s rmd_New) m" by simp_all
qed

lemma tc_mod64: "unat ((of_nat n :: u64) mod 64) = n mod 64"
  by (simp add: unat_mod unat_of_nat take_bit_eq_mod mod_mod_cancel)

lemma rmd_pad_size: "length (rmd_pad m) mod 64 = 0"
proof -
  obtain q r where m: "length m = 64 * q + r" and r: "r < 64"
    by (metis mult_div_mod_eq mod_less_divisor zero_less_numeral)
  then have "length m mod 64 = r" by simp
  with m r have "length (rmd_pad m) = 64 * q + (if r < 56 then 64 else 128)"
    by (auto simp: rmd_pad_def Let_def min_def)
  then show ?thesis by simp
qed

text \<open>
  \<open>Sum\<close> on a digest that represents \<open>m\<close> is the hash of \<open>m\<close>; in particular its panic is never
  reached, whatever was written and however it was split.
\<close>

lemma rmd_Sum_repr:
  assumes "rmd_repr d m"
  shows "rmd_Sum d inp = Inr (inp @ ripemd160 m)"
proof -
  let ?tmp = "(0x80 :: byte) # replicate 63 0"
  let ?tc = "d_tc d"
  let ?z = "if length m mod 64 < 56 then 56 - length m mod 64 else 120 - length m mod 64"
  have tc: "?tc = of_nat (length m)" using assms by (simp add: rmd_repr_def)
  have t64: "unat (?tc mod 64) = length m mod 64" by (simp add: tc tc_mod64)
  have lt: "(?tc mod 64 < 56) = (length m mod 64 < 56)"
    by (simp add: word_less_nat_alt t64 del: unat_mod_distrib)
  have r: "length m mod 64 < 64" by simp
  have u1: "unat (56 - ?tc mod 64) = 56 - length m mod 64" if "length m mod 64 < 56"
    by (subst unat_sub_small) (use that t64 in \<open>simp_all del: unat_mod_distrib\<close>)
  have u2: "unat (64 + 56 - ?tc mod 64) = 120 - length m mod 64"
    by (subst unat_sub_small) (use r t64 in \<open>simp_all del: unat_mod_distrib\<close>)
  let ?d1 = "rmd_Write d (take ?z ?tmp)"
  let ?d2 = "rmd_Write ?d1 (le_bytes 8 (push_bit 3 ?tc))"
  have "rmd_repr ?d2 ((m @ take ?z ?tmp) @ le_bytes 8 (push_bit 3 ?tc))"
    using assms by (intro rmd_Write_repr)
  then have r2: "rmd_repr ?d2 (rmd_pad m)"
    by (simp add: rmd_pad_def Let_def tc)
  have eq: "rmd_Sum d inp = (if d_nx ?d2 \<noteq> 0 then Inl (ExplicitPanic ''d.nx != 0'')
         else Inr (inp @ rmd_out (d_s ?d2)))"
    by (cases "length m mod 64 < 56") (simp_all only: rmd_Sum_def Let_def lt u1 u2 if_True if_False)
  show ?thesis
    unfolding eq using rmd_repr_whole [OF r2 rmd_pad_size] by (simp add: ripemd160_def)
qed

lemma length_ripemd160 [simp]: "length (ripemd160 m) = 20"
  by (simp add: ripemd160_def rmd_out_def split: prod.split)

section \<open>\<open>lib/btc/hash.go\<close>\<close>

text \<open>
  \<open>rimp_hash\<close> below calls the digest as the code does (\<open>New\<close>, one \<open>Write\<close>, \<open>Sum(nil)\<close>).
\<close>

definition rmd_digest_of :: "bytes \<Rightarrow> go_panic + bytes" where
  "rmd_digest_of b = rmd_Sum (rmd_Write rmd_New b) []"

lemma rmd_digest_of_eq [simp]: "rmd_digest_of b = Inr (ripemd160 b)"
  using rmd_Sum_repr [OF rmd_Write_repr [OF rmd_repr_New], of b "[]"]
  by (simp add: rmd_digest_of_def)

text \<open>\<open>ShaHash\<close> and \<open>RimpHash\<close> copy the result into \<open>out\<close>, up to its length.\<close>

definition go_copy :: "bytes \<Rightarrow> bytes \<Rightarrow> bytes" where
  "go_copy dst src = take (length dst) src @ drop (length src) dst"

definition ShaHash :: "bytes \<Rightarrow> bytes \<Rightarrow> bytes" where
  "ShaHash b out = (let tmp = sha256 b in go_copy out (sha256 tmp))"

definition Sha2Sum :: "bytes \<Rightarrow> bytes" where
  "Sha2Sum b = ShaHash b (replicate 32 0)"

definition RimpHash :: "bytes \<Rightarrow> bytes \<Rightarrow> go_panic + bytes" where
  "RimpHash inp out = andThen (rmd_digest_of (sha256 inp)) (\<lambda>s. Inr (go_copy out s))"

definition Rimp160AfterSha256 :: "bytes \<Rightarrow> go_panic + bytes" where
  "Rimp160AfterSha256 b = RimpHash b (replicate 20 0)"

lemma Sha2Sum_eq: "Sha2Sum b = sha256 (sha256 b)"
  by (simp add: Sha2Sum_def ShaHash_def go_copy_def)

lemma length_Sha2Sum [simp]: "length (Sha2Sum b) = 32"
  by (simp add: Sha2Sum_eq)

lemma Rimp160AfterSha256_eq [simp]: "Rimp160AfterSha256 b = Inr (ripemd160 (sha256 b))"
  by (simp add: Rimp160AfterSha256_def RimpHash_def go_copy_def)

text \<open>
  The tagged hashers. A hasher that has written the tag hash twice is kept marshalled; hashing
  \<open>msg\<close> with the unmarshalled copy is hashing \<open>taghash @ taghash @ msg\<close>.
\<close>

datatype hasher = HASHER_TAPSIGHASH | HASHER_TAPLEAF | HASHER_TAPBRANCH | HASHER_TAPTWEAK

fun hash_tag :: "hasher \<Rightarrow> string" where
  "hash_tag HASHER_TAPSIGHASH = ''TapSighash''"
| "hash_tag HASHER_TAPLEAF = ''TapLeaf''"
| "hash_tag HASHER_TAPBRANCH = ''TapBranch''"
| "hash_tag HASHER_TAPTWEAK = ''TapTweak''"

definition string_bytes :: "string \<Rightarrow> bytes" where
  "string_bytes s = map (\<lambda>c. of_nat (of_char c)) s"

definition TaggedHash :: "string \<Rightarrow> bytes \<Rightarrow> bytes" where
  "TaggedHash tag msg = (let taghash = sha256 (string_bytes tag) in sha256 (taghash @ taghash @ msg))"

definition Hasher :: "hasher \<Rightarrow> bytes \<Rightarrow> bytes" where
  "Hasher idx msg = TaggedHash (hash_tag idx) msg"

definition HashFromMessage :: "bytes \<Rightarrow> bytes \<Rightarrow> bytes" where
  "HashFromMessage msg out =
     (let magic = string_bytes (''Bitcoin Signed Message:'' @ [CHR 0x0A]) in
      ShaHash (vlen_of (length magic) @ magic @ vlen_of (length msg) @ msg) out)"

lemma length_Hasher [simp]: "length (Hasher i m) = 32"
  by (simp add: Hasher_def TaggedHash_def Let_def)

end
