(* ===== verification/Tx.thy ===== *)
theory Tx
  imports Opcodes Ripemd160
begin

text \<open>
  Transactions (\<open>lib/btc/tx.go\<close>): the data, the parser \<open>NewTx\<close> with the capacity-checked
  slicing it relies on, the two serialisations, sizes, and the checks that need no chain
  context. A pointer is an option (\<open>None\<close> is nil), so a parsed transaction can hold nil inputs
  and outputs, as the code's can.
\<close>

section \<open>Data\<close>

record txprevout =
  po_Hash :: bytes
  po_Vout :: u32

record txin =
  ti_Input :: txprevout
  ti_ScriptSig :: bytes
  ti_Sequence :: u32

record txout =
  to_Value :: u64
  to_Pk_script :: bytes
  to_BlockHeight :: u32
  to_VoutCount :: u32
  to_WasCoinbase :: bool

record tx =
  tx_Version :: u32
  tx_TxIn :: "txin option list"
  tx_TxOut :: "txout option list"
  tx_SegWit :: "bytes list list option"
  tx_Lock_time :: u32
  tx_Raw :: bytes
  tx_Size :: u32
  tx_NoWitSize :: u32
  tx_Hash :: bytes
  tx_Fee :: u64
  tx_wTxID :: bytes
  tx_hashPrevouts :: "bytes option"
  tx_hashSequence :: "bytes option"
  tx_hashOutputs :: "bytes option"
  tx_Spent_outputs :: "txout option list"
  tx_m_prevouts :: "bytes option"
  tx_m_sequences :: "bytes option"
  tx_m_outputs :: "bytes option"
  tx_m_spent_amounts :: "bytes option"
  tx_m_spent_scripts :: "bytes option"

definition zero_tx :: tx where
  "zero_tx = \<lparr>tx_Version = 0, tx_TxIn = [], tx_TxOut = [], tx_SegWit = None, tx_Lock_time = 0,
     tx_Raw = [], tx_Size = 0, tx_NoWitSize = 0, tx_Hash = replicate 32 0, tx_Fee = 0,
     tx_wTxID = replicate 32 0, tx_hashPrevouts = None, tx_hashSequence = None,
     tx_hashOutputs = None, tx_Spent_outputs = [], tx_m_prevouts = None, tx_m_sequences = None,
     tx_m_outputs = None, tx_m_spent_amounts = None, tx_m_spent_scripts = None\<rparr>"

definition new_txout :: "u64 \<Rightarrow> bytes \<Rightarrow> txout" where
  "new_txout v s = \<lparr>to_Value = v, to_Pk_script = s, to_BlockHeight = 0, to_VoutCount = 0,
     to_WasCoinbase = False\<rparr>"

section \<open>Parsing\<close>

text \<open>\<open>NewTxIn\<close> and \<open>NewTxOut\<close>: nil and 0 when the length field does not fit.\<close>

definition NewTxIn :: "slice \<Rightarrow> go_panic + txin option \<times> nat" where
  "NewTxIn b =
     andThen (slice_range b 0 32) (\<lambda>h.
     andThen (slice_range b 32 36) (\<lambda>v.
     andThen (slice_from b 36) (\<lambda>b'.
     let (le, n) = VLen (sl_data b') in
     if n = 0 then Inr (None, 0)
     else if \<not> make_ok 1 le then Inl MakeSlice
     else
       let offs = 36 + n in
       andThen (slice_range b offs (offs + nat le)) (\<lambda>scr.
       let offs = offs + nat le in
       andThen (slice_range b offs (offs + 4)) (\<lambda>q.
       Inr (Some \<lparr>ti_Input = \<lparr>po_Hash = h, po_Vout = le_word v\<rparr>, ti_ScriptSig = scr,
                  ti_Sequence = le_word q\<rparr>, offs + 4))))))"

definition NewTxOut :: "slice \<Rightarrow> go_panic + txout option \<times> nat" where
  "NewTxOut b =
     andThen (slice_range b 0 8) (\<lambda>v.
     andThen (slice_from b 8) (\<lambda>b'.
     let (le, n) = VLen (sl_data b') in
     if n = 0 then Inr (None, 0)
     else if \<not> make_ok 1 le then Inl MakeSlice
     else
       let offs = 8 + n in
       andThen (slice_range b offs (offs + nat le)) (\<lambda>scr.
       Inr (Some (new_txout (le_word v) scr), offs + nat le))))"

text \<open>
  The loops \<open>for i := range tx.TxIn { tx.TxIn[i], n = NewTxIn(b[offs:]); offs += n }\<close>: a nil
  item is stored and the loop goes on at the same offset.
\<close>

fun read_items :: "(slice \<Rightarrow> go_panic + 'a option \<times> nat) \<Rightarrow> slice \<Rightarrow> nat \<Rightarrow> nat
    \<Rightarrow> go_panic + 'a option list \<times> nat" where
  "read_items dec b 0 offs = Inr ([], offs)"
| "read_items dec b (Suc k) offs =
     andThen (slice_from b offs) (\<lambda>b'.
     andThen (dec b') (\<lambda>(x, n).
     andThen (read_items dec b k (offs + n)) (\<lambda>(xs, offs'). Inr (x # xs, offs'))))"

text \<open>
  The witness loops return nil as soon as a length field does not fit: the outer \<open>None\<close>.
\<close>

fun read_wit_item :: "slice \<Rightarrow> nat \<Rightarrow> nat \<Rightarrow> go_panic + (bytes list \<times> nat) option" where
  "read_wit_item b 0 offs = Inr (Some ([], offs))"
| "read_wit_item b (Suc k) offs =
     andThen (slice_from b offs) (\<lambda>b'.
     let (lel, n) = VLen (sl_data b') in
     if n = 0 then Inr None
     else if \<not> make_ok 1 lel then Inl MakeSlice
     else
       let offs = offs + n in
       andThen (slice_range b offs (offs + nat lel)) (\<lambda>w.
       andThen (read_wit_item b k (offs + nat lel)) (\<lambda>r.
       Inr (map_option (\<lambda>(ws, offs'). (w # ws, offs')) r))))"

fun read_witness :: "slice \<Rightarrow> nat \<Rightarrow> nat \<Rightarrow> go_panic + (bytes list list \<times> nat) option" where
  "read_witness b 0 offs = Inr (Some ([], offs))"
| "read_witness b (Suc k) offs =
     andThen (slice_from b offs) (\<lambda>b'.
     let (le, n) = VLen (sl_data b') in
     if n = 0 then Inr None
     else if \<not> make_ok 24 le then Inl MakeSlice
     else
       andThen (read_wit_item b (nat le) (offs + n)) (\<lambda>r.
       case r of
         None \<Rightarrow> Inr None
       | Some (ws, offs) \<Rightarrow>
           andThen (read_witness b k offs) (\<lambda>r'.
           Inr (map_option (\<lambda>(wss, offs'). (ws # wss, offs')) r'))))"

text \<open>The parts of \<open>NewTx\<close>, and \<open>NewTx\<close> with its recovered panics.\<close>

definition newtx_finish :: "slice \<Rightarrow> tx \<Rightarrow> nat \<Rightarrow> go_panic + tx option \<times> nat" where
  "newtx_finish b t offs =
     andThen (slice_range b offs (offs + 4)) (\<lambda>l.
     Inr (Some (t\<lparr>tx_Lock_time := le_word l\<rparr>), offs + 4))"

definition newtx_segwit :: "slice \<Rightarrow> tx \<Rightarrow> bool \<Rightarrow> nat \<Rightarrow> go_panic + tx option \<times> nat" where
  "newtx_segwit b t segwit offs =
     (if segwit then
        if \<not> make_ok 24 (int (length (tx_TxIn t))) then Inl MakeSlice
        else
        andThen (read_witness b (length (tx_TxIn t)) offs) (\<lambda>r.
        case r of
          None \<Rightarrow> Inr (None, 0)
        | Some (wss, offs) \<Rightarrow> newtx_finish b (t\<lparr>tx_SegWit := Some wss\<rparr>) offs)
      else newtx_finish b t offs)"

definition newtx_outs :: "slice \<Rightarrow> tx \<Rightarrow> bool \<Rightarrow> nat \<Rightarrow> go_panic + tx option \<times> nat" where
  "newtx_outs b t segwit offs =
     andThen (slice_from b offs) (\<lambda>b'.
     let (le, n) = VLen (sl_data b') in
     if n = 0 then Inr (None, 0)
     else if \<not> make_ok 8 le then Inl MakeSlice
     else
       andThen (read_items NewTxOut b (nat le) (offs + n)) (\<lambda>(outs, offs).
       newtx_segwit b (t\<lparr>tx_TxOut := outs\<rparr>) segwit offs))"

definition newtx_ins :: "slice \<Rightarrow> tx \<Rightarrow> bool \<Rightarrow> nat \<Rightarrow> go_panic + tx option \<times> nat" where
  "newtx_ins b t segwit offs =
     andThen (slice_from b offs) (\<lambda>b'.
     let (le, n) = VLen (sl_data b') in
     if n = 0 then Inr (None, 0)
     else if \<not> make_ok 8 le then Inl MakeSlice
     else
       andThen (read_items NewTxIn b (nat le) (offs + n)) (\<lambda>(ins, offs).
       newtx_outs b (t\<lparr>tx_TxIn := ins\<rparr>) segwit offs))"

definition newtx_body :: "slice \<Rightarrow> go_panic + tx option \<times> nat" where
  "newtx_body b =
     andThen (slice_range b 0 4) (\<lambda>v.
     andThen (slice_index b 4) (\<lambda>b4.
     andThen (if b4 = 0 then andThen (slice_index b 5) (\<lambda>b5. Inr (b5 = 1)) else Inr False) (\<lambda>segwit.
     newtx_ins b (zero_tx\<lparr>tx_Version := le_word v\<rparr>) segwit (if segwit then 6 else 4))))"

definition NewTx :: "slice \<Rightarrow> tx option \<times> nat" where
  "NewTx b = (case newtx_body b of Inl _ \<Rightarrow> (None, 0) | Inr r \<Rightarrow> r)"

section \<open>Serialising\<close>

definition ser_txin :: "txin option \<Rightarrow> go_panic + bytes" where
  "ser_txin p = andThen (deref p) (\<lambda>i.
     Inr (po_Hash (ti_Input i) @ le_bytes 4 (po_Vout (ti_Input i)) @
          vlen_of (length (ti_ScriptSig i)) @ ti_ScriptSig i @ le_bytes 4 (ti_Sequence i)))"

definition ser_txout :: "txout option \<Rightarrow> go_panic + bytes" where
  "ser_txout p = andThen (deref p) (\<lambda>out.
     Inr (le_bytes 8 (to_Value out) @ vlen_of (length (to_Pk_script out)) @ to_Pk_script out))"

definition WriteSerialized :: "tx \<Rightarrow> go_panic + bytes" where
  "WriteSerialized t =
     andThen (concatE ser_txin (tx_TxIn t)) (\<lambda>ins.
     andThen (concatE ser_txout (tx_TxOut t)) (\<lambda>outs.
     Inr (le_bytes 4 (tx_Version t) @
          vlen_of (length (tx_TxIn t)) @ ins @ vlen_of (length (tx_TxOut t)) @ outs @
          le_bytes 4 (tx_Lock_time t))))"

definition Serialize :: "tx \<Rightarrow> go_panic + bytes" where
  "Serialize t = WriteSerialized t"

definition ser_witness :: "bytes list \<Rightarrow> bytes" where
  "ser_witness sw = vlen_of (length sw) @ concat (map (\<lambda>s. vlen_of (length s) @ s) sw)"

definition WriteSerializedNew :: "tx \<Rightarrow> go_panic + bytes" where
  "WriteSerializedNew t =
     (case tx_SegWit t of
        None \<Rightarrow> WriteSerialized t
      | Some sws \<Rightarrow>
          andThen (concatE ser_txin (tx_TxIn t)) (\<lambda>ins.
          andThen (concatE ser_txout (tx_TxOut t)) (\<lambda>outs.
          Inr (le_bytes 4 (tx_Version t) @ [0x00, 0x01] @
               vlen_of (length (tx_TxIn t)) @ ins @ vlen_of (length (tx_TxOut t)) @ outs @
               concat (map ser_witness sws) @ le_bytes 4 (tx_Lock_time t)))))"

definition SerializeNew :: "tx \<Rightarrow> go_panic + bytes" where
  "SerializeNew t = WriteSerializedNew t"

end
