(* ===== verification/TxCodec.thy ===== *)
theory TxCodec
  imports Tx
begin

text \<open>
  The round trip of the transaction format. The locale states what one item of a list must
  promise (its decoder takes exactly what the encoder wrote, whatever follows and whatever the
  spare capacity holds) and proves the item loops of \<open>NewTx\<close> once; inputs and outputs are its
  instances. The witness loops and the whole of \<open>NewTx\<close> follow.
\<close>

section \<open>Slices that start with known bytes\<close>

lemma slice_from_data:
  "sl_data b = pre @ post \<Longrightarrow> k = length pre \<Longrightarrow>
     slice_from b k = Inr \<lparr>sl_data = post, sl_spare = sl_spare b\<rparr>"
  by (simp add: slice_from_def)

lemma slice_range_data:
  "sl_data b = pre @ x @ post \<Longrightarrow> lo = length pre \<Longrightarrow> hi = lo + length x \<Longrightarrow> slice_range b lo hi = Inr x"
  by (simp add: slice_range_def)

abbreviation fits :: "nat \<Rightarrow> nat \<Rightarrow> bool" where
  "fits elem_size n \<equiv> elem_size * n \<le> 2 ^ 48"

lemma VLen_vlen_of:
  assumes "fits k n" "0 < k"
  shows "VLen (vlen_of n @ rest) = (int n, VLenSize (of_nat n))"
proof -
  have "n \<le> k * n" using assms(2) by simp
  then have "n \<le> 2 ^ 48" using assms(1) by linarith
  then have "uint (of_nat n :: u64) = int n"
    by (simp add: unsigned_of_nat take_bit_int_eq_self of_nat_take_bit)
  then show ?thesis
    using \<open>n \<le> 2 ^ 48\<close> by (simp add: sint_small)
qed

lemma make_ok_of_nat [simp]: "make_ok (int k) (int n) \<longleftrightarrow> fits k n"
proof -
  have "int k * int n \<le> 2 ^ 48 \<longleftrightarrow> int (k * n) \<le> int (2 ^ 48)" by simp
  then show ?thesis by (simp only: make_ok_def of_nat_le_iff) simp
qed

lemma make_ok_numeral [simp]: "make_ok (numeral k) (int n) \<longleftrightarrow> fits (numeral k) n"
  using make_ok_of_nat [of "numeral k" n] by simp

lemma make_ok_one [simp]: "make_ok 1 (int n) \<longleftrightarrow> fits 1 n"
  using make_ok_of_nat [of 1 n] by simp

section \<open>The interface of one list item\<close>

locale slice_codec =
  fixes enc :: "'a \<Rightarrow> bytes"
    and dec :: "slice \<Rightarrow> go_panic + 'a option \<times> nat"
    and valid :: "'a \<Rightarrow> bool"
  assumes dec_enc:
    "valid x \<Longrightarrow> sl_data b = enc x @ rest \<Longrightarrow> dec b = Inr (Some x, length (enc x))"
begin

lemma read_items_enc:
  "\<forall>x\<in>set xs. valid x \<Longrightarrow> sl_data b = pre @ concat (map enc xs) @ rest \<Longrightarrow> k = length pre \<Longrightarrow>
     read_items dec b (length xs) k =
       Inr (map Some xs, k + length (concat (map enc xs)))"
proof (induction xs arbitrary: pre k)
  case Nil
  then show ?case by simp
next
  case (Cons x xs)
  have "slice_from b k = Inr \<lparr>sl_data = enc x @ concat (map enc xs) @ rest, sl_spare = sl_spare b\<rparr>"
    using Cons.prems by (intro slice_from_data) simp_all
  moreover have "dec \<lparr>sl_data = enc x @ concat (map enc xs) @ rest, sl_spare = sl_spare b\<rparr>
      = Inr (Some x, length (enc x))"
    using Cons.prems by (intro dec_enc) simp_all
  moreover have "read_items dec b (length xs) (k + length (enc x)) =
      Inr (map Some xs, (k + length (enc x)) + length (concat (map enc xs)))"
    using Cons.prems by (intro Cons.IH [of "pre @ enc x"]) simp_all
  ultimately show ?case by (simp add: add.assoc)
qed

end

section \<open>Inputs and outputs as instances\<close>

definition enc_txin :: "txin \<Rightarrow> bytes" where
  "enc_txin i = po_Hash (ti_Input i) @ le_bytes 4 (po_Vout (ti_Input i)) @
     vlen_of (length (ti_ScriptSig i)) @ ti_ScriptSig i @ le_bytes 4 (ti_Sequence i)"

definition valid_txin :: "txin \<Rightarrow> bool" where
  "valid_txin i \<longleftrightarrow> length (po_Hash (ti_Input i)) = 32 \<and> fits 1 (length (ti_ScriptSig i))"

definition enc_txout :: "txout \<Rightarrow> bytes" where
  "enc_txout out = le_bytes 8 (to_Value out) @ vlen_of (length (to_Pk_script out)) @ to_Pk_script out"

definition valid_txout :: "txout \<Rightarrow> bool" where
  "valid_txout out \<longleftrightarrow>
     out = new_txout (to_Value out) (to_Pk_script out) \<and> fits 1 (length (to_Pk_script out))"

lemma NewTxIn_enc:
  assumes "valid_txin x" and b: "sl_data b = enc_txin x @ rest"
  shows "NewTxIn b = Inr (Some x, length (enc_txin x))"
proof -
  obtain h v scr q where x: "x = \<lparr>ti_Input = \<lparr>po_Hash = h, po_Vout = v\<rparr>, ti_ScriptSig = scr, ti_Sequence = q\<rparr>"
    by (metis txin.cases txprevout.cases)
  let ?n = "length scr" and ?s = "VLenSize (of_nat (length scr))"
  have h: "length h = 32" and n: "fits 1 ?n" using assms(1) x by (simp_all add: valid_txin_def)
  have data: "sl_data b = h @ le_bytes 4 v @ vlen_of ?n @ scr @ le_bytes 4 q @ rest"
    using b x by (simp add: enc_txin_def)
  have 1: "slice_range b 0 32 = Inr h"
    using data h by (intro slice_range_data [of b "[]"]) simp_all
  have 2: "slice_range b 32 36 = Inr (le_bytes 4 v)"
    using data h by (intro slice_range_data [of b h]) simp_all
  have 3: "slice_from b 36 = Inr \<lparr>sl_data = vlen_of ?n @ scr @ le_bytes 4 q @ rest, sl_spare = sl_spare b\<rparr>"
    using data h by (intro slice_from_data [of b "h @ le_bytes 4 v"]) simp_all
  have 4: "VLen (vlen_of ?n @ scr @ le_bytes 4 q @ rest) = (int ?n, ?s)"
    using n by (rule VLen_vlen_of) simp
  have 5: "slice_range b (36 + ?s) (36 + ?s + ?n) = Inr scr"
    using data h by (intro slice_range_data [of b "h @ le_bytes 4 v @ vlen_of ?n"]) (simp_all add: length_WriteVlen)
  have 6: "slice_range b (36 + ?s + ?n) (36 + ?s + ?n + 4) = Inr (le_bytes 4 q)"
    using data h by (intro slice_range_data [of b "h @ le_bytes 4 v @ vlen_of ?n @ scr"]) (simp_all add: length_WriteVlen)
  have 7: "?s \<noteq> 0" by (simp add: VLenSize_def)
  show ?thesis
    unfolding NewTxIn_def 1 2 3 using 4 5 6 7 n h
    by (simp add: x enc_txin_def length_WriteVlen)
qed

lemma NewTxOut_enc:
  assumes "valid_txout x" and b: "sl_data b = enc_txout x @ rest"
  shows "NewTxOut b = Inr (Some x, length (enc_txout x))"
proof -
  obtain v scr where x: "x = new_txout v scr" and n: "fits 1 (length scr)"
    using assms(1) unfolding valid_txout_def by metis
  let ?n = "length scr" and ?s = "VLenSize (of_nat (length scr))"
  have data: "sl_data b = le_bytes 8 v @ vlen_of ?n @ scr @ rest"
    using b x by (simp add: enc_txout_def new_txout_def)
  have 1: "slice_range b 0 8 = Inr (le_bytes 8 v)"
    using data by (intro slice_range_data [of b "[]"]) simp_all
  have 3: "slice_from b 8 = Inr \<lparr>sl_data = vlen_of ?n @ scr @ rest, sl_spare = sl_spare b\<rparr>"
    using data by (intro slice_from_data [of b "le_bytes 8 v"]) simp_all
  have 4: "VLen (vlen_of ?n @ scr @ rest) = (int ?n, ?s)"
    using n by (rule VLen_vlen_of) simp
  have 5: "slice_range b (8 + ?s) (8 + ?s + ?n) = Inr scr"
    using data by (intro slice_range_data [of b "le_bytes 8 v @ vlen_of ?n"]) (simp_all add: length_WriteVlen)
  have 7: "?s \<noteq> 0" by (simp add: VLenSize_def)
  show ?thesis
    unfolding NewTxOut_def 1 3 using 4 5 7 n
    by (simp add: x enc_txout_def new_txout_def length_WriteVlen)
qed

interpretation txin_codec: slice_codec enc_txin NewTxIn valid_txin
  by unfold_locales (rule NewTxIn_enc)

interpretation txout_codec: slice_codec enc_txout NewTxOut valid_txout
  by unfold_locales (rule NewTxOut_enc)

section \<open>The witness\<close>

abbreviation enc_item :: "bytes \<Rightarrow> bytes" where
  "enc_item w \<equiv> vlen_of (length w) @ w"

lemma read_wit_item_enc:
  "\<forall>w\<in>set ws. fits 1 (length w) \<Longrightarrow> sl_data b = pre @ concat (map enc_item ws) @ rest \<Longrightarrow>
     k = length pre \<Longrightarrow>
     read_wit_item b (length ws) k = Inr (Some (ws, k + length (concat (map enc_item ws))))"
proof (induction ws arbitrary: pre k)
  case Nil
  then show ?case by simp
next
  case (Cons w ws)
  let ?n = "length w" and ?s = "VLenSize (of_nat (length w))"
  let ?tl = "concat (map enc_item ws) @ rest"
  have n: "fits 1 ?n" using Cons.prems by simp
  have 1: "slice_from b k = Inr \<lparr>sl_data = vlen_of ?n @ w @ ?tl, sl_spare = sl_spare b\<rparr>"
    using Cons.prems by (intro slice_from_data) simp_all
  have 2: "VLen (vlen_of ?n @ w @ ?tl) = (int ?n, ?s)"
    using n by (rule VLen_vlen_of) simp
  have 3: "slice_range b (k + ?s) (k + ?s + ?n) = Inr w"
    using Cons.prems
    by (intro slice_range_data [of b "pre @ vlen_of ?n"]) (simp_all add: length_WriteVlen)
  have 4: "read_wit_item b (length ws) (k + ?s + ?n) =
      Inr (Some (ws, (k + ?s + ?n) + length (concat (map enc_item ws))))"
    using Cons.prems
    by (intro Cons.IH [of "pre @ vlen_of ?n @ w"]) (simp_all add: length_WriteVlen)
  have 5: "?s \<noteq> 0" by (simp add: VLenSize_def)
  show ?case using 1 2 3 4 5 n by (simp add: length_WriteVlen)
qed

definition valid_wit :: "bytes list \<Rightarrow> bool" where
  "valid_wit ws \<longleftrightarrow> fits 24 (length ws) \<and> (\<forall>w\<in>set ws. fits 1 (length w))"

lemma read_witness_enc:
  "\<forall>ws\<in>set wss. valid_wit ws \<Longrightarrow> sl_data b = pre @ concat (map ser_witness wss) @ rest \<Longrightarrow>
     k = length pre \<Longrightarrow>
     read_witness b (length wss) k = Inr (Some (wss, k + length (concat (map ser_witness wss))))"
proof (induction wss arbitrary: pre k)
  case Nil
  then show ?case by simp
next
  case (Cons ws wss)
  let ?n = "length ws" and ?s = "VLenSize (of_nat (length ws))"
  let ?e = "concat (map enc_item ws)"
  let ?tl = "concat (map ser_witness wss) @ rest"
  have n: "fits 24 ?n" "\<forall>w\<in>set ws. fits 1 (length w)" using Cons.prems by (simp_all add: valid_wit_def)
  have data: "sl_data b = pre @ vlen_of ?n @ ?e @ ?tl"
    using Cons.prems by (simp add: ser_witness_def [of ws])
  have 1: "slice_from b k = Inr \<lparr>sl_data = vlen_of ?n @ ?e @ ?tl, sl_spare = sl_spare b\<rparr>"
    using data Cons.prems(3) by (intro slice_from_data) simp_all
  have 2: "VLen (vlen_of ?n @ ?e @ ?tl) = (int ?n, ?s)"
    using n(1) by (rule VLen_vlen_of) simp
  have 3: "read_wit_item b ?n (k + ?s) = Inr (Some (ws, (k + ?s) + length ?e))"
    using n(2) data Cons.prems(3)
    by (intro read_wit_item_enc [of ws b "pre @ vlen_of ?n" ?tl]) (simp_all add: length_WriteVlen)
  have 4: "read_witness b (length wss) (k + ?s + length ?e) =
      Inr (Some (wss, (k + ?s + length ?e) + length (concat (map ser_witness wss))))"
    using Cons.prems(1,3) data
    by (intro Cons.IH [of "pre @ vlen_of ?n @ ?e"]) (simp_all add: length_WriteVlen)
  have 5: "?s \<noteq> 0" by (simp add: VLenSize_def)
  show ?case using 1 2 3 4 5 n by (simp add: length_WriteVlen ser_witness_def [of ws])
qed

section \<open>Whole transactions\<close>

text \<open>
  What the format can carry: every pointer set, hashes of 32 bytes, lengths below the limit of
  \<open>make\<close>, one witness per input when there is witness data, and at least one input when there is
  none (an empty input list without witness is read as the witness marker).
\<close>

definition valid_tx :: "tx \<Rightarrow> bool" where
  "valid_tx t \<longleftrightarrow>
     (\<exists>ins outs. tx_TxIn t = map Some ins \<and> tx_TxOut t = map Some outs \<and>
        (\<forall>i\<in>set ins. valid_txin i) \<and> (\<forall>out\<in>set outs. valid_txout out)) \<and>
     fits 24 (length (tx_TxIn t)) \<and> fits 8 (length (tx_TxOut t)) \<and>
     (case tx_SegWit t of
        None \<Rightarrow> tx_TxIn t \<noteq> []
      | Some wss \<Rightarrow> length wss = length (tx_TxIn t) \<and> (\<forall>ws\<in>set wss. valid_wit ws))"

definition tx_content :: "tx \<Rightarrow> tx" where
  "tx_content t = zero_tx\<lparr>tx_Version := tx_Version t, tx_TxIn := tx_TxIn t, tx_TxOut := tx_TxOut t,
     tx_SegWit := tx_SegWit t, tx_Lock_time := tx_Lock_time t\<rparr>"

lemma concatE_ser_txin [simp]: "concatE ser_txin (map Some ins) = Inr (concat (map enc_txin ins))"
  by (induction ins) (simp_all add: ser_txin_def enc_txin_def)

lemma concatE_ser_txout [simp]: "concatE ser_txout (map Some outs) = Inr (concat (map enc_txout outs))"
  by (induction outs) (simp_all add: ser_txout_def enc_txout_def)

text \<open>The stages of \<open>NewTx\<close>, last first.\<close>

lemma newtx_finish_enc:
  "sl_data b = pre @ le_bytes 4 l @ rest \<Longrightarrow> k = length pre \<Longrightarrow>
     newtx_finish b t k = Inr (Some (t\<lparr>tx_Lock_time := l\<rparr>), k + 4)"
  using slice_range_data [of b pre "le_bytes 4 l" rest k "k + 4"]
  by (simp add: newtx_finish_def)

lemma newtx_outs_enc:
  assumes b: "sl_data b = pre @ vlen_of (length outs) @ concat (map enc_txout outs) @ post"
    and k: "k = length pre" and v: "\<forall>out\<in>set outs. valid_txout out" and n: "fits 8 (length outs)"
  shows "newtx_outs b t sw k = newtx_segwit b (t\<lparr>tx_TxOut := map Some outs\<rparr>) sw
     (k + length (vlen_of (length outs)) + length (concat (map enc_txout outs)))"
proof -
  let ?n = "length outs" and ?s = "VLenSize (of_nat (length outs))"
  have 1: "slice_from b k = Inr \<lparr>sl_data = vlen_of ?n @ concat (map enc_txout outs) @ post, sl_spare = sl_spare b\<rparr>"
    using b k by (intro slice_from_data) simp_all
  have 2: "VLen (vlen_of ?n @ concat (map enc_txout outs) @ post) = (int ?n, ?s)"
    using n by (rule VLen_vlen_of) simp
  have 3: "read_items NewTxOut b ?n (k + ?s) =
      Inr (map Some outs, (k + ?s) + length (concat (map enc_txout outs)))"
    using b k v
    by (intro txout_codec.read_items_enc [of outs b "pre @ vlen_of ?n" post]) (simp_all add: length_WriteVlen)
  have 5: "?s \<noteq> 0" by (simp add: VLenSize_def)
  show ?thesis using 1 2 3 5 n by (simp add: newtx_outs_def length_WriteVlen)
qed

lemma newtx_ins_enc:
  assumes b: "sl_data b = pre @ vlen_of (length ins) @ concat (map enc_txin ins) @ post"
    and k: "k = length pre" and v: "\<forall>i\<in>set ins. valid_txin i" and n: "fits 8 (length ins)"
  shows "newtx_ins b t sw k = newtx_outs b (t\<lparr>tx_TxIn := map Some ins\<rparr>) sw
     (k + length (vlen_of (length ins)) + length (concat (map enc_txin ins)))"
proof -
  let ?n = "length ins" and ?s = "VLenSize (of_nat (length ins))"
  have 1: "slice_from b k = Inr \<lparr>sl_data = vlen_of ?n @ concat (map enc_txin ins) @ post, sl_spare = sl_spare b\<rparr>"
    using b k by (intro slice_from_data) simp_all
  have 2: "VLen (vlen_of ?n @ concat (map enc_txin ins) @ post) = (int ?n, ?s)"
    using n by (rule VLen_vlen_of) simp
  have 3: "read_items NewTxIn b ?n (k + ?s) =
      Inr (map Some ins, (k + ?s) + length (concat (map enc_txin ins)))"
    using b k v
    by (intro txin_codec.read_items_enc [of ins b "pre @ vlen_of ?n" post]) (simp_all add: length_WriteVlen)
  have 5: "?s \<noteq> 0" by (simp add: VLenSize_def)
  show ?thesis using 1 2 3 5 n by (simp add: newtx_ins_def length_WriteVlen)
qed

lemma newtx_segwit_enc:
  assumes b: "sl_data b = pre @ concat (map ser_witness wss) @ le_bytes 4 l @ rest"
    and k: "k = length pre" and v: "\<forall>ws\<in>set wss. valid_wit ws"
    and n: "length wss = length (tx_TxIn t)" "fits 24 (length (tx_TxIn t))"
  shows "newtx_segwit b t True k =
     Inr (Some (t\<lparr>tx_SegWit := Some wss, tx_Lock_time := l\<rparr>), k + length (concat (map ser_witness wss)) + 4)"
proof -
  have 1: "read_witness b (length (tx_TxIn t)) k = Inr (Some (wss, k + length (concat (map ser_witness wss))))"
    using read_witness_enc [OF v b k] n by simp
  have 2: "newtx_finish b (t\<lparr>tx_SegWit := Some wss\<rparr>) (k + length (concat (map ser_witness wss))) =
      Inr (Some (t\<lparr>tx_SegWit := Some wss, tx_Lock_time := l\<rparr>), k + length (concat (map ser_witness wss)) + 4)"
    using b k by (intro newtx_finish_enc [of b "pre @ concat (map ser_witness wss)" l rest, THEN trans]) simp_all
  show ?thesis using 1 2 n by (simp add: newtx_segwit_def)
qed

lemma first_vlen_byte:
  assumes "0 < n" "fits k n" "0 < k"
  shows "\<exists>c r. vlen_of n = c # r \<and> c \<noteq> 0"
proof -
  have "n \<le> k * n" using assms by simp
  also have "\<dots> < 2 ^ 64" using assms(2) by simp
  finally have nz: "(of_nat n :: u64) \<noteq> 0"
    using assms(1) by (simp add: word_of_nat_eq_0_iff nat_dvd_not_less)
  show ?thesis
  proof (cases "(of_nat n :: u64) < 0xfd")
    case True
    then have "(ucast (of_nat n :: u64) :: byte) \<noteq> 0"
      using ucast_ucast_small(1) [OF True] nz by auto
    with True show ?thesis by (simp add: WriteVlen_def)
  next
    case False
    then show ?thesis by (auto simp: WriteVlen_def)
  qed
qed

text \<open>
  The round trip: what \<open>SerializeNew\<close> writes for a transaction of the format, \<open>NewTx\<close> reads back,
  takes exactly those bytes of whatever follows, and sets nothing else.
\<close>

lemma newtx_body_legacy:
  assumes ins: "\<forall>i\<in>set ins. valid_txin i" "fits 24 (length ins)" "ins \<noteq> []"
    and outs: "\<forall>out\<in>set outs. valid_txout out" "fits 8 (length outs)"
    and b: "sl_data b = le_bytes 4 v @ vlen_of (length ins) @ concat (map enc_txin ins) @
       vlen_of (length outs) @ concat (map enc_txout outs) @ le_bytes 4 l @ rest"
  shows "newtx_body b = Inr (Some (zero_tx\<lparr>tx_Version := v, tx_TxIn := map Some ins,
      tx_TxOut := map Some outs, tx_Lock_time := l\<rparr>), length (sl_data b) - length rest)"
proof -
  obtain c r where c: "vlen_of (length ins) = c # r" "c \<noteq> 0"
    using first_vlen_byte [of "length ins" 24] ins by auto
  have 1: "slice_range b 0 4 = Inr (le_bytes 4 v)"
    using b by (intro slice_range_data [of b "[]"]) simp_all
  have 2: "slice_index b 4 = Inr c"
    using b c by (simp add: slice_index_def nth_append)
  let ?t = "zero_tx\<lparr>tx_Version := v\<rparr>"
  have f8: "fits 8 (length ins)" using ins(2) by simp
  have 3: "newtx_ins b ?t False 4 = newtx_outs b (?t\<lparr>tx_TxIn := map Some ins\<rparr>) False
     (4 + length (vlen_of (length ins)) + length (concat (map enc_txin ins)))"
    using b by (intro newtx_ins_enc [of b "le_bytes 4 v", OF _ _ ins(1) f8]) simp_all
  let ?k = "4 + length (vlen_of (length ins)) + length (concat (map enc_txin ins))"
  have 4: "newtx_outs b (?t\<lparr>tx_TxIn := map Some ins\<rparr>) False ?k =
      newtx_segwit b (?t\<lparr>tx_TxIn := map Some ins, tx_TxOut := map Some outs\<rparr>) False
        (?k + length (vlen_of (length outs)) + length (concat (map enc_txout outs)))"
    using b
    by (subst newtx_outs_enc [of b "le_bytes 4 v @ vlen_of (length ins) @ concat (map enc_txin ins)",
          OF _ _ outs]) simp_all
  let ?m = "?k + length (vlen_of (length outs)) + length (concat (map enc_txout outs))"
  have 5: "newtx_finish b t ?m = Inr (Some (t\<lparr>tx_Lock_time := l\<rparr>), ?m + 4)" for t
    using b
    by (intro newtx_finish_enc [of b "le_bytes 4 v @ vlen_of (length ins) @ concat (map enc_txin ins) @
          vlen_of (length outs) @ concat (map enc_txout outs)"]) simp_all
  show ?thesis
    using 1 2 3 4 5 c(2) by (simp add: newtx_body_def newtx_segwit_def b)
qed

lemma newtx_body_segwit:
  assumes ins: "\<forall>i\<in>set ins. valid_txin i" "fits 24 (length ins)"
    and outs: "\<forall>out\<in>set outs. valid_txout out" "fits 8 (length outs)"
    and wit: "\<forall>ws\<in>set wss. valid_wit ws" "length wss = length ins"
    and b: "sl_data b = le_bytes 4 v @ [0x00, 0x01] @ vlen_of (length ins) @ concat (map enc_txin ins) @
       vlen_of (length outs) @ concat (map enc_txout outs) @ concat (map ser_witness wss) @
       le_bytes 4 l @ rest"
  shows "newtx_body b = Inr (Some (zero_tx\<lparr>tx_Version := v, tx_TxIn := map Some ins,
      tx_TxOut := map Some outs, tx_SegWit := Some wss, tx_Lock_time := l\<rparr>),
      length (sl_data b) - length rest)"
proof -
  have 1: "slice_range b 0 4 = Inr (le_bytes 4 v)"
    using b by (intro slice_range_data [of b "[]"]) simp_all
  have 2: "slice_index b 4 = Inr 0" "slice_index b 5 = Inr 1"
    using b by (simp_all add: slice_index_def nth_append)
  let ?t = "zero_tx\<lparr>tx_Version := v\<rparr>"
  let ?p = "le_bytes 4 v @ [0x00, 0x01]"
  have f8: "fits 8 (length ins)" using ins(2) by simp
  have 3: "newtx_ins b ?t True 6 = newtx_outs b (?t\<lparr>tx_TxIn := map Some ins\<rparr>) True
     (6 + length (vlen_of (length ins)) + length (concat (map enc_txin ins)))"
    using b by (intro newtx_ins_enc [of b ?p, OF _ _ ins(1) f8]) simp_all
  let ?k = "6 + length (vlen_of (length ins)) + length (concat (map enc_txin ins))"
  have 4: "newtx_outs b (?t\<lparr>tx_TxIn := map Some ins\<rparr>) True ?k =
      newtx_segwit b (?t\<lparr>tx_TxIn := map Some ins, tx_TxOut := map Some outs\<rparr>) True
        (?k + length (vlen_of (length outs)) + length (concat (map enc_txout outs)))"
    using b
    by (subst newtx_outs_enc [of b "?p @ vlen_of (length ins) @ concat (map enc_txin ins)",
          OF _ _ outs]) simp_all
  let ?m = "?k + length (vlen_of (length outs)) + length (concat (map enc_txout outs))"
  have 5: "newtx_segwit b t True ?m = Inr (Some (t\<lparr>tx_SegWit := Some wss, tx_Lock_time := l\<rparr>),
      ?m + length (concat (map ser_witness wss)) + 4)" if "tx_TxIn t = map Some ins" for t
    using b that wit ins(2)
    by (intro newtx_segwit_enc [of b "?p @ vlen_of (length ins) @ concat (map enc_txin ins) @
          vlen_of (length outs) @ concat (map enc_txout outs)"]) simp_all
  show ?thesis
    using 1 2 3 4 5 by (simp add: newtx_body_def b)
qed

lemma NewTx_SerializeNew:
  assumes "valid_tx t" "SerializeNew t = Inr raw" "sl_data b = raw @ rest"
  shows "NewTx b = (Some (tx_content t), length raw)"
proof -
  obtain ins outs where t: "tx_TxIn t = map Some ins" "tx_TxOut t = map Some outs"
    and i: "\<forall>i\<in>set ins. valid_txin i" "fits 24 (length ins)"
    and o: "\<forall>out\<in>set outs. valid_txout out" "fits 8 (length outs)"
    using assms(1) unfolding valid_tx_def by auto
  show ?thesis
  proof (cases "tx_SegWit t")
    case None
    then have ne: "ins \<noteq> []" using assms(1) t by (simp add: valid_tx_def)
    from assms(2) None t have raw: "raw = le_bytes 4 (tx_Version t) @ vlen_of (length ins) @
        concat (map enc_txin ins) @ vlen_of (length outs) @ concat (map enc_txout outs) @
        le_bytes 4 (tx_Lock_time t)"
      by (simp add: SerializeNew_def WriteSerializedNew_def WriteSerialized_def)
    from newtx_body_legacy [OF i ne o, of b "tx_Version t" "tx_Lock_time t" rest] raw assms(3) t None
    show ?thesis by (simp add: NewTx_def tx_content_def zero_tx_def)
  next
    case (Some wss)
    then have w: "\<forall>ws\<in>set wss. valid_wit ws" "length wss = length ins"
      using assms(1) t by (simp_all add: valid_tx_def)
    from assms(2) Some t have raw: "raw = le_bytes 4 (tx_Version t) @ [0x00, 0x01] @ vlen_of (length ins) @
        concat (map enc_txin ins) @ vlen_of (length outs) @ concat (map enc_txout outs) @
        concat (map ser_witness wss) @ le_bytes 4 (tx_Lock_time t)"
      by (simp add: SerializeNew_def WriteSerializedNew_def)
    from newtx_body_segwit [OF i o w, of b "tx_Version t" "tx_Lock_time t" rest] raw assms(3) t Some
    show ?thesis by (simp add: NewTx_def tx_content_def zero_tx_def)
  qed
qed

end
