(* ===== verification/SigHash.thy ===== *)
theory SigHash
  imports TxCodec
begin

text \<open>
  Signature hashes: \<open>SignatureHash\<close> (pre-segwit) and \<open>WitnessSigHash\<close> of \<open>lib/btc/tx.go\<close>, and
  \<open>TaprootSigHash\<close> of \<open>lib/btc/taproot.go\<close>. The last two keep partial hashes in the
  transaction between calls, so they return the updated transaction; the mutex around them is
  what makes one call one step. The reference definitions compute the same hashes without any
  cache, and the lemmas show that a consistent cache is kept consistent and never shows.
\<close>

abbreviation (input) SIGHASH_ALL :: "'a::len word" where "SIGHASH_ALL \<equiv> 1"
abbreviation (input) SIGHASH_NONE :: "'a::len word" where "SIGHASH_NONE \<equiv> 2"
abbreviation (input) SIGHASH_SINGLE :: "'a::len word" where "SIGHASH_SINGLE \<equiv> 3"
abbreviation (input) SIGHASH_ANYONECANPAY :: "'a::len word" where "SIGHASH_ANYONECANPAY \<equiv> 0x80"

section \<open>\<open>SignatureHash\<close>\<close>

text \<open>The first loop: the script code without \<open>OP_CODESEPARATOR\<close>, up to a broken instruction.\<close>

function remove_codesep :: "bytes \<Rightarrow> bytes" where
  "remove_codesep scr =
     (if scr = [] then []
      else case GetOpcode scr of
             Inl _ \<Rightarrow> []
           | Inr (op, _, n) \<Rightarrow>
               (if op \<noteq> 0xab then take n scr else []) @ remove_codesep (drop n scr))"
  by pat_completeness auto
termination by (relation "measure length") (auto simp: drop_shorter)

declare remove_codesep.simps [simp del]

definition get_txin :: "tx \<Rightarrow> nat \<Rightarrow> go_panic + txin" where
  "get_txin t i = andThen (index (tx_TxIn t) i) deref"

definition get_txout :: "tx \<Rightarrow> nat \<Rightarrow> go_panic + txout" where
  "get_txout t i = andThen (index (tx_TxOut t) i) deref"

definition outpoint_bytes :: "txin \<Rightarrow> bytes" where
  "outpoint_bytes i = po_Hash (ti_Input i) @ le_bytes 4 (po_Vout (ti_Input i))"

text \<open>The input part of the preimage.\<close>

definition sighash_in :: "bytes \<Rightarrow> nat \<Rightarrow> u32 \<Rightarrow> nat \<times> txin option \<Rightarrow> go_panic + bytes" where
  "sighash_in scriptCode nIn ht ip =
     (case ip of (i, p) \<Rightarrow> andThen (deref p) (\<lambda>x.
        Inr (outpoint_bytes x @
             (if i = nIn then vlen_of (length scriptCode) @ scriptCode else [0]) @
             (if (ht = SIGHASH_NONE \<or> ht = SIGHASH_SINGLE) \<and> i \<noteq> nIn then [0, 0, 0, 0]
              else le_bytes 4 (ti_Sequence x)))))"

definition sighash_ins :: "tx \<Rightarrow> bytes \<Rightarrow> nat \<Rightarrow> u32 \<Rightarrow> go_panic + bytes" where
  "sighash_ins t scriptCode nIn hashType =
     (if hashType AND SIGHASH_ANYONECANPAY \<noteq> 0 then
        andThen (get_txin t nIn) (\<lambda>x.
        Inr ([1] @ outpoint_bytes x @ vlen_of (length scriptCode) @ scriptCode @
             le_bytes 4 (ti_Sequence x)))
      else
        andThen (concatE (sighash_in scriptCode nIn (hashType AND 0x1f))
                   (zip [0..<length (tx_TxIn t)] (tx_TxIn t))) (\<lambda>ins.
        Inr (vlen_of (length (tx_TxIn t)) @ ins)))"

text \<open>The output part; \<open>None\<close> is the early return of the constant hash.\<close>

definition sighash_outs :: "tx \<Rightarrow> nat \<Rightarrow> u32 \<Rightarrow> go_panic + bytes option" where
  "sighash_outs t nIn ht =
     (if ht = SIGHASH_NONE then Inr (Some [0])
      else if ht = SIGHASH_SINGLE then
        (if nIn \<ge> length (tx_TxOut t) then Inr None
         else andThen (ser_txout (tx_TxOut t ! nIn)) (\<lambda>out.
           Inr (Some (vlen_of (nIn + 1) @
                      concat (replicate nIn [0xff, 0xff, 0xff, 0xff, 0xff, 0xff, 0xff, 0xff, 0]) @ out))))
      else
        andThen (concatE ser_txout (tx_TxOut t)) (\<lambda>outs.
        Inr (Some (vlen_of (length (tx_TxOut t)) @ outs))))"

definition one_hash :: bytes where
  "one_hash = 1 # replicate 31 0"

definition SignatureHash :: "tx \<Rightarrow> bytes \<Rightarrow> nat \<Rightarrow> u32 \<Rightarrow> go_panic + bytes" where
  "SignatureHash t scriptCode nIn hashType =
     (let scriptCode = remove_codesep scriptCode in
      andThen (sighash_ins t scriptCode nIn hashType) (\<lambda>ins.
      andThen (sighash_outs t nIn (hashType AND 0x1f)) (\<lambda>outs.
      case outs of
        None \<Rightarrow> Inr one_hash
      | Some outs \<Rightarrow>
          Inr (Sha2Sum (le_bytes 4 (tx_Version t) @ ins @ outs @ le_bytes 4 (tx_Lock_time t) @
                        le_bytes 4 hashType)))))"

section \<open>\<open>WitnessSigHash\<close>\<close>

definition all_outpoints :: "tx \<Rightarrow> go_panic + bytes" where
  "all_outpoints t = concatE (\<lambda>p. andThen (deref p) (\<lambda>i. Inr (outpoint_bytes i))) (tx_TxIn t)"

definition all_sequences :: "tx \<Rightarrow> go_panic + bytes" where
  "all_sequences t = concatE (\<lambda>p. andThen (deref p) (\<lambda>i. Inr (le_bytes 4 (ti_Sequence i)))) (tx_TxIn t)"

definition all_outputs :: "tx \<Rightarrow> go_panic + bytes" where
  "all_outputs t = concatE ser_txout (tx_TxOut t)"

definition nullHash :: bytes where
  "nullHash = replicate 32 0"

text \<open>A cached partial hash: computed by \<open>f\<close> and stored when the cache is nil.\<close>

definition cached :: "(tx \<Rightarrow> bytes option) \<Rightarrow> (bytes option \<Rightarrow> tx \<Rightarrow> tx) \<Rightarrow> (bytes \<Rightarrow> bytes)
    \<Rightarrow> (tx \<Rightarrow> go_panic + bytes) \<Rightarrow> tx \<Rightarrow> go_panic + bytes \<times> tx" where
  "cached get put h f t =
     (case get t of
        Some c \<Rightarrow> Inr (c, t)
      | None \<Rightarrow> andThen (f t) (\<lambda>d. Inr (h d, put (Some (h d)) t)))"

definition wsh_prevouts :: "tx \<Rightarrow> u32 \<Rightarrow> go_panic + bytes \<times> tx" where
  "wsh_prevouts t hashType =
     (if hashType AND SIGHASH_ANYONECANPAY = 0 then
        cached tx_hashPrevouts (\<lambda>c t. t\<lparr>tx_hashPrevouts := c\<rparr>) Sha2Sum all_outpoints t
      else Inr (nullHash, t))"

definition wsh_sequence :: "tx \<Rightarrow> u32 \<Rightarrow> go_panic + bytes \<times> tx" where
  "wsh_sequence t hashType =
     (if hashType AND SIGHASH_ANYONECANPAY = 0 \<and> hashType AND 0x1f \<noteq> SIGHASH_SINGLE \<and>
         hashType AND 0x1f \<noteq> SIGHASH_NONE then
        cached tx_hashSequence (\<lambda>c t. t\<lparr>tx_hashSequence := c\<rparr>) Sha2Sum all_sequences t
      else Inr (nullHash, t))"

definition wsh_outputs :: "tx \<Rightarrow> nat \<Rightarrow> u32 \<Rightarrow> go_panic + bytes \<times> tx" where
  "wsh_outputs t nIn hashType =
     (if hashType AND 0x1f \<noteq> SIGHASH_SINGLE \<and> hashType AND 0x1f \<noteq> SIGHASH_NONE then
        cached tx_hashOutputs (\<lambda>c t. t\<lparr>tx_hashOutputs := c\<rparr>) Sha2Sum all_outputs t
      else if hashType AND 0x1f = SIGHASH_SINGLE \<and> nIn < length (tx_TxOut t) then
        andThen (ser_txout (tx_TxOut t ! nIn)) (\<lambda>out. Inr (Sha2Sum out, t))
      else Inr (nullHash, t))"

definition WitnessSigHash :: "tx \<Rightarrow> bytes \<Rightarrow> u64 \<Rightarrow> nat \<Rightarrow> u32 \<Rightarrow> go_panic + bytes \<times> tx" where
  "WitnessSigHash t scriptCode amount nIn hashType =
     andThen (wsh_prevouts t hashType) (\<lambda>(hashPrevouts, t).
     andThen (wsh_sequence t hashType) (\<lambda>(hashSequence, t).
     andThen (wsh_outputs t nIn hashType) (\<lambda>(hashOutputs, t).
     andThen (get_txin t nIn) (\<lambda>x.
     Inr (Sha2Sum (le_bytes 4 (tx_Version t) @ hashPrevouts @ hashSequence @ outpoint_bytes x @
            vlen_of (length scriptCode) @ scriptCode @ le_bytes 8 amount @
            le_bytes 4 (ti_Sequence x) @ hashOutputs @ le_bytes 4 (tx_Lock_time t) @
            le_bytes 4 hashType), t)))))"

section \<open>\<open>TaprootSigHash\<close>\<close>

record ScriptExecutionData =
  M_tapleaf_hash :: bytes
  M_codeseparator_pos_init :: bool
  M_codeseparator_pos :: u32
  M_annex_hash :: "bytes option"
  M_validation_weight_left_init :: bool
  M_validation_weight_left :: int

definition zero_execdata :: ScriptExecutionData where
  "zero_execdata = \<lparr>M_tapleaf_hash = [], M_codeseparator_pos_init = False, M_codeseparator_pos = 0,
     M_annex_hash = None, M_validation_weight_left_init = False, M_validation_weight_left = 0\<rparr>"

definition get_spent :: "tx \<Rightarrow> nat \<Rightarrow> go_panic + txout" where
  "get_spent t i = andThen (index (tx_Spent_outputs t) i) deref"

definition spent_amounts :: "tx \<Rightarrow> go_panic + bytes" where
  "spent_amounts t = concatE (\<lambda>i. andThen (get_spent t i) (\<lambda>so. Inr (le_bytes 8 (to_Value so))))
     [0..<length (tx_TxIn t)]"

definition script_bytes :: "txout \<Rightarrow> bytes" where
  "script_bytes so = vlen_of (length (to_Pk_script so)) @ to_Pk_script so"

definition spent_scripts :: "tx \<Rightarrow> go_panic + bytes" where
  "spent_scripts t = concatE (\<lambda>i. andThen (get_spent t i) (\<lambda>so. Inr (script_bytes so)))
     [0..<length (tx_TxIn t)]"

text \<open>The four input hashes are computed together, when the first of them is nil.\<close>

definition tsh_fill_inputs :: "tx \<Rightarrow> go_panic + tx" where
  "tsh_fill_inputs t =
     (if tx_m_prevouts t = None then
        andThen (all_outpoints t) (\<lambda>ops.
        andThen (spent_amounts t) (\<lambda>amounts.
        andThen (spent_scripts t) (\<lambda>scripts.
        andThen (all_sequences t) (\<lambda>seqs.
        Inr (t\<lparr>tx_m_prevouts := Some (sha256 ops), tx_m_spent_amounts := Some (sha256 amounts),
               tx_m_spent_scripts := Some (sha256 scripts), tx_m_sequences := Some (sha256 seqs)\<rparr>)))))
      else Inr t)"

definition tsh_inputs :: "tx \<Rightarrow> byte \<Rightarrow> go_panic + bytes \<times> tx" where
  "tsh_inputs t input_type =
     (if input_type \<noteq> SIGHASH_ANYONECANPAY then
        andThen (tsh_fill_inputs t) (\<lambda>t.
        Inr (bytes_of (tx_m_prevouts t) @ bytes_of (tx_m_spent_amounts t) @
             bytes_of (tx_m_spent_scripts t) @ bytes_of (tx_m_sequences t), t))
      else Inr ([], t))"

definition tsh_outputs :: "tx \<Rightarrow> byte \<Rightarrow> go_panic + bytes \<times> tx" where
  "tsh_outputs t output_type =
     (if output_type = SIGHASH_ALL then
        cached tx_m_outputs (\<lambda>c t. t\<lparr>tx_m_outputs := c\<rparr>) sha256 all_outputs t
      else Inr ([], t))"

definition tsh_this_input :: "tx \<Rightarrow> nat \<Rightarrow> byte \<Rightarrow> go_panic + bytes" where
  "tsh_this_input t in_pos input_type =
     (if input_type = SIGHASH_ANYONECANPAY then
        andThen (get_txin t in_pos) (\<lambda>x. andThen (get_spent t in_pos) (\<lambda>so.
        Inr (outpoint_bytes x @ le_bytes 8 (to_Value so) @ script_bytes so @ le_bytes 4 (ti_Sequence x))))
      else Inr (le_bytes 4 (of_nat in_pos :: u32)))"

text \<open>\<open>None\<close> is the early return of the zero hash.\<close>

definition tsh_single :: "tx \<Rightarrow> nat \<Rightarrow> byte \<Rightarrow> go_panic + bytes option" where
  "tsh_single t in_pos output_type =
     (if output_type = SIGHASH_SINGLE then
        (if in_pos \<ge> length (tx_TxOut t) then Inr None
         else andThen (ser_txout (tx_TxOut t ! in_pos)) (\<lambda>out. Inr (Some (sha256 out))))
      else Inr (Some []))"

definition valid_taproot_hashtype :: "byte \<Rightarrow> bool" where
  "valid_taproot_hashtype h \<longleftrightarrow> h \<le> 0x03 \<or> (h \<ge> 0x81 \<and> h \<le> 0x83)"

definition TaprootSigHash :: "tx \<Rightarrow> ScriptExecutionData \<Rightarrow> nat \<Rightarrow> byte \<Rightarrow> bool \<Rightarrow> go_panic + bytes \<times> tx" where
  "TaprootSigHash t execdata in_pos hash_type script =
     (let ext_flag = (if script then 1 else 0 :: byte);
          output_type = (if hash_type = 0 then SIGHASH_ALL else hash_type AND 3);
          input_type = hash_type AND 0x80
      in if \<not> valid_taproot_hashtype hash_type then Inr (replicate 32 0, t)
      else
        andThen (tsh_inputs t input_type) (\<lambda>(ins, t).
        andThen (tsh_outputs t output_type) (\<lambda>(outs, t).
        let have_annex = M_annex_hash execdata \<noteq> None;
            spend_type = push_bit 1 ext_flag + (if have_annex then 1 else 0)
        in
        andThen (tsh_this_input t in_pos input_type) (\<lambda>this.
        andThen (tsh_single t in_pos output_type) (\<lambda>single.
        case single of
          None \<Rightarrow> Inr (replicate 32 0, t)
        | Some single \<Rightarrow>
            Inr (Hasher HASHER_TAPSIGHASH
                   ([0, hash_type] @ le_bytes 4 (tx_Version t) @ le_bytes 4 (tx_Lock_time t) @
                    ins @ outs @ [spend_type] @ this @ bytes_of (M_annex_hash execdata) @ single @
                    (if script then M_tapleaf_hash execdata @ [0] @ le_bytes 4 (M_codeseparator_pos execdata)
                     else [])), t))))))"

section \<open>The caches\<close>

definition no_caches :: "tx \<Rightarrow> tx" where
  "no_caches t = t\<lparr>tx_hashPrevouts := None, tx_hashSequence := None, tx_hashOutputs := None,
     tx_m_prevouts := None, tx_m_sequences := None, tx_m_outputs := None,
     tx_m_spent_amounts := None, tx_m_spent_scripts := None\<rparr>"

definition cache_ok :: "(tx \<Rightarrow> bytes option) \<Rightarrow> (bytes \<Rightarrow> bytes) \<Rightarrow> (tx \<Rightarrow> go_panic + bytes) \<Rightarrow> tx \<Rightarrow> bool" where
  "cache_ok get h f t \<longleftrightarrow> (\<forall>c. get t = Some c \<longrightarrow> (\<exists>d. f t = Inr d \<and> c = h d))"

definition caches_ok :: "tx \<Rightarrow> bool" where
  "caches_ok t \<longleftrightarrow>
     cache_ok tx_hashPrevouts Sha2Sum all_outpoints t \<and>
     cache_ok tx_hashSequence Sha2Sum all_sequences t \<and>
     cache_ok tx_hashOutputs Sha2Sum all_outputs t \<and>
     cache_ok tx_m_outputs sha256 all_outputs t \<and>
     cache_ok tx_m_prevouts sha256 all_outpoints t \<and>
     (tx_m_prevouts t \<noteq> None \<longrightarrow>
        (\<exists>d. spent_amounts t = Inr d \<and> tx_m_spent_amounts t = Some (sha256 d)) \<and>
        (\<exists>d. spent_scripts t = Inr d \<and> tx_m_spent_scripts t = Some (sha256 d)) \<and>
        (\<exists>d. all_sequences t = Inr d \<and> tx_m_sequences t = Some (sha256 d)))"

text \<open>Two transactions that differ in their caches only, both consistent.\<close>

definition same_tx :: "tx \<Rightarrow> tx \<Rightarrow> bool" where
  "same_tx t u \<longleftrightarrow> no_caches t = no_caches u \<and> caches_ok t \<and> caches_ok u"

lemma no_caches_fields [simp]:
  "tx_Version (no_caches t) = tx_Version t" "tx_TxIn (no_caches t) = tx_TxIn t"
  "tx_TxOut (no_caches t) = tx_TxOut t" "tx_Lock_time (no_caches t) = tx_Lock_time t"
  "tx_Spent_outputs (no_caches t) = tx_Spent_outputs t" "tx_SegWit (no_caches t) = tx_SegWit t"
  by (simp_all add: no_caches_def)

text \<open>What the hashes are computed from does not include the caches.\<close>

lemma parts_no_caches:
  "all_outpoints t = all_outpoints (no_caches t)" "all_sequences t = all_sequences (no_caches t)"
  "all_outputs t = all_outputs (no_caches t)" "spent_amounts t = spent_amounts (no_caches t)"
  "spent_scripts t = spent_scripts (no_caches t)" "get_txin t = get_txin (no_caches t)"
  "get_txout t = get_txout (no_caches t)" "get_spent t = get_spent (no_caches t)"
  by (simp_all add: all_outpoints_def all_sequences_def all_outputs_def spent_amounts_def
      spent_scripts_def get_txin_def get_txout_def get_spent_def fun_eq_iff)

lemma caches_ok_no_caches [simp]: "caches_ok (no_caches t)"
  by (simp add: caches_ok_def cache_ok_def no_caches_def)

lemma no_caches_idem [simp]: "no_caches (no_caches t) = no_caches t"
  by (simp add: no_caches_def)

lemma same_tx_no_caches: "caches_ok t \<Longrightarrow> same_tx t (no_caches t)"
  by (simp add: same_tx_def)

lemma same_tx_parts:
  assumes "same_tx t u"
  shows "all_outpoints t = all_outpoints u" "all_sequences t = all_sequences u"
    "all_outputs t = all_outputs u" "spent_amounts t = spent_amounts u"
    "spent_scripts t = spent_scripts u" "get_txin t = get_txin u"
    "get_spent t = get_spent u" "tx_Version t = tx_Version u"
    "tx_TxIn t = tx_TxIn u" "tx_TxOut t = tx_TxOut u" "tx_Lock_time t = tx_Lock_time u"
    "tx_SegWit t = tx_SegWit u"
proof -
  have nc: "no_caches t = no_caches u" using assms by (simp add: same_tx_def)
  note p = parts_no_caches [of t] parts_no_caches [of u]
  show "all_outpoints t = all_outpoints u" "all_sequences t = all_sequences u"
    "all_outputs t = all_outputs u" "spent_amounts t = spent_amounts u"
    "spent_scripts t = spent_scripts u" "get_txin t = get_txin u"
    "get_spent t = get_spent u"
    using nc p by metis+
  show "tx_Version t = tx_Version u" "tx_TxIn t = tx_TxIn u" "tx_TxOut t = tx_TxOut u"
    "tx_Lock_time t = tx_Lock_time u" "tx_SegWit t = tx_SegWit u"
    using arg_cong [OF nc, of tx_Version] arg_cong [OF nc, of tx_TxIn] arg_cong [OF nc, of tx_TxOut]
      arg_cong [OF nc, of tx_Lock_time] arg_cong [OF nc, of tx_SegWit] by simp_all
qed

text \<open>Relational steps of the error monad: equal errors, related results.\<close>

lemma rel_andThen:
  "rel_sum (=) R m m' \<Longrightarrow> (\<And>x y. R x y \<Longrightarrow> rel_sum (=) S (f x) (g y)) \<Longrightarrow>
     rel_sum (=) S (andThen m f) (andThen m' g)"
  by (cases m; cases m') auto

lemma rel_andThen_same:
  "(\<And>x. rel_sum (=) S (f x) (g x)) \<Longrightarrow> rel_sum (=) S (andThen m f) (andThen m g)"
  by (cases m) auto

lemma rel_andThen_pair:
  "rel_sum (=) (rel_prod (=) R) m m' \<Longrightarrow> (\<And>a t u. R t u \<Longrightarrow> rel_sum (=) S (f a t) (g a u)) \<Longrightarrow>
     rel_sum (=) S (andThen m (\<lambda>(a, t). f a t)) (andThen m' (\<lambda>(a, t). g a t))"
  by (erule rel_andThen) auto

text \<open>
  A cached partial hash: the locale says what a cache field must satisfy, and is interpreted
  on the four that are filled one at a time.
\<close>

locale hash_cache =
  fixes get :: "tx \<Rightarrow> bytes option" and put :: "bytes option \<Rightarrow> tx \<Rightarrow> tx"
    and h :: "bytes \<Rightarrow> bytes" and f :: "tx \<Rightarrow> go_panic + bytes"
  assumes content: "same_tx t u \<Longrightarrow> f t = f u"
    and ok: "caches_ok t \<Longrightarrow> cache_ok get h f t"
    and put_ok: "caches_ok t \<Longrightarrow> f t = Inr d \<Longrightarrow> caches_ok (put (Some (h d)) t)"
    and put_content: "no_caches (put c t) = no_caches t"
begin

lemma cached_value:
  "caches_ok t \<Longrightarrow> map_sum id fst (cached get put h f t) = andThen (f t) (\<lambda>d. Inr (h d))"
  using ok [of t] by (cases "f t"; cases "get t") (auto simp: cached_def cache_ok_def)

lemma cached_tx: "caches_ok t \<Longrightarrow> cached get put h f t = Inr (x, t') \<Longrightarrow> same_tx t t'"
  using put_ok [of t] put_content
  by (cases "f t"; cases "get t") (auto simp: cached_def same_tx_def)

lemma cached_rel:
  assumes "same_tx t u"
  shows "rel_sum (=) (rel_prod (=) same_tx) (cached get put h f t) (cached get put h f u)"
proof -
  have ok': "caches_ok t" "caches_ok u" using assms by (auto simp: same_tx_def)
  note v = cached_value [OF ok'(1)] cached_value [OF ok'(2)] content [OF assms]
  show ?thesis
    using v cached_tx [OF ok'(1)] cached_tx [OF ok'(2)] assms
    by (cases "cached get put h f t"; cases "cached get put h f u"; cases "f u")
       (auto simp: same_tx_def)
qed

end

lemma parts_upd [simp]:
  "all_outpoints (t\<lparr>tx_hashPrevouts := c\<rparr>) = all_outpoints t"
  "all_outpoints (t\<lparr>tx_hashSequence := c\<rparr>) = all_outpoints t"
  "all_outpoints (t\<lparr>tx_hashOutputs := c\<rparr>) = all_outpoints t"
  "all_outpoints (t\<lparr>tx_m_outputs := c\<rparr>) = all_outpoints t"
  "all_sequences (t\<lparr>tx_hashPrevouts := c\<rparr>) = all_sequences t"
  "all_sequences (t\<lparr>tx_hashSequence := c\<rparr>) = all_sequences t"
  "all_sequences (t\<lparr>tx_hashOutputs := c\<rparr>) = all_sequences t"
  "all_sequences (t\<lparr>tx_m_outputs := c\<rparr>) = all_sequences t"
  "all_outputs (t\<lparr>tx_hashPrevouts := c\<rparr>) = all_outputs t"
  "all_outputs (t\<lparr>tx_hashSequence := c\<rparr>) = all_outputs t"
  "all_outputs (t\<lparr>tx_hashOutputs := c\<rparr>) = all_outputs t"
  "all_outputs (t\<lparr>tx_m_outputs := c\<rparr>) = all_outputs t"
  "spent_amounts (t\<lparr>tx_hashPrevouts := c\<rparr>) = spent_amounts t"
  "spent_amounts (t\<lparr>tx_hashSequence := c\<rparr>) = spent_amounts t"
  "spent_amounts (t\<lparr>tx_hashOutputs := c\<rparr>) = spent_amounts t"
  "spent_amounts (t\<lparr>tx_m_outputs := c\<rparr>) = spent_amounts t"
  "spent_scripts (t\<lparr>tx_hashPrevouts := c\<rparr>) = spent_scripts t"
  "spent_scripts (t\<lparr>tx_hashSequence := c\<rparr>) = spent_scripts t"
  "spent_scripts (t\<lparr>tx_hashOutputs := c\<rparr>) = spent_scripts t"
  "spent_scripts (t\<lparr>tx_m_outputs := c\<rparr>) = spent_scripts t"
  by (simp_all add: all_outpoints_def all_sequences_def all_outputs_def spent_amounts_def
      spent_scripts_def get_spent_def)

interpretation hc_prevouts: hash_cache tx_hashPrevouts "\<lambda>c t. t\<lparr>tx_hashPrevouts := c\<rparr>" Sha2Sum all_outpoints
  by unfold_locales
     (auto simp: same_tx_parts caches_ok_def cache_ok_def no_caches_def)

interpretation hc_sequence: hash_cache tx_hashSequence "\<lambda>c t. t\<lparr>tx_hashSequence := c\<rparr>" Sha2Sum all_sequences
  by unfold_locales
     (auto simp: same_tx_parts caches_ok_def cache_ok_def no_caches_def)

interpretation hc_outputs: hash_cache tx_hashOutputs "\<lambda>c t. t\<lparr>tx_hashOutputs := c\<rparr>" Sha2Sum all_outputs
  by unfold_locales
     (auto simp: same_tx_parts caches_ok_def cache_ok_def no_caches_def)

interpretation hc_m_outputs: hash_cache tx_m_outputs "\<lambda>c t. t\<lparr>tx_m_outputs := c\<rparr>" sha256 all_outputs
  by unfold_locales
     (auto simp: same_tx_parts caches_ok_def cache_ok_def no_caches_def)

lemma rel_same: "same_tx t u \<Longrightarrow> rel_sum (=) (rel_prod (=) same_tx) (Inr (x, t)) (Inr (x, u))"
  by simp

lemma wsh_rel:
  assumes "same_tx t u"
  shows "rel_sum (=) (rel_prod (=) same_tx) (wsh_prevouts t ht) (wsh_prevouts u ht)"
    "rel_sum (=) (rel_prod (=) same_tx) (wsh_sequence t ht) (wsh_sequence u ht)"
    "rel_sum (=) (rel_prod (=) same_tx) (wsh_outputs t nIn ht) (wsh_outputs u nIn ht)"
proof -
  show "rel_sum (=) (rel_prod (=) same_tx) (wsh_outputs t nIn ht) (wsh_outputs u nIn ht)"
    unfolding wsh_outputs_def same_tx_parts(10) [OF assms]
    using hc_outputs.cached_rel [OF assms] assms by (auto intro: rel_andThen_same)
qed (simp_all add: wsh_prevouts_def wsh_sequence_def hc_prevouts.cached_rel hc_sequence.cached_rel assms)

lemma WitnessSigHash_rel:
  assumes "same_tx t u"
  shows "rel_sum (=) (rel_prod (=) same_tx) (WitnessSigHash t sc am i ht) (WitnessSigHash u sc am i ht)"
  unfolding WitnessSigHash_def
proof (rule rel_andThen_pair [OF wsh_rel(1) [OF assms]], rule rel_andThen_pair [OF wsh_rel(2)],
    assumption, rule rel_andThen_pair [OF wsh_rel(3)], assumption)
  fix h1 h2 h3 t u assume "same_tx t u"
  then show "rel_sum (=) (rel_prod (=) same_tx)
      (andThen (get_txin t i) (\<lambda>x.
        Inr (Sha2Sum (le_bytes 4 (tx_Version t) @ h1 @ h2 @ outpoint_bytes x @
              vlen_of (length sc) @ sc @ le_bytes 8 am @ le_bytes 4 (ti_Sequence x) @ h3 @
              le_bytes 4 (tx_Lock_time t) @ le_bytes 4 ht), t)))
      (andThen (get_txin u i) (\<lambda>x.
        Inr (Sha2Sum (le_bytes 4 (tx_Version u) @ h1 @ h2 @ outpoint_bytes x @
              vlen_of (length sc) @ sc @ le_bytes 8 am @ le_bytes 4 (ti_Sequence x) @ h3 @
              le_bytes 4 (tx_Lock_time u) @ le_bytes 4 ht), u)))"
    by (simp add: same_tx_parts rel_andThen_same)
qed

text \<open>The taproot hash.\<close>

lemma tsh_fill_rel:
  assumes "same_tx t u"
  shows "rel_sum (=) (\<lambda>t u. same_tx t u \<and> tx_m_prevouts t = tx_m_prevouts u \<and>
       tx_m_spent_amounts t = tx_m_spent_amounts u \<and> tx_m_spent_scripts t = tx_m_spent_scripts u \<and>
       tx_m_sequences t = tx_m_sequences u) (tsh_fill_inputs t) (tsh_fill_inputs u)"
proof -
  define fill where "fill t' a b c d = t'\<lparr>tx_m_prevouts := Some (sha256 a), tx_m_spent_amounts := Some (sha256 b),
       tx_m_spent_scripts := Some (sha256 c), tx_m_sequences := Some (sha256 d)\<rparr>" for t' :: tx and a b c d
  define filled where "filled t' = andThen (all_outpoints t') (\<lambda>a. andThen (spent_amounts t') (\<lambda>b.
       andThen (spent_scripts t') (\<lambda>c. andThen (all_sequences t') (\<lambda>d. Inr (a, b, c, d)))))" for t'
  have same: "filled t = filled u" by (simp add: filled_def same_tx_parts [OF assms])
  have ok: "caches_ok t" "caches_ok u" "no_caches t = no_caches u" using assms by (auto simp: same_tx_def)
  have content: "no_caches (fill t' a b c d) = no_caches t'" for t' a b c d
    by (simp add: no_caches_def fill_def)
  have fill_ok: "caches_ok (fill t' a b c d)" if "caches_ok t'" "filled t' = Inr (a, b, c, d)" for t' a b c d
    using that parts_no_caches [of t'] parts_no_caches [of "fill t' a b c d"] content [of t' a b c d]
    by (simp add: caches_ok_def cache_ok_def filled_def ok_iff fill_def)
  have eq: "tsh_fill_inputs t' = (case filled t' of Inl e \<Rightarrow> if tx_m_prevouts t' = None then Inl e else Inr t'
      | Inr (a, b, c, d) \<Rightarrow> Inr (if tx_m_prevouts t' = None then fill t' a b c d else t'))" for t'
    by (simp add: tsh_fill_inputs_def filled_def fill_def andThen_def split: sum.split)
  have some: "\<exists>a b c d. filled t' = Inr (a, b, c, d) \<and> tx_m_prevouts t' = Some (sha256 a) \<and>
       tx_m_spent_amounts t' = Some (sha256 b) \<and> tx_m_spent_scripts t' = Some (sha256 c) \<and>
       tx_m_sequences t' = Some (sha256 d)" if "caches_ok t'" "tx_m_prevouts t' \<noteq> None" for t'
    using that by (auto simp: caches_ok_def cache_ok_def filled_def)
  show ?thesis
  proof (cases "filled u")
    case (Inl e)
    then have "tx_m_prevouts t = None" "tx_m_prevouts u = None"
      using some [of t] some [of u] ok same by fastforce+
    with Inl same show ?thesis by (simp add: eq)
  next
    case (Inr r)
    then obtain a b c d where r: "filled u = Inr (a, b, c, d)" by (cases r) auto
    have "\<And>t'. caches_ok t' \<Longrightarrow> filled t' = Inr (a, b, c, d) \<Longrightarrow> \<exists>t''. tsh_fill_inputs t' = Inr t'' \<and>
        caches_ok t'' \<and> no_caches t'' = no_caches t' \<and> tx_m_prevouts t'' = Some (sha256 a) \<and>
        tx_m_spent_amounts t'' = Some (sha256 b) \<and> tx_m_spent_scripts t'' = Some (sha256 c) \<and>
        tx_m_sequences t'' = Some (sha256 d)"
      using some fill_ok content by (fastforce simp: eq fill_def)
    from this [OF ok(1)] this [OF ok(2)] r same ok(3) show ?thesis
      by (auto simp: same_tx_def)
  qed
qed

lemma tsh_inputs_rel:
  assumes "same_tx t u"
  shows "rel_sum (=) (rel_prod (=) same_tx) (tsh_inputs t it) (tsh_inputs u it)"
  unfolding tsh_inputs_def using assms by (auto intro!: rel_andThen [OF tsh_fill_rel])

lemma tsh_outputs_rel:
  assumes "same_tx t u"
  shows "rel_sum (=) (rel_prod (=) same_tx) (tsh_outputs t ot) (tsh_outputs u ot)"
  unfolding tsh_outputs_def using assms hc_m_outputs.cached_rel by auto

lemma tsh_rest_same:
  assumes "same_tx t u"
  shows "tsh_this_input t i it = tsh_this_input u i it" "tsh_single t i ot = tsh_single u i ot"
  by (simp_all add: tsh_this_input_def tsh_single_def same_tx_parts [OF assms])

lemma TaprootSigHash_rel:
  assumes "same_tx t u"
  shows "rel_sum (=) (rel_prod (=) same_tx) (TaprootSigHash t ed i ht scr) (TaprootSigHash u ed i ht scr)"
proof (cases "valid_taproot_hashtype ht")
  case True
  show ?thesis
    unfolding TaprootSigHash_def Let_def
    apply (simp only: True not_True_eq_False if_False)
    apply (rule rel_andThen_pair [OF tsh_inputs_rel [OF assms]])
    apply (rule rel_andThen_pair [OF tsh_outputs_rel], assumption)
    apply (simp only: tsh_rest_same)
    apply (intro rel_andThen_same)
    apply (simp only: same_tx_parts split: option.split)
    apply simp
    done
qed (simp add: TaprootSigHash_def assms)

lemma SignatureHash_same:
  "same_tx t u \<Longrightarrow> SignatureHash t sc i ht = SignatureHash u sc i ht"
  by (simp add: SignatureHash_def sighash_ins_def sighash_outs_def same_tx_parts Let_def)

end
