(* ===== verification/SigEncoding.thy ===== *)
theory SigEncoding
  imports ScriptNum SigHash
begin

text \<open>
  Flags and signature versions of \<open>lib/script/script.go\<close>, the script templates, the signature
  and public-key encoding rules and the minimal-push and relative-lock-time checks of
  \<open>lib/script/misc.go\<close>, with the signature parser of \<open>lib/secp256k1/sig.go\<close> they call.
\<close>

section \<open>Constants\<close>

abbreviation (input) VER_P2SH :: u32 where "VER_P2SH \<equiv> 0x1"
abbreviation (input) VER_STRICTENC :: u32 where "VER_STRICTENC \<equiv> 0x2"
abbreviation (input) VER_DERSIG :: u32 where "VER_DERSIG \<equiv> 0x4"
abbreviation (input) VER_LOW_S :: u32 where "VER_LOW_S \<equiv> 0x8"
abbreviation (input) VER_NULLDUMMY :: u32 where "VER_NULLDUMMY \<equiv> 0x10"
abbreviation (input) VER_SIGPUSHONLY :: u32 where "VER_SIGPUSHONLY \<equiv> 0x20"
abbreviation (input) VER_MINDATA :: u32 where "VER_MINDATA \<equiv> 0x40"
abbreviation (input) VER_BLOCK_OPS :: u32 where "VER_BLOCK_OPS \<equiv> 0x80"
abbreviation (input) VER_CLEANSTACK :: u32 where "VER_CLEANSTACK \<equiv> 0x100"
abbreviation (input) VER_CLTV :: u32 where "VER_CLTV \<equiv> 0x200"
abbreviation (input) VER_CSV :: u32 where "VER_CSV \<equiv> 0x400"
abbreviation (input) VER_WITNESS :: u32 where "VER_WITNESS \<equiv> 0x800"
abbreviation (input) VER_WITNESS_PROG :: u32 where "VER_WITNESS_PROG \<equiv> 0x1000"
abbreviation (input) VER_MINIMALIF :: u32 where "VER_MINIMALIF \<equiv> 0x2000"
abbreviation (input) VER_NULLFAIL :: u32 where "VER_NULLFAIL \<equiv> 0x4000"
abbreviation (input) VER_WITNESS_PUBKEY :: u32 where "VER_WITNESS_PUBKEY \<equiv> 0x8000"
abbreviation (input) VER_CONST_SCRIPTCODE :: u32 where "VER_CONST_SCRIPTCODE \<equiv> 0x10000"
abbreviation (input) VER_TAPROOT :: u32 where "VER_TAPROOT \<equiv> 0x20000"
abbreviation (input) VER_DIS_TAPVER :: u32 where "VER_DIS_TAPVER \<equiv> 0x40000"
abbreviation (input) VER_DIS_SUCCESS :: u32 where "VER_DIS_SUCCESS \<equiv> 0x80000"
abbreviation (input) VER_DIS_PUBKEYTYPE :: u32 where "VER_DIS_PUBKEYTYPE \<equiv> 0x100000"

abbreviation (input) MAX_SCRIPT_SIZE :: nat where "MAX_SCRIPT_SIZE \<equiv> 10000"
abbreviation (input) LOCKTIME_THRESHOLD :: int where "LOCKTIME_THRESHOLD \<equiv> 500000000"
abbreviation (input) SEQUENCE_LOCKTIME_DISABLE_FLAG :: int where "SEQUENCE_LOCKTIME_DISABLE_FLAG \<equiv> 0x80000000"
abbreviation (input) SEQUENCE_LOCKTIME_TYPE_FLAG :: int where "SEQUENCE_LOCKTIME_TYPE_FLAG \<equiv> 0x400000"
abbreviation (input) SEQUENCE_LOCKTIME_MASK :: int where "SEQUENCE_LOCKTIME_MASK \<equiv> 0xffff"

datatype sigversion =
    SIGVERSION_BASE
  | SIGVERSION_WITNESS_V0
  | SIGVERSION_TAPROOT
  | SIGVERSION_TAPSCRIPT

text \<open>\<open>flags & m != 0\<close>.\<close>

definition flag_on :: "u32 \<Rightarrow> u32 \<Rightarrow> bool" where
  "flag_on flags m \<longleftrightarrow> flags AND m \<noteq> 0"

section \<open>Script templates\<close>

definition IsP2KH :: "bytes \<Rightarrow> bool" where
  "IsP2KH scr \<longleftrightarrow> length scr = 25 \<and> scr ! 0 = 0x76 \<and> scr ! 1 = 0xa9 \<and>
     scr ! 2 = 0x14 \<and> scr ! 23 = 0x88 \<and> scr ! 24 = 0xac"

definition IsP2SH :: "bytes \<Rightarrow> bool" where
  "IsP2SH scr \<longleftrightarrow> length scr = 23 \<and> scr ! 0 = 0xa9 \<and> scr ! 1 = 0x14 \<and> scr ! 22 = 0x87"

definition IsP2WPKH :: "bytes \<Rightarrow> bool" where
  "IsP2WPKH scr \<longleftrightarrow> length scr = 22 \<and> scr ! 0 = 0 \<and> scr ! 1 = 20"

definition IsP2WSH :: "bytes \<Rightarrow> bool" where
  "IsP2WSH scr \<longleftrightarrow> length scr = 34 \<and> scr ! 0 = 0 \<and> scr ! 1 = 32"

definition IsP2TAP :: "bytes \<Rightarrow> bool" where
  "IsP2TAP scr \<longleftrightarrow> length scr = 34 \<and> scr ! 0 = 0x51 \<and> scr ! 1 = 32"

section \<open>Signature encoding\<close>

text \<open>Go's short-circuit \<open>c && m\<close> where evaluating \<open>m\<close> may panic.\<close>

definition andAlso :: "bool \<Rightarrow> go_panic + bool \<Rightarrow> go_panic + bool" where
  "andAlso c m = (if c then m else Inr False)"

lemma andAlso_simps [simp]: "andAlso True m = m" "andAlso False m = Inr False"
  by (simp_all add: andAlso_def)

text \<open>One guard of the function: \<open>if c { return false }\<close>, then the rest.\<close>

definition rejectIf :: "go_panic + bool \<Rightarrow> go_panic + bool \<Rightarrow> go_panic + bool" where
  "rejectIf c rest = andThen c (\<lambda>b. if b then Inr False else rest)"

lemma rejectIf_simps [simp]:
  "rejectIf (Inr True) rest = Inr False"
  "rejectIf (Inr False) rest = rest"
  by (simp_all add: rejectIf_def)

definition byte_is :: "bytes \<Rightarrow> nat \<Rightarrow> (byte \<Rightarrow> bool) \<Rightarrow> go_panic + bool" where
  "byte_is sig i P = andThen (index sig i) (\<lambda>b. Inr (P b))"

lemma byte_is_in [simp]: "i < length sig \<Longrightarrow> byte_is sig i P = Inr (P (sig ! i))"
  by (simp add: byte_is_def)

definition valid_sig_tail :: "bytes \<Rightarrow> nat \<Rightarrow> nat \<Rightarrow> go_panic + bool" where
  "valid_sig_tail sig lenR lenS =
     rejectIf (Inr (lenR + lenS + 7 \<noteq> length sig))
    (rejectIf (byte_is sig 2 (\<lambda>b. b \<noteq> 0x02))
    (rejectIf (Inr (lenR = 0))
    (rejectIf (byte_is sig 4 (\<lambda>b. b AND 0x80 \<noteq> 0))
    (rejectIf (andAlso (lenR > 1) (andThen (byte_is sig 4 (\<lambda>b. b = 0x00))
                 (\<lambda>z. andAlso z (byte_is sig 5 (\<lambda>b. b AND 0x80 = 0)))))
    (rejectIf (byte_is sig (lenR + 4) (\<lambda>b. b \<noteq> 0x02))
    (rejectIf (Inr (lenS = 0))
    (rejectIf (byte_is sig (lenR + 6) (\<lambda>b. b AND 0x80 \<noteq> 0))
    (rejectIf (andAlso (lenS > 1) (andThen (byte_is sig (lenR + 6) (\<lambda>b. b = 0x00))
                 (\<lambda>z. andAlso z (byte_is sig (lenR + 7) (\<lambda>b. b AND 0x80 = 0)))))
    (Inr True)))))))))"

definition IsValidSignatureEncoding :: "bytes \<Rightarrow> go_panic + bool" where
  "IsValidSignatureEncoding sig =
     rejectIf (Inr (length sig < 9))
    (rejectIf (Inr (length sig > 73))
    (rejectIf (byte_is sig 0 (\<lambda>b. b \<noteq> 0x30))
    (rejectIf (byte_is sig 1 (\<lambda>b. int (unat b) \<noteq> int (length sig) - 3))
    (andThen (index sig 3) (\<lambda>lenR.
     rejectIf (Inr (5 + unat lenR \<ge> length sig))
    (andThen (index sig (5 + unat lenR)) (\<lambda>lenS.
     valid_sig_tail sig (unat lenR) (unat lenS))))))))"

definition IsDefinedHashtypeSignature :: "bytes \<Rightarrow> bool" where
  "IsDefinedHashtypeSignature sig =
     (if length sig = 0 then False
      else let htype = sig ! (length sig - 1) AND (SIGHASH_ANYONECANPAY XOR 0xff)
           in \<not> (htype < SIGHASH_ALL \<or> htype > SIGHASH_SINGLE))"

text \<open>
  \<open>Signature.ParseBytes\<close>: \<open>R\<close> and \<open>S\<close> as the big-endian values of \<open>big.Int.SetBytes\<close> and the
  length consumed; \<open>None\<close> is the result -1.
\<close>

definition be_nat :: "bytes \<Rightarrow> nat" where
  "be_nat d = mag (rev d)"

definition ParseBytes :: "bytes \<Rightarrow> (nat \<times> nat \<times> nat) option" where
  "ParseBytes sig =
     (if length sig < 5 \<or> sig ! 0 \<noteq> 0x30 then None
      else let lenr = unat (sig ! 3) in
      if lenr = 0 \<or> 5 + lenr \<ge> length sig \<or> sig ! (lenr + 4) \<noteq> 0x02 then None
      else let lens = unat (sig ! (lenr + 5)) in
      if lens = 0 \<or> unat (sig ! 1) \<noteq> lenr + lens + 4 \<or> lenr + lens + 6 > length sig \<or> sig ! 2 \<noteq> 0x02
      then None
      else Some (be_nat (take lenr (drop 4 sig)), be_nat (take lens (drop (6 + lenr) sig)), 6 + lenr + lens))"

record signature =
  sg_R :: nat
  sg_S :: nat
  sg_HashType :: byte

definition NewSignature :: "bytes \<Rightarrow> signature option" where
  "NewSignature buf =
     (case ParseBytes buf of
        None \<Rightarrow> None
      | Some (r, s, le) \<Rightarrow>
          Some \<lparr>sg_R = r, sg_S = s,
                sg_HashType = (if le < length buf then buf ! (length buf - 1) else 0)\<rparr>)"

definition HalfOrder :: nat where
  "HalfOrder = 0x7FFFFFFFFFFFFFFFFFFFFFFFFFFFFFFF5D576E7357A4501DDFE92F46681B20A0"

definition sig_IsLowS :: "signature \<Rightarrow> bool" where
  "sig_IsLowS sig \<longleftrightarrow> sg_S sig \<le> HalfOrder"

definition IsLowS :: "bytes \<Rightarrow> go_panic + bool" where
  "IsLowS sig =
     andThen (IsValidSignatureEncoding sig) (\<lambda>v.
     if \<not> v then Inr False
     else case NewSignature sig of
            None \<Rightarrow> Inr False
          | Some ss \<Rightarrow> Inr (sig_IsLowS ss))"

definition CheckSignatureEncoding :: "bytes \<Rightarrow> u32 \<Rightarrow> go_panic + bool" where
  "CheckSignatureEncoding sig flags =
     (if length sig = 0 then Inr True
      else
        rejectIf (andAlso (flag_on flags (VER_DERSIG OR VER_STRICTENC))
                    (andThen (IsValidSignatureEncoding sig) (\<lambda>v. Inr (\<not> v))))
       (rejectIf (andAlso (flag_on flags VER_LOW_S) (andThen (IsLowS sig) (\<lambda>v. Inr (\<not> v))))
       (rejectIf (Inr (flag_on flags VER_STRICTENC \<and> \<not> IsDefinedHashtypeSignature sig))
       (Inr True))))"

section \<open>Public-key encoding\<close>

definition IsCompressedOrUncompressedPubKey :: "bytes \<Rightarrow> bool" where
  "IsCompressedOrUncompressedPubKey pk =
     (if length pk < 33 then False
      else if pk ! 0 = 0x04 then length pk = 65
      else if pk ! 0 = 0x02 \<or> pk ! 0 = 0x03 then length pk = 33
      else False)"

definition IsCompressedPubKey :: "bytes \<Rightarrow> bool" where
  "IsCompressedPubKey pk = (if length pk \<noteq> 33 then False else pk ! 0 = 0x02 \<or> pk ! 0 = 0x03)"

definition CheckPubKeyEncoding :: "bytes \<Rightarrow> u32 \<Rightarrow> sigversion \<Rightarrow> bool" where
  "CheckPubKeyEncoding pk flags sigversion =
     (if flag_on flags VER_STRICTENC \<and> \<not> IsCompressedOrUncompressedPubKey pk then False
      else if flag_on flags VER_WITNESS_PUBKEY \<and> sigversion = SIGVERSION_WITNESS_V0 \<and>
              \<not> IsCompressedPubKey pk then False
      else True)"

section \<open>Minimal pushes and relative lock times\<close>

definition checkMinimalPush :: "bytes \<Rightarrow> nat \<Rightarrow> bool" where
  "checkMinimalPush d opcode =
     (if length d = 0 then opcode = 0x00
      else if length d = 1 \<and> d ! 0 \<ge> 1 \<and> d ! 0 \<le> 16 then int opcode = 0x51 + uint (d ! 0) - 1
      else if length d = 1 \<and> d ! 0 = 0x81 then opcode = 0x4f
      else if length d \<le> 75 then opcode = length d
      else if length d \<le> 255 then opcode = 0x4c
      else if length d \<le> 65535 then opcode = 0x4d
      else True)"

definition CheckSequence :: "tx \<Rightarrow> nat \<Rightarrow> int \<Rightarrow> go_panic + bool" where
  "CheckSequence t inp seq =
     (if tx_Version t < 2 then Inr False
      else andThen (get_txin t inp) (\<lambda>x.
        let toseq = uint (ti_Sequence x);
            nLockTimeMask = SEQUENCE_LOCKTIME_TYPE_FLAG OR SEQUENCE_LOCKTIME_MASK;
            txToSequenceMasked = toseq AND nLockTimeMask;
            nSequenceMasked = seq AND nLockTimeMask
        in Inr (
          if toseq AND SEQUENCE_LOCKTIME_DISABLE_FLAG \<noteq> 0 then False
          else if \<not> ((txToSequenceMasked < SEQUENCE_LOCKTIME_TYPE_FLAG \<and>
                     nSequenceMasked < SEQUENCE_LOCKTIME_TYPE_FLAG) \<or>
                    (txToSequenceMasked \<ge> SEQUENCE_LOCKTIME_TYPE_FLAG \<and>
                     nSequenceMasked \<ge> SEQUENCE_LOCKTIME_TYPE_FLAG)) then False
          else \<not> nSequenceMasked > txToSequenceMasked)))"

section \<open>The strict DER form\<close>

text \<open>A positive DER integer without a superfluous leading zero.\<close>

definition der_int :: "bytes \<Rightarrow> bool" where
  "der_int r \<longleftrightarrow> r \<noteq> [] \<and> unat (r ! 0) < 128 \<and> (1 < length r \<and> r ! 0 = 0 \<longrightarrow> 128 \<le> unat (r ! 1))"

definition der_sig :: "bytes \<Rightarrow> bytes \<Rightarrow> byte \<Rightarrow> bytes" where
  "der_sig r s ht =
     [0x30, of_nat (length r + length s + 4), 0x02, of_nat (length r)] @ r @
     [0x02, of_nat (length s)] @ s @ [ht]"

lemma not_byte_sign: "(b :: byte) AND 0x80 = 0 \<longleftrightarrow> unat b < 128"
  using byte_sign [of b] by auto

text \<open>The guards of the code, all of them passed; and that no index of them is out of range.\<close>

definition valid_der :: "bytes \<Rightarrow> bool" where
  "valid_der sig \<longleftrightarrow>
     9 \<le> length sig \<and> length sig \<le> 73 \<and> sig ! 0 = 0x30 \<and> unat (sig ! 1) + 3 = length sig \<and>
     5 + unat (sig ! 3) < length sig \<and>
     (let lenR = unat (sig ! 3); lenS = unat (sig ! (5 + lenR)) in
        lenR + lenS + 7 = length sig \<and> sig ! 2 = 0x02 \<and> lenR \<noteq> 0 \<and> sig ! 4 AND 0x80 = 0 \<and>
        \<not> (lenR > 1 \<and> sig ! 4 = 0x00 \<and> sig ! 5 AND 0x80 = 0) \<and>
        sig ! (lenR + 4) = 0x02 \<and> lenS \<noteq> 0 \<and> sig ! (lenR + 6) AND 0x80 = 0 \<and>
        \<not> (lenS > 1 \<and> sig ! (lenR + 6) = 0x00 \<and> sig ! (lenR + 7) AND 0x80 = 0))"

lemma rejectIf_if: "rejectIf (Inr c) rest = (if c then Inr False else rest)"
  by simp

lemma andAlso_if: "andAlso c (Inr d) = Inr (c \<and> d)"
  by (cases c) simp_all

lemma valid_sig_tail_eq:
  assumes "9 \<le> length sig" "5 + lenR < length sig"
  shows "valid_sig_tail sig lenR lenS = Inr (
        lenR + lenS + 7 = length sig \<and> sig ! 2 = 0x02 \<and> lenR \<noteq> 0 \<and> sig ! 4 AND 0x80 = 0 \<and>
        \<not> (lenR > 1 \<and> sig ! 4 = 0x00 \<and> sig ! 5 AND 0x80 = 0) \<and>
        sig ! (lenR + 4) = 0x02 \<and> lenS \<noteq> 0 \<and> sig ! (lenR + 6) AND 0x80 = 0 \<and>
        \<not> (lenS > 1 \<and> sig ! (lenR + 6) = 0x00 \<and> sig ! (lenR + 7) AND 0x80 = 0))"
proof (cases "lenR + lenS + 7 = length sig")
  case True
  then have "andAlso (lenS > 1) (andThen (byte_is sig (lenR + 6) (\<lambda>b. b = 0x00))
                 (\<lambda>z. andAlso z (byte_is sig (lenR + 7) (\<lambda>b. b AND 0x80 = 0)))) =
      Inr (lenS > 1 \<and> sig ! (lenR + 6) = 0x00 \<and> sig ! (lenR + 7) AND 0x80 = 0)"
    by (cases "lenS > 1") (simp_all add: andAlso_if)
  with True assms show ?thesis
    by (simp add: valid_sig_tail_def rejectIf_if andAlso_if)
qed (simp add: valid_sig_tail_def)

lemma IsValidSignatureEncoding_eq: "IsValidSignatureEncoding sig = Inr (valid_der sig)"
proof (cases "length sig < 9")
  case False
  then have "sig \<noteq> []" by auto
  moreover have "uint (sig ! Suc 0) = int (length sig) - 3 \<longleftrightarrow> unat (sig ! Suc 0) + 3 = length sig"
    unfolding uint_nat by linarith
  ultimately show ?thesis using False
    by (simp add: IsValidSignatureEncoding_def valid_der_def Let_def rejectIf_if valid_sig_tail_eq)
qed (simp add: IsValidSignatureEncoding_def valid_der_def)

lemma der_sig_valid:
  assumes "der_int r" "der_int s" "length r + length s \<le> 66"
  shows "valid_der (der_sig r s ht)"
proof -
  let ?d = "der_sig r s ht"
  have len: "length ?d = length r + length s + 7" by (simp add: der_sig_def)
  have pos: "0 < length r" "0 < length s" using assms(1,2) by (auto simp: der_int_def)
  have b: "unat (of_nat n :: byte) = n" if "n \<le> 70" for n using that by (intro byte_of_nat_unat) simp
  have n0: "?d ! 0 = 0x30" "?d ! 1 = of_nat (length r + length s + 4)" "?d ! 2 = 0x02"
     "?d ! 3 = of_nat (length r)" by (simp_all add: der_sig_def)
  have r: "?d ! (4 + i) = r ! i" if "i < length r" for i
    using that by (simp add: der_sig_def nth_append)
  have s: "?d ! (length r + 6 + i) = s ! i" if "i < length s" for i
    using that by (simp add: der_sig_def nth_append nth_Cons' add.commute)
  have m: "?d ! (length r + 4) = 0x02" "?d ! (5 + length r) = of_nat (length s)"
    by (simp_all add: der_sig_def nth_append nth_Cons')
  have R: "unat (?d ! 3) = length r" "unat (?d ! (5 + length r)) = length s"
      "unat (?d ! 1) + 3 = length ?d"
    using assms(3) b [of "length r"] b [of "length s"] b [of "length r + length s + 4"]
    by (simp_all only: n0 m len)
  have r0: "?d ! 4 = r ! 0" "1 < length r \<Longrightarrow> ?d ! 5 = r ! 1"
    using r [of 0] r [of 1] pos by simp_all
  have s0: "?d ! (length r + 6) = s ! 0" "1 < length s \<Longrightarrow> ?d ! (length r + 7) = s ! 1"
    using s [of 0] s [of 1] pos by (simp_all add: add.commute)
  have d: "unat (r ! 0) < 128" "unat (s ! 0) < 128" "1 < length r \<and> r ! 0 = 0 \<longrightarrow> \<not> unat (r ! 1) < 128"
      "1 < length s \<and> s ! 0 = 0 \<longrightarrow> \<not> unat (s ! 1) < 128"
    using assms(1,2) by (auto simp: der_int_def)
  have l: "9 \<le> length ?d" "length ?d \<le> 73" "5 + length r < length ?d" "length r \<noteq> 0" "length s \<noteq> 0"
    using len assms(3) pos by linarith+
  show ?thesis
    unfolding valid_der_def Let_def R not_byte_sign
    using l n0(1,3) m(1) d r0 s0 R(3) len by (simp only: simp_thms) metis
qed

lemma drop_cons: "i < length xs \<Longrightarrow> drop i xs = xs ! i # drop (i + 1) xs"
  by (simp add: Cons_nth_drop_Suc)

lemma valid_der_sig:
  assumes "valid_der sig"
  obtains r s ht where "sig = der_sig r s ht" "der_int r" "der_int s" "length r + length s \<le> 66"
proof -
  define lr where "lr = unat (sig ! 3)"
  define ls where "ls = unat (sig ! (5 + lr))"
  define r where "r = take lr (drop 4 sig)"
  define s where "s = take ls (drop (lr + 6) sig)"
  have c: "length sig = lr + ls + 7" "length sig \<le> 73" "lr \<noteq> 0" "ls \<noteq> 0" "sig ! 0 = 0x30" "sig ! 2 = 0x02"
      "unat (sig ! 1) + 3 = length sig" "sig ! (lr + 4) = 0x02"
      "unat (sig ! 4) < 128" "lr > 1 \<and> sig ! 4 = 0 \<longrightarrow> 128 \<le> unat (sig ! 5)"
      "unat (sig ! (lr + 6)) < 128" "ls > 1 \<and> sig ! (lr + 6) = 0 \<longrightarrow> 128 \<le> unat (sig ! (lr + 7))"
    using assms by (auto simp: valid_der_def Let_def lr_def ls_def not_byte_sign)
  have len: "length r = lr" "length s = ls" using c(1) by (simp_all add: r_def s_def)
  have rs: "r ! i = sig ! (4 + i)" if "i < lr" for i using that c(1) by (simp add: r_def)
  have ss: "s ! i = sig ! (lr + 6 + i)" if "i < ls" for i using that c(1) by (simp add: s_def)
  have "der_int r" "der_int s"
    using c len rs [of 0] rs [of 1] ss [of 0] ss [of 1] by (auto simp: der_int_def add.commute)
  moreover have "sig = der_sig r s (sig ! (lr + ls + 6))"
  proof -
    have w: "sig ! 1 = of_nat (lr + ls + 4)" "sig ! 3 = of_nat lr" "sig ! (5 + lr) = of_nat ls"
    proof -
      have "unat (sig ! 1) = lr + ls + 4" using c(1,7) by simp
      then show "sig ! 1 = of_nat (lr + ls + 4)" using c(1,2) byte_of_nat_unat [of "lr + ls + 4"]
        by (simp only: word_unat_eq_iff)
    qed (simp_all add: lr_def ls_def)
    have "drop 4 sig = r @ drop (4 + lr) sig"
      unfolding r_def by (metis add.commute append_take_drop_id drop_drop)
    also have "drop (4 + lr) sig = [sig ! (4 + lr), sig ! (5 + lr)] @ drop (6 + lr) sig"
      using c(1) drop_cons [of "4 + lr" sig] drop_cons [of "5 + lr" sig] by simp
    also have "drop (6 + lr) sig = s @ drop (lr + ls + 6) sig"
      unfolding s_def by (metis add.commute add.left_commute append_take_drop_id drop_drop)
    also have "drop (lr + ls + 6) sig = [sig ! (lr + ls + 6)]"
      using c(1) drop_cons [of "lr + ls + 6" sig] by simp
    finally have "drop 4 sig = r @ [0x02, of_nat ls] @ s @ [sig ! (lr + ls + 6)]"
      using c(8) w(3) by (simp add: add.commute)
    moreover have "drop 0 sig = [sig ! 0, sig ! 1, sig ! 2, sig ! 3] @ drop 4 sig"
      using c(1) drop_cons [of 0 sig] drop_cons [of 1 sig] drop_cons [of 2 sig] drop_cons [of 3 sig]
      by (simp add: eval_nat_numeral)
    ultimately show ?thesis using w c(5,6) by (simp add: der_sig_def len)
  qed
  moreover have "length r + length s \<le> 66" using c len by simp
  ultimately show thesis using that by blast
qed

text \<open>
  \<open>IsValidSignatureEncoding\<close> accepts the strict DER signatures with a hash type, of at most 73
  bytes, and nothing else; and a signature it accepts parses to the values of its integers.
\<close>

lemma IsValidSignatureEncoding_iff:
  "IsValidSignatureEncoding sig = Inr True \<longleftrightarrow>
     (\<exists>r s ht. sig = der_sig r s ht \<and> der_int r \<and> der_int s \<and> length r + length s \<le> 66)"
proof
  assume "IsValidSignatureEncoding sig = Inr True"
  then have "valid_der sig" by (simp add: IsValidSignatureEncoding_eq)
  then show "\<exists>r s ht. sig = der_sig r s ht \<and> der_int r \<and> der_int s \<and> length r + length s \<le> 66"
    by (rule valid_der_sig) blast
qed (auto simp: IsValidSignatureEncoding_eq der_sig_valid)

lemma ParseBytes_der_sig:
  assumes "der_int r" "der_int s" "length r + length s \<le> 66"
  shows "ParseBytes (der_sig r s ht) = Some (be_nat r, be_nat s, length r + length s + 6)"
proof -
  have pos: "r \<noteq> []" "s \<noteq> []" using assms(1,2) by (auto simp: der_int_def)
  have b: "unat (of_nat n :: byte) = n" if "n \<le> 70" for n using that by (intro byte_of_nat_unat) simp
  have "der_sig r s ht = ([0x30, of_nat (length r + length s + 4), 0x02, of_nat (length r)] @ r @
      [0x02, of_nat (length s)]) @ s @ [ht]"
    by (simp add: der_sig_def)
  then have d: "drop (6 + length r) (der_sig r s ht) = s @ [ht]" by (simp only: drop_append) simp
  show ?thesis
    using pos assms(3) b [of "length r"] b [of "length s"] b [of "length r + length s + 4"] d
    by (simp add: ParseBytes_def Let_def der_sig_def nth_append nth_Cons')
qed

text \<open>Flags: dropping flags never turns a guard on.\<close>

definition flags_le :: "u32 \<Rightarrow> u32 \<Rightarrow> bool" where
  "flags_le g f \<longleftrightarrow> g AND f = g"

lemma flags_le_on: "flags_le g f \<Longrightarrow> flag_on g m \<Longrightarrow> flag_on f m"
proof -
  assume "flags_le g f" "flag_on g m"
  then have "g AND m = g AND (f AND m)" by (simp add: flags_le_def flip: and.assoc)
  with \<open>flag_on g m\<close> show "flag_on f m" by (auto simp: flag_on_def)
qed

lemma flags_le_refl [simp]: "flags_le f f"
  by (simp add: flags_le_def)

lemma rejectIf_true [ok_iff]: "rejectIf c rest = Inr True \<longleftrightarrow> c = Inr False \<and> rest = Inr True"
  by (auto simp: rejectIf_def andThen_ok split: if_splits)

lemma andAlso_false [ok_iff]: "andAlso c m = Inr False \<longleftrightarrow> (c \<longrightarrow> m = Inr False)"
  by (auto simp: andAlso_def)

lemma IsLowS_total: "\<exists>b. IsLowS sig = Inr b"
  by (auto simp: IsLowS_def IsValidSignatureEncoding_eq split: option.split)

lemma CheckSignatureEncoding_total: "\<exists>b. CheckSignatureEncoding sig flags = Inr b"
  using IsLowS_total [of sig]
  by (cases "flag_on flags VER_LOW_S"; cases "flag_on flags (VER_DERSIG OR VER_STRICTENC)")
     (auto simp: CheckSignatureEncoding_def IsValidSignatureEncoding_eq rejectIf_if)

lemma CheckSignatureEncoding_mono:
  assumes "flags_le g f" "CheckSignatureEncoding sig f = Inr True"
  shows "CheckSignatureEncoding sig g = Inr True"
  using assms(2) flags_le_on [OF assms(1)]
  by (auto simp: CheckSignatureEncoding_def ok_iff split: if_splits)

lemma CheckPubKeyEncoding_mono:
  "flags_le g f \<Longrightarrow> CheckPubKeyEncoding pk f sv \<Longrightarrow> CheckPubKeyEncoding pk g sv"
  using flags_le_on [of g f] by (auto simp: CheckPubKeyEncoding_def split: if_splits)

end
