(* ===== verification/Checker.thy ===== *)
theory Checker
  imports SigEncoding
begin

text \<open>
  Signature checks of the interpreter (\<open>lib/script/checker.go\<close>, \<open>delSig\<close> of
  \<open>lib/script/script.go\<close>, the verification entry points of \<open>lib/btc/ecdsa.go\<close>).

  The three elliptic-curve checks are function variables of the code (\<open>btc.EC_Verify\<close>,
  \<open>btc.Schnorr_Verify\<close>, \<open>btc.Check_PayToContract\<close>), which a client may set to a native library;
  the record \<open>ec\<close> holds the functions in effect. Every definition takes it as an argument and
  every lemma holds for all of its values.

  The two cached signature hashes and the validation-weight counter change state: the
  transaction and the execution data are passed in and returned.
\<close>

record ec =
  EC_Verify :: "bytes \<Rightarrow> bytes \<Rightarrow> bytes \<Rightarrow> bool"
  Schnorr_Verify :: "bytes \<Rightarrow> bytes \<Rightarrow> bytes \<Rightarrow> bool"
  Check_PayToContract :: "bytes \<Rightarrow> bytes \<Rightarrow> bytes \<Rightarrow> bool \<Rightarrow> bool"

definition EcdsaVerify :: "ec \<Rightarrow> bytes \<Rightarrow> bytes \<Rightarrow> bytes \<Rightarrow> bool" where
  "EcdsaVerify ec kd sd hash =
     (if length kd = 0 \<or> length sd = 0 then False else EC_Verify ec kd sd hash)"

definition SchnorrVerify :: "ec \<Rightarrow> bytes \<Rightarrow> bytes \<Rightarrow> bytes \<Rightarrow> bool" where
  "SchnorrVerify ec pkey sig msg = Schnorr_Verify ec pkey sig msg"

definition CheckPayToContract :: "ec \<Rightarrow> bytes \<Rightarrow> bytes \<Rightarrow> bytes \<Rightarrow> bool \<Rightarrow> bool" where
  "CheckPayToContract ec m_keydata base hash parity = Check_PayToContract ec m_keydata base hash parity"

text \<open>
  \<open>SigChecker\<close>: the transaction pointer (taken to be set), the input and the amount it spends.
\<close>

record sigchecker =
  sc_Tx :: tx
  sc_Idx :: nat
  sc_Amount :: u64

section \<open>\<open>delSig\<close>\<close>

text \<open>The loop: instructions equal to the pushed signature are dropped and counted.\<close>

function delsig_loop :: "bytes \<Rightarrow> bytes \<Rightarrow> bytes \<times> nat" where
  "delsig_loop whr sig =
     (if whr = [] then ([], 0)
      else case GetOpcode whr of
             Inl _ \<Rightarrow> ([], 0)
           | Inr (_, _, n) \<Rightarrow>
               (let (res, cnt) = delsig_loop (drop n whr) sig in
                if take n whr \<noteq> sig then (take n whr @ res, cnt) else (res, cnt + 1)))"
  by pat_completeness auto
termination by (relation "measure (\<lambda>(whr, _). length whr)") (auto simp: drop_shorter)

declare delsig_loop.simps [simp del]

definition delSig :: "bytes \<Rightarrow> bytes \<Rightarrow> go_panic + bytes \<times> nat" where
  "delSig whr sig =
     andThen (PutVlen (replicate (length sig + 5) 0) (int (length sig))) (\<lambda>(buf, n).
     let push_sig_scr = take n buf @ go_copy (drop n buf) sig
     in Inr (delsig_loop whr (take (n + length sig) push_sig_scr)))"

section \<open>ECDSA\<close>

definition last_byte :: "bytes \<Rightarrow> go_panic + byte" where
  "last_byte b = (if b = [] then Inl IndexOutOfRange else Inr (last b))"

text \<open>The signature hash of the version, and the check of a signature against it.\<close>

definition sigversion_hash :: "sigchecker \<Rightarrow> bytes \<Rightarrow> u32 \<Rightarrow> sigversion \<Rightarrow> go_panic + bytes \<times> tx" where
  "sigversion_hash c scriptCode hashType sigversion =
     (if sigversion = SIGVERSION_WITNESS_V0
      then WitnessSigHash (sc_Tx c) scriptCode (sc_Amount c) (sc_Idx c) hashType
      else andThen (SignatureHash (sc_Tx c) scriptCode (sc_Idx c) hashType) (\<lambda>sh. Inr (sh, sc_Tx c)))"

definition verifyECDSA :: "ec \<Rightarrow> sigchecker \<Rightarrow> bytes \<Rightarrow> bytes \<Rightarrow> bytes \<Rightarrow> sigversion
    \<Rightarrow> go_panic + bool \<times> tx" where
  "verifyECDSA ec c data sig pubkey sigversion =
     (if length sig = 0 then Inr (False, sc_Tx c)
      else
        andThen (last_byte sig) (\<lambda>nHashType.
        andThen (sigversion_hash c data (ucast nHashType) sigversion) (\<lambda>(sh, t).
        Inr (EcdsaVerify ec pubkey sig sh, t))))"

text \<open>\<open>evalChecksigPreTapscript\<close>: the pair \<open>(ok, fSuccess)\<close> and the transaction.\<close>

definition pretap_script_code :: "bytes \<Rightarrow> bytes \<Rightarrow> nat \<Rightarrow> sigversion \<Rightarrow> go_panic + bytes \<times> nat" where
  "pretap_script_code vchSig p pbegincodehash sigversion =
     andThen (bytes_from p (int pbegincodehash)) (\<lambda>scriptCode.
     if sigversion = SIGVERSION_BASE then delSig scriptCode vchSig else Inr (scriptCode, 0))"

definition evalChecksigPreTapscript :: "ec \<Rightarrow> sigchecker \<Rightarrow> bytes \<Rightarrow> bytes \<Rightarrow> bytes \<Rightarrow> nat \<Rightarrow> u32
    \<Rightarrow> sigversion \<Rightarrow> go_panic + (bool \<times> bool) \<times> tx" where
  "evalChecksigPreTapscript ec c vchSig vchPubKey p pbegincodehash ver_flags sigversion =
     andThen (pretap_script_code vchSig p pbegincodehash sigversion) (\<lambda>(scriptCode, found).
     if found > 0 \<and> flag_on ver_flags VER_CONST_SCRIPTCODE then Inr ((False, False), sc_Tx c)
     else
       andThen (CheckSignatureEncoding vchSig ver_flags) (\<lambda>enc.
       if \<not> enc \<or> \<not> CheckPubKeyEncoding vchPubKey ver_flags sigversion
       then Inr ((False, False), sc_Tx c)
       else
         andThen (if length vchSig > 0
                  then andThen (last_byte vchSig) (\<lambda>ht.
                       andThen (sigversion_hash c scriptCode (ucast ht) sigversion) (\<lambda>(sh, t).
                       Inr (EcdsaVerify ec vchPubKey vchSig sh, t)))
                  else Inr (False, sc_Tx c)) (\<lambda>(fSuccess, t).
         if \<not> fSuccess \<and> flag_on ver_flags VER_NULLFAIL \<and> length vchSig > 0
         then Inr ((False, fSuccess), t)
         else Inr ((True, fSuccess), t))))"

section \<open>Schnorr\<close>

definition CheckSchnorrSignature :: "ec \<Rightarrow> sigchecker \<Rightarrow> bytes \<Rightarrow> bytes \<Rightarrow> sigversion
    \<Rightarrow> ScriptExecutionData \<Rightarrow> go_panic + bool \<times> tx" where
  "CheckSchnorrSignature ec c sig pubkey sigversion execdata =
     (if length sig \<noteq> 64 \<and> length sig \<noteq> 65 then Inr (False, sc_Tx c)
      else
        let hashtype = (if length sig = 65 then sig ! 64 else 0 :: byte) in
        if length sig = 65 \<and> hashtype = 0 then Inr (False, sc_Tx c)
        else
          andThen (TaprootSigHash (sc_Tx c) execdata (sc_Idx c) hashtype
                     (sigversion = SIGVERSION_TAPSCRIPT)) (\<lambda>(sh, t).
          Inr (SchnorrVerify ec pubkey (take 64 sig) sh, t)))"

definition evalChecksigTapscript :: "ec \<Rightarrow> sigchecker \<Rightarrow> bytes \<Rightarrow> bytes \<Rightarrow> ScriptExecutionData \<Rightarrow> u32
    \<Rightarrow> sigversion \<Rightarrow> go_panic + (bool \<times> bool) \<times> tx \<times> ScriptExecutionData" where
  "evalChecksigTapscript ec c sig pubkey execdata flags sigversion =
     (let success = length sig > 0;
          execdata' = (if success
            then execdata\<lparr>M_validation_weight_left := M_validation_weight_left execdata - 50\<rparr>
            else execdata)
      in if success \<and> M_validation_weight_left execdata' < 0
         then Inr ((False, success), sc_Tx c, execdata')
      else if length pubkey = 0 then Inr ((False, success), sc_Tx c, execdata')
      else if length pubkey = 32 then
        andThen (if success then CheckSchnorrSignature ec c sig pubkey sigversion execdata'
                 else Inr (True, sc_Tx c)) (\<lambda>(v, t).
        Inr ((v, success), t, execdata'))
      else if flag_on flags VER_DIS_PUBKEYTYPE then Inr ((False, success), sc_Tx c, execdata')
      else Inr ((True, success), sc_Tx c, execdata'))"

section \<open>\<open>evalChecksig\<close>\<close>

definition evalChecksig :: "ec \<Rightarrow> sigchecker \<Rightarrow> bytes \<Rightarrow> bytes \<Rightarrow> bytes \<Rightarrow> nat \<Rightarrow> ScriptExecutionData
    \<Rightarrow> u32 \<Rightarrow> sigversion \<Rightarrow> go_panic + (bool \<times> bool) \<times> tx \<times> ScriptExecutionData" where
  "evalChecksig ec c vchSig vchPubKey p pbegincodehash execdata ver_flags sigversion =
     (if sigversion = SIGVERSION_BASE \<or> sigversion = SIGVERSION_WITNESS_V0 then
        andThen (evalChecksigPreTapscript ec c vchSig vchPubKey p pbegincodehash ver_flags sigversion)
          (\<lambda>(r, t). Inr (r, t, execdata))
      else if sigversion = SIGVERSION_TAPSCRIPT then
        evalChecksigTapscript ec c vchSig vchPubKey execdata ver_flags sigversion
      else Inl (ExplicitPanic ''should not get here''))"

end
