(* ===== verification/StackOps.thy ===== *)
theory StackOps
  imports Checker
begin

text \<open>
  The opcodes of \<open>evalScript\<close> (\<open>lib/script/script.go\<close>) that read and write the main stack only:
  stack manipulation, comparison, arithmetic and hashing. Each handler is a function on the
  stack; a handler checks the depth, pops and pushes as the code does. The \<open>go_eval\<close> lemmas
  state its effect on the elements it touches.
\<close>

datatype script_error =
    ErrPanic go_panic
  | ErrScriptTooLong
  | ErrBadInstruction opcode_error
  | ErrPushTooLong
  | ErrTooManyOpcodes
  | ErrDisabledOpcode
  | ErrCodeSeparator
  | ErrNotMinimalPush
  | ErrStackTooShort
  | ErrAltStackTooShort
  | ErrMinimalIf
  | ErrVerify
  | ErrWrongN
  | ErrMinimalBool
  | ErrCheckSig
  | ErrBadOpcode
  | ErrCheckMultisigInTapscript
  | ErrKeysCount
  | ErrSigsCount
  | ErrFindAndDelete
  | ErrSigEncoding
  | ErrNullFail
  | ErrDummyMissing
  | ErrNullDummy
  | ErrUpgradableNop
  | ErrLockTime
  | ErrSequence
  | ErrOpReturn
  | ErrStackTooBig
  | ErrUnfinishedIf

text \<open>
  A panic inside \<open>evalScript\<close> is recovered and makes the script fail; it is one of the errors.
\<close>

abbreviation recov :: "go_panic + 'a \<Rightarrow> script_error + 'a" where
  "recov m \<equiv> liftErr ErrPanic m"

definition need :: "nat \<Rightarrow> stack \<Rightarrow> script_error + unit" where
  "need n s = failIf (length s < n) ErrStackTooShort"

lemma need_eq [simp]: "need n s = (if length s < n then Inl ErrStackTooShort else Inr ())"
  by (simp add: need_def)

section \<open>Stack manipulation\<close>

definition op_verify :: "stack \<Rightarrow> script_error + stack" where
  "op_verify s =
     andThen (need 1 s) (\<lambda>_.
     andThen (recov (topBool 1 s)) (\<lambda>b.
     if \<not> b then Inl ErrVerify
     else andThen (recov (pop s)) (\<lambda>(_, s). Inr s)))"

definition op_2drop :: "stack \<Rightarrow> script_error + stack" where
  "op_2drop s =
     andThen (need 2 s) (\<lambda>_.
     andThen (recov (pop s)) (\<lambda>(_, s).
     andThen (recov (pop s)) (\<lambda>(_, s). Inr s)))"

definition op_2dup :: "stack \<Rightarrow> script_error + stack" where
  "op_2dup s =
     andThen (need 2 s) (\<lambda>_.
     andThen (recov (top 1 s)) (\<lambda>x1.
     andThen (recov (top 2 s)) (\<lambda>x2.
     Inr (push x1 (push x2 s)))))"

definition op_3dup :: "stack \<Rightarrow> script_error + stack" where
  "op_3dup s =
     andThen (need 3 s) (\<lambda>_.
     andThen (recov (top 3 s)) (\<lambda>x1.
     andThen (recov (top 2 s)) (\<lambda>x2.
     andThen (recov (top 1 s)) (\<lambda>x3.
     Inr (push x3 (push x2 (push x1 s)))))))"

definition op_2over :: "stack \<Rightarrow> script_error + stack" where
  "op_2over s =
     andThen (need 4 s) (\<lambda>_.
     andThen (recov (top 4 s)) (\<lambda>x1.
     andThen (recov (top 3 s)) (\<lambda>x2.
     Inr (push x2 (push x1 s)))))"

definition op_2rot :: "stack \<Rightarrow> script_error + stack" where
  "op_2rot s =
     andThen (need 6 s) (\<lambda>_.
     andThen (recov (pop s)) (\<lambda>(x6, s).
     andThen (recov (pop s)) (\<lambda>(x5, s).
     andThen (recov (pop s)) (\<lambda>(x4, s).
     andThen (recov (pop s)) (\<lambda>(x3, s).
     andThen (recov (pop s)) (\<lambda>(x2, s).
     andThen (recov (pop s)) (\<lambda>(x1, s).
     Inr (push x2 (push x1 (push x6 (push x5 (push x4 (push x3 s)))))))))))))"

definition op_2swap :: "stack \<Rightarrow> script_error + stack" where
  "op_2swap s =
     andThen (need 4 s) (\<lambda>_.
     andThen (recov (pop s)) (\<lambda>(x4, s).
     andThen (recov (pop s)) (\<lambda>(x3, s).
     andThen (recov (pop s)) (\<lambda>(x2, s).
     andThen (recov (pop s)) (\<lambda>(x1, s).
     Inr (push x2 (push x1 (push x4 (push x3 s)))))))))"

definition op_ifdup :: "stack \<Rightarrow> script_error + stack" where
  "op_ifdup s =
     andThen (need 1 s) (\<lambda>_.
     andThen (recov (topBool 1 s)) (\<lambda>b.
     if b then andThen (recov (top 1 s)) (\<lambda>x. Inr (push x s)) else Inr s))"

definition op_depth :: "stack \<Rightarrow> script_error + stack" where
  "op_depth s = Inr (pushInt (int (length s)) s)"

definition op_drop :: "stack \<Rightarrow> script_error + stack" where
  "op_drop s = andThen (need 1 s) (\<lambda>_. andThen (recov (pop s)) (\<lambda>(_, s). Inr s))"

definition op_dup :: "stack \<Rightarrow> script_error + stack" where
  "op_dup s =
     andThen (need 1 s) (\<lambda>_.
     andThen (recov (pop s)) (\<lambda>(el, s). Inr (push el (push el s))))"

definition op_nip :: "stack \<Rightarrow> script_error + stack" where
  "op_nip s =
     andThen (need 2 s) (\<lambda>_.
     andThen (recov (pop s)) (\<lambda>(x, s).
     andThen (recov (pop s)) (\<lambda>(_, s). Inr (push x s))))"

definition op_over :: "stack \<Rightarrow> script_error + stack" where
  "op_over s =
     andThen (need 2 s) (\<lambda>_.
     andThen (recov (top 2 s)) (\<lambda>x. Inr (push x s)))"

text \<open>\<open>OP_ROLL\<close> pops \<open>n\<close> elements into \<open>tmp\<close>, one more into \<open>xn\<close>, and pushes them back.\<close>

fun pop_n :: "nat \<Rightarrow> stack \<Rightarrow> go_panic + bytes list \<times> stack" where
  "pop_n 0 s = Inr ([], s)"
| "pop_n (Suc k) s =
     andThen (pop s) (\<lambda>(x, s).
     andThen (pop_n k s) (\<lambda>(xs, s). Inr (x # xs, s)))"

definition op_pick_roll :: "bool \<Rightarrow> nat \<Rightarrow> stack \<Rightarrow> script_error + stack" where
  "op_pick_roll checkMinVals opcode s =
     andThen (need 2 s) (\<lambda>_.
     andThen (recov (popInt checkMinVals s)) (\<lambda>(n, s).
     if n < 0 \<or> n \<ge> int (length s) then Inl ErrWrongN
     else if opcode = 0x79 then
       andThen (recov (top (nat (1 + n)) s)) (\<lambda>x. Inr (push x s))
     else if n > 0 then
       andThen (recov (pop_n (nat n) s)) (\<lambda>(tmp, s).
       andThen (recov (pop s)) (\<lambda>(xn, s).
       Inr (push xn (fold push (rev tmp) s))))
     else Inr s))"

definition op_rot :: "stack \<Rightarrow> script_error + stack" where
  "op_rot s =
     andThen (need 3 s) (\<lambda>_.
     andThen (recov (pop s)) (\<lambda>(x3, s).
     andThen (recov (pop s)) (\<lambda>(x2, s).
     andThen (recov (pop s)) (\<lambda>(x1, s).
     Inr (push x1 (push x3 (push x2 s)))))))"

definition op_swap :: "stack \<Rightarrow> script_error + stack" where
  "op_swap s =
     andThen (need 2 s) (\<lambda>_.
     andThen (recov (pop s)) (\<lambda>(x1, s).
     andThen (recov (pop s)) (\<lambda>(x2, s).
     Inr (push x2 (push x1 s)))))"

definition op_tuck :: "stack \<Rightarrow> script_error + stack" where
  "op_tuck s =
     andThen (need 2 s) (\<lambda>_.
     andThen (recov (pop s)) (\<lambda>(x1, s).
     andThen (recov (pop s)) (\<lambda>(x2, s).
     Inr (push x1 (push x2 (push x1 s))))))"

definition op_size :: "stack \<Rightarrow> script_error + stack" where
  "op_size s =
     andThen (need 1 s) (\<lambda>_.
     andThen (recov (top 1 s)) (\<lambda>x. Inr (pushInt (int (length x)) s)))"

definition op_equal :: "nat \<Rightarrow> stack \<Rightarrow> script_error + stack" where
  "op_equal opcode s =
     andThen (need 2 s) (\<lambda>_.
     andThen (recov (pop s)) (\<lambda>(a, s).
     andThen (recov (pop s)) (\<lambda>(b, s).
     if opcode = 0x88 then (if a \<noteq> b then Inl ErrVerify else Inr s)
     else Inr (pushBool (a = b) s))))"

section \<open>Arithmetic\<close>

definition op_1add :: "bool \<Rightarrow> stack \<Rightarrow> script_error + stack" where
  "op_1add checkMinVals s =
     andThen (need 1 s) (\<lambda>_.
     andThen (recov (popInt checkMinVals s)) (\<lambda>(a, s). Inr (pushInt (a + 1) s)))"

definition op_1sub :: "bool \<Rightarrow> stack \<Rightarrow> script_error + stack" where
  "op_1sub checkMinVals s =
     andThen (need 1 s) (\<lambda>_.
     andThen (recov (popInt checkMinVals s)) (\<lambda>(a, s). Inr (pushInt (a - 1) s)))"

definition op_negate :: "bool \<Rightarrow> stack \<Rightarrow> script_error + stack" where
  "op_negate checkMinVals s =
     andThen (need 1 s) (\<lambda>_.
     andThen (recov (popInt checkMinVals s)) (\<lambda>(a, s). Inr (pushInt (- a) s)))"

definition op_abs :: "bool \<Rightarrow> stack \<Rightarrow> script_error + stack" where
  "op_abs checkMinVals s =
     andThen (need 1 s) (\<lambda>_.
     andThen (recov (popInt checkMinVals s)) (\<lambda>(a, s).
     Inr (if a < 0 then pushInt (- a) s else pushInt a s)))"

definition op_not :: "bool \<Rightarrow> stack \<Rightarrow> script_error + stack" where
  "op_not checkMinVals s =
     andThen (need 1 s) (\<lambda>_.
     andThen (recov (popInt checkMinVals s)) (\<lambda>(a, s). Inr (pushBool (a = 0) s)))"

definition op_0notequal :: "bool \<Rightarrow> stack \<Rightarrow> script_error + stack" where
  "op_0notequal checkMinVals s =
     andThen (need 1 s) (\<lambda>_.
     andThen (recov (pop s)) (\<lambda>(d, s).
     if checkMinVals \<and> length d > 1 then Inl ErrMinimalBool
     else Inr (pushBool (bts2bool d) s)))"

definition b2i :: "bool \<Rightarrow> int" where
  "b2i b = (if b then 1 else 0)"

definition arith_op :: "nat \<Rightarrow> int \<Rightarrow> int \<Rightarrow> go_panic + int" where
  "arith_op opcode bn1 bn2 =
     (if opcode = 0x93 then Inr (bn1 + bn2)
      else if opcode = 0x94 then Inr (bn1 - bn2)
      else if opcode = 0x9a then Inr (b2i (bn1 \<noteq> 0 \<and> bn2 \<noteq> 0))
      else if opcode = 0x9b then Inr (b2i (bn1 \<noteq> 0 \<or> bn2 \<noteq> 0))
      else if opcode = 0x9c then Inr (b2i (bn1 = bn2))
      else if opcode = 0x9d then Inr (b2i (bn1 = bn2))
      else if opcode = 0x9e then Inr (b2i (bn1 \<noteq> bn2))
      else if opcode = 0x9f then Inr (b2i (bn1 < bn2))
      else if opcode = 0xa0 then Inr (b2i (bn1 > bn2))
      else if opcode = 0xa1 then Inr (b2i (bn1 \<le> bn2))
      else if opcode = 0xa2 then Inr (b2i (bn1 \<ge> bn2))
      else if opcode = 0xa3 then Inr (if bn1 < bn2 then bn1 else bn2)
      else if opcode = 0xa4 then Inr (if bn1 > bn2 then bn1 else bn2)
      else Inl (ExplicitPanic ''invalid opcode''))"

definition op_arith :: "bool \<Rightarrow> nat \<Rightarrow> stack \<Rightarrow> script_error + stack" where
  "op_arith checkMinVals opcode s =
     andThen (need 2 s) (\<lambda>_.
     andThen (recov (popInt checkMinVals s)) (\<lambda>(bn2, s).
     andThen (recov (popInt checkMinVals s)) (\<lambda>(bn1, s).
     andThen (recov (arith_op opcode bn1 bn2)) (\<lambda>bn.
     if opcode = 0x9d then (if bn = 0 then Inl ErrVerify else Inr s)
     else Inr (pushInt bn s)))))"

definition op_within :: "bool \<Rightarrow> stack \<Rightarrow> script_error + stack" where
  "op_within checkMinVals s =
     andThen (need 3 s) (\<lambda>_.
     andThen (recov (popInt checkMinVals s)) (\<lambda>(bn3, s).
     andThen (recov (popInt checkMinVals s)) (\<lambda>(bn2, s).
     andThen (recov (popInt checkMinVals s)) (\<lambda>(bn1, s).
     Inr (pushBool (bn2 \<le> bn1 \<and> bn1 < bn3) s)))))"

section \<open>Hashes\<close>

definition op_ripemd160 :: "stack \<Rightarrow> script_error + stack" where
  "op_ripemd160 s =
     andThen (need 1 s) (\<lambda>_.
     andThen (recov (pop s)) (\<lambda>(d, s).
     andThen (recov (rmd_digest_of d)) (\<lambda>h. Inr (push h s))))"

definition op_sha1 :: "stack \<Rightarrow> script_error + stack" where
  "op_sha1 s =
     andThen (need 1 s) (\<lambda>_.
     andThen (recov (pop s)) (\<lambda>(d, s). Inr (push (sha1 d) s)))"

definition op_sha256 :: "stack \<Rightarrow> script_error + stack" where
  "op_sha256 s =
     andThen (need 1 s) (\<lambda>_.
     andThen (recov (pop s)) (\<lambda>(d, s). Inr (push (sha256 d) s)))"

definition op_hash160 :: "stack \<Rightarrow> script_error + stack" where
  "op_hash160 s =
     andThen (need 1 s) (\<lambda>_.
     andThen (recov (pop s)) (\<lambda>(d, s).
     andThen (recov (Rimp160AfterSha256 d)) (\<lambda>h. Inr (push h s))))"

definition op_hash256 :: "stack \<Rightarrow> script_error + stack" where
  "op_hash256 s =
     andThen (need 1 s) (\<lambda>_.
     andThen (recov (pop s)) (\<lambda>(d, s). Inr (push (Sha2Sum d) s)))"

end
