(* ===== verification/Interp.thy ===== *)
theory Interp
  imports StackOps
begin

text \<open>
  \<open>evalScript\<close> of \<open>lib/script/script.go\<close>: the interpreter's local state as a record, the opcodes
  that use more of it than the main stack (flow control, the alternative stack, signature
  checks, lock times), the dispatch, one instruction, and the loop over the script.
\<close>

text \<open>
  What stays fixed while one script runs: the script \<open>p\<close>, the checker's input and amount, the
  flags, the signature version. The checker's transaction is part of the state, because the
  signature hashes are cached in it.
\<close>

record evalenv =
  ev_p :: bytes
  ev_inp :: nat
  ev_amount :: u64
  ev_flags :: u32
  ev_sigversion :: sigversion
  ev_ec :: ec

record estate =
  es_stack :: stack
  es_altstack :: stack
  es_exestack :: stack
  es_pbegincodehash :: nat
  es_opcnt :: nat
  es_opcode_pos :: u32
  es_execdata :: ScriptExecutionData
  es_tx :: tx

definition checkMinVals :: "evalenv \<Rightarrow> bool" where
  "checkMinVals env = flag_on (ev_flags env) VER_MINDATA"

definition env_checker :: "evalenv \<Rightarrow> estate \<Rightarrow> sigchecker" where
  "env_checker env st = \<lparr>sc_Tx = es_tx st, sc_Idx = ev_inp env, sc_Amount = ev_amount env\<rparr>"

definition on_stack :: "(stack \<Rightarrow> script_error + stack) \<Rightarrow> estate \<Rightarrow> script_error + estate" where
  "on_stack f st = andThen (f (es_stack st)) (\<lambda>s. Inr (st\<lparr>es_stack := s\<rparr>))"

section \<open>Flow control and the alternative stack\<close>

text \<open>The condition an executed \<open>OP_IF\<close> or \<open>OP_NOTIF\<close> pops; an unexecuted one is false.\<close>

definition if_cond :: "evalenv \<Rightarrow> nat \<Rightarrow> bool \<Rightarrow> stack \<Rightarrow> script_error + bool \<times> stack" where
  "if_cond env opcode inexec s =
     (if inexec then
        andThen (need 1 s) (\<lambda>_.
        andThen (recov (pop s)) (\<lambda>(vch, s).
        if ev_sigversion env = SIGVERSION_TAPSCRIPT \<and>
           (length vch > 1 \<or> (length vch = 1 \<and> vch ! 0 \<noteq> 1)) then Inl ErrMinimalIf
        else if ev_sigversion env = SIGVERSION_WITNESS_V0 \<and> flag_on (ev_flags env) VER_MINIMALIF \<and>
           (length vch > 1 \<or> (length vch = 1 \<and> vch ! 0 \<noteq> 1)) then Inl ErrMinimalIf
        else
          let val = bts2bool vch in
          Inr ((if opcode = 0x64 then \<not> val else val), s)))
      else Inr (False, s))"

definition op_if :: "evalenv \<Rightarrow> nat \<Rightarrow> bool \<Rightarrow> estate \<Rightarrow> script_error + estate" where
  "op_if env opcode inexec st =
     andThen (if_cond env opcode inexec (es_stack st)) (\<lambda>(val, s).
     Inr (st\<lparr>es_stack := s, es_exestack := pushBool val (es_exestack st)\<rparr>))"

text \<open>\<open>OP_ELSE\<close> and \<open>OP_ENDIF\<close> only log an empty \<open>exestack\<close>; the pop that follows panics.\<close>

definition op_else :: "estate \<Rightarrow> script_error + estate" where
  "op_else st =
     andThen (recov (popBool (es_exestack st))) (\<lambda>(b, ex).
     Inr (st\<lparr>es_exestack := pushBool (\<not> b) ex\<rparr>))"

definition op_endif :: "estate \<Rightarrow> script_error + estate" where
  "op_endif st = andThen (recov (pop (es_exestack st))) (\<lambda>(_, ex). Inr (st\<lparr>es_exestack := ex\<rparr>))"

definition op_toaltstack :: "estate \<Rightarrow> script_error + estate" where
  "op_toaltstack st =
     andThen (need 1 (es_stack st)) (\<lambda>_.
     andThen (recov (pop (es_stack st))) (\<lambda>(d, s).
     Inr (st\<lparr>es_stack := s, es_altstack := push d (es_altstack st)\<rparr>)))"

definition op_fromaltstack :: "estate \<Rightarrow> script_error + estate" where
  "op_fromaltstack st =
     (if length (es_altstack st) < 1 then Inl ErrAltStackTooShort
      else
        andThen (recov (pop (es_altstack st))) (\<lambda>(d, a).
        Inr (st\<lparr>es_stack := push d (es_stack st), es_altstack := a\<rparr>)))"

definition op_codeseparator :: "nat \<Rightarrow> estate \<Rightarrow> script_error + estate" where
  "op_codeseparator idx st =
     Inr (st\<lparr>es_pbegincodehash := idx,
             es_execdata := (es_execdata st)\<lparr>M_codeseparator_pos := es_opcode_pos st\<rparr>\<rparr>)"

section \<open>Signature checks\<close>

text \<open>The common part of \<open>OP_CHECKSIG(VERIFY)\<close> and \<open>OP_CHECKSIGADD\<close>: the call of \<open>evalChecksig\<close>.\<close>

definition run_checksig :: "evalenv \<Rightarrow> bytes \<Rightarrow> bytes \<Rightarrow> estate \<Rightarrow> script_error + bool \<times> estate" where
  "run_checksig env vchSig vchPubKey st =
     andThen (recov (evalChecksig (ev_ec env) (env_checker env st) vchSig vchPubKey (ev_p env)
        (es_pbegincodehash st) (es_execdata st) (ev_flags env) (ev_sigversion env)))
       (\<lambda>((ok, fSuccess), t, ed).
     if \<not> ok then Inl ErrCheckSig
     else Inr (fSuccess, st\<lparr>es_tx := t, es_execdata := ed\<rparr>))"

definition op_checksig :: "evalenv \<Rightarrow> nat \<Rightarrow> estate \<Rightarrow> script_error + estate" where
  "op_checksig env opcode st =
     andThen (need 2 (es_stack st)) (\<lambda>_.
     andThen (recov (top 2 (es_stack st))) (\<lambda>vchSig.
     andThen (recov (top 1 (es_stack st))) (\<lambda>vchPubKey.
     andThen (run_checksig env vchSig vchPubKey st) (\<lambda>(fSuccess, st).
     andThen (recov (pop_n 2 (es_stack st))) (\<lambda>(_, s).
     if opcode = 0xad then
       (if \<not> fSuccess then Inl ErrVerify else Inr (st\<lparr>es_stack := s\<rparr>))
     else Inr (st\<lparr>es_stack := pushBool fSuccess s\<rparr>))))))"

definition op_checksigadd :: "evalenv \<Rightarrow> estate \<Rightarrow> script_error + estate" where
  "op_checksigadd env st =
     (if ev_sigversion env = SIGVERSION_BASE \<or> ev_sigversion env = SIGVERSION_WITNESS_V0
      then Inl ErrBadOpcode
      else
        andThen (need 3 (es_stack st)) (\<lambda>_.
        andThen (recov (top 3 (es_stack st))) (\<lambda>sig.
        andThen (recov (topInt 2 (checkMinVals env) (es_stack st))) (\<lambda>num.
        andThen (recov (top 1 (es_stack st))) (\<lambda>pubkey.
        andThen (run_checksig env sig pubkey st) (\<lambda>(success, st).
        andThen (recov (pop_n 3 (es_stack st))) (\<lambda>(_, s).
        Inr (st\<lparr>es_stack := pushInt (if success then num + 1 else num) s\<rparr>))))))))"

subsection \<open>\<open>OP_CHECKMULTISIG\<close>\<close>

text \<open>
  The counts: the number of keys, the opcode count they add to, the number of signatures, and
  \<open>i\<close>, the number of stack elements the operation is about (plus one).
\<close>

definition ms_counts :: "evalenv \<Rightarrow> estate \<Rightarrow> script_error + nat \<times> nat \<times> nat \<times> nat \<times> estate" where
  "ms_counts env st =
     andThen (need 1 (es_stack st)) (\<lambda>_.
     andThen (recov (topInt 1 (checkMinVals env) (es_stack st))) (\<lambda>keyscnt.
     if keyscnt < 0 \<or> keyscnt > 20 then Inl ErrKeysCount
     else
       let keyscnt = nat keyscnt;
           st = st\<lparr>es_opcnt := es_opcnt st + keyscnt\<rparr>
       in if es_opcnt st > 201 then Inl ErrTooManyOpcodes
       else
         let i = 2 + keyscnt in
         andThen (need i (es_stack st)) (\<lambda>_.
         andThen (recov (topInt i (checkMinVals env) (es_stack st))) (\<lambda>sigscnt.
         if sigscnt < 0 \<or> sigscnt > int keyscnt then Inl ErrSigsCount
         else
           let sigscnt = nat sigscnt; isig = i + 1; i = isig + sigscnt in
           andThen (need i (es_stack st)) (\<lambda>_.
           Inr (keyscnt, sigscnt, isig, i, st))))))"

text \<open>The signatures are deleted from the script code, one after the other.\<close>

fun ms_delsigs :: "u32 \<Rightarrow> stack \<Rightarrow> nat \<Rightarrow> nat \<Rightarrow> bytes \<Rightarrow> script_error + bytes" where
  "ms_delsigs ver_flags s isig 0 xxx = Inr xxx"
| "ms_delsigs ver_flags s isig (Suc k) xxx =
     andThen (recov (top isig s)) (\<lambda>sig.
     andThen (recov (delSig xxx sig)) (\<lambda>(xxx, found).
     if found > 0 \<and> flag_on ver_flags VER_CONST_SCRIPTCODE then Inl ErrFindAndDelete
     else ms_delsigs ver_flags s (isig + 1) k xxx))"

text \<open>
  The matching loop. \<open>ikey\<close> and \<open>isig\<close> are the stack positions of the next key and the next
  signature; the loop stops when no signature is left, or more signatures than keys.
\<close>

function ms_loop :: "evalenv \<Rightarrow> bytes \<Rightarrow> stack \<Rightarrow> tx \<Rightarrow> nat \<Rightarrow> nat \<Rightarrow> int \<Rightarrow> int
    \<Rightarrow> script_error + bool \<times> tx" where
  "ms_loop env xxx s t ikey isig sigscnt keyscnt =
     (if sigscnt > 0 then
        andThen (recov (top ikey s)) (\<lambda>vchPubKey.
        andThen (recov (top isig s)) (\<lambda>vchSig.
        andThen (recov (CheckSignatureEncoding vchSig (ev_flags env))) (\<lambda>enc.
        if \<not> enc \<or> \<not> CheckPubKeyEncoding vchPubKey (ev_flags env) (ev_sigversion env)
        then Inl ErrSigEncoding
        else
          andThen (recov (verifyECDSA (ev_ec env) \<lparr>sc_Tx = t, sc_Idx = ev_inp env, sc_Amount = ev_amount env\<rparr>
                     xxx vchSig vchPubKey (ev_sigversion env))) (\<lambda>(v, t).
          let isig' = (if v then isig + 1 else isig);
              sigscnt' = (if v then sigscnt - 1 else sigscnt)
          in if sigscnt' > keyscnt - 1 then Inr (False, t)
             else ms_loop env xxx s t (ikey + 1) isig' sigscnt' (keyscnt - 1)))))
      else Inr (True, t))"
  by pat_completeness auto
termination
  by (relation "measure (\<lambda>(_, _, _, _, _, _, _, keyscnt). nat keyscnt)") (auto split: if_splits)

declare ms_loop.simps [simp del]

text \<open>
  The clean-up loop pops \<open>i - 1\<close> elements; a signature element that is not empty fails the
  script when \<open>chk\<close>, that is when the check failed under \<open>VER_NULLFAIL\<close>.
\<close>

fun ms_cleanup :: "bool \<Rightarrow> nat \<Rightarrow> nat \<Rightarrow> stack \<Rightarrow> script_error + stack" where
  "ms_cleanup chk i ikey2 s =
     (if i > 1 then
        andThen (if chk \<and> ikey2 = 0
                 then andThen (recov (top 1 s)) (\<lambda>d. failIf (length d > 0) ErrNullFail)
                 else Inr ()) (\<lambda>_.
        andThen (recov (pop s)) (\<lambda>(_, s).
        ms_cleanup chk (i - 1) (if ikey2 > 0 then ikey2 - 1 else ikey2) s))
      else Inr s)"

declare ms_cleanup.simps [simp del]

definition op_checkmultisig :: "evalenv \<Rightarrow> nat \<Rightarrow> estate \<Rightarrow> script_error + estate" where
  "op_checkmultisig env opcode st =
     (if ev_sigversion env = SIGVERSION_TAPSCRIPT then Inl ErrCheckMultisigInTapscript
      else
        andThen (ms_counts env st) (\<lambda>(keyscnt, sigscnt, isig, i, st).
        andThen (recov (bytes_from (ev_p env) (int (es_pbegincodehash st)))) (\<lambda>xxx.
        andThen (if ev_sigversion env = SIGVERSION_BASE
                 then ms_delsigs (ev_flags env) (es_stack st) isig sigscnt xxx else Inr xxx) (\<lambda>xxx.
        andThen (ms_loop env xxx (es_stack st) (es_tx st) 2 isig (int sigscnt) (int keyscnt)) (\<lambda>(success, t).
        andThen (ms_cleanup (\<not> success \<and> flag_on (ev_flags env) VER_NULLFAIL) i (keyscnt + 2)
                   (es_stack st)) (\<lambda>s.
        if length s < 1 then Inl ErrDummyMissing
        else
          andThen (recov (top 1 s)) (\<lambda>dummy.
          if flag_on (ev_flags env) VER_NULLDUMMY \<and> length dummy \<noteq> 0 then Inl ErrNullDummy
          else
            andThen (recov (pop s)) (\<lambda>(_, s).
            if opcode = 0xaf then
              (if \<not> success then Inl ErrVerify else Inr (st\<lparr>es_tx := t, es_stack := s\<rparr>))
            else Inr (st\<lparr>es_tx := t, es_stack := pushBool success s\<rparr>)))))))))"

section \<open>Lock times\<close>

definition op_checklocktimeverify :: "evalenv \<Rightarrow> estate \<Rightarrow> script_error + estate" where
  "op_checklocktimeverify env st =
     (if \<not> flag_on (ev_flags env) VER_CLTV then
        (if flag_on (ev_flags env) VER_BLOCK_OPS then Inl ErrUpgradableNop else Inr st)
      else
        andThen (need 1 (es_stack st)) (\<lambda>_.
        andThen (recov (top 1 (es_stack st))) (\<lambda>d.
        if length d > 5 then Inl ErrLockTime
        else
          andThen (recov (bts2int_ext d 5 (checkMinVals env))) (\<lambda>locktime.
          let Lock_time = uint (tx_Lock_time (es_tx st)) in
          if locktime < 0 then Inl ErrLockTime
          else if \<not> ((Lock_time < LOCKTIME_THRESHOLD \<and> locktime < LOCKTIME_THRESHOLD) \<or>
                    (Lock_time \<ge> LOCKTIME_THRESHOLD \<and> locktime \<ge> LOCKTIME_THRESHOLD)) then Inl ErrLockTime
          else if locktime > Lock_time then Inl ErrLockTime
          else
            andThen (recov (get_txin (es_tx st) (ev_inp env))) (\<lambda>x.
            if ti_Sequence x = 0xffffffff then Inl ErrLockTime else Inr st)))))"

definition op_checksequenceverify :: "evalenv \<Rightarrow> estate \<Rightarrow> script_error + estate" where
  "op_checksequenceverify env st =
     (if \<not> flag_on (ev_flags env) VER_CSV then
        (if flag_on (ev_flags env) VER_BLOCK_OPS then Inl ErrUpgradableNop else Inr st)
      else
        andThen (need 1 (es_stack st)) (\<lambda>_.
        andThen (recov (top 1 (es_stack st))) (\<lambda>d.
        if length d > 5 then Inl ErrSequence
        else
          andThen (recov (bts2int_ext d 5 (checkMinVals env))) (\<lambda>sequence.
          if sequence < 0 then Inl ErrSequence
          else if sequence AND SEQUENCE_LOCKTIME_DISABLE_FLAG \<noteq> 0 then Inr st
          else
            andThen (recov (CheckSequence (es_tx st) (ev_inp env) sequence)) (\<lambda>b.
            if \<not> b then Inl ErrSequence else Inr st)))))"

section \<open>Dispatch\<close>

text \<open>The \<open>switch\<close> of one executed instruction, its cases in the order of the code.\<close>

definition exec_op :: "evalenv \<Rightarrow> nat \<Rightarrow> bool \<Rightarrow> nat \<Rightarrow> estate \<Rightarrow> script_error + estate" where
  "exec_op env opcode inexec idx st =
     (let cm = checkMinVals env in
      if opcode = 0x4f then Inr (st\<lparr>es_stack := pushInt (- 1) (es_stack st)\<rparr>)
      else if opcode \<ge> 0x51 \<and> opcode \<le> 0x60
        then Inr (st\<lparr>es_stack := pushInt (int opcode - 0x50) (es_stack st)\<rparr>)
      else if opcode = 0x61 then Inr st
      else if opcode = 0x63 \<or> opcode = 0x64 then op_if env opcode inexec st
      else if opcode = 0x67 then op_else st
      else if opcode = 0x68 then op_endif st
      else if opcode = 0x69 then on_stack op_verify st
      else if opcode = 0x6b then op_toaltstack st
      else if opcode = 0x6c then op_fromaltstack st
      else if opcode = 0x6d then on_stack op_2drop st
      else if opcode = 0x6e then on_stack op_2dup st
      else if opcode = 0x6f then on_stack op_3dup st
      else if opcode = 0x70 then on_stack op_2over st
      else if opcode = 0x71 then on_stack op_2rot st
      else if opcode = 0x72 then on_stack op_2swap st
      else if opcode = 0x73 then on_stack op_ifdup st
      else if opcode = 0x74 then on_stack op_depth st
      else if opcode = 0x75 then on_stack op_drop st
      else if opcode = 0x76 then on_stack op_dup st
      else if opcode = 0x77 then on_stack op_nip st
      else if opcode = 0x78 then on_stack op_over st
      else if opcode = 0x79 \<or> opcode = 0x7a then on_stack (op_pick_roll cm opcode) st
      else if opcode = 0x7b then on_stack op_rot st
      else if opcode = 0x7c then on_stack op_swap st
      else if opcode = 0x7d then on_stack op_tuck st
      else if opcode = 0x82 then on_stack op_size st
      else if opcode = 0x87 \<or> opcode = 0x88 then on_stack (op_equal opcode) st
      else if opcode = 0x8b then on_stack (op_1add cm) st
      else if opcode = 0x8c then on_stack (op_1sub cm) st
      else if opcode = 0x8f then on_stack (op_negate cm) st
      else if opcode = 0x90 then on_stack (op_abs cm) st
      else if opcode = 0x91 then on_stack (op_not cm) st
      else if opcode = 0x92 then on_stack (op_0notequal cm) st
      else if opcode = 0x93 \<or> opcode = 0x94 \<or> opcode = 0x9a \<or> opcode = 0x9b \<or> opcode = 0x9c \<or>
              opcode = 0x9d \<or> opcode = 0x9e \<or> opcode = 0x9f \<or> opcode = 0xa0 \<or> opcode = 0xa1 \<or>
              opcode = 0xa2 \<or> opcode = 0xa3 \<or> opcode = 0xa4
        then on_stack (op_arith cm opcode) st
      else if opcode = 0xa5 then on_stack (op_within cm) st
      else if opcode = 0xa6 then on_stack op_ripemd160 st
      else if opcode = 0xa7 then on_stack op_sha1 st
      else if opcode = 0xa8 then on_stack op_sha256 st
      else if opcode = 0xa9 then on_stack op_hash160 st
      else if opcode = 0xaa then on_stack op_hash256 st
      else if opcode = 0xab then op_codeseparator idx st
      else if opcode = 0xac \<or> opcode = 0xad then op_checksig env opcode st
      else if opcode = 0xba then op_checksigadd env st
      else if opcode = 0xae \<or> opcode = 0xaf then op_checkmultisig env opcode st
      else if opcode = 0xb1 then op_checklocktimeverify env st
      else if opcode = 0xb2 then op_checksequenceverify env st
      else if opcode = 0xb0 \<or> (opcode \<ge> 0xb3 \<and> opcode \<le> 0xb9)
        then (if flag_on (ev_flags env) VER_BLOCK_OPS then Inl ErrUpgradableNop else Inr st)
      else if opcode = 0x6a then Inl ErrOpReturn
      else Inl ErrBadOpcode)"

section \<open>One instruction\<close>

definition disabled_opcodes :: "nat list" where
  "disabled_opcodes = [0x7e, 0x7f, 0x80, 0x81, 0x83, 0x84, 0x85, 0x86, 0x8d, 0x8e, 0x95, 0x96,
     0x97, 0x98, 0x99]"

text \<open>The checks between reading an instruction and executing it; the opcode count is updated.\<close>

definition pre_checks :: "evalenv \<Rightarrow> nat \<Rightarrow> bytes option \<Rightarrow> estate \<Rightarrow> script_error + estate" where
  "pre_checks env opcode pushval st =
     (if pushval \<noteq> None \<and> length (bytes_of pushval) > MAX_SCRIPT_ELEMENT_SIZE then Inl ErrPushTooLong
      else
        let counts = (ev_sigversion env = SIGVERSION_BASE \<or> ev_sigversion env = SIGVERSION_WITNESS_V0) \<and>
                     opcode > 0x60;
            st = (if counts then st\<lparr>es_opcnt := es_opcnt st + 1\<rparr> else st)
        in if counts \<and> es_opcnt st > 201 then Inl ErrTooManyOpcodes
        else if opcode \<in> set disabled_opcodes then Inl ErrDisabledOpcode
        else if opcode = 0xab \<and> ev_sigversion env = SIGVERSION_BASE \<and>
                flag_on (ev_flags env) VER_CONST_SCRIPTCODE then Inl ErrCodeSeparator
        else Inr st)"

definition eval_instr :: "evalenv \<Rightarrow> nat \<Rightarrow> bytes option \<Rightarrow> nat \<Rightarrow> estate \<Rightarrow> script_error + estate" where
  "eval_instr env opcode pushval idx st =
     (let inexec = nofalse (es_exestack st) in
      andThen (pre_checks env opcode pushval st) (\<lambda>st.
      andThen
        (if inexec \<and> opcode \<le> OP_PUSHDATA4 then
           (if checkMinVals env \<and> \<not> checkMinimalPush (bytes_of pushval) opcode then Inl ErrNotMinimalPush
            else Inr (st\<lparr>es_stack := push (bytes_of pushval) (es_stack st)\<rparr>))
         else if inexec \<or> (0x63 \<le> opcode \<and> opcode \<le> 0x68) then exec_op env opcode inexec idx st
         else Inr st) (\<lambda>st.
      if length (es_stack st) + length (es_altstack st) > 1000 then Inl ErrStackTooBig
      else Inr st)))"

section \<open>The loop\<close>

function eval_loop :: "evalenv \<Rightarrow> nat \<Rightarrow> estate \<Rightarrow> script_error + estate" where
  "eval_loop env idx st =
     (if idx < length (ev_p env) then
        case GetOpcode (drop idx (ev_p env)) of
          Inl e \<Rightarrow> Inl (ErrBadInstruction e)
        | Inr (opcode, pushval, n) \<Rightarrow>
            andThen (eval_instr env opcode pushval (idx + n) st) (\<lambda>st.
            eval_loop env (idx + n) (st\<lparr>es_opcode_pos := es_opcode_pos st + 1\<rparr>))
      else Inr st)"
  by pat_completeness auto
termination
  by (relation "measure (\<lambda>(env, idx, _). length (ev_p env) - idx)")
     (auto dest: GetOpcode_ok_size)

declare eval_loop.simps [simp del]

definition eval_init :: "stack \<Rightarrow> tx \<Rightarrow> ScriptExecutionData \<Rightarrow> estate" where
  "eval_init s t execdata =
     \<lparr>es_stack = s, es_altstack = [], es_exestack = [], es_pbegincodehash = 0, es_opcnt = 0,
      es_opcode_pos = 0,
      es_execdata = execdata\<lparr>M_codeseparator_pos := 0xFFFFFFFF, M_codeseparator_pos_init := True\<rparr>,
      es_tx = t\<rparr>"

text \<open>
  \<open>evalScript\<close> returns true with the final stack, execution data and transaction caches, or
  false (\<open>Inl\<close>; a recovered panic is one of the ways to fail). What a failed run leaves on the
  stack is not looked at by any caller.
\<close>

definition evalScript :: "ec \<Rightarrow> bytes \<Rightarrow> stack \<Rightarrow> sigchecker \<Rightarrow> u32 \<Rightarrow> sigversion \<Rightarrow> ScriptExecutionData
    \<Rightarrow> script_error + stack \<times> ScriptExecutionData \<times> tx" where
  "evalScript ec p s checker ver_flags sigversion execdata =
     (if (sigversion = SIGVERSION_BASE \<or> sigversion = SIGVERSION_WITNESS_V0) \<and> length p > MAX_SCRIPT_SIZE
      then Inl ErrScriptTooLong
      else
        andThen (eval_loop
          \<lparr>ev_p = p, ev_inp = sc_Idx checker, ev_amount = sc_Amount checker, ev_flags = ver_flags,
           ev_sigversion = sigversion, ev_ec = ec\<rparr> 0 (eval_init s (sc_Tx checker) execdata)) (\<lambda>st.
        if length (es_exestack st) > 0 then Inl ErrUnfinishedIf
        else Inr (es_stack st, es_execdata st, es_tx st)))"

end
