(* ===== verification/Verify.thy ===== *)
theory Verify
  imports Interp
begin

text \<open>
  Script verification of an input: the witness programs of \<open>lib/script/witness.go\<close> and
  \<open>VerifyTxScript\<close> of \<open>lib/script/script.go\<close>. A panic that the code does not recover (outside
  \<open>evalScript\<close>) is \<open>Inl\<close>; \<open>Inr b\<close> is the returned boolean. The debug output is left out, and
  the test hook \<open>HookVerifyTxScript\<close> is an optional function.
\<close>

abbreviation (input) MAX_STACK_SIZE :: nat where "MAX_STACK_SIZE \<equiv> 1000"
abbreviation (input) VALIDATION_WEIGHT_OFFSET :: nat where "VALIDATION_WEIGHT_OFFSET \<equiv> 50"
abbreviation (input) ANNEX_TAG :: byte where "ANNEX_TAG \<equiv> 0x50"
abbreviation (input) TAPROOT_LEAF_MASK :: byte where "TAPROOT_LEAF_MASK \<equiv> 0xfe"
abbreviation (input) TAPROOT_LEAF_TAPSCRIPT :: byte where "TAPROOT_LEAF_TAPSCRIPT \<equiv> 0xc0"
abbreviation (input) TAPROOT_CONTROL_BASE_SIZE :: nat where "TAPROOT_CONTROL_BASE_SIZE \<equiv> 33"
abbreviation (input) TAPROOT_CONTROL_NODE_SIZE :: nat where "TAPROOT_CONTROL_NODE_SIZE \<equiv> 32"
abbreviation (input) TAPROOT_CONTROL_MAX_SIZE :: nat where "TAPROOT_CONTROL_MAX_SIZE \<equiv> 4129"

section \<open>Witness scripts\<close>

definition IsOpSuccess :: "nat \<Rightarrow> bool" where
  "IsOpSuccess opcode \<longleftrightarrow>
     opcode = 80 \<or> opcode = 98 \<or> (opcode \<ge> 126 \<and> opcode \<le> 129) \<or>
     (opcode \<ge> 131 \<and> opcode \<le> 134) \<or> (opcode \<ge> 137 \<and> opcode \<le> 138) \<or>
     (opcode \<ge> 141 \<and> opcode \<le> 142) \<or> (opcode \<ge> 149 \<and> opcode \<le> 153) \<or>
     (opcode \<ge> 187 \<and> opcode \<le> 254)"

text \<open>The scan of a tapscript: \<open>Some r\<close> is a \<open>return r\<close> inside the loop.\<close>

function scan_op_success :: "u32 \<Rightarrow> bytes \<Rightarrow> bool option" where
  "scan_op_success flags scr =
     (if scr = [] then None
      else case GetOpcode scr of
             Inl _ \<Rightarrow> Some False
           | Inr (opcode, _, le) \<Rightarrow>
               if IsOpSuccess opcode then Some (\<not> flag_on flags VER_DIS_SUCCESS)
               else scan_op_success flags (drop le scr))"
  by pat_completeness auto
termination by (relation "measure (\<lambda>(_, scr). length scr)") (auto simp: drop_shorter)

declare scan_op_success.simps [simp del]

definition ExecuteWitnessScript :: "ec \<Rightarrow> sigchecker \<Rightarrow> stack \<Rightarrow> bytes \<Rightarrow> u32 \<Rightarrow> sigversion
    \<Rightarrow> ScriptExecutionData \<Rightarrow> go_panic + bool" where
  "ExecuteWitnessScript ec c s scriptPubKey flags sigversion execdata =
     (let run =
        (if list_ex (\<lambda>d. length d > MAX_SCRIPT_ELEMENT_SIZE) s then Inr False
         else case evalScript ec scriptPubKey s c flags sigversion execdata of
                Inl _ \<Rightarrow> Inr False
              | Inr (s, _, _) \<Rightarrow> if length s \<noteq> 1 then Inr False else topBool 1 s)
      in if sigversion = SIGVERSION_TAPSCRIPT then
           (case scan_op_success flags scriptPubKey of
              Some r \<Rightarrow> Inr r
            | None \<Rightarrow> if length s > MAX_STACK_SIZE then Inr False else run)
         else run)"

section \<open>Taproot commitments\<close>

fun lexicographical_compare :: "bytes \<Rightarrow> bytes \<Rightarrow> bool" where
  "lexicographical_compare [] d2 = (d2 \<noteq> [])"
| "lexicographical_compare (a # d1) [] = False"
| "lexicographical_compare (a # d1) (b # d2) =
     (if b < a then False else if a < b then True else lexicographical_compare d1 d2)"

definition tap_branch :: "bytes \<Rightarrow> bytes \<Rightarrow> bytes" where
  "tap_branch k node =
     Hasher HASHER_TAPBRANCH (if lexicographical_compare k node then k @ node else node @ k)"

fun tap_root :: "bytes \<Rightarrow> nat \<Rightarrow> nat \<Rightarrow> bytes \<Rightarrow> go_panic + bytes" where
  "tap_root control i 0 k = Inr k"
| "tap_root control i (Suc n) k =
     (let tmp = TAPROOT_CONTROL_BASE_SIZE + TAPROOT_CONTROL_NODE_SIZE * i in
      andThen (slice_range \<lparr>sl_data = control, sl_spare = []\<rparr> tmp (tmp + TAPROOT_CONTROL_NODE_SIZE)) (\<lambda>node.
      tap_root control (i + 1) n (tap_branch k node)))"

definition tapleaf_hash_of :: "byte \<Rightarrow> bytes \<Rightarrow> bytes" where
  "tapleaf_hash_of leaf script =
     Hasher HASHER_TAPLEAF ([leaf] @ vlen_of (length script) @ script)"

text \<open>The result and the leaf hash written through the pointer.\<close>

definition VerifyTaprootCommitment :: "ec \<Rightarrow> bytes \<Rightarrow> bytes \<Rightarrow> bytes \<Rightarrow> go_panic + bool \<times> bytes" where
  "VerifyTaprootCommitment ec control program script =
     (let path_len = (length control - TAPROOT_CONTROL_BASE_SIZE) div TAPROOT_CONTROL_NODE_SIZE in
      andThen (slice_range \<lparr>sl_data = control, sl_spare = []\<rparr> 1 TAPROOT_CONTROL_BASE_SIZE) (\<lambda>p.
      andThen (index control 0) (\<lambda>c0.
      let tapleaf_hash = tapleaf_hash_of (c0 AND TAPROOT_LEAF_MASK) script in
      andThen (tap_root control 0 path_len tapleaf_hash) (\<lambda>k.
      Inr (CheckPayToContract ec program p (Hasher HASHER_TAPTWEAK (p @ k)) (c0 AND 1 \<noteq> 0),
           tapleaf_hash)))))"

section \<open>Witness programs\<close>

definition p2wpkh_script :: "bytes \<Rightarrow> bytes" where
  "p2wpkh_script program = [0x76, 0xa9, 0x14] @ program @ [0x88, 0xac]"

definition verify_v0 :: "ec \<Rightarrow> sigchecker \<Rightarrow> stack \<Rightarrow> bytes \<Rightarrow> u32 \<Rightarrow> go_panic + bool" where
  "verify_v0 ec c witness program flags =
     (if length program = 32 then
        (if length witness = 0 then Inr False
         else
           andThen (pop witness) (\<lambda>(scriptPubKey, s).
           if program \<noteq> sha256 scriptPubKey then Inr False
           else ExecuteWitnessScript ec c s scriptPubKey flags SIGVERSION_WITNESS_V0 zero_execdata))
      else if length program = 20 then
        (if length witness \<noteq> 2 then Inr False
         else ExecuteWitnessScript ec c witness (p2wpkh_script program) flags SIGVERSION_WITNESS_V0
                zero_execdata)
      else Inr False)"

text \<open>The annex is dropped from the stack; its hash goes to the execution data.\<close>

definition split_annex :: "stack \<Rightarrow> stack \<times> bytes option" where
  "split_annex s =
     (case s of
        annex # x # r \<Rightarrow>
          if length annex > 0 \<and> annex ! 0 = ANNEX_TAG
          then (x # r, Some (sha256 (vlen_of (length annex) @ annex)))
          else (s, None)
      | _ \<Rightarrow> (s, None))"

definition verify_taproot_script :: "ec \<Rightarrow> sigchecker \<Rightarrow> stack \<Rightarrow> stack \<Rightarrow> bytes \<Rightarrow> u32
    \<Rightarrow> ScriptExecutionData \<Rightarrow> go_panic + bool" where
  "verify_taproot_script ec c witness s program flags execdata =
     andThen (pop s) (\<lambda>(control, s).
     andThen (pop s) (\<lambda>(script, s).
     if length control < TAPROOT_CONTROL_BASE_SIZE \<or> length control > TAPROOT_CONTROL_MAX_SIZE \<or>
        (length control - TAPROOT_CONTROL_BASE_SIZE) mod TAPROOT_CONTROL_NODE_SIZE \<noteq> 0
     then Inr False
     else
       andThen (VerifyTaprootCommitment ec control program script) (\<lambda>(ok, tapleaf_hash).
       if \<not> ok then Inr False
       else
         andThen (index control 0) (\<lambda>c0.
         if c0 AND TAPROOT_LEAF_MASK = TAPROOT_LEAF_TAPSCRIPT then
           ExecuteWitnessScript ec c s script flags SIGVERSION_TAPSCRIPT
             (execdata\<lparr>M_tapleaf_hash := tapleaf_hash,
                M_validation_weight_left := int (GetSerializeSize witness + VALIDATION_WEIGHT_OFFSET),
                M_validation_weight_left_init := True\<rparr>)
         else if flag_on flags VER_DIS_TAPVER then Inr False
         else Inr True))))"

definition verify_taproot :: "ec \<Rightarrow> sigchecker \<Rightarrow> stack \<Rightarrow> bytes \<Rightarrow> u32 \<Rightarrow> go_panic + bool" where
  "verify_taproot ec c witness program flags =
     (if \<not> flag_on flags VER_TAPROOT then Inr True
      else if length witness = 0 then Inr False
      else
        let (s, annex) = split_annex witness;
            execdata = zero_execdata\<lparr>M_annex_hash := annex\<rparr>
        in if length s = 1 then
             andThen (top 1 s) (\<lambda>sig.
             andThen (CheckSchnorrSignature ec c sig program SIGVERSION_TAPROOT execdata) (\<lambda>(v, _).
             Inr v))
           else verify_taproot_script ec c witness s program flags execdata)"

definition VerifyWitnessProgram :: "ec \<Rightarrow> sigchecker \<Rightarrow> stack \<Rightarrow> int \<Rightarrow> bytes \<Rightarrow> u32 \<Rightarrow> bool
    \<Rightarrow> go_panic + bool" where
  "VerifyWitnessProgram ec checker witness witversion program flags is_p2sh =
     (if witversion = 0 then verify_v0 ec checker witness program flags
      else if witversion = 1 \<and> length program = 32 \<and> \<not> is_p2sh
      then verify_taproot ec checker witness program flags
      else if flag_on flags VER_WITNESS_PROG then Inr False
      else Inr True)"

section \<open>\<open>VerifyTxScript\<close>\<close>

text \<open>
  One run of a base script followed by the checks of its result: \<open>None\<close> when the script or the
  check fails (the function then returns false).
\<close>

definition run_base :: "ec \<Rightarrow> sigchecker \<Rightarrow> u32 \<Rightarrow> bytes \<Rightarrow> stack \<times> ScriptExecutionData \<times> tx
    \<Rightarrow> (stack \<times> ScriptExecutionData \<times> tx) option" where
  "run_base ec c flags p r =
     (case r of (s, ed, t) \<Rightarrow>
        case evalScript ec p s (c\<lparr>sc_Tx := t\<rparr>) flags SIGVERSION_BASE ed of
          Inl _ \<Rightarrow> None
        | Inr r' \<Rightarrow> Some r')"

definition result_true :: "stack \<Rightarrow> bool" where
  "result_true s \<longleftrightarrow> (case s of [] \<Rightarrow> False | d # _ \<Rightarrow> bts2bool d)"

text \<open>\<open>witness.stack\<close>: the witness of the input, its last item on top.\<close>

definition witness_stack :: "tx \<Rightarrow> nat \<Rightarrow> go_panic + stack" where
  "witness_stack t i =
     (case tx_SegWit t of
        None \<Rightarrow> Inr []
      | Some sw \<Rightarrow> andThen (index sw i) (\<lambda>w. Inr (rev w)))"

text \<open>
  The native witness program of the output script. The result is \<open>None\<close> when verification
  fails, or else the stack, the witness and \<open>hadWitness\<close>.
\<close>

definition bare_witness :: "ec \<Rightarrow> sigchecker \<Rightarrow> u32 \<Rightarrow> bytes \<Rightarrow> bytes \<Rightarrow> stack
    \<Rightarrow> go_panic + (stack \<times> stack \<times> bool) option" where
  "bare_witness ec c flags sigScr pkScr s =
     (if \<not> flag_on flags VER_WITNESS then Inr (Some (s, [], False))
      else
        andThen (witness_stack (sc_Tx c) (sc_Idx c)) (\<lambda>witness.
        case IsWitnessProgram pkScr of
          (_, None) \<Rightarrow> Inr (Some (s, witness, False))
        | (witnessversion, Some witnessprogram) \<Rightarrow>
            if length sigScr \<noteq> 0 then Inr None
            else
              andThen (VerifyWitnessProgram ec c witness witnessversion witnessprogram flags False) (\<lambda>b.
              if \<not> b then Inr None
              else andThen (resize 1 s) (\<lambda>s. Inr (Some (s, witness, True))))))"

text \<open>The program inside a pay-to-script-hash redeem script.\<close>

definition p2sh_witness :: "ec \<Rightarrow> sigchecker \<Rightarrow> u32 \<Rightarrow> bytes \<Rightarrow> bytes \<Rightarrow> stack \<Rightarrow> stack \<Rightarrow> bool
    \<Rightarrow> go_panic + (stack \<times> bool) option" where
  "p2sh_witness ec c flags sigScr pubKey2 s witness hadWitness =
     (if \<not> flag_on flags VER_WITNESS then Inr (Some (s, hadWitness))
      else
        case IsWitnessProgram pubKey2 of
          (_, None) \<Rightarrow> Inr (Some (s, hadWitness))
        | (witnessversion, Some witnessprogram) \<Rightarrow>
            if sigScr \<noteq> WritePutLen (of_nat (length pubKey2)) @ pubKey2 then Inr None
            else
              andThen (VerifyWitnessProgram ec c witness witnessversion witnessprogram flags True) (\<lambda>b.
              if \<not> b then Inr None
              else andThen (resize 1 s) (\<lambda>s. Inr (Some (s, True)))))"

definition verify_p2sh :: "ec \<Rightarrow> sigchecker \<Rightarrow> u32 \<Rightarrow> bytes \<Rightarrow> bytes \<Rightarrow> stack
    \<Rightarrow> ScriptExecutionData \<Rightarrow> stack \<Rightarrow> stack \<Rightarrow> bool \<Rightarrow> go_panic + (stack \<times> bool) option" where
  "verify_p2sh ec c flags sigScr pkScr stackCopy execdata s witness hadWitness =
     (if \<not> (flag_on flags VER_P2SH \<and> IsPayToScript pkScr) then Inr (Some (s, hadWitness))
      else if \<not> IsPushOnly sigScr then Inr None
      else
        andThen (pop stackCopy) (\<lambda>(pubKey2, s).
        case run_base ec c flags pubKey2 (s, execdata, sc_Tx c) of
          None \<Rightarrow> Inr None
        | Some (s, _, t) \<Rightarrow>
            if \<not> result_true s then Inr None
            else p2sh_witness ec (c\<lparr>sc_Tx := t\<rparr>) flags sigScr pubKey2 s witness hadWitness))"

text \<open>The final checks: a clean stack, and no witness where none was used.\<close>

definition verify_end :: "u32 \<Rightarrow> stack \<Rightarrow> stack \<Rightarrow> bool \<Rightarrow> go_panic + bool" where
  "verify_end flags s witness hadWitness =
     andThen
       (if flag_on flags VER_CLEANSTACK then
          (if \<not> flag_on flags VER_P2SH then Inl (ExplicitPanic ''VER_CLEANSTACK without VER_P2SH'')
           else Inr (length s = 1))
        else Inr True) (\<lambda>clean.
     if \<not> clean then Inr False
     else if flag_on flags VER_WITNESS then
       (if \<not> flag_on flags VER_P2SH then Inl (ExplicitPanic ''VER_WITNESS must be used with P2SH'')
        else Inr (\<not> (\<not> hadWitness \<and> length witness \<noteq> 0)))
     else Inr True)"

text \<open>
  After the signature script: the output script with the checks of its result, the witness
  program, the redeem script, the final checks. The transaction is passed on as the scripts left
  it; what a witness program caches in it is not used again, because an output script that is a
  witness program is no pay-to-script-hash.
\<close>

definition verify_output :: "ec \<Rightarrow> sigchecker \<Rightarrow> u32 \<Rightarrow> bytes \<Rightarrow> bytes
    \<Rightarrow> stack \<times> ScriptExecutionData \<times> tx \<Rightarrow> go_panic + bool" where
  "verify_output ec c flags sigScr pkScr r1 =
     (let stackCopy = (if flag_on flags VER_P2SH \<and> length (fst r1) > 0 then fst r1 else []) in
      case run_base ec c flags pkScr r1 of
        None \<Rightarrow> Inr False
      | Some (s2, ed2, t2) \<Rightarrow>
          if \<not> result_true s2 then Inr False
          else
            let c = c\<lparr>sc_Tx := t2\<rparr> in
            andThen (bare_witness ec c flags sigScr pkScr s2) (\<lambda>r.
            case r of
              None \<Rightarrow> Inr False
            | Some (s, witness, hadWitness) \<Rightarrow>
                andThen (verify_p2sh ec c flags sigScr pkScr stackCopy ed2 s witness hadWitness) (\<lambda>r.
                case r of
                  None \<Rightarrow> Inr False
                | Some (s, hadWitness) \<Rightarrow> verify_end flags s witness hadWitness)))"

definition verify_scripts :: "ec \<Rightarrow> sigchecker \<Rightarrow> u32 \<Rightarrow> bytes \<Rightarrow> bytes \<Rightarrow> go_panic + bool" where
  "verify_scripts ec c flags sigScr pkScr =
     (case run_base ec c flags sigScr ([], zero_execdata, sc_Tx c) of
        None \<Rightarrow> Inr False
      | Some r1 \<Rightarrow> verify_output ec c flags sigScr pkScr r1)"

definition VerifyTxScript :: "ec \<Rightarrow> (bytes \<Rightarrow> sigchecker \<Rightarrow> u32 \<Rightarrow> bool) option \<Rightarrow> bytes \<Rightarrow> sigchecker
    \<Rightarrow> u32 \<Rightarrow> go_panic + bool" where
  "VerifyTxScript ec HookVerifyTxScript pkScr checker ver_flags =
     (case HookVerifyTxScript of
        Some hook \<Rightarrow> Inr (hook pkScr checker ver_flags)
      | None \<Rightarrow>
          andThen (get_txin (sc_Tx checker) (sc_Idx checker)) (\<lambda>x.
          let sigScr = ti_ScriptSig x in
          if flag_on ver_flags VER_SIGPUSHONLY \<and> \<not> IsPushOnly sigScr then Inr False
          else verify_scripts ec checker ver_flags sigScr pkScr))"

end
