(* ===== verification/StackProps.thy ===== *)
theory StackProps
  imports Interp
begin

text \<open>
  The contract of a handler that works on the main stack only, as two locales: it keeps every
  element within the 520 bytes of \<open>MAX_SCRIPT_ELEMENT_SIZE\<close> and adds at most three elements
  (\<open>stack_handler\<close>), and what it does depends on the elements it uses, not on the ones below
  them (\<open>framed_handler\<close>). Each opcode of \<open>StackOps\<close> is an interpretation.
\<close>

definition elems :: "stack \<Rightarrow> bool" where
  "elems s \<longleftrightarrow> list_all (\<lambda>d. length d \<le> MAX_SCRIPT_ELEMENT_SIZE) s"

lemma elems_simps [simp]:
  "elems []"
  "elems (d # s) \<longleftrightarrow> length d \<le> 520 \<and> elems s"
  "elems (s @ s') \<longleftrightarrow> elems s \<and> elems s'"
  by (auto simp: elems_def)

lemma elems_nth [simp]: "elems s \<Longrightarrow> i < length s \<Longrightarrow> length (s ! i) \<le> 520"
  by (simp add: elems_def list_all_length)

lemma elems_nth_0 [simp]: "elems s \<Longrightarrow> s \<noteq> [] \<Longrightarrow> length (s ! 0) \<le> 520"
  by (cases s) simp_all

lemma elems_nth_deep [simp]:
  "elems s \<Longrightarrow> 2 \<le> length s \<Longrightarrow> length (s ! 0) \<le> 520"
  "elems s \<Longrightarrow> 3 \<le> length s \<Longrightarrow> length (s ! 0) \<le> 520"
  by (auto intro: elems_nth_0)

lemma length_int_enc_small: "\<bar>v\<bar> < 2 ^ 33 \<Longrightarrow> length (int_enc v) \<le> 520"
  using length_int_enc [of v 4] by simp

lemma bts_num_4: "length d \<le> 4 \<Longrightarrow> \<bar>bts_num d\<bar> < 2 ^ 31"
  using popInt_bound [of False "[d]" "bts_num d" "[]"] by (simp add: popInt_ok)

lemma int_enc_popped [simp]:
  assumes "length d \<le> 4"
  shows "length (int_enc (bts_num d)) \<le> 520" "length (int_enc (- bts_num d)) \<le> 520"
    "length (int_enc (bts_num d + 1)) \<le> 520" "length (int_enc (bts_num d - 1)) \<le> 520"
  using bts_num_4 [OF assms] by (auto intro!: length_int_enc_small)

lemma arith_op_bound:
  assumes "arith_op opcode a b = Inr v" "\<bar>a\<bar> < 2 ^ 31" "\<bar>b\<bar> < 2 ^ 31"
  shows "length (int_enc v) \<le> 520"
proof (rule length_int_enc_small)
  show "\<bar>v\<bar> < 2 ^ 33"
    using assms by (simp add: arith_op_def b2i_def split: if_splits)
qed

lemma arith_op_length:
  "arith_op opcode (bts_num d) (bts_num d') = Inr v \<Longrightarrow> length d \<le> 4 \<Longrightarrow> length d' \<le> 4 \<Longrightarrow>
     length (int_enc v) \<le> 520"
  using arith_op_bound bts_num_4 by blast

lemma op_abs_eq:
  "op_abs cm s = andThen (need 1 s) (\<lambda>_. andThen (recov (popInt cm s)) (\<lambda>(a, s). Inr (pushInt \<bar>a\<bar> s)))"
proof -
  have "(if a < 0 then pushInt (- a) s else pushInt a s) = pushInt \<bar>a\<bar> s" for a s by simp
  then show ?thesis by (simp only: op_abs_def)
qed

lemma int_enc_abs [simp]: "length d \<le> 4 \<Longrightarrow> length (int_enc \<bar>bts_num d\<bar>) \<le> 520"
  using bts_num_4 [of d] by (intro length_int_enc_small) simp

locale stack_handler =
  fixes h :: "stack \<Rightarrow> script_error + stack"
  assumes elems: "h s = Inr s' \<Longrightarrow> elems s \<Longrightarrow> length s \<le> 1000 \<Longrightarrow> elems s'"
    and grow: "h s = Inr s' \<Longrightarrow> length s' \<le> length s + 3"

locale framed_handler = stack_handler +
  assumes frame: "h s = Inr s' \<Longrightarrow> h (s @ r) = Inr (s' @ r)"

lemmas op_defs = op_verify_def op_2drop_def op_2dup_def op_3dup_def op_2over_def op_2rot_def
  op_2swap_def op_ifdup_def op_drop_def op_dup_def op_nip_def op_over_def op_rot_def op_swap_def
  op_tuck_def op_size_def op_equal_def op_1add_def op_1sub_def op_negate_def op_abs_eq op_not_def
  op_0notequal_def op_arith_def op_within_def op_ripemd160_def op_sha1_def op_sha256_def
  op_hash160_def op_hash256_def push_def pushBool_def pushInt_def

lemma popInt_append: "popInt c s = Inr (v, s') \<Longrightarrow> popInt c (s @ r) = Inr (v, s' @ r)"
  by (auto simp: popInt_ok)

lemma popInt_elems: "popInt c s = Inr (v, s') \<Longrightarrow> elems s \<Longrightarrow> elems s'"
  by (auto simp: popInt_ok)

lemmas op_eval = op_defs ok_iff topBool_def nth_append popInt_ok

lemma int_enc_length [simp]: "x \<noteq> [] \<Longrightarrow> elems x \<Longrightarrow> length (int_enc (int (length (x ! 0)))) \<le> 520"
proof (rule length_int_enc_small)
  assume "x \<noteq> []" "elems x"
  then have "length (x ! 0) \<le> 520" by (rule elems_nth_0 [rotated])
  then show "\<bar>int (length (x ! 0))\<bar> < 2 ^ 33" by simp
qed

interpretation o_verify: framed_handler op_verify
  by unfold_locales (auto simp: op_eval split: if_splits)

interpretation o_2drop: framed_handler op_2drop
  by unfold_locales (auto simp: op_eval split: if_splits)

interpretation o_2dup: framed_handler op_2dup
  by unfold_locales (auto simp: op_eval split: if_splits)

interpretation o_3dup: framed_handler op_3dup
  by unfold_locales (auto simp: op_eval split: if_splits)

interpretation o_2over: framed_handler op_2over
  by unfold_locales (auto simp: op_eval split: if_splits)

interpretation o_2rot: framed_handler op_2rot
  by unfold_locales (auto simp: op_eval split: if_splits)

interpretation o_2swap: framed_handler op_2swap
  by unfold_locales (auto simp: op_eval split: if_splits)

interpretation o_ifdup: framed_handler op_ifdup
  by unfold_locales (auto simp: op_eval split: if_splits)

interpretation o_drop: framed_handler op_drop
  by unfold_locales (auto simp: op_eval split: if_splits)

interpretation o_dup: framed_handler op_dup
  by unfold_locales (auto simp: op_eval split: if_splits)

interpretation o_nip: framed_handler op_nip
  by unfold_locales (auto simp: op_eval split: if_splits)

interpretation o_over: framed_handler op_over
  by unfold_locales (auto simp: op_eval split: if_splits)

interpretation o_rot: framed_handler op_rot
  by unfold_locales (auto simp: op_eval split: if_splits)

interpretation o_swap: framed_handler op_swap
  by unfold_locales (auto simp: op_eval split: if_splits)

interpretation o_tuck: framed_handler op_tuck
  by unfold_locales (auto simp: op_eval split: if_splits)

interpretation o_size: framed_handler op_size
  by unfold_locales (auto simp: op_eval split: if_splits)

interpretation o_ripemd160: framed_handler op_ripemd160
  by unfold_locales (auto simp: op_eval split: if_splits)

interpretation o_sha1: framed_handler op_sha1
  by unfold_locales (auto simp: op_eval split: if_splits)

interpretation o_sha256: framed_handler op_sha256
  by unfold_locales (auto simp: op_eval split: if_splits)

interpretation o_hash160: framed_handler op_hash160
  by unfold_locales (auto simp: op_eval split: if_splits)

interpretation o_hash256: framed_handler op_hash256
  by unfold_locales (auto simp: op_eval split: if_splits)

interpretation o_1add: framed_handler "op_1add cm" for cm
  by unfold_locales (auto simp: op_eval split: if_splits)

interpretation o_1sub: framed_handler "op_1sub cm" for cm
  by unfold_locales (auto simp: op_eval split: if_splits)

interpretation o_negate: framed_handler "op_negate cm" for cm
  by unfold_locales (auto simp: op_eval split: if_splits)

interpretation o_abs: framed_handler "op_abs cm" for cm
  by unfold_locales (auto simp: op_eval split: if_splits)

interpretation o_not: framed_handler "op_not cm" for cm
  by unfold_locales (auto simp: op_eval split: if_splits)

interpretation o_0notequal: framed_handler "op_0notequal cm" for cm
  by unfold_locales (auto simp: op_eval split: if_splits)

interpretation o_within: framed_handler "op_within cm" for cm
  by unfold_locales (auto simp: op_eval split: if_splits)

interpretation o_equal: framed_handler "op_equal opcode" for opcode
  by unfold_locales (auto simp: op_eval split: if_splits)

interpretation o_arith: framed_handler "op_arith cm opcode" for cm opcode
  by unfold_locales (auto simp: op_eval split: if_splits dest: arith_op_length)

text \<open>\<open>OP_DEPTH\<close> looks at the whole stack: it is a handler, but not a framed one.\<close>

interpretation o_depth: stack_handler op_depth
  by unfold_locales (auto simp: op_depth_def pushInt_def intro!: length_int_enc_small)

text \<open>\<open>OP_PICK\<close> and \<open>OP_ROLL\<close> in closed form.\<close>

lemma pop_n_ok: "pop_n k s = Inr (xs, s') \<longleftrightarrow> k \<le> length s \<and> xs = take k s \<and> s' = drop k s"
proof (induction k arbitrary: s xs s')
  case (Suc k)
  then show ?case by (cases s) (auto simp: ok_iff)
qed auto

lemma fold_push: "fold push xs s = rev xs @ s"
  by (induction xs arbitrary: s) (simp_all add: push_def)

lemma op_pick_roll_ok:
  "op_pick_roll cm opcode s = Inr s' \<longleftrightarrow>
     (\<exists>d t n. s = d # t \<and> length d \<le> 4 \<and> (cm \<longrightarrow> is_minimal d) \<and> bts_num d = int n \<and> n < length t \<and>
        s' = (if opcode = 0x79 then t ! n # t else t ! n # take n t @ drop (Suc n) t))"
proof
  assume "op_pick_roll cm opcode s = Inr s'"
  then obtain d t where s: "s = d # t" "length d \<le> 4" "cm \<longrightarrow> is_minimal d" "t \<noteq> []"
      "\<not> (bts_num d < 0 \<or> bts_num d \<ge> int (length t))"
      "(if opcode = 0x79 then andThen (recov (top (nat (1 + bts_num d)) t)) (\<lambda>x. Inr (push x t))
        else if bts_num d > 0 then
          andThen (recov (pop_n (nat (bts_num d)) t)) (\<lambda>(tmp, s).
          andThen (recov (pop s)) (\<lambda>(xn, s). Inr (push xn (fold push (rev tmp) s))))
        else Inr t) = Inr s'"
    by (auto simp: op_pick_roll_def ok_iff popInt_ok split: if_splits)
  obtain n where n: "bts_num d = int n" "n < length t" using s(5) by (metis linorder_not_less nat_0_le of_nat_less_iff)
  have "drop n t = t ! n # drop (Suc n) t" using n(2) by (simp add: Cons_nth_drop_Suc)
  moreover have "nat (1 + int n) = Suc n" by simp
  ultimately have "s' = (if opcode = 0x79 then t ! n # t else t ! n # take n t @ drop (Suc n) t)"
    using s(6) n by (cases "n = 0") (auto simp: ok_iff pop_n_ok fold_push push_def n split: if_splits)
  then show "\<exists>d t n. s = d # t \<and> length d \<le> 4 \<and> (cm \<longrightarrow> is_minimal d) \<and> bts_num d = int n \<and> n < length t \<and>
        s' = (if opcode = 0x79 then t ! n # t else t ! n # take n t @ drop (Suc n) t)"
    using s n by blast
next
  assume "\<exists>d t n. s = d # t \<and> length d \<le> 4 \<and> (cm \<longrightarrow> is_minimal d) \<and> bts_num d = int n \<and> n < length t \<and>
        s' = (if opcode = 0x79 then t ! n # t else t ! n # take n t @ drop (Suc n) t)"
  then obtain d t n where s: "s = d # t" "length d \<le> 4" "cm \<longrightarrow> is_minimal d" "bts_num d = int n" "n < length t"
      "s' = (if opcode = 0x79 then t ! n # t else t ! n # take n t @ drop (Suc n) t)"
    by blast
  have p: "popInt cm s = Inr (int n, t)" using s by (simp add: popInt_ok)
  have d: "drop n t = t ! n # drop (Suc n) t" using s(5) by (simp add: Cons_nth_drop_Suc)
  have q: "pop_n n t = Inr (take n t, drop n t)" using s(5) by (simp add: pop_n_ok)
  have "nat (1 + int n) = Suc n" by simp
  moreover have "length s \<ge> 2" using s(1,5) by simp
  ultimately show "op_pick_roll cm opcode s = Inr s'"
    using s(5,6) p q d by (cases "n = 0") (auto simp: op_pick_roll_def fold_push push_def top_def)
qed

lemma elems_parts [simp]: "elems s \<Longrightarrow> elems (take n s)" "elems s \<Longrightarrow> elems (drop n s)"
  by (auto simp: elems_def list_all_iff dest: in_set_takeD in_set_dropD)

interpretation o_pick_roll: framed_handler "op_pick_roll cm opcode" for cm opcode
  by unfold_locales (auto simp: op_pick_roll_ok nth_append split: if_splits)

end
