(* ===== verification/InterpProps.thy ===== *)
theory InterpProps
  imports StackProps
begin

text \<open>
  What holds of every opcode, every instruction and the whole loop of the interpreter. The
  locale \<open>opcode_handler\<close> is the contract: fewer flags keep a successful result, elements stay
  within 520 bytes, and the cached signature hashes are not visible. Each handler of \<open>Interp\<close>
  and the dispatch are interpretations; the lemmas lift the contract to instructions, to the
  loop by induction over it, and to \<open>evalScript\<close>.
\<close>

section \<open>Minimal-data checks only reject\<close>

locale numeric_handler =
  fixes h :: "bool \<Rightarrow> stack \<Rightarrow> script_error + stack"
  assumes numeric: "stack_handler (h cm)"
    and relax: "h True s = Inr s' \<Longrightarrow> h False s = Inr s'"
begin

lemma weaker: "h cm s = Inr s' \<Longrightarrow> (cm' \<Longrightarrow> cm) \<Longrightarrow> h cm' s = Inr s'"
  using relax by (cases cm; cases cm') auto

end

lemma popInt_relax: "popInt True s = Inr r \<Longrightarrow> popInt False s = Inr r"
  by (cases r) (auto simp: popInt_ok)

interpretation n_1add: numeric_handler op_1add
  by (rule numeric_handler.intro, unfold_locales) (auto simp: op_1add_def ok_iff dest: popInt_relax split: if_splits)

interpretation n_1sub: numeric_handler op_1sub
  by (rule numeric_handler.intro, unfold_locales) (auto simp: op_1sub_def ok_iff dest: popInt_relax split: if_splits)

interpretation n_negate: numeric_handler op_negate
  by (rule numeric_handler.intro, unfold_locales) (auto simp: op_negate_def ok_iff dest: popInt_relax split: if_splits)

interpretation n_abs: numeric_handler op_abs
  by (rule numeric_handler.intro, unfold_locales) (auto simp: op_abs_eq ok_iff dest: popInt_relax split: if_splits)

interpretation n_not: numeric_handler op_not
  by (rule numeric_handler.intro, unfold_locales) (auto simp: op_not_def ok_iff dest: popInt_relax split: if_splits)

interpretation n_0notequal: numeric_handler op_0notequal
  by (rule numeric_handler.intro, unfold_locales) (auto simp: op_0notequal_def ok_iff split: if_splits)

interpretation n_within: numeric_handler op_within
  by (rule numeric_handler.intro, unfold_locales) (auto simp: op_within_def ok_iff popInt_ok split: if_splits)

interpretation n_arith: numeric_handler "\<lambda>cm. op_arith cm opcode" for opcode
  by (rule numeric_handler.intro, unfold_locales) (auto simp: op_arith_def ok_iff popInt_ok split: if_splits)

interpretation n_pick_roll: numeric_handler "\<lambda>cm. op_pick_roll cm opcode" for opcode
  by (rule numeric_handler.intro, unfold_locales) (auto simp: op_pick_roll_ok)

section \<open>The contract of an opcode\<close>

text \<open>
  Flags \<open>g\<close> that ask for less than \<open>f\<close>. With the discouraged no-ops on, the two lock-time
  opcodes must not be dropped, because without their flag they are such no-ops.
\<close>

definition softfork_le :: "u32 \<Rightarrow> u32 \<Rightarrow> bool" where
  "softfork_le g f \<longleftrightarrow>
     flags_le g f \<and>
     (flag_on g VER_BLOCK_OPS \<longrightarrow>
        (flag_on f VER_CLTV \<longrightarrow> flag_on g VER_CLTV) \<and> (flag_on f VER_CSV \<longrightarrow> flag_on g VER_CSV))"

lemma softfork_on: "softfork_le g f \<Longrightarrow> flag_on g m \<Longrightarrow> flag_on f m"
  by (auto simp: softfork_le_def intro: flags_le_on)

lemma softfork_off: "softfork_le g f \<Longrightarrow> \<not> flag_on f m \<Longrightarrow> \<not> flag_on g m"
  using softfork_on by blast

definition same_state :: "estate \<Rightarrow> estate \<Rightarrow> bool" where
  "same_state st st' \<longleftrightarrow> (\<exists>u. st' = st\<lparr>es_tx := u\<rparr> \<and> same_tx (es_tx st) u)"

lemma same_stateI: "same_tx (es_tx st) u \<Longrightarrow> same_state st (st\<lparr>es_tx := u\<rparr>)"
  by (auto simp: same_state_def)

definition elems_ok :: "estate \<Rightarrow> bool" where
  "elems_ok st \<longleftrightarrow> elems (es_stack st) \<and> elems (es_altstack st)"

text \<open>
  What every opcode promises: dropping flags keeps a successful result (\<open>mono\<close>), elements stay
  within their bound (\<open>elems\<close>), and the caches of the transaction do not show (\<open>sim\<close>).
\<close>

locale opcode_handler =
  fixes h :: "evalenv \<Rightarrow> estate \<Rightarrow> script_error + estate"
  assumes mono: "h env st = Inr st' \<Longrightarrow> softfork_le g (ev_flags env) \<Longrightarrow>
      h (env\<lparr>ev_flags := g\<rparr>) st = Inr st'"
    and elems: "h env st = Inr st' \<Longrightarrow> elems_ok st \<Longrightarrow> length (es_stack st) \<le> 1000 \<Longrightarrow> elems_ok st'"
    and sim: "same_state st st' \<Longrightarrow> rel_sum (=) same_state (h env st) (h env st')"

lemma opcode_handler_if:
  "opcode_handler h1 \<Longrightarrow> opcode_handler h2 \<Longrightarrow>
     opcode_handler (\<lambda>env st. if c then h1 env st else h2 env st)"
  by (cases c) simp_all

lemma opcode_handler_fail [simp]: "opcode_handler (\<lambda>env st. Inl e)"
  by unfold_locales simp_all

lemma opcode_handler_skip [simp]: "opcode_handler (\<lambda>env st. Inr st)"
  by unfold_locales simp_all

text \<open>Handlers that do not look at the flags and pass the transaction through.\<close>

lemma opcode_handler_pure:
  assumes "\<And>st u. h (st\<lparr>es_tx := u\<rparr>) = map_sum id (\<lambda>st. st\<lparr>es_tx := u\<rparr>) (h st)"
    and "\<And>st st'. h st = Inr st' \<Longrightarrow> es_tx st' = es_tx st"
    and "\<And>st st'. h st = Inr st' \<Longrightarrow> elems_ok st \<Longrightarrow> length (es_stack st) \<le> 1000 \<Longrightarrow> elems_ok st'"
  shows "opcode_handler (\<lambda>env. h)"
proof unfold_locales
  fix st st' :: estate and env :: evalenv
  assume "same_state st st'"
  then obtain u where u: "st' = st\<lparr>es_tx := u\<rparr>" "same_tx (es_tx st) u" by (auto simp: same_state_def)
  then show "rel_sum (=) same_state (h st) (h st')"
    using assms(1) [of u st] assms(2) [of st] by (cases "h st") (auto simp: same_state_def)
qed (auto intro: assms(3))

lemma on_stack_tx: "on_stack f (st\<lparr>es_tx := u\<rparr>) = map_sum id (\<lambda>st. st\<lparr>es_tx := u\<rparr>) (on_stack f st)"
  by (cases "f (es_stack st)") (simp_all add: on_stack_def)


lemma opcode_handler_stack: "stack_handler f \<Longrightarrow> opcode_handler (\<lambda>env. on_stack f)"
  by (rule opcode_handler_pure, rule on_stack_tx)
     (auto simp: on_stack_def ok_iff elems_ok_def intro: stack_handler.elems)

lemma checkMinVals_weaker:
  "softfork_le g (ev_flags env) \<Longrightarrow> checkMinVals (env\<lparr>ev_flags := g\<rparr>) \<Longrightarrow> checkMinVals env"
  by (auto simp: checkMinVals_def intro: softfork_on)

lemma opcode_handler_numeric:
  assumes "numeric_handler f"
  shows "opcode_handler (\<lambda>env. on_stack (f (checkMinVals env)))"
proof unfold_locales
  fix env :: evalenv and st st' and g
  assume "on_stack (f (checkMinVals env)) st = Inr st'" and g: "softfork_le g (ev_flags env)"
  then obtain s where s: "f (checkMinVals env) (es_stack st) = Inr s" "st' = st\<lparr>es_stack := s\<rparr>"
    by (auto simp: on_stack_def ok_iff)
  from numeric_handler.weaker [OF assms s(1)] checkMinVals_weaker [OF g] s(2)
  show "on_stack (f (checkMinVals (env\<lparr>ev_flags := g\<rparr>))) st = Inr st'"
    by (simp add: on_stack_def)
next
  fix env :: evalenv and st st'
  note h = opcode_handler_stack [OF numeric_handler.numeric [OF assms, of "checkMinVals env"]]
  show "on_stack (f (checkMinVals env)) st = Inr st' \<Longrightarrow> elems_ok st \<Longrightarrow> length (es_stack st) \<le> 1000 \<Longrightarrow> elems_ok st'"
    by (rule opcode_handler.elems [OF h])
  show "same_state st st' \<Longrightarrow>
      rel_sum (=) same_state (on_stack (f (checkMinVals env)) st) (on_stack (f (checkMinVals env)) st')"
    by (rule opcode_handler.sim [OF h])
qed

section \<open>Flow control and the alternative stack\<close>

interpretation h_else: opcode_handler "\<lambda>env. op_else"
  by (rule opcode_handler_pure)
     (auto simp: op_else_def ok_iff elems_ok_def popBool_def andThen_def liftErr_def split: sum.splits)

interpretation h_endif: opcode_handler "\<lambda>env. op_endif"
  by (rule opcode_handler_pure)
     (auto simp: op_endif_def ok_iff elems_ok_def andThen_def liftErr_def split: sum.splits)

interpretation h_toaltstack: opcode_handler "\<lambda>env. op_toaltstack"
  by (rule opcode_handler_pure)
     (auto simp: op_toaltstack_def ok_iff elems_ok_def push_def andThen_def liftErr_def split: sum.splits if_splits)

interpretation h_fromaltstack: opcode_handler "\<lambda>env. op_fromaltstack"
  by (rule opcode_handler_pure)
     (auto simp: op_fromaltstack_def ok_iff elems_ok_def push_def andThen_def liftErr_def split: sum.splits if_splits)

interpretation h_codeseparator: opcode_handler "\<lambda>env. op_codeseparator idx" for idx
  by (rule opcode_handler_pure) (auto simp: op_codeseparator_def elems_ok_def)

lemma opcode_handler_pushInt:
  assumes "\<bar>v\<bar> < 2 ^ 33"
  shows "opcode_handler (\<lambda>env st. Inr (st\<lparr>es_stack := pushInt v (es_stack st)\<rparr>))"
  by (rule opcode_handler_pure)
     (use length_int_enc_small [OF assms] in \<open>auto simp: elems_ok_def pushInt_def\<close>)

lemma if_cond_mono:
  "if_cond env opcode inexec s = Inr r \<Longrightarrow> softfork_le g (ev_flags env) \<Longrightarrow>
     if_cond (env\<lparr>ev_flags := g\<rparr>) opcode inexec s = Inr r"
  using softfork_on [of g "ev_flags env" VER_MINIMALIF]
  by (cases s) (auto simp: if_cond_def Let_def split: if_splits)

lemma if_cond_elems: "if_cond env opcode inexec s = Inr (v, s') \<Longrightarrow> elems s \<Longrightarrow> elems s'"
  by (cases s) (auto simp: if_cond_def Let_def split: if_splits)

interpretation h_if: opcode_handler "\<lambda>env. op_if env opcode inexec" for opcode inexec
proof unfold_locales
  fix env :: evalenv and st st' and g
  show "op_if env opcode inexec st = Inr st' \<Longrightarrow> softfork_le g (ev_flags env) \<Longrightarrow>
      op_if (env\<lparr>ev_flags := g\<rparr>) opcode inexec st = Inr st'"
    by (auto simp: op_if_def ok_iff dest: if_cond_mono)
next
  fix env :: evalenv and st st'
  show "op_if env opcode inexec st = Inr st' \<Longrightarrow> elems_ok st \<Longrightarrow> elems_ok st'"
    by (auto simp: op_if_def ok_iff elems_ok_def dest: if_cond_elems)
next
  fix env :: evalenv and st st'
  assume "same_state st st'"
  then show "rel_sum (=) same_state (op_if env opcode inexec st) (op_if env opcode inexec st')"
    by (cases st; cases "if_cond env opcode inexec (es_stack st)") (auto simp: op_if_def same_state_def)
qed

section \<open>Signature checks\<close>

text \<open>The relation between two checkers that differ in the caches of their transaction.\<close>

definition same_checker :: "sigchecker \<Rightarrow> sigchecker \<Rightarrow> bool" where
  "same_checker c d \<longleftrightarrow> same_tx (sc_Tx c) (sc_Tx d) \<and> sc_Idx c = sc_Idx d \<and> sc_Amount c = sc_Amount d"

lemma same_checker_simps [simp]:
  "same_checker \<lparr>sc_Tx = t, sc_Idx = i, sc_Amount = a\<rparr> \<lparr>sc_Tx = u, sc_Idx = i, sc_Amount = a\<rparr> \<longleftrightarrow> same_tx t u"
  by (simp add: same_checker_def)

lemma sigversion_hash_rel:
  assumes "same_checker c d"
  shows "rel_sum (=) (rel_prod (=) same_tx) (sigversion_hash c scr ht sv) (sigversion_hash d scr ht sv)"
proof -
  have t: "same_tx (sc_Tx c) (sc_Tx d)" "sc_Idx c = sc_Idx d" "sc_Amount c = sc_Amount d"
    using assms by (auto simp: same_checker_def)
  show ?thesis
    unfolding sigversion_hash_def t(2,3) SignatureHash_same [OF t(1)]
    using WitnessSigHash_rel [OF t(1)] t(1) by (auto intro: rel_andThen_same)
qed

lemma verifyECDSA_rel:
  assumes "same_checker c d"
  shows "rel_sum (=) (rel_prod (=) same_tx) (verifyECDSA ec c scr sig pk sv) (verifyECDSA ec d scr sig pk sv)"
  unfolding verifyECDSA_def
  using assms by (auto simp: same_checker_def intro!: rel_andThen_same rel_andThen_pair [OF sigversion_hash_rel [OF assms]])

lemma CheckSchnorrSignature_rel:
  assumes "same_checker c d"
  shows "rel_sum (=) (rel_prod (=) same_tx) (CheckSchnorrSignature ec c sig pk sv ed)
           (CheckSchnorrSignature ec d sig pk sv ed)"
proof -
  have t: "same_tx (sc_Tx c) (sc_Tx d)" "sc_Idx c = sc_Idx d" using assms by (auto simp: same_checker_def)
  show ?thesis
    unfolding CheckSchnorrSignature_def Let_def t(2)
    using t(1) by (auto intro!: rel_andThen_pair [OF TaprootSigHash_rel])
qed

lemma evalChecksigPreTapscript_rel:
  assumes "same_checker c d"
  shows "rel_sum (=) (rel_prod (=) same_tx) (evalChecksigPreTapscript ec c sig pk p pb f sv)
           (evalChecksigPreTapscript ec d sig pk p pb f sv)"
proof -
  have t: "same_tx (sc_Tx c) (sc_Tx d)" using assms by (auto simp: same_checker_def)
  have v: "rel_sum (=) (rel_prod (=) same_tx)
     (andThen (last_byte sig) (\<lambda>ht.
        andThen (sigversion_hash c scr (ucast ht) sv) (\<lambda>(sh, t). Inr (EcdsaVerify ec pk sig sh, t))))
     (andThen (last_byte sig) (\<lambda>ht.
        andThen (sigversion_hash d scr (ucast ht) sv) (\<lambda>(sh, t). Inr (EcdsaVerify ec pk sig sh, t))))" for scr
    by (auto intro!: rel_andThen_same rel_andThen_pair [OF sigversion_hash_rel [OF assms]])
  show ?thesis
    unfolding evalChecksigPreTapscript_def
    using t by (auto intro!: rel_andThen_same rel_andThen_pair [OF v])
qed

lemma evalChecksigTapscript_rel:
  assumes "same_checker c d"
  shows "rel_sum (=) (rel_prod (=) (rel_prod same_tx (=))) (evalChecksigTapscript ec c sig pk ed f sv)
           (evalChecksigTapscript ec d sig pk ed f sv)"
proof -
  have t: "same_tx (sc_Tx c) (sc_Tx d)" using assms by (auto simp: same_checker_def)
  show ?thesis
    unfolding evalChecksigTapscript_def Let_def
    using t by (auto intro!: rel_andThen_pair [OF CheckSchnorrSignature_rel [OF assms]])
qed

lemma evalChecksig_rel:
  assumes "same_checker c d"
  shows "rel_sum (=) (rel_prod (=) (rel_prod same_tx (=))) (evalChecksig ec c sig pk p pb ed f sv)
           (evalChecksig ec d sig pk p pb ed f sv)"
  unfolding evalChecksig_def
  using evalChecksigTapscript_rel [OF assms]
  by (auto intro!: rel_andThen_pair [OF evalChecksigPreTapscript_rel [OF assms]])

lemma evalChecksigPreTapscript_mono:
  assumes "evalChecksigPreTapscript ec c sig pk p pb f sv = Inr ((True, b), t)" "softfork_le g f"
  shows "evalChecksigPreTapscript ec c sig pk p pb g sv = Inr ((True, b), t)"
proof -
  have le: "flags_le g f" using assms(2) by (simp add: softfork_le_def)
  obtain scr n where scr: "pretap_script_code sig p pb sv = Inr (scr, n)"
    using assms(1) by (auto simp: evalChecksigPreTapscript_def andThen_ok)
  obtain enc where enc: "CheckSignatureEncoding sig f = Inr enc" using CheckSignatureEncoding_total by blast
  have ok: "\<not> (n > 0 \<and> flag_on f VER_CONST_SCRIPTCODE)" "enc" "CheckPubKeyEncoding pk f sv"
    using assms(1) by (auto simp: evalChecksigPreTapscript_def scr enc split: if_splits)
  have g: "\<not> (n > 0 \<and> flag_on g VER_CONST_SCRIPTCODE)" "CheckSignatureEncoding sig g = Inr True"
      "CheckPubKeyEncoding pk g sv"
    using ok enc CheckSignatureEncoding_mono [OF le] CheckPubKeyEncoding_mono [OF le] flags_le_on [OF le]
    by auto
  show ?thesis
    using assms(1) g ok flags_le_on [OF le, of VER_NULLFAIL]
    by (auto simp: evalChecksigPreTapscript_def scr enc ok_iff split: if_splits)
qed

lemma evalChecksigTapscript_mono:
  assumes "evalChecksigTapscript ec c sig pk ed f sv = Inr ((True, b), r)" "softfork_le g f"
  shows "evalChecksigTapscript ec c sig pk ed g sv = Inr ((True, b), r)"
  using assms(1) softfork_on [OF assms(2)]
  by (auto simp: evalChecksigTapscript_def Let_def split: if_splits)

lemma evalChecksig_mono:
  assumes "evalChecksig ec c sig pk p pb ed f sv = Inr ((True, b), t, ed')" "softfork_le g f"
  shows "evalChecksig ec c sig pk p pb ed g sv = Inr ((True, b), t, ed')"
  using assms(1) evalChecksigPreTapscript_mono [OF _ assms(2)] evalChecksigTapscript_mono [OF _ assms(2)]
  by (auto simp: evalChecksig_def andThen_ok split: if_splits)

lemma same_state_iff:
  "same_state st st' \<longleftrightarrow>
     es_stack st' = es_stack st \<and> es_altstack st' = es_altstack st \<and> es_exestack st' = es_exestack st \<and>
     es_pbegincodehash st' = es_pbegincodehash st \<and> es_opcnt st' = es_opcnt st \<and>
     es_opcode_pos st' = es_opcode_pos st \<and> es_execdata st' = es_execdata st \<and>
     same_tx (es_tx st) (es_tx st')"
  by (cases st; cases st') (auto simp: same_state_def)

lemma same_state_checker: "same_state st st' \<Longrightarrow> same_checker (env_checker env st) (env_checker env st')"
  by (simp add: same_state_iff env_checker_def)

lemma run_checksig_rel:
  assumes "same_state st st'"
  shows "rel_sum (=) (rel_prod (=) same_state) (run_checksig env sig pk st) (run_checksig env sig pk st')"
proof -
  have e: "es_execdata st' = es_execdata st" "es_pbegincodehash st' = es_pbegincodehash st"
    using assms by (auto simp: same_state_iff)
  note r = evalChecksig_rel [OF same_state_checker [OF assms, of env], of "ev_ec env" sig pk "ev_p env"
      "es_pbegincodehash st" "es_execdata st" "ev_flags env" "ev_sigversion env"]
  show ?thesis
    unfolding run_checksig_def e using r assms
    by (cases "evalChecksig (ev_ec env) (env_checker env st) sig pk (ev_p env)
          (es_pbegincodehash st) (es_execdata st) (ev_flags env) (ev_sigversion env)";
        cases "evalChecksig (ev_ec env) (env_checker env st') sig pk (ev_p env)
          (es_pbegincodehash st) (es_execdata st) (ev_flags env) (ev_sigversion env)")
       (auto simp: same_state_iff rel_prod_sel)
qed

lemma run_checksig_mono:
  assumes "run_checksig env sig pk st = Inr r" "softfork_le g (ev_flags env)"
  shows "run_checksig (env\<lparr>ev_flags := g\<rparr>) sig pk st = Inr r"
proof -
  have [simp]: "env_checker (env\<lparr>ev_flags := g\<rparr>) st = env_checker env st" by (simp add: env_checker_def)
  show ?thesis
    using assms(1) evalChecksig_mono [OF _ assms(2)]
    by (fastforce simp: run_checksig_def ok_iff split: if_splits)
qed

lemma run_checksig_stacks:
  "run_checksig env sig pk st = Inr (b, st') \<Longrightarrow> es_stack st' = es_stack st \<and> es_altstack st' = es_altstack st"
  by (auto simp: run_checksig_def ok_iff split: if_splits)

interpretation h_checksig: opcode_handler "\<lambda>env. op_checksig env opcode" for opcode
proof unfold_locales
  fix env :: evalenv and st st' and g
  assume "op_checksig env opcode st = Inr st'" "softfork_le g (ev_flags env)"
  then show "op_checksig (env\<lparr>ev_flags := g\<rparr>) opcode st = Inr st'"
    using run_checksig_mono by (auto simp: op_checksig_def ok_iff split: if_splits)
next
  fix env :: evalenv and st st'
  show "op_checksig env opcode st = Inr st' \<Longrightarrow> elems_ok st \<Longrightarrow> elems_ok st'"
    by (auto simp: op_checksig_def ok_iff elems_ok_def pop_n_ok pushBool_def dest!: run_checksig_stacks split: if_splits)
next
  fix env :: evalenv and st st'
  assume s: "same_state st st'"
  then have "es_stack st' = es_stack st" by (simp add: same_state_iff)
  then show "rel_sum (=) same_state (op_checksig env opcode st) (op_checksig env opcode st')"
    unfolding op_checksig_def
    by (auto intro!: rel_andThen_same rel_andThen_pair [OF run_checksig_rel [OF s]])
       (auto simp: same_state_iff intro!: rel_andThen_same split: if_splits)
qed

interpretation h_checksigadd: opcode_handler op_checksigadd
proof unfold_locales
  fix env :: evalenv and st st' and g
  assume "op_checksigadd env st = Inr st'" "softfork_le g (ev_flags env)"
  then show "op_checksigadd (env\<lparr>ev_flags := g\<rparr>) st = Inr st'"
    using run_checksig_mono checkMinVals_weaker [of g env]
    by (auto simp: op_checksigadd_def ok_iff topInt_def split: if_splits)
next
  fix env :: evalenv and st st'
  show "op_checksigadd env st = Inr st' \<Longrightarrow> elems_ok st \<Longrightarrow> elems_ok st'"
    by (auto simp: op_checksigadd_def ok_iff elems_ok_def pop_n_ok pushInt_def topInt_def bts2int_def
        dest!: run_checksig_stacks split: if_splits)
next
  fix env :: evalenv and st st'
  assume s: "same_state st st'"
  then have "es_stack st' = es_stack st" by (simp add: same_state_iff)
  then show "rel_sum (=) same_state (op_checksigadd env st) (op_checksigadd env st')"
    unfolding op_checksigadd_def
    by (auto intro!: rel_andThen_same rel_andThen_pair [OF run_checksig_rel [OF s]])
       (auto simp: same_state_iff intro!: rel_andThen_same split: if_splits)
qed

section \<open>Lock times\<close>

lemma bts2int_ext_relax: "bts2int_ext d n True = Inr v \<Longrightarrow> bts2int_ext d n False = Inr v"
  by (auto simp: bts2int_ext_def split: if_splits)

lemma bts2int_ext_weaker: "bts2int_ext d n c = Inr v \<Longrightarrow> (c' \<Longrightarrow> c) \<Longrightarrow> bts2int_ext d n c' = Inr v"
  using bts2int_ext_relax by (cases c; cases c') auto

interpretation h_cltv: opcode_handler op_checklocktimeverify
proof unfold_locales
  fix env :: evalenv and st st' and g
  assume 1: "op_checklocktimeverify env st = Inr st'" and g: "softfork_le g (ev_flags env)"
  then have "st' = st" by (auto simp: op_checklocktimeverify_def ok_iff Let_def split: if_splits)
  with 1 show "op_checklocktimeverify (env\<lparr>ev_flags := g\<rparr>) st = Inr st'"
    using g softfork_on [OF g] checkMinVals_weaker [OF g]
    by (auto simp: op_checklocktimeverify_def ok_iff Let_def softfork_le_def
        dest: bts2int_ext_weaker split: if_splits)
next
  fix env :: evalenv and st st'
  show "op_checklocktimeverify env st = Inr st' \<Longrightarrow> elems_ok st \<Longrightarrow> elems_ok st'"
    by (auto simp: op_checklocktimeverify_def ok_iff Let_def split: if_splits)
next
  fix env :: evalenv and st st'
  assume s: "same_state st st'"
  then have t: "es_stack st' = es_stack st" "same_tx (es_tx st) (es_tx st')" by (simp_all add: same_state_iff)
  then have "es_stack st' = es_stack st" "tx_Lock_time (es_tx st') = tx_Lock_time (es_tx st)"
      "get_txin (es_tx st') = get_txin (es_tx st)" using same_tx_parts [OF t(2)] by simp_all
  with s show "rel_sum (=) same_state (op_checklocktimeverify env st) (op_checklocktimeverify env st')"
    unfolding op_checklocktimeverify_def Let_def by (auto intro!: rel_andThen_same)
qed

lemma CheckSequence_same: "same_tx t u \<Longrightarrow> CheckSequence t i q = CheckSequence u i q"
  by (simp add: CheckSequence_def same_tx_parts)

interpretation h_csv: opcode_handler op_checksequenceverify
proof unfold_locales
  fix env :: evalenv and st st' and g
  assume 1: "op_checksequenceverify env st = Inr st'" and g: "softfork_le g (ev_flags env)"
  then have "st' = st" by (auto simp: op_checksequenceverify_def ok_iff Let_def split: if_splits)
  with 1 show "op_checksequenceverify (env\<lparr>ev_flags := g\<rparr>) st = Inr st'"
    using g softfork_on [OF g] checkMinVals_weaker [OF g]
    by (auto simp: op_checksequenceverify_def ok_iff Let_def softfork_le_def
        dest: bts2int_ext_weaker split: if_splits)
next
  fix env :: evalenv and st st'
  show "op_checksequenceverify env st = Inr st' \<Longrightarrow> elems_ok st \<Longrightarrow> elems_ok st'"
    by (auto simp: op_checksequenceverify_def ok_iff Let_def split: if_splits)
next
  fix env :: evalenv and st st'
  assume s: "same_state st st'"
  then have "es_stack st' = es_stack st" "\<And>q. CheckSequence (es_tx st') (ev_inp env) q = CheckSequence (es_tx st) (ev_inp env) q"
    by (simp_all add: same_state_iff CheckSequence_same [symmetric])
  with s show "rel_sum (=) same_state (op_checksequenceverify env st) (op_checksequenceverify env st')"
    unfolding op_checksequenceverify_def by (auto intro!: rel_andThen_same)
qed

section \<open>\<open>OP_CHECKMULTISIG\<close>\<close>

lemma topInt_weaker: "topInt k c s = Inr v \<Longrightarrow> (c' \<Longrightarrow> c) \<Longrightarrow> topInt k c' s = Inr v"
  by (auto simp: topInt_def ok_iff split: if_splits)

lemma ms_counts_mono:
  assumes "ms_counts env st = Inr r" "softfork_le g (ev_flags env)"
  shows "ms_counts (env\<lparr>ev_flags := g\<rparr>) st = Inr r"
proof -
  have w: "topInt i (checkMinVals (env\<lparr>ev_flags := g\<rparr>)) (es_stack st) = Inr v"
    if "topInt i (checkMinVals env) (es_stack st) = Inr v" for i v
    using that by (rule topInt_weaker) (rule checkMinVals_weaker [OF assms(2)])
  obtain k where k: "topInt 1 (checkMinVals env) (es_stack st) = Inr k" "\<not> (k < 0 \<or> k > 20)"
    using assms(1) by (auto simp: ms_counts_def ok_iff split: if_splits)
  obtain m where m: "topInt (2 + nat k) (checkMinVals env) (es_stack st) = Inr m"
    using assms(1) k by (auto simp: ms_counts_def ok_iff Let_def split: if_splits)
  have "ms_counts (env\<lparr>ev_flags := g\<rparr>) st = ms_counts env st"
    using w [OF k(1)] w [OF m] k m by (simp add: ms_counts_def Let_def)
  with assms(1) show ?thesis by simp
qed

lemma ms_counts_state:
  "ms_counts env st = Inr (keyscnt, sigscnt, isig, i, st') \<Longrightarrow>
     st' = st\<lparr>es_opcnt := es_opcnt st + keyscnt\<rparr> \<and> es_opcnt st' \<le> 201 \<and> keyscnt \<le> 20 \<and> sigscnt \<le> keyscnt \<and>
     isig = keyscnt + 3 \<and> i = isig + sigscnt \<and> i \<le> length (es_stack st)"
  by (auto simp: ms_counts_def ok_iff Let_def intro: nat_mono split: if_splits)

lemma ms_counts_rel:
  assumes "same_state st st'"
  shows "rel_sum (=) (rel_prod (=) (rel_prod (=) (rel_prod (=) (rel_prod (=) same_state))))
    (ms_counts env st) (ms_counts env st')"
proof -
  have "es_stack st' = es_stack st" "es_opcnt st' = es_opcnt st" using assms by (auto simp: same_state_iff)
  then show ?thesis
    unfolding ms_counts_def Let_def using assms
    by (auto intro!: rel_andThen_same simp: same_state_iff)
qed

lemma ms_delsigs_mono:
  assumes "softfork_le g f"
  shows "ms_delsigs f s isig k xxx = Inr r \<Longrightarrow> ms_delsigs g s isig k xxx = Inr r"
proof (induction k arbitrary: isig xxx)
  case (Suc k)
  then obtain sig xxx' n where 1: "top isig s = Inr sig" "delSig xxx sig = Inr (xxx', n)"
      "\<not> (n > 0 \<and> flag_on f VER_CONST_SCRIPTCODE)" "ms_delsigs f s (isig + 1) k xxx' = Inr r"
    by (simp only: ms_delsigs.simps andThen_ok liftErr_ok) (auto split: if_splits)
  then have "\<not> (n > 0 \<and> flag_on g VER_CONST_SCRIPTCODE)" using softfork_on [OF assms] by blast
  with 1 Suc.IH [OF 1(4)] show ?case by simp
qed simp

lemma ms_loop_step:
  assumes "ms_loop env xxx s t ikey isig n m = Inr r" "n > 0"
  obtains pk sig v t' n' isig' where "top ikey s = Inr pk" "top isig s = Inr sig"
    "CheckSignatureEncoding sig (ev_flags env) = Inr True"
    "CheckPubKeyEncoding pk (ev_flags env) (ev_sigversion env)"
    "verifyECDSA (ev_ec env) \<lparr>sc_Tx = t, sc_Idx = ev_inp env, sc_Amount = ev_amount env\<rparr>
       xxx sig pk (ev_sigversion env) = Inr (v, t')"
    "n' = (if v then n - 1 else n)" "isig' = (if v then isig + 1 else isig)"
    "if n' > m - 1 then r = (False, t')
     else ms_loop env xxx s t' (ikey + 1) isig' n' (m - 1) = Inr r"
proof -
  from assms(2) have "ms_loop env xxx s t ikey isig n m =
     andThen (recov (top ikey s)) (\<lambda>vchPubKey.
     andThen (recov (top isig s)) (\<lambda>vchSig.
     andThen (recov (CheckSignatureEncoding vchSig (ev_flags env))) (\<lambda>enc.
     if \<not> enc \<or> \<not> CheckPubKeyEncoding vchPubKey (ev_flags env) (ev_sigversion env)
     then Inl ErrSigEncoding
     else
       andThen (recov (verifyECDSA (ev_ec env) \<lparr>sc_Tx = t, sc_Idx = ev_inp env, sc_Amount = ev_amount env\<rparr>
                  xxx vchSig vchPubKey (ev_sigversion env))) (\<lambda>(v, t).
       let isig' = (if v then isig + 1 else isig);
           sigscnt' = (if v then n - 1 else n)
       in if sigscnt' > m - 1 then Inr (False, t)
          else ms_loop env xxx s t (ikey + 1) isig' sigscnt' (m - 1)))))"
    by (subst ms_loop.simps) simp
  note e = trans [OF sym [OF this] assms(1)]
  obtain pk where pk: "top ikey s = Inr pk" using e by (cases "top ikey s") simp_all
  obtain sig where sig: "top isig s = Inr sig" using e pk by (cases "top isig s") simp_all
  obtain enc where enc: "CheckSignatureEncoding sig (ev_flags env) = Inr enc"
    using CheckSignatureEncoding_total by blast
  have enc': "CheckSignatureEncoding sig (ev_flags env) = Inr True"
      "CheckPubKeyEncoding pk (ev_flags env) (ev_sigversion env)"
    using e by (auto simp only: pk sig enc liftErr_simps andThen_simps split: if_splits)
  obtain v t' where v: "verifyECDSA (ev_ec env) \<lparr>sc_Tx = t, sc_Idx = ev_inp env, sc_Amount = ev_amount env\<rparr>
       xxx sig pk (ev_sigversion env) = Inr (v, t')"
    using e pk sig enc' by (cases "verifyECDSA (ev_ec env) \<lparr>sc_Tx = t, sc_Idx = ev_inp env, sc_Amount = ev_amount env\<rparr>
       xxx sig pk (ev_sigversion env)") auto
  show thesis
    by (rule that [OF pk sig enc' v refl refl])
       (use e in \<open>auto simp: pk sig enc' v Let_def split: if_splits\<close>)
qed

lemma ms_loop_stop [simp]: "n \<le> 0 \<Longrightarrow> ms_loop env xxx s t ikey isig n m = Inr (True, t)"
  by (subst ms_loop.simps) simp

lemma ms_loop_unfold:
  assumes "n > 0" "top ikey s = Inr pk" "top isig s = Inr sig"
    "CheckSignatureEncoding sig (ev_flags env) = Inr True"
    "CheckPubKeyEncoding pk (ev_flags env) (ev_sigversion env)"
    "verifyECDSA (ev_ec env) \<lparr>sc_Tx = t, sc_Idx = ev_inp env, sc_Amount = ev_amount env\<rparr>
       xxx sig pk (ev_sigversion env) = Inr (v, t')"
  shows "ms_loop env xxx s t ikey isig n m =
    (if (if v then n - 1 else n) > m - 1 then Inr (False, t')
     else ms_loop env xxx s t' (ikey + 1) (if v then isig + 1 else isig) (if v then n - 1 else n) (m - 1))"
  using assms by (subst ms_loop.simps) (simp add: Let_def)

lemma ms_loop_mono:
  assumes "softfork_le g (ev_flags env)" "ms_loop env xxx s t ikey isig n m = Inr r"
  shows "ms_loop (env\<lparr>ev_flags := g\<rparr>) xxx s t ikey isig n m = Inr r"
proof -
  have "ms_loop env xxx s t ikey isig n m = Inr r \<Longrightarrow> ms_loop (env\<lparr>ev_flags := g\<rparr>) xxx s t ikey isig n m = Inr r"
  proof (induction "nat m" arbitrary: t ikey isig n m rule: less_induct)
    case less
    show ?case
    proof (cases "n > 0")
      case True
      have le: "flags_le g (ev_flags env)" using assms(1) by (simp add: softfork_le_def)
      from less.prems True show ?thesis
      proof (rule ms_loop_step)
        fix pk sig v t' n' isig'
        assume 1: "top ikey s = Inr pk" "top isig s = Inr sig"
          "CheckSignatureEncoding sig (ev_flags env) = Inr True"
          "CheckPubKeyEncoding pk (ev_flags env) (ev_sigversion env)"
          "verifyECDSA (ev_ec env) \<lparr>sc_Tx = t, sc_Idx = ev_inp env, sc_Amount = ev_amount env\<rparr>
             xxx sig pk (ev_sigversion env) = Inr (v, t')"
          and n': "n' = (if v then n - 1 else n)" and isig': "isig' = (if v then isig + 1 else isig)"
          and rest: "if n' > m - 1 then r = (False, t')
             else ms_loop env xxx s t' (ikey + 1) isig' n' (m - 1) = Inr r"
        have 2: "CheckSignatureEncoding sig g = Inr True" "CheckPubKeyEncoding pk g (ev_sigversion env)"
          using CheckSignatureEncoding_mono [OF le 1(3)] CheckPubKeyEncoding_mono [OF le 1(4)] by auto
        have "ms_loop (env\<lparr>ev_flags := g\<rparr>) xxx s t' (ikey + 1) isig' n' (m - 1) = Inr r" if "\<not> n' > m - 1"
        proof (rule less.hyps)
          show "nat (m - 1) < nat m" using that True by (auto simp: n' split: if_splits)
          show "ms_loop env xxx s t' (ikey + 1) isig' n' (m - 1) = Inr r" using rest that by simp
        qed
        with ms_loop_unfold [of n ikey s pk isig sig "env\<lparr>ev_flags := g\<rparr>" t xxx v t' m] 1 2 True rest
        show ?thesis unfolding n' isig' by (simp split: if_splits)
      qed
    qed (use less.prems in simp)
  qed
  with assms(2) show ?thesis by blast
qed

lemma ms_loop_rel:
  "same_tx t u \<Longrightarrow>
   rel_sum (=) (rel_prod (=) same_tx) (ms_loop env xxx s t ikey isig n m) (ms_loop env xxx s u ikey isig n m)"
proof (induction "nat m" arbitrary: t u ikey isig n m rule: less_induct)
  case less
  show ?case
  proof (cases "n > 0")
    case True
    have v: "rel_sum (=) (rel_prod (=) same_tx)
        (recov (verifyECDSA (ev_ec env) \<lparr>sc_Tx = t, sc_Idx = ev_inp env, sc_Amount = ev_amount env\<rparr>
                  xxx sig pk (ev_sigversion env)))
        (recov (verifyECDSA (ev_ec env) \<lparr>sc_Tx = u, sc_Idx = ev_inp env, sc_Amount = ev_amount env\<rparr>
                  xxx sig pk (ev_sigversion env)))" for sig pk
      using verifyECDSA_rel [of "\<lparr>sc_Tx = t, sc_Idx = ev_inp env, sc_Amount = ev_amount env\<rparr>"
          "\<lparr>sc_Tx = u, sc_Idx = ev_inp env, sc_Amount = ev_amount env\<rparr>" "ev_ec env" xxx sig pk "ev_sigversion env"]
        less.prems by (auto elim!: rel_sum.cases)
    have IH: "rel_sum (=) (rel_prod (=) same_tx) (ms_loop env xxx s t' ik is k (m - 1)) (ms_loop env xxx s u' ik is k (m - 1))"
      if "same_tx t' u'" "\<not> k > m - 1" "k \<ge> n - 1" for t' u' ik "is" k
      using that True by (intro less.hyps) auto
    show ?thesis
      by (subst (1 2) ms_loop.simps)
         (auto intro!: rel_andThen_same rel_andThen_pair [OF v] IH simp: Let_def True)
  qed (use less.prems in simp)
qed

lemma ms_cleanup_stop [simp]: "i \<le> 1 \<Longrightarrow> ms_cleanup chk i ikey2 s = Inr s"
  by (subst ms_cleanup.simps) simp

lemma ms_cleanup_Nil [simp]: "ms_cleanup chk (Suc (Suc j)) ikey2 [] \<noteq> Inr s'"
  by (subst ms_cleanup.simps) (simp add: andThen_ok)

lemma ms_cleanup_Cons [simp]:
  "ms_cleanup chk (Suc (Suc j)) ikey2 (d # s) =
     (if chk \<and> ikey2 = 0 \<and> d \<noteq> [] then Inl ErrNullFail else ms_cleanup chk (Suc j) (ikey2 - 1) s)"
  by (subst ms_cleanup.simps) (simp add: top_def)

lemma ms_cleanup_drop:
  "ms_cleanup chk (Suc j) ikey2 s = Inr s' \<Longrightarrow> j \<le> length s \<and> s' = drop j s"
proof (induction j arbitrary: ikey2 s)
  case (Suc j)
  then show ?case by (cases s) (auto split: if_splits)
qed simp

lemma ms_cleanup_off: "j \<le> length s \<Longrightarrow> ms_cleanup False (Suc j) ikey2 s = Inr (drop j s)"
proof (induction j arbitrary: ikey2 s)
  case (Suc j)
  then show ?case by (cases s) auto
qed simp

lemma ms_cleanup_mono:
  assumes "ms_cleanup chk (Suc j) ikey2 s = Inr s'" "chk' \<Longrightarrow> chk"
  shows "ms_cleanup chk' (Suc j) ikey2 s = Inr s'"
proof (cases chk')
  case True
  then show ?thesis using assms by simp
next
  case False
  with ms_cleanup_drop [OF assms(1)] show ?thesis by (simp add: ms_cleanup_off)
qed

lemma rel_ms_counts:
  assumes "same_state st st'"
    and "\<And>k n isig i st1 st1'. same_state st1 st1' \<Longrightarrow> rel_sum (=) S (f k n isig i st1) (f k n isig i st1')"
  shows "rel_sum (=) S (andThen (ms_counts env st) (\<lambda>(k, n, isig, i, st). f k n isig i st))
     (andThen (ms_counts env st') (\<lambda>(k, n, isig, i, st). f k n isig i st))"
  by (rule rel_andThen [OF ms_counts_rel [OF assms(1)]]) (auto intro: assms(2))

lemma op_checkmultisig_ok:
  "op_checkmultisig env opcode st = Inr st' \<longleftrightarrow>
     ev_sigversion env \<noteq> SIGVERSION_TAPSCRIPT \<and>
     (\<exists>keyscnt sigscnt isig i st1 xxx xxx' success t s dummy.
        ms_counts env st = Inr (keyscnt, sigscnt, isig, i, st1) \<and>
        bytes_from (ev_p env) (int (es_pbegincodehash st1)) = Inr xxx \<and>
        (if ev_sigversion env = SIGVERSION_BASE
         then ms_delsigs (ev_flags env) (es_stack st1) isig sigscnt xxx else Inr xxx) = Inr xxx' \<and>
        ms_loop env xxx' (es_stack st1) (es_tx st1) 2 isig (int sigscnt) (int keyscnt) = Inr (success, t) \<and>
        ms_cleanup (\<not> success \<and> flag_on (ev_flags env) VER_NULLFAIL) i (keyscnt + 2) (es_stack st1) = Inr (dummy # s) \<and>
        \<not> (flag_on (ev_flags env) VER_NULLDUMMY \<and> dummy \<noteq> []) \<and>
        (if opcode = 0xaf then success \<and> st' = st1\<lparr>es_tx := t, es_stack := s\<rparr>
         else st' = st1\<lparr>es_tx := t, es_stack := pushBool success s\<rparr>))"
  (is "?L \<longleftrightarrow> ?R")
proof
  assume L: ?L
  then have sv: "ev_sigversion env \<noteq> SIGVERSION_TAPSCRIPT" by (auto simp: op_checkmultisig_def)
  note L = L [unfolded op_checkmultisig_def if_not_P [OF sv]]
  from L obtain c where c: "ms_counts env st = Inr c" by (cases "ms_counts env st") simp_all
  obtain keyscnt sigscnt isig i st1 where c': "c = (keyscnt, sigscnt, isig, i, st1)" by (cases c) auto
  note L = L [unfolded c c' andThen_simps prod.case]
  from L obtain xxx where x: "bytes_from (ev_p env) (int (es_pbegincodehash st1)) = Inr xxx"
    by (cases "bytes_from (ev_p env) (int (es_pbegincodehash st1))") simp_all
  note L = L [unfolded x liftErr_simps andThen_simps]
  from L obtain xxx' where x': "(if ev_sigversion env = SIGVERSION_BASE
         then ms_delsigs (ev_flags env) (es_stack st1) isig sigscnt xxx else Inr xxx) = Inr xxx'"
    by (cases "(if ev_sigversion env = SIGVERSION_BASE
         then ms_delsigs (ev_flags env) (es_stack st1) isig sigscnt xxx else Inr xxx)") simp_all
  note L = L [unfolded x' andThen_simps]
  from L obtain success t where l: "ms_loop env xxx' (es_stack st1) (es_tx st1) 2 isig (int sigscnt) (int keyscnt) = Inr (success, t)"
    by (cases "ms_loop env xxx' (es_stack st1) (es_tx st1) 2 isig (int sigscnt) (int keyscnt)") auto
  note L = L [unfolded l andThen_simps prod.case]
  from L obtain s1 where m: "ms_cleanup (\<not> success \<and> flag_on (ev_flags env) VER_NULLFAIL) i (keyscnt + 2) (es_stack st1) = Inr s1"
    by (cases "ms_cleanup (\<not> success \<and> flag_on (ev_flags env) VER_NULLFAIL) i (keyscnt + 2) (es_stack st1)") simp_all
  note L = L [unfolded m andThen_simps]
  from L obtain dummy s where s1: "s1 = dummy # s" by (cases s1) simp_all
  show ?R using sv c c' x x' l m L unfolding s1 by (auto simp: top_def split: if_splits)
next
  assume ?R
  then show ?L by (elim conjE exE) (simp add: op_checkmultisig_def top_def split: if_splits)
qed

interpretation h_checkmultisig: opcode_handler "\<lambda>env. op_checkmultisig env opcode" for opcode
proof unfold_locales
  fix env :: evalenv and st st' and g
  assume 1: "op_checkmultisig env opcode st = Inr st'" and g: "softfork_le g (ev_flags env)"
  from 1 obtain keyscnt sigscnt isig i st1 xxx xxx' success t s dummy where
      sv: "ev_sigversion env \<noteq> SIGVERSION_TAPSCRIPT"
    and c: "ms_counts env st = Inr (keyscnt, sigscnt, isig, i, st1)"
    and x: "bytes_from (ev_p env) (int (es_pbegincodehash st1)) = Inr xxx"
    and d: "(if ev_sigversion env = SIGVERSION_BASE
         then ms_delsigs (ev_flags env) (es_stack st1) isig sigscnt xxx else Inr xxx) = Inr xxx'"
    and l: "ms_loop env xxx' (es_stack st1) (es_tx st1) 2 isig (int sigscnt) (int keyscnt) = Inr (success, t)"
    and m: "ms_cleanup (\<not> success \<and> flag_on (ev_flags env) VER_NULLFAIL) i (keyscnt + 2) (es_stack st1) = Inr (dummy # s)"
    and n: "\<not> (flag_on (ev_flags env) VER_NULLDUMMY \<and> dummy \<noteq> [])"
    and r: "(if opcode = 0xaf then success \<and> st' = st1\<lparr>es_tx := t, es_stack := s\<rparr>
         else st' = st1\<lparr>es_tx := t, es_stack := pushBool success s\<rparr>)"
    unfolding op_checkmultisig_ok by blast
  obtain j where i: "i = Suc j" using ms_counts_state [OF c] by (cases i) auto
  have d': "(if ev_sigversion (env\<lparr>ev_flags := g\<rparr>) = SIGVERSION_BASE
         then ms_delsigs (ev_flags (env\<lparr>ev_flags := g\<rparr>)) (es_stack st1) isig sigscnt xxx else Inr xxx) = Inr xxx'"
    using d ms_delsigs_mono [OF g] by (auto split: if_splits)
  have m': "ms_cleanup (\<not> success \<and> flag_on g VER_NULLFAIL) i (keyscnt + 2) (es_stack st1) = Inr (dummy # s)"
    using m unfolding i by (rule ms_cleanup_mono) (use softfork_on [OF g] in blast)
  have n': "\<not> (flag_on g VER_NULLDUMMY \<and> dummy \<noteq> [])" using n softfork_on [OF g] by blast
  show "op_checkmultisig (env\<lparr>ev_flags := g\<rparr>) opcode st = Inr st'"
    unfolding op_checkmultisig_ok
    using sv ms_counts_mono [OF c g] x d' ms_loop_mono [OF g l] m' n' r by simp
next
  fix env :: evalenv and st st'
  assume 1: "op_checkmultisig env opcode st = Inr st'" and e: "elems_ok st"
  then obtain keyscnt sigscnt isig i st1 success s dummy t where c: "ms_counts env st = Inr (keyscnt, sigscnt, isig, i, st1)"
    and m: "ms_cleanup (\<not> success \<and> flag_on (ev_flags env) VER_NULLFAIL) i (keyscnt + 2) (es_stack st1) = Inr (dummy # s)"
    and r: "(if opcode = 0xaf then success \<and> st' = st1\<lparr>es_tx := t, es_stack := s\<rparr>
         else st' = st1\<lparr>es_tx := t, es_stack := pushBool success s\<rparr>)"
    unfolding op_checkmultisig_ok by blast
  obtain j where i: "i = Suc j" using ms_counts_state [OF c] by (cases i) auto
  have "dummy # s = drop j (es_stack st)"
    using ms_cleanup_drop [OF m [unfolded i]] ms_counts_state [OF c] by simp
  then have "elems (dummy # s)" using e by (simp add: elems_ok_def)
  then show "elems_ok st'"
    using r e ms_counts_state [OF c] by (auto simp: elems_ok_def pushBool_def split: if_splits)
next
  fix env :: evalenv and st st'
  assume s: "same_state st st'"
  show "rel_sum (=) same_state (op_checkmultisig env opcode st) (op_checkmultisig env opcode st')"
  proof (cases "ev_sigversion env = SIGVERSION_TAPSCRIPT")
    case False
    show ?thesis
      unfolding op_checkmultisig_def if_not_P [OF False]
    proof (rule rel_ms_counts [OF s])
      fix k n isig i st1 st1' assume s1: "same_state st1 st1'"
      then have eq: "es_stack st1' = es_stack st1" "es_pbegincodehash st1' = es_pbegincodehash st1"
          and t: "same_tx (es_tx st1) (es_tx st1')" by (auto simp: same_state_iff)
      let ?fin = "\<lambda>st1 t success s. if length s < 1 then Inl ErrDummyMissing
        else
          andThen (recov (top 1 s)) (\<lambda>dummy.
          if flag_on (ev_flags env) VER_NULLDUMMY \<and> length dummy \<noteq> 0 then Inl ErrNullDummy
          else
            andThen (recov (pop s)) (\<lambda>(_, s).
            if opcode = 0xaf then
              (if \<not> success then Inl ErrVerify else Inr (st1\<lparr>es_tx := t, es_stack := s\<rparr>))
            else Inr (st1\<lparr>es_tx := t, es_stack := pushBool success s\<rparr>)))"
      have e: "rel_sum (=) same_state (?fin st1 t b s) (?fin st1' u b s)" if "same_tx t u" for t u b s
        using s1 that by (cases s) (auto simp: same_state_iff top_def)
      show "rel_sum (=) same_state
         (andThen (recov (bytes_from (ev_p env) (int (es_pbegincodehash st1)))) (\<lambda>xxx.
          andThen (if ev_sigversion env = SIGVERSION_BASE
                   then ms_delsigs (ev_flags env) (es_stack st1) isig n xxx else Inr xxx) (\<lambda>xxx.
          andThen (ms_loop env xxx (es_stack st1) (es_tx st1) 2 isig (int n) (int k)) (\<lambda>(success, t).
          andThen (ms_cleanup (\<not> success \<and> flag_on (ev_flags env) VER_NULLFAIL) i (k + 2) (es_stack st1)) (\<lambda>s.
          ?fin st1 t success s)))))
         (andThen (recov (bytes_from (ev_p env) (int (es_pbegincodehash st1')))) (\<lambda>xxx.
          andThen (if ev_sigversion env = SIGVERSION_BASE
                   then ms_delsigs (ev_flags env) (es_stack st1') isig n xxx else Inr xxx) (\<lambda>xxx.
          andThen (ms_loop env xxx (es_stack st1') (es_tx st1') 2 isig (int n) (int k)) (\<lambda>(success, t).
          andThen (ms_cleanup (\<not> success \<and> flag_on (ev_flags env) VER_NULLFAIL) i (k + 2) (es_stack st1')) (\<lambda>s.
          ?fin st1' t success s)))))"
        unfolding eq
        by (intro rel_andThen_same rel_andThen_pair [OF ms_loop_rel [OF t]] e)
    qed
  qed (simp add: op_checkmultisig_def)
qed

section \<open>Dispatch and the loop\<close>

lemmas handler_facts =
  h_if.opcode_handler_axioms h_else.opcode_handler_axioms h_endif.opcode_handler_axioms
  h_toaltstack.opcode_handler_axioms h_fromaltstack.opcode_handler_axioms
  h_codeseparator.opcode_handler_axioms h_checksig.opcode_handler_axioms
  h_checksigadd.opcode_handler_axioms h_checkmultisig.opcode_handler_axioms
  h_cltv.opcode_handler_axioms h_csv.opcode_handler_axioms
  n_1add.numeric_handler_axioms [THEN opcode_handler_numeric]
  n_1sub.numeric_handler_axioms [THEN opcode_handler_numeric]
  n_negate.numeric_handler_axioms [THEN opcode_handler_numeric]
  n_abs.numeric_handler_axioms [THEN opcode_handler_numeric]
  n_not.numeric_handler_axioms [THEN opcode_handler_numeric]
  n_0notequal.numeric_handler_axioms [THEN opcode_handler_numeric]
  n_within.numeric_handler_axioms [THEN opcode_handler_numeric]
  n_arith.numeric_handler_axioms [THEN opcode_handler_numeric]
  n_pick_roll.numeric_handler_axioms [THEN opcode_handler_numeric]

lemmas stack_handler_facts =
  o_verify.stack_handler_axioms o_2drop.stack_handler_axioms o_2dup.stack_handler_axioms
  o_3dup.stack_handler_axioms o_2over.stack_handler_axioms o_2rot.stack_handler_axioms
  o_2swap.stack_handler_axioms o_ifdup.stack_handler_axioms o_depth.stack_handler_axioms
  o_drop.stack_handler_axioms o_dup.stack_handler_axioms o_nip.stack_handler_axioms
  o_over.stack_handler_axioms o_rot.stack_handler_axioms o_swap.stack_handler_axioms
  o_tuck.stack_handler_axioms o_size.stack_handler_axioms o_equal.stack_handler_axioms
  o_ripemd160.stack_handler_axioms o_sha1.stack_handler_axioms o_sha256.stack_handler_axioms
  o_hash160.stack_handler_axioms o_hash256.stack_handler_axioms

lemma opcode_handler_nop:
  "opcode_handler (\<lambda>env st. if flag_on (ev_flags env) VER_BLOCK_OPS then Inl ErrUpgradableNop else Inr st)"
  by unfold_locales (auto dest: softfork_on split: if_splits)

interpretation h_exec: opcode_handler "\<lambda>env. exec_op env opcode inexec idx" for opcode inexec idx
proof -
  have neg1: "opcode_handler (\<lambda>env st. Inr (st\<lparr>es_stack := pushInt (- 1) (es_stack st)\<rparr>))"
    by (rule opcode_handler_pushInt) simp
  have num: "opcode_handler (\<lambda>env st. if opcode \<ge> 0x51 \<and> opcode \<le> 0x60
      then Inr (st\<lparr>es_stack := pushInt (int opcode - 0x50) (es_stack st)\<rparr>) else h env st)"
    if "opcode_handler h" for h
    using that opcode_handler_pushInt [of "int opcode - 0x50"]
    by (cases "opcode \<ge> 0x51 \<and> opcode \<le> 0x60") auto
  show "opcode_handler (\<lambda>env. exec_op env opcode inexec idx)"
    unfolding exec_op_def Let_def
    by (rule opcode_handler_if [OF neg1], rule num)
       (intro opcode_handler_if handler_facts stack_handler_facts [THEN opcode_handler_stack]
         opcode_handler_nop opcode_handler_fail opcode_handler_skip)
qed

lemma pre_checks_mono:
  "pre_checks env opcode pushval st = Inr st' \<Longrightarrow> softfork_le g (ev_flags env) \<Longrightarrow>
     pre_checks (env\<lparr>ev_flags := g\<rparr>) opcode pushval st = Inr st'"
  by (auto simp: pre_checks_def Let_def dest: softfork_on split: if_splits)

lemma pre_checks_state:
  "pre_checks env opcode pushval st = Inr st' \<Longrightarrow> \<exists>n. st' = st\<lparr>es_opcnt := n\<rparr>"
  by (cases st) (auto simp: pre_checks_def Let_def split: if_splits)

lemma pre_checks_rel:
  "same_state st st' \<Longrightarrow> rel_sum (=) same_state (pre_checks env opcode pushval st) (pre_checks env opcode pushval st')"
  by (auto simp: pre_checks_def Let_def same_state_iff)

lemma pre_checks_size:
  "pre_checks env opcode pushval st = Inr st' \<Longrightarrow> length (bytes_of pushval) \<le> 520"
  by (auto simp: pre_checks_def bytes_of_def split: if_splits option.splits)

text \<open>The part of an instruction between the checks before it and the check of the stack size.\<close>

definition instr_effect :: "evalenv \<Rightarrow> nat \<Rightarrow> bytes option \<Rightarrow> bool \<Rightarrow> nat \<Rightarrow> estate \<Rightarrow> script_error + estate" where
  "instr_effect env opcode pushval inexec idx st =
     (if inexec \<and> opcode \<le> OP_PUSHDATA4 then
        (if checkMinVals env \<and> \<not> checkMinimalPush (bytes_of pushval) opcode then Inl ErrNotMinimalPush
         else Inr (st\<lparr>es_stack := push (bytes_of pushval) (es_stack st)\<rparr>))
      else if inexec \<or> (0x63 \<le> opcode \<and> opcode \<le> 0x68) then exec_op env opcode inexec idx st
      else Inr st)"

lemma eval_instr_eq:
  "eval_instr env opcode pushval idx st =
     andThen (pre_checks env opcode pushval st) (\<lambda>st1.
     andThen (instr_effect env opcode pushval (nofalse (es_exestack st)) idx st1) (\<lambda>st2.
     if length (es_stack st2) + length (es_altstack st2) > 1000 then Inl ErrStackTooBig else Inr st2))"
  by (simp add: eval_instr_def instr_effect_def Let_def)

lemma instr_effect_mono:
  "instr_effect env opcode pushval inexec idx st = Inr st' \<Longrightarrow> softfork_le g (ev_flags env) \<Longrightarrow>
     instr_effect (env\<lparr>ev_flags := g\<rparr>) opcode pushval inexec idx st = Inr st'"
  by (auto simp: instr_effect_def dest: h_exec.mono checkMinVals_weaker split: if_splits)

lemma instr_effect_elems:
  "instr_effect env opcode pushval inexec idx st = Inr st' \<Longrightarrow> elems_ok st \<Longrightarrow>
     length (es_stack st) \<le> 1000 \<Longrightarrow> length (bytes_of pushval) \<le> 520 \<Longrightarrow> elems_ok st'"
  by (auto simp: instr_effect_def elems_ok_def push_def dest: h_exec.elems [unfolded elems_ok_def] split: if_splits)

lemma instr_effect_rel:
  "same_state st st' \<Longrightarrow> rel_sum (=) same_state (instr_effect env opcode pushval inexec idx st)
     (instr_effect env opcode pushval inexec idx st')"
  using h_exec.sim [of st st'] by (auto simp: instr_effect_def same_state_iff)

lemma eval_instr_mono:
  "eval_instr env opcode pushval idx st = Inr st' \<Longrightarrow> softfork_le g (ev_flags env) \<Longrightarrow>
     eval_instr (env\<lparr>ev_flags := g\<rparr>) opcode pushval idx st = Inr st'"
  using pre_checks_mono instr_effect_mono by (fastforce simp: eval_instr_eq andThen_ok split: if_splits)

lemma eval_instr_rel:
  assumes "same_state st st'"
  shows "rel_sum (=) same_state (eval_instr env opcode pushval idx st) (eval_instr env opcode pushval idx st')"
proof -
  have "es_exestack st' = es_exestack st" using assms by (simp add: same_state_iff)
  then show ?thesis
    unfolding eval_instr_eq
    by (auto intro!: rel_andThen [OF pre_checks_rel [OF assms]] rel_andThen [OF instr_effect_rel])
       (auto simp: same_state_iff)
qed

text \<open>
  The invariant of the loop: at most 1000 elements on the two stacks, each of at most 520 bytes.
\<close>

definition stack_inv :: "estate \<Rightarrow> bool" where
  "stack_inv st \<longleftrightarrow> elems_ok st \<and> length (es_stack st) + length (es_altstack st) \<le> 1000"

lemma eval_instr_inv:
  assumes "eval_instr env opcode pushval idx st = Inr st'" "stack_inv st"
  shows "stack_inv st'"
proof -
  obtain st1 st2 where 1: "pre_checks env opcode pushval st = Inr st1"
      "instr_effect env opcode pushval (nofalse (es_exestack st)) idx st1 = Inr st2"
      "st' = st2" "length (es_stack st2) + length (es_altstack st2) \<le> 1000"
    using assms(1) by (auto simp: eval_instr_eq andThen_ok split: if_splits)
  have "elems_ok st1" "length (es_stack st1) \<le> 1000"
    using assms(2) pre_checks_state [OF 1(1)] by (auto simp: stack_inv_def elems_ok_def)
  then have "elems_ok st2" by (rule instr_effect_elems [OF 1(2) _ _ pre_checks_size [OF 1(1)]])
  with 1 show ?thesis by (simp add: stack_inv_def)
qed

text \<open>
  Induction over the loop: an invariant of the instructions is an invariant of the script.
\<close>

lemma eval_loop_end [simp]: "length (ev_p env) \<le> idx \<Longrightarrow> eval_loop env idx st = Inr st"
  by (subst eval_loop.simps) simp

lemma eval_loop_next:
  "idx < length (ev_p env) \<Longrightarrow> GetOpcode (drop idx (ev_p env)) = Inr (opcode, pushval, n) \<Longrightarrow>
   eval_loop env idx st = andThen (eval_instr env opcode pushval (idx + n) st) (\<lambda>st1.
     eval_loop env (idx + n) (st1\<lparr>es_opcode_pos := es_opcode_pos st1 + 1\<rparr>))"
  by (subst eval_loop.simps) simp

lemma eval_loop_step:
  assumes "eval_loop env idx st = Inr st'" "idx < length (ev_p env)"
  obtains opcode pushval n st1 where "GetOpcode (drop idx (ev_p env)) = Inr (opcode, pushval, n)"
    "0 < n" "eval_instr env opcode pushval (idx + n) st = Inr st1"
    "eval_loop env (idx + n) (st1\<lparr>es_opcode_pos := es_opcode_pos st1 + 1\<rparr>) = Inr st'"
proof -
  obtain r where r: "GetOpcode (drop idx (ev_p env)) = Inr r"
    using assms by (cases "GetOpcode (drop idx (ev_p env))") (simp_all add: eval_loop.simps [of env idx])
  obtain opcode pushval n where r': "r = (opcode, pushval, n)" by (cases r) auto
  show thesis
    using that [OF r [unfolded r']] GetOpcode_ok_size [OF r [unfolded r']] assms
      eval_loop_next [OF assms(2) r [unfolded r'], of st]
    by (auto simp: andThen_ok)
qed

lemma eval_loop_induct [consumes 1, case_names start step]:
  assumes "eval_loop env idx st = Inr st'" "P idx st"
    and "\<And>idx st opcode pushval n st1. P idx st \<Longrightarrow> idx < length (ev_p env) \<Longrightarrow>
       GetOpcode (drop idx (ev_p env)) = Inr (opcode, pushval, n) \<Longrightarrow>
       eval_instr env opcode pushval (idx + n) st = Inr st1 \<Longrightarrow>
       P (idx + n) (st1\<lparr>es_opcode_pos := es_opcode_pos st1 + 1\<rparr>)"
  shows "\<exists>idx'. P idx' st' \<and> length (ev_p env) \<le> idx'"
  using assms(1,2)
proof (induction "length (ev_p env) - idx" arbitrary: idx st rule: less_induct)
  case less
  show ?case
  proof (cases "idx < length (ev_p env)")
    case True
    with less.prems(1) show ?thesis
    proof (rule eval_loop_step)
      fix opcode pushval n st1
      assume 1: "GetOpcode (drop idx (ev_p env)) = Inr (opcode, pushval, n)" "0 < n"
        "eval_instr env opcode pushval (idx + n) st = Inr st1"
        "eval_loop env (idx + n) (st1\<lparr>es_opcode_pos := es_opcode_pos st1 + 1\<rparr>) = Inr st'"
      show ?thesis
        by (rule less.hyps [OF _ 1(4) assms(3) [OF less.prems(2) True 1(1,3)]]) (use True 1(2) in linarith)
    qed
  next
    case False
    then show ?thesis using less.prems by auto
  qed
qed

lemma stack_inv_pos [simp]: "stack_inv (st\<lparr>es_opcode_pos := x\<rparr>) = stack_inv st"
  by (simp add: stack_inv_def elems_ok_def)

lemma eval_loop_inv:
  assumes "eval_loop env idx st = Inr st'" "stack_inv st"
  shows "stack_inv st'"
proof -
  have "\<exists>idx'. stack_inv st' \<and> length (ev_p env) \<le> idx'"
    using assms(1) by (rule eval_loop_induct) (simp_all only: assms(2) stack_inv_pos eval_instr_inv)
  then show ?thesis by blast
qed

lemma eval_loop_mono:
  assumes "softfork_le g (ev_flags env)" "eval_loop env idx st = Inr st'"
  shows "eval_loop (env\<lparr>ev_flags := g\<rparr>) idx st = Inr st'"
  using assms(2)
proof (induction "length (ev_p env) - idx" arbitrary: idx st rule: less_induct)
  case less
  show ?case
  proof (cases "idx < length (ev_p env)")
    case True
    with less.prems show ?thesis
    proof (rule eval_loop_step)
      fix opcode pushval n st1
      assume 1: "GetOpcode (drop idx (ev_p env)) = Inr (opcode, pushval, n)" "0 < n"
        "eval_instr env opcode pushval (idx + n) st = Inr st1"
        "eval_loop env (idx + n) (st1\<lparr>es_opcode_pos := es_opcode_pos st1 + 1\<rparr>) = Inr st'"
      have "eval_loop (env\<lparr>ev_flags := g\<rparr>) (idx + n) (st1\<lparr>es_opcode_pos := es_opcode_pos st1 + 1\<rparr>) = Inr st'"
        by (rule less.hyps [OF _ 1(4)]) (use True 1(2) in linarith)
      then show ?thesis
        using eval_loop_next [of idx "env\<lparr>ev_flags := g\<rparr>" opcode pushval n st] True 1
          eval_instr_mono [OF 1(3) assms(1)] by simp
    qed
  next
    case False
    then show ?thesis using less.prems by simp
  qed
qed

lemma eval_loop_rel:
  "same_state st st' \<Longrightarrow> rel_sum (=) same_state (eval_loop env idx st) (eval_loop env idx st')"
proof (induction "length (ev_p env) - idx" arbitrary: idx st st' rule: less_induct)
  case less
  show ?case
  proof (cases "idx < length (ev_p env)")
    case True
    show ?thesis
    proof (cases "GetOpcode (drop idx (ev_p env))")
      case (Inr r)
      obtain opcode pushval n where r: "r = (opcode, pushval, n)" by (cases r) auto
      have n: "0 < n" using GetOpcode_ok_size [OF Inr [unfolded r]] by simp
      show ?thesis
        unfolding eval_loop_next [OF True Inr [unfolded r]]
      proof (rule rel_andThen [OF eval_instr_rel [OF less.prems]])
        fix s s' assume "same_state s s'"
        then have "same_state (s\<lparr>es_opcode_pos := es_opcode_pos s + 1\<rparr>) (s'\<lparr>es_opcode_pos := es_opcode_pos s' + 1\<rparr>)"
          by (simp add: same_state_iff)
        then show "rel_sum (=) same_state
            (eval_loop env (idx + n) (s\<lparr>es_opcode_pos := es_opcode_pos s + 1\<rparr>))
            (eval_loop env (idx + n) (s'\<lparr>es_opcode_pos := es_opcode_pos s' + 1\<rparr>))"
          by (rule less.hyps [rotated]) (use True n in linarith)
      qed
    qed (simp add: eval_loop.simps [of env idx] True)
  qed (simp add: less.prems)
qed

section \<open>\<open>evalScript\<close>\<close>

lemma evalScript_mono:
  assumes "evalScript ec p s c f sv ed = Inr r" "softfork_le g f"
  shows "evalScript ec p s c g sv ed = Inr r"
proof -
  let ?env = "\<lparr>ev_p = p, ev_inp = sc_Idx c, ev_amount = sc_Amount c, ev_flags = f,
     ev_sigversion = sv, ev_ec = ec\<rparr>"
  have "eval_loop ?env 0 (eval_init s (sc_Tx c) ed) = Inr st' \<Longrightarrow>
      eval_loop (?env\<lparr>ev_flags := g\<rparr>) 0 (eval_init s (sc_Tx c) ed) = Inr st'" for st'
    by (rule eval_loop_mono) (simp add: assms(2))
  then show ?thesis using assms(1) by (auto simp: evalScript_def andThen_ok split: if_splits)
qed

lemma evalScript_inv:
  assumes "evalScript ec p s c f sv ed = Inr (s', ed', t')" "elems s" "length s \<le> 1000"
  shows "elems s' \<and> length s' \<le> 1000"
proof -
  obtain st' where 1: "eval_loop \<lparr>ev_p = p, ev_inp = sc_Idx c, ev_amount = sc_Amount c, ev_flags = f,
      ev_sigversion = sv, ev_ec = ec\<rparr> 0 (eval_init s (sc_Tx c) ed) = Inr st'" "s' = es_stack st'"
    using assms(1) by (auto simp: evalScript_def andThen_ok split: if_splits)
  have "stack_inv (eval_init s (sc_Tx c) ed)"
    using assms(2,3) by (simp add: stack_inv_def elems_ok_def eval_init_def)
  from eval_loop_inv [OF 1(1) this] show ?thesis using 1(2) by (simp add: stack_inv_def elems_ok_def)
qed

lemma evalScript_rel:
  assumes "same_checker c d"
  shows "rel_sum (=) (rel_prod (=) (rel_prod (=) same_tx)) (evalScript ec p s c f sv ed) (evalScript ec p s d f sv ed)"
proof -
  have eq: "sc_Idx d = sc_Idx c" "sc_Amount d = sc_Amount c" and t: "same_tx (sc_Tx c) (sc_Tx d)"
    using assms by (auto simp: same_checker_def)
  have "same_state (eval_init s (sc_Tx c) ed) (eval_init s (sc_Tx d) ed)"
    using t by (simp add: same_state_iff eval_init_def)
  then show ?thesis
    unfolding evalScript_def eq
    by (auto intro!: rel_andThen [OF eval_loop_rel] simp: same_state_iff)
qed

end
