(* ===== verification/VerifyProps.thy ===== *)
theory VerifyProps
  imports Verify InterpProps
begin

text \<open>
  What holds of \<open>VerifyTxScript\<close> (\<open>lib/script/script.go\<close>, \<open>lib/script/witness.go\<close>) as a whole: with fewer
  flags it accepts more, and the hash caches of the transaction are not visible in its result. Each step
  of it is treated by a lemma of its own, over those of \<open>InterpProps\<close>.
\<close>

section \<open>Fewer flags accept more\<close>

definition sane_flags :: "u32 \<Rightarrow> bool" where
  "sane_flags f \<longleftrightarrow> (flag_on f VER_CLEANSTACK \<or> flag_on f VER_WITNESS \<longrightarrow> flag_on f VER_P2SH)"

definition softfork_flags :: "u32 \<Rightarrow> u32 \<Rightarrow> bool" where
  "softfork_flags g f \<longleftrightarrow>
     softfork_le g f \<and> sane_flags g \<and>
     (flag_on g VER_CLEANSTACK \<and> flag_on f VER_WITNESS \<longrightarrow> flag_on g VER_WITNESS)"

lemma scan_op_success_Nil [simp]: "scan_op_success f [] = None"
  by (simp add: scan_op_success.simps)

lemma scan_op_success_mono:
  "softfork_le g f \<Longrightarrow>
     (scan_op_success f scr = None \<longrightarrow> scan_op_success g scr = None) \<and>
     (scan_op_success f scr = Some True \<longrightarrow> scan_op_success g scr = Some True)"
proof (induction f scr rule: scan_op_success.induct)
  case (1 flags scr)
  show ?case
  proof (cases "scr = []")
    case False
    show ?thesis
    proof (cases "GetOpcode scr")
      case (Inr r)
      obtain op d n where r: "r = (op, d, n)" by (cases r) auto
      have IH: "\<not> IsOpSuccess op \<Longrightarrow>
         (scan_op_success flags (drop n scr) = None \<longrightarrow> scan_op_success g (drop n scr) = None) \<and>
         (scan_op_success flags (drop n scr) = Some True \<longrightarrow> scan_op_success g (drop n scr) = Some True)"
        by (rule "1.IH" [OF False Inr]) (simp_all add: r "1.prems")
      show ?thesis
        using IH softfork_on [OF "1.prems", of VER_DIS_SUCCESS] False Inr r
        by (auto simp: scan_op_success.simps [of _ scr])
    qed (simp add: scan_op_success.simps [of _ scr] False)
  qed simp
qed

lemma ExecuteWitnessScript_mono:
  assumes "ExecuteWitnessScript ec c s scr f sv ed = Inr True" "softfork_le g f"
  shows "ExecuteWitnessScript ec c s scr g sv ed = Inr True"
proof -
  have e: "evalScript ec scr s c f sv ed = Inr r \<Longrightarrow> evalScript ec scr s c g sv ed = Inr r" for r
    by (rule evalScript_mono [OF _ assms(2)])
  show ?thesis
    using assms(1) scan_op_success_mono [OF assms(2), of scr] e
    by (auto simp: ExecuteWitnessScript_def Let_def split: if_splits sum.splits option.splits prod.splits)
qed

lemma verify_v0_mono:
  "verify_v0 ec c w prog f = Inr True \<Longrightarrow> softfork_le g f \<Longrightarrow> verify_v0 ec c w prog g = Inr True"
  by (auto simp: verify_v0_def ok_iff dest: ExecuteWitnessScript_mono split: if_splits)

lemma verify_taproot_script_mono:
  "verify_taproot_script ec c w s prog f ed = Inr True \<Longrightarrow> softfork_le g f \<Longrightarrow>
     verify_taproot_script ec c w s prog g ed = Inr True"
  by (auto simp: verify_taproot_script_def andThen_ok dest: ExecuteWitnessScript_mono softfork_on split: if_splits)

lemma verify_taproot_mono:
  "verify_taproot ec c w prog f = Inr True \<Longrightarrow> softfork_le g f \<Longrightarrow> verify_taproot ec c w prog g = Inr True"
  by (auto simp: verify_taproot_def Let_def dest: verify_taproot_script_mono softfork_on split: if_splits prod.splits)

lemma VerifyWitnessProgram_mono:
  "VerifyWitnessProgram ec c w v prog f p = Inr True \<Longrightarrow> softfork_le g f \<Longrightarrow>
     VerifyWitnessProgram ec c w v prog g p = Inr True"
  by (auto simp: VerifyWitnessProgram_def dest: verify_v0_mono verify_taproot_mono softfork_on split: if_splits)

lemma run_base_mono:
  "run_base ec c f p r = Some r' \<Longrightarrow> softfork_le g f \<Longrightarrow> run_base ec c g p r = Some r'"
  by (auto simp: run_base_def dest: evalScript_mono split: prod.splits sum.splits)

lemma bare_witness_mono:
  assumes "bare_witness ec c f sg pk s = Inr (Some r)" "softfork_le g f" "flag_on g VER_WITNESS \<longleftrightarrow> flag_on f VER_WITNESS"
  shows "bare_witness ec c g sg pk s = Inr (Some r)"
proof (cases "IsWitnessProgram pk")
  case (Pair v prog)
  with assms(1) VerifyWitnessProgram_mono [OF _ assms(2)] assms(3) show ?thesis
    by (cases prog) (auto simp: bare_witness_def andThen_ok split: if_splits)
qed

lemma p2sh_witness_mono:
  assumes "p2sh_witness ec c f sg pk2 s w h = Inr (Some r)" "softfork_le g f" "flag_on g VER_WITNESS \<longleftrightarrow> flag_on f VER_WITNESS"
  shows "p2sh_witness ec c g sg pk2 s w h = Inr (Some r)"
proof (cases "IsWitnessProgram pk2")
  case (Pair v prog)
  with assms(1) VerifyWitnessProgram_mono [OF _ assms(2)] assms(3) show ?thesis
    by (cases prog) (auto simp: p2sh_witness_def andThen_ok split: if_splits)
qed

text \<open>The pay-to-script-hash stage, when it applies and succeeds.\<close>

lemma verify_p2sh_run:
  assumes "flag_on f VER_P2SH" "IsPayToScript pk"
  shows "verify_p2sh ec c f sg pk sc ed s w h = Inr (Some r) \<longleftrightarrow>
    IsPushOnly sg \<and> (\<exists>pubKey2 s1. sc = pubKey2 # s1 \<and>
      (\<exists>s2 ed2 t. run_base ec c f pubKey2 (s1, ed, sc_Tx c) = Some (s2, ed2, t) \<and> result_true s2 \<and>
        p2sh_witness ec (c\<lparr>sc_Tx := t\<rparr>) f sg pubKey2 s2 w h = Inr (Some r)))"
proof (cases sc)
  case (Cons k s1)
  have on: "\<not> \<not> (flag_on f VER_P2SH \<and> IsPayToScript pk)" using assms by simp
  show ?thesis
  proof (cases "run_base ec c f k (s1, ed, sc_Tx c)")
    case None
    then show ?thesis by (simp only: verify_p2sh_def if_not_P [OF on] Cons) simp
  next
    case (Some r2)
    obtain s2 ed2 t where "r2 = (s2, ed2, t)" by (cases r2) auto
    with Some have "verify_p2sh ec c f sg pk sc ed s w h =
      (if \<not> IsPushOnly sg then Inr None else if \<not> result_true s2 then Inr None
       else p2sh_witness ec (c\<lparr>sc_Tx := t\<rparr>) f sg k s2 w h)"
      by (simp only: verify_p2sh_def if_not_P [OF on] Cons) simp
    with Cons Some \<open>r2 = _\<close> show ?thesis by simp
  qed
next
  case Nil
  have on: "\<not> \<not> (flag_on f VER_P2SH \<and> IsPayToScript pk)" using assms by simp
  show ?thesis by (simp only: verify_p2sh_def if_not_P [OF on] Nil) simp
qed

lemma verify_p2sh_skip:
  "\<not> (flag_on f VER_P2SH \<and> IsPayToScript pk) \<Longrightarrow> verify_p2sh ec c f sg pk sc ed s w h = Inr (Some (s, h))"
  by (simp add: verify_p2sh_def)

lemma verify_p2sh_mono:
  assumes "verify_p2sh ec c f sg pk sc ed s w h = Inr (Some r)" "softfork_le g f"
    "flag_on g VER_WITNESS \<longleftrightarrow> flag_on f VER_WITNESS" "flag_on g VER_P2SH \<longleftrightarrow> flag_on f VER_P2SH"
  shows "verify_p2sh ec c g sg pk sc ed s w h = Inr (Some r)"
proof (cases "flag_on f VER_P2SH \<and> IsPayToScript pk")
  case True
  then have g: "flag_on g VER_P2SH" "IsPayToScript pk" using assms(4) by auto
  from assms(1) True obtain k s1 s2 ed2 t where "IsPushOnly sg" "sc = k # s1" "result_true s2"
      "run_base ec c f k (s1, ed, sc_Tx c) = Some (s2, ed2, t)"
      "p2sh_witness ec (c\<lparr>sc_Tx := t\<rparr>) f sg k s2 w h = Inr (Some r)"
    by (auto simp: verify_p2sh_run)
  with run_base_mono [OF _ assms(2)] p2sh_witness_mono [OF _ assms(2,3)] show ?thesis
    unfolding verify_p2sh_run [OF g] by metis
next
  case False
  then show ?thesis using assms(1,4) by (simp add: verify_p2sh_skip)
qed

lemma verify_end_mono:
  "verify_end f s w h = Inr True \<Longrightarrow> softfork_le g f \<Longrightarrow> sane_flags g \<Longrightarrow> verify_end g s w h = Inr True"
  by (auto simp: verify_end_def sane_flags_def dest: softfork_on split: if_splits)

text \<open>What a successful verification went through.\<close>

lemma verify_scripts_true:
  "verify_scripts ec c f sg pk = Inr True \<longleftrightarrow>
    (\<exists>s1 ed1 t1 s2 ed2 t2 s w h s' h'.
       run_base ec c f sg ([], zero_execdata, sc_Tx c) = Some (s1, ed1, t1) \<and>
       run_base ec c f pk (s1, ed1, t1) = Some (s2, ed2, t2) \<and> result_true s2 \<and>
       bare_witness ec (c\<lparr>sc_Tx := t2\<rparr>) f sg pk s2 = Inr (Some (s, w, h)) \<and>
       verify_p2sh ec (c\<lparr>sc_Tx := t2\<rparr>) f sg pk (if flag_on f VER_P2SH \<and> length s1 > 0 then s1 else []) ed2 s w h
         = Inr (Some (s', h')) \<and>
       verify_end f s' w h' = Inr True)"
  (is "?L \<longleftrightarrow> ?R")
proof
  assume L: ?L
  then obtain s1 ed1 t1 where 1: "run_base ec c f sg ([], zero_execdata, sc_Tx c) = Some (s1, ed1, t1)"
    by (auto simp: verify_scripts_def verify_output_def fst_conv split: option.splits)
  with L obtain s2 ed2 t2 where 2: "run_base ec c f pk (s1, ed1, t1) = Some (s2, ed2, t2)" "result_true s2"
    by (auto simp: verify_scripts_def verify_output_def fst_conv Let_def split: option.splits if_splits)
  from L 1 2 obtain s w h where 3: "bare_witness ec (c\<lparr>sc_Tx := t2\<rparr>) f sg pk s2 = Inr (Some (s, w, h))"
    by (auto simp: verify_scripts_def verify_output_def fst_conv Let_def andThen_ok split: option.splits)
  from L 1 2 3 obtain s' h' where
      4: "verify_p2sh ec (c\<lparr>sc_Tx := t2\<rparr>) f sg pk (if flag_on f VER_P2SH \<and> length s1 > 0 then s1 else []) ed2 s w h
         = Inr (Some (s', h'))" "verify_end f s' w h' = Inr True"
    by (simp only: verify_scripts_def verify_output_def fst_conv Let_def option.case prod.case andThen_simps not_True_eq_False if_False)
       (auto simp: andThen_ok split: option.splits)
  from 1 2 3 4 show ?R by blast
next
  assume ?R
  then show ?L by (elim exE conjE) (simp add: verify_scripts_def verify_output_def Let_def split: if_splits)
qed

lemma VerifyTxScript_softfork:
  assumes "VerifyTxScript ec None pk c f = Inr True" "softfork_flags g f"
  shows "VerifyTxScript ec None pk c g = Inr True"
proof -
  have le: "softfork_le g f" and sane: "sane_flags g"
    and clean: "flag_on g VER_CLEANSTACK \<Longrightarrow> flag_on f VER_WITNESS \<Longrightarrow> flag_on g VER_WITNESS"
    using assms(2) by (auto simp: softfork_flags_def)
  obtain x where x: "get_txin (sc_Tx c) (sc_Idx c) = Inr x"
    using assms(1) by (cases "get_txin (sc_Tx c) (sc_Idx c)") (simp_all add: VerifyTxScript_def)
  let ?sg = "ti_ScriptSig x"
  have po: "\<not> (flag_on f VER_SIGPUSHONLY \<and> \<not> IsPushOnly ?sg)" and v: "verify_scripts ec c f ?sg pk = Inr True"
    using assms(1) by (auto simp: VerifyTxScript_def x Let_def split: if_splits)
  from v obtain s1 ed1 t1 s2 ed2 t2 s w h s' h' where
    1: "run_base ec c f ?sg ([], zero_execdata, sc_Tx c) = Some (s1, ed1, t1)"
       "run_base ec c f pk (s1, ed1, t1) = Some (s2, ed2, t2)"
    and 2: "result_true s2"
    and b: "bare_witness ec (c\<lparr>sc_Tx := t2\<rparr>) f ?sg pk s2 = Inr (Some (s, w, h))"
    and p: "verify_p2sh ec (c\<lparr>sc_Tx := t2\<rparr>) f ?sg pk (if flag_on f VER_P2SH \<and> length s1 > 0 then s1 else []) ed2 s w h
         = Inr (Some (s', h'))"
    and e: "verify_end f s' w h' = Inr True"
    unfolding verify_scripts_true by blast
  note 1 = 1 [THEN run_base_mono [OF _ le]]
  have "verify_scripts ec c g ?sg pk = Inr True"
  proof (cases "flag_on g VER_WITNESS \<longleftrightarrow> flag_on f VER_WITNESS")
    case same: True
    note b' = bare_witness_mono [OF b le same]
    show ?thesis
    proof (cases "flag_on g VER_P2SH")
      case True
      then have p2: "flag_on g VER_P2SH \<longleftrightarrow> flag_on f VER_P2SH" using softfork_on [OF le] by blast
      have "verify_p2sh ec (c\<lparr>sc_Tx := t2\<rparr>) g ?sg pk (if flag_on g VER_P2SH \<and> length s1 > 0 then s1 else []) ed2 s w h
         = Inr (Some (s', h'))"
        using verify_p2sh_mono [OF p le same p2] p2 by simp
      with 1 2 b' verify_end_mono [OF e le sane] show ?thesis unfolding verify_scripts_true by blast
    next
      case False
      then have "verify_p2sh ec (c\<lparr>sc_Tx := t2\<rparr>) g ?sg pk (if flag_on g VER_P2SH \<and> length s1 > 0 then s1 else []) ed2 s w h
         = Inr (Some (s, h))" by (simp add: verify_p2sh_skip)
      moreover have "verify_end g s w h = Inr True"
        using False sane by (auto simp: verify_end_def sane_flags_def)
      ultimately show ?thesis using 1 2 b' unfolding verify_scripts_true by blast
    qed
  next
    case False
    then have off: "\<not> flag_on g VER_WITNESS" "flag_on f VER_WITNESS" using softfork_on [OF le] by auto
    then have b': "bare_witness ec (c\<lparr>sc_Tx := t2\<rparr>) g ?sg pk s2 = Inr (Some (s2, [], False))"
      by (simp add: bare_witness_def)
    have e': "verify_end g s'' [] False = Inr True" for s''
      using off clean by (auto simp: verify_end_def)
    have "\<exists>s''. verify_p2sh ec (c\<lparr>sc_Tx := t2\<rparr>) g ?sg pk (if flag_on g VER_P2SH \<and> length s1 > 0 then s1 else []) ed2 s2 [] False
         = Inr (Some (s'', False))"
    proof (cases "flag_on g VER_P2SH \<and> IsPayToScript pk")
      case True
      then have "flag_on f VER_P2SH" using softfork_on [OF le] by blast
      with p True obtain k r sa eda t where "IsPushOnly ?sg" "s1 = k # r"
          "run_base ec (c\<lparr>sc_Tx := t2\<rparr>) f k (r, ed2, t2) = Some (sa, eda, t)" "result_true sa"
        by (auto simp: verify_p2sh_run split: if_splits)
      with True off run_base_mono [OF _ le] show ?thesis
        by (auto simp: verify_p2sh_run p2sh_witness_def)
    qed (simp add: verify_p2sh_skip)
    with 1 2 b' e' show ?thesis unfolding verify_scripts_true by blast
  qed
  moreover have "\<not> (flag_on g VER_SIGPUSHONLY \<and> \<not> IsPushOnly ?sg)" using po softfork_on [OF le] by blast
  ultimately show ?thesis by (simp add: VerifyTxScript_def x Let_def)
qed

section \<open>The caches do not show\<close>

lemma ExecuteWitnessScript_same:
  assumes "same_checker c d"
  shows "ExecuteWitnessScript ec c s scr f sv ed = ExecuteWitnessScript ec d s scr f sv ed"
proof -
  have "rel_sum (=) (rel_prod (=) (rel_prod (=) same_tx)) (evalScript ec scr s c f sv ed) (evalScript ec scr s d f sv ed)"
    by (rule evalScript_rel [OF assms])
  then have "(case evalScript ec scr s c f sv ed of
                Inl _ \<Rightarrow> Inr False
              | Inr (s, _, _) \<Rightarrow> if length s \<noteq> 1 then Inr False else topBool 1 s) =
             (case evalScript ec scr s d f sv ed of
                Inl _ \<Rightarrow> Inr False
              | Inr (s, _, _) \<Rightarrow> if length s \<noteq> 1 then Inr False else topBool 1 s)"
    by (auto elim!: rel_sum.cases)
  then show ?thesis by (simp only: ExecuteWitnessScript_def Let_def)
qed

lemma verify_v0_same: "same_checker c d \<Longrightarrow> verify_v0 ec c w prog f = verify_v0 ec d w prog f"
  unfolding verify_v0_def by (simp only: ExecuteWitnessScript_same [of c d] cong: prod.case_cong)

lemma verify_taproot_script_same:
  "same_checker c d \<Longrightarrow> verify_taproot_script ec c w s prog f ed = verify_taproot_script ec d w s prog f ed"
  unfolding verify_taproot_script_def by (simp only: ExecuteWitnessScript_same [of c d] cong: prod.case_cong)

lemma verify_taproot_same:
  assumes "same_checker c d"
  shows "verify_taproot ec c w prog f = verify_taproot ec d w prog f"
proof -
  have "andThen (CheckSchnorrSignature ec c sig prog SIGVERSION_TAPROOT ed) (\<lambda>(v, _). Inr v) =
        andThen (CheckSchnorrSignature ec d sig prog SIGVERSION_TAPROOT ed) (\<lambda>(v, _). Inr v)" for sig ed
    using CheckSchnorrSignature_rel [OF assms, of ec sig prog SIGVERSION_TAPROOT ed]
    by (auto elim!: rel_sum.cases)
  then show ?thesis
    by (simp only: verify_taproot_def verify_taproot_script_same [OF assms])
qed

lemma VerifyWitnessProgram_same:
  "same_checker c d \<Longrightarrow> VerifyWitnessProgram ec c w v prog f p = VerifyWitnessProgram ec d w v prog f p"
  by (simp only: VerifyWitnessProgram_def verify_v0_same [of c d] verify_taproot_same [of c d])

lemma run_base_rel:
  assumes "same_checker c d" "same_tx t u"
  shows "rel_option (rel_prod (=) (rel_prod (=) same_tx)) (run_base ec c f p (s, ed, t)) (run_base ec d f p (s, ed, u))"
proof -
  have "same_checker (c\<lparr>sc_Tx := t\<rparr>) (d\<lparr>sc_Tx := u\<rparr>)" using assms by (simp add: same_checker_def)
  from evalScript_rel [OF this, of ec p s f SIGVERSION_BASE ed] show ?thesis
    by (auto simp: run_base_def elim!: rel_sum.cases)
qed

lemma bare_witness_same:
  assumes "same_checker c d"
  shows "bare_witness ec c f sg pk s = bare_witness ec d f sg pk s"
proof -
  have "sc_Idx c = sc_Idx d" "witness_stack (sc_Tx c) = witness_stack (sc_Tx d)"
    using assms same_tx_parts(12) [of "sc_Tx c" "sc_Tx d"]
    by (auto simp: same_checker_def witness_stack_def fun_eq_iff)
  then show ?thesis by (simp only: bare_witness_def VerifyWitnessProgram_same [OF assms])
qed

lemma p2sh_witness_same:
  "same_checker c d \<Longrightarrow> p2sh_witness ec c f sg pk2 s w h = p2sh_witness ec d f sg pk2 s w h"
  by (simp only: p2sh_witness_def VerifyWitnessProgram_same [of c d])

lemma verify_p2sh_same:
  assumes "same_checker c d"
  shows "verify_p2sh ec c f sg pk sc ed s w h = verify_p2sh ec d f sg pk sc ed s w h"
proof -
  have t: "same_tx (sc_Tx c) (sc_Tx d)" using assms by (simp add: same_checker_def)
  have "(case run_base ec c f k (s, ed, sc_Tx c) of
          None \<Rightarrow> Inr None
        | Some (s, _, t) \<Rightarrow>
            if \<not> result_true s then Inr None
            else p2sh_witness ec (c\<lparr>sc_Tx := t\<rparr>) f sg k s w h) =
        (case run_base ec d f k (s, ed, sc_Tx d) of
          None \<Rightarrow> Inr None
        | Some (s, _, t) \<Rightarrow>
            if \<not> result_true s then Inr None
            else p2sh_witness ec (d\<lparr>sc_Tx := t\<rparr>) f sg k s w h)" for k s
  proof -
    have sc: "same_tx t u \<Longrightarrow> same_checker (c\<lparr>sc_Tx := t\<rparr>) (d\<lparr>sc_Tx := u\<rparr>)" for t u
      using assms by (simp add: same_checker_def)
    show ?thesis
      using run_base_rel [OF assms t, of ec f k s ed]
      by (auto elim!: option.rel_cases simp: p2sh_witness_same [OF sc])
  qed
  then show ?thesis by (simp only: verify_p2sh_def)
qed

lemma verify_scripts_same:
  assumes "same_checker c d"
  shows "verify_scripts ec c f sg pk = verify_scripts ec d f sg pk"
proof -
  have t: "same_tx (sc_Tx c) (sc_Tx d)" using assms by (simp add: same_checker_def)
  have sc: "same_tx t u \<Longrightarrow> same_checker (c\<lparr>sc_Tx := t\<rparr>) (d\<lparr>sc_Tx := u\<rparr>)" for t u
    using assms by (simp add: same_checker_def)
  have inner: "verify_output ec c f sg pk (s1, ed1, t) = verify_output ec d f sg pk (s1, ed1, u)"
    if "same_tx t u" for s1 ed1 t u
    using run_base_rel [OF assms that, of ec f pk s1 ed1]
    by (auto elim!: option.rel_cases simp: verify_output_def bare_witness_same [OF sc] verify_p2sh_same [OF sc] Let_def)
  show ?thesis
    using run_base_rel [OF assms t, of ec f sg "[]" zero_execdata]
    by (auto elim!: option.rel_cases simp: verify_scripts_def inner)
qed

lemma VerifyTxScript_cache:
  assumes "caches_ok (sc_Tx c)"
  shows "VerifyTxScript ec None pk c f = VerifyTxScript ec None pk (c\<lparr>sc_Tx := no_caches (sc_Tx c)\<rparr>) f"
proof -
  have "same_checker c (c\<lparr>sc_Tx := no_caches (sc_Tx c)\<rparr>)"
    using same_tx_no_caches [OF assms] by (simp add: same_checker_def)
  note s = verify_scripts_same [OF this]
  have g: "get_txin (no_caches t) = get_txin t" for t by (simp add: get_txin_def fun_eq_iff)
  show ?thesis unfolding VerifyTxScript_def Let_def s by (simp add: g)
qed

end
