(* ===== verification/ScriptLaws.thy ===== *)
theory ScriptLaws
  imports VerifyProps
begin

text \<open>
  What a successful run of \<open>evalScript\<close> (lib/script/script.go) says about its script: it parses to the end,
  its pushes and its opcode count are within the limits, and no disabled opcode occurs, executed or
  not. An instruction in a branch that is not taken leaves the stacks alone.
\<close>

section \<open>What a successful run says about the script\<close>

text \<open>The instructions that count towards the limit of 201.\<close>

definition counted :: "nat \<times> bytes option \<times> bytes \<Rightarrow> bool" where
  "counted i \<longleftrightarrow> fst i > 0x60"

definition instr_allowed :: "nat \<times> bytes option \<times> bytes \<Rightarrow> bool" where
  "instr_allowed i \<longleftrightarrow>
     fst i \<notin> set disabled_opcodes \<and> length (bytes_of (fst (snd i))) \<le> MAX_SCRIPT_ELEMENT_SIZE"

definition count_limited :: "sigversion \<Rightarrow> bool" where
  "count_limited sv \<longleftrightarrow> sv = SIGVERSION_BASE \<or> sv = SIGVERSION_WITNESS_V0"

lemma script_ops_next:
  "scr \<noteq> [] \<Longrightarrow> GetOpcode scr = Inr (op, d, n) \<Longrightarrow>
     script_ops scr = ((op, d, take n scr) # fst (script_ops (drop n scr)), snd (script_ops (drop n scr)))"
  by (subst script_ops.simps) (simp add: case_prod_beta Let_def)

lemma pre_checks_count:
  assumes "pre_checks env opcode pushval st = Inr st'"
  shows "opcode \<notin> set disabled_opcodes" "length (bytes_of pushval) \<le> 520"
    "count_limited (ev_sigversion env) \<Longrightarrow>
       es_opcnt st' = (if opcode > 0x60 then es_opcnt st + 1 else es_opcnt st) \<and>
       (opcode > 0x60 \<longrightarrow> es_opcnt st' \<le> 201)"
  using assms pre_checks_size [OF assms]
  by (auto simp: pre_checks_def Let_def count_limited_def split: if_splits)

text \<open>A fact about every successful outcome, case by case through the dispatch.\<close>

definition after :: "('e + 'a) \<Rightarrow> ('a \<Rightarrow> bool) \<Rightarrow> bool" where
  "after m R \<longleftrightarrow> (\<forall>x. m = Inr x \<longrightarrow> R x)"

lemma after_if: "after m R \<Longrightarrow> after m' R \<Longrightarrow> after (if c then m else m') R"
  by simp

lemma after_Inl [simp]: "after (Inl e) R"
  by (simp add: after_def)

lemma after_Inr [simp]: "after (Inr x) R = R x"
  by (simp add: after_def)

definition opcnt_grows :: "estate \<Rightarrow> estate \<Rightarrow> bool" where
  "opcnt_grows st st' \<longleftrightarrow> es_opcnt st \<le> es_opcnt st' \<and> (es_opcnt st \<le> 201 \<longrightarrow> es_opcnt st' \<le> 201)"

lemma opcnt_on_stack: "after (on_stack f st) (opcnt_grows st)"
  by (auto simp: after_def opcnt_grows_def on_stack_def andThen_ok)

lemma opcnt_flow:
  "after (op_if env opcode inexec st) (opcnt_grows st)"
  "after (op_else st) (opcnt_grows st)" "after (op_endif st) (opcnt_grows st)"
  "after (op_toaltstack st) (opcnt_grows st)" "after (op_fromaltstack st) (opcnt_grows st)"
  "after (op_codeseparator idx st) (opcnt_grows st)"
  by (auto simp: after_def opcnt_grows_def op_if_def op_else_def op_endif_def op_toaltstack_def
      op_fromaltstack_def op_codeseparator_def andThen_ok split: if_splits)

lemma run_checksig_opcnt: "run_checksig env sig pk st = Inr (b, st') \<Longrightarrow> es_opcnt st' = es_opcnt st"
  by (auto simp: run_checksig_def ok_iff split: if_splits)

lemma opcnt_checksig:
  "after (op_checksig env opcode st) (opcnt_grows st)" "after (op_checksigadd env st) (opcnt_grows st)"
  by (auto simp: after_def opcnt_grows_def op_checksig_def op_checksigadd_def andThen_ok
      dest!: run_checksig_opcnt split: if_splits)

lemma opcnt_locktime:
  "after (op_checklocktimeverify env st) (opcnt_grows st)"
  "after (op_checksequenceverify env st) (opcnt_grows st)"
  by (auto simp: after_def opcnt_grows_def op_checklocktimeverify_def op_checksequenceverify_def andThen_ok Let_def
      split: if_splits)

lemma opcnt_checkmultisig: "after (op_checkmultisig env opcode st) (opcnt_grows st)"
proof -
  have "opcnt_grows st st'" if "op_checkmultisig env opcode st = Inr st'" for st'
  proof -
    from that obtain keyscnt sigscnt isig i st1 s t success
      where c: "ms_counts env st = Inr (keyscnt, sigscnt, isig, i, st1)"
        and r: "(if opcode = 0xaf then success \<and> st' = st1\<lparr>es_tx := t, es_stack := s\<rparr>
          else st' = st1\<lparr>es_tx := t, es_stack := pushBool success s\<rparr>)"
      unfolding op_checkmultisig_ok by blast
    show ?thesis using r ms_counts_state [OF c] by (auto simp: opcnt_grows_def split: if_splits)
  qed
  then show ?thesis by (simp add: after_def)
qed

lemmas opcnt_grows_handlers =
  opcnt_on_stack opcnt_flow opcnt_checksig opcnt_locktime opcnt_checkmultisig

lemma exec_op_opcnt: "after (exec_op env opcode inexec idx st) (opcnt_grows st)"
proof -
  have i: "after (Inr st :: script_error + estate) (opcnt_grows st)"
      "\<And>x. after (Inr (st\<lparr>es_stack := x\<rparr>) :: script_error + estate) (opcnt_grows st)"
    by (simp_all add: opcnt_grows_def)
  show ?thesis unfolding exec_op_def Let_def by (intro after_if opcnt_grows_handlers i after_Inl)
qed

lemma instr_effect_opcnt: "after (instr_effect env opcode pushval inexec idx st) (opcnt_grows st)"
  unfolding instr_effect_def by (intro after_if exec_op_opcnt) (simp_all add: opcnt_grows_def)

lemma eval_loop_script:
  assumes "eval_loop env idx st = Inr st'" "count_limited (ev_sigversion env) \<Longrightarrow> es_opcnt st \<le> 201"
  shows "snd (script_ops (drop idx (ev_p env))) \<and>
     list_all instr_allowed (fst (script_ops (drop idx (ev_p env)))) \<and>
     (count_limited (ev_sigversion env) \<longrightarrow>
        es_opcnt st + length (filter counted (fst (script_ops (drop idx (ev_p env))))) \<le> es_opcnt st' \<and>
        es_opcnt st' \<le> 201)"
  using assms
proof (induction "length (ev_p env) - idx" arbitrary: idx st rule: less_induct)
  case less
  show ?case
  proof (cases "idx < length (ev_p env)")
    case True
    with less.prems(1) show ?thesis
    proof (rule eval_loop_step)
      fix opcode pushval n st1
      assume 1: "GetOpcode (drop idx (ev_p env)) = Inr (opcode, pushval, n)" "0 < n"
        "eval_instr env opcode pushval (idx + n) st = Inr st1"
        and rest: "eval_loop env (idx + n) (st1\<lparr>es_opcode_pos := es_opcode_pos st1 + 1\<rparr>) = Inr st'"
      obtain sta where pre: "pre_checks env opcode pushval st = Inr sta"
        and eff: "instr_effect env opcode pushval (nofalse (es_exestack st)) (idx + n) sta = Inr st1"
        using 1(3) by (auto simp: eval_instr_eq andThen_ok split: if_splits)
      have g: "opcnt_grows sta st1" using instr_effect_opcnt eff by (metis after_def)
      note c = pre_checks_count [OF pre]
      have lim: "es_opcnt st1 \<le> 201 \<and> es_opcnt st + (if opcode > 0x60 then 1 else 0) \<le> es_opcnt st1"
        if "count_limited (ev_sigversion env)"
        using c(3) [OF that] g less.prems(2) [OF that] by (auto simp: opcnt_grows_def split: if_splits)
      have IH: "snd (script_ops (drop (idx + n) (ev_p env))) \<and>
         list_all instr_allowed (fst (script_ops (drop (idx + n) (ev_p env)))) \<and>
         (count_limited (ev_sigversion env) \<longrightarrow>
            es_opcnt st1 + length (filter counted (fst (script_ops (drop (idx + n) (ev_p env))))) \<le> es_opcnt st' \<and>
            es_opcnt st' \<le> 201)"
        using less.hyps [OF _ rest] True 1(2) lim by simp
      have ops: "script_ops (drop idx (ev_p env)) =
        ((opcode, pushval, take n (drop idx (ev_p env))) # fst (script_ops (drop (idx + n) (ev_p env))),
          snd (script_ops (drop (idx + n) (ev_p env))))"
        using script_ops_next [OF _ 1(1)] True by (simp add: add.commute)
      have "instr_allowed (opcode, pushval, take n (drop idx (ev_p env)))"
        using c(1,2) by (simp add: instr_allowed_def)
      moreover have "length (filter counted ((opcode, pushval, take n (drop idx (ev_p env))) # xs)) =
          (if opcode > 0x60 then 1 else 0) + length (filter counted xs)" for xs
        by (simp add: counted_def)
      ultimately show ?thesis
        unfolding ops fst_conv snd_conv using IH lim by auto
    qed
  next
    case False
    then show ?thesis using less.prems by simp
  qed
qed

lemma evalScript_wellformed:
  assumes "evalScript ec p s c f sv ed = Inr r"
  shows "snd (script_ops p) \<and> list_all instr_allowed (fst (script_ops p)) \<and>
    (count_limited sv \<longrightarrow> length p \<le> MAX_SCRIPT_SIZE \<and> length (filter counted (fst (script_ops p))) \<le> 201)"
proof -
  let ?env = "\<lparr>ev_p = p, ev_inp = sc_Idx c, ev_amount = sc_Amount c, ev_flags = f,
     ev_sigversion = sv, ev_ec = ec\<rparr>"
  obtain st' where "eval_loop ?env 0 (eval_init s (sc_Tx c) ed) = Inr st'"
      "count_limited sv \<longrightarrow> length p \<le> MAX_SCRIPT_SIZE"
    using assms by (auto simp: evalScript_def andThen_ok count_limited_def split: if_splits)
  then show ?thesis
    using eval_loop_script [of ?env 0 "eval_init s (sc_Tx c) ed" st'] by (auto simp: eval_init_def)
qed

section \<open>Branches that are not executed\<close>

lemma unexecuted_instruction:
  assumes "\<not> nofalse (es_exestack st)" "\<not> (0x63 \<le> opcode \<and> opcode \<le> 0x68)"
    "eval_instr env opcode pushval idx st = Inr st'"
  shows "st' = st\<lparr>es_opcnt := es_opcnt st'\<rparr>"
  using assms pre_checks_state by (fastforce simp: eval_instr_eq instr_effect_def andThen_ok split: if_splits)

end
