(* ===== verification/P2PKH.thy ===== *)
theory P2PKH
  imports ScriptLaws
begin

text \<open>
  The pay-to-pubkey-hash spend, run through \<open>VerifyTxScript\<close> (lib/script/script.go): the loop is stepped
  over the five instructions of the output script, and the result is the hash comparison and the
  signature check of the code.
\<close>

section \<open>Stepping through a script\<close>

definition push_data :: "bytes \<Rightarrow> bytes" where
  "push_data d = of_nat (length d) # d"

lemma step_push:
  assumes "drop idx (ev_p env) = push_data d @ rest" "1 < length d" "length d \<le> 75"
    "nofalse (es_exestack st)" "length (es_stack st) + length (es_altstack st) < 1000"
  shows "eval_loop env idx st = eval_loop env (idx + (1 + length d))
    (st\<lparr>es_stack := d # es_stack st, es_opcode_pos := es_opcode_pos st + 1\<rparr>)"
proof -
  have idx: "idx < length (ev_p env)"
    using assms(1) by (metis drop_all list.discI append_Cons linorder_not_less push_data_def)
  have l: "unat (of_nat (length d) :: byte) = length d" using assms(3) by (intro byte_of_nat_unat) simp
  then have g: "GetOpcode (drop idx (ev_p env)) = Inr (length d, Some d, 1 + length d)"
    using assms(1,3) by (simp add: push_data_def GetOpcode_short)
  have "length d \<notin> set disabled_opcodes" using assms(3) by (simp add: disabled_opcodes_def)
  then have pre: "pre_checks env (length d) (Some d) st = Inr st"
    using assms(3) by (simp add: pre_checks_def bytes_of_def Let_def)
  have "d \<noteq> []" "length d \<noteq> Suc 0" using assms(2) by auto
  then have min: "checkMinimalPush d (length d)" using assms(3) by (simp add: checkMinimalPush_def)
  show ?thesis
    using assms(3-5) pre min
    by (simp add: eval_loop_next [OF idx g] eval_instr_eq instr_effect_def bytes_of_def push_def)
qed

text \<open>An executed opcode above the pushes, given its effect.\<close>

lemma step_op:
  assumes "drop idx (ev_p env) = opc # rest" "0x60 < unat opc"
    "nofalse (es_exestack st)" "ev_sigversion env = SIGVERSION_BASE" "es_opcnt st < 201"
    "unat opc \<notin> set disabled_opcodes" "unat opc \<noteq> 0xab"
  shows "eval_loop env idx st =
    andThen (exec_op env (unat opc) True (idx + 1) (st\<lparr>es_opcnt := es_opcnt st + 1\<rparr>)) (\<lambda>st1.
      if length (es_stack st1) + length (es_altstack st1) > 1000 then Inl ErrStackTooBig
      else eval_loop env (idx + 1) (st1\<lparr>es_opcode_pos := es_opcode_pos st1 + 1\<rparr>))"
proof -
  have idx: "idx < length (ev_p env)" using assms(1) by (metis drop_all list.discI linorder_not_less)
  have g: "GetOpcode (drop idx (ev_p env)) = Inr (unat opc, None, 1)"
    using assms(1,2) by (simp add: GetOpcode_nonpush)
  have pre: "pre_checks env (unat opc) None st = Inr (st\<lparr>es_opcnt := es_opcnt st + 1\<rparr>)"
    using assms(2,4-7) by (simp add: pre_checks_def Let_def)
  show ?thesis
    using assms(2,3)
    by (simp add: eval_loop_next [OF idx g] eval_instr_eq pre instr_effect_def andThen_assoc)
       (cases "exec_op env (unat opc) True (Suc idx) (st\<lparr>es_opcnt := Suc (es_opcnt st)\<rparr>)", simp_all)
qed

section \<open>Pay to public-key hash\<close>

definition p2pkh_script :: "bytes \<Rightarrow> bytes" where
  "p2pkh_script h = [0x76, 0xa9] @ push_data h @ [0x88, 0xac]"

lemma eval_two_pushes:
  assumes "1 < length a" "length a \<le> 75" "1 < length b" "length b \<le> 75"
  shows "evalScript ec (push_data a @ push_data b) [] c f SIGVERSION_BASE ed =
    Inr ([b, a], ed\<lparr>M_codeseparator_pos := 0xFFFFFFFF, M_codeseparator_pos_init := True\<rparr>, sc_Tx c)"
proof -
  let ?p = "push_data a @ push_data b"
  let ?env = "\<lparr>ev_p = ?p, ev_inp = sc_Idx c, ev_amount = sc_Amount c, ev_flags = f,
     ev_sigversion = SIGVERSION_BASE, ev_ec = ec\<rparr>"
  let ?st = "eval_init [] (sc_Tx c) ed"
  have "eval_loop ?env 0 ?st = eval_loop ?env (0 + (1 + length a))
      (?st\<lparr>es_stack := a # es_stack ?st, es_opcode_pos := es_opcode_pos ?st + 1\<rparr>)"
    by (rule step_push) (use assms in \<open>simp_all add: eval_init_def nofalse_def\<close>)
  also have "\<dots> = eval_loop ?env (0 + (1 + length a) + (1 + length b))
      (?st\<lparr>es_stack := b # a # es_stack ?st, es_opcode_pos := es_opcode_pos ?st + 1 + 1\<rparr>)"
    by (subst step_push [where d = b and rest = "[]"])
       (use assms in \<open>simp_all add: push_data_def eval_init_def nofalse_def\<close>)
  also have "\<dots> = Inr (?st\<lparr>es_stack := b # a # es_stack ?st, es_opcode_pos := es_opcode_pos ?st + 1 + 1\<rparr>)"
    by (rule eval_loop_end) (simp add: push_data_def)
  finally show ?thesis
    using assms by (simp add: evalScript_def eval_init_def) (simp add: push_data_def)
qed

lemma op_checksig_eq:
  assumes "es_stack st = pk # sg # s"
  shows "op_checksig env 0xac st =
    andThen (run_checksig env sg pk st) (\<lambda>(b, st1). Inr (st1\<lparr>es_stack := pushBool b s\<rparr>))"
proof (cases "run_checksig env sg pk st")
  case (Inr r)
  obtain b st1 where r: "r = (b, st1)" by (cases r)
  then have "es_stack st1 = pk # sg # s" using run_checksig_stacks Inr assms by simp
  with Inr r assms show ?thesis by (simp add: op_checksig_def top_def numeral_2_eq_2)
qed (use assms in \<open>simp add: op_checksig_def top_def\<close>)

text \<open>The output script on the stack the signature script leaves.\<close>

lemma eval_p2pkh:
  assumes "length h = 20" "1 < length sig"
  shows "evalScript ec (p2pkh_script h) [pub, sig] c f SIGVERSION_BASE ed =
    (if ripemd160 (sha256 pub) \<noteq> h then Inl ErrVerify
     else andThen (recov (evalChecksigPreTapscript ec c sig pub (p2pkh_script h) 0 f SIGVERSION_BASE))
       (\<lambda>((ok, fSuccess), t). if \<not> ok then Inl ErrCheckSig
         else Inr (pushBool fSuccess [],
           ed\<lparr>M_codeseparator_pos := 0xFFFFFFFF, M_codeseparator_pos_init := True\<rparr>, t)))"
proof -
  let ?p = "p2pkh_script h"
  let ?env = "\<lparr>ev_p = ?p, ev_inp = sc_Idx c, ev_amount = sc_Amount c, ev_flags = f,
     ev_sigversion = SIGVERSION_BASE, ev_ec = ec\<rparr>"
  let ?ed = "ed\<lparr>M_codeseparator_pos := 0xFFFFFFFF, M_codeseparator_pos_init := True\<rparr>"
  define st where "st s n k = \<lparr>es_stack = s, es_altstack = [], es_exestack = [], es_pbegincodehash = 0,
     es_opcnt = n, es_opcode_pos = k, es_execdata = ?ed, es_tx = sc_Tx c\<rparr>" for s n k
  have len: "length ?p = 25" using assms(1) by (simp add: p2pkh_script_def push_data_def)
  have s0: "eval_init [pub, sig] (sc_Tx c) ed = st [pub, sig] 0 0" by (simp add: eval_init_def st_def)
  have d: "drop 0 ?p = 0x76 # (0xa9 # push_data h @ [0x88, 0xac])"
      "drop 1 ?p = 0xa9 # (push_data h @ [0x88, 0xac])" "drop 2 ?p = push_data h @ [0x88, 0xac]"
      "drop 23 ?p = 0x88 # [0xac]" "drop 24 ?p = 0xac # []"
    using assms(1) by (simp_all add: p2pkh_script_def push_data_def)
  have two: "Suc (Suc 0) = 2" by simp
  have "eval_loop ?env 0 (st [pub, sig] 0 0) = eval_loop ?env 1 (st [pub, pub, sig] 1 1)"
    by (subst step_op [OF _ _ _ _ _ _ _, where opc = "0x76"])
       (use d(1) in \<open>simp_all add: st_def nofalse_def disabled_opcodes_def exec_op_def on_stack_def op_dup_def push_def\<close>)
  also have "\<dots> = eval_loop ?env 2 (st [ripemd160 (sha256 pub), pub, sig] 2 2)"
    by (subst step_op [where opc = "0xa9"])
       (use d(2) in \<open>simp_all add: two st_def nofalse_def disabled_opcodes_def exec_op_def on_stack_def op_hash160_def push_def\<close>)
  also have "\<dots> = eval_loop ?env 23 (st [h, ripemd160 (sha256 pub), pub, sig] 2 3)"
    by (subst step_push [where d = h and rest = "[0x88, 0xac]"])
       (use d(3) assms(1) in \<open>simp_all add: st_def nofalse_def\<close>)
  also have "\<dots> = (if ripemd160 (sha256 pub) \<noteq> h then Inl ErrVerify else eval_loop ?env 24 (st [pub, sig] 3 4))"
    by (subst step_op [where opc = "0x88"])
       (use d(4) in \<open>auto simp: st_def nofalse_def disabled_opcodes_def exec_op_def on_stack_def op_equal_def\<close>)
  finally have e1: "eval_loop ?env 0 (st [pub, sig] 0 0) =
      (if ripemd160 (sha256 pub) \<noteq> h then Inl ErrVerify else eval_loop ?env 24 (st [pub, sig] 3 4))" .
  have e2: "eval_loop ?env 24 (st [pub, sig] 3 4) =
      andThen (recov (evalChecksigPreTapscript ec c sig pub ?p 0 f SIGVERSION_BASE)) (\<lambda>((ok, fSuccess), t).
        if \<not> ok then Inl ErrCheckSig else Inr ((st (pushBool fSuccess []) 4 5)\<lparr>es_tx := t\<rparr>))"
  proof -
    let ?st = "(st [pub, sig] 3 4)\<lparr>es_opcnt := es_opcnt (st [pub, sig] 3 4) + 1\<rparr>"
    have c: "env_checker ?env ?st = c" by (simp add: env_checker_def st_def)
    have run: "run_checksig ?env sig pub ?st =
       andThen (recov (evalChecksigPreTapscript ec c sig pub ?p 0 f SIGVERSION_BASE)) (\<lambda>((ok, fSuccess), t).
         if \<not> ok then Inl ErrCheckSig else Inr (fSuccess, ?st\<lparr>es_tx := t, es_execdata := ?ed\<rparr>))"
      unfolding run_checksig_def c
      by (cases "evalChecksigPreTapscript ec c sig pub ?p 0 f SIGVERSION_BASE")
         (auto simp: evalChecksig_def st_def)
    have op: "exec_op ?env (unat (0xac :: byte)) True (24 + 1) ?st = op_checksig ?env 0xac ?st"
      by (simp add: exec_op_def)
    have stk: "es_stack ?st = [pub, sig]" by (simp add: st_def)
    have sig: "op_checksig ?env 0xac ?st =
       andThen (recov (evalChecksigPreTapscript ec c sig pub ?p 0 f SIGVERSION_BASE)) (\<lambda>((ok, fSuccess), t).
         if \<not> ok then Inl ErrCheckSig
         else Inr (?st\<lparr>es_tx := t, es_execdata := ?ed, es_stack := pushBool fSuccess []\<rparr>))"
      unfolding op_checksig_eq [OF stk] run
      by (cases "evalChecksigPreTapscript ec c sig pub ?p 0 f SIGVERSION_BASE") auto
    have "eval_loop ?env 24 (st [pub, sig] 3 4) =
      andThen (exec_op ?env (unat (0xac :: byte)) True (24 + 1) ?st) (\<lambda>st1.
        if length (es_stack st1) + length (es_altstack st1) > 1000 then Inl ErrStackTooBig
        else eval_loop ?env (24 + 1) (st1\<lparr>es_opcode_pos := es_opcode_pos st1 + 1\<rparr>))"
      by (rule step_op) (use d(5) in \<open>simp_all add: st_def nofalse_def disabled_opcodes_def\<close>)
    also have "\<dots> = andThen (recov (evalChecksigPreTapscript ec c sig pub ?p 0 f SIGVERSION_BASE)) (\<lambda>((ok, fSuccess), t).
        if \<not> ok then Inl ErrCheckSig else Inr ((st (pushBool fSuccess []) 4 5)\<lparr>es_tx := t\<rparr>))"
      unfolding op sig
      by (cases "evalChecksigPreTapscript ec c sig pub ?p 0 f SIGVERSION_BASE")
         (auto simp: len st_def pushBool_def)
    finally show ?thesis .
  qed
  show ?thesis
    by (simp add: evalScript_def len s0 e1 e2) (simp add: st_def andThen_def split: sum.split)
qed

lemma IsPushOnly_pushes:
  assumes "length a \<le> 75" "length b \<le> 75"
  shows "IsPushOnly (push_data a @ push_data b)"
proof -
  have u: "unat (of_nat (length a) :: byte) = length a" "unat (of_nat (length b) :: byte) = length b"
    using assms by (auto intro!: byte_of_nat_unat)
  have "IsPushOnly (push_data b)"
    using assms u by (subst IsPushOnly.simps) (simp add: push_data_def GetOpcode_short IsPushOnly.simps [of "[]"])
  then show ?thesis
    using assms u by (subst IsPushOnly.simps) (simp add: push_data_def GetOpcode_short)
qed

lemma base_checksig_tx:
  "evalChecksigPreTapscript ec c sig pub p pb f SIGVERSION_BASE = Inr (r, t) \<Longrightarrow> t = sc_Tx c"
  by (auto simp: evalChecksigPreTapscript_def sigversion_hash_def andThen_ok split: if_splits)

lemma VerifyTxScript_p2pkh:
  assumes "length h = 20" "2 \<le> length sig" "length sig \<le> 75" "2 \<le> length pub" "length pub \<le> 75"
    and "get_txin (sc_Tx c) (sc_Idx c) = Inr x" "ti_ScriptSig x = push_data sig @ push_data pub"
    and "witness_stack (sc_Tx c) (sc_Idx c) = Inr w" "sane_flags f"
  shows "VerifyTxScript ec None (p2pkh_script h) c f = Inr True \<longleftrightarrow>
    ripemd160 (sha256 pub) = h \<and>
    evalChecksigPreTapscript ec c sig pub (p2pkh_script h) 0 f SIGVERSION_BASE = Inr ((True, True), sc_Tx c) \<and>
    (flag_on f VER_WITNESS \<longrightarrow> w = [])"
proof -
  let ?sg = "push_data sig @ push_data pub"
  let ?pk = "p2pkh_script h"
  let ?ed = "zero_execdata\<lparr>M_codeseparator_pos := 0xFFFFFFFF, M_codeseparator_pos_init := True\<rparr>"
  let ?chk = "evalChecksigPreTapscript ec c sig pub ?pk 0 f SIGVERSION_BASE"
  have "length ?pk = 25" "?pk ! 0 = 0x76" using assms(1) by (simp_all add: p2pkh_script_def push_data_def)
  then have nw: "IsWitnessProgram ?pk = (0, None)" and np: "\<not> IsPayToScript ?pk"
    by (simp_all add: IsWitnessProgram_def IsPayToScript_def)
  have po: "IsPushOnly ?sg" using assms by (intro IsPushOnly_pushes)
  have r1: "run_base ec c f ?sg ([], zero_execdata, sc_Tx c) = Some ([pub, sig], ?ed, sc_Tx c)"
    using assms by (simp add: run_base_def eval_two_pushes)
  have r2: "run_base ec c f ?pk ([pub, sig], ?ed, sc_Tx c) =
     (if ripemd160 (sha256 pub) \<noteq> h then None
      else case ?chk of Inr ((True, b), t) \<Rightarrow> Some (pushBool b [], ?ed, t) | _ \<Rightarrow> None)"
    using assms(1,2)
    by (simp add: run_base_def eval_p2pkh andThen_def liftErr_def split: sum.split prod.split bool.split)
  let ?w = "if flag_on f VER_WITNESS then w else []"
  have v: "verify_scripts ec c f ?sg ?pk = Inr True \<longleftrightarrow>
    ripemd160 (sha256 pub) = h \<and> ?chk = Inr ((True, True), sc_Tx c) \<and> (flag_on f VER_WITNESS \<longrightarrow> w = [])"
  proof (cases "\<exists>b. ripemd160 (sha256 pub) = h \<and> ?chk = Inr ((True, b), sc_Tx c)")
    case True
    then obtain b where b: "ripemd160 (sha256 pub) = h" "?chk = Inr ((True, b), sc_Tx c)" by blast
    have r2': "run_base ec c f ?pk ([pub, sig], ?ed, sc_Tx c) = Some (pushBool b [], ?ed, sc_Tx c)"
      using r2 b by simp
    have rt: "result_true (pushBool b []) \<longleftrightarrow> b"
      by (simp add: result_true_def pushBool_def bts2bool_def)
    have bw: "bare_witness ec c f ?sg ?pk (pushBool b []) = Inr (Some (pushBool b [], ?w, False))"
      using assms(8) by (simp add: bare_witness_def nw)
    have p2: "verify_p2sh ec c f ?sg ?pk sc ed s w h' = Inr (Some (s, h'))" for sc ed s w h'
      by (rule verify_p2sh_skip) (use np in blast)
    have ve: "verify_end f (pushBool b []) ?w False = Inr (flag_on f VER_WITNESS \<longrightarrow> w = [])"
      using assms(9) by (auto simp: verify_end_def sane_flags_def pushBool_def)
    show ?thesis
      using b bw ve rt by (cases b) (simp_all add: verify_scripts_def verify_output_def r1 r2' p2 Let_def)
  next
    case False
    then have "run_base ec c f ?pk ([pub, sig], ?ed, sc_Tx c) = None"
      using r2 base_checksig_tx [of ec c sig pub ?pk 0 f] by (auto split: sum.split prod.split bool.split)
    with False show ?thesis by (auto simp: verify_scripts_def verify_output_def r1 Let_def)
  qed
  show ?thesis using po v by (simp add: VerifyTxScript_def assms(6,7))
qed

end
