(* ===== verification/SigHashLaws.thy ===== *)
theory SigHashLaws
  imports Checker
begin

text \<open>
  Laws of the signature hashes (lib/btc/tx.go, lib/btc/taproot.go) and of \<open>delSig\<close> (lib/script/script.go): the
  instruction lists they work on, what a signature does not commit to, and the hashes that are constants.
\<close>

section \<open>The instructions of a script, as byte strings\<close>

definition raw_ops :: "bytes \<Rightarrow> bytes list" where
  "raw_ops scr = map (\<lambda>(_, _, raw). raw) (fst (script_ops scr))"

lemma raw_ops_simps:
  "raw_ops [] = []"
  "scr \<noteq> [] \<Longrightarrow> GetOpcode scr = Inl e \<Longrightarrow> raw_ops scr = []"
  "scr \<noteq> [] \<Longrightarrow> GetOpcode scr = Inr (op, d, n) \<Longrightarrow> raw_ops scr = take n scr # raw_ops (drop n scr)"
  by (simp_all add: raw_ops_def script_ops.simps [of scr] case_prod_beta Let_def)

lemma remove_codesep_ops: "remove_codesep scr = concat (filter (\<lambda>i. hd i \<noteq> 0xab) (raw_ops scr))"
proof (induction scr rule: remove_codesep.induct)
  case (1 scr)
  show ?case
  proof (cases "scr = []")
    case False
    show ?thesis
    proof (cases "GetOpcode scr")
      case (Inr r)
      obtain op d n where r: "GetOpcode scr = Inr (op, d, n)" using Inr by (cases r) auto
      have "op = unat (hd (take n scr))"
        using GetOpcode_ok_op [OF r] GetOpcode_ok_size [OF r] False by (simp add: hd_conv_nth)
      then have "op \<noteq> 0xab \<longleftrightarrow> hd (take n scr) \<noteq> 0xab" by (simp add: word_unat_eq_iff)
      then show ?thesis using 1 [OF False r] False r
        by (subst remove_codesep.simps) (simp add: raw_ops_simps)
    qed (simp add: False raw_ops_simps remove_codesep.simps [of scr])
  qed (simp add: raw_ops_simps remove_codesep.simps)
qed

lemma delsig_loop_ops:
  "delsig_loop scr pat = (concat (filter (\<lambda>i. i \<noteq> pat) (raw_ops scr)), length (filter (\<lambda>i. i = pat) (raw_ops scr)))"
proof (induction scr pat rule: delsig_loop.induct)
  case (1 scr pat)
  show ?case
  proof (cases "scr = []")
    case False
    show ?thesis
    proof (cases "GetOpcode scr")
      case (Inr r)
      obtain op d n where r: "GetOpcode scr = Inr (op, d, n)" using Inr by (cases r) auto
      show ?thesis using 1 [OF False r] False r
        by (subst delsig_loop.simps) (simp add: raw_ops_simps)
    qed (simp add: False raw_ops_simps delsig_loop.simps [of scr])
  qed (simp add: raw_ops_simps delsig_loop.simps)
qed

text \<open>
  \<open>delSig\<close> removes the instructions that push exactly the signature, for the signatures a one-byte
  push can carry. For a longer one (76 to 252 bytes) the pattern starts with a push opcode of its own
  and matches no instruction that pushes the signature.
\<close>

lemma delSig_eq:
  assumes "length sig < 0xfd"
  shows "delSig scr sig =
    (let pat = of_nat (length sig) # sig in
     Inr (concat (filter (\<lambda>i. i \<noteq> pat) (raw_ops scr)), length (filter (\<lambda>i. i = pat) (raw_ops scr))))"
proof -
  have "word_of_int (int (length sig)) < (0xfd :: u32)"
    using assms by (simp add: word_less_nat_alt unat_of_nat)
  moreover have "ucast (word_of_int (int (length sig)) :: u32) = (of_nat (length sig) :: byte)"
    using assms by (simp add: word_unat_eq_iff unat_of_nat unsigned_ucast_eq take_bit_eq_mod)
  ultimately show ?thesis
    by (simp add: delSig_def PutVlen_def Let_def put_front_def go_copy_def delsig_loop_ops)
qed

section \<open>What the signature hashes do not commit to\<close>

definition strip_sigs :: "tx \<Rightarrow> tx" where
  "strip_sigs t = t\<lparr>tx_TxIn := map (map_option (\<lambda>i. i\<lparr>ti_ScriptSig := []\<rparr>)) (tx_TxIn t), tx_SegWit := None\<rparr>"

lemma strip_fields [simp]:
  "length (tx_TxIn (strip_sigs t)) = length (tx_TxIn t)" "tx_TxOut (strip_sigs t) = tx_TxOut t"
  "tx_Version (strip_sigs t) = tx_Version t" "tx_Lock_time (strip_sigs t) = tx_Lock_time t"
  "tx_Spent_outputs (strip_sigs t) = tx_Spent_outputs t"
  by (simp_all add: strip_sigs_def)

lemma strip_caches [simp]:
  "tx_hashPrevouts (strip_sigs t) = tx_hashPrevouts t"
  "tx_hashSequence (strip_sigs t) = tx_hashSequence t"
  "tx_hashOutputs (strip_sigs t) = tx_hashOutputs t"
  "tx_m_prevouts (strip_sigs t) = tx_m_prevouts t"
  "tx_m_sequences (strip_sigs t) = tx_m_sequences t"
  "tx_m_outputs (strip_sigs t) = tx_m_outputs t"
  "tx_m_spent_amounts (strip_sigs t) = tx_m_spent_amounts t"
  "tx_m_spent_scripts (strip_sigs t) = tx_m_spent_scripts t"
  by (simp_all add: strip_sigs_def)

lemma strip_update:
  "(strip_sigs t)\<lparr>tx_hashPrevouts := c\<rparr> = strip_sigs (t\<lparr>tx_hashPrevouts := c\<rparr>)"
  "(strip_sigs t)\<lparr>tx_hashSequence := c\<rparr> = strip_sigs (t\<lparr>tx_hashSequence := c\<rparr>)"
  "(strip_sigs t)\<lparr>tx_hashOutputs := c\<rparr> = strip_sigs (t\<lparr>tx_hashOutputs := c\<rparr>)"
  "(strip_sigs t)\<lparr>tx_m_prevouts := c\<rparr> = strip_sigs (t\<lparr>tx_m_prevouts := c\<rparr>)"
  "(strip_sigs t)\<lparr>tx_m_sequences := c\<rparr> = strip_sigs (t\<lparr>tx_m_sequences := c\<rparr>)"
  "(strip_sigs t)\<lparr>tx_m_outputs := c\<rparr> = strip_sigs (t\<lparr>tx_m_outputs := c\<rparr>)"
  "(strip_sigs t)\<lparr>tx_m_spent_amounts := c\<rparr> = strip_sigs (t\<lparr>tx_m_spent_amounts := c\<rparr>)"
  "(strip_sigs t)\<lparr>tx_m_spent_scripts := c\<rparr> = strip_sigs (t\<lparr>tx_m_spent_scripts := c\<rparr>)"
  by (simp_all add: strip_sigs_def)

lemma get_txin_strip:
  "get_txin (strip_sigs t) i = andThen (get_txin t i) (\<lambda>x. Inr (x\<lparr>ti_ScriptSig := []\<rparr>))"
  by (auto simp: get_txin_def strip_sigs_def index_def deref_def split: option.split)

lemma andThen_get_txin_strip:
  assumes "\<And>x. f (x\<lparr>ti_ScriptSig := []\<rparr>) = g x"
  shows "andThen (get_txin (strip_sigs t) i) f = andThen (get_txin t i) g"
  by (cases "get_txin t i") (simp_all add: get_txin_strip assms)

lemma concatE_map: "concatE f (map g xs) = concatE (\<lambda>x. f (g x)) xs"
  by (induction xs) simp_all

lemma concatE_cong: "(\<And>x. x \<in> set xs \<Longrightarrow> f x = g x) \<Longrightarrow> concatE f xs = concatE g xs"
  by (induction xs) simp_all

lemma deref_map: "deref (map_option g p) = andThen (deref p) (\<lambda>x. Inr (g x))"
  by (cases p) simp_all

lemma sighash_in_strip:
  "sighash_in sc n ht (i, map_option (\<lambda>i. i\<lparr>ti_ScriptSig := []\<rparr>) p) = sighash_in sc n ht (i, p)"
  by (cases p) (simp_all add: sighash_in_def outpoint_bytes_def)

lemma SignatureHash_strip: "SignatureHash (strip_sigs t) sc n ht = SignatureHash t sc n ht"
proof -
  have "concatE (sighash_in s n h) (zip [0..<length (tx_TxIn t)] (tx_TxIn (strip_sigs t))) =
      concatE (sighash_in s n h) (zip [0..<length (tx_TxIn t)] (tx_TxIn t))" for s h
    by (auto simp: strip_sigs_def zip_map2 concatE_map sighash_in_strip intro!: concatE_cong)
  then have "sighash_ins (strip_sigs t) s n ht = sighash_ins t s n ht" for s
    by (simp add: sighash_ins_def andThen_get_txin_strip outpoint_bytes_def)
  then show ?thesis by (simp add: SignatureHash_def sighash_outs_def)
qed

text \<open>The hashes that cache: the result is the same, and so are the caches they leave.\<close>

lemma parts_strip:
  "all_outpoints (strip_sigs t) = all_outpoints t" "all_sequences (strip_sigs t) = all_sequences t"
  "all_outputs (strip_sigs t) = all_outputs t" "spent_amounts (strip_sigs t) = spent_amounts t"
  "spent_scripts (strip_sigs t) = spent_scripts t" "get_spent (strip_sigs t) i = get_spent t i"
  by (auto simp: all_outpoints_def all_sequences_def all_outputs_def spent_amounts_def spent_scripts_def
      get_spent_def strip_sigs_def concatE_map deref_map outpoint_bytes_def andThen_assoc intro!: concatE_cong)

lemma andThen_strip:
  assumes "m' = andThen m (\<lambda>(x, t). Inr (x, strip_sigs t))"
    and "\<And>x t. f' x (strip_sigs t) = andThen (f x t) (\<lambda>(x, t). Inr (x, strip_sigs t))"
  shows "andThen m' (\<lambda>(x, t). f' x t) = andThen (andThen m (\<lambda>(x, t). f x t)) (\<lambda>(x, t). Inr (x, strip_sigs t))"
  using assms by (cases m) (auto split: prod.split)

lemma cached_strip:
  assumes "get (strip_sigs t) = get t" "f (strip_sigs t) = f t" "\<And>c. put c (strip_sigs t) = strip_sigs (put c t)"
  shows "cached get put h f (strip_sigs t) = andThen (cached get put h f t) (\<lambda>(x, t). Inr (x, strip_sigs t))"
  using assms by (auto simp: cached_def andThen_assoc split: option.split)

lemma caches_strip:
  "cached tx_hashPrevouts (\<lambda>c t. t\<lparr>tx_hashPrevouts := c\<rparr>) Sha2Sum all_outpoints (strip_sigs t) =
     andThen (cached tx_hashPrevouts (\<lambda>c t. t\<lparr>tx_hashPrevouts := c\<rparr>) Sha2Sum all_outpoints t) (\<lambda>(x, t). Inr (x, strip_sigs t))"
  "cached tx_hashSequence (\<lambda>c t. t\<lparr>tx_hashSequence := c\<rparr>) Sha2Sum all_sequences (strip_sigs t) =
     andThen (cached tx_hashSequence (\<lambda>c t. t\<lparr>tx_hashSequence := c\<rparr>) Sha2Sum all_sequences t) (\<lambda>(x, t). Inr (x, strip_sigs t))"
  "cached tx_hashOutputs (\<lambda>c t. t\<lparr>tx_hashOutputs := c\<rparr>) Sha2Sum all_outputs (strip_sigs t) =
     andThen (cached tx_hashOutputs (\<lambda>c t. t\<lparr>tx_hashOutputs := c\<rparr>) Sha2Sum all_outputs t) (\<lambda>(x, t). Inr (x, strip_sigs t))"
  "cached tx_m_outputs (\<lambda>c t. t\<lparr>tx_m_outputs := c\<rparr>) sha256 all_outputs (strip_sigs t) =
     andThen (cached tx_m_outputs (\<lambda>c t. t\<lparr>tx_m_outputs := c\<rparr>) sha256 all_outputs t) (\<lambda>(x, t). Inr (x, strip_sigs t))"
  by (rule cached_strip; simp add: parts_strip strip_update)+

lemma wsh_strip:
  "wsh_prevouts (strip_sigs t) ht = andThen (wsh_prevouts t ht) (\<lambda>(x, t). Inr (x, strip_sigs t))"
  "wsh_sequence (strip_sigs t) ht = andThen (wsh_sequence t ht) (\<lambda>(x, t). Inr (x, strip_sigs t))"
  "wsh_outputs (strip_sigs t) n ht = andThen (wsh_outputs t n ht) (\<lambda>(x, t). Inr (x, strip_sigs t))"
  by (simp_all add: wsh_prevouts_def wsh_sequence_def wsh_outputs_def caches_strip andThen_assoc)

lemma WitnessSigHash_strip:
  "WitnessSigHash (strip_sigs t) sc am n ht = andThen (WitnessSigHash t sc am n ht) (\<lambda>(x, t). Inr (x, strip_sigs t))"
  unfolding WitnessSigHash_def
  by (rule andThen_strip [OF wsh_strip(1)], rule andThen_strip [OF wsh_strip(2)], rule andThen_strip [OF wsh_strip(3)])
     (simp add: andThen_get_txin_strip outpoint_bytes_def andThen_assoc)


lemma tsh_strip:
  "tsh_inputs (strip_sigs t) it = andThen (tsh_inputs t it) (\<lambda>(x, t). Inr (x, strip_sigs t))"
  "tsh_outputs (strip_sigs t) ot = andThen (tsh_outputs t ot) (\<lambda>(x, t). Inr (x, strip_sigs t))"
  "tsh_this_input (strip_sigs t) i it = tsh_this_input t i it"
  "tsh_single (strip_sigs t) i ot = tsh_single t i ot"
proof -
  have "tsh_fill_inputs (strip_sigs t) = andThen (tsh_fill_inputs t) (\<lambda>t. Inr (strip_sigs t))"
    by (simp add: tsh_fill_inputs_def parts_strip strip_update andThen_assoc)
  then show "tsh_inputs (strip_sigs t) it = andThen (tsh_inputs t it) (\<lambda>(x, t). Inr (x, strip_sigs t))"
    by (simp add: tsh_inputs_def andThen_assoc)
qed (simp_all add: tsh_outputs_def tsh_this_input_def tsh_single_def caches_strip parts_strip
    andThen_get_txin_strip outpoint_bytes_def)

lemma TaprootSigHash_strip:
  "TaprootSigHash (strip_sigs t) ed n ht scr = andThen (TaprootSigHash t ed n ht scr) (\<lambda>(x, t). Inr (x, strip_sigs t))"
proof (cases "valid_taproot_hashtype ht")
  case True
  show ?thesis
    unfolding TaprootSigHash_def Let_def if_not_P [OF not_not [THEN iffD2, OF True]]
    by (rule andThen_strip [OF tsh_strip(1)], rule andThen_strip [OF tsh_strip(2)])
       (simp add: tsh_strip andThen_assoc option.case_distrib [where h = "\<lambda>m. andThen m _"] cong: option.case_cong)
qed (simp add: TaprootSigHash_def)

section \<open>What the hash types leave out\<close>

lemma SignatureHash_none:
  assumes "ht AND 0x1f = SIGHASH_NONE"
  shows "SignatureHash (t\<lparr>tx_TxOut := outs\<rparr>) sc n ht = SignatureHash t sc n ht"
  using assms by (simp add: SignatureHash_def sighash_ins_def sighash_outs_def get_txin_def Let_def)

lemma SignatureHash_anyonecanpay:
  assumes "ht AND SIGHASH_ANYONECANPAY \<noteq> 0" "get_txin (t\<lparr>tx_TxIn := ins\<rparr>) m = get_txin t m"
  shows "SignatureHash (t\<lparr>tx_TxIn := ins\<rparr>) sc m ht = SignatureHash t sc m ht"
  using assms by (simp add: SignatureHash_def sighash_ins_def sighash_outs_def)

lemma sighash_in_at:
  "get_txin t n = Inr x \<Longrightarrow> n < length (tx_TxIn t)"
  by (auto simp: get_txin_def ok_iff)

text \<open>\<open>SIGHASH_SINGLE\<close> of an input without an output: the constant \<open>1\<close>, whatever the transaction.\<close>

lemma SignatureHash_single_one:
  assumes "ht AND 0x1f = SIGHASH_SINGLE" "length (tx_TxOut t) \<le> n" "None \<notin> set (tx_TxIn t)"
    "n < length (tx_TxIn t)"
  shows "SignatureHash t sc n ht = Inr one_hash"
proof -
  have "tx_TxIn t ! n \<noteq> None" using assms(3,4) by (metis nth_mem)
  then have g: "\<exists>x. get_txin t n = Inr x" using assms(4) by (auto simp: get_txin_def)
  have all: "\<exists>d. concatE (sighash_in s n h) xs = Inr d" if "\<And>x. x \<in> set xs \<Longrightarrow> snd x \<noteq> None" for s h xs
    using that
  proof (induction xs)
    case (Cons a xs)
    obtain i p where a: "a = (i, p)" by (cases a)
    have "p \<noteq> None" using Cons.prems [of a] a by simp
    then obtain x where "sighash_in s n h a = Inr x"
      unfolding a by (cases p) (auto simp: sighash_in_def)
    with Cons show ?case by auto
  qed simp
  have "snd x \<noteq> None" if "x \<in> set (zip [0..<length (tx_TxIn t)] (tx_TxIn t))" for x
    using that assms(3) by (metis prod.collapse set_zip_rightD)
  from all [OF this] obtain d where
    "concatE (sighash_in (remove_codesep sc) n (ht AND 0x1f)) (zip [0..<length (tx_TxIn t)] (tx_TxIn t)) = Inr d"
    by blast
  with g have "\<exists>d. sighash_ins t (remove_codesep sc) n ht = Inr d"
    by (elim exE) (simp add: sighash_ins_def)
  then obtain d where "sighash_ins t (remove_codesep sc) n ht = Inr d" by blast
  then show ?thesis using assms(1,2) by (simp add: SignatureHash_def sighash_outs_def)
qed

section \<open>The zero hash\<close>

text \<open>
  An undefined hash type, or \<open>SIGHASH_SINGLE\<close> without an output, makes \<open>TaprootSigHash\<close> return 32 zero
  bytes, and \<open>CheckSchnorrSignature\<close> verifies the signature against these.
\<close>

lemma CheckSchnorrSignature_undefined:
  assumes "length sig = 64" "\<not> valid_taproot_hashtype ht"
  shows "CheckSchnorrSignature ec c (sig @ [ht]) pk sv ed =
    Inr (Schnorr_Verify ec pk sig (replicate 32 0), sc_Tx c)"
proof -
  have "ht \<noteq> 0" using assms(2) by (auto simp: valid_taproot_hashtype_def)
  then show ?thesis using assms
    by (simp add: CheckSchnorrSignature_def nth_append TaprootSigHash_def SchnorrVerify_def)
qed

end
