(* ===== verification/Multisig.thy ===== *)
theory Multisig
  imports InterpProps SigHashLaws "HOL-Library.Sublist"
begin

text \<open>
  \<open>OP_CHECKMULTISIG\<close> (lib/script/script.go) against its specification: some of the keys, in order, verify the
  signatures one by one. The greedy matching of the code decides exactly this.
\<close>

section \<open>What the matching loop decides\<close>

fun greedy :: "('s \<Rightarrow> 'k \<Rightarrow> bool) \<Rightarrow> 's list \<Rightarrow> 'k list \<Rightarrow> bool" where
  "greedy V [] keys = True"
| "greedy V (sg # sigs) [] = False"
| "greedy V (sg # sigs) (k # keys) = (if V sg k then greedy V sigs keys else greedy V (sg # sigs) keys)"

text \<open>
  The specification: some keys, in their order, fit the signatures one by one.
\<close>

definition matchable :: "('s \<Rightarrow> 'k \<Rightarrow> bool) \<Rightarrow> 's list \<Rightarrow> 'k list \<Rightarrow> bool" where
  "matchable V sigs keys \<longleftrightarrow> (\<exists>ks. subseq ks keys \<and> list_all2 V sigs ks)"

lemma matchable_drop: "matchable V (sg # sigs) keys \<Longrightarrow> matchable V sigs keys"
  by (auto simp: matchable_def list_all2_Cons1 dest: subseq_Cons')

lemma greedy_matchable: "greedy V sigs keys \<longleftrightarrow> matchable V sigs keys"
proof (induction V sigs keys rule: greedy.induct)
  case (1 V keys)
  show ?case by (auto simp: matchable_def intro: exI [of _ "[]"])
next
  case (2 V sg sigs)
  show ?case by (auto simp: matchable_def list_all2_Cons1)
next
  case (3 V sg sigs k keys)
  show ?case
  proof (cases "V sg k")
    case True
    have "matchable V (sg # sigs) (k # keys) \<longleftrightarrow> matchable V sigs keys"
    proof
      assume "matchable V (sg # sigs) (k # keys)"
      then obtain k' ks where "subseq (k' # ks) (k # keys)" "list_all2 V sigs ks"
        by (auto simp: matchable_def list_all2_Cons1)
      then show "matchable V sigs keys"
        by (auto simp: matchable_def subseq_Cons2_iff split: if_splits dest: subseq_Cons')
    next
      assume "matchable V sigs keys"
      then show "matchable V (sg # sigs) (k # keys)"
        using True by (auto simp: matchable_def)
    qed
    with 3 True show ?thesis by simp
  next
    case False
    have "matchable V (sg # sigs) (k # keys) \<longleftrightarrow> matchable V (sg # sigs) keys"
      using False by (auto simp: matchable_def list_all2_Cons1 subseq_Cons2_iff split: if_splits)
    with 3 False show ?thesis by simp
  qed
qed

lemma greedy_short: "length keys < length sigs \<Longrightarrow> \<not> greedy V sigs keys"
  by (auto simp: greedy_matchable matchable_def dest: list_all2_lengthD list_emb_length)

text \<open>The signature checks of one run, all of them well encoded and none of them panicking.\<close>

definition checks_are :: "evalenv \<Rightarrow> bytes \<Rightarrow> tx \<Rightarrow> (bytes \<Rightarrow> bytes \<Rightarrow> bool) \<Rightarrow> bytes list \<Rightarrow> bytes list \<Rightarrow> bool" where
  "checks_are env xxx t V sigs keys \<longleftrightarrow>
     (\<forall>sg \<in> set sigs. CheckSignatureEncoding sg (ev_flags env) = Inr True) \<and>
     (\<forall>k \<in> set keys. CheckPubKeyEncoding k (ev_flags env) (ev_sigversion env)) \<and>
     (\<forall>sg \<in> set sigs. \<forall>k \<in> set keys. \<exists>u.
        verifyECDSA (ev_ec env) \<lparr>sc_Tx = t, sc_Idx = ev_inp env, sc_Amount = ev_amount env\<rparr>
          xxx sg k (ev_sigversion env) = Inr (V sg k, u))"

lemma same_tx_trans: "same_tx t u \<Longrightarrow> same_tx u v \<Longrightarrow> same_tx t v"
  by (simp add: same_tx_def)

lemma wsh_tx:
  assumes "caches_ok t"
  shows "wsh_prevouts t ht = Inr (x, u) \<Longrightarrow> same_tx t u"
    "wsh_sequence t ht = Inr (x, u) \<Longrightarrow> same_tx t u"
    "wsh_outputs t i ht = Inr (x, u) \<Longrightarrow> same_tx t u"
proof -
  have refl: "same_tx t t" using assms by (simp add: same_tx_def)
  show "wsh_prevouts t ht = Inr (x, u) \<Longrightarrow> same_tx t u"
    using refl by (auto simp: wsh_prevouts_def dest: hc_prevouts.cached_tx [OF assms] split: if_splits)
  show "wsh_sequence t ht = Inr (x, u) \<Longrightarrow> same_tx t u"
    using refl by (auto simp: wsh_sequence_def dest: hc_sequence.cached_tx [OF assms] split: if_splits)
  show "wsh_outputs t i ht = Inr (x, u) \<Longrightarrow> same_tx t u"
    using refl by (auto simp: wsh_outputs_def ok_iff dest: hc_outputs.cached_tx [OF assms] split: if_splits)
qed

lemma WitnessSigHash_tx:
  assumes "caches_ok t" "WitnessSigHash t sc am i ht = Inr (x, u)"
  shows "same_tx t u"
proof -
  obtain a t1 b t2 d where 1: "wsh_prevouts t ht = Inr (a, t1)" "wsh_sequence t1 ht = Inr (b, t2)"
      "wsh_outputs t2 i ht = Inr (d, u)"
    using assms(2) by (auto simp: WitnessSigHash_def ok_iff)
  have s1: "same_tx t t1" by (rule wsh_tx(1) [OF assms(1) 1(1)])
  have s2: "same_tx t1 t2" by (rule wsh_tx(2) [OF _ 1(2)]) (use s1 in \<open>simp add: same_tx_def\<close>)
  have s3: "same_tx t2 u" by (rule wsh_tx(3) [OF _ 1(3)]) (use s2 in \<open>simp add: same_tx_def\<close>)
  show ?thesis by (rule same_tx_trans [OF s1 same_tx_trans [OF s2 s3]])
qed

lemma verifyECDSA_tx:
  assumes "caches_ok (sc_Tx c)" "verifyECDSA ec c d sg k sv = Inr (v, u)"
  shows "same_tx (sc_Tx c) u"
proof -
  have "same_tx (sc_Tx c) (sc_Tx c)" using assms(1) by (simp add: same_tx_def)
  then show ?thesis using assms
    by (auto simp: verifyECDSA_def sigversion_hash_def ok_iff dest: WitnessSigHash_tx split: if_splits)
qed

lemma take_drop_Cons:
  assumes "take (Suc n) (drop i s) = x # xs"
  shows "i < length s" "s ! i = x" "take n (drop (Suc i) s) = xs"
proof -
  show i: "i < length s" using assms by (cases "i < length s") auto
  then have "drop i s = s ! i # drop (Suc i) s" by (simp add: Cons_nth_drop_Suc)
  with assms show "s ! i = x" "take n (drop (Suc i) s) = xs" by auto
qed

lemma ms_loop_greedy:
  assumes "checks_are env xxx t V sigs keys" "same_tx t u"
    "take (length sigs) (drop (isig - 1) s) = sigs" "take (length keys) (drop (ikey - 1) s) = keys"
    "0 < isig" "0 < ikey" "length sigs \<le> length keys"
  shows "\<exists>u'. ms_loop env xxx s u ikey isig (int (length sigs)) (int (length keys)) = Inr (greedy V sigs keys, u') \<and> same_tx t u'"
  using assms
proof (induction V sigs keys arbitrary: u ikey isig rule: greedy.induct)
  case (1 V keys)
  then show ?case by auto
next
  case (2 V sg sigs)
  then show ?case by simp
next
  case (3 V sg sigs k keys)
  obtain i j where ij: "isig = Suc i" "ikey = Suc j" using "3.prems"(5,6) by (cases isig; cases ikey) auto
  note S = take_drop_Cons [OF "3.prems"(3) [unfolded ij, simplified]]
  note K = take_drop_Cons [OF "3.prems"(4) [unfolded ij, simplified]]
  have top: "top isig s = Inr sg" "top ikey s = Inr k"
    using S(1,2) K(1,2) by (simp_all add: ij top_def)
  have enc: "CheckSignatureEncoding sg (ev_flags env) = Inr True"
      "CheckPubKeyEncoding k (ev_flags env) (ev_sigversion env)"
    using "3.prems"(1) by (auto simp: checks_are_def)
  obtain u0 where u0: "verifyECDSA (ev_ec env) \<lparr>sc_Tx = t, sc_Idx = ev_inp env, sc_Amount = ev_amount env\<rparr>
          xxx sg k (ev_sigversion env) = Inr (V sg k, u0)"
    using "3.prems"(1) by (auto simp: checks_are_def)
  have "same_checker \<lparr>sc_Tx = t, sc_Idx = ev_inp env, sc_Amount = ev_amount env\<rparr>
     \<lparr>sc_Tx = u, sc_Idx = ev_inp env, sc_Amount = ev_amount env\<rparr>" using "3.prems"(2) by simp
  from verifyECDSA_rel [OF this, of "ev_ec env" xxx sg k "ev_sigversion env"] u0
  obtain u1 where u1: "verifyECDSA (ev_ec env) \<lparr>sc_Tx = u, sc_Idx = ev_inp env, sc_Amount = ev_amount env\<rparr>
          xxx sg k (ev_sigversion env) = Inr (V sg k, u1)" "same_tx u0 u1"
    by (auto elim: rel_sum.cases)
  have "same_tx t u0"
    using verifyECDSA_tx [OF _ u0] "3.prems"(2) by (simp add: same_tx_def)
  with u1(2) have tu1: "same_tx t u1" by (rule same_tx_trans [rotated])
  note step = ms_loop_unfold [of "int (length (sg # sigs))" ikey s k isig sg env u xxx "V sg k" u1
      "int (length (k # keys))", OF _ top(2,1) enc u1(1)]
  have sub: "checks_are env xxx t V sigs keys" "checks_are env xxx t V (sg # sigs) keys"
    using "3.prems"(1) by (auto simp: checks_are_def)
  show ?case
  proof (cases "V sg k")
    case True
    have IH: "\<exists>u'. ms_loop env xxx s u1 (Suc ikey) (Suc isig) (int (length sigs)) (int (length keys)) =
        Inr (greedy V sigs keys, u') \<and> same_tx t u'"
      by (rule "3.IH"(1) [OF True sub(1) tu1]) (use S(3) K(3) "3.prems"(7) in \<open>simp_all add: ij\<close>)
    then show ?thesis using step True "3.prems"(7) by simp
  next
    case False
    show ?thesis
    proof (cases "length (sg # sigs) \<le> length keys")
      case le: True
      have IH: "\<exists>u'. ms_loop env xxx s u1 (Suc ikey) isig (int (length (sg # sigs))) (int (length keys)) =
          Inr (greedy V (sg # sigs) keys, u') \<and> same_tx t u'"
        by (rule "3.IH"(2) [OF False sub(2) tu1]) (use "3.prems"(3) K(3) le in \<open>simp_all add: ij\<close>)
      then show ?thesis using step False le by simp
    next
      case gt: False
      then have "\<not> greedy V (sg # sigs) keys" by (intro greedy_short) simp
      then show ?thesis using step False gt tu1 by simp
    qed
  qed
qed


section \<open>The script code\<close>

text \<open>
  Before segregated witnesses every signature is deleted from the script the signatures are for: the instructions that
  push it, found in the script that the deletion of the ones before has left.
\<close>

definition sig_push :: "bytes \<Rightarrow> bytes" where
  "sig_push sg = of_nat (length sg) # sg"

definition without_push :: "bytes \<Rightarrow> bytes \<Rightarrow> bytes" where
  "without_push sg scr = concat (filter (\<lambda>i. i \<noteq> sig_push sg) (raw_ops scr))"

fun some_push :: "bytes list \<Rightarrow> bytes \<Rightarrow> bool" where
  "some_push [] scr = False"
| "some_push (sg # sigs) scr = (sig_push sg \<in> set (raw_ops scr) \<or> some_push sigs (without_push sg scr))"

definition ms_code :: "evalenv \<Rightarrow> bytes list \<Rightarrow> bytes \<Rightarrow> bytes" where
  "ms_code env sigs scr = (if ev_sigversion env = SIGVERSION_BASE then fold without_push sigs scr else scr)"

definition ms_forbidden :: "evalenv \<Rightarrow> bytes list \<Rightarrow> bytes \<Rightarrow> bool" where
  "ms_forbidden env sigs scr \<longleftrightarrow>
     ev_sigversion env = SIGVERSION_BASE \<and> flag_on (ev_flags env) VER_CONST_SCRIPTCODE \<and> some_push sigs scr"

lemma delSig_without_push:
  assumes "length sg < 0xfd"
  shows "\<exists>n. delSig scr sg = Inr (without_push sg scr, n) \<and> (n > 0 \<longleftrightarrow> sig_push sg \<in> set (raw_ops scr))"
  using delSig_eq [OF assms, of scr] by (auto simp: without_push_def sig_push_def Let_def filter_empty_conv)

lemma ms_delsigs_eq:
  assumes "take (length sigs) (drop (isig - 1) s) = sigs" "0 < isig" "\<forall>sg \<in> set sigs. length sg < 0xfd"
  shows "ms_delsigs f s isig (length sigs) xxx =
    (if flag_on f VER_CONST_SCRIPTCODE \<and> some_push sigs xxx then Inl ErrFindAndDelete else Inr (fold without_push sigs xxx))"
  using assms
proof (induction sigs arbitrary: isig xxx)
  case (Cons sg sigs)
  obtain i where i: "isig = Suc i" using Cons.prems(2) by (cases isig) auto
  have t: "take (Suc (length sigs)) (drop i s) = sg # sigs" using Cons.prems(1) by (simp add: i)
  note T = take_drop_Cons [OF t]
  have top: "top isig s = Inr sg" using T(1,2) by (simp add: i top_def)
  obtain n where n: "delSig xxx sg = Inr (without_push sg xxx, n)" "n > 0 \<longleftrightarrow> sig_push sg \<in> set (raw_ops xxx)"
    using delSig_without_push [of sg xxx] Cons.prems(3) by auto
  have IH: "ms_delsigs f s (isig + 1) (length sigs) (without_push sg xxx) =
      (if flag_on f VER_CONST_SCRIPTCODE \<and> some_push sigs (without_push sg xxx) then Inl ErrFindAndDelete
       else Inr (fold without_push sigs (without_push sg xxx)))"
    by (rule Cons.IH) (use T(3) Cons.prems(3) in \<open>simp_all add: i\<close>)
  show ?case using n(2) IH by (cases "n > 0") (simp_all add: top n(1))
qed simp

section \<open>\<open>OP_CHECKMULTISIG\<close>\<close>

lemma ms_cleanup_skip:
  "ms_cleanup chk (Suc (length pre + n)) (length pre) (pre @ s) = ms_cleanup chk (Suc n) 0 s"
  by (induction pre) simp_all

lemma ms_cleanup_sigs:
  "ms_cleanup True (Suc (length sigs)) 0 (sigs @ s) =
     (if \<exists>sg \<in> set sigs. sg \<noteq> [] then Inl ErrNullFail else Inr s)"
  by (induction sigs) auto

lemma topInt_enc:
  assumes "\<bar>v\<bar> < 2 ^ 31" "0 < k" "k \<le> length s" "s ! (k - 1) = int_enc v"
  shows "topInt k cm s = Inr v"
  using popInt_pushInt [OF assms(1), of cm "[]"] assms(2-)
  by (auto simp: topInt_def popInt_def pushInt_def ok_iff is_minimal_int_enc split: if_splits)

text \<open>The stack the opcode expects, top first.\<close>

definition ms_stack :: "bytes list \<Rightarrow> bytes list \<Rightarrow> bytes \<Rightarrow> stack \<Rightarrow> stack" where
  "ms_stack sigs keys dummy s =
     int_enc (int (length keys)) # keys @ int_enc (int (length sigs)) # sigs @ dummy # s"

lemma ms_counts_stack:
  assumes "es_stack st = ms_stack sigs keys dummy s"
    "length keys \<le> 20" "length sigs \<le> length keys" "es_opcnt st + length keys \<le> 201"
  shows "ms_counts env st = Inr (length keys, length sigs, length keys + 3, length keys + 3 + length sigs,
    st\<lparr>es_opcnt := es_opcnt st + length keys\<rparr>)"
proof -
  have k: "topInt 1 (checkMinVals env) (es_stack st) = Inr (int (length keys))"
    by (rule topInt_enc) (use assms in \<open>simp_all add: ms_stack_def\<close>)
  have m: "topInt (2 + length keys) (checkMinVals env) (es_stack st) = Inr (int (length sigs))"
    by (rule topInt_enc) (use assms in \<open>simp_all add: ms_stack_def nth_append\<close>)
  have l: "length (es_stack st) = 3 + length keys + length sigs + length s"
    using assms(1) by (simp add: ms_stack_def)
  show ?thesis
    using assms(2-) k m l by (simp add: ms_counts_def need_def Let_def failIf_def)
qed

text \<open>
  Both opcodes in both versions. The signatures and keys are from the top of the stack downwards, below them the element
  that the opcode consumes in addition.
\<close>

definition ms_result :: "evalenv \<Rightarrow> nat \<Rightarrow> bytes list \<Rightarrow> bytes \<Rightarrow> bool \<Rightarrow> bytes \<Rightarrow> stack \<Rightarrow> script_error + stack" where
  "ms_result env opcode sigs scr ok dummy s =
     (if ms_forbidden env sigs scr then Inl ErrFindAndDelete
      else if \<not> ok \<and> flag_on (ev_flags env) VER_NULLFAIL \<and> (\<exists>sg \<in> set sigs. sg \<noteq> []) then Inl ErrNullFail
      else if flag_on (ev_flags env) VER_NULLDUMMY \<and> dummy \<noteq> [] then Inl ErrNullDummy
      else if opcode = 0xaf then (if ok then Inr s else Inl ErrVerify)
      else Inr (pushBool ok s))"

lemma op_checkmultisig_matching:
  fixes st :: estate and env :: evalenv
  defines "scr \<equiv> drop (es_pbegincodehash st) (ev_p env)"
  assumes stk: "es_stack st = ms_stack sigs keys dummy s"
    and cnt: "length keys \<le> 20" "length sigs \<le> length keys" "es_opcnt st + length keys \<le> 201"
    and sv: "ev_sigversion env \<noteq> SIGVERSION_TAPSCRIPT" "es_pbegincodehash st \<le> length (ev_p env)" "\<forall>sg \<in> set sigs. length sg < 0xfd"
    and ok: "caches_ok (es_tx st)" "checks_are env (ms_code env sigs scr) (es_tx st) V sigs keys"
  shows "\<exists>t'. same_tx (es_tx st) t' \<and> op_checkmultisig env opcode st =
    andThen (ms_result env opcode sigs scr (matchable V sigs keys) dummy s)
      (\<lambda>s'. Inr (st\<lparr>es_opcnt := es_opcnt st + length keys, es_tx := t', es_stack := s'\<rparr>))"
proof -
  let ?n = "length keys" and ?m = "length sigs"
  have from_: "bytes_from (ev_p env) (int (es_pbegincodehash st)) = Inr scr" using sv(2) by (simp add: scr_def)
  have at: "take ?m (drop (?n + 3 - 1) (es_stack st)) = sigs" using stk by (simp add: ms_stack_def)
  have "\<exists>t'. ms_loop env (ms_code env sigs scr) (es_stack st) (es_tx st) 2 (?n + 3) (int ?m) (int ?n) =
      Inr (greedy V sigs keys, t') \<and> same_tx (es_tx st) t'"
    by (rule ms_loop_greedy [OF ok(2)]) (use stk cnt ok(1) in \<open>simp_all add: ms_stack_def same_tx_def\<close>)
  then obtain t' where loop: "ms_loop env (ms_code env sigs scr) (es_stack st) (es_tx st) 2 (?n + 3) (int ?m) (int ?n) =
      Inr (matchable V sigs keys, t')" and t': "same_tx (es_tx st) t'"
    by (auto simp: greedy_matchable)
  have dels: "(if ev_sigversion env = SIGVERSION_BASE then ms_delsigs (ev_flags env) (es_stack st) (?n + 3) ?m scr else Inr scr) =
      (if ms_forbidden env sigs scr then Inl ErrFindAndDelete else Inr (ms_code env sigs scr))"
    using ms_delsigs_eq [OF at _ sv(3)] by (simp add: ms_code_def ms_forbidden_def)
  let ?chk = "\<not> matchable V sigs keys \<and> flag_on (ev_flags env) VER_NULLFAIL"
  let ?pre = "int_enc (int ?n) # keys @ [int_enc (int ?m)]"
  have pre: "es_stack st = ?pre @ sigs @ dummy # s" "length ?pre = ?n + 2"
    using stk by (simp_all add: ms_stack_def)
  have "ms_cleanup ?chk (Suc (length ?pre + ?m)) (length ?pre) (?pre @ sigs @ dummy # s) =
      (if ?chk \<and> (\<exists>sg \<in> set sigs. sg \<noteq> []) then Inl ErrNullFail else Inr (dummy # s))"
    unfolding ms_cleanup_skip by (cases ?chk) (simp_all only: ms_cleanup_sigs ms_cleanup_off simp_thms if_False
      length_append append_eq_conv_conj le_add1 if_True, simp_all)
  moreover have "Suc (length ?pre + ?m) = ?n + 3 + ?m" by simp
  ultimately have clean: "ms_cleanup ?chk (?n + 3 + ?m) (?n + 2) (es_stack st) =
      (if ?chk \<and> (\<exists>sg \<in> set sigs. sg \<noteq> []) then Inl ErrNullFail else Inr (dummy # s))"
    by (simp only: pre)
  have fields: "es_pbegincodehash (st\<lparr>es_opcnt := k\<rparr>) = es_pbegincodehash st" "es_stack (st\<lparr>es_opcnt := k\<rparr>) = es_stack st"
    "es_tx (st\<lparr>es_opcnt := k\<rparr>) = es_tx st" for k by simp_all
  have e: "op_checkmultisig env opcode st =
    andThen (if ms_forbidden env sigs scr then Inl ErrFindAndDelete else Inr (ms_code env sigs scr)) (\<lambda>xxx.
    andThen (ms_loop env xxx (es_stack st) (es_tx st) 2 (?n + 3) (int ?m) (int ?n)) (\<lambda>(success, t).
    andThen (ms_cleanup (\<not> success \<and> flag_on (ev_flags env) VER_NULLFAIL) (?n + 3 + ?m) (?n + 2) (es_stack st)) (\<lambda>s.
    if length s < 1 then Inl ErrDummyMissing
    else
      andThen (recov (top 1 s)) (\<lambda>dummy.
      if flag_on (ev_flags env) VER_NULLDUMMY \<and> length dummy \<noteq> 0 then Inl ErrNullDummy
      else
        andThen (recov (pop s)) (\<lambda>(_, s).
        if opcode = 0xaf then
          (if \<not> success then Inl ErrVerify else Inr (st\<lparr>es_opcnt := es_opcnt st + ?n, es_tx := t, es_stack := s\<rparr>))
        else Inr (st\<lparr>es_opcnt := es_opcnt st + ?n, es_tx := t, es_stack := pushBool success s\<rparr>))))))"
    unfolding op_checkmultisig_def if_not_P [OF sv(1)] ms_counts_stack [OF stk cnt] andThen_simps prod.case fields from_ liftErr_simps dels ..
  show ?thesis
  proof (cases "ms_forbidden env sigs scr")
    case True
    then show ?thesis using t' unfolding e by (intro exI [of _ t']) (simp add: ms_result_def)
  next
    case False
    show ?thesis
    proof (cases "?chk \<and> (\<exists>sg \<in> set sigs. sg \<noteq> [])")
      case fail: True
      then have c: "ms_cleanup ?chk (?n + 3 + ?m) (?n + 2) (es_stack st) = Inl ErrNullFail" using clean by simp
      have "op_checkmultisig env opcode st = Inl ErrNullFail"
        unfolding e if_not_P [OF False] andThen_simps loop prod.case c ..
      then show ?thesis using t' False fail by (intro exI [of _ t']) (simp add: ms_result_def)
    next
      case ok: False
      then have c: "ms_cleanup ?chk (?n + 3 + ?m) (?n + 2) (es_stack st) = Inr (dummy # s)" using clean by simp
      show ?thesis
        using t' False ok unfolding e if_not_P [OF False] andThen_simps loop prod.case c
        by (intro exI [of _ t']) (auto simp: ms_result_def top_def)
    qed
  qed
qed

end
