(* ===== verification/Samples.thy ===== *)
theory Samples
  imports P2PKH Multisig SigHashLaws
begin

text \<open>
  Concrete data for the witnesses of the properties: a transaction with one input and one output, a
  checker for it, and a signature oracle that accepts a signature whose first byte is that of the key.
\<close>

definition sample_in :: "bytes \<Rightarrow> txin" where
  "sample_in scr = \<lparr>ti_Input = \<lparr>po_Hash = replicate 32 7, po_Vout = 1\<rparr>, ti_ScriptSig = scr,
     ti_Sequence = 0xfffffffe\<rparr>"

definition sample_tx :: "bytes \<Rightarrow> tx" where
  "sample_tx scr = zero_tx\<lparr>tx_Version := 2, tx_TxIn := [Some (sample_in scr)],
     tx_TxOut := [Some (new_txout 5000 [0x51])]\<rparr>"

definition sample_checker :: "bytes \<Rightarrow> sigchecker" where
  "sample_checker scr = \<lparr>sc_Tx = sample_tx scr, sc_Idx = 0, sc_Amount = 6000\<rparr>"

definition sample_ec :: ec where
  "sample_ec = \<lparr>EC_Verify = \<lambda>pk sig h. take 1 sig = take 1 pk, Schnorr_Verify = \<lambda>pk sig h. True,
     Check_PayToContract = \<lambda>m b h p. False\<rparr>"

definition sample_sig :: bytes where
  "sample_sig = [2, 3, 1]"

definition sample_pub :: bytes where
  "sample_pub = [2, 5]"

text \<open>The checker of a spend of a pay-to-pubkey-hash output, and a transaction with a cached hash.\<close>

definition sample_p2pkh :: sigchecker where
  "sample_p2pkh = sample_checker (push_data sample_sig @ push_data sample_pub)"

definition sample_cached :: tx where
  "sample_cached = (sample_tx [])\<lparr>tx_hashPrevouts := Some (Sha2Sum (outpoint_bytes (sample_in [])))\<rparr>"

text \<open>A multisignature check: one signature, two keys, the second of which fits.\<close>

definition sample_env :: evalenv where
  "sample_env = \<lparr>ev_p = [0xae], ev_inp = 0, ev_amount = 6000, ev_flags = VER_NULLFAIL,
     ev_sigversion = SIGVERSION_WITNESS_V0, ev_ec = sample_ec\<rparr>"

definition sample_sigs :: "bytes list" where
  "sample_sigs = [[2, 3, 1]]"

definition sample_keys :: "bytes list" where
  "sample_keys = [[3, 5], [2, 5]]"

definition sample_fits :: "bytes \<Rightarrow> bytes \<Rightarrow> bool" where
  "sample_fits sg k \<longleftrightarrow> take 1 sg = take 1 k"

definition sample_state :: estate where
  "sample_state = eval_init (ms_stack sample_sigs sample_keys [] []) (sample_tx []) zero_execdata"

lemmas sample_defs = sample_in_def sample_tx_def sample_checker_def sample_ec_def

lemma sample_caches_ok: "caches_ok (sample_tx scr)"
  by (simp add: caches_ok_def cache_ok_def sample_tx_def zero_tx_def)

lemma sample_txin: "get_txin (sample_tx scr) 0 = Inr (sample_in scr)"
  by (simp add: get_txin_def sample_tx_def)

lemma sample_cached_ok: "caches_ok sample_cached"
  by (simp add: sample_cached_def caches_ok_def cache_ok_def all_outpoints_def sample_tx_def zero_tx_def)

text \<open>Running a script of one opcode by the equations of the loop.\<close>

lemmas run_script = evalScript_def eval_loop.simps eval_init_def GetOpcode_nonpush eval_instr_def
  pre_checks_def exec_op_def nofalse_def disabled_opcodes_def Let_def

lemma sample_run_empty:
  "evalScript ec [] s c f SIGVERSION_BASE ed =
     Inr (s, ed\<lparr>M_codeseparator_pos := 0xFFFFFFFF, M_codeseparator_pos_init := True\<rparr>, sc_Tx c)"
  by (simp add: evalScript_def eval_loop.simps eval_init_def)

lemma sample_run_true:
  "evalScript ec [0x51] [] c f SIGVERSION_BASE ed =
     Inr ([[1]], ed\<lparr>M_codeseparator_pos := 0xFFFFFFFF, M_codeseparator_pos_init := True\<rparr>, sc_Tx c)"
  by (simp add: run_script pushInt_def int_enc_def int_bytes.simps)

lemma sample_verify_true:
  assumes "sane_flags f" "\<not> flag_on f VER_WITNESS"
  shows "VerifyTxScript ec None [0x51] (sample_checker []) f = Inr True"
proof -
  have "verify_scripts ec (sample_checker []) f [] [0x51] = Inr True"
    using assms
    by (simp add: verify_scripts_def verify_output_def run_base_def sample_run_empty sample_run_true
        result_true_def bts2bool_def bare_witness_def verify_p2sh_def IsPayToScript_def verify_end_def sane_flags_def Let_def)
  then show ?thesis
    by (simp add: VerifyTxScript_def sample_txin Let_def IsPushOnly.simps sample_checker_def sample_in_def)
qed


lemma sample_checks: "checks_are sample_env [0xae] (sample_tx []) sample_fits sample_sigs sample_keys"
  by (simp add: checks_are_def sample_env_def sample_sigs_def sample_keys_def sample_fits_def
      CheckSignatureEncoding_def CheckPubKeyEncoding_def flag_on_def verifyECDSA_def sigversion_hash_def
      WitnessSigHash_def wsh_prevouts_def wsh_sequence_def wsh_outputs_def cached_def all_outpoints_def
      all_sequences_def all_outputs_def ser_txout_def get_txin_def last_byte_def EcdsaVerify_def sample_defs zero_tx_def)

text \<open>The same check in a legacy script that holds the signature, which is deleted from it.\<close>

definition sample_legacy_env :: evalenv where
  "sample_legacy_env = sample_env\<lparr>ev_p := [3, 2, 3, 1, 0xae], ev_sigversion := SIGVERSION_BASE\<rparr>"

lemma sample_legacy_code: "ms_code sample_legacy_env sample_sigs [3, 2, 3, 1, 0xae] = [0xae]"
  by (simp add: ms_code_def sample_legacy_env_def sample_sigs_def without_push_def sig_push_def raw_ops_def script_ops.simps
      GetOpcode_short GetOpcode_nonpush)

lemma sample_legacy_checks:
  "checks_are sample_legacy_env (ms_code sample_legacy_env sample_sigs (drop 0 (ev_p sample_legacy_env))) (sample_tx []) sample_fits
     sample_sigs sample_keys"
proof -
  have p: "drop 0 (ev_p sample_legacy_env) = [3, 2, 3, 1, 0xae]" by (simp add: sample_legacy_env_def)
  show ?thesis
    unfolding p sample_legacy_code
    by (simp add: checks_are_def sample_legacy_env_def sample_env_def sample_sigs_def sample_keys_def sample_fits_def
        CheckSignatureEncoding_def CheckPubKeyEncoding_def flag_on_def verifyECDSA_def sigversion_hash_def
        SignatureHash_def sighash_ins_def sighash_outs_def sighash_in_def ser_txout_def Let_def last_byte_def EcdsaVerify_def sample_defs zero_tx_def)
qed

lemma sample_matchable: "matchable sample_fits sample_sigs sample_keys"
  by (simp add: sample_fits_def sample_sigs_def sample_keys_def flip: greedy_matchable)

end
