(* ===== verification/TxChecks.thy ===== *)
theory TxChecks
  imports TxCodec
begin

text \<open>
  The rest of \<open>lib/btc/tx.go\<close> that needs no hashing of signatures: identifiers and sizes,
  \<open>CheckTransaction\<close>, \<open>IsFinal\<close>, the size scan \<open>TxSize\<close>, the signature-operation counts and the
  inscription scan.
\<close>

section \<open>Identifiers, hashes and sizes\<close>

definition UIdx :: "txprevout \<Rightarrow> u64" where
  "UIdx po = le_word (take 8 (po_Hash po)) XOR ucast (po_Vout po)"

definition allzeros :: "bytes \<Rightarrow> bool" where
  "allzeros b \<longleftrightarrow> list_all (\<lambda>x. x = 0) b"

definition po_IsNull :: "txprevout \<Rightarrow> bool" where
  "po_IsNull po \<longleftrightarrow> allzeros (po_Hash po) \<and> po_Vout po = 0xffffffff"

definition SetHash :: "tx \<Rightarrow> bytes option \<Rightarrow> go_panic + tx" where
  "SetHash t raw =
     (let (t, raw) = (case raw of None \<Rightarrow> (t, tx_Raw t) | Some r \<Rightarrow> (t\<lparr>tx_Raw := r\<rparr>, r));
          h = Sha2Sum raw;
          t = t\<lparr>tx_Size := of_nat (length raw)\<rparr>
      in if tx_SegWit t \<noteq> None then
           andThen (Serialize t) (\<lambda>nowit_raw.
           Inr (t\<lparr>tx_wTxID := h, tx_Hash := Sha2Sum nowit_raw, tx_NoWitSize := of_nat (length nowit_raw)\<rparr>))
         else Inr (t\<lparr>tx_Hash := h, tx_NoWitSize := tx_Size t\<rparr>))"

definition WTxID :: "tx \<Rightarrow> bytes" where
  "WTxID t = (if tx_SegWit t = None then tx_Hash t else tx_wTxID t)"

definition Weight :: "tx \<Rightarrow> int" where
  "Weight t = 3 * uint (tx_NoWitSize t) + uint (tx_Size t)"

definition VSize :: "tx \<Rightarrow> int" where
  "VSize t =
     (if tx_NoWitSize t = tx_Size t then uint (tx_Size t)
      else drop_bit 2 (3 * uint (tx_NoWitSize t + 1) + uint (tx_Size t)))"

section \<open>Context-free checks\<close>

definition IsCoinBase :: "tx \<Rightarrow> go_panic + bool" where
  "IsCoinBase t =
     (if length (tx_TxIn t) = 1 then
        andThen (deref (tx_TxIn t ! 0)) (\<lambda>i. Inr (po_IsNull (ti_Input i)))
      else Inr False)"

datatype tx_error =
    VinEmpty
  | VoutEmpty
  | Oversize
  | BadCbLength nat
  | PrevoutNull
  | TxPanic go_panic

fun check_prevouts :: "txin option list \<Rightarrow> tx_error + unit" where
  "check_prevouts [] = Inr ()"
| "check_prevouts (p # ps) =
     andThen (liftErr TxPanic (deref p)) (\<lambda>i.
     if po_IsNull (ti_Input i) then Inl PrevoutNull else check_prevouts ps)"

definition CheckTransaction :: "tx \<Rightarrow> tx_error + unit" where
  "CheckTransaction t =
     (if length (tx_TxIn t) = 0 then Inl VinEmpty
      else if length (tx_TxOut t) = 0 then Inl VoutEmpty
      else if tx_NoWitSize t * 4 > 4000000 then Inl Oversize
      else andThen (liftErr TxPanic (IsCoinBase t)) (\<lambda>cb.
        if cb then
          andThen (liftErr TxPanic (deref (tx_TxIn t ! 0))) (\<lambda>i.
          let n = length (ti_ScriptSig i) in
          if n < 2 \<or> n > 100 then Inl (BadCbLength n) else Inr ())
        else check_prevouts (tx_TxIn t)))"

fun all_final :: "txin option list \<Rightarrow> go_panic + bool" where
  "all_final [] = Inr True"
| "all_final (p # ps) =
     andThen (deref p) (\<lambda>i. if ti_Sequence i \<noteq> 0xffffffff then Inr False else all_final ps)"

definition IsFinal :: "tx \<Rightarrow> u32 \<Rightarrow> u32 \<Rightarrow> go_panic + bool" where
  "IsFinal t blockheight timestamp =
     (if tx_Lock_time t = 0 then Inr True
      else if tx_Lock_time t < 500000000 \<and> tx_Lock_time t < blockheight then Inr True
      else if \<not> tx_Lock_time t < 500000000 \<and> tx_Lock_time t < timestamp then Inr True
      else all_final (tx_TxIn t))"

section \<open>Sizes without parsing\<close>

text \<open>\<open>int\<close> arithmetic wraps at 64 bits; slicing at a computed offset checks both ends.\<close>

definition wrap64 :: "int \<Rightarrow> int" where
  "wrap64 x = sint (word_of_int x :: u64)"

definition TxInSize :: "bytes \<Rightarrow> go_panic + int" where
  "TxInSize b =
     andThen (bytes_from b 36) (\<lambda>b'.
     let (le, n) = VLen b' in
     if n = 0 then Inr 0 else Inr (wrap64 (36 + int n + le + 4)))"

definition TxOutSize :: "bytes \<Rightarrow> go_panic + int" where
  "TxOutSize b =
     andThen (bytes_from b 8) (\<lambda>b'.
     let (le, n) = VLen b' in
     if n = 0 then Inr 0 else Inr (wrap64 (8 + int n + le)))"

fun size_items :: "(bytes \<Rightarrow> go_panic + int) \<Rightarrow> bytes \<Rightarrow> nat \<Rightarrow> int \<Rightarrow> go_panic + int" where
  "size_items f b 0 offs = Inr offs"
| "size_items f b (Suc k) offs =
     andThen (bytes_from b offs) (\<lambda>b'. andThen (f b') (\<lambda>n. size_items f b k (wrap64 (offs + n))))"

text \<open>\<open>None\<close> is the early \<open>return 0\<close>.\<close>

fun size_wit_item :: "bytes \<Rightarrow> nat \<Rightarrow> int \<Rightarrow> go_panic + int option" where
  "size_wit_item b 0 offs = Inr (Some offs)"
| "size_wit_item b (Suc k) offs =
     andThen (bytes_from b offs) (\<lambda>b'.
     let (lel, n) = VLen b' in
     if n = 0 then Inr None else size_wit_item b k (wrap64 (offs + int n + lel)))"

fun size_witness :: "bytes \<Rightarrow> nat \<Rightarrow> int \<Rightarrow> go_panic + int option" where
  "size_witness b 0 offs = Inr (Some offs)"
| "size_witness b (Suc k) offs =
     andThen (bytes_from b offs) (\<lambda>b'.
     let (le, n) = VLen b' in
     if n = 0 then Inr None
     else andThen (size_wit_item b (nat le) (wrap64 (offs + int n))) (\<lambda>r.
       case r of None \<Rightarrow> Inr None | Some offs \<Rightarrow> size_witness b k offs))"

definition txsize_body :: "bytes \<Rightarrow> go_panic + int" where
  "txsize_body b =
     andThen (index b 4) (\<lambda>b4.
     andThen (if b4 = 0 then andThen (index b 5) (\<lambda>b5. Inr (b5 = 1)) else Inr False) (\<lambda>segwit.
     let offs = (if segwit then 6 else 4) in
     andThen (bytes_from b offs) (\<lambda>b'.
     let (txincnt, n) = VLen b' in
     if n = 0 then Inr 0 else
     andThen (size_items TxInSize b (nat txincnt) (offs + int n)) (\<lambda>offs.
     andThen (bytes_from b offs) (\<lambda>b'.
     let (le, n) = VLen b' in
     if n = 0 then Inr 0 else
     andThen (size_items TxOutSize b (nat le) (offs + int n)) (\<lambda>offs.
     andThen (if segwit then size_witness b (nat txincnt) offs else Inr (Some offs)) (\<lambda>r.
     case r of None \<Rightarrow> Inr 0 | Some offs \<Rightarrow> Inr (wrap64 (offs + 4)))))))))"

definition TxSize :: "bytes \<Rightarrow> int" where
  "TxSize b = (case txsize_body b of Inl _ \<Rightarrow> 0 | Inr n \<Rightarrow> n)"

section \<open>Signature operations and inscriptions\<close>

fun sum_ins_sigops :: "txin option list \<Rightarrow> go_panic + nat" where
  "sum_ins_sigops [] = Inr 0"
| "sum_ins_sigops (p # ps) = andThen (deref p) (\<lambda>i. andThen (sum_ins_sigops ps) (\<lambda>n.
     Inr (GetSigOpCount (ti_ScriptSig i) False + n)))"

fun sum_outs_sigops :: "txout option list \<Rightarrow> go_panic + nat" where
  "sum_outs_sigops [] = Inr 0"
| "sum_outs_sigops (p # ps) = andThen (deref p) (\<lambda>out. andThen (sum_outs_sigops ps) (\<lambda>n.
     Inr (GetSigOpCount (to_Pk_script out) False + n)))"

definition GetLegacySigOpCount :: "tx \<Rightarrow> go_panic + nat" where
  "GetLegacySigOpCount t =
     andThen (sum_ins_sigops (tx_TxIn t)) (\<lambda>a. andThen (sum_outs_sigops (tx_TxOut t)) (\<lambda>b. Inr (a + b)))"

text \<open>
  The data of the last instruction of \<open>scriptSig\<close>. The code ignores the error of \<open>GetOpcode\<close> here;
  it runs only after \<open>IsPushOnly\<close>, so there is none (\<open>last_data_push_only\<close>).
\<close>

function last_data :: "bytes \<Rightarrow> bytes option \<Rightarrow> bytes option" where
  "last_data scr data =
     (if scr = [] then data
      else case GetOpcode scr of Inl _ \<Rightarrow> None | Inr (_, data', n) \<Rightarrow> last_data (drop n scr) data')"
  by pat_completeness auto
termination by (relation "measure (\<lambda>(scr, _). length scr)") (auto simp: drop_shorter)

declare last_data.simps [simp del]

lemma last_data_push_only:
  "IsPushOnly scr \<Longrightarrow> last_data scr data = last (data # map (\<lambda>(_, d, _). d) (fst (script_ops scr)))"
proof (induction scr data rule: last_data.induct)
  case (1 scr data)
  show ?case
  proof (cases "scr = []")
    case False
    obtain op d n where g: "GetOpcode scr = Inr (op, d, n)" "IsPushOnly (drop n scr)"
      using "1.prems" False by (subst (asm) IsPushOnly.simps) (auto split: sum.splits if_splits)
    show ?thesis
      using "1.IH" [OF False g(1) refl refl g(2)] g False
      by (subst last_data.simps, subst script_ops.simps) (auto simp: Let_def split: prod.splits)
  qed (simp add: last_data.simps)
qed

definition CountWitnessSigOps :: "tx \<Rightarrow> nat \<Rightarrow> bytes \<Rightarrow> go_panic + nat" where
  "CountWitnessSigOps t inp scriptPubKey =
     andThen (index (tx_TxIn t) inp) (\<lambda>p. andThen (deref p) (\<lambda>i.
     let scriptSig = ti_ScriptSig i;
         segwit = (case tx_SegWit t of None \<Rightarrow> [] | Some w \<Rightarrow> w);
         witness = (if length segwit > inp then segwit ! inp else [])
     in case IsWitnessProgram scriptPubKey of
          (v, Some prog) \<Rightarrow> Inr (WitnessSigOps v prog witness)
        | (_, None) \<Rightarrow>
            if IsPayToScript scriptPubKey \<and> IsPushOnly scriptSig then
              (case IsWitnessProgram (bytes_of (last_data scriptSig None)) of
                 (v, Some prog) \<Rightarrow> Inr (WitnessSigOps v prog witness)
               | (_, None) \<Rightarrow> Inr 0)
            else Inr 0))"

definition is_ord :: "bytes \<Rightarrow> bool" where
  "is_ord sw \<longleftrightarrow> length sw > 40 \<and> sw ! 0 = 0x20 \<and>
     take 6 (drop 34 sw) = [0x00, 0x63, 0x03, 0x6f, 0x72, 0x64]"

text \<open>With \<open>quick\<close> the scan stops at the first hit and returns no scripts.\<close>

definition ContainsOrdFile :: "tx \<Rightarrow> bool \<Rightarrow> bool \<times> bytes list" where
  "ContainsOrdFile t quick =
     (let hits = filter is_ord (concat (case tx_SegWit t of None \<Rightarrow> [] | Some w \<Rightarrow> w)) in
      if quick then (hits \<noteq> [], []) else (hits \<noteq> [], hits))"

end
