(* ===== verification/TxLaws.thy ===== *)
theory TxLaws
  imports TxChecks
begin

text \<open>
  The size scan \<open>TxSize\<close> against the parser \<open>NewTx\<close> (lib/btc/tx.go): both advance by the same amounts,
  item by item, which a locale states and its interpretations give for inputs and outputs. The virtual
  size against the weight.
\<close>

section \<open>The size scan agrees with the parser\<close>

lemma wrap64_small: "0 \<le> x \<Longrightarrow> x < 2 ^ 63 \<Longrightarrow> wrap64 x = x"
  by (simp add: wrap64_def sint_sbintrunc' signed_take_bit_int_eq_self)

lemma VLen_bound: "VLen b = (le, n) \<Longrightarrow> n \<le> length b"
  by (auto simp: VLen_def split: list.splits if_splits)

text \<open>What the scan needs of a decoder and of the function that only measures its item.\<close>

locale sized_decoder =
  fixes dec :: "slice \<Rightarrow> go_panic + 'a option \<times> nat"
    and siz :: "bytes \<Rightarrow> go_panic + int"
  assumes siz_dec: "dec \<lparr>sl_data = d, sl_spare = []\<rparr> = Inr (x, n) \<Longrightarrow> length d < 2 ^ 63
      \<Longrightarrow> siz d = Inr (int n) \<and> n \<le> length d"
begin

lemma size_items_read:
  assumes "read_items dec \<lparr>sl_data = d, sl_spare = []\<rparr> k offs = Inr (xs, offs')" "length d < 2 ^ 63"
    and "offs \<le> length d"
  shows "size_items siz d k (int offs) = Inr (int offs') \<and> offs' \<le> length d"
  using assms(1,3)
proof (induction k arbitrary: offs xs)
  case (Suc k)
  then obtain x n ys where dec: "dec \<lparr>sl_data = drop offs d, sl_spare = []\<rparr> = Inr (x, n)"
    and rest: "read_items dec \<lparr>sl_data = d, sl_spare = []\<rparr> k (offs + n) = Inr (ys, offs')"
    by (auto simp: ok_iff)
  have s: "siz (drop offs d) = Inr (int n)" "n \<le> length d - offs"
    using siz_dec [OF dec] assms(2) by auto
  have "offs + n \<le> length d" using s(2) Suc.prems(2) by simp
  then have "wrap64 (int offs + int n) = int (offs + n)"
    using assms(2) by (subst wrap64_small) auto
  then show ?case
    using Suc.IH [OF rest] s Suc.prems(2) \<open>offs + n \<le> length d\<close> by simp
qed simp

end

interpretation sd_in: sized_decoder NewTxIn TxInSize
proof unfold_locales
  fix d :: bytes and x n
  assume 1: "NewTxIn \<lparr>sl_data = d, sl_spare = []\<rparr> = Inr (x, n)" and l: "length d < 2 ^ 63"
  obtain le m where v: "VLen (drop 36 d) = (le, m)" by (cases "VLen (drop 36 d)")
  from 1 v have d: "36 \<le> length d" by (auto simp: NewTxIn_def ok_iff)
  then have f: "bytes_from d 36 = Inr (drop 36 d)" by (simp add: bytes_from_def)
  have "m \<le> length d - 36" using VLen_bound [OF v] by simp
  show "TxInSize d = Inr (int n) \<and> n \<le> length d"
  proof (cases "m = 0")
    case True
    with 1 v f show ?thesis by (auto simp: NewTxIn_def TxInSize_def ok_iff)
  next
    case False
    with 1 v have le: "0 \<le> le" "36 + m + nat le + 4 = n" "n \<le> length d"
      by (auto simp: NewTxIn_def ok_iff make_ok_def Let_def split: if_splits)
    then have "wrap64 (36 + int m + le + 4) = int n" using l by (subst wrap64_small) auto
    with le False v f show ?thesis by (simp add: TxInSize_def)
  qed
qed

interpretation sd_out: sized_decoder NewTxOut TxOutSize
proof unfold_locales
  fix d :: bytes and x n
  assume 1: "NewTxOut \<lparr>sl_data = d, sl_spare = []\<rparr> = Inr (x, n)" and l: "length d < 2 ^ 63"
  obtain le m where v: "VLen (drop 8 d) = (le, m)" by (cases "VLen (drop 8 d)")
  from 1 v have d: "8 \<le> length d" by (auto simp: NewTxOut_def ok_iff)
  then have f: "bytes_from d 8 = Inr (drop 8 d)" by (simp add: bytes_from_def)
  show "TxOutSize d = Inr (int n) \<and> n \<le> length d"
  proof (cases "m = 0")
    case True
    with 1 v f show ?thesis by (auto simp: NewTxOut_def TxOutSize_def ok_iff)
  next
    case False
    with 1 v have le: "0 \<le> le" "8 + m + nat le = n" "n \<le> length d"
      by (auto simp: NewTxOut_def ok_iff make_ok_def Let_def split: if_splits)
    then have "wrap64 (8 + int m + le) = int n" using l by (subst wrap64_small) auto
    with le False v f show ?thesis by (simp add: TxOutSize_def)
  qed
qed

lemma size_wit_item_read:
  assumes "read_wit_item \<lparr>sl_data = d, sl_spare = []\<rparr> k offs = Inr (Some (ws, offs'))"
    "length d < 2 ^ 63" "offs \<le> length d"
  shows "size_wit_item d k (int offs) = Inr (Some (int offs')) \<and> offs' \<le> length d"
  using assms(1,3)
proof (induction k arbitrary: offs ws)
  case (Suc k)
  obtain lel n where v: "VLen (drop offs d) = (lel, n)" by (cases "VLen (drop offs d)")
  from Suc.prems v have n: "n \<noteq> 0" by (auto simp: ok_iff split: if_splits)
  with Suc.prems v obtain ws' where lel: "0 \<le> lel" "offs + n + nat lel \<le> length d"
    and rest: "read_wit_item \<lparr>sl_data = d, sl_spare = []\<rparr> k (offs + n + nat lel) = Inr (Some (ws', offs'))"
    by (auto simp: ok_iff make_ok_def Let_def split: if_splits)
  have "wrap64 (int offs + int n + lel) = int (offs + n + nat lel)"
    using lel assms(2) by (subst wrap64_small) auto
  then show ?case using Suc.IH [OF rest] v n lel Suc.prems(2) by simp
qed simp

lemma size_witness_read:
  assumes "read_witness \<lparr>sl_data = d, sl_spare = []\<rparr> k offs = Inr (Some (wss, offs'))"
    "length d < 2 ^ 63" "offs \<le> length d"
  shows "size_witness d k (int offs) = Inr (Some (int offs')) \<and> offs' \<le> length d"
  using assms(1,3)
proof (induction k arbitrary: offs wss)
  case (Suc k)
  obtain le n where v: "VLen (drop offs d) = (le, n)" by (cases "VLen (drop offs d)")
  from Suc.prems v have n: "n \<noteq> 0" by (auto simp: ok_iff split: if_splits)
  have nb: "offs + n \<le> length d" using VLen_bound [OF v] Suc.prems(2) by simp
  from Suc.prems v n obtain ws o1 wss' where
      item: "read_wit_item \<lparr>sl_data = d, sl_spare = []\<rparr> (nat le) (offs + n) = Inr (Some (ws, o1))"
    and rest: "read_witness \<lparr>sl_data = d, sl_spare = []\<rparr> k o1 = Inr (Some (wss', offs'))"
    by (auto simp: ok_iff split: if_splits option.splits)
  have w: "wrap64 (int offs + int n) = int (offs + n)"
    using nb assms(2) by (subst wrap64_small) auto
  from size_wit_item_read [OF item assms(2) nb]
  show ?case using Suc.IH [OF rest] v n w Suc.prems(2) by simp
qed simp

lemma TxSize_NewTx:
  assumes "NewTx \<lparr>sl_data = d, sl_spare = []\<rparr> = (Some t, n)" "length d < 2 ^ 63"
  shows "TxSize d = int n"
proof -
  let ?b = "\<lparr>sl_data = d, sl_spare = []\<rparr>"
  from assms(1) have body: "newtx_body ?b = Inr (Some t, n)"
    by (auto simp: NewTx_def split: sum.splits)
  define sw where "sw \<longleftrightarrow> d ! 4 = 0 \<and> d ! 5 = 1"
  define o0 :: nat where "o0 = (if sw then 6 else 4)"
  have lk: "4 < length d" using body by (auto simp: newtx_body_def ok_iff slice_index_def)
  have sg: "(if d ! 4 = 0 then andThen (index d 5) (\<lambda>b5. Inr (b5 = 1)) else Inr False) = (Inr sw :: go_panic + bool)"
    using body by (auto simp: newtx_body_def ok_iff slice_index_def sw_def split: if_splits)
  define t0 where "t0 = zero_tx\<lparr>tx_Version := le_word (take 4 d)\<rparr>"
  have ins: "newtx_ins ?b t0 sw o0 = Inr (Some t, n)"
    using body lk sg
    by (simp add: newtx_body_def slice_index_def slice_range_def o0_def t0_def split: if_splits)
  obtain c1 n1 where v1: "VLen (drop o0 d) = (c1, n1)" by (cases "VLen (drop o0 d)")
  from ins v1 have n1: "n1 \<noteq> 0" "o0 \<le> length d" by (auto simp: newtx_ins_def ok_iff split: if_splits)
  from ins v1 n1 obtain xs o1 where
      r1: "read_items NewTxIn ?b (nat c1) (o0 + n1) = Inr (xs, o1)" and mk: "0 \<le> c1"
    and outs: "newtx_outs ?b (t0\<lparr>tx_TxIn := xs\<rparr>) sw o1 = Inr (Some t, n)"
    by (auto simp: newtx_ins_def ok_iff make_ok_def split: if_splits)
  have lx: "read_items f b k off = Inr (ys, off') \<Longrightarrow> length ys = k" for f b k off off' and ys :: "'b option list"
    by (induction f b k off arbitrary: ys off' rule: read_items.induct) (auto simp: ok_iff)
  have "o0 + n1 \<le> length d" using VLen_bound [OF v1] n1 by simp
  note s1 = sd_in.size_items_read [OF r1 assms(2) this]
  obtain c2 n2 where v2: "VLen (drop o1 d) = (c2, n2)" by (cases "VLen (drop o1 d)")
  from outs v2 have n2: "n2 \<noteq> 0" by (auto simp: newtx_outs_def ok_iff split: if_splits)
  from outs v2 n2 obtain ys o2 where
      r2: "read_items NewTxOut ?b (nat c2) (o1 + n2) = Inr (ys, o2)"
    and seg: "newtx_segwit ?b (t0\<lparr>tx_TxIn := xs, tx_TxOut := ys\<rparr>) sw o2 = Inr (Some t, n)"
    by (auto simp: newtx_outs_def ok_iff split: if_splits)
  have "o1 + n2 \<le> length d" using VLen_bound [OF v2] conjunct2 [OF s1] by simp
  note s2 = sd_out.size_items_read [OF r2 assms(2) this]
  have "\<exists>o3. (if sw then size_witness d (nat c1) (int o2) else Inr (Some (int o2))) = Inr (Some (int o3))
      \<and> o3 + 4 = n \<and> n \<le> length d"
    using seg s2 size_witness_read [OF _ assms(2), of "nat c1" o2] lx [OF r1]
    by (auto simp: newtx_segwit_def newtx_finish_def ok_iff split: if_splits option.splits)
  then obtain o3 where o3: "(if sw then size_witness d (nat c1) (int o2) else Inr (Some (int o2))) = Inr (Some (int o3))"
      "o3 + 4 = n" "n \<le> length d" by blast
  have o0: "bytes_from d (if sw then 6 else 4) = Inr (drop o0 d)"
    by (cases sw) (use n1 in \<open>simp_all add: o0_def bytes_from_def\<close>)
  have o1: "(if sw then 6 else 4) + int n1 = int (o0 + n1)" by (simp add: o0_def)
  have "wrap64 (int o3 + 4) = int n" using o3 assms(2) by (subst wrap64_small) auto
  then have "txsize_body d = Inr (int n)"
    using lk n1(1) n2 s1 s2 o3(1)
    by (simp add: txsize_body_def sg o0 o1 v1 v2 flip: of_nat_add split del: if_split)
  then show ?thesis by (simp add: TxSize_def)
qed

section \<open>Sizes\<close>

text \<open>\<open>VSize\<close> is the weight divided by four, rounded up, as long as the 32-bit sizes do not wrap.\<close>

lemma VSize_Weight:
  assumes "tx_NoWitSize t \<noteq> - 1"
  shows "VSize t = (Weight t + 3) div 4"
proof -
  have "1 + tx_NoWitSize t \<noteq> 0"
    using assms(1) by (metis add.commute eq_neg_iff_add_eq_0)
  from unatSuc [OF this] have u: "uint (tx_NoWitSize t + 1) = uint (tx_NoWitSize t) + 1"
    by (metis add.commute int_ops(4) uint_nat)
  show ?thesis
  proof (cases "tx_NoWitSize t = tx_Size t")
    case False
    have "VSize t = (3 * (uint (tx_NoWitSize t) + 1) + uint (tx_Size t)) div 4"
      using False by (simp only: VSize_def u if_False drop_bit_eq_div) simp
    then show ?thesis by (simp add: Weight_def algebra_simps)
  qed (simp add: VSize_def Weight_def)
qed

section \<open>An input that does not parse\<close>

text \<open>
  Forty-two bytes: one input whose script length is a nine-byte form cut off by the end, then (read at the
  same offset again) one output and the lock time.
\<close>

definition nil_input_tx :: bytes where
  "nil_input_tx = [1, 0, 0, 0, 1, 1, 0, 0, 0, 0, 0, 0, 0, 0, 23, 0, 0, 0, 0, 0, 0, 0, 0, 0, 0, 0, 0, 0, 0, 0, 0,
     0, 0, 0, 0, 0, 0, 0, 0, 0, 0, 0xff]"

lemma nil_input_txin: "NewTxIn \<lparr>sl_data = drop 5 nil_input_tx, sl_spare = []\<rparr> = Inr (None, 0)"
  by (simp add: NewTxIn_def nil_input_tx_def slice_range_def slice_from_def VLen_def)

lemma nil_input_txout: "\<exists>out. NewTxOut \<lparr>sl_data = drop 6 nil_input_tx, sl_spare = []\<rparr> = Inr (Some out, 32)"
  by (simp add: NewTxOut_def nil_input_tx_def slice_range_def slice_from_def VLen_def make_ok_def)

lemma nil_input_head: "length nil_input_tx = 42" "nil_input_tx ! 4 = 1" by (simp_all add: nil_input_tx_def)

lemma nil_input_counts: "VLen (drop 4 nil_input_tx) = (1, 1)" "VLen (drop 5 nil_input_tx) = (1, 1)" 
  by (simp_all add: nil_input_tx_def VLen_def)

lemma read_one_item: "read_items f b (nat 1) offs = andThen (slice_from b offs) (\<lambda>b'.
     andThen (f b') (\<lambda>(x, n). Inr ([x], offs + n)))"
  by (auto simp: andThen_def split: sum.split prod.split)

lemma NewTx_nil_input:
  "\<exists>t. NewTx \<lparr>sl_data = nil_input_tx, sl_spare = []\<rparr> = (Some t, 42) \<and> tx_TxIn t = [None] \<and>
     CheckTransaction t = Inl (TxPanic NilPointer)"
proof -
  obtain out where o: "NewTxOut \<lparr>sl_data = drop 6 nil_input_tx, sl_spare = []\<rparr> = Inr (Some out, 32)" using nil_input_txout by blast
  let ?b = "\<lparr>sl_data = nil_input_tx, sl_spare = []\<rparr>"
  have 1: "newtx_outs ?b t False 5 = newtx_finish ?b (t\<lparr>tx_TxOut := [Some out]\<rparr>) 38" for t
    using o by (simp add: newtx_outs_def slice_from_def nil_input_head nil_input_counts read_one_item make_ok_def newtx_segwit_def)
  have 2: "newtx_ins ?b t False 4 = newtx_finish ?b (t\<lparr>tx_TxIn := [None], tx_TxOut := [Some out]\<rparr>) 38" for t
    using nil_input_txin by (simp add: newtx_ins_def slice_from_def nil_input_head nil_input_counts read_one_item make_ok_def 1)
  show ?thesis
    by (simp add: NewTx_def newtx_body_def slice_index_def slice_range_def nil_input_head 2 newtx_finish_def CheckTransaction_def
      IsCoinBase_def zero_tx_def)
qed

end
