(* ===== verification/Amounts.thy ===== *)
theory Amounts
  imports Encoding
begin

text \<open>
  Amounts: the compression of satoshi values in the UTXO database (\<open>CompressAmount\<close>,
  \<open>DecompressAmount\<close> of \<open>lib/btc/funcs.go\<close>), on 64-bit words as in the code, and the block
  reward of \<open>lib/btc/block.go\<close>.
\<close>

section \<open>Amount compression\<close>

text \<open>The loop \<open>for (n%10) == 0 && e < 9 { n /= 10; e++ }\<close>.\<close>

function strip_zeros :: "u64 \<Rightarrow> u64 \<Rightarrow> u64 \<times> u64" where
  "strip_zeros n e = (if n mod 10 = 0 \<and> e < 9 then strip_zeros (n div 10) (e + 1) else (n, e))"
  by pat_completeness auto
termination
  by (relation "measure (\<lambda>(n, e). 9 - unat e)")
     (auto simp: word_less_nat_alt unat_word_ariths)

definition CompressAmount :: "u64 \<Rightarrow> u64" where
  "CompressAmount n =
     (if n = 0 then 0
      else
        let (n, e) = strip_zeros n 0 in
        if e < 9 then
          let d = n mod 10; n = n div 10 in 1 + (n * 9 + d - 1) * 10 + e
        else 1 + (n - 1) * 10 + 9)"

text \<open>The loop \<open>for e != 0 { n *= 10; e-- }\<close>.\<close>

function mul_pow10 :: "u64 \<Rightarrow> u64 \<Rightarrow> u64" where
  "mul_pow10 n e = (if e \<noteq> 0 then mul_pow10 (n * 10) (e - 1) else n)"
  by pat_completeness auto
termination
  by (relation "measure (\<lambda>(n, e). unat e)") (auto simp: unat_minus_one unat_gt_0)

definition DecompressAmount :: "u64 \<Rightarrow> u64" where
  "DecompressAmount x =
     (if x = 0 then 0
      else
        let x = x - 1; e = x mod 10; x = x div 10 in
        let n = (if e < 9 then
                   let d = x mod 9 + 1; x = x div 9 in x * 10 + d
                 else x + 1)
        in mul_pow10 n e)"

declare strip_zeros.simps [simp del] mul_pow10.simps [simp del]

lemma strip_zeros_unat:
  "strip_zeros n e = (m, f) \<Longrightarrow> unat e \<le> 9 \<Longrightarrow>
     unat e \<le> unat f \<and> unat f \<le> 9 \<and> unat n = unat m * 10 ^ (unat f - unat e) \<and>
     (unat f < 9 \<longrightarrow> unat m mod 10 \<noteq> 0)"
proof (induction n e rule: strip_zeros.induct)
  case (1 n e)
  have mod10: "n mod 10 = 0 \<longleftrightarrow> unat n mod 10 = 0"
    by (simp add: word_eq_iff_unsigned [where 'a = nat] unat_mod)
  show ?case
  proof (cases "n mod 10 = 0 \<and> e < 9")
    case True
    then have e: "unat (e + 1) = Suc (unat e)" and lt: "unat e < 9"
      by (auto simp: word_less_nat_alt unat_word_ariths)
    have rec: "strip_zeros (n div 10) (e + 1) = (m, f)"
      using "1.prems" True by (simp add: strip_zeros.simps [of n e])
    have IH: "Suc (unat e) \<le> unat f" "unat f \<le> 9"
      "unat n div 10 = unat m * 10 ^ (unat f - Suc (unat e))"
      "unat f < 9 \<longrightarrow> unat m mod 10 \<noteq> 0"
      using "1.IH" [OF True rec] e lt by (auto simp: unat_div)
    have "unat n = unat n div 10 * 10"
      using True mod10 by (simp add: mod_eq_0_iff_dvd)
    also have "\<dots> = unat m * (10 ^ Suc (unat f - Suc (unat e)))"
      unfolding IH(3) by simp
    also have "Suc (unat f - Suc (unat e)) = unat f - unat e"
      using IH(1) by simp
    finally show ?thesis using IH by simp
  next
    case False
    then have "m = n" "f = e"
      using "1.prems" by (auto simp: strip_zeros.simps [of n e])
    with False mod10 "1.prems" show ?thesis
      by (auto simp: word_less_nat_alt)
  qed
qed

lemma mul_pow10_unat:
  "unat n * 10 ^ unat e < 2 ^ 64 \<Longrightarrow> unat (mul_pow10 n e) = unat n * 10 ^ unat e"
proof (induction n e rule: mul_pow10.induct)
  case (1 n e)
  show ?case
  proof (cases "e = 0")
    case True
    then show ?thesis by (simp add: mul_pow10.simps [of n 0])
  next
    case False
    then have e: "unat e = Suc (unat (e - 1))"
      by (simp add: unat_minus_one unat_gt_0)
    have "unat n * 10 \<le> unat n * 10 ^ unat e"
      by (simp add: e)
    also have "\<dots> < 2 ^ LENGTH(64)"
      using "1.prems" by simp
    finally have n10: "unat (n * 10) = unat n * 10"
      by (subst unat_mult_small) simp_all
    have "unat (mul_pow10 (n * 10) (e - 1)) = unat (n * 10) * 10 ^ unat (e - 1)"
      using "1.IH" [OF False] "1.prems" n10 e by (simp add: mult.assoc)
    with False n10 e show ?thesis
      by (simp add: mul_pow10.simps [of n e])
  qed
qed

text \<open>What \<open>CompressAmount\<close> computes, without wrap-around, below two billion coins.\<close>

lemma compress_low_unat:
  fixes f q r :: u64
  assumes bnd: "unat q \<le> 200000000000000000" and r: "unat r < 10" "unat r > 0" and f: "unat f < 9"
  shows "unat (1 + (q * 9 + r - 1) * 10 + f) = 1 + (unat q * 9 + unat r - 1) * 10 + unat f"
proof -
  have q9: "unat (q * 9) = unat q * 9"
    by (subst unat_mult_small) (use bnd in simp_all)
  have w1: "unat (q * 9 + r) = unat q * 9 + unat r"
    by (subst unat_add_small) (use bnd r q9 in simp_all)
  have w2: "unat (q * 9 + r - 1) = unat q * 9 + unat r - 1"
    by (subst unat_sub_small) (use r w1 in simp_all)
  have w3: "unat ((q * 9 + r - 1) * 10) = (unat q * 9 + unat r - 1) * 10"
    by (subst unat_mult_small) (use w2 bnd r in simp_all)
  have w4: "unat (1 + (q * 9 + r - 1) * 10) = 1 + (unat q * 9 + unat r - 1) * 10"
    by (subst unat_add_small) (use w3 bnd r in simp_all)
  show ?thesis
    by (subst unat_add_small) (use w4 f bnd r in simp_all)
qed

lemma compress_high_unat:
  assumes "unat (m :: u64) \<le> 2000000000" "unat m > 0"
  shows "unat (1 + (m - 1) * 10 + 9) = 1 + (unat m - 1) * 10 + 9"
proof -
  have w1: "unat (m - 1) = unat m - 1"
    by (subst unat_sub_small) (use assms in simp_all)
  have w2: "unat ((m - 1) * 10) = (unat m - 1) * 10"
    by (subst unat_mult_small) (use assms w1 in simp_all)
  have w3: "unat (1 + (m - 1) * 10) = 1 + (unat m - 1) * 10"
    by (subst unat_add_small) (use assms w2 in simp_all)
  show ?thesis
    by (subst unat_add_small) (use assms w3 in simp_all)
qed

lemma CompressAmount_unat:
  assumes "n \<noteq> 0" "unat n \<le> 2000000000000000000" "strip_zeros n 0 = (m, f)"
  shows "unat (CompressAmount n) =
    (if unat f < 9 then 1 + (unat m div 10 * 9 + unat m mod 10 - 1) * 10 + unat f
     else 1 + (unat m - 1) * 10 + 9)"
    and "unat m > 0"
proof -
  have S: "unat f \<le> 9" "unat n = unat m * 10 ^ unat f" "unat f < 9 \<longrightarrow> unat m mod 10 \<noteq> 0"
    using strip_zeros_unat [OF assms(3)] by auto
  show m0: "unat m > 0"
    using S(2) assms(1) by (metis mult_is_0 neq0_conv unat_eq_0)
  have "unat m * 1 \<le> unat m * 10 ^ unat f"
    by (rule mult_le_mono2) simp
  then have "unat m \<le> unat n" using S(2) by simp
  then have mn: "unat m \<le> 2000000000000000000"
    using assms(2) by (rule le_trans)
  show "unat (CompressAmount n) =
    (if unat f < 9 then 1 + (unat m div 10 * 9 + unat m mod 10 - 1) * 10 + unat f
     else 1 + (unat m - 1) * 10 + 9)"
  proof (cases "unat f < 9")
    case True
    have unat10: "unat (10 :: u64) = 10" by simp
    have "unat m div 10 \<le> 2000000000000000000 div 10"
      using mn by (rule div_le_mono)
    then have "unat (m div 10) \<le> 200000000000000000" "unat (m mod 10) < 10" "unat (m mod 10) > 0"
      using S(3) True by (simp_all add: unat_div unat_mod)
    note low = compress_low_unat [OF this True]
    have "f < 9" using True by (simp add: word_less_nat_alt)
    with assms(1,3) have "CompressAmount n = 1 + (m div 10 * 9 + m mod 10 - 1) * 10 + f"
      by (simp only: CompressAmount_def Let_def prod.case if_True if_False)
    with low True show ?thesis
      by (simp only: unat_div unat_mod unat10 if_True)
  next
    case False
    with S(1) have "unat f = 9" by simp
    then have "unat m \<le> 2000000000"
      using S(2) assms(2) by simp
    note high = compress_high_unat [OF this m0]
    have "\<not> f < 9" using False by (simp add: word_less_nat_alt)
    with assms(1,3) have "CompressAmount n = 1 + (m - 1) * 10 + 9"
      by (simp only: CompressAmount_def Let_def prod.case if_True if_False)
    with high False show ?thesis
      by (simp only: if_False)
  qed
qed

text \<open>The round trip; every amount of the currency is far below the bound.\<close>

lemma digits9:
  fixes q r :: nat
  assumes "0 < r" "r < 10"
  shows "(q * 9 + r - 1) mod 9 + 1 = r" "(q * 9 + r - 1) div 9 = q"
proof -
  obtain s where s: "r = Suc s" "s < 9" using assms by (cases r) auto
  then show "(q * 9 + r - 1) mod 9 + 1 = r" "(q * 9 + r - 1) div 9 = q" by simp_all
qed

lemma Decompress_Compress:
  assumes "unat n \<le> 2000000000000000000"
  shows "DecompressAmount (CompressAmount n) = n"
proof (cases "n = 0")
  case True
  then show ?thesis by (simp add: CompressAmount_def DecompressAmount_def)
next
  case False
  obtain m f where mf: "strip_zeros n 0 = (m, f)" by fastforce
  have S: "unat f \<le> 9" "unat n = unat m * 10 ^ unat f" "unat f < 9 \<longrightarrow> unat m mod 10 \<noteq> 0"
    using strip_zeros_unat [OF mf] by auto
  let ?c = "CompressAmount n"
  note C = CompressAmount_unat [OF False assms mf]
  have c0: "?c \<noteq> 0" using C(1) by (auto simp: unat_eq_0 [symmetric] split: if_splits)
  define x where "x = ?c - 1"
  have x: "unat x = unat ?c - 1" using c0 by (simp add: x_def unat_minus_one)
  have xf: "x mod 10 = f"
    using S(1) C(1) x by (auto simp: word_unat_eq_iff unat_mod split: if_splits)
  have result: "mul_pow10 m f = n"
    using mul_pow10_unat [of m f] S(2) unsigned_less [of n, where 'a = nat]
    by (simp add: word_unat_eq_iff)
  have "(if f < 9 then x div 10 div 9 * 10 + (x div 10 mod 9 + 1) else x div 10 + 1) = m"
  proof (cases "unat f < 9")
    case True
    let ?q = "unat m div 10" let ?r = "unat m mod 10"
    have r: "0 < ?r" "?r < 10" using S(3) True by simp_all
    have "unat x = (?q * 9 + ?r - 1) * 10 + unat f" using C(1) x True by simp
    then have xd: "unat (x div 10) = ?q * 9 + ?r - 1" using True by (simp add: unat_div)
    have q: "x div 10 div 9 = m div 10"
      using digits9(2) [OF r, of ?q] xd by (simp add: word_unat_eq_iff unat_div)
    have m: "unat (x div 10 mod 9) + 1 = ?r"
      using digits9(1) [OF r, of ?q] xd by (simp add: unat_mod)
    have "x div 10 mod 9 + 1 = m mod 10"
      using m r by (simp add: word_unat_eq_iff unat_add_small unat_mod del: unat_div_distrib unat_mod_distrib)
    with q True show ?thesis
      by (simp add: word_less_nat_alt div_mult_mod_eq)
  next
    case False
    then have "unat (x div 10) = unat m - 1" using C(1) x by (simp add: unat_div)
    then have "x div 10 = m - 1" using C(2) by (simp add: word_unat_eq_iff unat_sub_small)
    with False show ?thesis by (simp add: word_less_nat_alt)
  qed
  moreover have "DecompressAmount ?c =
      mul_pow10 (if f < 9 then x div 10 div 9 * 10 + (x div 10 mod 9 + 1) else x div 10 + 1) f"
    using c0 xf by (simp only: DecompressAmount_def Let_def if_False flip: x_def)
  ultimately show ?thesis using result by (simp only:)
qed

end
