(* ===== verification/UtxoRec.thy ===== *)
theory UtxoRec
  imports TxCodec
begin

text \<open>
  The records of the database of unspent outputs (\<open>lib/utxo/unspent_rec.go\<close>, \<open>unspent_recu.go\<close>): the outputs of
  one transaction that are not spent yet, their serialisation into a buffer of the exact size, the reader of a
  whole record and the reader of one output. A reader that meets a truncated length does not advance, so the
  loops are partial functions whose \<open>None\<close> is not returning.
\<close>

section \<open>Data\<close>

record utxo_out =
  uo_Value :: u64
  uo_PKScr :: bytes

record utxo_rec =
  ur_TxID :: bytes
  ur_Coinbase :: bool
  ur_InBlock :: u32
  ur_Outs :: "utxo_out option list"

abbreviation (input) UtxoIdxLen :: nat where "UtxoIdxLen \<equiv> 8"

text \<open>A key is the first bytes of the transaction identifier.\<close>

definition UtxoKey :: "bytes \<Rightarrow> bytes" where
  "UtxoKey h = take UtxoIdxLen h"

section \<open>Writing into a buffer\<close>

text \<open>The buffer and the offset \<open>of\<close>; \<open>copy\<close> stops at the end of its target.\<close>

definition buf_put :: "u64 \<Rightarrow> bytes \<times> nat \<Rightarrow> go_panic + bytes \<times> nat" where
  "buf_put x = (\<lambda>(buf, pos).
     andThen (bytes_from buf (int pos)) (\<lambda>b.
     andThen (PutULe b x) (\<lambda>(b, n). Inr (take pos buf @ b, pos + n))))"

definition buf_copy :: "bytes \<Rightarrow> bytes \<times> nat \<Rightarrow> go_panic + bytes \<times> nat" where
  "buf_copy src = (\<lambda>(buf, pos).
     andThen (bytes_from buf (int pos)) (\<lambda>b.
     Inr (take pos buf @ take (length b) src @ drop (length src) b, pos + length src)))"

text \<open>What both do when there is room: the bytes at the offset are replaced.\<close>

definition written :: "bytes \<Rightarrow> bytes \<times> nat \<Rightarrow> bytes \<times> nat" where
  "written ws = (\<lambda>(buf, pos). (take pos buf @ ws @ drop (pos + length ws) buf, pos + length ws))"

definition has_room :: "bytes \<Rightarrow> bytes \<times> nat \<Rightarrow> bool" where
  "has_room ws = (\<lambda>(buf, pos). pos + length ws \<le> length buf)"

lemma PutULe_WriteVlen: "PutULe b x = put_front b (WriteVlen x)"
  by (simp add: PutULe_def WriteVlen_def)

lemma buf_put_written: "has_room (WriteVlen x) w \<Longrightarrow> buf_put x w = Inr (written (WriteVlen x) w)"
  by (cases w) (simp add: has_room_def buf_put_def written_def PutULe_WriteVlen put_front_def bytes_from_def add.commute)

lemma buf_copy_written: "has_room src w \<Longrightarrow> buf_copy src w = Inr (written src w)"
  by (cases w) (simp add: has_room_def buf_copy_def written_def bytes_from_def add.commute)

lemma has_room_append: "has_room (a @ b) w \<longleftrightarrow> has_room a w \<and> has_room b (written a w)"
  by (cases w) (auto simp: has_room_def written_def)

lemma written_append: "has_room (a @ b) w \<Longrightarrow> written b (written a w) = written (a @ b) w"
proof -
  assume r: "has_room (a @ b) w"
  obtain buf pos where w: "w = (buf, pos)" by fastforce
  with r have "pos \<le> length buf" by (simp add: has_room_def)
  then show ?thesis by (simp add: written_def w ac_simps)
qed

lemma written_Nil [simp]: "written [] (buf, pos) = (buf, pos)"
  by (simp add: written_def)

lemma written_all: "length ws = length buf \<Longrightarrow> written ws (buf, 0) = (ws, length buf)"
  by (simp add: written_def)

section \<open>Serialising a record\<close>

definition out_count :: "utxo_rec \<Rightarrow> u64" where
  "out_count rec = (push_bit 1 (of_nat (length (ur_Outs rec))) OR (if ur_Coinbase rec then 1 else 0))"

text \<open>
  The package has two formats behind the function variables \<open>Serialize\<close>, \<open>NewUtxoRec\<close> and \<open>OneUtxoRec\<close>. They
  differ in what they do with a value and a script: how an amount is written and read, which scripts are
  packed, what is added to the length of the others, where the bytes of a script are, and how a packed
  one is unpacked.
\<close>

record utxo_format =
  uf_amount :: "u64 \<Rightarrow> u64"
  uf_value :: "u64 \<Rightarrow> u64"
  uf_pack :: "bytes \<Rightarrow> bytes option"
  uf_bias :: nat
  uf_span :: "slice \<Rightarrow> nat \<Rightarrow> go_panic + bool \<times> nat \<times> int"
  uf_unpack :: "bytes \<Rightarrow> go_panic + bytes"

text \<open>Both run the same two passes over the outputs: the size, then the writing.\<close>

definition out_len :: "utxo_format \<Rightarrow> nat \<Rightarrow> utxo_out \<Rightarrow> nat" where
  "out_len fmt i r = VLenSize (of_nat i) + VLenSize (uf_amount fmt (uo_Value r)) +
     (case uf_pack fmt (uo_PKScr r) of
        Some c \<Rightarrow> length c
      | None \<Rightarrow> VLenSize (of_nat (uf_bias fmt + length (uo_PKScr r))) + length (uo_PKScr r))"

fun sum_outs :: "utxo_format \<Rightarrow> nat \<Rightarrow> utxo_out option list \<Rightarrow> nat" where
  "sum_outs fmt i [] = 0"
| "sum_outs fmt i (r # rs) = (case r of None \<Rightarrow> 0 | Some x \<Rightarrow> out_len fmt i x) + sum_outs fmt (Suc i) rs"

definition put_out :: "utxo_format \<Rightarrow> nat \<Rightarrow> utxo_out \<Rightarrow> bytes \<times> nat \<Rightarrow> go_panic + bytes \<times> nat" where
  "put_out fmt i r w =
     andThen (buf_put (of_nat i) w) (\<lambda>w.
     andThen (buf_put (uf_amount fmt (uo_Value r)) w) (\<lambda>w.
     case uf_pack fmt (uo_PKScr r) of
       Some c \<Rightarrow> buf_copy c w
     | None \<Rightarrow>
         andThen (buf_put (of_nat (uf_bias fmt + length (uo_PKScr r))) w) (\<lambda>w.
         buf_copy (uo_PKScr r) w)))"

fun put_outs :: "utxo_format \<Rightarrow> nat \<Rightarrow> utxo_out option list \<Rightarrow> bytes \<times> nat \<Rightarrow> go_panic + bytes \<times> nat" where
  "put_outs fmt i [] w = Inr w"
| "put_outs fmt i (r # rs) w =
     andThen (case r of None \<Rightarrow> Inr w | Some x \<Rightarrow> put_out fmt i x w) (\<lambda>w. put_outs fmt (Suc i) rs w)"

text \<open>
  \<open>use_buf\<close> is cut to the size, which can use its spare bytes; without one the record is written to memory
  from \<open>Memory_Malloc\<close>, a variable of the package (\<open>alloc\<close>, which returns \<open>le\<close> bytes of any content). A record
  without outputs is nil.
\<close>

definition serialize :: "utxo_format \<Rightarrow> (nat \<Rightarrow> bytes) \<Rightarrow> utxo_rec \<Rightarrow> bool \<Rightarrow> slice option \<Rightarrow> go_panic + bytes option" where
  "serialize fmt alloc rec full use_buf =
     (let outcnt = out_count rec;
          le = (if full then 32 else 32 - UtxoIdxLen) + VLenSize (ucast (ur_InBlock rec)) + VLenSize outcnt
               + sum_outs fmt 0 (ur_Outs rec)
      in if \<forall>r \<in> set (ur_Outs rec). r = None then Inr None
         else
           andThen (case use_buf of None \<Rightarrow> Inr (alloc le) | Some b \<Rightarrow> slice_range b 0 le) (\<lambda>buf.
           andThen (buf_copy (if full then ur_TxID rec else drop UtxoIdxLen (ur_TxID rec)) (buf, 0)) (\<lambda>w.
           andThen (buf_put (ucast (ur_InBlock rec)) w) (\<lambda>w.
           andThen (buf_put outcnt w) (\<lambda>w.
           andThen (put_outs fmt 0 (ur_Outs rec) w) (\<lambda>(buf, _). Inr (Some buf)))))))"

section \<open>Reading a record\<close>

definition read_VULe :: "slice \<Rightarrow> nat \<Rightarrow> go_panic + u64 \<times> nat" where
  "read_VULe dat off = andThen (slice_from dat off) (\<lambda>b. let (x, n) = VULe (sl_data b) in Inr (x, off + n))"

definition slice_at :: "slice \<Rightarrow> nat \<Rightarrow> int \<Rightarrow> go_panic + bytes" where
  "slice_at dat off i = (if i < 0 then Inl SliceOutOfRange else slice_range dat off (off + nat i))"

definition read_script :: "utxo_format \<Rightarrow> slice \<Rightarrow> bool \<times> nat \<times> int \<Rightarrow> go_panic + bytes" where
  "read_script fmt dat = (\<lambda>(packed, off, i).
     andThen (slice_at dat off i) (\<lambda>s. if packed then uf_unpack fmt s else Inr s))"

text \<open>One output: the outputs with this one entered, and where the loop continues.\<close>

definition read_out :: "utxo_format \<Rightarrow> slice \<Rightarrow> nat \<Rightarrow> utxo_out option list \<Rightarrow> go_panic + utxo_out option list \<times> nat" where
  "read_out fmt dat off outs =
     andThen (read_VULe dat off) (\<lambda>(idx, off).
     if unat idx \<ge> length outs then Inl IndexOutOfRange
     else
       andThen (read_VULe dat off) (\<lambda>(v, off).
       andThen (uf_span fmt dat off) (\<lambda>(packed, off, i).
       andThen (read_script fmt dat (packed, off, i)) (\<lambda>scr.
       Inr (outs[unat idx := Some \<lparr>uo_Value = uf_value fmt v, uo_PKScr = scr\<rparr>], off + nat i)))))"

partial_function (option) read_outs :: "utxo_format \<Rightarrow> slice \<Rightarrow> nat \<Rightarrow> utxo_out option list
    \<Rightarrow> (go_panic + utxo_out option list) option" where
  "read_outs fmt dat off outs =
     (if off < length (sl_data dat) then
        (case read_out fmt dat off outs of Inl e \<Rightarrow> Some (Inl e) | Inr (outs, off) \<Rightarrow> read_outs fmt dat off outs)
      else Some (Inr outs))"

text \<open>The fields before the outputs: the rest of the identifier, the height, the count with the coinbase bit.\<close>

definition read_counts :: "slice \<Rightarrow> nat \<Rightarrow> go_panic + u32 \<times> u64 \<times> nat" where
  "read_counts dat off =
     andThen (read_VULe dat off) (\<lambda>(b, off).
     andThen (read_VULe dat off) (\<lambda>(c, off).
     Inr (ucast b, c, off)))"

definition NewUtxoRec :: "utxo_format \<Rightarrow> bytes \<Rightarrow> slice \<Rightarrow> (go_panic + utxo_rec) option" where
  "NewUtxoRec fmt key dat =
     (let off = 32 - UtxoIdxLen in
      case andThen (slice_range dat 0 off) (\<lambda>h. andThen (read_counts dat off) (\<lambda>r. Inr (h, r))) of
        Inl e \<Rightarrow> Some (Inl e)
      | Inr (h, b, c, off) \<Rightarrow>
          if \<not> make_ok 8 (uint (drop_bit 1 c)) then Some (Inl MakeSlice)
          else
            map_option (\<lambda>r. andThen r (\<lambda>outs.
                Inr \<lparr>ur_TxID = key @ h, ur_Coinbase = c AND 1 \<noteq> 0, ur_InBlock = b, ur_Outs = outs\<rparr>))
              (read_outs fmt dat off (replicate (unat (drop_bit 1 c)) None)))"

definition FullUtxoRec :: "utxo_format \<Rightarrow> slice \<Rightarrow> (go_panic + utxo_rec) option" where
  "FullUtxoRec fmt dat =
     (case slice_range dat 0 UtxoIdxLen of
        Inl e \<Rightarrow> Some (Inl e)
      | Inr key \<Rightarrow> (case slice_from dat UtxoIdxLen of Inl e \<Rightarrow> Some (Inl e) | Inr d \<Rightarrow> NewUtxoRec fmt key d))"

section \<open>Reading one output\<close>

text \<open>One round of the search: stop with a result, or go on at an offset.\<close>

definition find_step :: "utxo_format \<Rightarrow> slice \<Rightarrow> nat \<Rightarrow> u32 \<Rightarrow> go_panic + utxo_out option + int" where
  "find_step fmt dat off vout =
     andThen (read_VULe dat off) (\<lambda>(idx, off).
     if (ucast idx :: u32) > vout then Inr (Inl None)
     else
       andThen (read_VULe dat off) (\<lambda>(v, off).
       andThen (uf_span fmt dat off) (\<lambda>(packed, off, i).
       if (ucast idx :: u32) = vout then
         andThen (read_script fmt dat (packed, off, i)) (\<lambda>scr.
         Inr (Inl (Some \<lparr>uo_Value = uf_value fmt v, uo_PKScr = scr\<rparr>)))
       else Inr (Inr (int off + i)))))"

partial_function (option) find_out :: "utxo_format \<Rightarrow> slice \<Rightarrow> nat \<Rightarrow> u32 \<Rightarrow> (go_panic + utxo_out option) option" where
  "find_out fmt dat off vout =
     (if off < length (sl_data dat) then
        (case find_step fmt dat off vout of
           Inl e \<Rightarrow> Some (Inl e)
         | Inr (Inl r) \<Rightarrow> Some (Inr r)
         | Inr (Inr off') \<Rightarrow> if off' < 0 then Some (Inl SliceOutOfRange) else find_out fmt dat (nat off') vout)
      else Some (Inr None))"

text \<open>The \<open>TxOut\<close> returned has the fields that only this reader sets.\<close>

definition OneUtxoRec :: "utxo_format \<Rightarrow> slice \<Rightarrow> u32 \<Rightarrow> (go_panic + txout option) option" where
  "OneUtxoRec fmt dat vout =
     (case read_counts dat (32 - UtxoIdxLen) of
        Inl e \<Rightarrow> Some (Inl e)
      | Inr (b, c, off) \<Rightarrow>
          let cnt = ucast (drop_bit 1 c) :: u32 in
          if cnt \<le> vout then Some (Inr None)
          else
            map_option (\<lambda>r. andThen r (\<lambda>r. Inr (map_option (\<lambda>x.
                \<lparr>to_Value = uo_Value x, to_Pk_script = uo_PKScr x, to_BlockHeight = b, to_VoutCount = cnt,
                  to_WasCoinbase = c AND 1 \<noteq> 0\<rparr>) r)))
              (find_out fmt dat off vout))"

section \<open>The plain format\<close>

definition span_U :: "slice \<Rightarrow> nat \<Rightarrow> go_panic + bool \<times> nat \<times> int" where
  "span_U dat off = andThen (slice_from dat off) (\<lambda>b. let (i, n) = VLen (sl_data b) in Inr (False, off + n, i))"

definition plain :: utxo_format where
  "plain = \<lparr>uf_amount = (\<lambda>v. v), uf_value = (\<lambda>v. v), uf_pack = (\<lambda>_. None), uf_bias = 0, uf_span = span_U,
     uf_unpack = (\<lambda>s. Inr s)\<rparr>"

definition SerializeU :: "(nat \<Rightarrow> bytes) \<Rightarrow> utxo_rec \<Rightarrow> bool \<Rightarrow> slice option \<Rightarrow> go_panic + bytes option" where
  "SerializeU = serialize plain"

definition NewUtxoRecU :: "bytes \<Rightarrow> slice \<Rightarrow> (go_panic + utxo_rec) option" where
  "NewUtxoRecU = NewUtxoRec plain"

definition FullUtxoRecU :: "slice \<Rightarrow> (go_panic + utxo_rec) option" where
  "FullUtxoRecU = FullUtxoRec plain"

definition OneUtxoRecU :: "slice \<Rightarrow> u32 \<Rightarrow> (go_panic + txout option) option" where
  "OneUtxoRecU = OneUtxoRec plain"

section \<open>The interface of a format\<close>

text \<open>The bytes of one script, of one output, of the outputs of a record and of a record.\<close>

definition packed_script :: "utxo_format \<Rightarrow> bytes \<Rightarrow> bytes" where
  "packed_script fmt s = (case uf_pack fmt s of Some c \<Rightarrow> c | None \<Rightarrow> vlen_of (uf_bias fmt + length s) @ s)"

definition out_bytes :: "utxo_format \<Rightarrow> nat \<Rightarrow> utxo_out \<Rightarrow> bytes" where
  "out_bytes fmt i r = vlen_of i @ WriteVlen (uf_amount fmt (uo_Value r)) @ packed_script fmt (uo_PKScr r)"

fun outs_bytes :: "utxo_format \<Rightarrow> nat \<Rightarrow> utxo_out option list \<Rightarrow> bytes" where
  "outs_bytes fmt i [] = []"
| "outs_bytes fmt i (r # rs) = (case r of None \<Rightarrow> [] | Some x \<Rightarrow> out_bytes fmt i x) @ outs_bytes fmt (Suc i) rs"

definition rec_bytes :: "utxo_format \<Rightarrow> utxo_rec \<Rightarrow> bytes" where
  "rec_bytes fmt rec = WriteVlen (ucast (ur_InBlock rec)) @ WriteVlen (out_count rec) @ outs_bytes fmt 0 (ur_Outs rec)"

lemma length_out_bytes: "out_len fmt i r = length (out_bytes fmt i r)"
  by (simp add: out_len_def out_bytes_def packed_script_def length_WriteVlen split: option.split)

lemma length_outs_bytes: "sum_outs fmt i rs = length (outs_bytes fmt i rs)"
  by (induction rs arbitrary: i) (simp_all add: length_out_bytes split: option.split)

lemma out_bytes_nonempty [simp]: "out_bytes fmt i r \<noteq> []"
  by (simp add: out_bytes_def)

lemma put_out_written:
  assumes "has_room (out_bytes fmt i r) w"
  shows "put_out fmt i r w = Inr (written (out_bytes fmt i r) w)"
proof -
  let ?a = "vlen_of i" and ?v = "WriteVlen (uf_amount fmt (uo_Value r))" and ?s = "packed_script fmt (uo_PKScr r)"
  have r: "has_room ?a w" "has_room ?v (written ?a w)" "has_room ?s (written ?v (written ?a w))"
    and ra: "has_room (?a @ ?v) w"
    using assms by (simp_all add: out_bytes_def has_room_append)
  have rav: "has_room ((?a @ ?v) @ ?s) w" using assms by (simp add: out_bytes_def)
  have w: "written (out_bytes fmt i r) w = written ?s (written ?v (written ?a w))"
    unfolding out_bytes_def append_assoc [symmetric] written_append [OF rav, symmetric] written_append [OF ra, symmetric] ..
  show ?thesis
  proof (cases "uf_pack fmt (uo_PKScr r)")
    case (Some c)
    then show ?thesis
      unfolding put_out_def buf_put_written [OF r(1)] andThen_simps buf_put_written [OF r(2)] w
      using r(3) by (simp add: packed_script_def buf_copy_written)
  next
    case None
    let ?l = "vlen_of (uf_bias fmt + length (uo_PKScr r))"
    have s: "?s = ?l @ uo_PKScr r" using None by (simp add: packed_script_def)
    have "has_room ?l (written ?v (written ?a w))" "has_room (uo_PKScr r) (written ?l (written ?v (written ?a w)))"
      using r(3) unfolding s has_room_append by simp_all
    moreover have "written ?s (written ?v (written ?a w)) = written (uo_PKScr r) (written ?l (written ?v (written ?a w)))"
      unfolding s using r(3) [unfolded s] by (rule written_append [symmetric])
    ultimately show ?thesis
      unfolding put_out_def buf_put_written [OF r(1)] andThen_simps buf_put_written [OF r(2)] w
      by (simp add: None buf_put_written buf_copy_written)
  qed
qed

lemma put_outs_written:
  "has_room (outs_bytes fmt i rs) w \<Longrightarrow> put_outs fmt i rs w = Inr (written (outs_bytes fmt i rs) w)"
proof (induction rs arbitrary: i w)
  case Nil
  then show ?case by (cases w) simp
next
  case (Cons r rs)
  show ?case
  proof (cases r)
    case None
    with Cons show ?thesis by simp
  next
    case (Some x)
    with Cons.prems have r: "has_room (out_bytes fmt i x) w" "has_room (outs_bytes fmt (Suc i) rs) (written (out_bytes fmt i x) w)"
      by (simp_all add: has_room_append)
    then show ?thesis
      using Some Cons.prems Cons.IH [OF r(2)] by (simp add: put_out_written written_append)
  qed
qed

text \<open>The two passes agree: the record fills the buffer exactly.\<close>

lemma serialize_eq:
  assumes "\<And>n. length (alloc n) = n" "length (ur_TxID rec) = 32" "\<exists>r \<in> set (ur_Outs rec). r \<noteq> None"
    "case use_buf of None \<Rightarrow> True | Some b \<Rightarrow> (if full then 32 else 24) + length (rec_bytes fmt rec) \<le> length (sl_data b @ sl_spare b)"
  shows "serialize fmt alloc rec full use_buf =
    Inr (Some ((if full then ur_TxID rec else drop 8 (ur_TxID rec)) @ rec_bytes fmt rec))"
proof -
  let ?id = "if full then ur_TxID rec else drop 8 (ur_TxID rec)"
  let ?h = "WriteVlen (ucast (ur_InBlock rec) :: u64)" and ?c = "WriteVlen (out_count rec)" and ?o = "outs_bytes fmt 0 (ur_Outs rec)"
  let ?le = "(if full then 32 else 24) + length (rec_bytes fmt rec)"
  have le: "(if full then 32 else 32 - 8) + VLenSize (ucast (ur_InBlock rec)) + VLenSize (out_count rec) + sum_outs fmt 0 (ur_Outs rec) = ?le"
    by (simp add: rec_bytes_def length_WriteVlen length_outs_bytes)
  obtain buf where buf: "(case use_buf of None \<Rightarrow> Inr (alloc ?le) | Some b \<Rightarrow> slice_range b 0 ?le) = Inr buf" "length buf = ?le"
  proof (cases use_buf)
    case None
    then show thesis using assms(1) that by auto
  next
    case (Some b)
    then show thesis using assms(4) that by (auto simp: slice_range_def)
  qed
  have all: "length (?id @ rec_bytes fmt rec) = length buf" using buf(2) assms(2) by simp
  have room: "has_room (((?id @ ?h) @ ?c) @ ?o) (buf, 0)" using all by (simp add: has_room_def rec_bytes_def)
  then have room3: "has_room ((?id @ ?h) @ ?c) (buf, 0)" unfolding has_room_append [of _ ?o] by blast
  then have room2: "has_room (?id @ ?h) (buf, 0)" unfolding has_room_append [of _ ?c] by blast
  then have room1: "has_room ?id (buf, 0)" unfolding has_room_append [of _ ?h] by blast
  note r2 = room2 [unfolded has_room_append [of _ ?h]] and r3 = room3 [unfolded has_room_append [of _ ?c]]
    and r4 = room [unfolded has_room_append [of _ ?o]]
  have 1: "buf_copy ?id (buf, 0) = Inr (written ?id (buf, 0))" by (rule buf_copy_written [OF room1])
  have 2: "buf_put (ucast (ur_InBlock rec)) (written ?id (buf, 0)) = Inr (written (?id @ ?h) (buf, 0))"
    using buf_put_written [OF conjunct2 [OF r2]] written_append [OF room2] by simp
  have 3: "buf_put (out_count rec) (written (?id @ ?h) (buf, 0)) = Inr (written ((?id @ ?h) @ ?c) (buf, 0))"
    using buf_put_written [OF conjunct2 [OF r3]] written_append [OF room3] by simp
  have 4: "put_outs fmt 0 (ur_Outs rec) (written ((?id @ ?h) @ ?c) (buf, 0)) = Inr (written (((?id @ ?h) @ ?c) @ ?o) (buf, 0))"
    using put_outs_written [OF conjunct2 [OF r4]] written_append [OF room] by simp
  have 5: "written (((?id @ ?h) @ ?c) @ ?o) (buf, 0) = (?id @ rec_bytes fmt rec, length buf)"
  proof -
    have "((?id @ ?h) @ ?c) @ ?o = ?id @ rec_bytes fmt rec" by (simp add: rec_bytes_def)
    then show ?thesis using written_all [OF all] by simp
  qed
  have ne: "\<not> (\<forall>r \<in> set (ur_Outs rec). r = None)" using assms(3) by blast
  show ?thesis
    unfolding serialize_def Let_def le if_not_P [OF ne] buf(1) andThen_simps 1 2 3 4 5 by simp
qed

text \<open>
  What a format promises: an amount is read as it was written, and from the bytes of an admissible script the
  reader finds it and stops right behind it.
\<close>

locale record_format =
  fixes fmt :: utxo_format and ok :: "utxo_out \<Rightarrow> bool"
  assumes amount: "ok r \<Longrightarrow> uf_value fmt (uf_amount fmt (uo_Value r)) = uo_Value r"
    and span: "ok r \<Longrightarrow> off \<le> length (sl_data dat) \<Longrightarrow> drop off (sl_data dat) = packed_script fmt (uo_PKScr r) @ rest \<Longrightarrow>
      \<exists>packed o2 i. uf_span fmt dat off = Inr (packed, o2, i) \<and> read_script fmt dat (packed, o2, i) = Inr (uo_PKScr r) \<and>
        0 \<le> i \<and> o2 + nat i = off + length (packed_script fmt (uo_PKScr r))"

definition outs_ok :: "(utxo_out \<Rightarrow> bool) \<Rightarrow> utxo_out option list \<Rightarrow> bool" where
  "outs_ok ok rs \<longleftrightarrow> (\<forall>x. Some x \<in> set rs \<longrightarrow> ok x)"

lemma outs_ok_Cons [simp]: "outs_ok ok (r # rs) \<longleftrightarrow> (\<forall>x. r = Some x \<longrightarrow> ok x) \<and> outs_ok ok rs"
  by (auto simp: outs_ok_def)

lemma read_VULe_at:
  "drop off (sl_data dat) = WriteVlen x @ rest \<Longrightarrow> off \<le> length (sl_data dat) \<Longrightarrow> read_VULe dat off = Inr (x, off + VLenSize x)"
  by (simp add: read_VULe_def slice_from_def)

lemma drop_next: "drop off d = a @ b \<Longrightarrow> off \<le> length d \<Longrightarrow> drop (off + length a) d = b \<and> off + length a \<le> length d"
proof
  assume *: "drop off d = a @ b" "off \<le> length d"
  then have "drop (length a) (drop off d) = b" by simp
  then show "drop (off + length a) d = b" by (simp add: add.commute)
  have "length (drop off d) = length a + length b" using *(1) by simp
  then show "off + length a \<le> length d" using *(2) by simp
qed

definition record_ok :: "(utxo_out \<Rightarrow> bool) \<Rightarrow> utxo_rec \<Rightarrow> bool" where
  "record_ok ok rec \<longleftrightarrow> length (ur_TxID rec) = 32 \<and> length (ur_Outs rec) < 2 ^ 32 \<and> outs_ok ok (ur_Outs rec) \<and>
     (\<exists>r \<in> set (ur_Outs rec). r \<noteq> None)"

text \<open>What the database returns for output \<open>v\<close> of a record.\<close>

definition lookup_out :: "utxo_rec \<Rightarrow> u32 \<Rightarrow> txout option" where
  "lookup_out rec v =
     (if unat v < length (ur_Outs rec) then
        map_option (\<lambda>x. \<lparr>to_Value = uo_Value x, to_Pk_script = uo_PKScr x, to_BlockHeight = ur_InBlock rec,
            to_VoutCount = of_nat (length (ur_Outs rec)), to_WasCoinbase = ur_Coinbase rec\<rparr>) (ur_Outs rec ! unat v)
      else None)"

lemma out_count_fields:
  assumes "length (ur_Outs rec) < 2 ^ 32"
  shows "drop_bit 1 (out_count rec) = of_nat (length (ur_Outs rec))" "out_count rec AND 1 \<noteq> 0 \<longleftrightarrow> ur_Coinbase rec"
proof -
  let ?n = "of_nat (length (ur_Outs rec)) :: u64"
  have u: "unat ?n = length (ur_Outs rec)" using assms by (simp add: unsigned_of_nat take_bit_nat_eq_self)
  have s: "unat (push_bit 1 ?n) = 2 * unat ?n" using assms u by (simp add: push_bit_eq_mult unat_word_ariths)
  have d: "drop_bit 1 (push_bit 1 ?n) = ?n"
    unfolding word_unat_eq_iff unat_drop_bit_eq s by (simp add: drop_bit_eq_div [of _ "2 * _"])
  have c: "drop_bit 1 (if ur_Coinbase rec then 1 else 0 :: u64) = 0" by simp
  show "drop_bit 1 (out_count rec) = ?n" by (simp only: out_count_def drop_bit_or d c or.right_neutral)
  have "push_bit 1 ?n AND 1 = 0" by (rule bit_eqI, unfold bit_and_iff bit_push_bit_iff bit_1_iff) auto
  then have "out_count rec AND 1 = (if ur_Coinbase rec then 1 else 0)"
    by (simp add: out_count_def bit.conj_disj_distrib2)
  then show "out_count rec AND 1 \<noteq> 0 \<longleftrightarrow> ur_Coinbase rec" by simp
qed

lemma read_counts_at:
  assumes "drop off (sl_data dat) = WriteVlen (ucast (b :: u32)) @ WriteVlen c @ rest" "off \<le> length (sl_data dat)"
  shows "read_counts dat off = Inr (b, c, off + length (WriteVlen (ucast b)) + length (WriteVlen c)) \<and>
    drop (off + length (WriteVlen (ucast b)) + length (WriteVlen c)) (sl_data dat) = rest \<and>
    off + length (WriteVlen (ucast b)) + length (WriteVlen c) \<le> length (sl_data dat)"
proof -
  note n = drop_next [OF assms]
  note n2 = drop_next [OF conjunct1 [OF n] conjunct2 [OF n]]
  have "ucast (ucast b :: u64) = b" using uint_lt2p [of b] by (intro ucast_ucast_lt) simp
  then show ?thesis
    using read_VULe_at [OF assms] read_VULe_at [OF conjunct1 [OF n] conjunct2 [OF n]] n2
    by (simp add: read_counts_def length_WriteVlen)
qed

context record_format begin

text \<open>The parts of one output at an offset.\<close>

lemma read_parts:
  assumes "ok r" "drop off (sl_data dat) = out_bytes fmt i r @ rest" "off \<le> length (sl_data dat)"
  shows "\<exists>o1 o2 p o3 k. read_VULe dat off = Inr (of_nat i, o1) \<and>
    read_VULe dat o1 = Inr (uf_amount fmt (uo_Value r), o2) \<and> uf_span fmt dat o2 = Inr (p, o3, k) \<and>
    read_script fmt dat (p, o3, k) = Inr (uo_PKScr r) \<and> 0 \<le> k \<and> o3 + nat k = off + length (out_bytes fmt i r)"
proof -
  let ?v = "WriteVlen (uf_amount fmt (uo_Value r))" and ?s = "packed_script fmt (uo_PKScr r)"
  have d: "drop off (sl_data dat) = vlen_of i @ ?v @ ?s @ rest" using assms(2) by (simp add: out_bytes_def)
  note d1 = drop_next [OF d assms(3)]
  note d2 = drop_next [OF conjunct1 [OF d1] conjunct2 [OF d1]]
  obtain p o3 k where "uf_span fmt dat (off + length (vlen_of i) + length ?v) = Inr (p, o3, k)"
    "read_script fmt dat (p, o3, k) = Inr (uo_PKScr r)" "0 \<le> k" "o3 + nat k = off + length (vlen_of i) + length ?v + length ?s"
    using span [OF assms(1) conjunct2 [OF d2] conjunct1 [OF d2]] by blast
  moreover have "read_VULe dat off = Inr (of_nat i, off + length (vlen_of i))"
    using read_VULe_at [OF d assms(3)] by (simp add: length_WriteVlen)
  moreover have "read_VULe dat (off + length (vlen_of i)) = Inr (uf_amount fmt (uo_Value r), off + length (vlen_of i) + length ?v)"
    using read_VULe_at [OF conjunct1 [OF d1] conjunct2 [OF d1]] by (simp add: length_WriteVlen)
  ultimately show ?thesis by (auto simp: out_bytes_def)
qed

lemma read_outs_append:
  assumes "outs_ok ok rs" "drop off (sl_data dat) = outs_bytes fmt (length done) rs @ rest" "off \<le> length (sl_data dat)"
    "length done + length rs < 2 ^ 64"
  shows "\<exists>off'. read_outs fmt dat off (done @ replicate (length rs + n) None) = read_outs fmt dat off' (done @ rs @ replicate n None) \<and>
    drop off' (sl_data dat) = rest \<and> off' \<le> length (sl_data dat)"
  using assms
proof (induction rs arbitrary: off "done")
  case Nil
  then show ?case by auto
next
  case (Cons r rs)
  show ?case
  proof (cases r)
    case None
    then show ?thesis using Cons.IH [of off "done @ [None]"] Cons.prems by simp
  next
    case (Some x)
    with Cons.prems have x: "ok x" and d: "drop off (sl_data dat) = out_bytes fmt (length done) x @ outs_bytes fmt (Suc (length done)) rs @ rest"
      by simp_all
    from read_parts [OF x d Cons.prems(3)] obtain o1 o2 p o3 k where
      parts: "read_VULe dat off = Inr (of_nat (length done), o1)" "read_VULe dat o1 = Inr (uf_amount fmt (uo_Value x), o2)"
        "uf_span fmt dat o2 = Inr (p, o3, k)" "read_script fmt dat (p, o3, k) = Inr (uo_PKScr x)"
      and k: "o3 + nat k = off + length (out_bytes fmt (length done) x)" by blast
    have u: "unat (of_nat (length done) :: u64) = length done"
      using Cons.prems(4) by (simp add: unsigned_of_nat take_bit_nat_eq_self)
    have lt: "off < length (sl_data dat)"
    proof -
      have "drop off (sl_data dat) \<noteq> []" using d by simp
      then show ?thesis by simp
    qed
    let ?rep = "replicate (length rs + n) None"
    have upd: "(done @ None # ?rep)[length done := Some x] = (done @ [Some x]) @ ?rep" by simp
    have one: "read_out fmt dat off (done @ None # ?rep) =
        Inr ((done @ [Some x]) @ ?rep, off + length (out_bytes fmt (length done) x))"
      using upd amount [OF x] by (simp add: read_out_def parts u k)
    note nxt = drop_next [OF d Cons.prems(3)]
    obtain off' where o: "read_outs fmt dat (off + length (out_bytes fmt (length done) x)) ((done @ [Some x]) @ ?rep) =
        read_outs fmt dat off' ((done @ [Some x]) @ rs @ replicate n None)" "drop off' (sl_data dat) = rest" "off' \<le> length (sl_data dat)"
      using Cons.IH [of "off + length (out_bytes fmt (length done) x)" "done @ [Some x]"] Cons.prems nxt by auto
    have "read_outs fmt dat off (done @ replicate (length (r # rs) + n) None) =
        read_outs fmt dat (off + length (out_bytes fmt (length done) x)) ((done @ [Some x]) @ ?rep)"
      using lt one by (subst read_outs.simps) simp
    then show ?thesis using o Some by auto
  qed
qed

lemma read_outs_bytes:
  assumes "outs_ok ok rs" "drop off (sl_data dat) = outs_bytes fmt (length done) rs" "off \<le> length (sl_data dat)"
    "length done + length rs < 2 ^ 64"
  shows "read_outs fmt dat off (done @ replicate (length rs) None) = Some (Inr (done @ rs))"
proof -
  from read_outs_append [of rs off dat "done" "[]" 0] assms obtain off' where
    "read_outs fmt dat off (done @ replicate (length rs) None) = read_outs fmt dat off' (done @ rs)" "drop off' (sl_data dat) = []"
    by auto
  then show ?thesis by (simp add: read_outs.simps)
qed

lemma find_out_bytes:
  assumes "outs_ok ok rs" "drop off (sl_data dat) = outs_bytes fmt i rs" "off \<le> length (sl_data dat)" "i + length rs < 2 ^ 32"
  shows "find_out fmt dat off v = Some (Inr (if i \<le> unat v \<and> unat v < i + length rs then rs ! (unat v - i) else None))"
  using assms
proof (induction rs arbitrary: off i)
  case Nil
  then show ?case by (subst find_out.simps) auto
next
  case (Cons r rs)
  show ?case
  proof (cases r)
    case None
    have "(if i \<le> unat v \<and> unat v < i + length (r # rs) then (r # rs) ! (unat v - i) else None) =
        (if Suc i \<le> unat v \<and> unat v < Suc i + length rs then rs ! (unat v - Suc i) else None)"
      using None by (auto simp: nth_Cons' not_less_eq_eq le_antisym)
    then show ?thesis using Cons.IH [of off "Suc i"] Cons.prems None by simp
  next
    case (Some x)
    with Cons.prems have x: "ok x" and d: "drop off (sl_data dat) = out_bytes fmt i x @ outs_bytes fmt (Suc i) rs"
      by simp_all
    from read_parts [OF x d Cons.prems(3)] obtain o1 o2 p o3 k where
      parts: "read_VULe dat off = Inr (of_nat i, o1)" "read_VULe dat o1 = Inr (uf_amount fmt (uo_Value x), o2)"
        "uf_span fmt dat o2 = Inr (p, o3, k)" "read_script fmt dat (p, o3, k) = Inr (uo_PKScr x)"
      and k: "0 \<le> k" "o3 + nat k = off + length (out_bytes fmt i x)" by blast
    have u: "unat (ucast (of_nat i :: u64) :: u32) = i"
      using Cons.prems(4) by (simp add: unsigned_ucast_eq unsigned_of_nat take_bit_nat_eq_self)
    have lt: "off < length (sl_data dat)"
    proof -
      have "drop off (sl_data dat) \<noteq> []" using d by simp
      then show ?thesis by simp
    qed
    note n = drop_next [OF d Cons.prems(3)]
    consider "unat v < i" | "unat v = i" | "unat v > i" by linarith
    then show ?thesis
    proof cases
      case 1
      then have "(ucast (of_nat i :: u64) :: u32) > v" using u by (simp add: word_less_nat_alt)
      then show ?thesis using 1 lt by (subst find_out.simps) (simp add: find_step_def parts)
    next
      case 2
      then have "(ucast (of_nat i :: u64) :: u32) = v" using u by (simp add: word_unat_eq_iff)
      then show ?thesis using 2 lt Some amount [OF x] by (subst find_out.simps) (simp add: find_step_def parts)
    next
      case 3
      then have g: "\<not> (ucast (of_nat i :: u64) :: u32) > v" "(ucast (of_nat i :: u64) :: u32) \<noteq> v"
        using u by (auto simp: word_less_nat_alt)
      have nat: "int o3 + k = int (off + length (out_bytes fmt i x))" using k by linarith
      have step: "find_step fmt dat off v = Inr (Inr (int (off + length (out_bytes fmt i x))))"
        using g by (simp add: find_step_def parts nat)
      have "find_out fmt dat (off + length (out_bytes fmt i x)) v =
          Some (Inr (if Suc i \<le> unat v \<and> unat v < Suc i + length rs then rs ! (unat v - Suc i) else None))"
        by (rule Cons.IH) (use Cons.prems n in simp_all)
      moreover have "find_out fmt dat off v = find_out fmt dat (off + length (out_bytes fmt i x)) v"
        using lt step by (subst find_out.simps) (simp add: nat_int_add)
      ultimately show ?thesis using 3 by (auto simp: nth_Cons')
    qed
  qed
qed

lemma NewUtxoRec_bytes:
  assumes "record_ok ok rec" "sl_data dat = drop 8 (ur_TxID rec) @ rec_bytes fmt rec"
  shows "NewUtxoRec fmt (take 8 (ur_TxID rec)) dat = Some (Inr rec)"
proof -
  have id: "length (drop 8 (ur_TxID rec)) = 24" and l: "length (ur_Outs rec) < 2 ^ 32" and o: "outs_ok ok (ur_Outs rec)"
    using assms(1) by (simp_all add: record_ok_def)
  have d: "drop 24 (sl_data dat) = WriteVlen (ucast (ur_InBlock rec)) @ WriteVlen (out_count rec) @ outs_bytes fmt 0 (ur_Outs rec)"
    using assms(2) id by (simp add: rec_bytes_def)
  have le: "24 \<le> length (sl_data dat)" using assms(2) id by simp
  have h: "slice_range dat 0 24 = Inr (drop 8 (ur_TxID rec))" using assms(2) id by (simp add: slice_range_def)
  from read_counts_at [OF d le] obtain off where
    c: "read_counts dat 24 = Inr (ur_InBlock rec, out_count rec, off)" "drop off (sl_data dat) = outs_bytes fmt 0 (ur_Outs rec)"
      "off \<le> length (sl_data dat)" by blast
  have u: "unat (of_nat (length (ur_Outs rec)) :: u64) = length (ur_Outs rec)"
    using l by (simp add: unsigned_of_nat take_bit_nat_eq_self)
  then have ui: "uint (of_nat (length (ur_Outs rec)) :: u64) = int (length (ur_Outs rec))" by (metis of_nat_unat)
  have "fits 8 (length (ur_Outs rec))" using l by simp
  moreover have "read_outs fmt dat off ([] @ replicate (length (ur_Outs rec)) None) = Some (Inr ([] @ ur_Outs rec))"
    by (rule read_outs_bytes) (use o c l in simp_all)
  ultimately show ?thesis
    by (simp add: NewUtxoRec_def Let_def h c(1) out_count_fields [OF l, unfolded One_nat_def] u ui)
qed

lemma FullUtxoRec_bytes:
  assumes "record_ok ok rec" "sl_data dat = ur_TxID rec @ rec_bytes fmt rec"
  shows "FullUtxoRec fmt dat = Some (Inr rec)"
proof -
  have l: "length (ur_TxID rec) = 32" using assms(1) by (simp add: record_ok_def)
  then have "slice_range dat 0 8 = Inr (take 8 (ur_TxID rec))" using assms(2) by (simp add: slice_range_def)
  moreover have "slice_from dat 8 = Inr \<lparr>sl_data = drop 8 (ur_TxID rec) @ rec_bytes fmt rec, sl_spare = sl_spare dat\<rparr>"
    using assms(2) l by (simp add: slice_from_def)
  ultimately show ?thesis using NewUtxoRec_bytes [OF assms(1)] by (simp add: FullUtxoRec_def)
qed

lemma OneUtxoRec_bytes:
  assumes "record_ok ok rec" "sl_data dat = drop 8 (ur_TxID rec) @ rec_bytes fmt rec"
  shows "OneUtxoRec fmt dat v = Some (Inr (lookup_out rec v))"
proof -
  have id: "length (drop 8 (ur_TxID rec)) = 24" and l: "length (ur_Outs rec) < 2 ^ 32" and o: "outs_ok ok (ur_Outs rec)"
    using assms(1) by (simp_all add: record_ok_def)
  have d: "drop 24 (sl_data dat) = WriteVlen (ucast (ur_InBlock rec)) @ WriteVlen (out_count rec) @ outs_bytes fmt 0 (ur_Outs rec)"
    using assms(2) id by (simp add: rec_bytes_def)
  have le: "24 \<le> length (sl_data dat)" using assms(2) id by simp
  from read_counts_at [OF d le] obtain off where
    c: "read_counts dat 24 = Inr (ur_InBlock rec, out_count rec, off)" "drop off (sl_data dat) = outs_bytes fmt 0 (ur_Outs rec)"
      "off \<le> length (sl_data dat)" by blast
  let ?n = "length (ur_Outs rec)"
  have u: "unat (of_nat ?n :: u32) = ?n" "unat (of_nat ?n :: u64) = ?n" using l by (simp_all add: unsigned_of_nat take_bit_nat_eq_self)
  have cast: "ucast (of_nat ?n :: u64) = (of_nat ?n :: u32)"
    unfolding word_unat_eq_iff unsigned_ucast_eq u using l by (simp add: take_bit_nat_eq_self)
  have f: "find_out fmt dat off v = Some (Inr (if 0 \<le> unat v \<and> unat v < 0 + ?n then ur_Outs rec ! (unat v - 0) else None))"
    by (rule find_out_bytes) (use o c l in simp_all)
  have le: "(of_nat ?n :: u32) \<le> v \<longleftrightarrow> \<not> unat v < ?n" using u(1) by (simp add: word_le_nat_alt not_less)
  show ?thesis
    by (simp add: OneUtxoRec_def c(1) out_count_fields [OF l, unfolded One_nat_def] cast le f lookup_out_def)
qed

end

text \<open>The plain format keeps the promise for every script that fits in memory.\<close>

definition plain_ok :: "utxo_out \<Rightarrow> bool" where
  "plain_ok r \<longleftrightarrow> fits 1 (length (uo_PKScr r))"

interpretation plain: record_format plain plain_ok
proof
  fix r assume "plain_ok r"
  show "uf_value plain (uf_amount plain (uo_Value r)) = uo_Value r" by (simp add: plain_def)
next
  fix r :: utxo_out and off and dat :: slice and rest
  assume ok: "plain_ok r" and off: "off \<le> length (sl_data dat)"
    and d: "drop off (sl_data dat) = packed_script plain (uo_PKScr r) @ rest"
  let ?n = "length (uo_PKScr r)"
  have d': "drop off (sl_data dat) = vlen_of ?n @ uo_PKScr r @ rest" using d by (simp add: packed_script_def plain_def)
  have v: "VLen (vlen_of ?n @ uo_PKScr r @ rest) = (int ?n, VLenSize (of_nat ?n))"
    by (rule VLen_vlen_of [of 1]) (use ok in \<open>simp_all add: plain_ok_def\<close>)
  then have si: "sint (of_nat ?n :: u64) = int ?n" by simp
  note n = drop_next [OF d' off]
  have "slice_at dat (off + VLenSize (of_nat ?n)) (int ?n) = Inr (uo_PKScr r)"
    using n drop_next [OF conjunct1 [OF n] conjunct2 [OF n]] by (simp add: slice_at_def slice_range_def length_WriteVlen)
  then show "\<exists>packed o2 i. uf_span plain dat off = Inr (packed, o2, i) \<and> read_script plain dat (packed, o2, i) = Inr (uo_PKScr r) \<and>
      0 \<le> i \<and> o2 + nat i = off + length (packed_script plain (uo_PKScr r))"
    using off d' si by (auto simp: plain_def span_U_def slice_from_def read_script_def packed_script_def length_WriteVlen)
qed

section \<open>A truncated record\<close>

text \<open>
  Bytes that end within a length: from the marker of a long form on, some of its bytes, but not all. The readers return 0
  and consume nothing, so that the loop over the outputs stays where it is.
\<close>

definition cut_length :: "bytes \<Rightarrow> bool" where
  "cut_length xs \<longleftrightarrow> (\<exists>x n. xs = take n (WriteVlen x) \<and> 0 < n \<and> n < length (WriteVlen x))"

lemma cut_length_nonempty: "cut_length xs \<Longrightarrow> xs \<noteq> []"
  by (auto simp: cut_length_def)

lemma VULe_cut:
  assumes "cut_length xs"
  shows "VULe xs = (0, 0)" "VLen xs = (0, 0)"
proof -
  obtain x n where x: "xs = take n (WriteVlen x)" "0 < n" "n < length (WriteVlen x)"
    using assms by (auto simp: cut_length_def)
  then obtain k where k: "n = Suc k" by (cases n) auto
  show v: "VULe xs = (0, 0)"
    using x(3) unfolding x(1) k by (auto simp: WriteVlen_def VULe_def split: if_splits)
  then show "VLen xs = (0, 0)" by (simp add: VLen_VULe)
qed

lemma read_VULe_cut:
  assumes "drop off (sl_data dat) = xs" "cut_length xs"
  shows "off < length (sl_data dat)" "read_VULe dat off = Inr (0, off)" "span_U dat off = Inr (False, off, 0)"
proof -
  show o: "off < length (sl_data dat)" using assms cut_length_nonempty by fastforce
  show "read_VULe dat off = Inr (0, off)" "span_U dat off = Inr (False, off, 0)"
    using VULe_cut [OF assms(2)] assms(1) o by (simp_all add: read_VULe_def span_U_def slice_from_def)
qed

lemma read_script_none: "off \<le> length (sl_data dat) \<Longrightarrow> read_script plain dat (False, off, 0) = Inr []"
  by (simp add: read_script_def slice_at_def slice_range_def)

lemma plain_fields: "uf_span plain = span_U" "uf_value plain = (\<lambda>v. v)"
  by (simp_all add: plain_def)

lemma read_out_cut:
  assumes "drop off (sl_data dat) = xs" "cut_length xs" "outs \<noteq> []"
  shows "\<exists>outs'. read_out plain dat off outs = Inr (outs', off) \<and> outs' \<noteq> []"
proof -
  note r = read_VULe_cut [OF assms(1,2)]
  show ?thesis using r(1) assms(3) by (simp add: read_out_def r(2,3) plain_fields read_script_none)
qed

lemma read_outs_cut:
  assumes "drop off (sl_data dat) = xs" "cut_length xs" "outs \<noteq> []"
  shows "read_outs plain dat off outs = None"
proof (rule ccontr)
  assume "read_outs plain dat off outs \<noteq> None"
  then obtain y where y: "read_outs plain dat off outs = Some y" by blast
  have "fmt = plain \<longrightarrow> drop off (sl_data dat) = xs \<longrightarrow> outs \<noteq> [] \<longrightarrow> False" if "read_outs fmt dat off outs = Some y" for fmt
  proof (rule read_outs.raw_induct [where P = "\<lambda>fmt dat off outs y. fmt = plain \<longrightarrow> drop off (sl_data dat) = xs \<longrightarrow> outs \<noteq> [] \<longrightarrow> False", OF _ that])
    fix go :: "utxo_format \<Rightarrow> slice \<Rightarrow> nat \<Rightarrow> utxo_out option list \<Rightarrow> (go_panic + utxo_out option list) option"
      and fmt dat off outs y
    assume IH: "\<And>fmt dat off outs y. go fmt dat off outs = Some y \<Longrightarrow> fmt = plain \<longrightarrow> drop off (sl_data dat) = xs \<longrightarrow> outs \<noteq> [] \<longrightarrow> False"
      and step: "(if off < length (sl_data dat) then case read_out fmt dat off outs of Inl e \<Rightarrow> Some (Inl e) | Inr (outs, off) \<Rightarrow> go fmt dat off outs
         else Some (Inr outs)) = Some y"
    show "fmt = plain \<longrightarrow> drop off (sl_data dat) = xs \<longrightarrow> outs \<noteq> [] \<longrightarrow> False"
    proof (intro impI)
      assume a: "fmt = plain" "drop off (sl_data dat) = xs" "outs \<noteq> []"
      from read_out_cut [OF a(2) assms(2) a(3)] obtain outs' where o: "read_out plain dat off outs = Inr (outs', off)" "outs' \<noteq> []" by blast
      have "off < length (sl_data dat)" by (rule read_VULe_cut(1) [OF a(2) assms(2)])
      then have "go plain dat off outs' = Some y" using step by (simp add: a(1) o(1))
      from IH [OF this] a(2) o(2) show False by blast
    qed
  qed
  with y assms show False by blast
qed

text \<open>
  The plain reader on a record that ends within the index, the value or the length of the script of some output: the
  outputs \<open>rs\<close> before it are complete, and \<open>part\<close> is what there is of this one before the length that is cut.
\<close>

definition output_part :: "nat \<Rightarrow> bytes \<Rightarrow> bool" where
  "output_part n part \<longleftrightarrow> part = [] \<or> (\<exists>k. k < n \<and> (part = vlen_of k \<or> (\<exists>v. part = vlen_of k @ WriteVlen v)))"

lemma read_outs_part_cut:
  assumes d: "drop off (sl_data dat) = part @ xs" and le: "off \<le> length (sl_data dat)" and cut: "cut_length xs"
    and part: "output_part (length outs) part" and outs: "outs \<noteq> []" "length outs < 2 ^ 64"
  shows "read_outs plain dat off outs = None"
proof -
  have step: ?thesis
    if r: "read_VULe dat off = Inr (of_nat k, o1)" "read_VULe dat o1 = Inr (v, o2)" "drop o2 (sl_data dat) = xs" and k: "k < length outs" for k o1 o2 v
  proof -
    note c = read_VULe_cut [OF r(3) cut]
    have u: "unat (of_nat k :: u64) = k" using k outs(2) by (simp add: unsigned_of_nat take_bit_nat_eq_self)
    have "off < length (sl_data dat)" using d cut_length_nonempty [OF cut] le by (metis append_is_Nil_conv drop_eq_Nil leI)
    moreover have "read_out plain dat off outs = Inr (outs[k := Some \<lparr>uo_Value = v, uo_PKScr = []\<rparr>], o2)"
      using r k c(1) by (simp add: read_out_def u c(3) plain_fields read_script_none)
    moreover have "read_outs plain dat o2 (outs[k := Some \<lparr>uo_Value = v, uo_PKScr = []\<rparr>]) = None"
      by (rule read_outs_cut [OF r(3) cut]) (use outs in simp)
    ultimately show ?thesis by (subst read_outs.simps) simp
  qed
  consider "part = []" | k where "k < length outs" "part = vlen_of k" | k v where "k < length outs" "part = vlen_of k @ WriteVlen v"
    using part by (auto simp: output_part_def)
  then show ?thesis
  proof cases
    case 1
    then show ?thesis using read_outs_cut [OF _ cut outs(1)] d by simp
  next
    case (2 k)
    have d1: "drop off (sl_data dat) = vlen_of k @ xs" using d 2(2) by simp
    note n = drop_next [OF d1 le]
    show ?thesis
      using step [OF read_VULe_at [OF d1 le] _ _ 2(1), of 0 "off + length (vlen_of k)"] n read_VULe_cut(2) [OF conjunct1 [OF n] cut]
      by (simp add: length_WriteVlen)
  next
    case (3 k v)
    have d1: "drop off (sl_data dat) = vlen_of k @ WriteVlen v @ xs" using d 3(2) by simp
    note n = drop_next [OF d1 le]
    note n2 = drop_next [OF conjunct1 [OF n] conjunct2 [OF n]]
    show ?thesis
      using step [OF read_VULe_at [OF d1 le] _ _ 3(1), of v "off + length (vlen_of k) + length (WriteVlen v)"] n2
        read_VULe_at [OF conjunct1 [OF n] conjunct2 [OF n]]
      by (simp add: length_WriteVlen)
  qed
qed

lemma NewUtxoRec_cut:
  assumes len: "length h = 24" "length (ur_Outs rec) < 2 ^ 32" "ur_Outs rec \<noteq> []"
    and rs: "ur_Outs rec = rs @ rs'" "outs_ok plain_ok rs"
    and part: "output_part (length (ur_Outs rec)) part" "cut_length xs"
    and dat: "sl_data dat = h @ WriteVlen b @ WriteVlen (out_count rec) @ outs_bytes plain 0 rs @ part @ xs"
  shows "NewUtxoRec plain key dat = None"
proof -
  let ?c = "out_count rec" and ?n = "length (ur_Outs rec)"
  have d: "drop 24 (sl_data dat) = WriteVlen b @ WriteVlen ?c @ outs_bytes plain 0 rs @ part @ xs" and le: "24 \<le> length (sl_data dat)"
    using len(1) dat by simp_all
  have r1: "read_VULe dat 24 = Inr (b, 24 + VLenSize b)" by (rule read_VULe_at [OF d le])
  from drop_next [OF d le] have d2: "drop (24 + VLenSize b) (sl_data dat) = WriteVlen ?c @ outs_bytes plain 0 rs @ part @ xs"
    "24 + VLenSize b \<le> length (sl_data dat)" by (simp_all add: length_WriteVlen)
  have r2: "read_VULe dat (24 + VLenSize b) = Inr (?c, 24 + VLenSize b + VLenSize ?c)" by (rule read_VULe_at [OF d2])
  from drop_next [OF d2] have d3: "drop (24 + VLenSize b + VLenSize ?c) (sl_data dat) = outs_bytes plain (length []) rs @ part @ xs"
    "24 + VLenSize b + VLenSize ?c \<le> length (sl_data dat)" by (simp_all add: length_WriteVlen)
  have u: "unat (of_nat ?n :: u64) = ?n" using len(2) by (simp add: unsigned_of_nat take_bit_nat_eq_self)
  then have ui: "uint (of_nat ?n :: u64) = int ?n" by (metis of_nat_unat)
  have sl: "slice_range dat 0 24 = Inr h" using len(1) dat by (simp add: slice_range_def)
  have n: "?n = length rs + length rs'" using rs(1) by simp
  have "length [] + length rs < (2 ^ 64 :: nat)" using len(2) n by simp
  from plain.read_outs_append [OF rs(2) d3 this, of "length rs'"] obtain off' where
    o: "read_outs plain dat (24 + VLenSize b + VLenSize ?c) (replicate ?n None) = read_outs plain dat off' (rs @ replicate (length rs') None)"
      "drop off' (sl_data dat) = part @ xs" "off' \<le> length (sl_data dat)" unfolding n by auto
  have "read_outs plain dat off' (rs @ replicate (length rs') None) = None"
    by (rule read_outs_part_cut [OF o(2,3) part(2)]) (use part(1) len n rs(1) in auto)
  then have none: "read_outs plain dat (24 + VLenSize b + VLenSize ?c) (replicate ?n None) = None" by (simp only: o(1))
  have f: "fits 8 ?n" using len(2) by simp
  show ?thesis
    using f none
    by (simp add: NewUtxoRec_def Let_def sl read_counts_def r1 r2 out_count_fields [OF len(2), unfolded One_nat_def] u ui)
qed

end
