(* ===== verification/UtxoComp.thy ===== *)
theory UtxoComp
  imports UtxoRec SigEncoding Amounts
begin

text \<open>
  The compressed format of the database (\<open>lib/utxo/unspent_recc.go\<close>) with the script templates it packs
  (\<open>CompressScript\<close>, \<open>DecompressScript\<close>, \<open>IsP2PK\<close>, \<open>IsUnspendable\<close> of \<open>lib/script/misc.go\<close>). What needs the
  curve is a parameter: whether an uncompressed key parses and lies on the curve, and the uncompressed key of a
  compressed one.
\<close>

record key_ops =
  key_valid :: "bytes \<Rightarrow> bool"
  key_expand :: "bytes \<Rightarrow> bytes"

definition IsP2PK :: "key_ops \<Rightarrow> bytes \<Rightarrow> bytes option" where
  "IsP2PK ks scr =
     (if length scr = 35 \<and> scr ! 0 = 33 \<and> scr ! 34 = 0xac \<and> (scr ! 1 = 0x02 \<or> scr ! 1 = 0x03)
      then Some (take 33 (drop 1 scr))
      else if length scr = 67 \<and> scr ! 0 = 65 \<and> scr ! 66 = 0xac \<and> scr ! 1 = 0x04 \<and> key_valid ks (take 65 (drop 1 scr))
      then Some (take 65 (drop 1 scr))
      else None)"

definition IsUnspendable :: "key_ops \<Rightarrow> bytes \<Rightarrow> bool" where
  "IsUnspendable ks scr =
     (if length scr > 0 \<and> scr ! 0 = 0x6a then True
      else if length scr > MAX_SCRIPT_SIZE then True
      else length scr = 67 \<and> scr ! 0 = 65 \<and> scr ! 66 = 0xac \<and> scr ! 1 = 0x04 \<and> \<not> key_valid ks (take 65 (drop 1 scr)))"

text \<open>\<open>nil\<close> when the script has no short form.\<close>

definition CompressScript :: "key_ops \<Rightarrow> bytes \<Rightarrow> bytes option" where
  "CompressScript ks scr =
     (if IsP2KH scr then Some (0x00 # take 20 (drop 3 scr))
      else if IsP2SH scr then Some (0x01 # take 20 (drop 2 scr))
      else case IsP2PK ks scr of
             Some pk \<Rightarrow> Some ((if pk ! 0 = 0x04 then pk ! 0 OR (pk ! 64 AND 0x01) else pk ! 0) # take 32 (drop 1 pk))
           | None \<Rightarrow> None)"

definition DecompressScript :: "key_ops \<Rightarrow> bytes \<Rightarrow> go_panic + bytes" where
  "DecompressScript ks data =
     andThen (index data 0) (\<lambda>d0.
     if d0 = 0x00 then
       andThen (slice_range \<lparr>sl_data = data, sl_spare = []\<rparr> 1 21) (\<lambda>h. Inr ([0x76, 0xa9, 20] @ h @ [0x88, 0xac]))
     else if d0 = 0x01 then Inr ([0xa9, 20] @ take 20 (drop 1 data @ replicate 20 0) @ [0x87])
     else if d0 = 0x02 \<or> d0 = 0x03 then Inr (33 # take 33 (data @ replicate 33 0) @ [0xac])
     else if d0 = 0x04 \<or> d0 = 0x05 then
       Inr (65 # key_expand ks ((d0 - 2) # take 32 (drop 1 data @ replicate 32 0)) @ [0xac])
     else Inr [])"

definition ComprScrLen :: "int list" where
  "ComprScrLen = [21, 21, 33, 33, 33, 33]"

definition span_C :: "slice \<Rightarrow> nat \<Rightarrow> go_panic + bool \<times> nat \<times> int" where
  "span_C dat off =
     andThen (slice_from dat off) (\<lambda>b.
     let (i, n) = VLen (sl_data b) in
     if i < 6 then
       (if i < 0 then Inl IndexOutOfRange else andThen (index ComprScrLen (nat i)) (\<lambda>l. Inr (True, off, l)))
     else Inr (False, off + n, i - 6))"

definition compressed :: "key_ops \<Rightarrow> utxo_format" where
  "compressed ks = \<lparr>uf_amount = CompressAmount, uf_value = DecompressAmount, uf_pack = CompressScript ks, uf_bias = 6,
     uf_span = span_C, uf_unpack = DecompressScript ks\<rparr>"

definition SerializeC :: "key_ops \<Rightarrow> (nat \<Rightarrow> bytes) \<Rightarrow> utxo_rec \<Rightarrow> bool \<Rightarrow> slice option \<Rightarrow> go_panic + bytes option" where
  "SerializeC ks = serialize (compressed ks)"

definition NewUtxoRecC :: "key_ops \<Rightarrow> bytes \<Rightarrow> slice \<Rightarrow> (go_panic + utxo_rec) option" where
  "NewUtxoRecC ks = NewUtxoRec (compressed ks)"

definition FullUtxoRecC :: "key_ops \<Rightarrow> slice \<Rightarrow> (go_panic + utxo_rec) option" where
  "FullUtxoRecC ks = FullUtxoRec (compressed ks)"

definition OneUtxoRecC :: "key_ops \<Rightarrow> slice \<Rightarrow> u32 \<Rightarrow> (go_panic + txout option) option" where
  "OneUtxoRecC ks = OneUtxoRec (compressed ks)"

section \<open>Scripts that survive\<close>

text \<open>Lists of a known length, taken apart.\<close>

lemma list_split_at: "xs = take n xs @ drop n xs" by simp

lemma P2KH_form: "IsP2KH scr \<Longrightarrow> scr = [0x76, 0xa9, 20] @ take 20 (drop 3 scr) @ [0x88, 0xac]"
proof -
  assume a: "IsP2KH scr"
  then have l: "length scr = 25" by (simp add: IsP2KH_def)
  show ?thesis
  proof (rule nth_equalityI)
    show "length scr = length ([0x76, 0xa9, 20] @ take 20 (drop 3 scr) @ [0x88, 0xac])" using l by simp
  next
    fix i assume "i < length scr"
    then consider "i = 0" | "i = 1" | "i = 2" | "3 \<le> i \<and> i < 23" | "i = 23" | "i = 24" using l by linarith
    then show "scr ! i = ([0x76, 0xa9, 20] @ take 20 (drop 3 scr) @ [0x88, 0xac]) ! i"
      using a l by cases (auto simp: IsP2KH_def nth_append nth_Cons')
  qed
qed

lemma P2SH_form: "IsP2SH scr \<Longrightarrow> scr = [0xa9, 20] @ take 20 (drop 2 scr) @ [0x87]"
proof -
  assume a: "IsP2SH scr"
  then have l: "length scr = 23" by (simp add: IsP2SH_def)
  show ?thesis
  proof (rule nth_equalityI)
    show "length scr = length ([0xa9, 20] @ take 20 (drop 2 scr) @ [0x87])" using l by simp
  next
    fix i assume "i < length scr"
    then consider "i = 0" | "i = 1" | "2 \<le> i \<and> i < 22" | "i = 22" using l by linarith
    moreover have suc: "Suc (Suc (i - Suc (Suc 0))) = i" if "2 \<le> i" using that by simp
    ultimately show "scr ! i = ([0xa9, 20] @ take 20 (drop 2 scr) @ [0x87]) ! i"
      using a l suc by cases (auto simp: IsP2SH_def nth_append nth_Cons')
  qed
qed

lemma push_form:
  assumes "length scr = n + 2" "scr ! 0 = a" "scr ! (n + 1) = z"
  shows "scr = a # take n (drop 1 scr) @ [z]"
proof (rule nth_equalityI)
  show "length scr = length (a # take n (drop 1 scr) @ [z])" using assms by simp
next
  fix i assume "i < length scr"
  then consider "i = 0" | "1 \<le> i \<and> i < n + 1" | "i = n + 1" using assms(1) by linarith
  then show "scr ! i = (a # take n (drop 1 scr) @ [z]) ! i"
    using assms by cases (auto simp: nth_append nth_Cons')
qed

text \<open>
  What the curve must do for an uncompressed key: from its first coordinate and the parity of the second, the key
  is found again.
\<close>

definition expands :: "key_ops \<Rightarrow> bytes \<Rightarrow> bool" where
  "expands ks pk \<longleftrightarrow> key_expand ks ((0x02 OR (pk ! 64 AND 1)) # take 32 (drop 1 pk)) = pk"

lemma one_or_zero: "(b AND 1 :: byte) = 0 \<or> b AND 1 = 1"
  by (simp add: and_one_eq mod_2_eq_odd)

lemma CompressScript_form:
  assumes "CompressScript ks scr = Some c" "\<And>pk. scr = 65 # pk @ [0xac] \<Longrightarrow> length pk = 65 \<Longrightarrow> key_valid ks pk \<Longrightarrow> expands ks pk"
  shows "DecompressScript ks c = Inr scr \<and> (\<exists>r. c = hd c # r) \<and> unat (hd c) < 6 \<and> int (length c) = ComprScrLen ! unat (hd c)"
proof (cases "IsP2KH scr")
  case True
  then have c: "c = 0x00 # take 20 (drop 3 scr)" using assms(1) by (simp add: CompressScript_def)
  have l: "length scr = 25" using True by (simp add: IsP2KH_def)
  have "DecompressScript ks c = Inr ([0x76, 0xa9, 20] @ take 20 (drop 3 scr) @ [0x88, 0xac])"
    using l by (simp add: c DecompressScript_def slice_range_def)
  then show ?thesis using P2KH_form [OF True] l by (simp add: c ComprScrLen_def)
next
  case n1: False
  show ?thesis
  proof (cases "IsP2SH scr")
    case True
    then have c: "c = 0x01 # take 20 (drop 2 scr)" using assms(1) n1 by (simp add: CompressScript_def)
    have l: "length scr = 23" using True by (simp add: IsP2SH_def)
    have "DecompressScript ks c = Inr ([0xa9, 20] @ take 20 (drop 2 scr) @ [0x87])"
      using l by (simp add: c DecompressScript_def)
    then show ?thesis using P2SH_form [OF True] l by (simp add: c ComprScrLen_def)
  next
    case n2: False
    obtain pk where pk: "IsP2PK ks scr = Some pk" using assms(1) n1 n2 by (auto simp: CompressScript_def split: option.splits)
    with assms(1) n1 n2 have c: "c = (if pk ! 0 = 0x04 then pk ! 0 OR (pk ! 64 AND 0x01) else pk ! 0) # take 32 (drop 1 pk)"
      by (simp add: CompressScript_def)
    consider (short) "length scr = 35" "scr ! 0 = 33" "scr ! 34 = 0xac" "scr ! 1 = 0x02 \<or> scr ! 1 = 0x03" "pk = take 33 (drop 1 scr)"
      | (long) "length scr = 67" "scr ! 0 = 65" "scr ! 66 = 0xac" "scr ! 1 = 0x04" "key_valid ks pk" "pk = take 65 (drop 1 scr)"
      using pk by (auto simp: IsP2PK_def split: if_splits)
    then show ?thesis
    proof cases
      case short
      have f: "scr = 33 # pk @ [0xac]" using push_form [of scr 33 33 "0xac"] short by simp
      have p0: "pk ! 0 = scr ! 1" "length pk = 33" using short by simp_all
      have cp: "c = pk"
      proof -
        have "pk ! 0 \<noteq> 0x04" using p0 short(4) by auto
        then have "c = pk ! 0 # take 32 (drop 1 pk)" by (simp add: c)
        also have "\<dots> = pk" using p0(2) by (metis Cons_nth_drop_Suc One_nat_def drop0 length_drop take_all diff_Suc_1
          le_refl numeral_eq_Suc pred_numeral_simps(3) zero_less_Suc less_eq_Suc_le)
        finally show ?thesis .
      qed
      have h: "hd pk = 0x02 \<or> hd pk = 0x03" using p0 short(4) by (cases pk) auto
      have "DecompressScript ks pk = Inr (33 # pk @ [0xac])"
        using h p0 by (cases pk) (auto simp: DecompressScript_def)
      then show ?thesis using f h p0(2) cp by (cases pk) (auto simp: ComprScrLen_def)
    next
      case long
      have f: "scr = 65 # pk @ [0xac]" using push_form [of scr 65 65 "0xac"] long by simp
      have p0: "pk ! 0 = 0x04" "length pk = 65" using long by simp_all
      have e: "key_expand ks ((0x02 OR (pk ! 64 AND 1)) # take 32 (drop 1 pk)) = pk"
        using assms(2) [OF f p0(2) long(5)] by (simp add: expands_def)
      have c': "c = (0x04 OR (pk ! 64 AND 1)) # take 32 (drop 1 pk)" using c p0(1) by simp
      have l: "length (take 32 (drop 1 pk)) = 32" using p0(2) by simp
      from one_or_zero [of "pk ! 64"] show ?thesis
      proof
        assume z: "pk ! 64 AND 1 = 0"
        then have "DecompressScript ks c = Inr (65 # pk @ [0xac])" using e l by (simp add: c' DecompressScript_def)
        then show ?thesis using f l z by (simp add: c' ComprScrLen_def)
      next
        assume o: "pk ! 64 AND 1 = 1"
        then have "DecompressScript ks c = Inr (65 # pk @ [0xac])" using e l by (simp add: c' DecompressScript_def)
        then show ?thesis using f l o by (simp add: c' ComprScrLen_def)
      qed
    qed
  qed
qed

text \<open>The outputs this format keeps.\<close>

definition comp_ok :: "key_ops \<Rightarrow> utxo_out \<Rightarrow> bool" where
  "comp_ok ks r \<longleftrightarrow> unat (uo_Value r) \<le> 2000000000000000000 \<and> length (uo_PKScr r) + 6 \<le> 2 ^ 48 \<and>
     (\<forall>pk. uo_PKScr r = 65 # pk @ [0xac] \<longrightarrow> length pk = 65 \<longrightarrow> key_valid ks pk \<longrightarrow> expands ks pk)"

interpretation compressed: record_format "compressed ks" "comp_ok ks" for ks
proof
  fix r assume "comp_ok ks r"
  then show "uf_value (compressed ks) (uf_amount (compressed ks) (uo_Value r)) = uo_Value r"
    by (simp add: comp_ok_def compressed_def Decompress_Compress)
next
  fix r :: utxo_out and off and dat :: slice and rest
  assume ok: "comp_ok ks r" and off: "off \<le> length (sl_data dat)"
    and d: "drop off (sl_data dat) = packed_script (compressed ks) (uo_PKScr r) @ rest"
  let ?s = "uo_PKScr r" and ?f = "compressed ks"
  show "\<exists>packed o2 i. uf_span ?f dat off = Inr (packed, o2, i) \<and> read_script ?f dat (packed, o2, i) = Inr ?s \<and>
      0 \<le> i \<and> o2 + nat i = off + length (packed_script ?f ?s)"
  proof (cases "CompressScript ks ?s")
    case (Some c)
    have d': "drop off (sl_data dat) = c @ rest" using d Some by (simp add: packed_script_def compressed_def)
    from CompressScript_form [OF Some] ok obtain h t where c: "DecompressScript ks c = Inr ?s" "c = h # t" "unat h < 6"
      "int (length c) = ComprScrLen ! unat h" unfolding comp_ok_def by (metis list.sel(1))
    have nm: "h \<noteq> 0xfd" "h \<noteq> 0xfe" "h \<noteq> 0xff" using c(3) by auto
    then have v: "VLen (c @ rest) = (uint h, 1)" by (simp add: VLen_def c(2))
    have ui: "uint h = int (unat h)" by simp
    have "span_C dat off = Inr (True, off, int (length c))"
      using off c(3,4) by (simp add: span_C_def slice_from_def d' v ui ComprScrLen_def del: of_nat_unat)
    moreover have "slice_at dat off (int (length c)) = Inr c"
      using drop_next [OF d' off] d' by (simp add: slice_at_def slice_range_def)
    ultimately show ?thesis
      using c(1) Some by (auto simp: compressed_def read_script_def packed_script_def)
  next
    case None
    let ?n = "length ?s"
    have d': "drop off (sl_data dat) = vlen_of (6 + ?n) @ ?s @ rest" using d None by (simp add: packed_script_def compressed_def)
    have v: "VLen (vlen_of (6 + ?n) @ ?s @ rest) = (int (6 + ?n), VLenSize (of_nat (6 + ?n)))"
      by (rule VLen_vlen_of [of 1]) (use ok in \<open>simp_all add: comp_ok_def\<close>)
    note n = drop_next [OF d' off]
    have s: "span_C dat off = Inr (False, off + length (vlen_of (6 + ?n)), int ?n)"
      using off unfolding span_C_def slice_from_def d' by (simp only: if_True andThen_simps slice.select_convs v Let_def prod.case length_WriteVlen) simp
    have "slice_at dat (off + length (vlen_of (6 + ?n))) (int ?n) = Inr ?s"
      using n drop_next [OF conjunct1 [OF n] conjunct2 [OF n]] by (simp add: slice_at_def slice_range_def)
    then show ?thesis
      using s None by (auto simp: compressed_def read_script_def packed_script_def)
  qed
qed

end
