(* ===== verification/UtxoDb.thy ===== *)
theory UtxoDb
  imports UtxoComp
begin

text \<open>
  The database of unspent outputs (\<open>lib/utxo/unspent_db.go\<close>): the map from keys to serialised records, the undo
  files, and the operations a block is connected and disconnected with. The 256 maps of the code, chosen by the
  first byte of the key, are one map here; a goroutine per record is one step of a loop, in the order of the
  lists (the laws below hold for every order). The files of the undo directory are part of the state, and writing
  one succeeds. The callbacks, statistics and the writing of the whole database to disk are left out.
\<close>

section \<open>Results that may not come\<close>

text \<open>\<open>None\<close> is a loop that does not end.\<close>

definition bindR :: "('e + 'a) option \<Rightarrow> ('a \<Rightarrow> ('e + 'b) option) \<Rightarrow> ('e + 'b) option" where
  "bindR m f = (case m of None \<Rightarrow> None | Some (Inl e) \<Rightarrow> Some (Inl e) | Some (Inr x) \<Rightarrow> f x)"

lemma bindR_simps [simp]:
  "bindR None f = None" "bindR (Some (Inl e)) f = Some (Inl e)" "bindR (Some (Inr x)) f = f x"
  by (simp_all add: bindR_def)

fun foldR :: "('x \<Rightarrow> 's \<Rightarrow> ('e + 's) option) \<Rightarrow> 'x list \<Rightarrow> 's \<Rightarrow> ('e + 's) option" where
  "foldR f [] s = Some (Inr s)"
| "foldR f (x # xs) s = bindR (f x s) (foldR f xs)"

lemma foldR_append: "foldR f (xs @ ys) s = bindR (foldR f xs s) (foldR f ys)"
  by (induction xs arbitrary: s) (auto simp: bindR_def split: option.split sum.split)

section \<open>State\<close>

text \<open>A value of the map can be a nil slice.\<close>

type_synonym utxo_map = "bytes \<Rightarrow> bytes option option"

record utxo_db =
  ud_Map :: utxo_map
  ud_LastBlockHash :: "bytes option"
  ud_LastBlockHeight :: u32
  ud_Undo :: "u32 \<Rightarrow> bytes option"
  ud_UnwindBufLen :: u32
  ud_Dirty :: bool

text \<open>What the process has configured: the format, the memory, the purging of unspendable outputs.\<close>

record utxo_cfg =
  uc_fmt :: utxo_format
  uc_alloc :: "nat \<Rightarrow> bytes"
  uc_keys :: key_ops
  uc_purge :: bool

record block_changes =
  bc_Height :: u32
  bc_LastKnownHeight :: u32
  bc_AddList :: "utxo_rec list"
  bc_DeledTxs :: "(bytes \<times> bool list) list"
  bc_UndoData :: "utxo_rec list option"

section \<open>Operations\<close>

definition stored :: "utxo_map \<Rightarrow> bytes \<Rightarrow> bytes option" where
  "stored m k = (case m k of Some (Some v) \<Rightarrow> Some v | _ \<Rightarrow> None)"

definition UnspentGet :: "utxo_format \<Rightarrow> utxo_map \<Rightarrow> bytes \<Rightarrow> u32 \<Rightarrow> (go_panic + txout option) option" where
  "UnspentGet fmt m h vout =
     (case stored m (UtxoKey h) of
        None \<Rightarrow> Some (Inr None)
      | Some v \<Rightarrow> OneUtxoRec fmt \<lparr>sl_data = v, sl_spare = []\<rparr> vout)"

definition TxPresent :: "utxo_map \<Rightarrow> bytes \<Rightarrow> bool" where
  "TxPresent m h \<longleftrightarrow> m (UtxoKey h) \<noteq> None"

text \<open>The loop of \<open>del\<close>: \<open>i\<close> is the index of the first flag.\<close>

fun del_outs :: "utxo_cfg \<Rightarrow> bool list \<Rightarrow> nat \<Rightarrow> utxo_out option list \<Rightarrow> bool \<Rightarrow> go_panic + utxo_out option list \<times> bool" where
  "del_outs cfg [] i outs anyout = Inr (outs, anyout)"
| "del_outs cfg (rm # rms) i outs anyout =
     (if rm then
        (if i < length outs then del_outs cfg rms (Suc i) (outs[i := None]) anyout else Inl IndexOutOfRange)
      else
        andThen (if uc_purge cfg then
                   andThen (index outs i) (\<lambda>r. Inr (case r of None \<Rightarrow> False | Some x \<Rightarrow> IsUnspendable (uc_keys cfg) (uo_PKScr x)))
                 else Inr False) (\<lambda>purge.
        if purge then del_outs cfg rms (Suc i) (outs[i := None]) anyout
        else if anyout then del_outs cfg rms (Suc i) outs anyout
        else andThen (index outs i) (\<lambda>r. del_outs cfg rms (Suc i) outs (r \<noteq> None))))"

definition del :: "utxo_cfg \<Rightarrow> bytes \<times> bool list \<Rightarrow> utxo_map \<Rightarrow> (go_panic + utxo_map) option" where
  "del cfg = (\<lambda>(h, outs) m.
     let ind = UtxoKey h in
     case stored m ind of
       None \<Rightarrow> Some (Inr m)
     | Some v \<Rightarrow>
         bindR (NewUtxoRec (uc_fmt cfg) ind \<lparr>sl_data = v, sl_spare = []\<rparr>) (\<lambda>rec.
         case del_outs cfg outs 0 (ur_Outs rec) False of
           Inl e \<Rightarrow> Some (Inl e)
         | Inr (outs', anyout) \<Rightarrow>
             if anyout then
               (case serialize (uc_fmt cfg) (uc_alloc cfg) (rec\<lparr>ur_Outs := outs'\<rparr>) False None of
                  Inl e \<Rightarrow> Some (Inl e)
                | Inr v \<Rightarrow> Some (Inr (m(ind \<mapsto> v))))
             else Some (Inr (m(ind := None)))))"

definition purge_outs :: "utxo_cfg \<Rightarrow> utxo_rec \<Rightarrow> utxo_rec" where
  "purge_outs cfg rec = rec\<lparr>ur_Outs := map (\<lambda>r. case r of
       Some x \<Rightarrow> if IsUnspendable (uc_keys cfg) (uo_PKScr x) then None else Some x
     | None \<Rightarrow> None) (ur_Outs rec)\<rparr>"

definition add_rec :: "utxo_cfg \<Rightarrow> utxo_rec \<Rightarrow> utxo_map \<Rightarrow> (go_panic + utxo_map) option" where
  "add_rec cfg rec m =
     (let rec = (if uc_purge cfg then purge_outs cfg rec else rec);
          add_this_tx = (if uc_purge cfg then \<exists>r \<in> set (ur_Outs rec). r \<noteq> None else True)
      in if add_this_tx then
           (case serialize (uc_fmt cfg) (uc_alloc cfg) rec False None of
              Inl e \<Rightarrow> Some (Inl e)
            | Inr v \<Rightarrow> Some (Inr (m(UtxoKey (ur_TxID rec) \<mapsto> v))))
         else Some (Inr m))"

definition commit :: "utxo_cfg \<Rightarrow> block_changes \<Rightarrow> utxo_map \<Rightarrow> (go_panic + utxo_map) option" where
  "commit cfg changes m =
     bindR (foldR (add_rec cfg) (bc_AddList changes) m) (foldR (del cfg) (bc_DeledTxs changes))"

text \<open>The undo file: the block's hash and the records, each serialised into one static megabyte.\<close>

definition undo_entry :: "utxo_cfg \<Rightarrow> utxo_rec \<Rightarrow> go_panic + bytes" where
  "undo_entry cfg xx =
     andThen (serialize (uc_fmt cfg) (uc_alloc cfg) xx True (Some \<lparr>sl_data = replicate 0x100000 0, sl_spare = []\<rparr>)) (\<lambda>bin.
     let b = (case bin of None \<Rightarrow> [] | Some b \<Rightarrow> b) in Inr (vlen_of (length b) @ b))"

definition undo_file :: "utxo_cfg \<Rightarrow> bytes \<Rightarrow> utxo_rec list \<Rightarrow> go_panic + bytes" where
  "undo_file cfg blhash xs = andThen (concatE (undo_entry cfg) xs) (\<lambda>d. Inr (blhash @ d))"

definition CommitBlockTxs :: "utxo_cfg \<Rightarrow> utxo_db \<Rightarrow> block_changes \<Rightarrow> bytes \<Rightarrow> (go_panic + utxo_db) option" where
  "CommitBlockTxs cfg db changes blhash =
     (case (case bc_UndoData changes of
              None \<Rightarrow> Inr (ud_Undo db)
            | Some xs \<Rightarrow> andThen (undo_file cfg blhash xs) (\<lambda>d. Inr ((ud_Undo db)(bc_Height changes \<mapsto> d)))) of
        Inl e \<Rightarrow> Some (Inl e)
      | Inr undo \<Rightarrow>
          bindR (commit cfg changes (ud_Map db)) (\<lambda>m.
          let db = db\<lparr>ud_Map := m, ud_Undo := undo, ud_LastBlockHash := Some blhash,
                      ud_LastBlockHeight := bc_Height changes, ud_Dirty := True\<rparr>;
              db = (if bc_Height changes > ud_UnwindBufLen db
                    then db\<lparr>ud_Undo := (ud_Undo db)(bc_Height changes - ud_UnwindBufLen db := None)\<rparr> else db)
          in Some (Inr db)))"

text \<open>Reading an undo file.\<close>

partial_function (option) read_undo :: "utxo_format \<Rightarrow> bytes \<Rightarrow> nat \<Rightarrow> utxo_rec list \<Rightarrow> (go_panic + utxo_rec list) option" where
  "read_undo fmt dat off acc =
     (if off < length dat then
        (let (le, n) = VLen (drop off dat); off = off + n in
         if le < 0 \<or> off + nat le > length dat then Some (Inl SliceOutOfRange)
         else
           (case FullUtxoRec fmt \<lparr>sl_data = take (nat le) (drop off dat), sl_spare = drop (off + nat le) dat\<rparr> of
              None \<Rightarrow> None
            | Some (Inl e) \<Rightarrow> Some (Inl e)
            | Some (Inr qr) \<Rightarrow> read_undo fmt dat (off + nat le) (acc @ [qr])))
      else Some (Inr acc))"

text \<open>The outputs an undo record does not have are taken from the record of the database.\<close>

fun merge_outs :: "utxo_out option list \<Rightarrow> nat \<Rightarrow> utxo_out option list \<Rightarrow> go_panic + utxo_out option list" where
  "merge_outs [] a old = Inr []"
| "merge_outs (r # rs) a old =
     andThen (if r = None then index old a else Inr r) (\<lambda>r. andThen (merge_outs rs (Suc a) old) (\<lambda>rs. Inr (r # rs)))"

definition add_back :: "utxo_cfg \<Rightarrow> utxo_rec \<Rightarrow> utxo_map \<Rightarrow> (go_panic + utxo_map) option" where
  "add_back cfg rec m =
     (let ind = UtxoKey (ur_TxID rec) in
      bindR (case stored m ind of
               None \<Rightarrow> Some (Inr rec)
             | Some v \<Rightarrow>
                 bindR (NewUtxoRec (uc_fmt cfg) ind \<lparr>sl_data = v, sl_spare = []\<rparr>) (\<lambda>oldrec.
                 Some (andThen (merge_outs (ur_Outs rec) 0 (ur_Outs oldrec)) (\<lambda>outs. Inr (rec\<lparr>ur_Outs := outs\<rparr>))))) (\<lambda>rec.
      case serialize (uc_fmt cfg) (uc_alloc cfg) rec False None of
        Inl e \<Rightarrow> Some (Inl e)
      | Inr v \<Rightarrow> Some (Inr (m(ind \<mapsto> v)))))"

text \<open>
  \<open>UndoBlockTxs\<close>, with the identifiers and the numbers of outputs of the block's transactions. A missing undo file
  is a panic.
\<close>

definition UndoBlockTxs :: "utxo_cfg \<Rightarrow> utxo_db \<Rightarrow> (bytes \<times> nat) list \<Rightarrow> bytes \<Rightarrow> (go_panic + utxo_db) option" where
  "UndoBlockTxs cfg db txs newhash =
     bindR (foldR (del cfg) (map (\<lambda>(h, n). (h, replicate n True)) txs) (ud_Map db)) (\<lambda>m.
     case ud_Undo db (ud_LastBlockHeight db) of
       None \<Rightarrow> Some (Inl (ExplicitPanic ''undo file''))
     | Some dat \<Rightarrow>
         bindR (read_undo (uc_fmt cfg) dat 32 []) (\<lambda>addback.
         bindR (foldR (add_back cfg) addback m) (\<lambda>m.
         Some (Inr (db\<lparr>ud_Map := m, ud_Undo := (ud_Undo db)(ud_LastBlockHeight db := None),
           ud_LastBlockHeight := ud_LastBlockHeight db - 1,
           ud_LastBlockHash := map_option (\<lambda>_. newhash) (ud_LastBlockHash db), ud_Dirty := True\<rparr>)))))"

section \<open>The coins the database stands for\<close>

text \<open>The database as a map from keys to records, and what the operations are on it.\<close>

type_synonym coins = "bytes \<Rightarrow> utxo_rec option"

definition store_of :: "utxo_format \<Rightarrow> coins \<Rightarrow> utxo_map" where
  "store_of fmt R = (\<lambda>k. map_option (\<lambda>rec. Some (drop 8 (ur_TxID rec) @ rec_bytes fmt rec)) (R k))"

definition coins_ok :: "(utxo_out \<Rightarrow> bool) \<Rightarrow> coins \<Rightarrow> bool" where
  "coins_ok ok R \<longleftrightarrow> (\<forall>k rec. R k = Some rec \<longrightarrow> UtxoKey (ur_TxID rec) = k \<and> record_ok ok rec)"

definition upd_at :: "('x \<Rightarrow> 'k) \<Rightarrow> ('x \<Rightarrow> 'v option \<Rightarrow> 'v option) \<Rightarrow> 'x \<Rightarrow> ('k \<Rightarrow> 'v option) \<Rightarrow> 'k \<Rightarrow> 'v option" where
  "upd_at key g x R = R(key x := g x (R (key x)))"

lemma fold_upd_at_other: "k \<notin> key ` set xs \<Longrightarrow> fold (upd_at key g) xs R k = R k"
  by (induction xs arbitrary: R) (auto simp: upd_at_def)

lemma fold_upd_at:
  "distinct (map key xs) \<Longrightarrow> x \<in> set xs \<Longrightarrow> fold (upd_at key g) xs R (key x) = g x (R (key x))"
proof (induction xs arbitrary: R)
  case (Cons y ys)
  show ?case
  proof (cases "x = y")
    case True
    with Cons.prems have "key x \<notin> key ` set ys" by simp
    then have "fold (upd_at key g) ys (upd_at key g x R) (key x) = upd_at key g x R (key x)" by (rule fold_upd_at_other)
    then show ?thesis using True by (simp add: upd_at_def [of key g _ R])
  next
    case False
    with Cons.prems have x: "x \<in> set ys" "key y \<notin> key ` set ys" by auto
    then have "key x \<noteq> key y" by (metis imageI)
    with Cons x show ?thesis by (simp add: upd_at_def [of key g y R])
  qed
qed simp

text \<open>A loop whose steps touch different keys, against the same loop on the abstract map.\<close>

lemma foldR_upd_at:
  assumes "distinct (map key xs)" "I R" "\<And>x. x \<in> set xs \<Longrightarrow> pre x (R (key x))"
    "\<And>x R. I R \<Longrightarrow> x \<in> set xs \<Longrightarrow> pre x (R (key x)) \<Longrightarrow>
      f x (S R) = Some (Inr (S (upd_at key g x R))) \<and> I (upd_at key g x R)"
  shows "foldR f xs (S R) = Some (Inr (S (fold (upd_at key g) xs R))) \<and> I (fold (upd_at key g) xs R)"
  using assms
proof (induction xs arbitrary: R)
  case (Cons x xs)
  have s: "f x (S R) = Some (Inr (S (upd_at key g x R)))" "I (upd_at key g x R)"
    using Cons.prems(4) [OF Cons.prems(2), of x] Cons.prems(3) [of x] by simp_all
  have "foldR f xs (S (upd_at key g x R)) = Some (Inr (S (fold (upd_at key g) xs (upd_at key g x R)))) \<and>
      I (fold (upd_at key g) xs (upd_at key g x R))"
  proof (rule Cons.IH)
    show "pre y (upd_at key g x R (key y))" if "y \<in> set xs" for y
    proof -
      have "key y \<noteq> key x" using that Cons.prems(1) by (auto simp: image_iff)
      then show ?thesis using Cons.prems(3) [of y] that by (simp add: upd_at_def)
    qed
  qed (use Cons.prems s in auto)
  with s show ?case by simp
qed simp

definition spend :: "bool list \<Rightarrow> utxo_out option list \<Rightarrow> utxo_out option list" where
  "spend rms outs = map2 (\<lambda>rm r. if rm then None else r) rms outs"

definition coin_del :: "bytes \<times> bool list \<Rightarrow> utxo_rec option \<Rightarrow> utxo_rec option" where
  "coin_del d r = (case r of
     None \<Rightarrow> None
   | Some rec \<Rightarrow> let outs = spend (snd d) (ur_Outs rec) in
       if \<exists>x \<in> set outs. x \<noteq> None then Some (rec\<lparr>ur_Outs := outs\<rparr>) else None)"

definition merge :: "utxo_out option list \<Rightarrow> utxo_out option list \<Rightarrow> utxo_out option list" where
  "merge new old = map2 (\<lambda>r o'. if r = None then o' else r) new old"

definition coin_back :: "utxo_rec \<Rightarrow> utxo_rec option \<Rightarrow> utxo_rec option" where
  "coin_back u r = (case r of None \<Rightarrow> Some u | Some old \<Rightarrow> Some (u\<lparr>ur_Outs := merge (ur_Outs u) (ur_Outs old)\<rparr>))"

definition rec_key :: "utxo_rec \<Rightarrow> bytes" where
  "rec_key rec = UtxoKey (ur_TxID rec)"

definition del_key :: "bytes \<times> 'b \<Rightarrow> bytes" where
  "del_key d = UtxoKey (fst d)"

lemma del_outs_spend:
  assumes "\<not> uc_purge cfg" "i + length rms = length outs"
  shows "del_outs cfg rms i outs anyout =
    Inr (take i outs @ spend rms (drop i outs), anyout \<or> (\<exists>x \<in> set (spend rms (drop i outs)). x \<noteq> None))"
  using assms
proof (induction cfg rms i outs anyout rule: del_outs.induct)
  case (1 cfg i outs anyout)
  then show ?case by (simp add: spend_def)
next
  case (2 cfg rm rms i outs anyout)
  have i: "i < length outs" using "2.prems" by simp
  then have d: "drop i outs = outs ! i # drop (Suc i) outs" by (rule Cons_nth_drop_Suc [symmetric])
  have t: "take (Suc i) outs = take i outs @ [outs ! i]" using i by (rule take_Suc_conv_app_nth)
  have tu: "take (Suc i) (outs[i := x]) = take i outs @ [x]" "drop (Suc i) (outs[i := x]) = drop (Suc i) outs" for x
    using i by (simp_all add: take_Suc_conv_app_nth)
  show ?case
  proof (cases rm)
    case True
    have "del_outs cfg rms (Suc i) (outs[i := None]) anyout = Inr (take (Suc i) (outs[i := None]) @ spend rms (drop (Suc i) (outs[i := None])),
        anyout \<or> (\<exists>x \<in> set (spend rms (drop (Suc i) (outs[i := None]))). x \<noteq> None))"
      by (rule "2.IH"(1)) (use True i "2.prems" in simp_all)
    then show ?thesis using True i by (simp add: d spend_def tu)
  next
    case False
    show ?thesis
    proof (cases anyout)
      case True
      have "del_outs cfg rms (Suc i) outs anyout = Inr (take (Suc i) outs @ spend rms (drop (Suc i) outs),
          anyout \<or> (\<exists>x \<in> set (spend rms (drop (Suc i) outs)). x \<noteq> None))"
        by (rule "2.IH"(3)) (use False True i "2.prems" in simp_all)
      then show ?thesis using False True "2.prems" by (simp add: d spend_def t)
    next
      case no: False
      have "del_outs cfg rms (Suc i) outs (outs ! i \<noteq> None) = Inr (take (Suc i) outs @ spend rms (drop (Suc i) outs),
          outs ! i \<noteq> None \<or> (\<exists>x \<in> set (spend rms (drop (Suc i) outs)). x \<noteq> None))"
        by (rule "2.IH"(4)) (use False no i "2.prems" in simp_all)
      then show ?thesis using False no i "2.prems" by (simp add: d spend_def t)
    qed
  qed
qed

lemma merge_outs_merge:
  "length rs + a = length old \<Longrightarrow> merge_outs rs a old = Inr (merge rs (drop a old))"
proof (induction rs arbitrary: a)
  case (Cons r rs)
  then have "drop a old = old ! a # drop (Suc a) old" by (intro Cons_nth_drop_Suc [symmetric]) simp
  with Cons show ?case by (simp add: merge_def)
qed (simp add: merge_def)

section \<open>The interface of the database\<close>

text \<open>
  What the database relies on: a format that keeps its promise, and memory of the size asked for. The purging
  of unspendable outputs is off.
\<close>

locale utxo_store = record_format "uc_fmt cfg" ok for cfg :: utxo_cfg and ok +
  assumes alloc: "length (uc_alloc cfg n) = n" and no_purge: "\<not> uc_purge cfg"
begin

abbreviation "S \<equiv> store_of (uc_fmt cfg)"

lemma stored_coins: "stored (S R) k = map_option (\<lambda>rec. drop 8 (ur_TxID rec) @ rec_bytes (uc_fmt cfg) rec) (R k)"
  by (simp add: stored_def store_of_def split: option.split)

lemma load: "coins_ok ok R \<Longrightarrow> R k = Some rec \<Longrightarrow>
    NewUtxoRec (uc_fmt cfg) k \<lparr>sl_data = drop 8 (ur_TxID rec) @ rec_bytes (uc_fmt cfg) rec, sl_spare = sp\<rparr> = Some (Inr rec)"
  using NewUtxoRec_bytes [of rec] by (auto simp: coins_ok_def UtxoKey_def)

lemma save: "record_ok ok rec \<Longrightarrow>
    serialize (uc_fmt cfg) (uc_alloc cfg) rec False None = Inr (Some (drop 8 (ur_TxID rec) @ rec_bytes (uc_fmt cfg) rec))"
  using serialize_eq [of "uc_alloc cfg" rec False "uc_fmt cfg" None] alloc by (simp add: record_ok_def)

text \<open>The database answers for an output as the map of coins does.\<close>

lemma UnspentGet_coins:
  assumes "coins_ok ok R"
  shows "UnspentGet (uc_fmt cfg) (S R) h v = Some (Inr (case R (UtxoKey h) of None \<Rightarrow> None | Some rec \<Rightarrow> lookup_out rec v))"
  using assms OneUtxoRec_bytes
  by (auto simp: UnspentGet_def stored_coins coins_ok_def split: option.split)

lemma add_rec_coins:
  assumes "coins_ok ok R" "record_ok ok rec"
  shows "add_rec cfg rec (S R) = Some (Inr (S (upd_at rec_key (\<lambda>rec _. Some rec) rec R))) \<and>
    coins_ok ok (upd_at rec_key (\<lambda>rec _. Some rec) rec R)"
  using assms save [OF assms(2)] no_purge
  by (auto simp: add_rec_def Let_def store_of_def upd_at_def rec_key_def coins_ok_def)

lemma outs_ok_spend: "outs_ok ok outs \<Longrightarrow> outs_ok ok (spend rms outs)"
  unfolding outs_ok_def spend_def by (auto dest!: set_zip_rightD split: if_splits)

lemma length_spend: "length rms = length outs \<Longrightarrow> length (spend rms outs) = length outs"
  by (simp add: spend_def)

lemma del_coins:
  assumes R: "coins_ok ok R" and len: "\<And>rec. R (del_key d) = Some rec \<Longrightarrow> length (snd d) = length (ur_Outs rec)"
  shows "del cfg d (S R) = Some (Inr (S (upd_at del_key coin_del d R))) \<and> coins_ok ok (upd_at del_key coin_del d R)"
proof (cases "R (del_key d)")
  case None
  then have "upd_at del_key coin_del d R = R" by (auto simp: upd_at_def coin_del_def)
  then show ?thesis using R None by (simp add: del_def case_prod_beta Let_def stored_coins del_key_def)
next
  case (Some rec)
  let ?outs = "spend (snd d) (ur_Outs rec)" and ?any = "\<exists>x \<in> set (spend (snd d) (ur_Outs rec)). x \<noteq> None"
  have l: "length (snd d) = length (ur_Outs rec)" using len Some by simp
  have ok: "record_ok ok rec" "UtxoKey (ur_TxID rec) = del_key d" using R Some by (auto simp: coins_ok_def)
  have d: "del_outs cfg (snd d) 0 (ur_Outs rec) False = Inr (?outs, ?any)"
    using del_outs_spend [OF no_purge, of 0 "snd d" "ur_Outs rec" False] l by simp
  have upd: "upd_at del_key coin_del d R = R(del_key d := if ?any then Some (rec\<lparr>ur_Outs := ?outs\<rparr>) else None)"
    by (simp add: upd_at_def coin_del_def Some Let_def)
  have new: "record_ok ok (rec\<lparr>ur_Outs := ?outs\<rparr>)" if ?any
    using ok(1) that length_spend [OF l] outs_ok_spend by (simp add: record_ok_def)
  show ?thesis
  proof (cases ?any)
    case True
    have "del cfg d (S R) = Some (Inr ((S R)(del_key d \<mapsto> Some (drop 8 (ur_TxID rec) @ rec_bytes (uc_fmt cfg) (rec\<lparr>ur_Outs := ?outs\<rparr>)))))"
      using True save [OF new [OF True]]
      by (simp add: del_def case_prod_beta Let_def stored_coins del_key_def [symmetric] Some load [OF R Some] d)
    moreover have "\<dots> = Some (Inr (S (upd_at del_key coin_del d R)))"
      using True unfolding upd by (auto simp: store_of_def)
    ultimately show ?thesis using R new [OF True] ok(2) True unfolding upd by (auto simp: coins_ok_def)
  next
    case False
    have "del cfg d (S R) = Some (Inr ((S R)(del_key d := None)))"
      using False by (simp add: del_def case_prod_beta Let_def stored_coins del_key_def [symmetric] Some load [OF R Some] d)
    moreover have "\<dots> = Some (Inr (S (upd_at del_key coin_del d R)))"
      using False unfolding upd by (auto simp: store_of_def)
    ultimately show ?thesis using R False unfolding upd by (auto simp: coins_ok_def)
  qed
qed

lemma outs_ok_merge: "outs_ok ok xs \<Longrightarrow> outs_ok ok ys \<Longrightarrow> outs_ok ok (merge xs ys)"
proof -
  assume *: "outs_ok ok xs" "outs_ok ok ys"
  have "ok x" if "Some x \<in> set (merge xs ys)" for x
  proof -
    obtain a b where ab: "(a, b) \<in> set (zip xs ys)" "Some x = (if a = None then b else a)"
      using \<open>Some x \<in> set (merge xs ys)\<close> unfolding merge_def set_map by (auto split: prod.splits)
    then have "a \<in> set xs" "b \<in> set ys" by (auto dest: set_zip_leftD set_zip_rightD)
    then show ?thesis using ab(2) * by (auto simp: outs_ok_def split: if_splits)
  qed
  then show ?thesis by (simp add: outs_ok_def)
qed

lemma merge_any:
  assumes "length xs = length ys" "\<exists>x \<in> set xs. x \<noteq> None"
  shows "\<exists>x \<in> set (merge xs ys). x \<noteq> None"
proof -
  obtain i where "i < length xs" "xs ! i \<noteq> None" using assms(2) by (metis in_set_conv_nth)
  then have "merge xs ys ! i = xs ! i" "i < length (merge xs ys)" using assms(1) by (auto simp: merge_def)
  with \<open>xs ! i \<noteq> None\<close> have "merge xs ys ! i \<noteq> None" by metis
  with \<open>i < length (merge xs ys)\<close> show ?thesis by (metis nth_mem)
qed

lemma add_back_coins:
  assumes R: "coins_ok ok R" and u: "record_ok ok u"
    and len: "\<And>old. R (rec_key u) = Some old \<Longrightarrow> length (ur_Outs u) = length (ur_Outs old)"
  shows "add_back cfg u (S R) = Some (Inr (S (upd_at rec_key coin_back u R))) \<and> coins_ok ok (upd_at rec_key coin_back u R)"
proof (cases "R (rec_key u)")
  case None
  have upd: "upd_at rec_key coin_back u R = R(rec_key u \<mapsto> u)" by (simp add: upd_at_def coin_back_def None)
  have "add_back cfg u (S R) = Some (Inr ((S R)(rec_key u \<mapsto> Some (drop 8 (ur_TxID u) @ rec_bytes (uc_fmt cfg) u))))"
    by (simp add: add_back_def Let_def stored_coins rec_key_def [symmetric] None save [OF u])
  moreover have "\<dots> = Some (Inr (S (upd_at rec_key coin_back u R)))"
    unfolding upd by (auto simp: store_of_def)
  ultimately show ?thesis
    using R u unfolding upd by (auto simp: coins_ok_def rec_key_def)
next
  case (Some old)
  let ?outs = "merge (ur_Outs u) (ur_Outs old)"
  have old: "record_ok ok old" using R Some by (auto simp: coins_ok_def)
  have m: "merge_outs (ur_Outs u) 0 (ur_Outs old) = Inr ?outs"
    using merge_outs_merge [of "ur_Outs u" 0 "ur_Outs old"] len [OF Some] by simp
  have ok: "record_ok ok (u\<lparr>ur_Outs := ?outs\<rparr>)"
    using u old len [OF Some] outs_ok_merge merge_any [OF len [OF Some]] by (simp add: record_ok_def merge_def)
  have key: "rec_key (u\<lparr>ur_Outs := ?outs\<rparr>) = rec_key u" by (simp add: rec_key_def)
  have upd: "upd_at rec_key coin_back u R = R(rec_key u \<mapsto> u\<lparr>ur_Outs := ?outs\<rparr>)"
    by (simp add: upd_at_def coin_back_def Some)
  have "add_back cfg u (S R) = Some (Inr ((S R)(rec_key u \<mapsto> Some (drop 8 (ur_TxID u) @ rec_bytes (uc_fmt cfg) (u\<lparr>ur_Outs := ?outs\<rparr>)))))"
    using save [OF ok]
    by (simp add: add_back_def Let_def stored_coins rec_key_def [symmetric] Some load [OF R Some] m)
  moreover have "\<dots> = Some (Inr (S (upd_at rec_key coin_back u R)))"
    unfolding upd by (auto simp: store_of_def)
  ultimately show ?thesis
    using R ok key unfolding upd by (auto simp: coins_ok_def rec_key_def)
qed

text \<open>The undo file is read back.\<close>

definition undo_fits :: "utxo_rec \<Rightarrow> bool" where
  "undo_fits u \<longleftrightarrow> record_ok ok u \<and> 32 + length (rec_bytes (uc_fmt cfg) u) \<le> 0x100000"

lemma undo_entry_eq:
  "undo_fits u \<Longrightarrow> undo_entry cfg u = Inr (vlen_of (length (ur_TxID u @ rec_bytes (uc_fmt cfg) u)) @ ur_TxID u @ rec_bytes (uc_fmt cfg) u)"
  using serialize_eq [of "uc_alloc cfg" u True "uc_fmt cfg" "Some \<lparr>sl_data = replicate 0x100000 0, sl_spare = []\<rparr>"] alloc
  by (simp add: undo_entry_def undo_fits_def record_ok_def)

lemma undo_entries_eq:
  "list_all undo_fits us \<Longrightarrow> concatE (undo_entry cfg) us =
    Inr (concat (map (\<lambda>u. vlen_of (length (ur_TxID u @ rec_bytes (uc_fmt cfg) u)) @ ur_TxID u @ rec_bytes (uc_fmt cfg) u) us))"
  by (induction us) (simp_all add: undo_entry_eq)

lemma read_undo_entries:
  assumes "list_all undo_fits us" "off \<le> length dat"
    "drop off dat = concat (map (\<lambda>u. vlen_of (length (ur_TxID u @ rec_bytes (uc_fmt cfg) u)) @ ur_TxID u @ rec_bytes (uc_fmt cfg) u) us)"
  shows "read_undo (uc_fmt cfg) dat off acc = Some (Inr (acc @ us))"
  using assms
proof (induction us arbitrary: off acc)
  case Nil
  then show ?case by (subst read_undo.simps) simp
next
  case (Cons u us)
  let ?b = "\<lambda>u. ur_TxID u @ rec_bytes (uc_fmt cfg) u"
  let ?n = "length (?b u)" and ?rest = "concat (map (\<lambda>u. vlen_of (length (?b u)) @ ?b u) us)"
  have u: "undo_fits u" using Cons.prems(1) by simp
  have d: "drop off dat = vlen_of ?n @ ?b u @ ?rest" using Cons.prems(3) by simp
  have fit: "?n \<le> 0x100000" using u by (simp add: undo_fits_def record_ok_def)
  have v: "VLen (vlen_of ?n @ ?b u @ ?rest) = (int ?n, VLenSize (of_nat ?n))"
    by (rule VLen_vlen_of [of 1]) (use fit in simp_all)
  note n = drop_next [OF d Cons.prems(2)]
  note n2 = drop_next [OF conjunct1 [OF n] conjunct2 [OF n]]
  have lt: "off < length dat"
  proof -
    have "drop off dat \<noteq> []" using d by simp
    then show ?thesis by simp
  qed
  define b where "b = ?b u"
  have vd: "VLen (drop off dat) = (int ?n, VLenSize (of_nat ?n))" using v d by simp
  have rd: "FullUtxoRec (uc_fmt cfg) \<lparr>sl_data = ?b u, sl_spare = sp\<rparr> = Some (Inr u)" for sp
    using FullUtxoRec_bytes u by (simp add: undo_fits_def)
  have "read_undo (uc_fmt cfg) dat (off + length (vlen_of ?n) + ?n) (acc @ [u]) = Some (Inr ((acc @ [u]) @ us))"
    by (rule Cons.IH) (use Cons.prems n2 in simp_all)
  moreover have "take ?n (drop (off + length (vlen_of ?n)) dat) = ?b u" using n by simp
  moreover have "off + length (vlen_of ?n) + ?n \<le> length dat" using n2 by simp
  ultimately show ?case
    using lt rd unfolding b_def [symmetric]
    by (subst read_undo.simps) (simp add: vd [folded b_def] length_WriteVlen Let_def del: length_append)
qed

end

section \<open>Connecting and disconnecting a block\<close>

text \<open>The undo record of a deletion: the outputs it spends.\<close>

definition undo_of :: "coins \<Rightarrow> bytes \<times> bool list \<Rightarrow> utxo_rec" where
  "undo_of R d = (case R (del_key d) of
     Some rec \<Rightarrow> rec\<lparr>ur_Outs := map2 (\<lambda>s r. if s then r else None) (snd d) (ur_Outs rec)\<rparr>
   | None \<Rightarrow> \<lparr>ur_TxID = fst d, ur_Coinbase = False, ur_InBlock = 0, ur_Outs = []\<rparr>)"

text \<open>
  The changes of a block that fit the coins: its new records are under new keys, its deletions spend outputs
  that are there, and the undo data has what they spend (in any order). The second definition is about the
  block's transactions, each with its number of outputs: none was there before, and the new records are theirs.
\<close>

definition changes_fit :: "(utxo_out \<Rightarrow> bool) \<Rightarrow> coins \<Rightarrow> utxo_rec list \<Rightarrow> (bytes \<times> bool list) list \<Rightarrow> bool" where
  "changes_fit ok R adds dels \<longleftrightarrow>
     distinct (map rec_key adds) \<and> (\<forall>rec \<in> set adds. record_ok ok rec \<and> R (rec_key rec) = None) \<and>
     distinct (map del_key dels) \<and>
     (\<forall>d \<in> set dels. \<exists>rec. R (del_key d) = Some rec \<and> length (snd d) = length (ur_Outs rec) \<and> True \<in> set (snd d) \<and>
        (\<forall>i < length (snd d). snd d ! i \<longrightarrow> ur_Outs rec ! i \<noteq> None))"

definition undo_matches :: "coins \<Rightarrow> (bytes \<times> bool list) list \<Rightarrow> utxo_rec list \<Rightarrow> bool" where
  "undo_matches R dels us \<longleftrightarrow> distinct (map rec_key us) \<and> set us = undo_of R ` set dels"

definition txs_fit :: "coins \<Rightarrow> utxo_rec list \<Rightarrow> (bytes \<times> nat) list \<Rightarrow> bool" where
  "txs_fit R adds txs \<longleftrightarrow>
     distinct (map del_key txs) \<and>
     (\<forall>t \<in> set txs. R (del_key t) = None \<and> (\<forall>rec \<in> set adds. rec_key rec = del_key t \<longrightarrow> length (ur_Outs rec) = snd t)) \<and>
     (\<forall>rec \<in> set adds. \<exists>t \<in> set txs. del_key t = rec_key rec)"

definition coins_commit :: "utxo_rec list \<Rightarrow> (bytes \<times> bool list) list \<Rightarrow> coins \<Rightarrow> coins" where
  "coins_commit adds dels R = fold (upd_at del_key coin_del) dels (fold (upd_at rec_key (\<lambda>rec _. Some rec)) adds R)"

context utxo_store begin

lemma commit_coins:
  assumes R: "coins_ok ok R" and fit: "changes_fit ok R (bc_AddList ch) (bc_DeledTxs ch)"
  shows "commit cfg ch (S R) = Some (Inr (S (coins_commit (bc_AddList ch) (bc_DeledTxs ch) R))) \<and>
    coins_ok ok (coins_commit (bc_AddList ch) (bc_DeledTxs ch) R)"
proof -
  let ?R1 = "fold (upd_at rec_key (\<lambda>rec _. Some rec)) (bc_AddList ch) R"
  have a: "foldR (add_rec cfg) (bc_AddList ch) (S R) = Some (Inr (S ?R1)) \<and> coins_ok ok ?R1"
    by (rule foldR_upd_at [where pre = "\<lambda>_ _. True" and I = "coins_ok ok"])
       (use R fit add_rec_coins in \<open>auto simp: changes_fit_def\<close>)
  have same: "?R1 (del_key d) = R (del_key d)" if "d \<in> set (bc_DeledTxs ch)" for d
  proof (rule fold_upd_at_other)
    show "del_key d \<notin> rec_key ` set (bc_AddList ch)" using fit that by (fastforce simp: changes_fit_def)
  qed
  have "foldR (del cfg) (bc_DeledTxs ch) (S ?R1) = Some (Inr (S (fold (upd_at del_key coin_del) (bc_DeledTxs ch) ?R1))) \<and>
      coins_ok ok (fold (upd_at del_key coin_del) (bc_DeledTxs ch) ?R1)"
  proof (rule foldR_upd_at [where pre = "\<lambda>d r. \<forall>rec. r = Some rec \<longrightarrow> length (snd d) = length (ur_Outs rec)" and I = "coins_ok ok"])
    show "distinct (map del_key (bc_DeledTxs ch))" using fit by (simp add: changes_fit_def)
    show "coins_ok ok ?R1" using a by blast
    show "\<forall>rec. ?R1 (del_key d) = Some rec \<longrightarrow> length (snd d) = length (ur_Outs rec)" if "d \<in> set (bc_DeledTxs ch)" for d
      using fit that same [OF that] by (fastforce simp: changes_fit_def)
  qed (use del_coins in blast)
  with a show ?thesis by (simp add: commit_def coins_commit_def)
qed

lemma coins_commit_at:
  assumes "changes_fit ok R adds dels"
  shows "rec \<in> set adds \<Longrightarrow> coins_commit adds dels R (rec_key rec) = Some rec"
    "d \<in> set dels \<Longrightarrow> coins_commit adds dels R (del_key d) = coin_del d (R (del_key d))"
    "k \<notin> rec_key ` set adds \<Longrightarrow> k \<notin> del_key ` set dels \<Longrightarrow> coins_commit adds dels R k = R k"
proof -
  let ?R1 = "fold (upd_at rec_key (\<lambda>rec _. Some rec)) adds R"
  have dis: "rec_key rec \<noteq> del_key d" if "rec \<in> set adds" "d \<in> set dels" for rec d
    using assms that by (fastforce simp: changes_fit_def)
  show "rec \<in> set adds \<Longrightarrow> coins_commit adds dels R (rec_key rec) = Some rec"
  proof -
    assume rec: "rec \<in> set adds"
    have "coins_commit adds dels R (rec_key rec) = ?R1 (rec_key rec)"
      unfolding coins_commit_def by (rule fold_upd_at_other) (use dis rec in fastforce)
    also have "\<dots> = Some rec" by (rule fold_upd_at) (use assms rec in \<open>simp_all add: changes_fit_def\<close>)
    finally show ?thesis .
  qed
  show "d \<in> set dels \<Longrightarrow> coins_commit adds dels R (del_key d) = coin_del d (R (del_key d))"
  proof -
    assume d: "d \<in> set dels"
    have "coins_commit adds dels R (del_key d) = coin_del d (?R1 (del_key d))"
      unfolding coins_commit_def by (rule fold_upd_at) (use assms d in \<open>simp_all add: changes_fit_def\<close>)
    moreover have "?R1 (del_key d) = R (del_key d)" by (rule fold_upd_at_other) (use dis d in fastforce)
    ultimately show ?thesis by simp
  qed
  show "k \<notin> rec_key ` set adds \<Longrightarrow> k \<notin> del_key ` set dels \<Longrightarrow> coins_commit adds dels R k = R k"
    unfolding coins_commit_def by (simp add: fold_upd_at_other)
qed

text \<open>Adding the spent outputs back to what is left gives the record that was there.\<close>

lemma coin_back_del:
  assumes "length sp = length (ur_Outs rec)" "\<And>i. i < length sp \<Longrightarrow> sp ! i \<Longrightarrow> ur_Outs rec ! i \<noteq> None"
  shows "coin_back (rec\<lparr>ur_Outs := map2 (\<lambda>s r. if s then r else None) sp (ur_Outs rec)\<rparr>) (coin_del (h, sp) (Some rec)) = Some rec"
proof (cases "\<exists>x \<in> set (spend sp (ur_Outs rec)). x \<noteq> None")
  case True
  have "merge (map2 (\<lambda>s r. if s then r else None) sp (ur_Outs rec)) (spend sp (ur_Outs rec)) = ur_Outs rec"
    by (rule nth_equalityI) (use assms in \<open>auto simp: merge_def spend_def\<close>)
  then show ?thesis using True by (simp add: coin_del_def coin_back_def)
next
  case False
  have "map2 (\<lambda>s r. if s then r else None) sp (ur_Outs rec) = ur_Outs rec"
  proof (rule nth_equalityI)
    fix i assume "i < length (map2 (\<lambda>s r. if s then r else None) sp (ur_Outs rec))"
    then have i: "i < length sp" "i < length (ur_Outs rec)" using assms(1) by simp_all
    then have "spend sp (ur_Outs rec) ! i \<in> set (spend sp (ur_Outs rec))" by (intro nth_mem) (simp add: spend_def)
    then have "spend sp (ur_Outs rec) ! i = None" using False by blast
    then show "map2 (\<lambda>s r. if s then r else None) sp (ur_Outs rec) ! i = ur_Outs rec ! i"
      using i by (auto simp: spend_def split: if_splits)
  qed (use assms(1) in simp)
  moreover have "coin_del (h, sp) (Some rec) = None" using False by (auto simp: coin_del_def Let_def)
  ultimately show ?thesis by (simp add: coin_back_def)
qed

lemma spend_all: "n = length outs \<Longrightarrow> spend (replicate n True) outs = replicate n None"
  by (rule nth_equalityI) (simp_all add: spend_def)

lemma coin_del_all: "(\<And>rec. r = Some rec \<Longrightarrow> n = length (ur_Outs rec)) \<Longrightarrow> coin_del (h, replicate n True) r = None"
  by (auto simp: coin_del_def spend_all Let_def split: option.split)

abbreviation del_all :: "bytes \<times> nat \<Rightarrow> bytes \<times> bool list" where
  "del_all \<equiv> \<lambda>(h, n). (h, replicate n True)"

lemma del_key_all: "del_key (del_all t) = del_key t"
  by (cases t) (simp add: del_key_def)

lemma del_txs_coins:
  assumes R: "coins_ok ok R" and fit: "changes_fit ok R adds dels" and txs: "txs_fit R adds txs"
    and R2: "coins_ok ok (coins_commit adds dels R)"
  shows "\<exists>R3. foldR (del cfg) (map del_all txs) (S (coins_commit adds dels R)) = Some (Inr (S R3)) \<and> coins_ok ok R3 \<and>
    (\<forall>k. R3 k = (if k \<in> del_key ` set txs then None else coins_commit adds dels R k))"
proof -
  let ?R2 = "coins_commit adds dels R"
  have at: "\<And>rec. ?R2 (del_key t) = Some rec \<Longrightarrow> snd t = length (ur_Outs rec)" if t: "t \<in> set txs" for t
  proof -
    fix rec assume s: "?R2 (del_key t) = Some rec"
    have none: "R (del_key t) = None" using txs t by (simp add: txs_fit_def)
    have nd: "del_key t \<notin> del_key ` set dels" using fit none by (fastforce simp: changes_fit_def)
    show "snd t = length (ur_Outs rec)"
    proof (cases "del_key t \<in> rec_key ` set adds")
      case True
      then obtain a where a: "a \<in> set adds" "rec_key a = del_key t" by auto
      then have "rec = a" using coins_commit_at(1) [OF fit a(1)] s by simp
      then show ?thesis using txs t a by (simp add: txs_fit_def)
    next
      case False
      then show ?thesis using coins_commit_at(3) [OF fit False nd] none s by simp
    qed
  qed
  have keys: "map del_key (map del_all txs) = map del_key txs" "del_key ` set (map del_all txs) = del_key ` set txs"
    by (simp_all add: del_key_all image_image)
  have dist: "distinct (map del_key (map del_all txs))" unfolding keys using txs by (simp add: txs_fit_def)
  let ?R3 = "fold (upd_at del_key coin_del) (map del_all txs) ?R2"
  have "foldR (del cfg) (map del_all txs) (S ?R2) = Some (Inr (S ?R3)) \<and> coins_ok ok ?R3"
  proof (rule foldR_upd_at [where pre = "\<lambda>d r. \<forall>rec. r = Some rec \<longrightarrow> length (snd d) = length (ur_Outs rec)" and I = "coins_ok ok"])
    show "distinct (map del_key (map del_all txs))" by (rule dist)
    show "coins_ok ok ?R2" by (rule R2)
    show "\<forall>rec. ?R2 (del_key d) = Some rec \<longrightarrow> length (snd d) = length (ur_Outs rec)" if "d \<in> set (map del_all txs)" for d
      using that at by (auto simp: del_key_all) (metis at del_key_def fst_conv length_replicate snd_conv)
  qed (use del_coins in blast)
  moreover have "?R3 k = (if k \<in> del_key ` set txs then None else ?R2 k)" for k
  proof (cases "k \<in> del_key ` set txs")
    case True
    then obtain t where t: "t \<in> set txs" "k = del_key t" by auto
    have "?R3 (del_key (del_all t)) = coin_del (del_all t) (?R2 (del_key (del_all t)))"
      using t(1) by (intro fold_upd_at dist) simp
    moreover have "coin_del (del_all t) (?R2 (del_key t)) = None"
      using at [OF t(1)] by (cases t) (simp add: coin_del_all)
    ultimately show ?thesis using True t(2) by (simp add: del_key_all)
  next
    case False
    then show ?thesis using fold_upd_at_other [of k del_key "map del_all txs" coin_del ?R2] keys(2) by simp
  qed
  ultimately show ?thesis by blast
qed

lemma undo_of_ok:
  assumes R: "coins_ok ok R" and fit: "changes_fit ok R adds dels" and d: "d \<in> set dels"
  shows "\<exists>rec. R (del_key d) = Some rec \<and> rec_key (undo_of R d) = del_key d \<and> record_ok ok (undo_of R d) \<and>
    length (ur_Outs (undo_of R d)) = length (ur_Outs rec) \<and> coin_back (undo_of R d) (coin_del d (Some rec)) = Some rec"
proof -
  obtain rec where rec: "R (del_key d) = Some rec" "length (snd d) = length (ur_Outs rec)" "True \<in> set (snd d)"
    "\<forall>i < length (snd d). snd d ! i \<longrightarrow> ur_Outs rec ! i \<noteq> None"
    using fit d unfolding changes_fit_def by blast
  let ?m = "map2 (\<lambda>s r. if s then r else None) (snd d) (ur_Outs rec)"
  have u: "undo_of R d = rec\<lparr>ur_Outs := ?m\<rparr>" by (simp add: undo_of_def rec(1))
  have ok: "record_ok ok rec" "rec_key rec = del_key d" using R rec(1) by (auto simp: coins_ok_def rec_key_def)
  have "\<exists>x \<in> set ?m. x \<noteq> None"
  proof -
    obtain i where i: "i < length (snd d)" "snd d ! i" using rec(3) by (metis in_set_conv_nth)
    then have "?m ! i \<noteq> None" "i < length ?m" using rec(2,4) by simp_all
    then show ?thesis by (metis nth_mem)
  qed
  moreover have "outs_ok ok ?m"
  proof -
    have "ok x" if "Some x \<in> set ?m" for x
      using that ok(1) unfolding set_map record_ok_def outs_ok_def by (auto dest!: set_zip_rightD split: if_splits)
    then show ?thesis by (simp add: outs_ok_def)
  qed
  ultimately have "record_ok ok (undo_of R d)" using ok(1) rec(2) by (simp add: u record_ok_def)
  moreover have "coin_back (undo_of R d) (coin_del d (Some rec)) = Some rec"
    using coin_back_del [of "snd d" rec "fst d"] rec(2,4) by (simp add: u)
  ultimately show ?thesis using rec(1,2) ok(2) by (simp add: u rec_key_def)
qed

text \<open>Disconnecting gives back the coins there were.\<close>

lemma add_back_all:
  assumes R: "coins_ok ok R" and fit: "changes_fit ok R adds dels" and us: "undo_matches R dels us" and txs: "txs_fit R adds txs"
    and R3: "coins_ok ok R3" "\<forall>k. R3 k = (if k \<in> del_key ` set txs then None else coins_commit adds dels R k)"
  shows "foldR (add_back cfg) us (S R3) = Some (Inr (S R))"
proof -
  have at_dels: "R3 (del_key d) = coin_del d (R (del_key d))" if "d \<in> set dels" for d
  proof -
    have "R (del_key d) \<noteq> None" using undo_of_ok [OF R fit that] by auto
    then have "del_key d \<notin> del_key ` set txs" using txs by (fastforce simp: txs_fit_def)
    then show ?thesis using R3(2) coins_commit_at(2) [OF fit that] by simp
  qed
  let ?R4 = "fold (upd_at rec_key coin_back) us R3"
  have "foldR (add_back cfg) us (S R3) = Some (Inr (S ?R4)) \<and> coins_ok ok ?R4"
  proof (rule foldR_upd_at [where pre = "\<lambda>u r. record_ok ok u \<and> (\<forall>old. r = Some old \<longrightarrow> length (ur_Outs u) = length (ur_Outs old))" and I = "coins_ok ok"])
    show "distinct (map rec_key us)" using us by (simp add: undo_matches_def)
    show "record_ok ok u \<and> (\<forall>old. R3 (rec_key u) = Some old \<longrightarrow> length (ur_Outs u) = length (ur_Outs old))" if "u \<in> set us" for u
    proof -
      obtain d where d: "d \<in> set dels" "u = undo_of R d" using us \<open>u \<in> set us\<close> by (auto simp: undo_matches_def)
      obtain rec where rec: "R (del_key d) = Some rec" "rec_key u = del_key d" "record_ok ok u" "length (ur_Outs u) = length (ur_Outs rec)"
        using undo_of_ok [OF R fit d(1)] d(2) by blast
      have "length (snd d) = length (ur_Outs rec)" using fit d(1) rec(1) by (fastforce simp: changes_fit_def)
      then show ?thesis
        using rec at_dels [OF d(1)] by (auto simp: coin_del_def Let_def length_spend split: if_splits)
    qed
  qed (use R3 add_back_coins in blast)+
  moreover have "?R4 = R"
  proof
    fix k
    show "?R4 k = R k"
    proof (cases "k \<in> rec_key ` set us")
      case True
      then obtain u d where u: "u \<in> set us" "k = rec_key u" "d \<in> set dels" "u = undo_of R d"
        using us by (auto simp: undo_matches_def)
      obtain rec where rec: "R (del_key d) = Some rec" "rec_key u = del_key d" "coin_back u (coin_del d (Some rec)) = Some rec"
        using undo_of_ok [OF R fit u(3)] u(4) by blast
      have "?R4 (rec_key u) = coin_back u (R3 (rec_key u))"
        using us u(1) by (intro fold_upd_at) (simp_all add: undo_matches_def)
      then show ?thesis using rec at_dels [OF u(3)] u(2) by simp
    next
      case False
      have nd: "k \<notin> del_key ` set dels"
      proof
        assume "k \<in> del_key ` set dels"
        then obtain d where d: "d \<in> set dels" "k = del_key d" by auto
        then have "undo_of R d \<in> set us" "rec_key (undo_of R d) = k" using us undo_of_ok [OF R fit d(1)] by (auto simp: undo_matches_def)
        then show False using False by blast
      qed
      have "?R4 k = R3 k" by (rule fold_upd_at_other [OF False])
      also have "\<dots> = R k"
      proof (cases "k \<in> del_key ` set txs")
        case True
        then show ?thesis using R3(2) txs by (auto simp: txs_fit_def)
      next
        case no: False
        then have "k \<notin> rec_key ` set adds" using txs by (force simp: txs_fit_def)
        then show ?thesis using no R3(2) coins_commit_at(3) [OF fit _ nd] by simp
      qed
      finally show ?thesis .
    qed
  qed
  ultimately show ?thesis by simp
qed

lemma Undo_Commit:
  assumes R: "coins_ok ok R" "ud_Map db = S R"
    and fit: "changes_fit ok R (bc_AddList ch) (bc_DeledTxs ch)" "bc_UndoData ch = Some us"
      "undo_matches R (bc_DeledTxs ch) us" "\<forall>u \<in> set us. 32 + length (rec_bytes (uc_fmt cfg) u) \<le> 0x100000"
      "txs_fit R (bc_AddList ch) txs"
    and misc: "length blhash = 32" "ud_UnwindBufLen db \<noteq> 0"
  shows "\<exists>db1 db2. CommitBlockTxs cfg db ch blhash = Some (Inr db1) \<and>
      ud_Map db1 = S (coins_commit (bc_AddList ch) (bc_DeledTxs ch) R) \<and> ud_LastBlockHeight db1 = bc_Height ch \<and>
      UndoBlockTxs cfg db1 txs prev = Some (Inr db2) \<and> ud_Map db2 = ud_Map db \<and>
      ud_LastBlockHeight db2 = bc_Height ch - 1 \<and> ud_LastBlockHash db2 = Some prev"
proof -
  let ?R2 = "coins_commit (bc_AddList ch) (bc_DeledTxs ch) R"
  note c = commit_coins [OF R(1) fit(1)]
  have fits: "list_all undo_fits us"
    using fit(3,4) undo_of_ok [OF R(1) fit(1)] by (auto simp: list_all_iff undo_fits_def undo_matches_def)
  define ents where "ents = concat (map (\<lambda>u. vlen_of (length (ur_TxID u @ rec_bytes (uc_fmt cfg) u)) @ ur_TxID u @ rec_bytes (uc_fmt cfg) u) us)"
  have fil: "undo_file cfg blhash us = Inr (blhash @ ents)"
    by (simp add: undo_file_def undo_entries_eq [OF fits, folded ents_def])
  obtain db1 where db1: "CommitBlockTxs cfg db ch blhash = Some (Inr db1)" "ud_Map db1 = S ?R2" "ud_LastBlockHeight db1 = bc_Height ch"
    "ud_Undo db1 (bc_Height ch) = Some (blhash @ ents)" "ud_LastBlockHash db1 = Some blhash"
  proof (cases "bc_Height ch > ud_UnwindBufLen db")
    case True
    then have "bc_Height ch - ud_UnwindBufLen db \<noteq> bc_Height ch" using misc(2) by simp
    then show thesis using that True c by (simp add: CommitBlockTxs_def fit(2) fil R(2) Let_def)
  next
    case False
    then show thesis using that c by (simp add: CommitBlockTxs_def fit(2) fil R(2) Let_def)
  qed
  obtain R3 where R3: "foldR (del cfg) (map del_all txs) (S ?R2) = Some (Inr (S R3))" "coins_ok ok R3"
    "\<forall>k. R3 k = (if k \<in> del_key ` set txs then None else ?R2 k)"
    using del_txs_coins [OF R(1) fit(1,5) conjunct2 [OF c]] by blast
  have bk: "foldR (add_back cfg) us (S R3) = Some (Inr (S R))"
    by (rule add_back_all [OF R(1) fit(1,3,5) R3(2,3)])
  have rd: "read_undo (uc_fmt cfg) (blhash @ ents) 32 [] = Some (Inr us)"
    using read_undo_entries [OF fits, of 32 "blhash @ ents" "[]"] misc(1) by (simp add: ents_def)
  show ?thesis
    using db1 R3(1) bk rd R(2) by (simp add: UndoBlockTxs_def)
qed

end

section \<open>The two databases of the program\<close>

definition plain_cfg :: "key_ops \<Rightarrow> utxo_cfg" where
  "plain_cfg ks = \<lparr>uc_fmt = plain, uc_alloc = (\<lambda>n. replicate n 0), uc_keys = ks, uc_purge = False\<rparr>"

definition compressed_cfg :: "key_ops \<Rightarrow> utxo_cfg" where
  "compressed_cfg ks = \<lparr>uc_fmt = compressed ks, uc_alloc = (\<lambda>n. replicate n 0), uc_keys = ks, uc_purge = False\<rparr>"

interpretation plain_db: utxo_store "plain_cfg ks" plain_ok for ks
  using plain.record_format_axioms by (simp add: utxo_store_def utxo_store_axioms_def plain_cfg_def)

interpretation compressed_db: utxo_store "compressed_cfg ks" "comp_ok ks" for ks
  using compressed.record_format_axioms [of ks] by (simp add: utxo_store_def utxo_store_axioms_def compressed_cfg_def)

end
