(* ===== verification/Merkle.thy ===== *)
theory Merkle
  imports Ripemd160
begin

text \<open>
  The Merkle tree: \<open>CalcMerkle\<close> of \<open>lib/btc/funcs.go\<close>, which appends one level after the other to its
  working array, the same computation level by level, and what a root computed without the mutation flag
  determines.
\<close>

section \<open>The code\<close>

text \<open>One level: the entries \<open>mtr[j ..< j + siz]\<close>, an odd last one paired with itself, are hashed onto the end.\<close>

definition merkle_partner :: "nat \<Rightarrow> nat \<Rightarrow> nat" where
  "merkle_partner siz i = (if i + 1 < siz - 1 then i + 1 else siz - 1)"

function merkle_row :: "bytes list \<Rightarrow> nat \<Rightarrow> nat \<Rightarrow> nat \<Rightarrow> bool \<Rightarrow> bytes list \<times> bool" where
  "merkle_row mtr j siz i mutated =
     (if i < siz then
        let i2 = merkle_partner siz i;
            a = mtr ! (j + i); b = mtr ! (j + i2)
        in merkle_row (mtr @ [sha256 (sha256 (a @ b))]) j siz (i + 2) (mutated \<or> (i \<noteq> i2 \<and> a = b))
      else (mtr, mutated))"
  by pat_completeness auto
termination by (relation "measure (\<lambda>(_, _, siz, i, _). siz - i)") auto

function merkle_rows :: "bytes list \<Rightarrow> nat \<Rightarrow> nat \<Rightarrow> bool \<Rightarrow> bytes list \<times> bool" where
  "merkle_rows mtr j siz mutated =
     (if siz > 1 then
        let (mtr, mutated) = merkle_row mtr j siz 0 mutated
        in merkle_rows mtr (j + siz) ((siz + 1) div 2) mutated
      else (mtr, mutated))"
  by pat_completeness auto
termination by (relation "measure (\<lambda>(_, _, siz, _). siz)") auto

declare merkle_row.simps [simp del] merkle_rows.simps [simp del]

definition CalcMerkle :: "bytes list \<Rightarrow> go_panic + bytes \<times> bool" where
  "CalcMerkle mtr =
     (let (mtr, mutated) = merkle_rows mtr 0 (length mtr) False in
      if mtr = [] then Inl IndexOutOfRange else Inr (last mtr, mutated))"

section \<open>Level by level\<close>

text \<open>The byte strings hashed for one level, and whether two different entries of a pair are equal.\<close>

fun level_nodes :: "bytes list \<Rightarrow> bytes list" where
  "level_nodes [] = []"
| "level_nodes [a] = [a @ a]"
| "level_nodes (a # b # r) = (a @ b) # level_nodes r"

fun has_equal_pair :: "bytes list \<Rightarrow> bool" where
  "has_equal_pair (a # b # r) = (a = b \<or> has_equal_pair r)"
| "has_equal_pair _ = False"

definition merkle_level :: "bytes list \<Rightarrow> bytes list" where
  "merkle_level xs = map (\<lambda>n. sha256 (sha256 n)) (level_nodes xs)"

lemma merkle_level_simps [simp]:
  "merkle_level [] = []"
  "merkle_level [a] = [sha256 (sha256 (a @ a))]"
  "merkle_level (a # b # r) = sha256 (sha256 (a @ b)) # merkle_level r"
  by (simp_all add: merkle_level_def)

lemma length_merkle_level [simp]: "length (merkle_level xs) = (length xs + 1) div 2"
  by (induction xs rule: level_nodes.induct) simp_all

function merkle_root :: "bytes list \<Rightarrow> bool \<Rightarrow> bytes list \<times> bool" where
  "merkle_root xs m =
     (if length xs > 1 then merkle_root (merkle_level xs) (m \<or> has_equal_pair xs) else (xs, m))"
  by pat_completeness auto
termination by (relation "measure (\<lambda>(xs, _). length xs)") auto

declare merkle_root.simps [simp del]

text \<open>The array of the code holds the levels one after the other.\<close>

lemma merkle_row_level:
  assumes "j + i + length xs \<le> length mtr" "\<And>k. k < length xs \<Longrightarrow> mtr ! (j + i + k) = xs ! k" "siz = i + length xs"
  shows "merkle_row mtr j siz i m = (mtr @ merkle_level xs, m \<or> has_equal_pair xs)"
  using assms
proof (induction xs arbitrary: mtr i m rule: level_nodes.induct)
  case 1
  then show ?case by (subst merkle_row.simps) simp
next
  case (2 a)
  have "mtr ! (j + i) = a" using "2.prems"(2) [of 0] by simp
  moreover have "merkle_row (mtr @ [sha256 (sha256 (a @ a))]) j siz (i + 2) m = (mtr @ [sha256 (sha256 (a @ a))], m)"
    by (subst merkle_row.simps) (simp add: "2.prems"(3))
  ultimately show ?case
    by (subst merkle_row.simps) (simp add: merkle_partner_def "2.prems"(3))
next
  case (3 a b r)
  have n: "mtr ! (j + i) = a" "mtr ! (j + (i + 1)) = b"
    using "3.prems"(2) [of 0] "3.prems"(2) [of 1] by (simp_all add: add.assoc)
  have p: "merkle_partner siz i = i + 1" by (simp add: merkle_partner_def "3.prems"(3))
  let ?h = "sha256 (sha256 (a @ b))"
  have "merkle_row (mtr @ [?h]) j siz (i + 2) (m \<or> a = b) = ((mtr @ [?h]) @ merkle_level r, (m \<or> a = b) \<or> has_equal_pair r)"
  proof (rule "3.IH")
    fix k assume k: "k < length r"
    then have "mtr ! (j + i + (k + 2)) = (a # b # r) ! (k + 2)" by (intro "3.prems"(2)) simp
    with k "3.prems"(1) show "(mtr @ [?h]) ! (j + (i + 2) + k) = r ! k"
      by (simp add: nth_append ac_simps)
  qed (use "3.prems"(1,3) in simp_all)
  then show ?case
    using n p "3.prems"(3) by (subst merkle_row.simps) (simp add: Let_def disj_ac del: add_Suc_right)
qed

lemma merkle_rows_levels:
  assumes "length mtr = j + siz" "drop j mtr = xs"
  shows "\<exists>pre. merkle_rows mtr j siz m = (pre @ fst (merkle_root xs m), snd (merkle_root xs m))"
  using assms
proof (induction siz arbitrary: mtr j m xs rule: less_induct)
  case (less siz)
  have l: "length xs = siz" using less.prems by auto
  show ?case
  proof (cases "siz > 1")
    case True
    have row: "merkle_row mtr j siz 0 m = (mtr @ merkle_level xs, m \<or> has_equal_pair xs)"
    proof (rule merkle_row_level)
      fix k assume "k < length xs"
      then show "mtr ! (j + 0 + k) = xs ! k" using less.prems by auto
    qed (use less.prems l in simp_all)
    have rows: "merkle_rows mtr j siz m = merkle_rows (mtr @ merkle_level xs) (j + siz) ((siz + 1) div 2) (m \<or> has_equal_pair xs)"
      by (subst merkle_rows.simps) (simp only: True row if_True prod.case Let_def)
    have root: "merkle_root xs m = merkle_root (merkle_level xs) (m \<or> has_equal_pair xs)"
      by (subst merkle_root.simps) (simp only: True l if_True)
    show ?thesis
      unfolding rows root
    proof (rule less.IH)
      show "(siz + 1) div 2 < siz" using True by presburger
      show "length (mtr @ merkle_level xs) = j + siz + (siz + 1) div 2" using less.prems(1) l by simp
      show "drop (j + siz) (mtr @ merkle_level xs) = merkle_level xs" using less.prems(1) by simp
    qed
  next
    case False
    have rows: "merkle_rows mtr j siz m = (mtr, m)"
      by (subst merkle_rows.simps) (simp only: False if_False)
    have root: "merkle_root xs m = (xs, m)"
      by (subst merkle_root.simps) (simp only: False l if_False)
    have "mtr = take j mtr @ xs" using less.prems(2) append_take_drop_id [of j mtr] by simp
    then show ?thesis unfolding rows root by (intro exI [of _ "take j mtr"]) simp
  qed
qed

lemma length_merkle_root: "xs \<noteq> [] \<Longrightarrow> length (fst (merkle_root xs m)) = 1"
proof (induction xs m rule: merkle_root.induct)
  case (1 xs m)
  show ?case
  proof (cases "length xs > 1")
    case True
    then have "0 < length (merkle_level xs)" unfolding length_merkle_level by simp
    then have "merkle_level xs \<noteq> []" by (simp only: length_greater_0_conv not_False_eq_True)
    with 1 True show ?thesis by (simp add: merkle_root.simps [of xs])
  next
    case False
    with 1 show ?thesis by (cases xs) (simp_all add: merkle_root.simps)
  qed
qed

lemma CalcMerkle_root:
  "CalcMerkle xs = (if xs = [] then Inl IndexOutOfRange
     else Inr (hd (fst (merkle_root xs False)), snd (merkle_root xs False)))"
proof (cases "xs = []")
  case False
  obtain pre where "merkle_rows xs 0 (length xs) False = (pre @ fst (merkle_root xs False), snd (merkle_root xs False))"
    using merkle_rows_levels [of xs 0 "length xs" xs False] by auto
  moreover obtain r where "fst (merkle_root xs False) = [r]"
    using length_merkle_root [OF False, of False] by (metis One_nat_def length_0_conv length_Suc_conv)
  ultimately show ?thesis using False by (simp add: CalcMerkle_def)
qed (simp add: CalcMerkle_def merkle_rows.simps)

section \<open>What a root determines\<close>

text \<open>All byte strings hashed for a root, and how many levels there are.\<close>

function tree_nodes :: "bytes list \<Rightarrow> bytes list" where
  "tree_nodes xs = (if length xs > 1 then level_nodes xs @ tree_nodes (merkle_level xs) else [])"
  by pat_completeness auto
termination by (relation "measure length") auto

fun merkle_depth :: "nat \<Rightarrow> nat" where
  "merkle_depth n = (if n > 1 then Suc (merkle_depth ((n + 1) div 2)) else 0)"

declare tree_nodes.simps [simp del] merkle_depth.simps [simp del]

text \<open>Two of the hashed strings are different and have the same double hash: the trees exhibit a collision.\<close>

definition collision :: "bytes list \<Rightarrow> bytes list \<Rightarrow> bool" where
  "collision ns ns' \<longleftrightarrow> (\<exists>x \<in> set ns. \<exists>y \<in> set ns'. x \<noteq> y \<and> sha256 (sha256 x) = sha256 (sha256 y))"

definition hash_list :: "bytes list \<Rightarrow> bool" where
  "hash_list xs \<longleftrightarrow> (\<forall>x \<in> set xs. length x = 32)"

lemma hash_list_simps [simp]: "hash_list []" "hash_list (x # xs) \<longleftrightarrow> length x = 32 \<and> hash_list xs"
  by (simp_all add: hash_list_def)

lemma hash_list_level [simp]: "hash_list (merkle_level xs)"
  by (simp add: hash_list_def merkle_level_def)

lemma hashes_differ:
  "map (\<lambda>n. sha256 (sha256 n)) ns = map (\<lambda>n. sha256 (sha256 n)) ns' \<Longrightarrow> ns = ns' \<or> collision ns ns'"
proof (induction ns arbitrary: ns')
  case (Cons n ns)
  then obtain n' r where "ns' = n' # r" by (cases ns') auto
  with Cons show ?case by (auto simp: collision_def)
qed simp

lemma level_nodes_inj:
  assumes "level_nodes xs = level_nodes ys" "\<not> has_equal_pair xs" "\<not> has_equal_pair ys" "hash_list xs" "hash_list ys"
  shows "xs = ys"
  using assms
proof (induction xs arbitrary: ys rule: level_nodes.induct)
  case 1
  then show ?case by (cases ys rule: level_nodes.cases) simp_all
next
  case (2 a)
  then show ?case by (cases ys rule: level_nodes.cases) auto
next
  case (3 a b r)
  then show ?case by (cases ys rule: level_nodes.cases) auto
qed

lemma collision_mono: "collision ns ns' \<Longrightarrow> set ns \<subseteq> set ms \<Longrightarrow> set ns' \<subseteq> set ms' \<Longrightarrow> collision ms ms'"
  unfolding collision_def by blast

lemma merkle_root_flag: "snd (merkle_root xs m) \<longleftrightarrow> m \<or> snd (merkle_root xs False)"
proof (induction "length xs" arbitrary: xs m rule: less_induct)
  case less
  show ?case
  proof (cases "length xs > 1")
    case True
    have eq: "merkle_root xs k = merkle_root (merkle_level xs) (k \<or> has_equal_pair xs)" for k
      by (subst merkle_root.simps) (simp only: True if_True)
    have "length (merkle_level xs) < length xs" using True by simp
    from less.hyps [OF this, of "m \<or> has_equal_pair xs"] less.hyps [OF this, of "has_equal_pair xs"]
    show ?thesis unfolding eq by simp
  qed (simp add: merkle_root.simps)
qed

lemma merkle_root_inj:
  assumes "merkle_root xs False = (r, False)" "merkle_root ys False = (r, False)"
    "merkle_depth (length xs) = merkle_depth (length ys)" "hash_list xs" "hash_list ys"
  shows "xs = ys \<or> collision (tree_nodes xs) (tree_nodes ys)"
  using assms
proof (induction "merkle_depth (length xs)" arbitrary: xs ys)
  case 0
  then have "\<not> length xs > 1" "\<not> length ys > 1"
    by (metis merkle_depth.simps nat.distinct(1))+
  with 0 show ?case by (simp add: merkle_root.simps)
next
  case (Suc n)
  have l: "length xs > 1" "length ys > 1"
    using Suc.hyps(2) Suc.prems(3) by (metis merkle_depth.simps nat.distinct(1))+
  have root: "merkle_root zs False = merkle_root (merkle_level zs) (has_equal_pair zs)" if "length zs > 1" for zs
    using that by (subst merkle_root.simps) simp
  have ep: "\<not> has_equal_pair xs" "\<not> has_equal_pair ys"
    using Suc.prems(1,2) root [OF l(1)] root [OF l(2)] merkle_root_flag by (metis snd_conv)+
  have d: "merkle_depth (length zs) = Suc (merkle_depth (length (merkle_level zs)))" if "length zs > 1" for zs
    using that by (subst merkle_depth.simps) simp
  have nodes: "tree_nodes zs = level_nodes zs @ tree_nodes (merkle_level zs)" if "length zs > 1" for zs
    using that by (subst tree_nodes.simps) simp
  have "merkle_level xs = merkle_level ys \<or> collision (tree_nodes (merkle_level xs)) (tree_nodes (merkle_level ys))"
    by (rule Suc.hyps(1)) (use Suc.prems(1-3) Suc.hyps(2) root l ep d in simp_all)
  then show ?case
  proof
    assume "merkle_level xs = merkle_level ys"
    then have "level_nodes xs = level_nodes ys \<or> collision (level_nodes xs) (level_nodes ys)"
      unfolding merkle_level_def by (rule hashes_differ)
    then show ?thesis
      using level_nodes_inj [OF _ ep Suc.prems(4,5)] collision_mono nodes l by fastforce
  next
    assume "collision (tree_nodes (merkle_level xs)) (tree_nodes (merkle_level ys))"
    then show ?thesis using collision_mono nodes l by fastforce
  qed
qed

lemma CalcMerkle_inj:
  assumes "CalcMerkle xs = Inr (r, False)" "CalcMerkle ys = Inr (r, False)"
    "merkle_depth (length xs) = merkle_depth (length ys)" "hash_list xs" "hash_list ys"
  shows "xs = ys \<or> collision (tree_nodes xs) (tree_nodes ys)"
proof -
  have "merkle_root zs False = ([r], False)" if z: "CalcMerkle zs = Inr (r, False)" for zs
  proof -
    have ne: "zs \<noteq> []" using z by (auto simp: CalcMerkle_root)
    then have "length (fst (merkle_root zs False)) = 1" by (rule length_merkle_root)
    then obtain h where "fst (merkle_root zs False) = [h]" by (metis One_nat_def length_0_conv length_Suc_conv)
    with z ne show ?thesis by (cases "merkle_root zs False") (simp add: CalcMerkle_root)
  qed
  then show ?thesis using assms merkle_root_inj by blast
qed

text \<open>Repeating the odd last entry gives the same root and raises the flag.\<close>

lemma odd_repeat_level:
  assumes "odd (length xs)"
  shows "merkle_level (xs @ [last xs]) = merkle_level xs \<and> has_equal_pair (xs @ [last xs])"
  using assms by (induction xs rule: level_nodes.induct) auto

lemma CalcMerkle_repeat:
  assumes "odd (length xs)" "length xs > 1"
  shows "\<exists>r m. CalcMerkle xs = Inr (r, m) \<and> CalcMerkle (xs @ [last xs]) = Inr (r, True)"
proof -
  have root: "merkle_root zs False = merkle_root (merkle_level zs) (has_equal_pair zs)" if "length zs > 1" for zs
    using that by (subst merkle_root.simps) simp
  have fst: "fst (merkle_root zs m) = fst (merkle_root zs False)" for zs m
  proof (induction "length zs" arbitrary: zs m rule: less_induct)
    case less
    show ?case
    proof (cases "length zs > 1")
      case True
      have eq: "merkle_root zs k = merkle_root (merkle_level zs) (k \<or> has_equal_pair zs)" for k
        by (subst merkle_root.simps) (simp only: True if_True)
      have "length (merkle_level zs) < length zs" using True by simp
      from less.hyps [OF this] show ?thesis unfolding eq by metis
    qed (simp add: merkle_root.simps)
  qed
  note rep = odd_repeat_level [OF assms(1)]
  have "fst (merkle_root (xs @ [last xs]) False) = fst (merkle_root xs False)"
    using root [OF assms(2)] root [of "xs @ [last xs]"] assms(2) rep fst by (metis length_append_singleton less_SucI)
  moreover have "snd (merkle_root (xs @ [last xs]) False)"
    using root [of "xs @ [last xs]"] assms(2) rep merkle_root_flag by (metis length_append_singleton less_SucI)
  ultimately show ?thesis using assms(2) by (auto simp: CalcMerkle_root)
qed

end
