(* ===== verification/Block.thy ===== *)
theory Block
  imports TxLaws Merkle
begin

text \<open>
  Blocks (\<open>lib/btc/block.go\<close>) and \<open>GetWitnessMerkle\<close> of \<open>lib/btc/funcs.go\<close>: the header fields, the parser of the transaction list with the sizes it
  accumulates, the data without witnesses and the Merkle check. A block is a record; a nil
  \<open>Txs\<close> is \<open>None\<close>, a nil entry of it is \<open>None\<close> too.
\<close>

section \<open>Data\<close>

record block =
  bl_Raw :: slice
  bl_Hash :: bytes
  bl_Txs :: "tx option list option"
  bl_TxCount :: int
  bl_TxOffset :: nat
  bl_Trusted :: bool
  bl_LastKnownHeight :: u32
  bl_VerifyFlags :: u32
  bl_Height :: u32
  bl_MedianPastTime :: u32
  bl_NoWitnessSize :: int
  bl_BlockWeight :: u64
  bl_PaidTxsVSize :: u64
  bl_TotalInputs :: nat
  bl_OrbTxCnt :: u64
  bl_OrbTxSize :: u64
  bl_OrbTxWeight :: u64
  bl_NoWitnessData :: bytes

datatype block_error =
    BlockTooShort
  | TxnCountCorrupt
  | NewTxFailed

definition zero_block :: block where
  "zero_block = \<lparr>bl_Raw = \<lparr>sl_data = [], sl_spare = []\<rparr>, bl_Hash = [], bl_Txs = None, bl_TxCount = 0,
     bl_TxOffset = 0, bl_Trusted = False, bl_LastKnownHeight = 0, bl_VerifyFlags = 0, bl_Height = 0,
     bl_MedianPastTime = 0, bl_NoWitnessSize = 0, bl_BlockWeight = 0, bl_PaidTxsVSize = 0,
     bl_TotalInputs = 0, bl_OrbTxCnt = 0, bl_OrbTxSize = 0, bl_OrbTxWeight = 0, bl_NoWitnessData = []\<rparr>"

definition txs_of :: "block \<Rightarrow> tx option list" where
  "txs_of bl = (case bl_Txs bl of None \<Rightarrow> [] | Some l \<Rightarrow> l)"

section \<open>The header\<close>

definition Version :: "block \<Rightarrow> go_panic + u32" where
  "Version bl = andThen (slice_range (bl_Raw bl) 0 4) (\<lambda>b. Inr (le_word b))"

definition ParentHash :: "block \<Rightarrow> go_panic + bytes" where
  "ParentHash bl = slice_range (bl_Raw bl) 4 36"

definition MerkleRoot :: "block \<Rightarrow> go_panic + bytes" where
  "MerkleRoot bl = slice_range (bl_Raw bl) 36 68"

definition BlockTime :: "block \<Rightarrow> go_panic + u32" where
  "BlockTime bl = andThen (slice_range (bl_Raw bl) 68 72) (\<lambda>b. Inr (le_word b))"

definition Bits :: "block \<Rightarrow> go_panic + u32" where
  "Bits bl = andThen (slice_range (bl_Raw bl) 72 76) (\<lambda>b. Inr (le_word b))"

text \<open>\<open>UpdateContent\<close>, \<open>NewBlockX\<close> and \<open>NewBlock\<close>: the error, if any, and the block.\<close>

definition UpdateContent :: "block \<Rightarrow> slice \<Rightarrow> go_panic + block_error option \<times> block" where
  "UpdateContent bl data =
     (if length (sl_data data) < 80 then Inr (Some BlockTooShort, bl)
      else
        let bl = bl\<lparr>bl_Raw := data\<rparr> in
        if length (sl_data data) > 80 then
          andThen (slice_from data 80) (\<lambda>d.
          let (cnt, n) = VLen (sl_data d);
              bl = bl\<lparr>bl_TxCount := cnt, bl_TxOffset := n\<rparr>
          in if n = 0 then Inr (Some TxnCountCorrupt, bl)
             else Inr (None, bl\<lparr>bl_TxOffset := n + 80\<rparr>))
        else Inr (None, bl))"

definition NewBlockX :: "slice \<Rightarrow> bytes \<Rightarrow> go_panic + block_error option \<times> block" where
  "NewBlockX data h = UpdateContent (zero_block\<lparr>bl_Hash := h\<rparr>) data"

definition NewBlock :: "slice \<Rightarrow> go_panic + block_error option \<times> block" where
  "NewBlock data = andThen (slice_range data 0 80) (\<lambda>hdr. NewBlockX data (Sha2Sum hdr))"

section \<open>The transaction list\<close>

fun set_coinbase :: "txout option list \<Rightarrow> go_panic + txout option list" where
  "set_coinbase [] = Inr []"
| "set_coinbase (p # ps) =
     andThen (deref p) (\<lambda>out. andThen (set_coinbase ps) (\<lambda>ps'. Inr (Some (out\<lparr>to_WasCoinbase := True\<rparr>) # ps')))"

text \<open>
  What one parsed transaction adds to the block. The hashes are computed by goroutines that
  \<open>wg.Wait\<close> joins before the function returns; each writes its own transaction only.
\<close>

definition build_tx :: "bool \<Rightarrow> nat \<Rightarrow> tx \<Rightarrow> bytes \<Rightarrow> block \<Rightarrow> go_panic + block" where
  "build_tx dohash i t raw bl =
     (let n = length raw;
          t = t\<lparr>tx_Raw := raw, tx_Size := of_nat n\<rparr>
      in
      andThen (if i = 0
               then andThen (set_coinbase (tx_TxOut t)) (\<lambda>outs. Inr (t\<lparr>tx_TxOut := outs\<rparr>, bl))
               else Inr (t, bl\<lparr>bl_TotalInputs := bl_TotalInputs bl + length (tx_TxIn t)\<rparr>)) (\<lambda>(t, bl).
      andThen (if tx_SegWit t \<noteq> None
               then andThen (Serialize t) (\<lambda>d.
                    Inr (d, t\<lparr>tx_NoWitSize := of_nat (length d)\<rparr>, if i > 0 then Some raw else None))
               else Inr (raw, t\<lparr>tx_NoWitSize := tx_Size t\<rparr>, None)) (\<lambda>(data2hash, t, witness2hash).
      let weight = ucast (3 * tx_NoWitSize t + tx_Size t) :: u64;
          bl = bl\<lparr>bl_BlockWeight := bl_BlockWeight bl + weight\<rparr>;
          bl = (if i > 0 then bl\<lparr>bl_PaidTxsVSize := bl_PaidTxsVSize bl + word_of_int (VSize t)\<rparr> else bl);
          bl = bl\<lparr>bl_NoWitnessSize := bl_NoWitnessSize bl + int (length data2hash)\<rparr>;
          bl = (if i \<noteq> 0 \<and> fst (ContainsOrdFile t True)
                then bl\<lparr>bl_OrbTxCnt := bl_OrbTxCnt bl + 1, bl_OrbTxSize := bl_OrbTxSize bl + of_nat n,
                        bl_OrbTxWeight := bl_OrbTxWeight bl + weight\<rparr>
                else bl);
          t = (if dohash then t\<lparr>tx_Hash := Sha2Sum data2hash\<rparr> else t);
          t = (case witness2hash of Some w \<Rightarrow> if dohash then t\<lparr>tx_wTxID := Sha2Sum w\<rparr> else t | None \<Rightarrow> t)
      in Inr (bl\<lparr>bl_Txs := Some (txs_of bl @ [Some t])\<rparr>))))"

text \<open>The loop; \<open>bl_Txs\<close> holds the transactions read so far.\<close>

fun build_txs :: "bool \<Rightarrow> nat \<Rightarrow> nat \<Rightarrow> nat \<Rightarrow> block \<Rightarrow> go_panic + block_error option \<times> block" where
  "build_txs dohash 0 i offs bl = Inr (None, bl)"
| "build_txs dohash (Suc k) i offs bl =
     andThen (slice_from (bl_Raw bl) offs) (\<lambda>b.
     case NewTx b of
       (None, n) \<Rightarrow> Inr (Some NewTxFailed, bl)
     | (Some t, n) \<Rightarrow>
         if n = 0 then Inr (Some NewTxFailed, bl)
         else
           andThen (slice_range (bl_Raw bl) offs (offs + n)) (\<lambda>raw.
           andThen (build_tx dohash i t raw bl) (\<lambda>bl.
           build_txs dohash k (i + 1) (offs + n) bl)))"

definition build_count :: "block \<Rightarrow> go_panic + bool \<times> block" where
  "build_count bl =
     (if bl_TxCount bl = 0 then
        andThen (slice_from (bl_Raw bl) 80) (\<lambda>d.
        let (cnt, n) = VLen (sl_data d);
            bl = bl\<lparr>bl_TxCount := cnt, bl_TxOffset := n\<rparr>
        in if cnt = 0 \<or> n = 0 then Inr (False, bl) else Inr (True, bl\<lparr>bl_TxOffset := n + 80\<rparr>))
      else Inr (True, bl))"

definition BuildTxListExt :: "bool \<Rightarrow> block \<Rightarrow> go_panic + block_error option \<times> block" where
  "BuildTxListExt dohash bl =
     andThen (build_count bl) (\<lambda>(ok, bl).
     if \<not> ok then Inr (Some TxnCountCorrupt, bl)
     else if \<not> make_ok 8 (bl_TxCount bl) then Inl MakeSlice
     else
       let nws = 80 + int (VLenSize (word_of_int (bl_TxCount bl)));
           bl = bl\<lparr>bl_Txs := Some [], bl_NoWitnessSize := nws, bl_BlockWeight := 4 * word_of_int nws\<rparr>
       in build_txs dohash (nat (bl_TxCount bl)) 0 (bl_TxOffset bl) bl)"

definition BuildTxList :: "block \<Rightarrow> go_panic + block_error option \<times> block" where
  "BuildTxList bl = BuildTxListExt True bl"

definition BuildNoWitnessData :: "block \<Rightarrow> go_panic + block_error option \<times> block" where
  "BuildNoWitnessData bl =
     andThen (if bl_TxCount bl = 0 then BuildTxList bl else Inr (None, bl)) (\<lambda>(e, bl).
     if e \<noteq> None then Inr (e, bl)
     else
       andThen (slice_range (bl_Raw bl) 0 80) (\<lambda>hdr.
       andThen (concatE (\<lambda>p. andThen (deref p) WriteSerialized) (txs_of bl)) (\<lambda>txs.
       let d = hdr @ WriteVlen (word_of_int (bl_TxCount bl)) @ txs;
           bl = bl\<lparr>bl_NoWitnessData := d\<rparr>
       in if bl_NoWitnessSize bl = 0 then Inr (None, bl\<lparr>bl_NoWitnessSize := int (length d)\<rparr>)
          else if bl_NoWitnessSize bl \<noteq> int (length d) then Inl (ExplicitPanic ''NoWitnessSize corrupt'')
          else Inr (None, bl))))"

section \<open>The Merkle root\<close>

definition GetWitnessMerkle :: "tx option list \<Rightarrow> go_panic + bytes \<times> bool" where
  "GetWitnessMerkle txs =
     (case txs of
        [] \<Rightarrow> CalcMerkle []
      | _ # r \<Rightarrow>
          andThen (concatE (\<lambda>p. andThen (deref p) (\<lambda>t. Inr [WTxID t])) r) (\<lambda>ids.
          CalcMerkle (replicate 32 0 # ids)))"

text \<open>\<open>GetMerkle\<close>: a missing transaction returns nil and the flag set.\<close>

definition GetMerkle :: "block \<Rightarrow> go_panic + bytes \<times> bool" where
  "GetMerkle bl =
     (if None \<in> set (txs_of bl) then Inr ([], True)
      else CalcMerkle (map (\<lambda>p. case p of Some t \<Rightarrow> tx_Hash t | None \<Rightarrow> []) (txs_of bl)))"

definition MerkleRootMatch :: "block \<Rightarrow> go_panic + bool" where
  "MerkleRootMatch bl =
     (if bl_TxCount bl = 0 \<or> int (length (txs_of bl)) \<noteq> bl_TxCount bl then Inr False
      else
        andThen (GetMerkle bl) (\<lambda>(merkle, mutated).
        andThen (MerkleRoot bl) (\<lambda>root. Inr (\<not> mutated \<and> merkle = root))))"


section \<open>A serialised block is read back\<close>

text \<open>
  The transaction a block holds for the \<open>i\<close>-th transaction of its list: the content, its bytes, the two sizes,
  and the identifiers. The outputs of the first one are marked as coinbase.
\<close>

definition stripped :: "tx \<Rightarrow> bytes" where
  "stripped t = (case Serialize t of Inr d \<Rightarrow> d | Inl _ \<Rightarrow> [])"

definition full_bytes :: "tx \<Rightarrow> bytes" where
  "full_bytes t = (case SerializeNew t of Inr d \<Rightarrow> d | Inl _ \<Rightarrow> [])"

definition block_tx :: "nat \<Rightarrow> tx \<Rightarrow> tx" where
  "block_tx i t = (tx_content t)\<lparr>tx_Raw := full_bytes t, tx_Size := of_nat (length (full_bytes t)),
     tx_NoWitSize := of_nat (length (stripped t)), tx_Hash := Sha2Sum (stripped t),
     tx_wTxID := (if i > 0 \<and> tx_SegWit t \<noteq> None then Sha2Sum (full_bytes t) else tx_wTxID zero_tx),
     tx_TxOut := (if i = 0 then map (map_option (\<lambda>out. out\<lparr>to_WasCoinbase := True\<rparr>)) (tx_TxOut t) else tx_TxOut t)\<rparr>"

definition tx_weight :: "tx \<Rightarrow> u64" where
  "tx_weight t = ucast (3 * of_nat (length (stripped t)) + of_nat (length (full_bytes t)) :: u32)"

lemma set_coinbase_Some [simp]:
  "set_coinbase (map Some outs) = Inr (map (\<lambda>out. Some (out\<lparr>to_WasCoinbase := True\<rparr>)) outs)"
  by (induction outs) simp_all

lemma Serialize_valid:
  assumes "valid_tx t"
  shows "Serialize t = Inr (stripped t)" "SerializeNew t = Inr (full_bytes t)"
    "tx_SegWit t = None \<Longrightarrow> full_bytes t = stripped t" "full_bytes t \<noteq> []"
proof -
  obtain ins outs where t: "tx_TxIn t = map Some ins" "tx_TxOut t = map Some outs"
    using assms unfolding valid_tx_def by auto
  show "Serialize t = Inr (stripped t)" by (simp add: stripped_def Serialize_def WriteSerialized_def t)
  show "SerializeNew t = Inr (full_bytes t)" "tx_SegWit t = None \<Longrightarrow> full_bytes t = stripped t" "full_bytes t \<noteq> []"
    by (simp_all add: full_bytes_def stripped_def SerializeNew_def Serialize_def WriteSerializedNew_def WriteSerialized_def t
        split: option.split)
qed

lemma Serialize_updates:
  "Serialize (t\<lparr>tx_Raw := a\<rparr>) = Serialize t" "Serialize (t\<lparr>tx_Size := b\<rparr>) = Serialize t"
  "Serialize (tx_content t) = Serialize t"
  by (simp_all add: Serialize_def WriteSerialized_def tx_content_def zero_tx_def)

lemma ser_txout_coinbase: "ser_txout (map_option (\<lambda>out. out\<lparr>to_WasCoinbase := True\<rparr>) p) = ser_txout p"
  by (cases p) (simp_all add: ser_txout_def)

lemma Serialize_coinbase:
  assumes "tx_TxOut t = map Some outs"
  shows "Serialize (t\<lparr>tx_TxOut := map (\<lambda>out. Some (out\<lparr>to_WasCoinbase := True\<rparr>)) outs\<rparr>) = Serialize t"
proof -
  have "concatE ser_txout (map (\<lambda>out. Some (out\<lparr>to_WasCoinbase := True\<rparr>)) outs) = concatE ser_txout (map Some outs)"
    by (induction outs) (simp_all add: ser_txout_def)
  then show ?thesis using assms by (simp add: Serialize_def WriteSerialized_def)
qed

lemma build_tx_valid:
  assumes v: "valid_tx t"
  shows "\<exists>bl'. build_tx True i (tx_content t) (full_bytes t) bl = Inr bl' \<and>
    txs_of bl' = txs_of bl @ [Some (block_tx i t)] \<and> bl_Raw bl' = bl_Raw bl \<and> bl_TxCount bl' = bl_TxCount bl \<and>
    bl_NoWitnessSize bl' = bl_NoWitnessSize bl + int (length (stripped t)) \<and>
    bl_BlockWeight bl' = bl_BlockWeight bl + tx_weight t"
proof -
  obtain outs where o: "tx_TxOut t = map Some outs" using v unfolding valid_tx_def by auto
  let ?t0 = "(tx_content t)\<lparr>tx_Raw := full_bytes t, tx_Size := of_nat (length (full_bytes t))\<rparr>"
  define t1 where "t1 = (if i = 0 then ?t0\<lparr>tx_TxOut := map (\<lambda>out. Some (out\<lparr>to_WasCoinbase := True\<rparr>)) outs\<rparr> else ?t0)"
  have o0: "tx_TxOut ?t0 = map Some outs" by (simp add: tx_content_def zero_tx_def o)
  have "Serialize ?t0 = Serialize t" by (simp only: Serialize_updates)
  then have s1: "Serialize t1 = Inr (stripped t)"
    using Serialize_coinbase [OF o0] Serialize_valid(1) [OF v] by (simp add: t1_def)
  have w1: "tx_SegWit t1 = tx_SegWit t" by (simp add: t1_def tx_content_def zero_tx_def)
  have f1: "tx_Size t1 = of_nat (length (full_bytes t))" "tx_TxIn ?t0 = tx_TxIn t" by (simp_all add: t1_def tx_content_def zero_tx_def)
  have step1: "(if i = 0 then andThen (set_coinbase (tx_TxOut ?t0)) (\<lambda>outs. Inr (?t0\<lparr>tx_TxOut := outs\<rparr>, bl))
      else Inr (?t0, bl\<lparr>bl_TotalInputs := bl_TotalInputs bl + length (tx_TxIn ?t0)\<rparr>)) =
      Inr (t1, if i = 0 then bl else bl\<lparr>bl_TotalInputs := bl_TotalInputs bl + length (tx_TxIn t)\<rparr>)"
    unfolding o0 set_coinbase_Some by (simp add: t1_def f1)
  have step2: "(if tx_SegWit t1 \<noteq> None
       then andThen (Serialize t1) (\<lambda>d. Inr (d, t1\<lparr>tx_NoWitSize := of_nat (length d)\<rparr>, if i > 0 then Some (full_bytes t) else None))
       else Inr (full_bytes t, t1\<lparr>tx_NoWitSize := tx_Size t1\<rparr>, None)) =
      Inr (stripped t, t1\<lparr>tx_NoWitSize := of_nat (length (stripped t))\<rparr>,
        if i > 0 \<and> tx_SegWit t \<noteq> None then Some (full_bytes t) else None)"
    using s1 w1 f1 Serialize_valid(3) [OF v] by simp
  have m: "map (\<lambda>out. Some (out\<lparr>to_WasCoinbase := True\<rparr>)) outs = map (map_option (\<lambda>out. out\<lparr>to_WasCoinbase := True\<rparr>)) (tx_TxOut t)"
    by (simp add: o)
  show ?thesis
    unfolding build_tx_def Let_def step1 andThen_simps prod.case step2
    by (auto simp: txs_of_def t1_def tx_weight_def block_tx_def m tx_content_def zero_tx_def split: option.splits)
qed

lemma build_txs_valid:
  assumes "list_all valid_tx ts" "drop offs (sl_data (bl_Raw bl)) = concat (map full_bytes ts)" "offs \<le> length (sl_data (bl_Raw bl))"
  shows "\<exists>bl'. build_txs True (length ts) i offs bl = Inr (None, bl') \<and>
    txs_of bl' = txs_of bl @ map (\<lambda>(j, t). Some (block_tx j t)) (enumerate i ts) \<and> bl_Raw bl' = bl_Raw bl \<and>
    bl_TxCount bl' = bl_TxCount bl \<and>
    bl_NoWitnessSize bl' = bl_NoWitnessSize bl + (\<Sum>t\<leftarrow>ts. int (length (stripped t))) \<and>
    bl_BlockWeight bl' = bl_BlockWeight bl + (\<Sum>t\<leftarrow>ts. tx_weight t)"
  using assms
proof (induction ts arbitrary: i offs bl)
  case (Cons t ts)
  have v: "valid_tx t" using Cons.prems(1) by simp
  let ?b = "\<lparr>sl_data = drop offs (sl_data (bl_Raw bl)), sl_spare = sl_spare (bl_Raw bl)\<rparr>"
  have n: "NewTx ?b = (Some (tx_content t), length (full_bytes t))"
    by (rule NewTx_SerializeNew [OF v Serialize_valid(2) [OF v]]) (simp add: Cons.prems(2))
  have dl: "length (sl_data (bl_Raw bl)) - offs = length (full_bytes t) + length (concat (map full_bytes ts))"
    using arg_cong [OF Cons.prems(2), of length] by simp
  have raw: "slice_range (bl_Raw bl) offs (offs + length (full_bytes t)) = Inr (full_bytes t)"
    using Cons.prems(2,3) dl by (simp add: slice_range_def)
  obtain bl1 where b1: "build_tx True i (tx_content t) (full_bytes t) bl = Inr bl1"
    "txs_of bl1 = txs_of bl @ [Some (block_tx i t)]" "bl_Raw bl1 = bl_Raw bl" "bl_TxCount bl1 = bl_TxCount bl"
    "bl_NoWitnessSize bl1 = bl_NoWitnessSize bl + int (length (stripped t))"
    "bl_BlockWeight bl1 = bl_BlockWeight bl + tx_weight t"
    using build_tx_valid [OF v] by blast
  have d1: "drop (offs + length (full_bytes t)) (sl_data (bl_Raw bl1)) = concat (map full_bytes ts)"
    using arg_cong [OF Cons.prems(2), of "drop (length (full_bytes t))"] b1(3) by (simp add: add.commute)
  have "\<exists>bl'. build_txs True (length ts) (Suc i) (offs + length (full_bytes t)) bl1 = Inr (None, bl') \<and>
      txs_of bl' = txs_of bl1 @ map (\<lambda>(j, t). Some (block_tx j t)) (enumerate (Suc i) ts) \<and> bl_Raw bl' = bl_Raw bl1 \<and>
      bl_TxCount bl' = bl_TxCount bl1 \<and>
      bl_NoWitnessSize bl' = bl_NoWitnessSize bl1 + (\<Sum>t\<leftarrow>ts. int (length (stripped t))) \<and>
      bl_BlockWeight bl' = bl_BlockWeight bl1 + (\<Sum>t\<leftarrow>ts. tx_weight t)"
    by (rule Cons.IH) (use Cons.prems d1 b1(3) dl in simp_all)
  then obtain bl' where bl': "build_txs True (length ts) (Suc i) (offs + length (full_bytes t)) bl1 = Inr (None, bl')"
      "txs_of bl' = txs_of bl1 @ map (\<lambda>(j, t). Some (block_tx j t)) (enumerate (Suc i) ts)" "bl_Raw bl' = bl_Raw bl1"
      "bl_TxCount bl' = bl_TxCount bl1"
      "bl_NoWitnessSize bl' = bl_NoWitnessSize bl1 + (\<Sum>t\<leftarrow>ts. int (length (stripped t)))"
      "bl_BlockWeight bl' = bl_BlockWeight bl1 + (\<Sum>t\<leftarrow>ts. tx_weight t)" by blast
  have "build_txs True (length (t # ts)) i offs bl = Inr (None, bl')"
    using Cons.prems(3) n raw b1(1) bl'(1) Serialize_valid(4) [OF v] by (simp add: slice_from_def)
  with bl' b1 show ?case by simp
qed simp

lemma Serialize_block_tx: "valid_tx t \<Longrightarrow> WriteSerialized (block_tx i t) = Inr (stripped t)"
proof -
  assume v: "valid_tx t"
  then obtain outs where o: "tx_TxOut t = map Some outs" unfolding valid_tx_def by auto
  have "concatE ser_txout (map (\<lambda>p. map_option (\<lambda>out. out\<lparr>to_WasCoinbase := True\<rparr>) p) ps) = concatE ser_txout ps" for ps
    by (induction ps) (simp_all add: ser_txout_coinbase)
  then show ?thesis
    using Serialize_valid(1) [OF v] by (simp add: Serialize_def WriteSerialized_def block_tx_def tx_content_def zero_tx_def)
qed

lemma stripped_list:
  "list_all valid_tx ts \<Longrightarrow> concatE (\<lambda>p. andThen (deref p) WriteSerialized) (map (\<lambda>(j, t). Some (block_tx j t)) (enumerate i ts)) =
     Inr (concat (map stripped ts))"
  by (induction ts arbitrary: i) (simp_all add: Serialize_block_tx)

text \<open>The bytes of a block: the header, the number of transactions, the transactions.\<close>

definition block_bytes :: "bytes \<Rightarrow> tx list \<Rightarrow> bytes" where
  "block_bytes hdr ts = hdr @ vlen_of (length ts) @ concat (map full_bytes ts)"

lemma BuildTxList_block_bytes:
  assumes "length hdr = 80" "ts \<noteq> []" "list_all valid_tx ts" "fits 8 (length ts)"
  shows "\<exists>bl0 bl bl'. NewBlockX \<lparr>sl_data = block_bytes hdr ts, sl_spare = spare\<rparr> h = Inr (None, bl0) \<and>
    BuildTxList bl0 = Inr (None, bl) \<and>
    txs_of bl = map (\<lambda>(j, t). Some (block_tx j t)) (enumerate 0 ts) \<and>
    bl_BlockWeight bl = 4 * (80 + of_nat (VLenSize (of_nat (length ts)))) + (\<Sum>t\<leftarrow>ts. tx_weight t) \<and>
    BuildNoWitnessData bl = Inr (None, bl') \<and>
    bl_NoWitnessData bl' = hdr @ vlen_of (length ts) @ concat (map stripped ts)"
proof -
  let ?n = "length ts"
  let ?raw = "\<lparr>sl_data = block_bytes hdr ts, sl_spare = spare\<rparr>"
  let ?vs = "VLenSize (of_nat ?n)"
  have vl: "VLen (vlen_of ?n @ concat (map full_bytes ts)) = (int ?n, ?vs)"
    by (rule VLen_vlen_of [OF assms(4)]) simp
  then have si: "sint (of_nat ?n :: u64) = int ?n" by simp
  have d80: "drop 80 (block_bytes hdr ts) = vlen_of ?n @ concat (map full_bytes ts)"
    using assms(1) by (simp add: block_bytes_def)
  have vs: "length (vlen_of ?n) = ?vs" "?vs > 0"
    by (simp_all add: length_WriteVlen VLenSize_def)
  then have len: "length (block_bytes hdr ts) > 80"
    using assms(1) by (simp add: block_bytes_def)
  let ?bl0 = "zero_block\<lparr>bl_Hash := h, bl_Raw := ?raw, bl_TxCount := int ?n, bl_TxOffset := ?vs + 80\<rparr>"
  have b0: "NewBlockX ?raw h = Inr (None, ?bl0)"
    using len vs(2) by (simp add: NewBlockX_def UpdateContent_def slice_from_def d80 si Let_def)
  let ?nws = "80 + int ?vs"
  let ?bl1 = "?bl0\<lparr>bl_Txs := Some [], bl_NoWitnessSize := ?nws, bl_BlockWeight := 4 * word_of_int ?nws\<rparr>"
  have dr: "drop (?vs + 80) (block_bytes hdr ts) = concat (map full_bytes ts)"
    using assms(1) vs(1) by (simp add: block_bytes_def)
  obtain bl where bl: "build_txs True ?n 0 (?vs + 80) ?bl1 = Inr (None, bl)"
    "txs_of bl = map (\<lambda>(j, t). Some (block_tx j t)) (enumerate 0 ts)" "bl_Raw bl = ?raw" "bl_TxCount bl = int ?n"
    "bl_NoWitnessSize bl = ?nws + (\<Sum>t\<leftarrow>ts. int (length (stripped t)))"
    "bl_BlockWeight bl = 4 * word_of_int ?nws + (\<Sum>t\<leftarrow>ts. tx_weight t)"
  proof -
    have "txs_of ?bl1 = []" by (simp add: txs_of_def)
    moreover have "?vs + 80 \<le> length (block_bytes hdr ts)" using vs(1) assms(1) by (simp add: block_bytes_def)
    ultimately show thesis
      using build_txs_valid [OF assms(3), of "?vs + 80" ?bl1 0] dr that by auto
  qed
  have c0: "build_count ?bl0 = Inr (True, ?bl0)"
    using assms(2) by (simp add: build_count_def)
  have bt: "BuildTxList ?bl0 = Inr (None, bl)"
    using assms(2,4) bl(1) by (simp add: BuildTxList_def BuildTxListExt_def c0 Let_def)
  let ?d = "hdr @ vlen_of ?n @ concat (map stripped ts)"
  have sum: "int (length (concat (map stripped xs))) = (\<Sum>t\<leftarrow>xs. int (length (stripped t)))" for xs
    by (induction xs) simp_all
  have sz: "bl_NoWitnessSize bl = int (length ?d)"
    using bl(5) assms(1) vs(1) sum by simp
  have hd: "slice_range (bl_Raw bl) 0 80 = Inr hdr"
    using assms(1) bl(3) by (simp add: slice_range_def block_bytes_def)
  have nw: "BuildNoWitnessData bl = Inr (None, bl\<lparr>bl_NoWitnessData := ?d\<rparr>)"
    using assms(2) bl(4) sz stripped_list [OF assms(3), of 0] by (simp add: BuildNoWitnessData_def hd bl(2) Let_def assms(1))
  have w: "bl_BlockWeight bl = 4 * (80 + of_nat ?vs) + (\<Sum>t\<leftarrow>ts. tx_weight t)"
    unfolding bl(6) by simp
  have r: "bl_NoWitnessData (bl\<lparr>bl_NoWitnessData := ?d\<rparr>) = ?d" by simp
  show ?thesis
    by (rule exI [of _ ?bl0], rule exI [of _ bl], rule exI [of _ "bl\<lparr>bl_NoWitnessData := ?d\<rparr>"])
       (intro conjI b0 bt bl(2) w nw r)
qed

end
