(* ===== verification/Target.thy ===== *)
theory Target
  imports Prelude
begin

text \<open>
  The compact form of the proof-of-work target (\<open>lib/btc/target.go\<close>) and the subsidy
  (\<open>GetBlockReward\<close> of \<open>lib/btc/block.go\<close>). A \<open>big.Int\<close> is an integer.
\<close>

section \<open>Compact targets\<close>

definition SetCompact :: "u32 \<Rightarrow> int" where
  "SetCompact nCompact =
     (let size = unat (drop_bit 24 nCompact);
          neg = nCompact AND 0x00800000 \<noteq> 0;
          wd = nCompact AND 0x007fffff;
          res = (if size \<le> 3 then uint (drop_bit (8 * (3 - size)) wd) else uint wd * 2 ^ (8 * (size - 3)))
      in if neg then - res else res)"

text \<open>\<open>len(b.Bytes())\<close>: the bytes of the absolute value.\<close>

fun byte_len :: "nat \<Rightarrow> nat" where
  "byte_len n = (if n = 0 then 0 else Suc (byte_len (n div 256)))"

declare byte_len.simps [simp del]

text \<open>\<open>Rsh\<close> of a negative number rounds down, as \<open>div\<close> does.\<close>

definition GetCompact :: "int \<Rightarrow> u32" where
  "GetCompact b =
     (let size = byte_len (nat \<bar>b\<bar>);
          compact = (if size \<le> 3 then word_of_int (b * 2 ^ (8 * (3 - size))) :: u32
                     else word_of_int (b div 2 ^ (8 * (size - 3))));
          (compact, size) = (if compact AND 0x00800000 \<noteq> 0 then (drop_bit 8 compact, size + 1) else (compact, size));
          compact = compact OR push_bit 24 (of_nat size)
      in if b < 0 then compact OR 0x00800000 else compact)"

text \<open>\<open>hash.BigInt()\<close> reads the 32 bytes little-endian.\<close>

definition BigInt :: "bytes \<Rightarrow> int" where
  "BigInt h = foldr (\<lambda>b n. uint b + 256 * n) h 0"

definition CheckProofOfWork :: "bytes \<Rightarrow> u32 \<Rightarrow> bool" where
  "CheckProofOfWork h bits \<longleftrightarrow> BigInt h \<le> SetCompact bits"

subsection \<open>The size of a number\<close>

lemma byte_len_0 [simp]: "byte_len 0 = 0"
  by (simp add: byte_len.simps)

lemma byte_len_bounds: "n > 0 \<Longrightarrow> 256 ^ (byte_len n - 1) \<le> n \<and> n < 256 ^ byte_len n \<and> byte_len n > 0"
proof (induction n rule: byte_len.induct)
  case (1 n)
  show ?case
  proof (cases "n div 256 = 0")
    case True
    with 1 have "byte_len n = 1" by (simp add: byte_len.simps [of n])
    with True 1 show ?thesis by (simp add: div_eq_0_iff)
  next
    case False
    let ?q = "n div 256"
    from 1 False have IH: "256 ^ (byte_len ?q - 1) \<le> ?q" "?q < 256 ^ byte_len ?q" "byte_len ?q > 0" by auto
    from 1 have l: "byte_len n = Suc (byte_len ?q)" by (simp add: byte_len.simps [of n])
    have "(256 :: nat) ^ byte_len ?q = 256 * 256 ^ (byte_len ?q - 1)" using IH(3) by (cases "byte_len ?q") simp_all
    then have "256 ^ byte_len ?q \<le> n" using IH(1) by linarith
    moreover have "n < 256 * 256 ^ byte_len ?q" using IH(2) by (simp add: div_less_iff_less_mult mult.commute)
    ultimately show ?thesis using l by simp
  qed
qed

lemma byte_len_eqI:
  assumes "256 ^ k \<le> n" "n < 256 ^ Suc k"
  shows "byte_len n = Suc k"
proof -
  have "n > 0" using assms(1) by (metis gr0I le_zero_eq power_eq_0_iff zero_neq_numeral)
  note b = byte_len_bounds [OF this]
  have "(256::nat) ^ (byte_len n - 1) < 256 ^ Suc k" "(256::nat) ^ k < 256 ^ byte_len n"
    using b assms by linarith+
  then have "byte_len n - 1 < Suc k" "k < byte_len n"
    by (simp_all add: power_strict_increasing_iff del: power_Suc)
  then show ?thesis by simp
qed

text \<open>A compact value with a clear sign bit: a mantissa of at most 23 bits and a size.\<close>

definition compact_of :: "nat \<Rightarrow> nat \<Rightarrow> u32" where
  "compact_of m k = of_nat (m + k * 2 ^ 24)"

lemma unat_compact_of: "m < 2 ^ 23 \<Longrightarrow> k < 256 \<Longrightarrow> unat (compact_of m k) = m + k * 2 ^ 24"
  unfolding compact_of_def unat_of_nat by simp

lemma compact_of_fields:
  assumes "m < 2 ^ 23" "k < 256"
  shows "unat (drop_bit 24 (compact_of m k)) = k" "compact_of m k AND 0x7fffff = of_nat m"
    "compact_of m k AND 0x800000 = 0"
proof -
  note u = unat_compact_of [OF assms]
  show "unat (drop_bit 24 (compact_of m k)) = k"
    unfolding unat_drop_bit_eq u using assms by (simp add: drop_bit_eq_div)
  have "(0x7fffff :: u32) = mask 23" by (simp add: mask_eq_exp_minus_1)
  then have "compact_of m k AND 0x7fffff = take_bit 23 (compact_of m k)" by (simp add: take_bit_eq_mask)
  moreover have "unat (take_bit 23 (compact_of m k)) = m"
  proof -
    have "(m + k * 2 ^ 24) mod 2 ^ 23 = m" using assms(1) by (simp add: mod_mult_self3 [of k "2 ^ 24"] flip: mod_add_right_eq)
    then show ?thesis by (simp only: unsigned_take_bit_eq u take_bit_eq_mod [of 23 "m + k * 2 ^ 24"])
  qed
  ultimately show "compact_of m k AND 0x7fffff = of_nat m" by (metis of_nat_unat ucast_id)
  have "(m + k * 2 ^ 24) div 2 ^ 23 = 2 * k" using assms(1) by simp
  then have "\<not> bit (unat (compact_of m k)) 23" by (simp only: bit_iff_odd u) simp
  then have "\<not> bit (compact_of m k) 23" by (simp add: bit_unsigned_iff possible_bit_def)
  then have "compact_of m k AND 2 ^ 23 = 0" by (simp only: and_exp_eq_0_iff_not_bit not_False_eq_True)
  then show "compact_of m k AND 0x800000 = 0" by simp
qed

text \<open>Reading one, and the two ways \<open>GetCompact\<close> writes one.\<close>

lemma SetCompact_compact_of:
  assumes "m < 2 ^ 23" "k < 256"
  shows "SetCompact (compact_of m k) = (if k \<le> 3 then int (m div 256 ^ (3 - k)) else int m * 256 ^ (k - 3))"
proof -
  have u: "uint (of_nat m :: u32) = int m" using assms(1) by (simp add: unsigned_of_nat take_bit_nat_eq_self)
  have e: "(2::nat) ^ (8 * j) = 256 ^ j" "(2::int) ^ (8 * j) = 256 ^ j" for j by (simp_all add: power_mult)
  have d: "uint (drop_bit j (of_nat m :: u32)) = int (m div 2 ^ j)" for j
  proof -
    have "unat (of_nat m :: u32) = m" using assms(1) by (simp add: unsigned_of_nat take_bit_nat_eq_self)
    then have "unat (drop_bit j (of_nat m :: u32)) = m div 2 ^ j" by (simp only: unat_drop_bit_eq drop_bit_eq_div [of j m])
    then show ?thesis by (metis of_nat_unat)
  qed
  show ?thesis
    by (simp add: SetCompact_def compact_of_fields [OF assms] Let_def u d e del: of_nat_power)
qed

lemma compact_pack:
  assumes "m < 2 ^ 23" "k < 256"
  shows "(of_nat m :: u32) OR push_bit 24 (of_nat k) = compact_of m k"
proof -
  have "(of_nat m :: u32) AND push_bit 24 (of_nat k) = 0"
  proof (rule bit_eqI)
    fix n
    have "\<not> bit (of_nat m :: u32) n" if "n \<ge> 23"
    proof
      assume "bit (of_nat m :: u32) n"
      then have "bit (unat (of_nat m :: u32)) n" by (simp add: bit_unsigned_iff possible_bit_def bit_imp_le_length)
      moreover have "unat (of_nat m :: u32) = m" using assms(1) by (simp add: unsigned_of_nat take_bit_nat_eq_self)
      moreover have "m div 2 ^ n = 0" using assms(1) that by (meson div_less le_less_trans less_le_trans one_le_numeral power_increasing)
      ultimately show False by (simp add: bit_iff_odd)
    qed
    then show "bit ((of_nat m :: u32) AND push_bit 24 (of_nat k)) n = bit 0 n"
      by (auto simp: bit_and_iff bit_push_bit_iff)
  qed
  then have "(of_nat m :: u32) OR push_bit 24 (of_nat k) = of_nat m + push_bit 24 (of_nat k)"
    by (simp only: disjunctive_add_eq_or)
  then show ?thesis by (simp add: compact_of_def push_bit_eq_mult)
qed

definition encode_target :: "nat \<Rightarrow> nat \<times> nat" where
  "encode_target t =
     (let k = byte_len t; m = (if k \<le> 3 then t * 256 ^ (3 - k) else t div 256 ^ (k - 3))
      in if m \<ge> 2 ^ 23 then (m div 256, Suc k) else (m, k))"

lemma raw_mantissa:
  assumes "t > 0" "k = byte_len t" "m = (if k \<le> 3 then t * 256 ^ (3 - k) else t div 256 ^ (k - 3))"
  shows "2 ^ 16 \<le> m \<and> m < 2 ^ 24"
proof -
  note b = byte_len_bounds [OF assms(1), folded assms(2)]
  show ?thesis
  proof (cases "k \<le> 3")
    case True
    with b have "k = 1 \<or> k = 2 \<or> k = 3" by linarith
    then show ?thesis using b assms(3) by auto
  next
    case False
    then obtain j where k: "k = j + 3" by (metis add.commute le_Suc_ex nat_le_linear)
    have "(256::nat) ^ k = 2 ^ 24 * 256 ^ (k - 3)" "(256::nat) ^ (k - 1) = 2 ^ 16 * 256 ^ (k - 3)"
      by (simp_all add: k power_add)
    then show ?thesis using False b assms(3) by (simp add: div_less_iff_less_mult less_eq_div_iff_mult_less_eq)
  qed
qed

lemma encode_target_bounds:
  assumes "t > 0" "encode_target t = (m, k)"
  shows "2 ^ 15 \<le> m \<and> m < 2 ^ 23"
  using raw_mantissa [OF assms(1) refl refl] assms(2)
  by (auto simp: encode_target_def Let_def split: if_splits)

lemma GetCompact_encode:
  assumes "t > 0" "encode_target t = (m, k)" "k < 256"
  shows "GetCompact (int t) = compact_of m k"
proof -
  let ?k = "byte_len t"
  let ?m = "if ?k \<le> 3 then t * 256 ^ (3 - ?k) else t div 256 ^ (?k - 3)"
  have e: "(2::int) ^ (8 * j) = int (256 ^ j)" for j by (simp add: power_mult)
  have w: "(if ?k \<le> 3 then word_of_int (int t * 2 ^ (8 * (3 - ?k))) :: u32 else word_of_int (int t div 2 ^ (8 * (?k - 3)))) = of_nat ?m"
    unfolding e of_nat_mult [symmetric] zdiv_int [symmetric] by simp
  have b: "2 ^ 16 \<le> ?m \<and> ?m < 2 ^ 24" by (rule raw_mantissa [OF assms(1) refl refl])
  have u: "unat (of_nat ?m :: u32) = ?m" using b by (simp add: unsigned_of_nat take_bit_nat_eq_self)
  have bit: "(of_nat ?m :: u32) AND 0x800000 = 0 \<longleftrightarrow> ?m < 2 ^ 23"
  proof -
    have "(0x800000 :: u32) = 2 ^ 23" by simp
    then have "(of_nat ?m :: u32) AND 0x800000 = 0 \<longleftrightarrow> \<not> bit (of_nat ?m :: u32) 23"
      by (simp only: and_exp_eq_0_iff_not_bit)
    also have "\<dots> \<longleftrightarrow> \<not> bit (unat (of_nat ?m :: u32)) 23" by (simp add: bit_unsigned_iff possible_bit_def)
    also have "\<dots> \<longleftrightarrow> even (?m div 2 ^ 23)" by (simp only: u bit_iff_odd not_not)
    also have "\<dots> \<longleftrightarrow> ?m < 2 ^ 23"
    proof
      assume "even (?m div 2 ^ 23)"
      moreover have "?m div 2 ^ 23 < 2" using b by (simp add: div_less_iff_less_mult)
      ultimately have "?m div 2 ^ 23 = 0" by (metis One_nat_def even_zero less_2_cases odd_one)
      then show "?m < 2 ^ 23" by (simp only: div_eq_0_iff) simp
    qed simp
    finally show ?thesis .
  qed
  show ?thesis
  proof (cases "?m < 2 ^ 23")
    case True
    then have mk: "m = ?m" "k = ?k" using assms(2) by (auto simp: encode_target_def Let_def split: if_splits)
    then show ?thesis
      using True assms(3) compact_pack [of ?m ?k] bit by (simp only: GetCompact_def Let_def nat_int abs_of_nat w) simp
  next
    case False
    then have mk: "m = ?m div 256" "k = Suc ?k" using assms(2) by (auto simp: encode_target_def Let_def split: if_splits)
    have sh: "drop_bit 8 (of_nat ?m :: u32) = of_nat (?m div 256)"
    proof -
      have "unat (drop_bit 8 (of_nat ?m :: u32)) = ?m div 2 ^ 8" by (simp only: unat_drop_bit_eq u drop_bit_eq_div [of 8 ?m])
      then have "unat (drop_bit 8 (of_nat ?m :: u32)) = ?m div 256" by simp
      then show ?thesis by (metis of_nat_unat ucast_id)
    qed
    have "x div 256 < 2 ^ 23" if "x < 2 ^ 24" for x :: nat using that by simp
    with b have "?m div 256 < 2 ^ 23" by blast
    then show ?thesis
      using False assms(3) compact_pack [of "?m div 256" "Suc ?k"] bit mk sh
      by (simp only: GetCompact_def Let_def nat_int abs_of_nat w) simp
  qed
qed

text \<open>
  Reading back what was written: never above the target, and less than one part in \<open>2 ^ 15\<close> below it.
\<close>

lemma SetCompact_GetCompact:
  assumes "t > 0" "byte_len t < 255"
  shows "\<exists>r. SetCompact (GetCompact (int t)) = int r \<and> r \<le> t \<and> 2 ^ 15 * (t - r) < t"
proof -
  obtain m k where mk: "encode_target t = (m, k)" by fastforce
  note b = encode_target_bounds [OF assms(1) mk] and l = byte_len_bounds [OF assms(1)]
  have k: "k < 256" using mk assms(2) by (auto simp: encode_target_def Let_def split: if_splits)
  note g = GetCompact_encode [OF assms(1) mk k]
  have s: "SetCompact (GetCompact (int t)) = (if k \<le> 3 then int (m div 256 ^ (3 - k)) else int m * 256 ^ (k - 3))"
    using g b k SetCompact_compact_of by simp
  show ?thesis
  proof (cases "k \<le> 3")
    case True
    have "m div 256 ^ (3 - k) = t"
    proof (cases "k = byte_len t")
      case True
      then show ?thesis using mk \<open>k \<le> 3\<close> by (auto simp: encode_target_def Let_def split: if_splits)
    next
      case False
      then have "k = Suc (byte_len t)" "m = t * 256 ^ (3 - byte_len t) div 256"
        using mk \<open>k \<le> 3\<close> by (auto simp: encode_target_def Let_def split: if_splits)
      moreover from this \<open>k \<le> 3\<close> have "3 - byte_len t = Suc (3 - k)" by simp
      ultimately show ?thesis by simp
    qed
    with s True assms(1) show ?thesis by auto
  next
    case False
    let ?q = "256 ^ (k - 3) :: nat"
    have "m = t div ?q"
    proof (cases "k = byte_len t")
      case True
      then show ?thesis using mk False by (auto simp: encode_target_def Let_def split: if_splits)
    next
      case diff: False
      show ?thesis
      proof (cases "byte_len t \<le> 3")
        case True
        then have "byte_len t = 3" "k = 4" "m = t div 256"
          using mk diff False by (auto simp: encode_target_def Let_def split: if_splits)
        then show ?thesis by simp
      next
        case ge: False
        then have k: "k = Suc (byte_len t)" and m: "m = t div 256 ^ (byte_len t - 3) div 256"
          using mk diff by (auto simp: encode_target_def Let_def split: if_splits)
        have "k - 3 = Suc (byte_len t - 3)" using k ge by simp
        then have "?q = 256 ^ (byte_len t - 3) * 256" by (simp only: power_Suc2)
        then show ?thesis by (simp only: m div_mult2_eq)
      qed
    qed
    moreover have "t = t div ?q * ?q + t mod ?q" by (rule div_mult_mod_eq [symmetric])
    moreover have "t mod ?q < ?q" by simp
    ultimately have t: "m * ?q \<le> t" "t - m * ?q < ?q" by (metis le_add1, metis add_diff_cancel_left')
    have "2 ^ 15 * (t - m * ?q) < 2 ^ 15 * ?q" using t(2) by simp
    also have "2 ^ 15 * ?q \<le> m * ?q" using b by (intro mult_le_mono1) simp
    also note t(1)
    finally have "2 ^ 15 * (t - m * ?q) < t" .
    with s False t(1) show ?thesis by (intro exI [of _ "m * ?q"]) simp
  qed
qed

text \<open>Writing back what was read: the canonical encodings are fixed points.\<close>

lemma GetCompact_SetCompact:
  assumes "2 ^ 15 \<le> m" "m < 2 ^ 23" "3 \<le> k" "k < 256"
  shows "GetCompact (SetCompact (compact_of m k)) = compact_of m k"
proof -
  let ?q = "256 ^ (k - 3) :: nat"
  let ?t = "m * ?q"
  have s: "SetCompact (compact_of m k) = int ?t"
    using SetCompact_compact_of [OF assms(2,4)] assms(3) by (cases "k = 3") auto
  have q: "0 < ?q" by simp
  then have t: "?t > 0" using assms(1) by simp
  have pk: "256 ^ k = 2 ^ 24 * ?q" "256 ^ (k - 1) = 2 ^ 16 * ?q" "256 ^ (k - 2) = 256 * ?q"
  proof -
    obtain j where "k = j + 3" using assms(3) by (metis add.commute le_Suc_ex)
    then show "256 ^ k = 2 ^ 24 * ?q" "256 ^ (k - 1) = 2 ^ 16 * ?q" "256 ^ (k - 2) = 256 * ?q"
      by (simp_all add: power_add)
  qed
  have up: "?t < 2 ^ 23 * ?q" using assms(2) q by (intro mult_strict_right_mono) simp_all
  have lo: "2 ^ 15 * ?q \<le> ?t" using assms(1) by (intro mult_le_mono1) simp
  have enc: "encode_target ?t = (m, k)"
  proof (cases "2 ^ 16 \<le> m")
    case True
    then have "2 ^ 16 * ?q \<le> ?t" by (intro mult_le_mono1) simp
    then have "256 ^ (k - 1) \<le> ?t" "?t < 256 ^ Suc (k - 1)" using pk up assms(3) by simp_all
    then have l: "byte_len ?t = k" using byte_len_eqI assms(3) by fastforce
    then show "encode_target ?t = (m, k)" using assms(2,3) by (cases "k = 3") (simp_all add: encode_target_def)
  next
    case False
    then have "?t < 2 ^ 16 * ?q" using q by (intro mult_strict_right_mono) simp_all
    moreover have "256 * ?q \<le> 2 ^ 15 * ?q" by simp
    moreover have "Suc (k - 2) = k - 1" using assms(3) by simp
    ultimately have "256 ^ (k - 2) \<le> ?t" "?t < 256 ^ Suc (k - 2)"
      using pk lo by (simp_all only:)
    then have "byte_len ?t = Suc (k - 2)" by (rule byte_len_eqI)
    then have l: "byte_len ?t = k - 1" using assms(3) by simp
    show "encode_target ?t = (m, k)"
    proof (cases "k \<le> 4")
      case True
      then have "k = 3 \<or> k = 4" using assms(3) by linarith
      then show ?thesis using l assms(1) by (auto simp: encode_target_def)
    next
      case big: False
      then have "?q = 256 * 256 ^ (k - 4)" by (simp add: Suc_diff_Suc numeral_eq_Suc flip: power_Suc)
      then have "?t div 256 ^ (k - 4) = m * 256" by simp
      moreover have "\<not> k - 1 \<le> 3" "k - 1 - 3 = k - 4" "Suc (k - 1) = k" using big by simp_all
      moreover have "m * 256 \<ge> 2 ^ 23" using assms(1) by simp
      ultimately show ?thesis
        unfolding encode_target_def Let_def l by (simp only: if_False if_True) simp
    qed
  qed
  then show ?thesis unfolding s using GetCompact_encode [OF t enc assms(4)] by simp
qed

text \<open>The subsidy: halved every 210000 blocks, so that all of it together stays below 21 million coins.\<close>

definition GetBlockReward :: "u32 \<Rightarrow> u64" where
  "GetBlockReward height = drop_bit (unat (height div 210000)) 5000000000"

lemma unat_GetBlockReward: "unat (GetBlockReward h) = 5000000000 div 2 ^ (unat h div 210000)"
  by (simp add: GetBlockReward_def unat_drop_bit_eq drop_bit_eq_div [of _ "5000000000 :: nat"] unat_div)

lemma halvings_bound: "(\<Sum>e<k. a div 2 ^ e) + 2 * (a div 2 ^ k) \<le> (2 * a :: nat)"
proof (induction k)
  case (Suc k)
  have "a div 2 ^ Suc k = a div 2 ^ k div 2" by (metis div_mult2_eq power_Suc2)
  then have "2 * (a div 2 ^ Suc k) \<le> a div 2 ^ k" by simp
  with Suc show ?case by simp
qed simp

lemma total_reward:
  "n \<le> 2 ^ 32 \<Longrightarrow> (\<Sum>h<n. unat (GetBlockReward (of_nat h))) \<le> 2100000000000000"
proof -
  assume n: "n \<le> 2 ^ 32"
  let ?r = "\<lambda>h::nat. 5000000000 div 2 ^ (h div 210000) :: nat"
  have eq: "unat (GetBlockReward (of_nat h)) = ?r h" if "h < n" for h
    using that n by (simp add: unat_GetBlockReward unsigned_of_nat take_bit_nat_eq_self)
  have "(\<Sum>h<210000 * k. ?r h) = 210000 * (\<Sum>e<k. 5000000000 div 2 ^ e)" for k
  proof (induction k)
    case (Suc k)
    have "(\<Sum>h<210000 * Suc k. ?r h) = (\<Sum>h<210000 * k. ?r h) + (\<Sum>h\<in>{210000 * k..<210000 * k + 210000}. ?r h)"
      using sum.atLeastLessThan_concat [of 0 "210000 * k" "210000 * k + 210000" ?r] by (simp add: atLeast0LessThan add.commute)
    also have "(\<Sum>h\<in>{210000 * k..<210000 * k + 210000}. ?r h) = (\<Sum>h\<in>{210000 * k..<210000 * k + 210000}. 5000000000 div 2 ^ k)"
    proof (rule sum.cong)
      fix h assume "h \<in> {210000 * k..<210000 * k + 210000}"
      then have "h div 210000 = k" by (simp add: div_nat_eqI)
      then show "?r h = 5000000000 div 2 ^ k" by simp
    qed simp
    finally show ?case using Suc by (simp add: algebra_simps)
  qed simp
  from this [of "Suc (n div 210000)"] halvings_bound [of 5000000000 "Suc (n div 210000)"]
  have "(\<Sum>h<210000 * Suc (n div 210000). ?r h) \<le> 2100000000000000" by linarith
  moreover have "(\<Sum>h<n. ?r h) \<le> (\<Sum>h<210000 * Suc (n div 210000). ?r h)"
  proof (rule sum_mono2)
    have "n < 210000 * Suc (n div 210000)" using dividend_less_div_times [of 210000 n] by simp
    then show "{..<n} \<subseteq> {..<210000 * Suc (n div 210000)}" by auto
  qed simp_all
  moreover have "(\<Sum>h<n. unat (GetBlockReward (of_nat h))) = (\<Sum>h<n. ?r h)" using eq by simp
  ultimately show ?thesis by simp
qed

end
