(* ===== verification/ChainTx.thy ===== *)
theory ChainTx
  imports UtxoDb Block Target Verify "HOL-Library.AList"
begin

text \<open>
  Connecting the transactions of a block (\<open>commitTxs\<close> and \<open>CheckTransactions\<close> of \<open>lib/chain/chain_accept.go\<close>): every
  input is found in the database or among the outputs of earlier transactions of the block, its script is
  verified, the sums are checked, and the changes for the database are collected. A Go map is a list of pairs with
  different keys; the loops over maps run in its order. Each verification runs in a goroutine of its own in the
  code and is one call here: it only reads the transaction, but for the hash caches, which do not matter.
\<close>

section \<open>State\<close>

datatype commit_error =
    CommitPanic go_panic
  | TxVoutTooBig
  | DoubleSpendInBlock
  | UnknownInputTxID
  | VoutTooBig
  | VoutAlreadySpent
  | OwnCoinbase
  | PrematureCoinbase
  | CoinbaseScriptLength nat
  | MoreSpentThanInput
  | VerifyScriptsFailed nat
  | OutAboveIn
  | TooManySigops

text \<open>What the chain offers: the database's \<open>UnspentGet\<close>, the curve, the hooks, the length of the undo buffer.\<close>

record chain_env =
  ce_get :: "bytes \<Rightarrow> u32 \<Rightarrow> txout option"
  ce_ec :: ec
  ce_hook :: "(bytes \<Rightarrow> sigchecker \<Rightarrow> u32 \<Rightarrow> bool) option"
  ce_TrustedTxChecker :: "(tx \<Rightarrow> bool) option"
  ce_UnwindBufLen :: u32

text \<open>The local variables of \<open>commitTxs\<close> and the maps of \<open>changes\<close>.\<close>

record cstate =
  cs_DeledTxs :: "(bytes \<times> bool list) list"
  cs_UndoData :: "(bytes \<times> utxo_rec) list option"
  cs_blUnsp :: "(bytes \<times> txout option list) list"
  cs_sigops :: u32
  cs_in :: u64
  cs_out :: u64
  cs_verr :: nat
  cs_Txs :: "tx list"

abbreviation (input) COINBASE_MATURITY :: u32 where "COINBASE_MATURITY \<equiv> 100"
abbreviation (input) MAX_BLOCK_SIGOPS_COST :: u32 where "MAX_BLOCK_SIGOPS_COST \<equiv> 80000"

definition panicked :: "go_panic + 'a \<Rightarrow> commit_error + 'a" where
  "panicked = liftErr CommitPanic"

section \<open>One input\<close>

definition check_spent :: "(bytes \<times> bool list) list \<Rightarrow> txprevout \<Rightarrow> commit_error + unit" where
  "check_spent deled inp =
     (case map_of deled (po_Hash inp) of
        None \<Rightarrow> Inr ()
      | Some spent_map \<Rightarrow>
          if unat (po_Vout inp) \<ge> length spent_map then Inl TxVoutTooBig
          else if spent_map ! unat (po_Vout inp) then Inl DoubleSpendInBlock
          else Inr ())"

text \<open>An output of an earlier transaction of the block; it is marked as spent.\<close>

definition take_block_out :: "(bytes \<times> txout option list) list \<Rightarrow> txprevout
    \<Rightarrow> commit_error + txout \<times> (bytes \<times> txout option list) list" where
  "take_block_out blUnsp inp =
     (let vout = unat (po_Vout inp) in
      case map_of blUnsp (po_Hash inp) of
        None \<Rightarrow> Inl UnknownInputTxID
      | Some t \<Rightarrow>
          if vout \<ge> length t then Inl VoutTooBig
          else (case t ! vout of
                  None \<Rightarrow> Inl VoutAlreadySpent
                | Some out \<Rightarrow>
                    if to_WasCoinbase out then Inl OwnCoinbase
                    else Inr (out, AList.update (po_Hash inp) (t[vout := None]) blUnsp)))"

text \<open>An output of the database: deleted later, and remembered in the undo data if there is any.\<close>

definition mark_deleted :: "txout \<Rightarrow> txprevout \<Rightarrow> (bytes \<times> bool list) list \<Rightarrow> commit_error + (bytes \<times> bool list) list" where
  "mark_deleted tout inp deled =
     (let vout = unat (po_Vout inp);
          spent_map = (case map_of deled (po_Hash inp) of
              None \<Rightarrow> replicate (unat (to_VoutCount tout)) False
            | Some s \<Rightarrow> s)
      in if vout \<ge> length spent_map then Inl (CommitPanic IndexOutOfRange)
         else Inr (AList.update (po_Hash inp) (spent_map[vout := True]) deled))"

definition remember :: "txout \<Rightarrow> txprevout \<Rightarrow> (bytes \<times> utxo_rec) list \<Rightarrow> commit_error + (bytes \<times> utxo_rec) list" where
  "remember tout inp undo =
     (let vout = unat (po_Vout inp);
          urec = (case map_of undo (po_Hash inp) of
              None \<Rightarrow> \<lparr>ur_TxID = po_Hash inp, ur_Coinbase = to_WasCoinbase tout, ur_InBlock = to_BlockHeight tout,
                       ur_Outs = replicate (unat (to_VoutCount tout)) None\<rparr>
            | Some r \<Rightarrow> r)
      in if vout \<ge> length (ur_Outs urec) then Inl (CommitPanic IndexOutOfRange)
         else Inr (AList.update (po_Hash inp) (urec\<lparr>ur_Outs := (ur_Outs urec)[vout :=
             Some \<lparr>uo_Value = to_Value tout, uo_PKScr = to_Pk_script tout\<rparr>]\<rparr>) undo))"

definition take_db_out :: "u32 \<Rightarrow> txout \<Rightarrow> txprevout \<Rightarrow> cstate \<Rightarrow> commit_error + cstate" where
  "take_db_out height tout inp cs =
     (if to_WasCoinbase tout \<and> height - to_BlockHeight tout < COINBASE_MATURITY then Inl PrematureCoinbase
      else
        andThen (mark_deleted tout inp (cs_DeledTxs cs)) (\<lambda>deled.
        let cs = cs\<lparr>cs_DeledTxs := deled\<rparr> in
        case cs_UndoData cs of
          None \<Rightarrow> Inr cs
        | Some undo \<Rightarrow> andThen (remember tout inp undo) (\<lambda>undo. Inr (cs\<lparr>cs_UndoData := Some undo\<rparr>))))"

definition take_out :: "chain_env \<Rightarrow> u32 \<Rightarrow> txprevout \<Rightarrow> cstate \<Rightarrow> commit_error + txout \<times> cstate" where
  "take_out env height inp cs =
     andThen (check_spent (cs_DeledTxs cs) inp) (\<lambda>_.
     case ce_get env (po_Hash inp) (po_Vout inp) of
       None \<Rightarrow> andThen (take_block_out (cs_blUnsp cs) inp) (\<lambda>(out, bu). Inr (out, cs\<lparr>cs_blUnsp := bu\<rparr>))
     | Some tout \<Rightarrow> andThen (take_db_out height tout inp cs) (\<lambda>cs. Inr (tout, cs)))"

definition input_sigops :: "u32 \<Rightarrow> tx \<Rightarrow> nat \<Rightarrow> bytes \<Rightarrow> bytes \<Rightarrow> go_panic + u32" where
  "input_sigops flags t j scriptSig pk =
     (let p2sh = (if flag_on flags VER_P2SH \<and> IsP2SH pk then of_nat (4 * GetP2SHSigOpCount scriptSig) else 0) in
      if flag_on flags VER_WITNESS
      then andThen (CountWitnessSigOps t j pk) (\<lambda>n. Inr (p2sh + of_nat n))
      else Inr p2sh)"

text \<open>The loop over the inputs; it returns the outputs they spend and their sum.\<close>

fun spend_inputs :: "chain_env \<Rightarrow> u32 \<Rightarrow> u32 \<Rightarrow> tx \<Rightarrow> nat \<Rightarrow> txin option list \<Rightarrow> cstate
    \<Rightarrow> commit_error + txout list \<times> u64 \<times> cstate" where
  "spend_inputs env height flags t j [] cs = Inr ([], 0, cs)"
| "spend_inputs env height flags t j (p # ps) cs =
     andThen (panicked (deref p)) (\<lambda>x.
     andThen (take_out env height (ti_Input x) cs) (\<lambda>(tout, cs).
     andThen (panicked (input_sigops flags t j (ti_ScriptSig x) (to_Pk_script tout))) (\<lambda>n.
     andThen (spend_inputs env height flags t (Suc j) ps (cs\<lparr>cs_sigops := cs_sigops cs + n\<rparr>)) (\<lambda>(touts, sum, cs).
     Inr (tout # touts, to_Value tout + sum, cs)))))"

section \<open>One transaction\<close>

text \<open>The verifications of one transaction: how many inputs fail.\<close>

fun verify_inputs :: "chain_env \<Rightarrow> u32 \<Rightarrow> tx \<Rightarrow> nat \<Rightarrow> txout list \<Rightarrow> go_panic + nat" where
  "verify_inputs env flags t j [] = Inr 0"
| "verify_inputs env flags t j (so # sos) =
     andThen (VerifyTxScript (ce_ec env) (ce_hook env) (to_Pk_script so)
                \<lparr>sc_Tx = t, sc_Idx = j, sc_Amount = to_Value so\<rparr> flags) (\<lambda>ok.
     andThen (verify_inputs env flags t (Suc j) sos) (\<lambda>n. Inr (if ok then n else Suc n)))"

fun sum_values :: "txout option list \<Rightarrow> go_panic + u64" where
  "sum_values [] = Inr 0"
| "sum_values (p # ps) = andThen (deref p) (\<lambda>out. andThen (sum_values ps) (\<lambda>n. Inr (to_Value out + n)))"

definition commit_coinbase :: "tx \<Rightarrow> commit_error + unit" where
  "commit_coinbase t =
     andThen (panicked (andThen (index (tx_TxIn t) 0) deref)) (\<lambda>x.
     if length (ti_ScriptSig x) < 2 \<or> length (ti_ScriptSig x) > 100
     then Inl (CoinbaseScriptLength (length (ti_ScriptSig x))) else Inr ())"

definition tx_is_trusted :: "chain_env \<Rightarrow> bool \<Rightarrow> tx \<Rightarrow> bool" where
  "tx_is_trusted env trusted t \<longleftrightarrow> trusted \<or> (case ce_TrustedTxChecker env of None \<Rightarrow> False | Some f \<Rightarrow> f t)"

definition commit_spends :: "chain_env \<Rightarrow> u32 \<Rightarrow> u32 \<Rightarrow> bool \<Rightarrow> tx \<Rightarrow> cstate \<Rightarrow> commit_error + tx \<times> u64 \<times> cstate" where
  "commit_spends env height flags trusted t cs =
     andThen (spend_inputs env height flags t 0 (tx_TxIn t) cs) (\<lambda>(touts, txinsum, cs).
     if tx_is_trusted env trusted t then Inr (t, txinsum, cs)
     else
       let t = t\<lparr>tx_Spent_outputs := map Some touts\<rparr> in
       andThen (panicked (verify_inputs env flags t 0 touts)) (\<lambda>n.
       Inr (t, txinsum, cs\<lparr>cs_verr := cs_verr cs + n\<rparr>)))"

definition commit_tx :: "chain_env \<Rightarrow> u32 \<Rightarrow> u32 \<Rightarrow> bool \<Rightarrow> nat \<Rightarrow> tx \<Rightarrow> cstate \<Rightarrow> commit_error + cstate" where
  "commit_tx env height flags trusted i t cs =
     andThen (panicked (GetLegacySigOpCount t)) (\<lambda>n.
     let cs = cs\<lparr>cs_sigops := cs_sigops cs + of_nat (4 * n)\<rparr> in
     andThen (if i > 0 then commit_spends env height flags trusted t cs
              else andThen (commit_coinbase t) (\<lambda>_. Inr (t, 0, cs))) (\<lambda>(t, txinsum, cs).
     andThen (panicked (sum_values (tx_TxOut t))) (\<lambda>txoutsum.
     let cs = cs\<lparr>cs_in := cs_in cs + txinsum, cs_out := cs_out cs + txoutsum\<rparr>;
         t = (if i > 0 then t\<lparr>tx_Fee := txinsum - txoutsum\<rparr> else t)
     in if i > 0 \<and> txoutsum > txinsum then Inl MoreSpentThanInput
        else Inr (cs\<lparr>cs_blUnsp := AList.update (tx_Hash t) (tx_TxOut t) (cs_blUnsp cs), cs_Txs := cs_Txs cs @ [t]\<rparr>))))"

fun commit_all :: "chain_env \<Rightarrow> u32 \<Rightarrow> u32 \<Rightarrow> bool \<Rightarrow> nat \<Rightarrow> tx option list \<Rightarrow> cstate \<Rightarrow> commit_error + cstate" where
  "commit_all env height flags trusted i [] cs = Inr cs"
| "commit_all env height flags trusted i (p # ps) cs =
     andThen (panicked (deref p)) (\<lambda>t.
     andThen (commit_tx env height flags trusted i t cs) (commit_all env height flags trusted (Suc i) ps))"

section \<open>The block\<close>

text \<open>The record for the outputs of a transaction that the block does not spend itself; none if there are none.\<close>

definition add_record :: "u32 \<Rightarrow> bytes \<times> txout option list \<Rightarrow> utxo_rec option" where
  "add_record height = (\<lambda>(k, v).
     case filter (\<lambda>r. r \<noteq> None) v of
       Some out # _ \<Rightarrow> Some \<lparr>ur_TxID = k, ur_Coinbase = to_WasCoinbase out, ur_InBlock = height,
           ur_Outs = map (map_option (\<lambda>x. \<lparr>uo_Value = to_Value x, uo_PKScr = to_Pk_script x\<rparr>)) v\<rparr>
     | _ \<Rightarrow> None)"

definition commit_start :: "chain_env \<Rightarrow> u32 \<Rightarrow> u32 \<Rightarrow> cstate" where
  "commit_start env height lknown =
     \<lparr>cs_DeledTxs = [], cs_UndoData = (if height + ce_UnwindBufLen env \<ge> lknown then Some [] else None),
      cs_blUnsp = [], cs_sigops = 0, cs_in = GetBlockReward height, cs_out = 0, cs_verr = 0, cs_Txs = []\<rparr>"

definition commitTxs :: "chain_env \<Rightarrow> block \<Rightarrow> u32 \<Rightarrow> u32 \<Rightarrow> commit_error + u32 \<times> block_changes \<times> tx list" where
  "commitTxs env bl height lknown =
     andThen (commit_all env height (bl_VerifyFlags bl) (bl_Trusted bl) 0 (txs_of bl) (commit_start env height lknown)) (\<lambda>cs.
     if \<not> bl_Trusted bl \<and> cs_verr cs > 0 then Inl (VerifyScriptsFailed (cs_verr cs))
     else if cs_in cs < cs_out cs then Inl OutAboveIn
     else if cs_sigops cs > MAX_BLOCK_SIGOPS_COST then Inl TooManySigops
     else Inr (cs_sigops cs,
       \<lparr>bc_Height = height, bc_LastKnownHeight = lknown, bc_AddList = List.map_filter (add_record height) (cs_blUnsp cs),
        bc_DeledTxs = cs_DeledTxs cs, bc_UndoData = map_option (map snd) (cs_UndoData cs)\<rparr>, cs_Txs cs))"

definition ProcessBlockTransactions :: "chain_env \<Rightarrow> block \<Rightarrow> u32 \<Rightarrow> u32 \<Rightarrow> commit_error + u32 \<times> block_changes \<times> tx list" where
  "ProcessBlockTransactions env bl height lknown = commitTxs env bl height lknown"

end
