(* ===== verification/ChainTxLaws.thy ===== *)
theory ChainTxLaws
  imports ChainTx
begin

text \<open>
  Laws of \<open>commitTxs\<close> (lib/chain/chain_accept.go): no output is spent twice, the new coins of a block are covered by
  what it spends and the subsidy, and its changes fit the database.
\<close>

lemma panicked_simps [simp]: "panicked (Inr x) = Inr x" "panicked (Inl e) = Inl (CommitPanic e)"
  by (simp_all add: panicked_def)

lemma panicked_ok [ok_iff]: "panicked m = Inr x \<longleftrightarrow> m = Inr x"
  by (simp add: panicked_def ok_iff)

section \<open>No output is spent twice\<close>

text \<open>An output is spent: marked in the deletions, or nil in the outputs of the block.\<close>

definition spent :: "chain_env \<Rightarrow> cstate \<Rightarrow> txprevout \<Rightarrow> bool" where
  "spent env cs p \<longleftrightarrow>
     (if ce_get env (po_Hash p) (po_Vout p) \<noteq> None
      then \<exists>sm. map_of (cs_DeledTxs cs) (po_Hash p) = Some sm \<and> unat (po_Vout p) < length sm \<and> sm ! unat (po_Vout p)
      else \<exists>t. map_of (cs_blUnsp cs) (po_Hash p) = Some t \<and> unat (po_Vout p) < length t \<and> t ! unat (po_Vout p) = None)"

lemma mark_deleted_ok:
  assumes "mark_deleted tout inp deled = Inr deled'"
  shows "\<exists>sm. map_of deled' = (map_of deled)(po_Hash inp \<mapsto> sm[unat (po_Vout inp) := True]) \<and> unat (po_Vout inp) < length sm \<and>
    (case map_of deled (po_Hash inp) of Some s \<Rightarrow> sm = s | None \<Rightarrow> sm = replicate (unat (to_VoutCount tout)) False)"
  using assms by (auto simp: mark_deleted_def Let_def update_conv' split: option.splits if_splits)

lemma take_db_out_ok:
  assumes "take_db_out height tout inp cs = Inr cs'"
  shows "mark_deleted tout inp (cs_DeledTxs cs) = Inr (cs_DeledTxs cs') \<and> cs_blUnsp cs' = cs_blUnsp cs \<and>
    cs_sigops cs' = cs_sigops cs \<and> cs_in cs' = cs_in cs \<and> cs_out cs' = cs_out cs \<and> cs_verr cs' = cs_verr cs \<and> cs_Txs cs' = cs_Txs cs \<and>
    \<not> (to_WasCoinbase tout \<and> height - to_BlockHeight tout < 100) \<and>
    (case cs_UndoData cs of None \<Rightarrow> cs_UndoData cs' = None
     | Some u \<Rightarrow> \<exists>u'. remember tout inp u = Inr u' \<and> cs_UndoData cs' = Some u')"
proof (cases "cs_UndoData cs")
  case None
  then show ?thesis using assms by (auto simp: take_db_out_def ok_iff Let_def split: if_splits)
next
  case (Some u)
  then show ?thesis using assms by (auto simp: take_db_out_def ok_iff Let_def split: if_splits)
qed

lemma take_block_out_ok:
  assumes "take_block_out bu inp = Inr (out, bu')"
  shows "\<exists>t. map_of bu (po_Hash inp) = Some t \<and> unat (po_Vout inp) < length t \<and> t ! unat (po_Vout inp) = Some out \<and>
    \<not> to_WasCoinbase out \<and> bu' = AList.update (po_Hash inp) (t[unat (po_Vout inp) := None]) bu"
  using assms by (auto simp: take_block_out_def Let_def split: option.splits if_splits)

lemma take_out_spent:
  assumes "take_out env height p cs = Inr (out, cs')"
  shows "\<not> spent env cs p \<and> spent env cs' p \<and> (\<forall>q. spent env cs q \<longrightarrow> spent env cs' q) \<and>
    dom (map_of (cs_blUnsp cs')) = dom (map_of (cs_blUnsp cs))"
proof -
  have c: "check_spent (cs_DeledTxs cs) p = Inr ()"
    using assms by (auto simp: take_out_def ok_iff)
  show ?thesis
  proof (cases "ce_get env (po_Hash p) (po_Vout p)")
    case None
    then obtain bu where t: "take_block_out (cs_blUnsp cs) p = Inr (out, bu)" "cs' = cs\<lparr>cs_blUnsp := bu\<rparr>"
      using assms by (auto simp: take_out_def ok_iff)
    from take_block_out_ok [OF t(1)] obtain l where l: "map_of (cs_blUnsp cs) (po_Hash p) = Some l" "unat (po_Vout p) < length l"
      "l ! unat (po_Vout p) = Some out" "map_of bu = (map_of (cs_blUnsp cs))(po_Hash p \<mapsto> l[unat (po_Vout p) := None])"
      by (auto simp: update_conv')
    have "spent env cs' q" if "spent env cs q" for q
      using that t(2) l by (auto simp: spent_def nth_list_update split: if_splits)
    moreover have "\<not> spent env cs p" "spent env cs' p" "dom (map_of (cs_blUnsp cs')) = dom (map_of (cs_blUnsp cs))"
      using None l t(2) by (auto simp: spent_def)
    ultimately show ?thesis by blast
  next
    case (Some tout)
    then have t: "take_db_out height tout p cs = Inr cs'" using assms by (auto simp: take_out_def ok_iff)
    note d = take_db_out_ok [OF t]
    from mark_deleted_ok [of tout p "cs_DeledTxs cs" "cs_DeledTxs cs'"] d obtain sm where
      sm: "map_of (cs_DeledTxs cs') = (map_of (cs_DeledTxs cs))(po_Hash p \<mapsto> sm[unat (po_Vout p) := True])" "unat (po_Vout p) < length sm"
      "case map_of (cs_DeledTxs cs) (po_Hash p) of Some s \<Rightarrow> sm = s | None \<Rightarrow> sm = replicate (unat (to_VoutCount tout)) False" by blast
    have "spent env cs' q" if "spent env cs q" for q
      using that sm d by (auto simp: spent_def nth_list_update split: if_splits option.splits)
    moreover have "\<not> spent env cs p"
      using c Some by (auto simp: spent_def check_spent_def split: option.splits if_splits)
    moreover have "spent env cs' p" using Some sm by (simp add: spent_def)
    moreover have "dom (map_of (cs_blUnsp cs')) = dom (map_of (cs_blUnsp cs))" using d by simp
    ultimately show ?thesis by blast
  qed
qed

definition prevouts :: "txin option list \<Rightarrow> txprevout list" where
  "prevouts ps = concat (map (\<lambda>p. case p of None \<Rightarrow> [] | Some x \<Rightarrow> [ti_Input x]) ps)"

lemma prevouts_simps [simp]: "prevouts [] = []" "prevouts (Some x # ps) = ti_Input x # prevouts ps" "prevouts (None # ps) = prevouts ps"
  by (simp_all add: prevouts_def)

abbreviation tx_prevouts :: "tx \<Rightarrow> txprevout list" where
  "tx_prevouts t \<equiv> prevouts (tx_TxIn t)"

lemma spend_inputs_spent:
  assumes "spend_inputs env height flags t j ps cs = Inr (touts, tsum, cs')"
  shows "distinct (prevouts ps) \<and>
    (\<forall>q \<in> set (prevouts ps). \<not> spent env cs q \<and> spent env cs' q) \<and>
    (\<forall>q. spent env cs q \<longrightarrow> spent env cs' q) \<and> dom (map_of (cs_blUnsp cs')) = dom (map_of (cs_blUnsp cs))"
  using assms
proof (induction ps arbitrary: j cs touts tsum)
  case (Cons p ps)
  from Cons.prems obtain x tout cs1 n touts1 tsum1 where x: "p = Some x"
    and s: "take_out env height (ti_Input x) cs = Inr (tout, cs1)"
    and r: "spend_inputs env height flags t (Suc j) ps (cs1\<lparr>cs_sigops := cs_sigops cs1 + n\<rparr>) = Inr (touts1, tsum1, cs')"
    by (auto simp: ok_iff)
  note a = take_out_spent [OF s] and b = Cons.IH [OF r]
  have same: "spent env (cs1\<lparr>cs_sigops := k\<rparr>) q = spent env cs1 q" for k q by (simp add: spent_def)
  show ?case using a b unfolding same by (auto simp: x)
qed simp

lemma commit_spends_ok:
  assumes "commit_spends env height flags trusted t cs = Inr (t', txinsum, cs')"
  shows "\<exists>touts cs1 n. spend_inputs env height flags t 0 (tx_TxIn t) cs = Inr (touts, txinsum, cs1) \<and>
    cs' = cs1\<lparr>cs_verr := cs_verr cs1 + n\<rparr> \<and> tx_Hash t' = tx_Hash t \<and> tx_TxOut t' = tx_TxOut t \<and> tx_TxIn t' = tx_TxIn t \<and>
    (if tx_is_trusted env trusted t then t' = t \<and> n = 0
     else t' = t\<lparr>tx_Spent_outputs := map Some touts\<rparr> \<and> verify_inputs env flags t' 0 touts = Inr n)"
proof -
  from assms obtain touts cs1 where s: "spend_inputs env height flags t 0 (tx_TxIn t) cs = Inr (touts, txinsum, cs1)"
    by (auto simp: commit_spends_def ok_iff Let_def split: if_splits)
  show ?thesis
  proof (cases "tx_is_trusted env trusted t")
    case True
    then have "t' = t" "cs' = cs1" using assms s by (simp_all add: commit_spends_def)
    then show ?thesis using True s by (intro exI [of _ touts] exI [of _ cs1] exI [of _ 0]) simp
  next
    case False
    then show ?thesis using assms s by (auto simp: commit_spends_def ok_iff Let_def)
  qed
qed

text \<open>The parts of a successful \<open>commit_tx\<close>.\<close>

lemma commit_tx_ok:
  assumes "commit_tx env height flags trusted i t cs = Inr cs'"
  shows "\<exists>k t' txinsum cs1 txoutsum. GetLegacySigOpCount t = Inr k \<and> sum_values (tx_TxOut t) = Inr txoutsum \<and>
    (if i > 0 then commit_spends env height flags trusted t (cs\<lparr>cs_sigops := cs_sigops cs + of_nat (4 * k)\<rparr>) = Inr (t', txinsum, cs1) \<and>
        \<not> txoutsum > txinsum
     else commit_coinbase t = Inr () \<and> t' = t \<and> txinsum = 0 \<and> cs1 = cs\<lparr>cs_sigops := cs_sigops cs + of_nat (4 * k)\<rparr>) \<and>
    cs' = cs1\<lparr>cs_in := cs_in cs1 + txinsum, cs_out := cs_out cs1 + txoutsum,
      cs_blUnsp := AList.update (tx_Hash t) (tx_TxOut t) (cs_blUnsp cs1),
      cs_Txs := cs_Txs cs1 @ [if i > 0 then t'\<lparr>tx_Fee := txinsum - txoutsum\<rparr> else t']\<rparr>"
proof -
  obtain k where k: "GetLegacySigOpCount t = Inr k"
    by (cases "GetLegacySigOpCount t") (use assms in \<open>simp_all add: commit_tx_def\<close>)
  let ?cs = "cs\<lparr>cs_sigops := cs_sigops cs + of_nat (4 * k)\<rparr>"
  define fin where "fin = (\<lambda>(t, txinsum, cs :: cstate).
     andThen (panicked (sum_values (tx_TxOut t))) (\<lambda>txoutsum.
     let cs = cs\<lparr>cs_in := cs_in cs + txinsum, cs_out := cs_out cs + txoutsum\<rparr>;
         t = (if i > 0 then t\<lparr>tx_Fee := txinsum - txoutsum\<rparr> else t)
     in if i > 0 \<and> txoutsum > txinsum then Inl MoreSpentThanInput
        else Inr (cs\<lparr>cs_blUnsp := AList.update (tx_Hash t) (tx_TxOut t) (cs_blUnsp cs), cs_Txs := cs_Txs cs @ [t]\<rparr>)))"
  have all: "andThen (if i > 0 then commit_spends env height flags trusted t ?cs
              else andThen (commit_coinbase t) (\<lambda>_. Inr (t, 0, ?cs))) fin = Inr cs'"
    using assms by (simp only: commit_tx_def k panicked_simps andThen_simps Let_def fin_def)
  have fin: "\<exists>txoutsum. sum_values (tx_TxOut t2) = Inr txoutsum \<and> (i > 0 \<longrightarrow> \<not> txoutsum > txinsum) \<and>
      cs' = cs1\<lparr>cs_in := cs_in cs1 + txinsum, cs_out := cs_out cs1 + txoutsum,
        cs_blUnsp := AList.update (tx_Hash t2) (tx_TxOut t2) (cs_blUnsp cs1),
        cs_Txs := cs_Txs cs1 @ [if i > 0 then t2\<lparr>tx_Fee := txinsum - txoutsum\<rparr> else t2]\<rparr>"
    if f: "fin (t2, txinsum, cs1) = Inr cs'" for t2 txinsum and cs1 :: cstate
  proof (cases "sum_values (tx_TxOut t2)")
    case (Inr txoutsum)
    then show ?thesis using f by (auto simp: fin_def Let_def split: if_splits)
  qed (use f in \<open>simp add: fin_def\<close>)
  show ?thesis
  proof (cases "i > 0")
    case True
    obtain t' txinsum cs1 where s: "commit_spends env height flags trusted t ?cs = Inr (t', txinsum, cs1)"
      by (cases "commit_spends env height flags trusted t ?cs") (use all True in auto)
    have same: "tx_TxOut t' = tx_TxOut t" "tx_Hash t' = tx_Hash t" using commit_spends_ok [OF s] by blast+
    have "fin (t', txinsum, cs1) = Inr cs'" using all True s by simp
    from fin [OF this] True k s show ?thesis unfolding same by auto
  next
    case False
    have c: "commit_coinbase t = Inr ()" by (cases "commit_coinbase t") (use all False in simp_all)
    have "fin (t, 0, ?cs) = Inr cs'" using all False c by simp
    from fin [OF this] False k c show ?thesis by auto
  qed
qed

lemma spent_parts:
  "cs_DeledTxs cs' = cs_DeledTxs cs \<Longrightarrow> cs_blUnsp cs' = cs_blUnsp cs \<Longrightarrow> spent env cs' q = spent env cs q"
  by (simp add: spent_def)

lemma commit_tx_spent:
  assumes "commit_tx env height flags trusted i t cs = Inr cs'" "tx_Hash t \<notin> dom (map_of (cs_blUnsp cs))"
  shows "(i > 0 \<longrightarrow> distinct (tx_prevouts t) \<and> (\<forall>q \<in> set (tx_prevouts t). \<not> spent env cs q \<and> spent env cs' q)) \<and>
    (\<forall>q. spent env cs q \<longrightarrow> spent env cs' q) \<and>
    dom (map_of (cs_blUnsp cs')) = insert (tx_Hash t) (dom (map_of (cs_blUnsp cs)))"
proof -
  from commit_tx_ok [OF assms(1)] obtain k t' txinsum cs1 txoutsum where
    step: "if i > 0 then commit_spends env height flags trusted t (cs\<lparr>cs_sigops := cs_sigops cs + of_nat (4 * k)\<rparr>) = Inr (t', txinsum, cs1) \<and>
        \<not> txoutsum > txinsum
     else commit_coinbase t = Inr () \<and> t' = t \<and> txinsum = 0 \<and> cs1 = cs\<lparr>cs_sigops := cs_sigops cs + of_nat (4 * k)\<rparr>"
    and all: "cs' = cs1\<lparr>cs_in := cs_in cs1 + txinsum, cs_out := cs_out cs1 + txoutsum,
      cs_blUnsp := AList.update (tx_Hash t) (tx_TxOut t) (cs_blUnsp cs1),
      cs_Txs := cs_Txs cs1 @ [if i > 0 then t'\<lparr>tx_Fee := txinsum - txoutsum\<rparr> else t']\<rparr>"
    by (elim exE conjE) (rule that)
  have cs': "cs_DeledTxs cs' = cs_DeledTxs cs1" "cs_blUnsp cs' = AList.update (tx_Hash t) (tx_TxOut t) (cs_blUnsp cs1)"
    by (simp_all add: all)
  have add: "spent env cs' q" if "spent env cs1 q" "tx_Hash t \<notin> dom (map_of (cs_blUnsp cs1))" for q
    using that cs' by (auto simp: spent_def update_conv' split: if_splits)
  show ?thesis
  proof (cases "i > 0")
    case True
    have c: "commit_spends env height flags trusted t (cs\<lparr>cs_sigops := cs_sigops cs + of_nat (4 * k)\<rparr>) = Inr (t', txinsum, cs1)"
      using step unfolding if_P [OF True] by (rule conjunct1)
    from commit_spends_ok [OF c] obtain touts cs0 n where
      s: "spend_inputs env height flags t 0 (tx_TxIn t) (cs\<lparr>cs_sigops := cs_sigops cs + of_nat (4 * k)\<rparr>) = Inr (touts, txinsum, cs0)"
      and cs1: "cs1 = cs0\<lparr>cs_verr := cs_verr cs0 + n\<rparr>"
      by (elim exE conjE) (rule that)
    note sp = spend_inputs_spent [OF s]
    have e: "spent env cs1 q = spent env cs0 q" "spent env (cs\<lparr>cs_sigops := m\<rparr>) q = spent env cs q" for q m
      by (simp_all add: cs1 spent_def)
    have d: "dom (map_of (cs_blUnsp cs1)) = dom (map_of (cs_blUnsp cs))" using sp by (simp add: cs1)
    then have "tx_Hash t \<notin> dom (map_of (cs_blUnsp cs1))" using assms(2) by simp
    then have a: "spent env cs' q" if "spent env cs0 q" for q using add that e(1) by blast
    have b: "distinct (tx_prevouts t)" "\<forall>q \<in> set (tx_prevouts t). \<not> spent env cs q \<and> spent env cs0 q"
      "\<forall>q. spent env cs q \<longrightarrow> spent env cs0 q" using sp unfolding e(2) by blast+
    have "dom (map_of (cs_blUnsp cs')) = insert (tx_Hash t) (dom (map_of (cs_blUnsp cs)))"
      by (simp add: cs'(2) update_conv' d)
    with a b show ?thesis by blast
  next
    case False
    then have cs1: "cs1 = cs\<lparr>cs_sigops := cs_sigops cs + of_nat (4 * k)\<rparr>" using step by simp
    have e: "spent env cs1 q = spent env cs q" for q by (simp add: cs1 spent_def)
    have d: "dom (map_of (cs_blUnsp cs1)) = dom (map_of (cs_blUnsp cs))" by (simp add: cs1)
    then have "tx_Hash t \<notin> dom (map_of (cs_blUnsp cs1))" using assms(2) by simp
    then have a: "spent env cs' q" if "spent env cs q" for q using add that e by blast
    have "dom (map_of (cs_blUnsp cs')) = insert (tx_Hash t) (dom (map_of (cs_blUnsp cs)))"
      by (simp add: cs'(2) update_conv' d)
    with a False show ?thesis by blast
  qed
qed

text \<open>All outputs a list of transactions spends, but for the first one of the block.\<close>

fun spent_by :: "nat \<Rightarrow> tx option list \<Rightarrow> txprevout list" where
  "spent_by i [] = []"
| "spent_by i (p # ps) = (case p of Some t \<Rightarrow> if i > 0 then tx_prevouts t else [] | None \<Rightarrow> []) @ spent_by (Suc i) ps"

definition hashes_of :: "tx option list \<Rightarrow> bytes list" where
  "hashes_of ps = concat (map (\<lambda>p. case p of None \<Rightarrow> [] | Some t \<Rightarrow> [tx_Hash t]) ps)"

lemma hashes_of_simps [simp]: "hashes_of [] = []" "hashes_of (Some t # ps) = tx_Hash t # hashes_of ps" "hashes_of (None # ps) = hashes_of ps"
  by (simp_all add: hashes_of_def)

lemma commit_all_spent:
  assumes "commit_all env height flags trusted i ps cs = Inr cs'" "distinct (hashes_of ps)"
    "set (hashes_of ps) \<inter> dom (map_of (cs_blUnsp cs)) = {}"
  shows "distinct (spent_by i ps) \<and> (\<forall>q \<in> set (spent_by i ps). \<not> spent env cs q \<and> spent env cs' q) \<and>
    (\<forall>q. spent env cs q \<longrightarrow> spent env cs' q)"
  using assms
proof (induction ps arbitrary: i cs)
  case (Cons p ps)
  from Cons.prems(1) obtain t cs1 where p: "p = Some t" and c: "commit_tx env height flags trusted i t cs = Inr cs1"
    and r: "commit_all env height flags trusted (Suc i) ps cs1 = Inr cs'" by (auto simp: ok_iff)
  have nt: "tx_Hash t \<notin> dom (map_of (cs_blUnsp cs))" using Cons.prems(3) p by auto
  note a = commit_tx_spent [OF c nt]
  have "distinct (spent_by (Suc i) ps) \<and> (\<forall>q \<in> set (spent_by (Suc i) ps). \<not> spent env cs1 q \<and> spent env cs' q) \<and>
      (\<forall>q. spent env cs1 q \<longrightarrow> spent env cs' q)"
    by (rule Cons.IH [OF r]) (use Cons.prems(2,3) p a in auto)
  then show ?case using a p by (auto split: if_splits)
qed simp

lemma commitTxs_no_double_spend:
  assumes "commitTxs env bl height lknown = Inr r" "distinct (hashes_of (txs_of bl))"
  shows "distinct (spent_by 0 (txs_of bl))"
proof -
  from assms(1) obtain cs where "commit_all env height (bl_VerifyFlags bl) (bl_Trusted bl) 0 (txs_of bl) (commit_start env height lknown) = Inr cs"
    by (auto simp: commitTxs_def ok_iff)
  from commit_all_spent [OF this assms(2)] show ?thesis by (simp add: commit_start_def)
qed

text \<open>
  What \<open>PostCheckBlock\<close> makes sure of before: the first transaction is a coinbase, no other is, and every other has an
  input. With it no transaction can be repeated either, as long as an identifier stands for its inputs: the second copy
  would spend what the first one did.
\<close>

definition one_coinbase_first :: "tx option list \<Rightarrow> bool" where
  "one_coinbase_first ps \<longleftrightarrow> (\<exists>cb ts. ps = Some cb # ts \<and> IsCoinBase cb = Inr True \<and>
     (\<forall>p \<in> set ts. \<forall>t. p = Some t \<longrightarrow> IsCoinBase t = Inr False \<and> tx_TxIn t \<noteq> []))"

definition ids_name_inputs :: "tx option list \<Rightarrow> bool" where
  "ids_name_inputs ps \<longleftrightarrow> (\<forall>t u. Some t \<in> set ps \<longrightarrow> Some u \<in> set ps \<longrightarrow> tx_Hash t = tx_Hash u \<longrightarrow> tx_TxIn t = tx_TxIn u)"

lemma ids_name_inputs_D:
  "ids_name_inputs ps \<Longrightarrow> Some t \<in> set ps \<Longrightarrow> Some u \<in> set ps \<Longrightarrow> tx_Hash t = tx_Hash u \<Longrightarrow> tx_TxIn t = tx_TxIn u"
  unfolding ids_name_inputs_def by iprover

lemma ids_name_inputs_tl:
  assumes "ids_name_inputs (p # ps)"
  shows "ids_name_inputs ps"
  unfolding ids_name_inputs_def
proof (intro allI impI)
  fix t u assume tu: "Some t \<in> set ps" "Some u \<in> set ps" "tx_Hash t = tx_Hash u"
  show "tx_TxIn t = tx_TxIn u"
    by (rule ids_name_inputs_D [OF assms list.set_intros(2) [OF tu(1)] list.set_intros(2) [OF tu(2)] tu(3)])
qed

lemma commit_tx_prevouts:
  assumes "commit_tx env height flags trusted i t cs = Inr cs'" "i > 0" "tx_TxIn t \<noteq> []"
  shows "\<exists>q \<in> set (tx_prevouts t). \<not> spent env cs q"
proof -
  obtain k where k: "GetLegacySigOpCount t = Inr k"
    by (cases "GetLegacySigOpCount t") (use assms(1) in \<open>simp_all add: commit_tx_def\<close>)
  obtain r where s: "spend_inputs env height flags t 0 (tx_TxIn t) (cs\<lparr>cs_sigops := cs_sigops cs + of_nat (4 * k)\<rparr>) = Inr r"
  proof (cases "spend_inputs env height flags t 0 (tx_TxIn t) (cs\<lparr>cs_sigops := cs_sigops cs + of_nat (4 * k)\<rparr>)")
    case (Inl e)
    then have False
      using assms(1) unfolding commit_tx_def k panicked_simps andThen_simps Let_def if_P [OF assms(2)] commit_spends_def by simp
    then show thesis ..
  qed
  obtain touts txinsum cs0 where r: "r = (touts, txinsum, cs0)" by (cases r)
  obtain p ps where p: "tx_TxIn t = p # ps" using assms(3) by (cases "tx_TxIn t") auto
  have "p \<noteq> None"
  proof
    assume "p = None"
    with s show False by (simp add: p)
  qed
  then obtain x where x: "p = Some x" by (cases p) simp_all
  have mem: "ti_Input x \<in> set (tx_prevouts t)" by (simp add: p x)
  from spend_inputs_spent [OF s [unfolded r]] have "\<forall>q \<in> set (tx_prevouts t). \<not> spent env (cs\<lparr>cs_sigops := cs_sigops cs + of_nat (4 * k)\<rparr>) q"
    by (elim conjE) (rule ballI, drule (1) bspec, elim conjE)
  moreover have "spent env (cs\<lparr>cs_sigops := m\<rparr>) q = spent env cs q" for m q by (rule spent_parts) simp_all
  ultimately have "\<not> spent env cs (ti_Input x)" using mem by simp
  then show ?thesis using mem by (rule bexI)
qed

lemma commit_all_new_ids:
  assumes "commit_all env height flags trusted (Suc i) ps cs = Inr cs'" "ids_name_inputs ps"
    "\<And>t. Some t \<in> set ps \<Longrightarrow> tx_TxIn t \<noteq> []"
    "\<And>t q. Some t \<in> set ps \<Longrightarrow> tx_Hash t \<in> dom (map_of (cs_blUnsp cs)) \<Longrightarrow> q \<in> set (tx_prevouts t) \<Longrightarrow> spent env cs q"
  shows "distinct (hashes_of ps) \<and> set (hashes_of ps) \<inter> dom (map_of (cs_blUnsp cs)) = {}"
  using assms
proof (induction ps arbitrary: i cs)
  case (Cons p ps)
  from Cons.prems(1) obtain t cs1 where p: "p = Some t" and c: "commit_tx env height flags trusted (Suc i) t cs = Inr cs1"
    and r: "commit_all env height flags trusted (Suc (Suc i)) ps cs1 = Inr cs'" by (auto simp: ok_iff)
  have t: "tx_TxIn t \<noteq> []" using Cons.prems(3) p by simp
  from commit_tx_prevouts [OF c _ t] obtain q where "q \<in> set (tx_prevouts t)" "\<not> spent env cs q" by auto
  then have new: "tx_Hash t \<notin> dom (map_of (cs_blUnsp cs))" using Cons.prems(4) [of t q] p by auto
  note a = commit_tx_spent [OF c new]
  have ids: "ids_name_inputs ps" by (rule ids_name_inputs_tl [OF Cons.prems(2)])
  have same: "tx_TxIn u = tx_TxIn t" if "Some u \<in> set ps" "tx_Hash u = tx_Hash t" for u
    by (rule ids_name_inputs_D [OF Cons.prems(2) _ _ that(2)]) (use that(1) p in simp_all)
  have "distinct (hashes_of ps) \<and> set (hashes_of ps) \<inter> dom (map_of (cs_blUnsp cs1)) = {}"
  proof (rule Cons.IH [OF r ids])
    show "tx_TxIn u \<noteq> []" if "Some u \<in> set ps" for u using Cons.prems(3) that by simp
    show "spent env cs1 q" if u: "Some u \<in> set ps" "tx_Hash u \<in> dom (map_of (cs_blUnsp cs1))" "q \<in> set (tx_prevouts u)" for u q
    proof (cases "tx_Hash u = tx_Hash t")
      case True
      then show ?thesis using a same [OF u(1) True] u(3) by simp
    next
      case False
      then have "tx_Hash u \<in> dom (map_of (cs_blUnsp cs))" using a u(2) by auto
      then show ?thesis using Cons.prems(4) [OF _ _ u(3)] u(1) a by simp
    qed
  qed
  then show ?case using a new by (auto simp: p)
qed simp

lemma commitTxs_new_ids:
  assumes "commitTxs env bl height lknown = Inr r" "one_coinbase_first (txs_of bl)" "ids_name_inputs (txs_of bl)"
  shows "distinct (hashes_of (txs_of bl))"
proof -
  obtain cb ts where b: "txs_of bl = Some cb # ts" "IsCoinBase cb = Inr True"
    "\<And>t. Some t \<in> set ts \<Longrightarrow> IsCoinBase t = Inr False \<and> tx_TxIn t \<noteq> []"
    using assms(2) by (auto simp: one_coinbase_first_def)
  from assms(1) obtain cs where "commit_all env height (bl_VerifyFlags bl) (bl_Trusted bl) 0 (txs_of bl) (commit_start env height lknown) = Inr cs"
    by (auto simp: commitTxs_def ok_iff)
  then obtain cs1 where c: "commit_tx env height (bl_VerifyFlags bl) (bl_Trusted bl) 0 cb (commit_start env height lknown) = Inr cs1"
    and r: "commit_all env height (bl_VerifyFlags bl) (bl_Trusted bl) (Suc 0) ts cs1 = Inr cs" by (auto simp: b(1) ok_iff)
  have d: "dom (map_of (cs_blUnsp cs1)) = {tx_Hash cb}" using commit_tx_spent [OF c] by (simp add: commit_start_def)
  have other: "tx_Hash t \<noteq> tx_Hash cb" if t: "Some t \<in> set ts" for t
  proof
    assume "tx_Hash t = tx_Hash cb"
    then have "tx_TxIn t = tx_TxIn cb" by (rule ids_name_inputs_D [OF assms(3), rotated 2]) (use t b(1) in simp_all)
    then have "IsCoinBase t = IsCoinBase cb" by (simp add: IsCoinBase_def)
    then show False using b(2) b(3) [OF t] by simp
  qed
  have "distinct (hashes_of ts) \<and> set (hashes_of ts) \<inter> dom (map_of (cs_blUnsp cs1)) = {}"
  proof (rule commit_all_new_ids [OF r])
    show "ids_name_inputs ts" using ids_name_inputs_tl assms(3) unfolding b(1) .
    show "tx_TxIn t \<noteq> []" if "Some t \<in> set ts" for t using b(3) [OF that] by simp
    show "spent env cs1 q" if "Some t \<in> set ts" "tx_Hash t \<in> dom (map_of (cs_blUnsp cs1))" for t q
      using other [OF that(1)] that(2) unfolding d by simp
  qed
  then show ?thesis by (simp add: b(1) d)
qed

lemma commitTxs_spends_once:
  assumes "commitTxs env bl height lknown = Inr r" "one_coinbase_first (txs_of bl)" "ids_name_inputs (txs_of bl)"
  shows "distinct (hashes_of (txs_of bl)) \<and> distinct (spent_by 0 (txs_of bl))"
  using commitTxs_new_ids [OF assms] commitTxs_no_double_spend [OF assms(1)] by blast

end
