(* ===== verification/ChainTxFit.thy ===== *)
theory ChainTxFit
  imports ChainTxLaws
begin

text \<open>
  What \<open>commitTxs\<close> collects fits the database it read from: the deletions name outputs that are there, the undo
  data is what they spend, the new records are those of the block's transactions. Connecting the block and
  disconnecting it is then the identity on the database.
\<close>

section \<open>Association lists mapped by key\<close>

lemma update_map_key:
  "g (k, v) = w \<Longrightarrow> AList.update k w (map (\<lambda>d. (fst d, g d)) al) = map (\<lambda>d. (fst d, g d)) (AList.update k v al)"
  by (induction al) auto

lemma map_of_map_key: "map_of (map (\<lambda>d. (fst d, g d)) al) k = map_option (\<lambda>v. g (k, v)) (map_of al k)"
  by (induction al) auto

lemma set_update_distinct:
  "distinct (map fst al) \<Longrightarrow> set (AList.update k v al) = insert (k, v) {d \<in> set al. fst d \<noteq> k}"
  by (induction al) (auto simp: image_iff)

lemma map_fst_update_new: "k \<notin> fst ` set al \<Longrightarrow> AList.update k v al = al @ [(k, v)]"
  by (induction al) auto

lemma map2_update_left: "i < length ys \<Longrightarrow> map2 f (xs[i := x]) ys = (map2 f xs ys)[i := f x (ys ! i)]"
  by (rule nth_equalityI, simp, rename_tac j, case_tac "j = i") (auto simp: nth_list_update)

section \<open>The database behind the chain\<close>

definition env_reads :: "coins \<Rightarrow> chain_env \<Rightarrow> bool" where
  "env_reads R env \<longleftrightarrow>
     (\<forall>h v. ce_get env h v = (case R (UtxoKey h) of None \<Rightarrow> None | Some rec \<Rightarrow> lookup_out rec v))"

text \<open>
  The database looks at eight bytes of an identifier only; the records it finds for the inputs of the block
  have the identifiers asked for.
\<close>

definition ids_agree :: "coins \<Rightarrow> txprevout list \<Rightarrow> bool" where
  "ids_agree R ps \<longleftrightarrow> (\<forall>p \<in> set ps. \<forall>rec. R (UtxoKey (po_Hash p)) = Some rec \<longrightarrow> ur_TxID rec = po_Hash p)"

definition del_fits :: "coins \<Rightarrow> bytes \<times> bool list \<Rightarrow> bool" where
  "del_fits R d \<longleftrightarrow> (\<exists>rec. R (del_key d) = Some rec \<and> ur_TxID rec = fst d \<and> length (snd d) = length (ur_Outs rec) \<and>
     True \<in> set (snd d) \<and> (\<forall>i < length (snd d). snd d ! i \<longrightarrow> ur_Outs rec ! i \<noteq> None))"

definition dels_inv :: "coins \<Rightarrow> cstate \<Rightarrow> bool" where
  "dels_inv R cs \<longleftrightarrow> distinct (map fst (cs_DeledTxs cs)) \<and> (\<forall>d \<in> set (cs_DeledTxs cs). del_fits R d) \<and>
     (\<forall>u. cs_UndoData cs = Some u \<longrightarrow> u = map (\<lambda>d. (fst d, undo_of R d)) (cs_DeledTxs cs))"

lemma lookup_Some:
  "lookup_out rec v = Some tout \<longleftrightarrow> unat v < length (ur_Outs rec) \<and>
     (\<exists>x. ur_Outs rec ! unat v = Some x \<and> tout = \<lparr>to_Value = uo_Value x, to_Pk_script = uo_PKScr x,
        to_BlockHeight = ur_InBlock rec, to_VoutCount = of_nat (length (ur_Outs rec)), to_WasCoinbase = ur_Coinbase rec\<rparr>)"
  by (auto simp: lookup_out_def)

lemma mark_deleted_fits:
  assumes m: "mark_deleted tout p deled = Inr deled'" and R: "R (UtxoKey (po_Hash p)) = Some rec" "ur_TxID rec = po_Hash p"
    and t: "lookup_out rec (po_Vout p) = Some tout" and l: "length (ur_Outs rec) < 2 ^ 32"
    and old: "distinct (map fst deled)" "\<forall>d \<in> set deled. del_fits R d"
  shows "distinct (map fst deled') \<and> (\<forall>d \<in> set deled'. del_fits R d) \<and>
    (\<exists>sm. deled' = AList.update (po_Hash p) (sm[unat (po_Vout p) := True]) deled \<and> length sm = length (ur_Outs rec) \<and>
      (case map_of deled (po_Hash p) of Some s \<Rightarrow> sm = s | None \<Rightarrow> sm = replicate (length (ur_Outs rec)) False))"
proof -
  let ?h = "po_Hash p" and ?v = "unat (po_Vout p)"
  have cnt: "unat (to_VoutCount tout) = length (ur_Outs rec)"
    using t l by (auto simp: lookup_Some unsigned_of_nat take_bit_nat_eq_self)
  define sm where "sm = (case map_of deled ?h of Some s \<Rightarrow> s | None \<Rightarrow> replicate (length (ur_Outs rec)) False)"
  have d': "deled' = AList.update ?h (sm[?v := True]) deled" "?v < length sm"
    using m by (auto simp: mark_deleted_def Let_def sm_def cnt split: option.splits if_splits)
  have sm: "length sm = length (ur_Outs rec) \<and> (\<forall>i < length sm. sm ! i \<longrightarrow> ur_Outs rec ! i \<noteq> None)"
  proof (cases "map_of deled ?h")
    case None
    then show ?thesis by (simp add: sm_def)
  next
    case (Some s)
    then have "(?h, s) \<in> set deled" by (rule map_of_SomeD)
    then have "del_fits R (?h, s)" using old(2) by blast
    then show ?thesis using Some R(1) by (auto simp: sm_def del_fits_def del_key_def)
  qed
  have "True \<in> set (sm[?v := True])" using d'(2) by (metis set_update_memI)
  then have new: "del_fits R (?h, sm[?v := True])"
    using sm R t by (auto simp: del_fits_def del_key_def nth_list_update lookup_Some)
  have "distinct (map fst deled')" using old(1) by (simp add: d'(1) distinct_update)
  moreover have "\<forall>d \<in> set deled'. del_fits R d" using new old set_update_distinct [OF old(1)] by (auto simp: d'(1))
  moreover have "case map_of deled ?h of Some s \<Rightarrow> sm = s | None \<Rightarrow> sm = replicate (length (ur_Outs rec)) False"
    by (simp add: sm_def split: option.split)
  ultimately show ?thesis using d'(1) sm by blast
qed

lemma remember_fits:
  assumes m: "remember tout p (map (\<lambda>d. (fst d, undo_of R d)) deled) = Inr u'"
    and R: "R (UtxoKey (po_Hash p)) = Some rec" "ur_TxID rec = po_Hash p"
    and t: "lookup_out rec (po_Vout p) = Some tout" and l: "length (ur_Outs rec) < 2 ^ 32"
    and sm: "case map_of deled (po_Hash p) of Some s \<Rightarrow> sm = s | None \<Rightarrow> sm = replicate (length (ur_Outs rec)) False"
      "length sm = length (ur_Outs rec)"
  shows "u' = map (\<lambda>d. (fst d, undo_of R d)) (AList.update (po_Hash p) (sm[unat (po_Vout p) := True]) deled)"
proof -
  let ?h = "po_Hash p" and ?v = "unat (po_Vout p)"
  have cnt: "unat (to_VoutCount tout) = length (ur_Outs rec)"
    using t l by (auto simp: lookup_Some unsigned_of_nat take_bit_nat_eq_self)
  have none: "map2 (\<lambda>s r. if s then r else None) (replicate n False) outs = replicate n None" if "n = length outs" for n and outs :: "utxo_out option list"
    by (rule nth_equalityI) (simp_all add: that)
  obtain x where x: "ur_Outs rec ! ?v = Some x" "?v < length (ur_Outs rec)" "to_Value tout = uo_Value x" "to_Pk_script tout = uo_PKScr x"
    "to_BlockHeight tout = ur_InBlock rec" "to_WasCoinbase tout = ur_Coinbase rec"
    using t by (auto simp: lookup_Some)
  have u: "(case map_of (map (\<lambda>d. (fst d, undo_of R d)) deled) ?h of
              None \<Rightarrow> \<lparr>ur_TxID = ?h, ur_Coinbase = to_WasCoinbase tout, ur_InBlock = to_BlockHeight tout,
                       ur_Outs = replicate (unat (to_VoutCount tout)) None\<rparr>
            | Some r \<Rightarrow> r) = undo_of R (?h, sm)"
    using sm R x by (cases "map_of deled ?h") (auto simp: map_of_map_key undo_of_def del_key_def none cnt)
  have eta: "\<lparr>uo_Value = uo_Value x, uo_PKScr = uo_PKScr x\<rparr> = x" by (cases x) simp
  have "undo_of R (?h, sm[?v := True]) = (undo_of R (?h, sm))\<lparr>ur_Outs := (ur_Outs (undo_of R (?h, sm)))[?v := Some \<lparr>uo_Value = to_Value tout, uo_PKScr = to_Pk_script tout\<rparr>]\<rparr>"
    using R x by (simp add: undo_of_def del_key_def map2_update_left eta)
  then have "u' = AList.update ?h (undo_of R (?h, sm[?v := True])) (map (\<lambda>d. (fst d, undo_of R d)) deled)"
    using m by (auto simp: remember_def Let_def u split: if_splits)
  then show ?thesis by (simp add: update_map_key)
qed

lemma take_out_inv:
  assumes t: "take_out env height p cs = Inr (out, cs')" and env: "env_reads R env" "coins_ok ok R"
    and ids: "\<forall>rec. R (UtxoKey (po_Hash p)) = Some rec \<longrightarrow> ur_TxID rec = po_Hash p" and inv: "dels_inv R cs"
  shows "dels_inv R cs' \<and> (cs_UndoData cs' = None \<longleftrightarrow> cs_UndoData cs = None)"
proof (cases "ce_get env (po_Hash p) (po_Vout p)")
  case None
  then show ?thesis using t inv by (auto simp: take_out_def ok_iff dels_inv_def)
next
  case (Some tout)
  then have d: "take_db_out height tout p cs = Inr cs'" using t by (auto simp: take_out_def ok_iff)
  obtain rec where rec: "R (UtxoKey (po_Hash p)) = Some rec" "lookup_out rec (po_Vout p) = Some tout"
    using Some env(1) by (auto simp: env_reads_def split: option.splits)
  note id = ids [rule_format, OF rec(1)]
  have l: "length (ur_Outs rec) < 2 ^ 32" using env(2) rec(1) by (auto simp: coins_ok_def record_ok_def)
  have old: "distinct (map fst (cs_DeledTxs cs))" "\<forall>d \<in> set (cs_DeledTxs cs). del_fits R d"
    using inv by (auto simp: dels_inv_def)
  note dok = take_db_out_ok [OF d]
  from mark_deleted_fits [OF conjunct1 [OF dok] rec(1) id rec(2) l old] obtain sm where
    dd: "distinct (map fst (cs_DeledTxs cs'))" "\<forall>d \<in> set (cs_DeledTxs cs'). del_fits R d"
      "cs_DeledTxs cs' = AList.update (po_Hash p) (sm[unat (po_Vout p) := True]) (cs_DeledTxs cs)"
      "length sm = length (ur_Outs rec)"
      "case map_of (cs_DeledTxs cs) (po_Hash p) of Some s \<Rightarrow> sm = s | None \<Rightarrow> sm = replicate (length (ur_Outs rec)) False"
    by blast
  show ?thesis
  proof (cases "cs_UndoData cs")
    case None
    then show ?thesis using dok dd by (simp add: dels_inv_def)
  next
    case (Some u)
    then obtain u' where u': "remember tout p u = Inr u'" "cs_UndoData cs' = Some u'" using dok by auto
    have "u = map (\<lambda>d. (fst d, undo_of R d)) (cs_DeledTxs cs)" using inv Some by (simp add: dels_inv_def)
    from remember_fits [OF u'(1) [unfolded this] rec(1) id rec(2) l dd(5,4)] show ?thesis
      using dd u'(2) Some by (simp add: dels_inv_def)
  qed
qed

lemma dels_inv_same:
  "cs_DeledTxs cs' = cs_DeledTxs cs \<Longrightarrow> cs_UndoData cs' = cs_UndoData cs \<Longrightarrow> dels_inv R cs' = dels_inv R cs"
  by (simp add: dels_inv_def)

lemma spend_inputs_inv:
  assumes "spend_inputs env height flags t j ps cs = Inr (touts, tsum, cs')" "env_reads R env" "coins_ok ok R"
    "ids_agree R (prevouts ps)" "dels_inv R cs"
  shows "dels_inv R cs' \<and> (cs_UndoData cs' = None \<longleftrightarrow> cs_UndoData cs = None)"
  using assms
proof (induction ps arbitrary: j cs touts tsum)
  case (Cons p ps)
  from Cons.prems obtain x tout cs1 n touts1 tsum1 where x: "p = Some x"
    and s: "take_out env height (ti_Input x) cs = Inr (tout, cs1)"
    and r: "spend_inputs env height flags t (Suc j) ps (cs1\<lparr>cs_sigops := cs_sigops cs1 + n\<rparr>) = Inr (touts1, tsum1, cs')"
    by (auto simp: ok_iff)
  have ids: "\<forall>rec. R (UtxoKey (po_Hash (ti_Input x))) = Some rec \<longrightarrow> ur_TxID rec = po_Hash (ti_Input x)"
    "ids_agree R (prevouts ps)" using Cons.prems(4) by (auto simp: ids_agree_def x)
  note a = take_out_inv [OF s Cons.prems(2,3) ids(1) Cons.prems(5)]
  have "dels_inv R (cs1\<lparr>cs_sigops := cs_sigops cs1 + n\<rparr>)"
    using a dels_inv_same [of "cs1\<lparr>cs_sigops := cs_sigops cs1 + n\<rparr>" cs1] by simp
  from Cons.IH [OF r Cons.prems(2,3) ids(2) this] a show ?case by simp
qed simp

text \<open>The outputs of the transactions done so far, as far as the block has not spent them.\<close>

definition left_over :: "txout option list \<Rightarrow> txout option list \<Rightarrow> bool" where
  "left_over = list_all2 (\<lambda>r r'. r' = None \<or> r' = r)"

definition block_outs :: "tx list \<Rightarrow> (bytes \<times> txout option list) list \<Rightarrow> bool" where
  "block_outs = list_all2 (\<lambda>t d. fst d = tx_Hash t \<and> left_over (tx_TxOut t) (snd d))"

lemma left_over_refl [simp]: "left_over outs outs"
  by (simp add: left_over_def list.rel_refl)

lemma left_over_update: "left_over outs l \<Longrightarrow> left_over outs (l[v := None])"
  unfolding left_over_def list_all2_conv_all_nth by (metis length_list_update nth_list_update_eq nth_list_update_neq)

lemma block_outs_keys: "block_outs ts bu \<Longrightarrow> map fst bu = map tx_Hash ts"
  unfolding block_outs_def by (induction ts bu rule: list_all2_induct) auto

lemma block_outs_spent:
  "block_outs ts bu \<Longrightarrow> map_of bu h = Some l \<Longrightarrow> block_outs ts (AList.update h (l[v := None]) bu)"
  unfolding block_outs_def by (induction ts bu rule: list_all2_induct) (auto simp: left_over_update split: if_splits)

lemma block_outs_add:
  "block_outs ts bu \<Longrightarrow> tx_Hash t \<notin> tx_Hash ` set ts \<Longrightarrow> block_outs (ts @ [t]) (AList.update (tx_Hash t) (tx_TxOut t) bu)"
  using block_outs_keys [of ts bu] map_fst_update_new [of "tx_Hash t" bu "tx_TxOut t"]
  by (auto simp: block_outs_def list_all2_appendI simp flip: set_map)

lemma block_outs_find:
  "block_outs ts bu \<Longrightarrow> map_of bu h = Some l \<Longrightarrow> \<exists>t \<in> set ts. tx_Hash t = h \<and> left_over (tx_TxOut t) l"
  unfolding block_outs_def by (induction ts bu rule: list_all2_induct) (auto split: if_splits)

lemma block_outs_mem: "block_outs ts bu \<Longrightarrow> (h, l) \<in> set bu \<Longrightarrow> \<exists>t \<in> set ts. h = tx_Hash t \<and> left_over (tx_TxOut t) l"
  unfolding block_outs_def by (induction ts bu rule: list_all2_induct) auto

lemma take_out_block_outs:
  assumes "take_out env height p cs = Inr (out, cs')" "block_outs ts (cs_blUnsp cs)"
  shows "block_outs ts (cs_blUnsp cs')"
proof (cases "ce_get env (po_Hash p) (po_Vout p)")
  case None
  then obtain bu where t: "take_block_out (cs_blUnsp cs) p = Inr (out, bu)" "cs' = cs\<lparr>cs_blUnsp := bu\<rparr>"
    using assms(1) by (auto simp: take_out_def ok_iff)
  with take_block_out_ok [OF t(1)] block_outs_spent [OF assms(2)] show ?thesis by auto
next
  case (Some tout)
  then have "take_db_out height tout p cs = Inr cs'" using assms(1) by (auto simp: take_out_def ok_iff)
  from take_db_out_ok [OF this] assms(2) show ?thesis by simp
qed

lemma spend_inputs_block_outs:
  assumes "spend_inputs env height flags t j ps cs = Inr (touts, tsum, cs')" "block_outs ts (cs_blUnsp cs)"
  shows "block_outs ts (cs_blUnsp cs')"
  using assms
proof (induction ps arbitrary: j cs touts tsum)
  case (Cons p ps)
  from Cons.prems obtain x tout cs1 n touts1 tsum1 where x: "p = Some x"
    and s: "take_out env height (ti_Input x) cs = Inr (tout, cs1)"
    and r: "spend_inputs env height flags t (Suc j) ps (cs1\<lparr>cs_sigops := cs_sigops cs1 + n\<rparr>) = Inr (touts1, tsum1, cs')"
    by (auto simp: ok_iff)
  show ?case by (rule Cons.IH [OF r]) (use take_out_block_outs [OF s Cons.prems(2)] in simp)
qed simp

section \<open>The transactions of the block\<close>

definition cinv :: "coins \<Rightarrow> tx list \<Rightarrow> cstate \<Rightarrow> bool" where
  "cinv R ts cs \<longleftrightarrow> dels_inv R cs \<and> block_outs ts (cs_blUnsp cs)"

lemma commit_tx_inv:
  assumes c: "commit_tx env height flags trusted i t cs = Inr cs'" and env: "env_reads R env" "coins_ok ok R"
    and ids: "i > 0 \<Longrightarrow> ids_agree R (tx_prevouts t)" and inv: "cinv R ts cs" and new: "tx_Hash t \<notin> tx_Hash ` set ts"
  shows "cinv R (ts @ [t]) cs' \<and> (cs_UndoData cs' = None \<longleftrightarrow> cs_UndoData cs = None)"
proof -
  from commit_tx_ok [OF c] obtain k t' txinsum cs1 txoutsum where
    step: "if i > 0 then commit_spends env height flags trusted t (cs\<lparr>cs_sigops := cs_sigops cs + of_nat (4 * k)\<rparr>) = Inr (t', txinsum, cs1) \<and>
        \<not> txoutsum > txinsum
     else commit_coinbase t = Inr () \<and> t' = t \<and> txinsum = 0 \<and> cs1 = cs\<lparr>cs_sigops := cs_sigops cs + of_nat (4 * k)\<rparr>"
    and all: "cs' = cs1\<lparr>cs_in := cs_in cs1 + txinsum, cs_out := cs_out cs1 + txoutsum,
      cs_blUnsp := AList.update (tx_Hash t) (tx_TxOut t) (cs_blUnsp cs1),
      cs_Txs := cs_Txs cs1 @ [if i > 0 then t'\<lparr>tx_Fee := txinsum - txoutsum\<rparr> else t']\<rparr>"
    by (elim exE conjE) (rule that)
  have "dels_inv R cs1 \<and> block_outs ts (cs_blUnsp cs1) \<and> (cs_UndoData cs1 = None \<longleftrightarrow> cs_UndoData cs = None)"
  proof (cases "i > 0")
    case True
    have c: "commit_spends env height flags trusted t (cs\<lparr>cs_sigops := cs_sigops cs + of_nat (4 * k)\<rparr>) = Inr (t', txinsum, cs1)"
      using step unfolding if_P [OF True] by (rule conjunct1)
    from commit_spends_ok [OF c] obtain touts cs0 n where
      s: "spend_inputs env height flags t 0 (tx_TxIn t) (cs\<lparr>cs_sigops := cs_sigops cs + of_nat (4 * k)\<rparr>) = Inr (touts, txinsum, cs0)"
      and cs1: "cs1 = cs0\<lparr>cs_verr := cs_verr cs0 + n\<rparr>"
      by (elim exE conjE) (rule that)
    have "dels_inv R (cs\<lparr>cs_sigops := cs_sigops cs + of_nat (4 * k)\<rparr>)" using inv by (simp add: cinv_def dels_inv_def)
    note a = spend_inputs_inv [OF s env ids [OF True] this]
    have "block_outs ts (cs_blUnsp cs0)" by (rule spend_inputs_block_outs [OF s]) (use inv in \<open>simp add: cinv_def\<close>)
    then show ?thesis using a by (simp add: cs1 dels_inv_def)
  next
    case False
    then have "cs1 = cs\<lparr>cs_sigops := cs_sigops cs + of_nat (4 * k)\<rparr>" using step by simp
    then show ?thesis using inv by (simp add: cinv_def dels_inv_def)
  qed
  then show ?thesis using block_outs_add [OF _ new] by (simp add: all cinv_def dels_inv_def)
qed

text \<open>The transactions of a list; the inputs of all but the first of the block.\<close>

definition the_txs :: "tx option list \<Rightarrow> tx list" where
  "the_txs ps = concat (map (\<lambda>p. case p of None \<Rightarrow> [] | Some t \<Rightarrow> [t]) ps)"

lemma the_txs_simps [simp]: "the_txs [] = []" "the_txs (Some t # ps) = t # the_txs ps" "the_txs (None # ps) = the_txs ps"
  by (simp_all add: the_txs_def)

lemma hashes_of_the_txs: "hashes_of ps = map tx_Hash (the_txs ps)"
proof (induction ps)
  case (Cons p ps)
  then show ?case by (cases p) simp_all
qed simp

lemma commit_all_inv:
  assumes "commit_all env height flags trusted i ps cs = Inr cs'" "env_reads R env" "coins_ok ok R"
    "ids_agree R (spent_by i ps)" "cinv R ts cs" "distinct (map tx_Hash (ts @ the_txs ps))"
  shows "cinv R (ts @ the_txs ps) cs' \<and> (cs_UndoData cs' = None \<longleftrightarrow> cs_UndoData cs = None) \<and> None \<notin> set ps"
  using assms
proof (induction ps arbitrary: i cs ts)
  case (Cons p ps)
  from Cons.prems(1) obtain t cs1 where p: "p = Some t" and c: "commit_tx env height flags trusted i t cs = Inr cs1"
    and r: "commit_all env height flags trusted (Suc i) ps cs1 = Inr cs'" by (auto simp: ok_iff)
  have ids: "i > 0 \<Longrightarrow> ids_agree R (tx_prevouts t)" "ids_agree R (spent_by (Suc i) ps)"
    using Cons.prems(4) by (auto simp: p ids_agree_def)
  have "tx_Hash t \<notin> tx_Hash ` set ts" using Cons.prems(6) by (auto simp: p)
  note a = commit_tx_inv [OF c Cons.prems(2,3) ids(1) Cons.prems(5) this]
  have "cinv R ((ts @ [t]) @ the_txs ps) cs' \<and> (cs_UndoData cs' = None \<longleftrightarrow> cs_UndoData cs1 = None) \<and> None \<notin> set ps"
    by (rule Cons.IH [OF r Cons.prems(2,3) ids(2)]) (use a Cons.prems(6) p in simp_all)
  with a show ?case by (simp add: p)
qed simp

section \<open>The changes fit\<close>

text \<open>
  A block whose new identifiers are free in the database, differ in their first eight bytes, and whose outputs the
  database's format can store.
\<close>

definition block_fits :: "(utxo_out \<Rightarrow> bool) \<Rightarrow> coins \<Rightarrow> tx option list \<Rightarrow> bool" where
  "block_fits ok R ps \<longleftrightarrow> ids_agree R (spent_by 0 ps) \<and> distinct (map (\<lambda>t. UtxoKey (tx_Hash t)) (the_txs ps)) \<and>
     (\<forall>t \<in> set (the_txs ps). length (tx_Hash t) = 32 \<and> R (UtxoKey (tx_Hash t)) = None \<and> length (tx_TxOut t) < 2 ^ 32 \<and>
        (\<forall>x. Some x \<in> set (tx_TxOut t) \<longrightarrow> ok \<lparr>uo_Value = to_Value x, uo_PKScr = to_Pk_script x\<rparr>))"

definition tx_ids :: "tx option list \<Rightarrow> (bytes \<times> nat) list" where
  "tx_ids ps = map (\<lambda>t. (tx_Hash t, length (tx_TxOut t))) (the_txs ps)"

lemma add_record_ok:
  assumes "add_record height (k, v) = Some rec"
  shows "ur_TxID rec = k \<and> ur_Outs rec = map (map_option (\<lambda>x. \<lparr>uo_Value = to_Value x, uo_PKScr = to_Pk_script x\<rparr>)) v \<and>
    (\<exists>r \<in> set (ur_Outs rec). r \<noteq> None)"
proof -
  from assms obtain out r where f: "filter (\<lambda>r. r \<noteq> None) v = Some out # r"
    and rec: "rec = \<lparr>ur_TxID = k, ur_Coinbase = to_WasCoinbase out, ur_InBlock = height,
           ur_Outs = map (map_option (\<lambda>x. \<lparr>uo_Value = to_Value x, uo_PKScr = to_Pk_script x\<rparr>)) v\<rparr>"
    by (auto simp: add_record_def split: list.splits option.splits)
  from f have "Some out \<in> set v" using mem_Collect_eq set_filter [of "\<lambda>r. r \<noteq> None" v] by auto
  then show ?thesis by (force simp: rec)
qed

lemma left_over_mem: "left_over outs l \<Longrightarrow> Some x \<in> set l \<Longrightarrow> Some x \<in> set outs"
  unfolding left_over_def by (induction outs l rule: list_all2_induct) auto

lemma del_fits_key: "del_fits R d \<Longrightarrow> rec_key (undo_of R d) = del_key d"
  by (auto simp: del_fits_def rec_key_def undo_of_def del_key_def)

lemma dels_distinct:
  assumes "distinct (map fst dels)" "\<forall>d \<in> set dels. del_fits R d"
  shows "distinct (map del_key dels)"
proof -
  have "inj_on del_key (set dels)"
  proof (rule inj_onI)
    fix d d' assume dd: "d \<in> set dels" "d' \<in> set dels" "del_key d = del_key d'"
    obtain rec rec' where "R (del_key d) = Some rec" "ur_TxID rec = fst d" "R (del_key d') = Some rec'" "ur_TxID rec' = fst d'"
      using assms(2) dd unfolding del_fits_def by blast
    then have "fst d = fst d'" using dd(3) by simp
    then show "d = d'" using assms(1) dd(1,2) by (auto simp: distinct_map inj_on_def)
  qed
  then show ?thesis using assms(1) by (simp add: distinct_map)
qed

lemma adds_fit:
  assumes bo: "block_outs ts bu" and ts: "distinct (map (\<lambda>t. UtxoKey (tx_Hash t)) ts)"
      "\<forall>t \<in> set ts. length (tx_Hash t) = 32 \<and> R (UtxoKey (tx_Hash t)) = None \<and> length (tx_TxOut t) < 2 ^ 32 \<and>
        (\<forall>x. Some x \<in> set (tx_TxOut t) \<longrightarrow> ok \<lparr>uo_Value = to_Value x, uo_PKScr = to_Pk_script x\<rparr>)"
    and adds: "adds = List.map_filter (add_record height) bu"
  shows "distinct (map rec_key adds) \<and>
    (\<forall>rec \<in> set adds. record_ok ok rec \<and> R (rec_key rec) = None \<and>
       (\<exists>t \<in> set ts. rec_key rec = UtxoKey (tx_Hash t) \<and> length (ur_Outs rec) = length (tx_TxOut t)))"
proof
  have keys: "map rec_key adds = map (\<lambda>d. UtxoKey (fst d)) (filter (\<lambda>d. add_record height d \<noteq> None) bu)"
    unfolding adds List.map_filter_def using add_record_ok by (auto simp: rec_key_def)
  have "map (\<lambda>d. UtxoKey (fst d)) bu = map (\<lambda>t. UtxoKey (tx_Hash t)) ts"
    using arg_cong [OF block_outs_keys [OF bo], of "map UtxoKey"] by (simp add: comp_def)
  then have "distinct (map (\<lambda>d. UtxoKey (fst d)) bu)" using ts(1) by simp
  then show "distinct (map rec_key adds)" unfolding keys by (rule distinct_map_filter)
next
  show "\<forall>rec \<in> set adds. record_ok ok rec \<and> R (rec_key rec) = None \<and>
       (\<exists>t \<in> set ts. rec_key rec = UtxoKey (tx_Hash t) \<and> length (ur_Outs rec) = length (tx_TxOut t))"
  proof
    fix rec assume "rec \<in> set adds"
    then obtain k v where kv: "(k, v) \<in> set bu" "add_record height (k, v) = Some rec"
      unfolding adds List.map_filter_def by auto
    note r = add_record_ok [OF kv(2)]
    from block_outs_mem [OF bo kv(1)] obtain t where t: "t \<in> set ts" "k = tx_Hash t" "left_over (tx_TxOut t) v" by blast
    have len: "length v = length (tx_TxOut t)" using t(3) by (simp add: left_over_def list_all2_lengthD)
    have "outs_ok ok (ur_Outs rec)"
      unfolding outs_ok_def
    proof (intro allI impI)
      fix x assume "Some x \<in> set (ur_Outs rec)"
      then obtain q where "q \<in> set v" "map_option (\<lambda>x. \<lparr>uo_Value = to_Value x, uo_PKScr = to_Pk_script x\<rparr>) q = Some x"
        unfolding conjunct1 [OF conjunct2 [OF r]] set_map image_iff by (elim bexE) (rule that, assumption, erule sym)
      then obtain y where "Some y \<in> set v" "x = \<lparr>uo_Value = to_Value y, uo_PKScr = to_Pk_script y\<rparr>" by (cases q) auto
      then show "ok x" using left_over_mem [OF t(3)] ts(2) t(1) by blast
    qed
    moreover have "length (ur_Outs rec) = length v" using r by simp
    ultimately have "record_ok ok rec" unfolding record_ok_def using conjunct2 [OF conjunct2 [OF r]] conjunct1 [OF r] ts(2) t len by metis
    then show "record_ok ok rec \<and> R (rec_key rec) = None \<and>
       (\<exists>t \<in> set ts. rec_key rec = UtxoKey (tx_Hash t) \<and> length (ur_Outs rec) = length (tx_TxOut t))"
      using r ts(2) t len by (auto simp: rec_key_def)
  qed
qed

lemma commitTxs_fits:
  assumes c: "commitTxs env bl height lknown = Inr (sigops, ch, ts')" and env: "env_reads R env" "coins_ok ok R"
    and fit: "block_fits ok R (txs_of bl)"
  shows "changes_fit ok R (bc_AddList ch) (bc_DeledTxs ch) \<and> txs_fit R (bc_AddList ch) (tx_ids (txs_of bl)) \<and>
    bc_Height ch = height \<and>
    (if height + ce_UnwindBufLen env \<ge> lknown then \<exists>us. bc_UndoData ch = Some us \<and> undo_matches R (bc_DeledTxs ch) us
     else bc_UndoData ch = None)"
proof -
  let ?ts = "the_txs (txs_of bl)"
  from c obtain cs where cs: "commit_all env height (bl_VerifyFlags bl) (bl_Trusted bl) 0 (txs_of bl) (commit_start env height lknown) = Inr cs"
    and ch: "ch = \<lparr>bc_Height = height, bc_LastKnownHeight = lknown, bc_AddList = List.map_filter (add_record height) (cs_blUnsp cs),
        bc_DeledTxs = cs_DeledTxs cs, bc_UndoData = map_option (map snd) (cs_UndoData cs)\<rparr>"
    by (auto simp: commitTxs_def ok_iff split: if_splits)
  have d: "distinct (map tx_Hash ?ts)"
    using fit unfolding block_fits_def by (metis (no_types, lifting) distinct_map inj_on_def)
  have start: "cinv R [] (commit_start env height lknown)"
    by (simp add: cinv_def dels_inv_def commit_start_def block_outs_def)
  have ids: "ids_agree R (spent_by 0 (txs_of bl))" using fit by (simp add: block_fits_def)
  from commit_all_inv [OF cs env ids start] d have inv: "cinv R ?ts cs" "cs_UndoData cs = None \<longleftrightarrow> \<not> height + ce_UnwindBufLen env \<ge> lknown"
    by (auto simp: commit_start_def)
  have dels: "distinct (map fst (bc_DeledTxs ch))" "\<forall>d \<in> set (bc_DeledTxs ch). del_fits R d"
    using inv by (auto simp: ch cinv_def dels_inv_def)
  have adds: "distinct (map rec_key (bc_AddList ch)) \<and>
    (\<forall>rec \<in> set (bc_AddList ch). record_ok ok rec \<and> R (rec_key rec) = None \<and>
       (\<exists>t \<in> set ?ts. rec_key rec = UtxoKey (tx_Hash t) \<and> length (ur_Outs rec) = length (tx_TxOut t)))"
    by (rule adds_fit [of _ "cs_blUnsp cs"]) (use inv fit in \<open>simp_all add: cinv_def block_fits_def ch\<close>)
  have "changes_fit ok R (bc_AddList ch) (bc_DeledTxs ch)"
    using adds dels(2) dels_distinct [OF dels] unfolding changes_fit_def by (auto simp: del_fits_def)
  moreover have "txs_fit R (bc_AddList ch) (tx_ids (txs_of bl))"
  proof -
    have dk: "map del_key (tx_ids (txs_of bl)) = map (\<lambda>t. UtxoKey (tx_Hash t)) ?ts" by (simp add: tx_ids_def del_key_def)
    have inj: "t = t'" if "t \<in> set ?ts" "t' \<in> set ?ts" "UtxoKey (tx_Hash t) = UtxoKey (tx_Hash t')" for t t'
      using fit that by (auto simp: block_fits_def distinct_map inj_on_def)
    show ?thesis
      unfolding txs_fit_def dk using adds fit inj by (auto simp: block_fits_def tx_ids_def del_key_def) metis+
  qed
  moreover have "undo_matches R (bc_DeledTxs ch) us" if "bc_UndoData ch = Some us" for us
  proof -
    have us: "us = map (undo_of R) (bc_DeledTxs ch)" using that inv by (auto simp: ch cinv_def dels_inv_def)
    have "map rec_key us = map del_key (bc_DeledTxs ch)" using dels(2) del_fits_key by (auto simp: us)
    then have "distinct (map rec_key us)" using dels_distinct [OF dels] by simp
    then show ?thesis by (simp add: undo_matches_def us)
  qed
  ultimately show ?thesis using inv(2) by (auto simp: ch)
qed

section \<open>Connecting a block and disconnecting it\<close>

context utxo_store begin

lemma connect_disconnect:
  assumes R: "coins_ok ok R" "ud_Map db = S R" and reads: "\<forall>h v. UnspentGet (uc_fmt cfg) (ud_Map db) h v = Some (Inr (ce_get env h v))"
    and c: "commitTxs env bl height lknown = Inr (sigops, ch, ts)" and fit: "block_fits ok R (txs_of bl)"
    and undo: "height + ce_UnwindBufLen env \<ge> lknown"
      "\<forall>us. bc_UndoData ch = Some us \<longrightarrow> (\<forall>u \<in> set us. 32 + length (rec_bytes (uc_fmt cfg) u) \<le> 0x100000)"
    and misc: "length blhash = 32" "ud_UnwindBufLen db \<noteq> 0"
  shows "\<exists>db1 db2. CommitBlockTxs cfg db ch blhash = Some (Inr db1) \<and>
      ud_Map db1 = S (coins_commit (bc_AddList ch) (bc_DeledTxs ch) R) \<and> ud_LastBlockHeight db1 = height \<and>
      UndoBlockTxs cfg db1 (tx_ids (txs_of bl)) prev = Some (Inr db2) \<and> ud_Map db2 = ud_Map db \<and>
      ud_LastBlockHeight db2 = height - 1 \<and> ud_LastBlockHash db2 = Some prev"
proof -
  have env: "env_reads R env" using reads UnspentGet_coins [OF R(1)] by (simp add: R(2) env_reads_def)
  note f = commitTxs_fits [OF c env R(1) fit]
  from f undo(1) obtain us where us: "bc_UndoData ch = Some us" "undo_matches R (bc_DeledTxs ch) us" by auto
  have "bc_Height ch = height" using f by blast
  with Undo_Commit [OF R conjunct1 [OF f] us undo(2) [rule_format, OF us(1), THEN ballI] conjunct1 [OF conjunct2 [OF f]] misc, of prev]
  show ?thesis by simp
qed

end

end
