(* ===== verification/ChainTxValue.thy ===== *)
theory ChainTxValue
  imports ChainTxFit
begin

text \<open>
  What a block creates is covered by the subsidy and by what it spends, as long as the outputs themselves do not add
  up to \<open>2 ^ 64\<close>; the code adds them in 64 bits and compares none with a maximum, and two outputs of \<open>2 ^ 63\<close> pass.
\<close>

section \<open>Values\<close>

definition outs_total :: "txout option list \<Rightarrow> nat" where
  "outs_total outs = (\<Sum>r\<leftarrow>outs. case r of Some out \<Rightarrow> unat (to_Value out) | None \<Rightarrow> 0)"

text \<open>The value of the output a previous output names: of the database, or of a transaction of the block.\<close>

definition out_value :: "chain_env \<Rightarrow> tx list \<Rightarrow> txprevout \<Rightarrow> nat" where
  "out_value env ts p =
     (case ce_get env (po_Hash p) (po_Vout p) of
        Some out \<Rightarrow> unat (to_Value out)
      | None \<Rightarrow> (case find (\<lambda>t. tx_Hash t = po_Hash p) ts of
            Some t \<Rightarrow> (case tx_TxOut t ! unat (po_Vout p) of Some out \<Rightarrow> unat (to_Value out) | None \<Rightarrow> 0)
          | None \<Rightarrow> 0))"

lemma unat_add_le: "unat (a + b :: u64) \<le> unat a + unat b"
  by (simp add: unat_word_ariths)

lemma find_hash: "distinct (map tx_Hash ts) \<Longrightarrow> t \<in> set ts \<Longrightarrow> find (\<lambda>x. tx_Hash x = tx_Hash t) ts = Some t"
  by (induction ts) (auto simp: image_iff)

lemma sum_values_total: "sum_values outs = Inr x \<Longrightarrow> x = of_nat (outs_total outs)"
  by (induction outs arbitrary: x) (auto simp: outs_total_def ok_iff split: option.splits)

lemma take_out_value:
  assumes t: "take_out env height p cs = Inr (out, cs')" and bo: "block_outs done (cs_blUnsp cs)"
    and all: "set done \<subseteq> set ts" "distinct (map tx_Hash ts)"
  shows "unat (to_Value out) = out_value env ts p"
proof (cases "ce_get env (po_Hash p) (po_Vout p)")
  case None
  then obtain bu where "take_block_out (cs_blUnsp cs) p = Inr (out, bu)" using t by (auto simp: take_out_def ok_iff)
  from take_block_out_ok [OF this] obtain l where l: "map_of (cs_blUnsp cs) (po_Hash p) = Some l" "unat (po_Vout p) < length l"
    "l ! unat (po_Vout p) = Some out" by blast
  from block_outs_find [OF bo l(1)] obtain t where t: "t \<in> set done" "tx_Hash t = po_Hash p" "left_over (tx_TxOut t) l" by blast
  have "find (\<lambda>x. tx_Hash x = po_Hash p) ts = Some t" using find_hash [OF all(2), of t] t(1,2) all(1) by auto
  moreover have "tx_TxOut t ! unat (po_Vout p) = Some out"
    using t(3) l(2,3) by (auto simp: left_over_def list_all2_conv_all_nth)
  ultimately show ?thesis using None by (simp add: out_value_def)
next
  case (Some tout)
  then show ?thesis using t by (auto simp: take_out_def ok_iff out_value_def)
qed

lemma spend_inputs_value:
  assumes "spend_inputs env height flags t j ps cs = Inr (touts, tsum, cs')" "block_outs done (cs_blUnsp cs)"
    "set done \<subseteq> set ts" "distinct (map tx_Hash ts)"
  shows "unat tsum \<le> (\<Sum>p\<leftarrow>prevouts ps. out_value env ts p) \<and> cs_in cs' = cs_in cs \<and> cs_out cs' = cs_out cs"
  using assms
proof (induction ps arbitrary: j cs touts tsum)
  case (Cons p ps)
  from Cons.prems(1) obtain x tout cs1 n touts1 tsum1 where x: "p = Some x"
    and s: "take_out env height (ti_Input x) cs = Inr (tout, cs1)"
    and r: "spend_inputs env height flags t (Suc j) ps (cs1\<lparr>cs_sigops := cs_sigops cs1 + n\<rparr>) = Inr (touts1, tsum1, cs')"
    and sum: "tsum = to_Value tout + tsum1"
    by (auto simp: ok_iff)
  have bo: "block_outs done (cs_blUnsp (cs1\<lparr>cs_sigops := cs_sigops cs1 + n\<rparr>))"
    using take_out_block_outs [OF s Cons.prems(2)] by simp
  have same: "cs_in cs1 = cs_in cs" "cs_out cs1 = cs_out cs"
  proof (atomize (full), cases "ce_get env (po_Hash (ti_Input x)) (po_Vout (ti_Input x))")
    case (Some tout)
    then have "take_db_out height tout (ti_Input x) cs = Inr cs1" using s by (auto simp: take_out_def ok_iff)
    from take_db_out_ok [OF this] show "cs_in cs1 = cs_in cs \<and> cs_out cs1 = cs_out cs" by simp
  qed (use s in \<open>auto simp: take_out_def ok_iff\<close>)
  note ih = Cons.IH [OF r bo Cons.prems(3,4)]
  have "unat tsum \<le> unat (to_Value tout) + unat tsum1" unfolding sum by (rule unat_add_le)
  also have "\<dots> \<le> out_value env ts (ti_Input x) + (\<Sum>p\<leftarrow>prevouts ps. out_value env ts p)"
    using take_out_value [OF s Cons.prems(2-4)] ih by simp
  finally show ?case using ih same by (simp add: x)
qed simp

lemma commit_tx_value:
  assumes c: "commit_tx env height flags trusted i t cs = Inr cs'" and bo: "block_outs done (cs_blUnsp cs)"
    and all: "set done \<subseteq> set ts" "distinct (map tx_Hash ts)" "tx_Hash t \<notin> tx_Hash ` set done"
  shows "unat (cs_in cs') \<le> unat (cs_in cs) + (if i > 0 then \<Sum>p\<leftarrow>tx_prevouts t. out_value env ts p else 0) \<and>
    cs_out cs' = cs_out cs + of_nat (outs_total (tx_TxOut t)) \<and> block_outs (done @ [t]) (cs_blUnsp cs') \<and>
    (i > 0 \<longrightarrow> outs_total (tx_TxOut t) < 2 ^ 64 \<longrightarrow> outs_total (tx_TxOut t) \<le> (\<Sum>p\<leftarrow>tx_prevouts t. out_value env ts p))"
proof -
  from commit_tx_ok [OF c] obtain k t' txinsum cs1 txoutsum where
    step: "if i > 0 then commit_spends env height flags trusted t (cs\<lparr>cs_sigops := cs_sigops cs + of_nat (4 * k)\<rparr>) = Inr (t', txinsum, cs1) \<and>
        \<not> txoutsum > txinsum
     else commit_coinbase t = Inr () \<and> t' = t \<and> txinsum = 0 \<and> cs1 = cs\<lparr>cs_sigops := cs_sigops cs + of_nat (4 * k)\<rparr>"
    and sum: "sum_values (tx_TxOut t) = Inr txoutsum"
    and upd: "cs' = cs1\<lparr>cs_in := cs_in cs1 + txinsum, cs_out := cs_out cs1 + txoutsum,
      cs_blUnsp := AList.update (tx_Hash t) (tx_TxOut t) (cs_blUnsp cs1),
      cs_Txs := cs_Txs cs1 @ [if i > 0 then t'\<lparr>tx_Fee := txinsum - txoutsum\<rparr> else t']\<rparr>"
    by (elim exE conjE) (rule that)
  note out = sum_values_total [OF sum]
  show ?thesis
  proof (cases "i > 0")
    case True
    have c: "commit_spends env height flags trusted t (cs\<lparr>cs_sigops := cs_sigops cs + of_nat (4 * k)\<rparr>) = Inr (t', txinsum, cs1)"
      and le: "\<not> txoutsum > txinsum"
      using step unfolding if_P [OF True] by blast+
    from commit_spends_ok [OF c] obtain touts cs0 n where
      s: "spend_inputs env height flags t 0 (tx_TxIn t) (cs\<lparr>cs_sigops := cs_sigops cs + of_nat (4 * k)\<rparr>) = Inr (touts, txinsum, cs0)"
      and cs1: "cs1 = cs0\<lparr>cs_verr := cs_verr cs0 + n\<rparr>"
      by (elim exE conjE) (rule that)
    have bo': "block_outs done (cs_blUnsp (cs\<lparr>cs_sigops := cs_sigops cs + of_nat (4 * k)\<rparr>))" using bo by simp
    note v = spend_inputs_value [OF s bo' all(1,2)]
    have "unat (cs_in cs + txinsum) \<le> unat (cs_in cs) + unat txinsum" by (rule unat_add_le)
    then have "unat (cs_in cs') \<le> unat (cs_in cs) + (\<Sum>p\<leftarrow>tx_prevouts t. out_value env ts p)"
      using v by (simp add: upd cs1)
    moreover have "cs_out cs' = cs_out cs + of_nat (outs_total (tx_TxOut t))" using v by (simp add: upd cs1 out)
    moreover have "block_outs (done @ [t]) (cs_blUnsp cs')"
      using block_outs_add [OF spend_inputs_block_outs [OF s bo'] all(3)] by (simp add: upd cs1)
    moreover have "outs_total (tx_TxOut t) \<le> (\<Sum>p\<leftarrow>tx_prevouts t. out_value env ts p)" if "outs_total (tx_TxOut t) < 2 ^ 64"
    proof -
      have "unat txoutsum = outs_total (tx_TxOut t)" using that by (simp add: out unsigned_of_nat take_bit_nat_eq_self)
      then show ?thesis using le v by (simp add: word_le_nat_alt not_less)
    qed
    ultimately show ?thesis using True by simp
  next
    case False
    then have "cs1 = cs\<lparr>cs_sigops := cs_sigops cs + of_nat (4 * k)\<rparr>" "txinsum = 0" using step by simp_all
    then show ?thesis using False block_outs_add [OF bo all(3)] by (simp add: upd out)
  qed
qed

lemma commit_all_value:
  assumes "commit_all env height flags trusted i ps cs = Inr cs'" "block_outs done (cs_blUnsp cs)"
    "done @ the_txs ps = ts" "distinct (map tx_Hash ts)"
  shows "unat (cs_in cs') \<le> unat (cs_in cs) + (\<Sum>p\<leftarrow>spent_by i ps. out_value env ts p) \<and>
    cs_out cs' = cs_out cs + of_nat (\<Sum>t\<leftarrow>the_txs ps. outs_total (tx_TxOut t))"
  using assms
proof (induction ps arbitrary: i cs "done")
  case (Cons p ps)
  from Cons.prems(1) obtain t cs1 where p: "p = Some t" and c: "commit_tx env height flags trusted i t cs = Inr cs1"
    and r: "commit_all env height flags trusted (Suc i) ps cs1 = Inr cs'" by (auto simp: ok_iff)
  have new: "tx_Hash t \<notin> tx_Hash ` set done" using Cons.prems(3,4) by (auto simp: p)
  have sub: "set done \<subseteq> set ts" using Cons.prems(3) by auto
  note v = commit_tx_value [OF c Cons.prems(2) sub Cons.prems(4) new]
  have "(done @ [t]) @ the_txs ps = ts" using Cons.prems(3) by (simp add: p)
  from Cons.IH [OF r _ this Cons.prems(4)] v show ?case by (simp add: p split: if_splits)
qed simp

text \<open>The block creates no value, provided its outputs do not add up to more than 64 bits can hold.\<close>

lemma commitTxs_value:
  assumes c: "commitTxs env bl height lknown = Inr r" and d: "distinct (hashes_of (txs_of bl))"
    and small: "(\<Sum>t\<leftarrow>the_txs (txs_of bl). outs_total (tx_TxOut t)) < 2 ^ 64"
  shows "(\<Sum>t\<leftarrow>the_txs (txs_of bl). outs_total (tx_TxOut t))
    \<le> unat (GetBlockReward height) + (\<Sum>p\<leftarrow>spent_by 0 (txs_of bl). out_value env (the_txs (txs_of bl)) p)"
proof -
  from c obtain cs where cs: "commit_all env height (bl_VerifyFlags bl) (bl_Trusted bl) 0 (txs_of bl) (commit_start env height lknown) = Inr cs"
    and le: "\<not> cs_in cs < cs_out cs"
    by (auto simp: commitTxs_def ok_iff split: if_splits)
  have "block_outs [] (cs_blUnsp (commit_start env height lknown))" by (simp add: block_outs_def commit_start_def)
  from commit_all_value [OF cs this] d have v: "unat (cs_in cs) \<le> unat (GetBlockReward height) + (\<Sum>p\<leftarrow>spent_by 0 (txs_of bl). out_value env (the_txs (txs_of bl)) p)"
    "cs_out cs = of_nat (\<Sum>t\<leftarrow>the_txs (txs_of bl). outs_total (tx_TxOut t))"
    by (auto simp: hashes_of_the_txs commit_start_def)
  have "unat (cs_out cs) = (\<Sum>t\<leftarrow>the_txs (txs_of bl). outs_total (tx_TxOut t))"
    unfolding v(2) using small by (simp add: unsigned_of_nat take_bit_nat_eq_self)
  then show ?thesis using v(1) le by (simp add: word_less_nat_alt)
qed

end
