(* ===== verification/ChainLedger.thy ===== *)
theory ChainLedger
  imports ChainTxValue
begin

text \<open>
  The ledger a block stands for: the coins after a block are those before it and the outputs of its transactions,
  less the outputs its inputs name. Connecting a block does exactly that to the database.
\<close>

section \<open>Nothing else is spent\<close>

lemma spent_unchanged [simp]:
  "spent env (cs\<lparr>cs_sigops := n\<rparr>) q = spent env cs q" "spent env (cs\<lparr>cs_verr := m\<rparr>) q = spent env cs q"
  by (simp_all add: spent_def)

lemma take_out_only:
  assumes "take_out env height p cs = Inr (out, cs')" "spent env cs' q"
  shows "spent env cs q \<or> q = p"
proof (cases "ce_get env (po_Hash p) (po_Vout p)")
  case None
  then obtain bu where t: "take_block_out (cs_blUnsp cs) p = Inr (out, bu)" "cs' = cs\<lparr>cs_blUnsp := bu\<rparr>"
    using assms(1) by (auto simp: take_out_def ok_iff)
  from take_block_out_ok [OF t(1)] obtain l where l: "map_of (cs_blUnsp cs) (po_Hash p) = Some l" "unat (po_Vout p) < length l"
    "map_of bu = (map_of (cs_blUnsp cs))(po_Hash p \<mapsto> l[unat (po_Vout p) := None])"
    by (auto simp: update_conv')
  show ?thesis
  proof (cases "po_Hash q = po_Hash p \<and> po_Vout q \<noteq> po_Vout p")
    case True
    then have "unat (po_Vout q) \<noteq> unat (po_Vout p)" by (simp add: word_unat_eq_iff)
    then show ?thesis using assms(2) t(2) l True by (auto simp: spent_def split: if_splits)
  next
    case False
    then show ?thesis using assms(2) t(2) l by (auto simp: spent_def split: if_splits)
  qed
next
  case (Some tout)
  then have "take_db_out height tout p cs = Inr cs'" using assms(1) by (auto simp: take_out_def ok_iff)
  note d = take_db_out_ok [OF this]
  from mark_deleted_ok [of tout p "cs_DeledTxs cs" "cs_DeledTxs cs'"] d obtain sm where
    sm: "map_of (cs_DeledTxs cs') = (map_of (cs_DeledTxs cs))(po_Hash p \<mapsto> sm[unat (po_Vout p) := True])"
    "case map_of (cs_DeledTxs cs) (po_Hash p) of Some s \<Rightarrow> sm = s | None \<Rightarrow> sm = replicate (unat (to_VoutCount tout)) False" by blast
  show ?thesis
  proof (cases "po_Hash q = po_Hash p \<and> po_Vout q \<noteq> po_Vout p")
    case True
    then have "unat (po_Vout q) \<noteq> unat (po_Vout p)" by (simp add: word_unat_eq_iff)
    then show ?thesis using assms(2) d sm True by (auto simp: spent_def split: if_splits option.splits)
  next
    case False
    then show ?thesis using assms(2) d sm by (auto simp: spent_def split: if_splits)
  qed
qed

lemma spend_inputs_only:
  assumes "spend_inputs env height flags t j ps cs = Inr (touts, tsum, cs')" "spent env cs' q"
  shows "spent env cs q \<or> q \<in> set (prevouts ps)"
  using assms
proof (induction ps arbitrary: j cs touts tsum)
  case (Cons p ps)
  from Cons.prems(1) obtain x tout cs1 n touts1 tsum1 where x: "p = Some x"
    and s: "take_out env height (ti_Input x) cs = Inr (tout, cs1)"
    and r: "spend_inputs env height flags t (Suc j) ps (cs1\<lparr>cs_sigops := cs_sigops cs1 + n\<rparr>) = Inr (touts1, tsum1, cs')"
    by (auto simp: ok_iff)
  have "spent env (cs1\<lparr>cs_sigops := cs_sigops cs1 + n\<rparr>) q = spent env cs1 q" by (simp add: spent_def)
  with Cons.IH [OF r Cons.prems(2)] take_out_only [OF s] show ?case by (auto simp: x)
qed simp

lemma sum_values_some: "sum_values outs = Inr x \<Longrightarrow> None \<notin> set outs"
  by (induction outs arbitrary: x) (auto simp: ok_iff)

lemma commit_tx_only:
  assumes c: "commit_tx env height flags trusted i t cs = Inr cs'" and new: "tx_Hash t \<notin> dom (map_of (cs_blUnsp cs))"
    and q: "spent env cs' q"
  shows "(spent env cs q \<or> i > 0 \<and> q \<in> set (tx_prevouts t)) \<and> None \<notin> set (tx_TxOut t)"
proof -
  from commit_tx_ok [OF c] obtain k t' txinsum cs1 txoutsum where
    step: "if i > 0 then commit_spends env height flags trusted t (cs\<lparr>cs_sigops := cs_sigops cs + of_nat (4 * k)\<rparr>) = Inr (t', txinsum, cs1) \<and>
        \<not> txoutsum > txinsum
     else commit_coinbase t = Inr () \<and> t' = t \<and> txinsum = 0 \<and> cs1 = cs\<lparr>cs_sigops := cs_sigops cs + of_nat (4 * k)\<rparr>"
    and sum: "sum_values (tx_TxOut t) = Inr txoutsum"
    and upd: "cs' = cs1\<lparr>cs_in := cs_in cs1 + txinsum, cs_out := cs_out cs1 + txoutsum,
      cs_blUnsp := AList.update (tx_Hash t) (tx_TxOut t) (cs_blUnsp cs1),
      cs_Txs := cs_Txs cs1 @ [if i > 0 then t'\<lparr>tx_Fee := txinsum - txoutsum\<rparr> else t']\<rparr>"
    by (elim exE conjE) (rule that)
  note some = sum_values_some [OF sum]
  have "j < length (tx_TxOut t) \<Longrightarrow> tx_TxOut t ! j = None \<Longrightarrow> False" for j
    using some by (metis nth_mem)
  then have q1: "spent env cs1 q"
    using q by (auto simp: spent_def upd update_conv' split: if_splits)
  show ?thesis
  proof (cases "i > 0")
    case True
    have c: "commit_spends env height flags trusted t (cs\<lparr>cs_sigops := cs_sigops cs + of_nat (4 * k)\<rparr>) = Inr (t', txinsum, cs1)"
      using step unfolding if_P [OF True] by (rule conjunct1)
    from commit_spends_ok [OF c] obtain touts cs0 n where
      s: "spend_inputs env height flags t 0 (tx_TxIn t) (cs\<lparr>cs_sigops := cs_sigops cs + of_nat (4 * k)\<rparr>) = Inr (touts, txinsum, cs0)"
      and cs1: "cs1 = cs0\<lparr>cs_verr := cs_verr cs0 + n\<rparr>"
      by (elim exE conjE) (rule that)
    have "spent env cs0 q" using q1 by (simp add: cs1)
    from spend_inputs_only [OF s this] show ?thesis using True some by simp
  next
    case False
    then have "cs1 = cs\<lparr>cs_sigops := cs_sigops cs + of_nat (4 * k)\<rparr>" using step by simp
    then show ?thesis using q1 some by simp
  qed
qed

lemma commit_all_only:
  assumes "commit_all env height flags trusted i ps cs = Inr cs'" "distinct (hashes_of ps)"
    "set (hashes_of ps) \<inter> dom (map_of (cs_blUnsp cs)) = {}" "spent env cs' q"
  shows "spent env cs q \<or> q \<in> set (spent_by i ps)"
  using assms
proof (induction ps arbitrary: i cs)
  case (Cons p ps)
  from Cons.prems(1) obtain t cs1 where p: "p = Some t" and c: "commit_tx env height flags trusted i t cs = Inr cs1"
    and r: "commit_all env height flags trusted (Suc i) ps cs1 = Inr cs'" by (auto simp: ok_iff)
  have nt: "tx_Hash t \<notin> dom (map_of (cs_blUnsp cs))" using Cons.prems(3) p by auto
  have "dom (map_of (cs_blUnsp cs1)) = insert (tx_Hash t) (dom (map_of (cs_blUnsp cs)))"
    using commit_tx_spent [OF c nt] by blast
  then have "spent env cs1 q \<or> q \<in> set (spent_by (Suc i) ps)"
    using Cons.IH [OF r] Cons.prems p by auto
  then show ?case using commit_tx_only [OF c nt] p by auto
qed simp

section \<open>The ledger\<close>

definition coin :: "coins \<Rightarrow> txprevout \<Rightarrow> utxo_out option" where
  "coin R p = (case R (UtxoKey (po_Hash p)) of
     Some rec \<Rightarrow> if ur_TxID rec = po_Hash p \<and> unat (po_Vout p) < length (ur_Outs rec) then ur_Outs rec ! unat (po_Vout p) else None
   | None \<Rightarrow> None)"

definition stored_out :: "txout option \<Rightarrow> utxo_out option" where
  "stored_out = map_option (\<lambda>x. \<lparr>uo_Value = to_Value x, uo_PKScr = to_Pk_script x\<rparr>)"

definition created :: "tx list \<Rightarrow> txprevout \<Rightarrow> utxo_out option" where
  "created ts p = (case find (\<lambda>t. tx_Hash t = po_Hash p) ts of
     Some t \<Rightarrow> if unat (po_Vout p) < length (tx_TxOut t) then stored_out (tx_TxOut t ! unat (po_Vout p)) else None
   | None \<Rightarrow> None)"

definition ledger :: "coins \<Rightarrow> tx option list \<Rightarrow> txprevout \<Rightarrow> utxo_out option" where
  "ledger R ps p = (if p \<in> set (spent_by 0 ps) then None
     else case created (the_txs ps) p of Some out \<Rightarrow> Some out | None \<Rightarrow> coin R p)"

lemma commit_all_outs:
  assumes "commit_all env height flags trusted i ps cs = Inr cs'" "t \<in> set (the_txs ps)"
  shows "None \<notin> set (tx_TxOut t)"
  using assms
proof (induction ps arbitrary: i cs)
  case (Cons p ps)
  from Cons.prems(1) obtain t' cs1 where p: "p = Some t'" and c: "commit_tx env height flags trusted i t' cs = Inr cs1"
    and r: "commit_all env height flags trusted (Suc i) ps cs1 = Inr cs'" by (auto simp: ok_iff)
  from commit_tx_ok [OF c] obtain x where "sum_values (tx_TxOut t') = Inr x" by blast
  from sum_values_some [OF this] Cons.IH [OF r] Cons.prems(2) p show ?case by auto
qed simp

lemma find_no_hash: "h \<notin> tx_Hash ` set ts \<Longrightarrow> find (\<lambda>t. tx_Hash t = h) ts = None"
  by (induction ts) auto

text \<open>What the deletions and the outputs of the block say of one output, in terms of the list of spent outputs.\<close>

lemma commitTxs_spent:
  assumes c: "commitTxs env bl height lknown = Inr (sigops, ch, ts')" and d: "distinct (hashes_of (txs_of bl))"
  shows "\<exists>cs. ch = \<lparr>bc_Height = height, bc_LastKnownHeight = lknown, bc_AddList = List.map_filter (add_record height) (cs_blUnsp cs),
        bc_DeledTxs = cs_DeledTxs cs, bc_UndoData = map_option (map snd) (cs_UndoData cs)\<rparr> \<and>
      (\<forall>q. spent env cs q \<longleftrightarrow> q \<in> set (spent_by 0 (txs_of bl))) \<and>
      commit_all env height (bl_VerifyFlags bl) (bl_Trusted bl) 0 (txs_of bl) (commit_start env height lknown) = Inr cs"
proof -
  from c obtain cs where cs: "commit_all env height (bl_VerifyFlags bl) (bl_Trusted bl) 0 (txs_of bl) (commit_start env height lknown) = Inr cs"
    and ch: "ch = \<lparr>bc_Height = height, bc_LastKnownHeight = lknown, bc_AddList = List.map_filter (add_record height) (cs_blUnsp cs),
        bc_DeledTxs = cs_DeledTxs cs, bc_UndoData = map_option (map snd) (cs_UndoData cs)\<rparr>"
    by (auto simp: commitTxs_def ok_iff split: if_splits)
  have start: "set (hashes_of (txs_of bl)) \<inter> dom (map_of (cs_blUnsp (commit_start env height lknown))) = {}"
    "\<not> spent env (commit_start env height lknown) q" for q by (simp_all add: commit_start_def spent_def)
  show ?thesis
    using ch cs commit_all_spent [OF cs d start(1)] commit_all_only [OF cs d start(1)] start(2) by blast
qed

text \<open>The coins after the changes, where the database had no record and where it had one.\<close>

lemma mem_map_filter: "y \<in> set (List.map_filter f xs) \<longleftrightarrow> (\<exists>x \<in> set xs. f x = Some y)"
  by (force simp: List.map_filter_def)

lemma add_record_none: "add_record height (k, l) = None \<Longrightarrow> r \<in> set l \<Longrightarrow> r = None"
proof (rule ccontr)
  assume n: "add_record height (k, l) = None" "r \<in> set l" "r \<noteq> None"
  then have "filter (\<lambda>r. r \<noteq> None) l \<noteq> []" by (auto simp: filter_empty_conv)
  then obtain q qs where f: "filter (\<lambda>r. r \<noteq> None) l = q # qs" by (meson neq_Nil_conv)
  then have "q \<in> set (filter (\<lambda>r. r \<noteq> None) l)" by simp
  then have "q \<noteq> None" by simp
  with n(1) f show False by (auto simp: add_record_def)
qed

context utxo_store begin

lemma coin_new:
  assumes fit: "changes_fit ok R adds dels" and R: "R (UtxoKey (po_Hash p)) = None"
    and bo: "block_outs ts bu" "distinct (map (\<lambda>t. UtxoKey (tx_Hash t)) ts)" and adds: "adds = List.map_filter (add_record height) bu"
  shows "coin (coins_commit adds dels R) p =
    (case map_of bu (po_Hash p) of Some l \<Rightarrow> if unat (po_Vout p) < length l then stored_out (l ! unat (po_Vout p)) else None | None \<Rightarrow> None)"
proof -
  let ?h = "po_Hash p" and ?v = "unat (po_Vout p)"
  have nd: "UtxoKey ?h \<notin> del_key ` set dels" using fit R by (auto simp: changes_fit_def)
  have hs: "map fst bu = map tx_Hash ts" by (rule block_outs_keys [OF bo(1)])
  have dist: "distinct (map (\<lambda>d. UtxoKey (fst d)) bu)"
    using arg_cong [OF hs, of "map UtxoKey"] bo(2) by (simp add: comp_def)
  then have "distinct (map fst bu)" by (metis (no_types, lifting) distinct_map inj_on_def)
  note mem = map_of_eq_Some_iff [OF this]
  have one: "k = k' \<and> l = l'" if "(k, l) \<in> set bu" "(k', l') \<in> set bu" "UtxoKey k = UtxoKey k'" for k k' l l'
  proof -
    have "inj_on (\<lambda>d. UtxoKey (fst d)) (set bu)" using dist by (simp add: distinct_map)
    from inj_onD [OF this, of "(k, l)" "(k', l')"] that show ?thesis by simp
  qed
  show ?thesis
  proof (cases "UtxoKey ?h \<in> rec_key ` set adds")
    case True
    then obtain rec where rec: "rec_key rec = UtxoKey ?h" "rec \<in> set adds" by auto
    then obtain k l where "(k, l) \<in> set bu" "add_record height (k, l) = Some rec" by (auto simp: adds mem_map_filter)
    note x = this rec
    note r = add_record_ok [OF x(2)]
    have R': "coins_commit adds dels R (UtxoKey ?h) = Some rec" using coins_commit_at(1) [OF fit x(4)] x(3) by simp
    have k: "UtxoKey k = UtxoKey ?h" using r x(3) by (simp add: rec_key_def)
    show ?thesis
    proof (cases "k = ?h")
      case True
      with x(1) have "map_of bu ?h = Some l" by (simp add: mem)
      then show ?thesis using R' r True by (simp add: coin_def stored_out_def)
    next
      case False
      then have "map_of bu ?h = None" using one [OF x(1) _ k] by (metis mem not_None_eq)
      then show ?thesis using R' r False by (simp add: coin_def)
    qed
  next
    case False
    then have c: "coin (coins_commit adds dels R) p = None" using coins_commit_at(3) [OF fit _ nd] R by (simp add: coin_def)
    show ?thesis
    proof (cases "map_of bu ?h")
      case (Some l)
      have "add_record height (?h, l) = None"
      proof (rule ccontr)
        assume "add_record height (?h, l) \<noteq> None"
        then obtain rec where rec: "add_record height (?h, l) = Some rec" by blast
        then have "rec \<in> set adds" using map_of_SomeD [OF Some] by (auto simp: adds mem_map_filter)
        then show False using False add_record_ok [OF rec] by (metis imageI rec_key_def)
      qed
      from add_record_none [OF this] have "?v < length l \<Longrightarrow> l ! ?v = None" by simp
      then show ?thesis using c Some by (simp add: stored_out_def)
    qed (use c in simp)
  qed
qed

lemma coin_old:
  assumes fit: "changes_fit ok R adds dels" and R: "R (UtxoKey (po_Hash p)) = Some rec" and dels: "distinct (map fst dels)" "\<forall>d \<in> set dels. del_fits R d"
  shows "coin (coins_commit adds dels R) p =
    (if \<exists>sm. map_of dels (po_Hash p) = Some sm \<and> unat (po_Vout p) < length sm \<and> sm ! unat (po_Vout p) then None else coin R p)"
proof -
  let ?h = "po_Hash p" and ?v = "unat (po_Vout p)"
  have na: "UtxoKey ?h \<notin> rec_key ` set adds" using fit R by (auto simp: changes_fit_def)
  note mem = map_of_eq_Some_iff [OF dels(1)]
  show ?thesis
  proof (cases "UtxoKey ?h \<in> del_key ` set dels")
    case True
    then obtain k sm where d: "(k, sm) \<in> set dels" "UtxoKey k = UtxoKey ?h" by (auto simp: del_key_def)
    have R': "coins_commit adds dels R (UtxoKey ?h) = coin_del (k, sm) (Some rec)"
      using coins_commit_at(2) [OF fit d(1)] d(2) R by (simp add: del_key_def)
    have df: "ur_TxID rec = k" "length sm = length (ur_Outs rec)"
      using dels(2) d R by (auto simp: del_fits_def del_key_def)
    show ?thesis
    proof (cases "k = ?h")
      case True
      have m: "map_of dels ?h = Some sm" using d(1) True by (simp add: mem)
      have nth: "?v < length sm \<Longrightarrow> spend sm (ur_Outs rec) ! ?v = (if sm ! ?v then None else ur_Outs rec ! ?v)"
        and len: "length (spend sm (ur_Outs rec)) = length sm" using df by (simp_all add: spend_def)
      show ?thesis
      proof (cases "\<exists>x \<in> set (spend sm (ur_Outs rec)). x \<noteq> None")
        case True
        then show ?thesis using R' R df m nth len \<open>k = ?h\<close> by (simp add: coin_def coin_del_def Let_def)
      next
        case False
        then have "?v < length sm \<Longrightarrow> spend sm (ur_Outs rec) ! ?v = None" using len by (metis nth_mem)
        then show ?thesis using R' R df m nth False \<open>k = ?h\<close> by (auto simp: coin_def coin_del_def Let_def split: if_splits)
      qed
    next
      case False
      have "map_of dels ?h = None"
      proof (rule ccontr)
        assume "map_of dels ?h \<noteq> None"
        then obtain sm' where "(?h, sm') \<in> set dels" by (metis map_of_SomeD not_None_eq)
        then have "ur_TxID rec = ?h" using dels(2) R by (auto simp: del_fits_def del_key_def)
        then show False using df(1) False by simp
      qed
      then show ?thesis using R' R df False by (auto simp: coin_def coin_del_def Let_def split: option.splits if_splits)
    qed
  next
    case False
    then have "map_of dels ?h = None" by (force simp: del_key_def map_of_eq_None_iff)
    then show ?thesis using coins_commit_at(3) [OF fit na False] by (simp add: coin_def)
  qed
qed

text \<open>The database after a block stands for the ledger after the block, and every output spent was there.\<close>

lemma commitTxs_ledger:
  assumes c: "commitTxs env bl height lknown = Inr (sigops, ch, ts')" and env: "env_reads R env" "coins_ok ok R"
    and fit: "block_fits ok R (txs_of bl)"
  shows "coin (coins_commit (bc_AddList ch) (bc_DeledTxs ch) R) p = ledger R (txs_of bl) p \<and>
    (p \<in> set (spent_by 0 (txs_of bl)) \<longrightarrow> coin R p \<noteq> None \<or> created (the_txs (txs_of bl)) p \<noteq> None)"
proof -
  let ?ts = "the_txs (txs_of bl)" and ?h = "po_Hash p" and ?v = "unat (po_Vout p)"
  have keys: "distinct (map (\<lambda>t. UtxoKey (tx_Hash t)) ?ts)" using fit by (simp add: block_fits_def)
  then have d: "distinct (map tx_Hash ?ts)" by (metis (no_types, lifting) distinct_map inj_on_def)
  have dh: "distinct (hashes_of (txs_of bl))" using d by (simp add: hashes_of_the_txs)
  from commitTxs_spent [OF c dh] obtain cs where
    chs: "ch = \<lparr>bc_Height = height, bc_LastKnownHeight = lknown, bc_AddList = List.map_filter (add_record height) (cs_blUnsp cs),
        bc_DeledTxs = cs_DeledTxs cs, bc_UndoData = map_option (map snd) (cs_UndoData cs)\<rparr>"
    and all: "\<forall>q. spent env cs q \<longleftrightarrow> q \<in> set (spent_by 0 (txs_of bl))"
    and cs: "commit_all env height (bl_VerifyFlags bl) (bl_Trusted bl) 0 (txs_of bl) (commit_start env height lknown) = Inr cs"
    by (elim exE conjE) (rule that)
  have ch: "bc_AddList ch = List.map_filter (add_record height) (cs_blUnsp cs)" "bc_DeledTxs ch = cs_DeledTxs cs"
    by (simp_all add: chs)
  note sp = all [rule_format, of p]
  have start: "cinv R [] (commit_start env height lknown)"
    by (simp add: cinv_def dels_inv_def commit_start_def block_outs_def)
  have ids: "ids_agree R (spent_by 0 (txs_of bl))" using fit by (simp add: block_fits_def)
  from commit_all_inv [OF cs env ids start] d have inv: "dels_inv R cs" and bo: "block_outs ?ts (cs_blUnsp cs)"
    by (simp_all add: cinv_def)
  have hk: "fst ` set (cs_blUnsp cs) = tx_Hash ` set ?ts" using arg_cong [OF block_outs_keys [OF bo], of set] by simp
  have dels: "distinct (map fst (bc_DeledTxs ch))" "\<forall>d \<in> set (bc_DeledTxs ch). del_fits R d"
    using inv by (simp_all add: ch dels_inv_def)
  note f = conjunct1 [OF commitTxs_fits [OF c env fit]]
  have get: "ce_get env ?h (po_Vout p) = (case R (UtxoKey ?h) of None \<Rightarrow> None | Some rec \<Rightarrow> lookup_out rec (po_Vout p))"
    using env(1) by (simp add: env_reads_def)
  show ?thesis
  proof (cases "R (UtxoKey ?h)")
    case None
    then have c0: "coin R p = None" and g0: "ce_get env ?h (po_Vout p) = None" using get by (simp_all add: coin_def)
    have s: "p \<in> set (spent_by 0 (txs_of bl)) \<longleftrightarrow> (\<exists>l. map_of (cs_blUnsp cs) ?h = Some l \<and> ?v < length l \<and> l ! ?v = None)"
      unfolding sp [symmetric] by (simp add: spent_def g0)
    note n = coin_new [OF f None bo keys ch(1)]
    show ?thesis
    proof (cases "map_of (cs_blUnsp cs) ?h")
      case l: (Some l)
      from block_outs_find [OF bo l] obtain t where t: "t \<in> set ?ts" "tx_Hash t = ?h" "left_over (tx_TxOut t) l" by blast
      have fnd: "find (\<lambda>t. tx_Hash t = ?h) ?ts = Some t" using find_hash [OF d t(1)] t(2) by simp
      have len: "length l = length (tx_TxOut t)" and eq: "?v < length l \<Longrightarrow> l ! ?v \<noteq> None \<Longrightarrow> l ! ?v = tx_TxOut t ! ?v"
        using t(3) by (auto simp: left_over_def list_all2_conv_all_nth)
      have nn: "?v < length l \<Longrightarrow> tx_TxOut t ! ?v \<noteq> None" using commit_all_outs [OF cs t(1)] len by (metis nth_mem)
      have cr: "created ?ts p = (if ?v < length l then stored_out (tx_TxOut t ! ?v) else None)" by (simp add: created_def fnd len)
      have sl: "p \<in> set (spent_by 0 (txs_of bl)) \<longleftrightarrow> ?v < length l \<and> l ! ?v = None" using s l by simp
      show ?thesis
      proof (cases "?v < length l")
        case True
        show ?thesis
        proof (cases "l ! ?v")
          case None
          then show ?thesis using n l cr sl nn True by (simp add: ledger_def stored_out_def)
        next
          case (Some out)
          then have "tx_TxOut t ! ?v = Some out" using eq True by simp
          then show ?thesis using n l cr sl True Some by (simp add: ledger_def stored_out_def)
        qed
      qed (use n l c0 cr sl in \<open>simp add: ledger_def\<close>)
    next
      case l: None
      then have "?h \<notin> tx_Hash ` set ?ts" by (simp add: map_of_eq_None_iff hk)
      then have "find (\<lambda>t. tx_Hash t = ?h) ?ts = None" by (rule find_no_hash)
      then show ?thesis using n l s c0 by (simp add: ledger_def created_def)
    qed
  next
    case (Some rec)
    have nb: "?h \<notin> tx_Hash ` set ?ts" using fit Some by (auto simp: block_fits_def)
    then have fnd: "find (\<lambda>t. tx_Hash t = ?h) ?ts = None" by (rule find_no_hash)
    have bu: "map_of (cs_blUnsp cs) ?h = None" using nb by (simp add: map_of_eq_None_iff hk)
    let ?del = "\<exists>sm. map_of (bc_DeledTxs ch) ?h = Some sm \<and> ?v < length sm \<and> sm ! ?v"
    have del: "ur_TxID rec = ?h \<and> ?v < length (ur_Outs rec) \<and> ur_Outs rec ! ?v \<noteq> None" if ?del
    proof -
      from that obtain sm where sm: "map_of (bc_DeledTxs ch) ?h = Some sm" "?v < length sm" "sm ! ?v" by blast
      from sm(1) have "(?h, sm) \<in> set (bc_DeledTxs ch)" by (rule map_of_SomeD)
      with dels(2) have "del_fits R (?h, sm)" by blast
      then show ?thesis using Some sm by (auto simp: del_fits_def del_key_def)
    qed
    have nospent: "\<not> spent env cs p" if "ce_get env ?h (po_Vout p) = None" using that bu by (simp add: spent_def)
    have isspent: "spent env cs p \<longleftrightarrow> ?del" if "ce_get env ?h (po_Vout p) \<noteq> None" using that by (simp add: spent_def ch)
    have found: "ce_get env ?h (po_Vout p) \<noteq> None" if ?del using del [OF that] get Some by (simp add: lookup_out_def)
    have s: "p \<in> set (spent_by 0 (txs_of bl)) \<longleftrightarrow> ?del" using nospent isspent found sp by blast
    note old = coin_old [OF f Some dels]
    have cr: "created ?ts p = None" by (simp add: created_def fnd)
    show ?thesis
    proof (cases ?del)
      case True
      have "coin R p \<noteq> None" using del [OF True] Some by (simp add: coin_def)
      moreover have "coin (coins_commit (bc_AddList ch) (bc_DeledTxs ch) R) p = None" using old unfolding if_P [OF True] .
      ultimately show ?thesis using s True by (simp add: ledger_def)
    next
      case False
      have "coin (coins_commit (bc_AddList ch) (bc_DeledTxs ch) R) p = coin R p" using old unfolding if_not_P [OF False] .
      then show ?thesis using s False cr by (simp add: ledger_def)
    qed
  qed
qed

end

end
