(* ===== verification/ChainSamples.thy ===== *)
theory ChainSamples
  imports ChainLedger Samples
begin

text \<open>Concrete data for the witnesses of the properties of blocks, the database of unspent outputs and the chain.\<close>

lemma sample_valid: "valid_tx (sample_tx [1])"
  unfolding valid_tx_def
  by (intro conjI exI [of _ "[sample_in [1]]"] exI [of _ "[new_txout 5000 [0x51]]"])
     (simp_all add: sample_defs zero_tx_def valid_txin_def valid_txout_def new_txout_def)

section \<open>A database\<close>

text \<open>Keys that expand to nothing, and one record of two outputs.\<close>

definition sample_keys_ops :: key_ops where
  "sample_keys_ops = \<lparr>key_valid = (\<lambda>_. False), key_expand = (\<lambda>_. [])\<rparr>"

definition sample_rec :: utxo_rec where
  "sample_rec = \<lparr>ur_TxID = replicate 32 7, ur_Coinbase = False, ur_InBlock = 90,
     ur_Outs = [Some \<lparr>uo_Value = 5000, uo_PKScr = [0x51]\<rparr>, Some \<lparr>uo_Value = 6000, uo_PKScr = [0x51]\<rparr>]\<rparr>"

definition sample_coins :: coins where
  "sample_coins = [replicate 8 7 \<mapsto> sample_rec]"

lemma sample_rec_ok: "record_ok plain_ok sample_rec" "record_ok (comp_ok sample_keys_ops) sample_rec"
  by (auto simp: record_ok_def sample_rec_def outs_ok_def plain_ok_def comp_ok_def sample_keys_ops_def)

lemma sample_coins_ok: "coins_ok (comp_ok sample_keys_ops) sample_coins"
  using sample_rec_ok(2) by (simp add: coins_ok_def sample_coins_def UtxoKey_def sample_rec_def)

definition sample_cfg :: utxo_cfg where
  "sample_cfg = compressed_cfg sample_keys_ops"

definition sample_db :: utxo_db where
  "sample_db = \<lparr>ud_Map = store_of (compressed sample_keys_ops) sample_coins, ud_LastBlockHash = Some (replicate 32 8), ud_LastBlockHeight = 99,
     ud_Undo = (\<lambda>_. None), ud_UnwindBufLen = 256, ud_Dirty = False\<rparr>"

section \<open>A block\<close>

text \<open>
  A coinbase, a transaction that spends the second output of the database, and one that spends the output of the
  second; the scripts are trusted.
\<close>

definition sample_coinbase :: "u64 list \<Rightarrow> tx" where
  "sample_coinbase vs = zero_tx\<lparr>tx_TxIn := [Some \<lparr>ti_Input = \<lparr>po_Hash = replicate 32 0, po_Vout = 0xffffffff\<rparr>,
     ti_ScriptSig = [0x51, 0x51], ti_Sequence = 0xffffffff\<rparr>], tx_TxOut := map (\<lambda>v. Some (new_txout v [])) vs,
     tx_Hash := replicate 32 1\<rparr>"

definition sample_spend :: "byte \<Rightarrow> u32 \<Rightarrow> byte \<Rightarrow> u64 \<Rightarrow> tx" where
  "sample_spend h v h' x = zero_tx\<lparr>tx_TxIn := [Some \<lparr>ti_Input = \<lparr>po_Hash = replicate 32 h, po_Vout = v\<rparr>,
     ti_ScriptSig = [], ti_Sequence = 0xffffffff\<rparr>], tx_TxOut := [Some (new_txout x [])], tx_Hash := replicate 32 h'\<rparr>"

definition sample_block :: block where
  "sample_block = zero_block\<lparr>bl_Txs := Some (map Some [sample_coinbase [5000000000], sample_spend 7 1 2 5500, sample_spend 2 0 3 5400]),
     bl_Trusted := True\<rparr>"

definition sample_chain :: chain_env where
  "sample_chain = \<lparr>ce_get = (\<lambda>h v. case sample_coins (UtxoKey h) of None \<Rightarrow> None | Some rec \<Rightarrow> lookup_out rec v),
     ce_ec = sample_ec, ce_hook = None, ce_TrustedTxChecker = None, ce_UnwindBufLen = 256\<rparr>"

lemma sample_sigops: "GetLegacySigOpCount (sample_coinbase vs) = Inr 0" "GetLegacySigOpCount (sample_spend h v h' x) = Inr 0"
proof -
  have e: "GetSigOpCount [] False = 0" by (simp add: GetSigOpCount_def sigop_loop.simps)
  then have "sum_outs_sigops (map (\<lambda>v. Some (new_txout v [])) vs) = Inr 0" for vs
    by (induction vs) (simp_all add: new_txout_def)
  then show "GetLegacySigOpCount (sample_coinbase vs) = Inr 0" "GetLegacySigOpCount (sample_spend h v h' x) = Inr 0"
    using e by (simp_all add: GetLegacySigOpCount_def sample_coinbase_def sample_spend_def GetSigOpCount_def sigop_loop.simps GetOpcode_nonpush new_txout_def)
qed

definition sample_changes :: block_changes where
  "sample_changes = \<lparr>bc_Height = 100, bc_LastKnownHeight = 100,
     bc_AddList = [\<lparr>ur_TxID = replicate 32 1, ur_Coinbase = False, ur_InBlock = 100, ur_Outs = [Some \<lparr>uo_Value = 5000000000, uo_PKScr = []\<rparr>]\<rparr>,
       \<lparr>ur_TxID = replicate 32 3, ur_Coinbase = False, ur_InBlock = 100, ur_Outs = [Some \<lparr>uo_Value = 5400, uo_PKScr = []\<rparr>]\<rparr>],
     bc_DeledTxs = [(replicate 32 7, [False, True])],
     bc_UndoData = Some [sample_rec\<lparr>ur_Outs := [None, Some \<lparr>uo_Value = 6000, uo_PKScr = [0x51]\<rparr>]\<rparr>]\<rparr>"

lemma hash_differ: "replicate 32 a = replicate 32 b \<longleftrightarrow> a = b" "replicate 8 a = replicate 8 b \<longleftrightarrow> a = b"
  by (auto simp: replicate_eq_replicate)

lemma UtxoKey_replicate: "UtxoKey (replicate 32 b) = replicate 8 b"
  by (simp add: UtxoKey_def)

lemma index_0 [simp]: "index (x # xs) 0 = Inr x"
  by (simp add: index_def)

lemma sample_reward: "GetBlockReward 100 = 5000000000"
  by (simp add: GetBlockReward_def)

lemma sample_chain_get:
  "ce_get sample_chain (replicate 32 7) 1 = Some \<lparr>to_Value = 6000, to_Pk_script = [0x51], to_BlockHeight = 90, to_VoutCount = 2, to_WasCoinbase = False\<rparr>"
  "ce_get sample_chain (replicate 32 2) v = None"
  by (simp_all add: sample_chain_def sample_coins_def UtxoKey_replicate hash_differ lookup_out_def sample_rec_def)

lemma sample_fields [simp]:
  "tx_TxIn (sample_coinbase vs) = [Some \<lparr>ti_Input = \<lparr>po_Hash = replicate 32 0, po_Vout = 0xffffffff\<rparr>, ti_ScriptSig = [0x51, 0x51], ti_Sequence = 0xffffffff\<rparr>]"
  "tx_TxOut (sample_coinbase vs) = map (\<lambda>v. Some (new_txout v [])) vs" "tx_Hash (sample_coinbase vs) = replicate 32 1"
  "tx_TxIn (sample_spend h v h' x) = [Some \<lparr>ti_Input = \<lparr>po_Hash = replicate 32 h, po_Vout = v\<rparr>, ti_ScriptSig = [], ti_Sequence = 0xffffffff\<rparr>]"
  "tx_TxOut (sample_spend h v h' x) = [Some (new_txout x [])]" "tx_Hash (sample_spend h v h' x) = replicate 32 h'"
  by (simp_all add: sample_coinbase_def sample_spend_def)

lemma replicate_2: "replicate 2 x = [x, x]"
  by (simp add: numeral_2_eq_2)

lemma no_flags [simp]: "flag_on 0 f \<longleftrightarrow> False"
  by (simp add: flag_on_def)

lemma sample_commit_coinbase:
  "commit_tx env height flags trusted 0 (sample_coinbase vs) cs =
     Inr (cs\<lparr>cs_out := cs_out cs + sum_list vs, cs_blUnsp := AList.update (replicate 32 1) (map (\<lambda>v. Some (new_txout v [])) vs) (cs_blUnsp cs),
       cs_Txs := cs_Txs cs @ [sample_coinbase vs]\<rparr>)"
proof -
  have "sum_values (map (\<lambda>v. Some (new_txout v [])) vs) = Inr (sum_list vs)" by (induction vs) (simp_all add: new_txout_def)
  then show ?thesis
    by (simp add: commit_tx_def sample_sigops commit_coinbase_def Let_def)
qed

lemma sample_connect:
  "\<exists>ts. commitTxs sample_chain sample_block 100 100 = Inr (0, sample_changes, ts)"
proof -
  let ?c0 = "\<lparr>cs_DeledTxs = [], cs_UndoData = Some [], cs_blUnsp = [(replicate 32 1, [Some (new_txout 5000000000 [])])], cs_sigops = 0,
     cs_in = 5000000000, cs_out = 5000000000, cs_verr = 0, cs_Txs = [sample_coinbase [5000000000]]\<rparr>"
  have start: "commit_start sample_chain 100 100 = \<lparr>cs_DeledTxs = [], cs_UndoData = Some [], cs_blUnsp = [], cs_sigops = 0,
     cs_in = 5000000000, cs_out = 0, cs_verr = 0, cs_Txs = []\<rparr>"
    by (simp add: commit_start_def sample_chain_def sample_reward)
  note run = take_out_def check_spent_def sample_chain_get take_db_out_def mark_deleted_def remember_def take_block_out_def
    input_sigops_def Let_def new_txout_def hash_differ replicate_2
  define c1 where "c1 = ?c0\<lparr>cs_DeledTxs := [(replicate 32 7, [False, True])],
       cs_UndoData := Some [(replicate 32 7, sample_rec\<lparr>ur_Outs := [None, Some \<lparr>uo_Value = 6000, uo_PKScr = [0x51]\<rparr>]\<rparr>)],
       cs_blUnsp := [(replicate 32 1, [Some (new_txout 5000000000 [])]), (replicate 32 2, [Some (new_txout 5500 [])])],
       cs_in := 5000006000, cs_out := 5000005500\<rparr>"
  obtain t1 where t1: "commit_tx sample_chain 100 0 True (Suc 0) (sample_spend 7 1 2 5500) ?c0 =
     Inr (c1\<lparr>cs_Txs := [sample_coinbase [5000000000], t1]\<rparr>)"
    by (simp add: commit_tx_def sample_sigops Let_def commit_spends_def tx_is_trusted_def run c1_def) (simp add: sample_rec_def)
  obtain t2 where t2: "commit_tx sample_chain 100 0 True (Suc (Suc 0)) (sample_spend 2 0 3 5400) (c1\<lparr>cs_Txs := [sample_coinbase [5000000000], t1]\<rparr>) =
     Inr (c1\<lparr>cs_blUnsp := [(replicate 32 1, [Some (new_txout 5000000000 [])]), (replicate 32 2, [None]), (replicate 32 3, [Some (new_txout 5400 [])])],
       cs_in := 5000011500, cs_out := 5000010900, cs_Txs := [sample_coinbase [5000000000], t1, t2]\<rparr>)"
    by (simp add: commit_tx_def sample_sigops Let_def commit_spends_def tx_is_trusted_def run c1_def)
  show ?thesis
    using t1 t2 by (simp add: commitTxs_def sample_block_def txs_of_def zero_block_def start sample_commit_coinbase)
      (simp add: sample_changes_def c1_def List.map_filter_def add_record_def new_txout_def)
qed

end
