(* ===== verification/ChainSpec.thy ===== *)
theory ChainSpec
  imports ChainSamples
begin

text \<open>
  The properties of blocks, proof-of-work targets, the database of unspent outputs, and the connection of a block,
  each with a concrete instance.
\<close>

section \<open>The database of unspent outputs\<close>

text \<open>The two ways the program sets up the database: with plain and with compressed records.\<close>

definition db_setup :: "utxo_cfg \<Rightarrow> (utxo_out \<Rightarrow> bool) \<Rightarrow> bool" where
  "db_setup cfg ok \<longleftrightarrow> (\<exists>ks. cfg = plain_cfg ks \<and> ok = plain_ok \<or> cfg = compressed_cfg ks \<and> ok = comp_ok ks)"

lemma db_setup_store: "db_setup cfg ok \<Longrightarrow> utxo_store cfg ok"
  using plain_db.utxo_store_axioms compressed_db.utxo_store_axioms by (auto simp: db_setup_def)

lemma db_setup_format: "db_setup cfg ok \<Longrightarrow> record_format (uc_fmt cfg) ok"
  using db_setup_store by (simp add: utxo_store_def)

lemma db_setup_alloc: "db_setup cfg ok \<Longrightarrow> length (uc_alloc cfg n) = n"
  by (auto simp: db_setup_def plain_cfg_def compressed_cfg_def)

lemma sample_setup: "db_setup sample_cfg (comp_ok sample_keys_ops)"
  by (auto simp: db_setup_def sample_cfg_def)

lemma sample_cfg_format [simp]: "uc_fmt sample_cfg = compressed sample_keys_ops"
  by (simp add: sample_cfg_def compressed_cfg_def)

lemma sample_reads: "\<forall>h v. UnspentGet (uc_fmt sample_cfg) (ud_Map sample_db) h v = Some (Inr (ce_get sample_chain h v))"
  using utxo_store.UnspentGet_coins [OF db_setup_store [OF sample_setup] sample_coins_ok]
  by (simp add: sample_db_def sample_chain_def)

lemma sample_block_fits: "block_fits (comp_ok sample_keys_ops) sample_coins (txs_of sample_block)"
  by (simp add: block_fits_def sample_block_def txs_of_def zero_block_def ids_agree_def sample_coins_def UtxoKey_replicate hash_differ
      sample_rec_def comp_ok_def new_txout_def)

lemma sample_undo_size: "\<forall>us. bc_UndoData sample_changes = Some us \<longrightarrow>
    (\<forall>u \<in> set us. 32 + length (rec_bytes (uc_fmt sample_cfg) u) \<le> 0x100000)"
proof -
  have b: "length (WriteVlen x) \<le> 9" for x by (simp add: length_WriteVlen VLenSize_def)
  have p: "length (packed_script (compressed sample_keys_ops) [0x51]) \<le> 10"
    using b by (simp add: packed_script_def compressed_def CompressScript_def IsP2KH_def IsP2SH_def IsP2PK_def)
  have o: "length (out_bytes (compressed sample_keys_ops) i \<lparr>uo_Value = 6000, uo_PKScr = [0x51]\<rparr>) \<le> 28" for i
    using add_mono [OF b add_mono [OF b p]] by (simp add: out_bytes_def)
  have "length (rec_bytes (compressed sample_keys_ops) (sample_rec\<lparr>ur_Outs := [None, Some \<lparr>uo_Value = 6000, uo_PKScr = [0x51]\<rparr>]\<rparr>)) \<le> 46"
    using add_mono [OF b add_mono [OF b o]] by (simp add: rec_bytes_def)
  then show ?thesis by (simp add: sample_changes_def)
qed

text \<open>
  C2. Connecting a block and disconnecting it restores the database: when \<open>commitTxs\<close> accepts a block over the
  database, \<open>CommitBlockTxs\<close> applies its changes, and \<open>UndoBlockTxs\<close> brings the map, the height and the given
  hash back, for both formats of the records.
\<close>

theorem connect_then_disconnect:
  assumes "db_setup cfg ok" "coins_ok ok R" "ud_Map db = store_of (uc_fmt cfg) R"
    "\<forall>h v. UnspentGet (uc_fmt cfg) (ud_Map db) h v = Some (Inr (ce_get env h v))"
    "commitTxs env bl height lknown = Inr (sigops, ch, ts)" "block_fits ok R (txs_of bl)"
    "height + ce_UnwindBufLen env \<ge> lknown"
    "\<forall>us. bc_UndoData ch = Some us \<longrightarrow> (\<forall>u \<in> set us. 32 + length (rec_bytes (uc_fmt cfg) u) \<le> 0x100000)"
    "length blhash = 32" "ud_UnwindBufLen db \<noteq> 0"
  shows "\<exists>db1 db2. CommitBlockTxs cfg db ch blhash = Some (Inr db1) \<and>
      ud_Map db1 = store_of (uc_fmt cfg) (coins_commit (bc_AddList ch) (bc_DeledTxs ch) R) \<and> ud_LastBlockHeight db1 = height \<and>
      UndoBlockTxs cfg db1 (tx_ids (txs_of bl)) prev = Some (Inr db2) \<and> ud_Map db2 = ud_Map db \<and>
      ud_LastBlockHeight db2 = height - 1 \<and> ud_LastBlockHash db2 = Some prev"
  by (rule utxo_store.connect_disconnect [OF db_setup_store [OF assms(1)] assms(2-10)])

theorem connect_then_disconnect_witness:
  "\<exists>db1 db2. CommitBlockTxs sample_cfg sample_db sample_changes (replicate 32 9) = Some (Inr db1) \<and>
      ud_Map db1 (replicate 8 7) \<noteq> ud_Map sample_db (replicate 8 7) \<and>
      UndoBlockTxs sample_cfg db1 (tx_ids (txs_of sample_block)) (replicate 32 8) = Some (Inr db2) \<and> ud_Map db2 = ud_Map sample_db"
proof -
  obtain ts where c: "commitTxs sample_chain sample_block 100 100 = Inr (0, sample_changes, ts)" using sample_connect by blast
  have m: "ud_Map sample_db = store_of (uc_fmt sample_cfg) sample_coins" by (simp add: sample_db_def)
  have ch: "store_of (uc_fmt sample_cfg) (coins_commit (bc_AddList sample_changes) (bc_DeledTxs sample_changes) sample_coins) (replicate 8 7)
      \<noteq> ud_Map sample_db (replicate 8 7)"
    by (simp add: sample_db_def store_of_def coins_commit_def sample_changes_def upd_at_def rec_key_def del_key_def UtxoKey_replicate
        hash_differ sample_coins_def coin_del_def spend_def sample_rec_def rec_bytes_def out_bytes_def out_count_def)
  have le: "(100 :: u32) \<le> 100 + ce_UnwindBufLen sample_chain" by (simp add: sample_chain_def)
  have un: "ud_UnwindBufLen sample_db \<noteq> 0" by (simp add: sample_db_def)
  from connect_then_disconnect [OF sample_setup sample_coins_ok m sample_reads c sample_block_fits le sample_undo_size _ un, of "replicate 32 9" "replicate 32 8"] ch
  show ?thesis by auto
qed

text \<open>
  C1. What connecting a block does to the coins: the outputs it spends are gone, the outputs of its transactions are
  there, nothing else changes; and every output it spends was in the database or was created by the block. The block has to
  fit the way records are stored (\<open>block_fits\<close>): the identifiers of its transactions are free in the database and differ
  in their first eight bytes, the keys of the records, a record found under the key of an identifier it spends from is
  that of the identifier, and its outputs can be written.
\<close>

theorem connecting_updates_the_ledger:
  assumes "db_setup cfg ok" "coins_ok ok R"
    "\<forall>h v. UnspentGet (uc_fmt cfg) (store_of (uc_fmt cfg) R) h v = Some (Inr (ce_get env h v))"
    "commitTxs env bl height lknown = Inr (sigops, ch, ts)" "block_fits ok R (txs_of bl)"
  shows "coin (coins_commit (bc_AddList ch) (bc_DeledTxs ch) R) p = ledger R (txs_of bl) p \<and>
    (p \<in> set (spent_by 0 (txs_of bl)) \<longrightarrow> coin R p \<noteq> None \<or> created (the_txs (txs_of bl)) p \<noteq> None)"
proof -
  have "env_reads R env"
    using assms(3) utxo_store.UnspentGet_coins [OF db_setup_store [OF assms(1)] assms(2)] by (simp add: env_reads_def)
  then show ?thesis by (rule utxo_store.commitTxs_ledger [OF db_setup_store [OF assms(1)] assms(4) _ assms(2,5)])
qed

theorem connecting_updates_the_ledger_witness:
  "coin (coins_commit (bc_AddList sample_changes) (bc_DeledTxs sample_changes) sample_coins) \<lparr>po_Hash = replicate 32 7, po_Vout = 1\<rparr> = None \<and>
   coin (coins_commit (bc_AddList sample_changes) (bc_DeledTxs sample_changes) sample_coins) \<lparr>po_Hash = replicate 32 3, po_Vout = 0\<rparr> =
     Some \<lparr>uo_Value = 5400, uo_PKScr = []\<rparr>"
proof -
  obtain ts where c: "commitTxs sample_chain sample_block 100 100 = Inr (0, sample_changes, ts)" using sample_connect by blast
  have r: "\<forall>h v. UnspentGet (uc_fmt sample_cfg) (store_of (uc_fmt sample_cfg) sample_coins) h v = Some (Inr (ce_get sample_chain h v))"
    using sample_reads by (simp add: sample_db_def)
  note l = connecting_updates_the_ledger [OF sample_setup sample_coins_ok r c sample_block_fits]
  have sp: "spent_by 0 (txs_of sample_block) = [\<lparr>po_Hash = replicate 32 7, po_Vout = 1\<rparr>, \<lparr>po_Hash = replicate 32 2, po_Vout = 0\<rparr>]"
    by (simp add: sample_block_def txs_of_def)
  have cr: "created (the_txs (txs_of sample_block)) \<lparr>po_Hash = replicate 32 3, po_Vout = 0\<rparr> = Some \<lparr>uo_Value = 5400, uo_PKScr = []\<rparr>"
    by (simp add: created_def sample_block_def txs_of_def hash_differ stored_out_def new_txout_def)
  show ?thesis
    using l [of "\<lparr>po_Hash = replicate 32 7, po_Vout = 1\<rparr>"] l [of "\<lparr>po_Hash = replicate 32 3, po_Vout = 0\<rparr>"]
    by (simp add: ledger_def sp cr hash_differ)
qed

text \<open>
  C12. A block that spends an output twice, in one transaction or in two, whether the output is of the database or of
  the block, is not accepted, and neither is one that repeats a transaction. The transactions are as \<open>PostCheckBlock\<close>
  leaves them (C9): a coinbase first, no other one, and every other transaction has an input; and transactions with the
  same identifier have the same inputs, the identifier being a hash of them.
\<close>

theorem no_double_spend:
  assumes "commitTxs env bl height lknown = Inr r" "one_coinbase_first (txs_of bl)" "ids_name_inputs (txs_of bl)"
  shows "distinct (hashes_of (txs_of bl)) \<and> distinct (spent_by 0 (txs_of bl))"
  using assms by (rule commitTxs_spends_once)

theorem no_double_spend_witness:
  "distinct (spent_by 0 (txs_of sample_block)) \<and> length (spent_by 0 (txs_of sample_block)) = 2"
proof -
  obtain ts where c: "commitTxs sample_chain sample_block 100 100 = Inr (0, sample_changes, ts)" using sample_connect by blast
  have b: "txs_of sample_block = map Some [sample_coinbase [5000000000], sample_spend 7 1 2 5500, sample_spend 2 0 3 5400]"
    by (simp add: sample_block_def txs_of_def)
  have one: "one_coinbase_first (txs_of sample_block)"
    unfolding one_coinbase_first_def b by (simp add: IsCoinBase_def po_IsNull_def allzeros_def list_all_iff)
  have ids: "ids_name_inputs (txs_of sample_block)"
    unfolding ids_name_inputs_def b by (auto simp: hash_differ)
  show ?thesis using no_double_spend [OF c one ids] by (simp add: b)
qed

text \<open>
  C13. No value from nothing: the outputs of an accepted block are worth at most the subsidy and what the block spends,
  provided they are worth less than \<open>2 ^ 64\<close> together. The identifiers of its transactions differ, so that what it spends
  can be named by them (C12 gives this for a block that was checked).
\<close>

theorem no_value_from_nothing:
  assumes "commitTxs env bl height lknown = Inr r" "distinct (hashes_of (txs_of bl))"
    "(\<Sum>t\<leftarrow>the_txs (txs_of bl). outs_total (tx_TxOut t)) < 2 ^ 64"
  shows "(\<Sum>t\<leftarrow>the_txs (txs_of bl). outs_total (tx_TxOut t))
    \<le> unat (GetBlockReward height) + (\<Sum>p\<leftarrow>spent_by 0 (txs_of bl). out_value env (the_txs (txs_of bl)) p)"
  using assms by (rule commitTxs_value)

theorem no_value_from_nothing_witness:
  "5000010900 \<le> unat (GetBlockReward 100) + (\<Sum>p\<leftarrow>spent_by 0 (txs_of sample_block). out_value sample_chain (the_txs (txs_of sample_block)) p)"
proof -
  obtain ts where c: "commitTxs sample_chain sample_block 100 100 = Inr (0, sample_changes, ts)" using sample_connect by blast
  have d: "distinct (hashes_of (txs_of sample_block))" by (simp add: sample_block_def txs_of_def hash_differ)
  have s: "(\<Sum>t\<leftarrow>the_txs (txs_of sample_block). outs_total (tx_TxOut t)) = 5000010900"
    by (simp add: sample_block_def txs_of_def outs_total_def new_txout_def)
  from no_value_from_nothing [OF c d] show ?thesis by (simp add: s)
qed

text \<open>
  C32. Without that proviso it fails: the sums wrap at 64 bits and no output is compared with a maximum, so that a
  coinbase with two outputs of \<open>2 ^ 63\<close> passes the checks of the transaction and of the block at any height, and
  both outputs enter the database.
\<close>

theorem overflowing_coinbase_is_accepted:
  "CheckTransaction (sample_coinbase [2 ^ 63, 2 ^ 63]) = Inr () \<and>
   (\<exists>ch ts rec. commitTxs env (zero_block\<lparr>bl_Txs := Some [Some (sample_coinbase [2 ^ 63, 2 ^ 63])]\<rparr>) height lknown = Inr (0, ch, ts) \<and>
      bc_AddList ch = [rec] \<and> ur_Outs rec = [Some \<lparr>uo_Value = 2 ^ 63, uo_PKScr = []\<rparr>, Some \<lparr>uo_Value = 2 ^ 63, uo_PKScr = []\<rparr>])"
proof
  show "CheckTransaction (sample_coinbase [2 ^ 63, 2 ^ 63]) = Inr ()"
    by (simp add: CheckTransaction_def IsCoinBase_def sample_coinbase_def zero_tx_def)
  show "\<exists>ch ts rec. commitTxs env (zero_block\<lparr>bl_Txs := Some [Some (sample_coinbase [2 ^ 63, 2 ^ 63])]\<rparr>) height lknown = Inr (0, ch, ts) \<and>
      bc_AddList ch = [rec] \<and> ur_Outs rec = [Some \<lparr>uo_Value = 2 ^ 63, uo_PKScr = []\<rparr>, Some \<lparr>uo_Value = 2 ^ 63, uo_PKScr = []\<rparr>]"
  proof -
    have wrap: "(18446744073709551616 :: u64) = 0" by simp
    show ?thesis
      by (simp add: commitTxs_def txs_of_def zero_block_def sample_commit_coinbase commit_start_def wrap List.map_filter_def
          add_record_def new_txout_def)
  qed
qed

text \<open>
  The database answers for an output what its coins say: the output with its height, its number of siblings and
  the coinbase flag, or nothing.
\<close>

theorem unspent_get_reads_the_coins:
  assumes "db_setup cfg ok" "coins_ok ok R"
  shows "UnspentGet (uc_fmt cfg) (store_of (uc_fmt cfg) R) h v =
    Some (Inr (case R (UtxoKey h) of None \<Rightarrow> None | Some rec \<Rightarrow> lookup_out rec v))"
  using utxo_store.UnspentGet_coins [OF db_setup_store [OF assms(1)] assms(2)] .

theorem unspent_get_reads_the_coins_witness:
  "UnspentGet (compressed sample_keys_ops) (store_of (compressed sample_keys_ops) sample_coins) (replicate 32 7) 1 =
     Some (Inr (Some \<lparr>to_Value = 6000, to_Pk_script = [0x51], to_BlockHeight = 90, to_VoutCount = 2, to_WasCoinbase = False\<rparr>))"
  using unspent_get_reads_the_coins [OF sample_setup sample_coins_ok, of "replicate 32 7" 1]
  by (simp add: UtxoKey_replicate sample_coins_def lookup_out_def sample_rec_def)

text \<open>
  C22. A record of the database survives its serialisation, plain or compressed: it is read back whole, with the full
  identifier or without, and each of its outputs can be looked up in the bytes.
\<close>

theorem utxo_record_round_trip:
  assumes "db_setup cfg ok" "record_ok ok rec"
  shows "\<exists>d full. serialize (uc_fmt cfg) (uc_alloc cfg) rec False None = Inr (Some d) \<and>
      serialize (uc_fmt cfg) (uc_alloc cfg) rec True None = Inr (Some full) \<and>
      NewUtxoRec (uc_fmt cfg) (take 8 (ur_TxID rec)) \<lparr>sl_data = d, sl_spare = []\<rparr> = Some (Inr rec) \<and>
      FullUtxoRec (uc_fmt cfg) \<lparr>sl_data = full, sl_spare = []\<rparr> = Some (Inr rec) \<and>
      OneUtxoRec (uc_fmt cfg) \<lparr>sl_data = d, sl_spare = []\<rparr> v = Some (Inr (lookup_out rec v))"
proof -
  note fmt = db_setup_format [OF assms(1)]
  have s: "serialize (uc_fmt cfg) (uc_alloc cfg) rec b None =
      Inr (Some ((if b then ur_TxID rec else drop 8 (ur_TxID rec)) @ rec_bytes (uc_fmt cfg) rec))" for b
    using serialize_eq [of "uc_alloc cfg" rec b "uc_fmt cfg" None] db_setup_alloc [OF assms(1)] assms(2) by (simp add: record_ok_def)
  show ?thesis
    using s [of False] s [of True] record_format.NewUtxoRec_bytes [OF fmt assms(2)] record_format.FullUtxoRec_bytes [OF fmt assms(2)]
      record_format.OneUtxoRec_bytes [OF fmt assms(2)] by simp
qed

theorem utxo_record_round_trip_witness:
  "\<exists>d. serialize (compressed sample_keys_ops) (\<lambda>n. replicate n 0) sample_rec False None = Inr (Some d) \<and>
     NewUtxoRec (compressed sample_keys_ops) (replicate 8 7) \<lparr>sl_data = d, sl_spare = []\<rparr> = Some (Inr sample_rec)"
  using utxo_record_round_trip [OF sample_setup sample_rec_ok(2)]
  by (auto simp: sample_rec_def sample_cfg_def compressed_cfg_def)

text \<open>
  A script the compressed format shortens is restored, and its length is the one the reader expects from its
  first byte. The curve is a parameter: it has to restore the valid keys it is given.
\<close>

theorem script_compression_round_trip:
  assumes "CompressScript ks scr = Some c" "\<forall>pk. scr = 65 # pk @ [0xac] \<longrightarrow> length pk = 65 \<longrightarrow> key_valid ks pk \<longrightarrow> expands ks pk"
  shows "DecompressScript ks c = Inr scr \<and> int (length c) = ComprScrLen ! unat (hd c)"
  using CompressScript_form [OF assms(1)] assms(2) by blast

theorem script_compression_round_trip_witness:
  "DecompressScript sample_keys_ops (0 # replicate 20 9) = Inr ([0x76, 0xa9, 20] @ replicate 20 9 @ [0x88, 0xac])"
proof -
  have "CompressScript sample_keys_ops ([0x76, 0xa9, 20] @ replicate 20 9 @ [0x88, 0xac]) = Some (0 # replicate 20 9)"
    by (simp add: CompressScript_def IsP2KH_def numeral_nat)
  from script_compression_round_trip [OF this] show ?thesis by (simp add: sample_keys_ops_def)
qed

text \<open>
  C33. A stored record of the plain format that ends within the index, the value or the script length of one of its
  outputs makes its reader \<open>NewUtxoRecU\<close> run forever: the length readers return zero bytes consumed, and the loop does
  not check for it. The outputs before the cut are complete, and the record has at least one.
\<close>

theorem truncated_record_never_returns:
  assumes "length h = 24" "length (ur_Outs rec) < 2 ^ 32" "ur_Outs rec \<noteq> []"
    "ur_Outs rec = rs @ rs'" "outs_ok plain_ok rs" "output_part (length (ur_Outs rec)) part" "cut_length xs"
    "sl_data dat = h @ WriteVlen b @ WriteVlen (out_count rec) @ outs_bytes plain 0 rs @ part @ xs"
  shows "NewUtxoRecU key dat = None"
  using NewUtxoRec_cut [OF assms] by (simp add: NewUtxoRecU_def)

theorem truncated_record_never_returns_witness:
  "NewUtxoRecU (replicate 8 7) \<lparr>sl_data = replicate 24 7 @ WriteVlen 90 @ WriteVlen (out_count sample_rec)
      @ outs_bytes plain 0 [Some \<lparr>uo_Value = 5000, uo_PKScr = [0x51]\<rparr>] @ vlen_of 1 @ [0xfd], sl_spare = []\<rparr> = None"
proof -
  have "WriteVlen 6000 = 0xfd # le_bytes 2 (6000 :: u16)" by (simp add: WriteVlen_def)
  then have cut: "cut_length [0xfd]" unfolding cut_length_def by (intro exI [of _ 6000] exI [of _ 1]) simp
  show ?thesis
    by (rule truncated_record_never_returns [OF _ _ _ _ _ _ cut, where rec = sample_rec and part = "vlen_of 1"
          and rs' = "[Some \<lparr>uo_Value = 6000, uo_PKScr = [0x51]\<rparr>]"])
       (auto simp: sample_rec_def outs_ok_def plain_ok_def output_part_def)
qed

section \<open>Blocks\<close>

text \<open>
  C19. A block's bytes are read back: the header and the transactions, with their identifiers, the weight of the block,
  and the bytes without witnesses.
\<close>

theorem block_round_trip:
  assumes "length hdr = 80" "ts \<noteq> []" "list_all valid_tx ts" "length ts \<le> 2 ^ 45"
  shows "\<exists>bl0 bl bl'. NewBlockX \<lparr>sl_data = block_bytes hdr ts, sl_spare = spare\<rparr> h = Inr (None, bl0) \<and>
    BuildTxList bl0 = Inr (None, bl) \<and>
    txs_of bl = map (\<lambda>(j, t). Some (block_tx j t)) (enumerate 0 ts) \<and>
    bl_BlockWeight bl = 4 * (80 + of_nat (VLenSize (of_nat (length ts)))) + (\<Sum>t\<leftarrow>ts. tx_weight t) \<and>
    BuildNoWitnessData bl = Inr (None, bl') \<and>
    bl_NoWitnessData bl' = hdr @ vlen_of (length ts) @ concat (map stripped ts)"
  by (rule BuildTxList_block_bytes) (use assms in simp_all)

theorem block_round_trip_witness:
  "\<exists>bl0 bl. NewBlockX \<lparr>sl_data = block_bytes (replicate 80 0) [sample_tx [1], sample_tx [1]], sl_spare = []\<rparr> [] = Inr (None, bl0) \<and>
    BuildTxList bl0 = Inr (None, bl) \<and> txs_of bl = [Some (block_tx 0 (sample_tx [1])), Some (block_tx 1 (sample_tx [1]))]"
  using block_round_trip [of "replicate 80 0" "[sample_tx [1], sample_tx [1]]"] sample_valid by fastforce

text \<open>
  C21. The Merkle root commits to the transactions: two lists of identifiers whose trees have the same depth and which
  give the same root, neither of them flagged as mutated, are equal, or two different inputs of the hash with the
  same value can be found among the nodes of the trees.
\<close>

theorem merkle_root_commits:
  assumes "CalcMerkle xs = Inr (r, False)" "CalcMerkle ys = Inr (r, False)"
    "merkle_depth (length xs) = merkle_depth (length ys)" "hash_list xs" "hash_list ys"
  shows "xs = ys \<or> collision (tree_nodes xs) (tree_nodes ys)"
  using assms by (rule CalcMerkle_inj)

theorem merkle_root_commits_witness:
  "\<exists>r. CalcMerkle [replicate 32 1, replicate 32 2] = Inr (r, False) \<and>
     ([replicate 32 1, replicate 32 2] = [replicate 32 1, replicate 32 2 :: bytes] \<or>
      collision (tree_nodes [replicate 32 1, replicate 32 2]) (tree_nodes [replicate 32 1, replicate 32 2]))"
proof -
  obtain r where r: "CalcMerkle [replicate 32 1, replicate 32 2] = Inr (r, False)"
    by (simp add: CalcMerkle_root merkle_root.simps hash_differ)
  show ?thesis using merkle_root_commits [OF r r] r by simp
qed

text \<open>
  C34. Repeating the last transaction of a list of odd length, of more than one transaction, leaves the root as it is and raises the flag with which
  \<open>MerkleRootMatch\<close> rejects the block.
\<close>

theorem repeated_transaction_is_flagged:
  assumes "odd (length xs)" "length xs > 1"
  shows "\<exists>r m. CalcMerkle xs = Inr (r, m) \<and> CalcMerkle (xs @ [last xs]) = Inr (r, True)"
  using assms by (rule CalcMerkle_repeat)

theorem repeated_transaction_is_flagged_witness:
  "\<exists>r m. CalcMerkle [[1], [2], [3]] = Inr (r, m) \<and> CalcMerkle [[1], [2], [3], [3]] = Inr (r, True)"
  using repeated_transaction_is_flagged [of "[[1], [2], [3]]"] by simp

section \<open>Targets and the subsidy\<close>

text \<open>
  C35. Compact targets: a target written and read back is never larger and loses less than one part in \<open>2 ^ 15\<close>; an
  encoding with a mantissa of full size is read and written back unchanged.
\<close>

theorem compact_target_round_trip:
  assumes "t > 0" "byte_len t < 255" "2 ^ 15 \<le> m" "m < 2 ^ 23" "3 \<le> k" "k < 256"
  shows "(\<exists>r. SetCompact (GetCompact (int t)) = int r \<and> r \<le> t \<and> 2 ^ 15 * (t - r) < t) \<and>
    GetCompact (SetCompact (compact_of m k)) = compact_of m k"
  using SetCompact_GetCompact [OF assms(1,2)] GetCompact_SetCompact [OF assms(3-6)] by blast

theorem compact_target_round_trip_witness:
  "\<exists>r. SetCompact (GetCompact 0x12345678) = int r \<and> r \<le> 0x12345678 \<and> 2 ^ 15 * (0x12345678 - r) < 0x12345678"
  using compact_target_round_trip [where t = "0x12345678" and m = "0xffff" and k = "0x1d"] by (simp add: byte_len.simps)

text \<open>C36. All subsidies together, over every height of 32 bits, are at most 21 million coins.\<close>

theorem subsidy_is_capped:
  assumes "n \<le> 2 ^ 32"
  shows "(\<Sum>h<n. unat (GetBlockReward (of_nat h))) \<le> 21000000 * 100000000"
  using total_reward [OF assms] by simp

theorem subsidy_is_capped_witness: "(\<Sum>h<2 ^ 32. unat (GetBlockReward (of_nat h))) \<le> 21000000 * 100000000"
  by (rule subsidy_is_capped) simp

end
