(* ===== verification/Snappy.thy ===== *)
theory Snappy
  imports Encoding
begin

text \<open>
  The compression of the blocks on disk, \<open>lib/others/snappy\<close>: \<open>Decode\<close> and \<open>Encode\<close> with the routines of
  \<open>decode_other.go\<close> and \<open>encode_other.go\<close> (the assembly for amd64 says it follows them). The destination is written
  from its start only; the model returns what is written, and \<open>SnappyEncode\<close> shows that the buffer of \<open>MaxEncodedLen\<close>
  bytes is long enough. The framing format (\<open>Reader\<close>, \<open>Writer\<close>), which the program does not use, is left out.
\<close>

section \<open>The varints of the Go library\<close>

fun PutUvarint :: "nat \<Rightarrow> bytes" where
  "PutUvarint x = (if x < 128 then [of_nat x] else of_nat (x mod 128 + 128) # PutUvarint (x div 128))"

declare PutUvarint.simps [simp del]

text \<open>The value and the bytes read: 0 if the bytes end, less if the value does not fit 64 bits.\<close>

fun uvarint :: "nat \<Rightarrow> u64 \<Rightarrow> bytes \<Rightarrow> u64 \<times> int" where
  "uvarint i x [] = (0, 0)"
| "uvarint i x (b # bs) =
     (if i = 10 then (0, - int (i + 1))
      else if b < 0x80 then (if i = 9 \<and> b > 1 then (0, - int (i + 1)) else (x OR push_bit (7 * i) (ucast b), int (i + 1)))
      else uvarint (i + 1) (x OR push_bit (7 * i) (ucast (b AND 0x7f))) bs)"

definition Uvarint :: "bytes \<Rightarrow> u64 \<times> int" where
  "Uvarint bs = uvarint 0 0 bs"

section \<open>Decoding\<close>

datatype snappy_error = ErrCorrupt | UnsupportedLiteralLength

definition decodedLen :: "bytes \<Rightarrow> snappy_error + nat \<times> nat" where
  "decodedLen src =
     (let (v, n) = Uvarint src in if n \<le> 0 \<or> v > 0xffffffff then Inl ErrCorrupt else Inr (unat v, nat n))"

text \<open>A tag and what is read behind it: the length less one of a literal, or the length and the offset of a copy.\<close>

datatype snappy_chunk = LiteralChunk u32 | CopyChunk nat nat

definition read_tag :: "byte \<Rightarrow> bytes \<Rightarrow> snappy_error + snappy_chunk \<times> bytes" where
  "read_tag t xs =
     (if t AND 0x03 = 0 then
        let x = drop_bit 2 t; k = (if x < 60 then 0 else unat x - 59) in
        if length xs < k then Inl ErrCorrupt
        else Inr (LiteralChunk (if x < 60 then ucast x else le_word (take k xs)), drop k xs)
      else if t AND 0x03 = 1 then
        if length xs < 1 then Inl ErrCorrupt
        else Inr (CopyChunk (4 + unat (drop_bit 2 t AND 0x7))
                    (unat (push_bit 3 (ucast t AND 0xe0) OR ucast (xs ! 0) :: u32)), drop 1 xs)
      else
        let k = (if t AND 0x03 = 2 then 2 else 4) in
        if length xs < k then Inl ErrCorrupt
        else Inr (CopyChunk (1 + unat (drop_bit 2 t)) (unat (le_word (take k xs) :: u32)), drop k xs))"

lemma read_tag_shorter: "read_tag t xs = Inr (c, ys) \<Longrightarrow> length ys \<le> length xs"
  by (auto simp: read_tag_def Let_def split: if_splits)

text \<open>The bytes are copied one by one, so that a copy may reach into what it writes.\<close>

fun forwardCopy :: "nat \<Rightarrow> nat \<Rightarrow> bytes \<Rightarrow> bytes" where
  "forwardCopy offset 0 dst = dst"
| "forwardCopy offset (Suc k) dst = forwardCopy offset k (dst @ [dst ! (length dst - offset)])"

text \<open>\<open>dst\<close> holds what is written of the \<open>n\<close> bytes.\<close>

function decode :: "nat \<Rightarrow> bytes \<Rightarrow> bytes \<Rightarrow> snappy_error + bytes" where
  "decode n dst [] = (if length dst \<noteq> n then Inl ErrCorrupt else Inr dst)"
| "decode n dst (t # xs) =
     andThen (read_tag t xs) (\<lambda>(c, ys).
     case c of
       LiteralChunk x \<Rightarrow>
         let len = int (unat x) + 1 in
         if len \<le> 0 then Inl UnsupportedLiteralLength
         else if len > int n - int (length dst) \<or> len > int (length ys) then Inl ErrCorrupt
         else decode n (dst @ take (nat len) ys) (drop (nat len) ys)
     | CopyChunk len offset \<Rightarrow>
         if offset \<le> 0 \<or> length dst < offset \<or> int len > int n - int (length dst) then Inl ErrCorrupt
         else decode n (forwardCopy offset len dst) ys)"
  by pat_completeness auto
termination by (relation "measure (\<lambda>(n, dst, src). length src)") (auto dest!: read_tag_shorter)

definition Decode :: "bytes \<Rightarrow> snappy_error + bytes" where
  "Decode src = andThen (decodedLen src) (\<lambda>(n, s). decode n [] (drop s src))"

section \<open>Chunks\<close>

definition emitLiteral :: "bytes \<Rightarrow> bytes" where
  "emitLiteral lit =
     (let n = word_of_int (int (length lit) - 1) :: u64 in
      if n < 60 then [push_bit 2 (ucast n)] @ lit
      else if n < 256 then [0xf0, ucast n] @ lit
      else [0xf4, ucast n, ucast (drop_bit 8 n)] @ lit)"

definition copy2 :: "nat \<Rightarrow> nat \<Rightarrow> bytes" where
  "copy2 offset len = [push_bit 2 (of_nat len - 1) OR 0x02, of_nat offset, of_nat (drop_bit 8 offset)]"

fun emitCopy :: "nat \<Rightarrow> nat \<Rightarrow> bytes" where
  "emitCopy offset len =
     (if len \<ge> 68 then copy2 offset 64 @ emitCopy offset (len - 64)
      else if len > 64 then copy2 offset 60 @ emitCopy offset (len - 60)
      else if len \<ge> 12 \<or> offset \<ge> 2048 then copy2 offset len
      else [push_bit 5 (of_nat (drop_bit 8 offset)) OR push_bit 2 (of_nat len - 4) OR 0x01, of_nat offset])"

declare emitCopy.simps [simp del]

section \<open>Looking for matches\<close>

definition load32 :: "bytes \<Rightarrow> nat \<Rightarrow> go_panic + u32" where
  "load32 b i = (if i + 4 \<le> length b then Inr (le_word (take 4 (drop i b))) else Inl SliceOutOfRange)"

definition load64 :: "bytes \<Rightarrow> nat \<Rightarrow> go_panic + u64" where
  "load64 b i = (if i + 8 \<le> length b then Inr (le_word (take 8 (drop i b))) else Inl SliceOutOfRange)"

definition snappy_hash :: "u32 \<Rightarrow> nat \<Rightarrow> u32" where
  "snappy_hash u sh = drop_bit sh (u * 0x1e35a7bd)"

type_synonym table = "nat \<Rightarrow> u16"

definition slot :: "u32 \<Rightarrow> nat" where
  "slot h = unat (h AND 0x3fff)"

text \<open>The inner loop over the input \<open>p\<close>: \<open>skip\<close> is \<open>32 + k\<close>, so that it always moves on.\<close>

function find_match :: "bytes \<Rightarrow> nat \<Rightarrow> nat \<Rightarrow> nat \<Rightarrow> nat \<Rightarrow> u32 \<Rightarrow> table \<Rightarrow> go_panic + (nat \<times> nat \<times> table) option" where
  "find_match p sLimit sh s k h tab =
     (let lookups = (32 + k) div 32; nextS = s + lookups in
      if nextS > sLimit then Inr None
      else
        let candidate = unat (tab (slot h)); tab = tab(slot h := of_nat s) in
        andThen (load32 p nextS) (\<lambda>u.
        andThen (load32 p s) (\<lambda>a.
        andThen (load32 p candidate) (\<lambda>b.
        if a = b then Inr (Some (s, candidate, tab))
        else find_match p sLimit sh nextS (k + lookups) (snappy_hash u sh) tab))))"
  by pat_completeness auto
termination by (relation "measure (\<lambda>(p, sLimit, sh, s, k, h, tab). Suc sLimit - s)") auto

function extendMatch :: "bytes \<Rightarrow> nat \<Rightarrow> nat \<Rightarrow> nat" where
  "extendMatch src i j = (if j < length src \<and> src ! i = src ! j then extendMatch src (i + 1) (j + 1) else j)"
  by pat_completeness auto
termination by (relation "measure (\<lambda>(src, i, j). length src - j)") auto

declare find_match.simps [simp del] extendMatch.simps [simp del]

lemma extendMatch_ge: "j \<le> extendMatch src i j"
proof (induction src i j rule: extendMatch.induct)
  case (1 src i j)
  then show ?case by (subst extendMatch.simps) auto
qed

text \<open>The loop of copies at \<open>s\<close>: the chunks, the first byte that is not emitted, and where the search goes on.\<close>

function emit_copies :: "bytes \<Rightarrow> nat \<Rightarrow> nat \<Rightarrow> nat \<Rightarrow> nat \<Rightarrow> table \<Rightarrow> go_panic + bytes \<times> nat \<times> (nat \<times> u32 \<times> table) option" where
  "emit_copies p sLimit sh base candidate tab =
     (let s = extendMatch p (candidate + 4) (base + 4); out = emitCopy (base - candidate) (s - base) in
      if s \<ge> sLimit then Inr (out, s, None)
      else
        andThen (load64 p (s - 1)) (\<lambda>x.
        let tab = tab(slot (snappy_hash (ucast x) sh) := of_nat (s - 1));
            currHash = snappy_hash (ucast (drop_bit 8 x)) sh;
            candidate = unat (tab (slot currHash));
            tab = tab(slot currHash := of_nat s) in
        andThen (load32 p candidate) (\<lambda>b.
        if ucast (drop_bit 8 x) \<noteq> b then Inr (out, s, Some (s + 1, snappy_hash (ucast (drop_bit 16 x)) sh, tab))
        else andThen (emit_copies p sLimit sh s candidate tab) (\<lambda>(more, r). Inr (out @ more, r)))))"
  by pat_completeness auto
termination
proof (relation "measure (\<lambda>(p, sLimit, sh, base, candidate, tab). sLimit - base)", goal_cases)
  case (2 p sLimit sh base candidate tab s)
  then show ?case using extendMatch_ge [of "base + 4" p "candidate + 4"] by auto
qed simp

declare emit_copies.simps [simp del]

section \<open>A block\<close>

fun table_shift :: "nat \<Rightarrow> nat \<Rightarrow> nat \<Rightarrow> nat" where
  "table_shift 0 n sh = sh"
| "table_shift (Suc k) n sh = (if 2 ^ (13 - k) < n then table_shift k n (sh - 1) else sh)"

definition last_literal :: "bytes \<Rightarrow> nat \<Rightarrow> bytes" where
  "last_literal p nextEmit = (if nextEmit < length p then emitLiteral (drop nextEmit p) else [])"

lemma find_match_at: "find_match p sLimit sh s k h tab = Inr (Some (s1, c, tab1)) \<Longrightarrow> s \<le> s1 \<and> s1 < sLimit"
proof (induction p sLimit sh s k h tab rule: find_match.induct)
  case (1 p sLimit sh s k h tab)
  let ?n = "s + (32 + k) div 32"
  have l: "s < ?n" by simp
  from 1(2) have n: "\<not> ?n > sLimit" by (subst (asm) find_match.simps) (auto simp: Let_def split: if_splits)
  from 1(2) obtain u a b where u: "load32 p ?n = Inr u" "load32 p s = Inr a" "load32 p (unat (tab (slot h))) = Inr b"
    and r: "(if a = b then Inr (Some (s, unat (tab (slot h)), tab(slot h := of_nat s)))
        else find_match p sLimit sh ?n (k + (32 + k) div 32) (snappy_hash u sh) (tab(slot h := of_nat s))) = Inr (Some (s1, c, tab1))"
    by (subst (asm) find_match.simps) (simp only: Let_def if_not_P [OF n] andThen_ok, blast)
  show ?case
  proof (cases "a = b")
    case True
    then show ?thesis using r l n by auto
  next
    case False
    then have "find_match p sLimit sh ?n (k + (32 + k) div 32) (snappy_hash u sh) (tab(slot h := of_nat s)) = Inr (Some (s1, c, tab1))" using r by simp
    from 1(1) [OF refl refl n refl refl u False this] show ?thesis by simp
  qed
qed

lemma emit_copies_at: "emit_copies p sLimit sh base c tab = Inr (out, e, Some (s, h, tab1)) \<Longrightarrow> base + 5 \<le> s \<and> s \<le> sLimit \<and> s = e + 1"
proof (induction p sLimit sh base c tab arbitrary: out rule: emit_copies.induct)
  case (1 p sLimit sh base c tab)
  let ?s = "extendMatch p (c + 4) (base + 4)"
  have g: "base + 4 \<le> ?s" by (rule extendMatch_ge)
  from 1(2) have n: "\<not> ?s \<ge> sLimit" by (subst (asm) emit_copies.simps) (auto simp: Let_def split: if_splits)
  from 1(2) obtain x where x: "load64 p (?s - 1) = Inr x" by (subst (asm) emit_copies.simps) (auto simp: Let_def ok_iff split: if_splits)
  note e = 1(2) [unfolded emit_copies.simps [of p sLimit sh base c tab] Let_def if_not_P [OF n] x andThen_simps]
  from e obtain b where b: "load32 p (unat ((tab(slot (snappy_hash (ucast x) sh) := of_nat (?s - 1))) (slot (snappy_hash (ucast (drop_bit 8 x)) sh)))) = Inr b"
    by (auto simp: ok_iff)
  show ?case
  proof (cases "ucast (drop_bit 8 x) \<noteq> b")
    case True
    then show ?thesis using e g n unfolding b andThen_simps by auto
  next
    case False
    from e obtain more r where m: "emit_copies p sLimit sh ?s (unat ((tab(slot (snappy_hash (ucast x) sh) := of_nat (?s - 1))) (slot (snappy_hash (ucast (drop_bit 8 x)) sh))))
        ((tab(slot (snappy_hash (ucast x) sh) := of_nat (?s - 1)))(slot (snappy_hash (ucast (drop_bit 8 x)) sh) := of_nat ?s)) = Inr (more, r)"
        "r = (e, Some (s, h, tab1))"
      unfolding b andThen_simps if_not_P [OF False] by (auto simp: ok_iff)
    from 1(1) [OF refl refl n x refl refl refl refl b False m(1) [unfolded m(2)]] g show ?thesis by linarith
  qed
qed

definition sub_list :: "bytes \<Rightarrow> nat \<Rightarrow> nat \<Rightarrow> go_panic + bytes" where
  "sub_list p lo hi = (if lo \<le> hi \<and> hi \<le> length p then Inr (take (hi - lo) (drop lo p)) else Inl SliceOutOfRange)"

function encode_main :: "bytes \<Rightarrow> nat \<Rightarrow> nat \<Rightarrow> nat \<Rightarrow> nat \<Rightarrow> u32 \<Rightarrow> table \<Rightarrow> go_panic + bytes" where
  "encode_main p sLimit sh s nextEmit h tab =
     andThen (find_match p sLimit sh s 0 h tab) (\<lambda>r.
     case r of
       None \<Rightarrow> Inr (last_literal p nextEmit)
     | Some (s, candidate, tab) \<Rightarrow>
         andThen (sub_list p nextEmit s) (\<lambda>lit.
         andThen (emit_copies p sLimit sh s candidate tab) (\<lambda>(out, nextEmit, r).
         case r of
           None \<Rightarrow> Inr (emitLiteral lit @ out @ last_literal p nextEmit)
         | Some (s, h, tab) \<Rightarrow>
             andThen (encode_main p sLimit sh s nextEmit h tab) (\<lambda>more. Inr (emitLiteral lit @ out @ more)))))"
  by pat_completeness auto
termination
  by (relation "measure (\<lambda>(p, sLimit, sh, s, nextEmit, h, tab). Suc sLimit - s)")
     (auto dest!: find_match_at emit_copies_at)

declare encode_main.simps [simp del]

text \<open>The tables have \<open>2 ^ 8\<close> to \<open>2 ^ 14\<close> entries.\<close>

definition encodeBlock :: "bytes \<Rightarrow> go_panic + bytes" where
  "encodeBlock p =
     (let sh = table_shift 6 (length p) 24 in
      andThen (load32 p 1) (\<lambda>u. encode_main p (length p - 15) sh 1 0 (snappy_hash u sh) (\<lambda>_. 0)))"

section \<open>Encoding\<close>

definition MaxEncodedLen :: "nat \<Rightarrow> int" where
  "MaxEncodedLen n =
     (if n > 0xffffffff then -1
      else let m = 32 + n + n div 6 in if m > 0xffffffff then -1 else int m)"

function encode_blocks :: "bytes \<Rightarrow> go_panic + bytes" where
  "encode_blocks src =
     (if src = [] then Inr []
      else
        let p = take 65536 src in
        andThen (if length p < 17 then Inr (emitLiteral p) else encodeBlock p) (\<lambda>b.
        andThen (encode_blocks (drop 65536 src)) (\<lambda>more. Inr (b @ more))))"
  by pat_completeness auto
termination by (relation "measure length") auto

declare encode_blocks.simps [simp del]

definition Encode :: "bytes \<Rightarrow> go_panic + bytes" where
  "Encode src =
     (if MaxEncodedLen (length src) < 0 then Inl (ExplicitPanic ''snappy: decoded block is too large'')
      else andThen (encode_blocks src) (\<lambda>b. Inr (PutUvarint (length src) @ b)))"

end
