(* ===== verification/BlockDb.thy ===== *)
theory BlockDb
  imports Block Snappy "HOL-Library.AList"
begin

text \<open>
  The database of blocks (\<open>lib/chain/blockdb.go\<close>): an index file of 136-byte records, data files, an index and a
  cache in memory, and a queue of blocks to be written. The files are byte lists; the name of a data file is its
  number, wherever the file is (\<open>oldat\<close> or not). System calls succeed; \<open>time.Now()\<close> is a clock that advances. Blocks
  are compressed by \<open>lib/others/snappy\<close>; reading with Go's \<open>gzip\<close>, the older format, is a parameter (\<open>bo_gz\<close>).
\<close>

section \<open>State\<close>

record one_bl =
  ob_fpos :: u64
  ob_ipos :: int
  ob_blen :: u32
  ob_olen :: u32
  ob_datfileidx :: u32
  ob_trusted :: bool
  ob_compressed :: bool
  ob_snappied :: bool

record cache_rec =
  cr_Data :: bytes
  cr_LastUsed :: nat

record one_b2w =
  bw_idx :: bytes
  bw_h :: bytes
  bw_data :: bytes
  bw_height :: u32
  bw_txcount :: u32

record block_db =
  bd_blockIndex :: "bytes \<Rightarrow> one_bl option"
  bd_cache :: "(bytes \<times> cache_rec) list"
  bd_blocksToWrite :: "one_b2w list"
  bd_datToWrite :: u64
  bd_blockindx :: bytes
  bd_dat :: "u32 \<Rightarrow> bytes option"
  bd_maxidxfilepos :: nat
  bd_maxdatfilepos :: nat
  bd_maxdatfileidx :: u32
  bd_clock :: nat

record bdb_opts =
  bo_gz :: "bytes \<Rightarrow> bytes"
  bo_MaxCachedBlocks :: int
  bo_max_data_file_size :: u64
  bo_data_files_keep :: u32
  bo_data_files_backup :: bool
  bo_CompressOnDisk :: bool

datatype bdb_error = NotInIndex | NotWrittenNotCached | PurgedFromDisk | DataFileMissing | DataFileShort | SnappyFailed

abbreviation (input) BLOCK_TRUSTED :: byte where "BLOCK_TRUSTED \<equiv> 0x01"
abbreviation (input) BLOCK_INVALID :: byte where "BLOCK_INVALID \<equiv> 0x02"
abbreviation (input) BLOCK_COMPRSD :: byte where "BLOCK_COMPRSD \<equiv> 0x04"
abbreviation (input) BLOCK_SNAPPED :: byte where "BLOCK_SNAPPED \<equiv> 0x08"
abbreviation (input) BLOCK_LENGTH :: byte where "BLOCK_LENGTH \<equiv> 0x10"
abbreviation (input) BLOCK_INDEX :: byte where "BLOCK_INDEX \<equiv> 0x20"

abbreviation (input) MAX_BLOCKS_TO_WRITE :: nat where "MAX_BLOCKS_TO_WRITE \<equiv> 1024"
abbreviation (input) MAX_DATA_WRITE :: u64 where "MAX_DATA_WRITE \<equiv> 16 * 1024 * 1024"

definition BIdx :: "bytes \<Rightarrow> bytes" where
  "BIdx h = take 8 h"

text \<open>Writing into a file: a gap is filled with zeros.\<close>

definition write_at :: "nat \<Rightarrow> bytes \<Rightarrow> bytes \<Rightarrow> bytes" where
  "write_at pos d f = take pos (f @ replicate (pos - length f) 0) @ d @ drop (pos + length d) f"

section \<open>The cache\<close>

text \<open>The loop of \<open>addToCache\<close> that looks for the oldest block on disk.\<close>

fun oldest :: "(bytes \<Rightarrow> one_bl option) \<Rightarrow> (bytes \<times> cache_rec) list \<Rightarrow> (bytes \<times> nat) option \<Rightarrow> go_panic + (bytes \<times> nat) option" where
  "oldest ix [] acc = Inr acc"
| "oldest ix ((k, v) # cs) acc =
     (if (case acc of None \<Rightarrow> True | Some (_, t) \<Rightarrow> cr_LastUsed v < t) then
        andThen (deref (ix k)) (\<lambda>rec. oldest ix cs (if ob_ipos rec \<noteq> - 1 then Some (k, cr_LastUsed v) else acc))
      else oldest ix cs acc)"

lemma oldest_mem: "oldest ix cs acc = Inr (Some (k, t)) \<Longrightarrow> acc = Some (k, t) \<or> k \<in> fst ` set cs"
proof (induction cs arbitrary: acc)
  case (Cons c cs)
  obtain k' v where c: "c = (k', v)" by fastforce
  from Cons.prems obtain acc' where "oldest ix cs acc' = Inr (Some (k, t))" "acc' = acc \<or> acc' = Some (k', cr_LastUsed v)"
    by (auto simp: c ok_iff split: if_splits)
  with Cons.IH c show ?case by fastforce
qed simp

lemma length_delete_mem: "k \<in> fst ` set cs \<Longrightarrow> length (AList.delete k cs) < length cs"
proof (induction cs)
  case (Cons c cs)
  show ?case
  proof (cases "fst c = k")
    case True
    then show ?thesis using length_delete_le [of k cs] by (cases c) (simp add: less_Suc_eq_le)
  next
    case False
    then show ?thesis using Cons by (cases c) simp
  qed
qed simp

function evict :: "nat \<Rightarrow> (bytes \<Rightarrow> one_bl option) \<Rightarrow> (bytes \<times> cache_rec) list \<Rightarrow> go_panic + (bytes \<times> cache_rec) list" where
  "evict maxc ix cache =
     (if length cache \<ge> maxc then
        (case oldest ix cache None of
           Inl e \<Rightarrow> Inl e
         | Inr None \<Rightarrow> Inr cache
         | Inr (Some (k, _)) \<Rightarrow> evict maxc ix (AList.delete k cache))
      else Inr cache)"
  by pat_completeness auto
termination
proof (relation "measure (\<lambda>(_, _, c). length c)")
  fix maxc :: nat and ix cache x and y :: "bytes \<times> nat" and k t
  assume "oldest ix cache None = Inr x" "x = Some y" "(k, t) = y"
  then have "k \<in> fst ` set cache" using oldest_mem [of ix cache None k t] by simp
  from length_delete_mem [OF this]
  show "((maxc, ix, AList.delete k cache), maxc, ix, cache) \<in> measure (\<lambda>(_, _, c). length c)" by simp
qed simp

declare evict.simps [simp del]

text \<open>The size of the cache, as \<open>NewBlockDBExt\<close> sets it.\<close>

definition max_cached_blocks :: "bdb_opts \<Rightarrow> nat" where
  "max_cached_blocks opts = (if bo_MaxCachedBlocks opts > 0 then nat (bo_MaxCachedBlocks opts) else 100)"

definition addToCache :: "bdb_opts \<Rightarrow> bytes \<Rightarrow> bytes \<Rightarrow> block_db \<Rightarrow> go_panic + cache_rec \<times> block_db" where
  "addToCache opts h bl db =
     (let k = BIdx h; now = bd_clock db; db = db\<lparr>bd_clock := Suc now\<rparr> in
      case map_of (bd_cache db) k of
        Some crec \<Rightarrow>
          let crec = crec\<lparr>cr_LastUsed := now\<rparr> in
          Inr (crec, db\<lparr>bd_cache := AList.update k crec (bd_cache db)\<rparr>)
      | None \<Rightarrow>
          andThen (evict (max_cached_blocks opts) (bd_blockIndex db) (bd_cache db)) (\<lambda>cache.
          let crec = \<lparr>cr_Data = bl, cr_LastUsed = now\<rparr> in
          Inr (crec, db\<lparr>bd_cache := AList.update k crec cache\<rparr>)))"

section \<open>Writing\<close>

text \<open>The record of a block in the index file.\<close>

definition index_record :: "one_bl \<Rightarrow> one_b2w \<Rightarrow> go_panic + bytes" where
  "index_record rec b2w =
     andThen (slice_range \<lparr>sl_data = bw_data b2w, sl_spare = []\<rparr> 0 80) (\<lambda>hdr.
     let fl0 = (if ob_compressed rec then BLOCK_COMPRSD else 0) OR (if ob_snappied rec then BLOCK_SNAPPED else 0)
               OR (if ob_trusted rec then BLOCK_TRUSTED else 0) OR (BLOCK_LENGTH OR BLOCK_INDEX)
     in Inr (fl0 # replicate 27 0 @ le_bytes 4 (ob_datfileidx rec) @ le_bytes 4 (of_nat (length (bw_data b2w)) :: u32)
             @ le_bytes 4 (bw_height b2w) @ le_bytes 8 (ob_fpos rec) @ le_bytes 4 (ob_blen rec) @ le_bytes 4 (bw_txcount b2w) @ hdr))"

text \<open>
  Removing an old data file: with the backup option it is moved to the directory \<open>oldat\<close>, where every reader of the code
  looks for a file that is not in the main one, so it stays readable: the model has one map for both directories. That is
  exact as long as the backup option is the one the files were made with: without it the code removes from the main
  directory only, and a file archived by an earlier run would stay.
\<close>

definition removeDatFile :: "bdb_opts \<Rightarrow> u32 \<Rightarrow> (u32 \<Rightarrow> bytes option) \<Rightarrow> u32 \<Rightarrow> bytes option" where
  "removeDatFile opts i dat = (if bo_data_files_backup opts then dat else dat(i := None))"

text \<open>A new data file, when the current one would get too large.\<close>

definition roll_file :: "bdb_opts \<Rightarrow> bytes \<Rightarrow> block_db \<Rightarrow> block_db" where
  "roll_file opts cbts db =
     (if bo_max_data_file_size opts \<noteq> 0 \<and> (of_nat (bd_maxdatfilepos db) + of_nat (length cbts) :: u64) > bo_max_data_file_size opts then
        let idx = bd_maxdatfileidx db;
            dat = (bd_dat db)(idx + 1 \<mapsto> []);
            dat = (if bo_data_files_keep opts \<noteq> 0 \<and> idx \<ge> bo_data_files_keep opts
                   then removeDatFile opts (idx - bo_data_files_keep opts) dat else dat)
        in db\<lparr>bd_dat := dat, bd_maxdatfilepos := 0, bd_maxdatfileidx := idx + 1\<rparr>
      else db)"

definition writeOne :: "bdb_opts \<Rightarrow> block_db \<Rightarrow> go_panic + bool \<times> block_db" where
  "writeOne opts db =
     (case bd_blocksToWrite db of
        [] \<Rightarrow> Inr (False, db)
      | b2w # rest \<Rightarrow>
          let db = db\<lparr>bd_blocksToWrite := rest, bd_datToWrite := bd_datToWrite db - of_nat (length (bw_data b2w))\<rparr> in
          case bd_blockIndex db (bw_idx b2w) of
            None \<Rightarrow> Inr (True, db)
          | Some rec \<Rightarrow>
              if ob_ipos rec \<noteq> - 1 then Inr (True, db)
              else
                let compr = bo_CompressOnDisk opts in
                andThen (if compr then Encode (bw_data b2w) else Inr (bw_data b2w)) (\<lambda>cbts.
                let db = roll_file opts cbts db;
                    rec = rec\<lparr>ob_compressed := compr, ob_snappied := compr, ob_blen := of_nat (length cbts),
                      ob_ipos := int (bd_maxidxfilepos db), ob_datfileidx := bd_maxdatfileidx db,
                      ob_fpos := of_nat (bd_maxdatfilepos db)\<rparr>
                in andThen (index_record rec b2w) (\<lambda>fl.
                   let file = (case bd_dat db (bd_maxdatfileidx db) of None \<Rightarrow> [] | Some f \<Rightarrow> f) in
                   Inr (True, db\<lparr>bd_blockIndex := (bd_blockIndex db)(bw_idx b2w \<mapsto> rec),
                     bd_dat := (bd_dat db)(bd_maxdatfileidx db \<mapsto> write_at (bd_maxdatfilepos db) cbts file),
                     bd_blockindx := write_at (bd_maxidxfilepos db) fl (bd_blockindx db),
                     bd_maxidxfilepos := bd_maxidxfilepos db + 136,
                     bd_maxdatfilepos := bd_maxdatfilepos db + unat (ob_blen rec)\<rparr>))))"

text \<open>\<open>writeAll\<close> writes what is queued; the first result is whether there was anything.\<close>

fun write_n :: "bdb_opts \<Rightarrow> nat \<Rightarrow> block_db \<Rightarrow> go_panic + block_db" where
  "write_n opts 0 db = Inr db"
| "write_n opts (Suc n) db = andThen (writeOne opts db) (\<lambda>(_, db). write_n opts n db)"

definition writeAll :: "bdb_opts \<Rightarrow> block_db \<Rightarrow> go_panic + bool \<times> block_db" where
  "writeAll opts db = andThen (write_n opts (length (bd_blocksToWrite db)) db) (\<lambda>db'. Inr (bd_blocksToWrite db \<noteq> [], db'))"

section \<open>The flags\<close>

text \<open>Reads and writes at a negative offset fail, and the code does not look.\<close>

definition setBlockFlag :: "bytes \<Rightarrow> byte \<Rightarrow> one_bl \<Rightarrow> block_db \<Rightarrow> block_db" where
  "setBlockFlag k fl cur db =
     (let file = bd_blockindx db; i = nat (ob_ipos cur);
          b = (if i < length file then file ! i else 0)
      in db\<lparr>bd_blockIndex := (bd_blockIndex db)(k \<mapsto> cur\<lparr>ob_trusted := True\<rparr>),
            bd_blockindx := (if ob_ipos cur < 0 then file else write_at i [b OR fl] file)\<rparr>)"

definition BlockInvalid :: "bytes \<Rightarrow> block_db \<Rightarrow> go_panic + block_db" where
  "BlockInvalid h db =
     (let k = BIdx h in
      case bd_blockIndex db k of
        None \<Rightarrow> Inr db
      | Some cur \<Rightarrow>
          if ob_trusted cur then Inl (ExplicitPanic ''Trusted block cannot be invalid'')
          else if ob_ipos cur = - 1 then
            Inr (db\<lparr>bd_cache := AList.delete k (bd_cache db), bd_blockIndex := (bd_blockIndex db)(k := None)\<rparr>)
          else Inr (setBlockFlag k BLOCK_INVALID cur db))"

definition BlockTrusted :: "bytes \<Rightarrow> block_db \<Rightarrow> block_db" where
  "BlockTrusted h db =
     (let k = BIdx h in
      case bd_blockIndex db k of
        None \<Rightarrow> db
      | Some cur \<Rightarrow> if \<not> ob_trusted cur then setBlockFlag k BLOCK_TRUSTED cur db else db)"

section \<open>Adding and getting a block\<close>

definition new_bl :: "bool \<Rightarrow> one_bl" where
  "new_bl trusted = \<lparr>ob_fpos = 0, ob_ipos = - 1, ob_blen = 0, ob_olen = 0, ob_datfileidx = 0, ob_trusted = trusted,
     ob_compressed = False, ob_snappied = False\<rparr>"

definition BlockAdd :: "bdb_opts \<Rightarrow> u32 \<Rightarrow> block \<Rightarrow> block_db \<Rightarrow> go_panic + block_db" where
  "BlockAdd opts height bl db =
     (let idx = BIdx (bl_Hash bl); raw = sl_data (bl_Raw bl) in
      case bd_blockIndex db idx of
        None \<Rightarrow>
          andThen (addToCache opts (bl_Hash bl) raw (db\<lparr>bd_blockIndex := (bd_blockIndex db)(idx \<mapsto> new_bl (bl_Trusted bl))\<rparr>)) (\<lambda>(_, db).
          let db = db\<lparr>bd_datToWrite := bd_datToWrite db + of_nat (length raw),
                bd_blocksToWrite := bd_blocksToWrite db @ [\<lparr>bw_idx = idx, bw_h = bl_Hash bl, bw_data = raw, bw_height = height,
                  bw_txcount = word_of_int (bl_TxCount bl)\<rparr>]\<rparr>
          in if length (bd_blocksToWrite db) \<ge> MAX_BLOCKS_TO_WRITE \<or> bd_datToWrite db \<ge> MAX_DATA_WRITE then
               andThen (writeAll opts db) (\<lambda>(sync, db).
               if sync then Inr db else Inl (ExplicitPanic ''many to write but nothing stored''))
             else Inr db)
      | Some rec \<Rightarrow>
          if \<not> ob_trusted rec \<and> bl_Trusted bl then
            (if ob_ipos rec = - 1 then Inr (db\<lparr>bd_blockIndex := (bd_blockIndex db)(idx \<mapsto> rec\<lparr>ob_trusted := True\<rparr>)\<rparr>)
             else Inr (BlockTrusted (bl_Hash bl) db))
          else Inr db)"

text \<open>The bytes of a block on disk, decompressed; with the error of \<open>snappy\<close> the data are nil
  (and nil data, which \<open>Decode\<close> also returns for an empty block, are taken for the error).\<close>

definition read_block :: "bdb_opts \<Rightarrow> one_bl \<Rightarrow> (u32 \<Rightarrow> bytes option) \<Rightarrow> bdb_error + bytes \<times> bdb_error option" where
  "read_block opts rec dat =
     (if ob_ipos rec = - 1 then Inl NotWrittenNotCached
      else if ob_blen rec = 0 then Inl PurgedFromDisk
      else case dat (ob_datfileidx rec) of
             None \<Rightarrow> Inl DataFileMissing
           | Some f \<Rightarrow>
               if unat (ob_fpos rec) + unat (ob_blen rec) > length f then Inl DataFileShort
               else
                 let bl = take (unat (ob_blen rec)) (drop (unat (ob_fpos rec)) f) in
                 if ob_compressed rec then
                   (if ob_snappied rec then
                      (case Decode bl of Inr (x # xs) \<Rightarrow> Inr (x # xs, None) | _ \<Rightarrow> Inr ([], Some SnappyFailed))
                    else Inr (bo_gz opts bl, None))
                 else Inr (bl, None))"

text \<open>\<open>BlockGetInternal\<close>: the data (nil without a record), whether the block is trusted, the error.\<close>

definition BlockGetInternal :: "bdb_opts \<Rightarrow> bytes \<Rightarrow> bool \<Rightarrow> block_db
    \<Rightarrow> go_panic + (bytes option \<times> bool \<times> bdb_error option) \<times> block_db" where
  "BlockGetInternal opts h do_not_cache db =
     (let k = BIdx h in
      case bd_blockIndex db k of
        None \<Rightarrow> Inr ((None, False, Some NotInIndex), db)
      | Some rec \<Rightarrow>
          (case map_of (bd_cache db) k of
             Some crec \<Rightarrow>
               Inr ((Some (cr_Data crec), ob_trusted rec, None),
                    db\<lparr>bd_cache := AList.update k (crec\<lparr>cr_LastUsed := bd_clock db\<rparr>) (bd_cache db), bd_clock := Suc (bd_clock db)\<rparr>)
           | None \<Rightarrow>
               (case read_block opts rec (bd_dat db) of
                  Inl e \<Rightarrow> Inr ((None, ob_trusted rec, Some e), db)
                | Inr (bl, e) \<Rightarrow>
                    let rec' = (if ob_olen rec = 0 then rec\<lparr>ob_olen := of_nat (length bl)\<rparr> else rec);
                        db = db\<lparr>bd_blockIndex := (bd_blockIndex db)(k \<mapsto> rec')\<rparr>
                    in if do_not_cache then Inr ((Some bl, ob_trusted rec, e), db)
                       else andThen (addToCache opts h bl db) (\<lambda>(crec, db). Inr ((Some (cr_Data crec), ob_trusted rec, e), db)))))"

definition BlockGet :: "bdb_opts \<Rightarrow> bytes \<Rightarrow> block_db \<Rightarrow> go_panic + (bytes option \<times> bool \<times> bdb_error option) \<times> block_db" where
  "BlockGet opts h db = BlockGetInternal opts h False db"

definition BlockLength :: "bdb_opts \<Rightarrow> bytes \<Rightarrow> bool \<Rightarrow> block_db \<Rightarrow> go_panic + (u32 \<times> bdb_error option) \<times> block_db" where
  "BlockLength opts h decode_if_needed db =
     (case bd_blockIndex db (BIdx h) of
        None \<Rightarrow> Inr ((0, Some NotInIndex), db)
      | Some rec \<Rightarrow>
          if ob_olen rec \<noteq> 0 then Inr ((ob_olen rec, None), db)
          else if \<not> ob_compressed rec \<or> \<not> decode_if_needed then Inr ((ob_blen rec, None), db)
          else
            andThen (BlockGet opts h db) (\<lambda>((_, _, e), db).
            let olen = (case bd_blockIndex db (BIdx h) of Some rec \<Rightarrow> ob_olen rec | None \<Rightarrow> 0)
            in Inr ((if e = None then olen else 0, e), db)))"

section \<open>Loading the index\<close>

text \<open>What the index file tells of one block, for the tree: hash, header, height, length, number of transactions.\<close>

type_synonym walk_args = "bytes \<times> bytes \<times> u32 \<times> u32 \<times> u32"

definition load_record :: "bytes \<Rightarrow> block_db \<Rightarrow> walk_args option \<times> block_db" where
  "load_record b db =
     (let fl = b ! 0; u32_at = (\<lambda>i. le_word (take 4 (drop i b)) :: u32); h = Sha2Sum (drop 56 b) in
      if fl AND BLOCK_INVALID \<noteq> 0 then (None, db)
      else
        let blen = u32_at 48;
            olen = (if fl AND BLOCK_LENGTH \<noteq> 0 then u32_at 32 else 0);
            blen' = (if fl AND BLOCK_LENGTH \<noteq> 0 then olen else blen);
            fidx = (if fl AND BLOCK_INDEX \<noteq> 0 then u32_at 28 else 0);
            fpos = le_word (take 8 (drop 40 b)) :: u64;
            ob = \<lparr>ob_fpos = fpos, ob_ipos = int (bd_maxidxfilepos db), ob_blen = blen, ob_olen = olen, ob_datfileidx = fidx,
                  ob_trusted = fl AND BLOCK_TRUSTED \<noteq> 0, ob_compressed = fl AND BLOCK_COMPRSD \<noteq> 0,
                  ob_snappied = fl AND BLOCK_SNAPPED \<noteq> 0\<rparr>;
            db = (if blen' > 0 \<and> fidx \<noteq> 0xffffffff \<and> fidx > bd_maxdatfileidx db
                  then db\<lparr>bd_maxdatfileidx := fidx, bd_maxdatfilepos := 0\<rparr> else db);
            db = db\<lparr>bd_blockIndex := (bd_blockIndex db)(BIdx h \<mapsto> ob),
                    bd_maxdatfilepos := max (bd_maxdatfilepos db) (nat (sint (fpos + ucast blen)))\<rparr>
        in (Some (h, drop 56 b, u32_at 36, blen', u32_at 52), db\<lparr>bd_maxidxfilepos := bd_maxidxfilepos db + 136\<rparr>))"

function load_records :: "bytes \<Rightarrow> block_db \<Rightarrow> walk_args list \<times> block_db" where
  "load_records rd db =
     (if length rd < 136 then ([], db)
      else
        let (w, db) = load_record (take 136 rd) db;
            (ws, db) = load_records (drop 136 rd) db
        in ((case w of None \<Rightarrow> [] | Some x \<Rightarrow> [x]) @ ws, db))"
  by pat_completeness auto
termination by (relation "measure (\<lambda>(rd, _). length rd)") auto

declare load_records.simps [simp del]

text \<open>The removal of old data files at the end: up to three, downwards from the first that is too old.\<close>

fun remove_old :: "bdb_opts \<Rightarrow> nat \<Rightarrow> u32 \<Rightarrow> (u32 \<Rightarrow> bytes option) \<Rightarrow> u32 \<Rightarrow> bytes option" where
  "remove_old opts 0 i dat = dat"
| "remove_old opts (Suc n) i dat =
     (let i = i - 1; dat = (if dat i \<noteq> None then removeDatFile opts i dat else dat)
      in if i = 0 then dat else remove_old opts n i dat)"

definition LoadBlockIndex :: "bdb_opts \<Rightarrow> block_db \<Rightarrow> walk_args list \<times> block_db" where
  "LoadBlockIndex opts db =
     (let (ws, db) = load_records (bd_blockindx db) (db\<lparr>bd_maxidxfilepos := 0\<rparr>);
          i = bd_maxdatfileidx db;
          dat = (if bd_dat db i = None then (bd_dat db)(i \<mapsto> []) else bd_dat db);
          dat = (if bo_data_files_keep opts \<noteq> 0 \<and> i > bo_data_files_keep opts
                 then remove_old opts 3 (i - bo_data_files_keep opts) dat else dat)
      in (ws, db\<lparr>bd_dat := dat\<rparr>))"

text \<open>A database that was just opened, over the files it finds.\<close>

definition NewBlockDBExt :: "bytes \<Rightarrow> (u32 \<Rightarrow> bytes option) \<Rightarrow> block_db" where
  "NewBlockDBExt indx dat = \<lparr>bd_blockIndex = (\<lambda>_. None), bd_cache = [], bd_blocksToWrite = [], bd_datToWrite = 0,
     bd_blockindx = indx, bd_dat = dat, bd_maxidxfilepos = 0, bd_maxdatfilepos = 0, bd_maxdatfileidx = 0, bd_clock = 1\<rparr>"

end
