(* ===== verification/BlockTree.thy ===== *)
theory BlockTree
  imports BlockDb UtxoDb
begin

text \<open>
  The chain and its tree of block headers (\<open>lib/chain/chain.go\<close>, \<open>lib/chain/chain_tree.go\<close>). The nodes of the tree
  are a heap: a pointer is an address or nil (\<open>None\<close>), and what the code mutates is updated in the heap. A loop that
  follows parents is a partial function (\<open>None\<close> is a loop that does not end); the recursion over children has fuel
  for its depth.
\<close>

lemma bindR_bind: "bindR m g = Option.bind m (\<lambda>y. case y of Inl e \<Rightarrow> Some (Inl e) | Inr x \<Rightarrow> g x)"
  by (cases m) (auto simp: bindR_def split: sum.split)

lemma bindR_mono [partial_function_mono]:
  assumes "mono_option B" and "\<And>y. mono_option (\<lambda>f. C y f)"
  shows "mono_option (\<lambda>f. bindR (B f) (\<lambda>y. C y f))"
proof -
  have "mono_option (\<lambda>f. case y of Inl e \<Rightarrow> Some (Inl e) | Inr x \<Rightarrow> C x f)" for y
    using assms(2) by (cases y) (auto simp: monotone_def flat_ord_def)
  then show ?thesis unfolding bindR_bind by (rule bind_mono [OF assms(1)])
qed

section \<open>State\<close>

record tree_node =
  tn_BlockHash :: bytes
  tn_Height :: u32
  tn_Parent :: "nat option"
  tn_Childs :: "nat list"
  tn_BlockSize :: u32
  tn_TxCount :: u32
  tn_SigopsCost :: u32
  tn_BlockHeader :: bytes

type_synonym heap = "nat \<Rightarrow> tree_node option"

record consensus =
  co_GensisTimestamp :: u32
  co_MaxPOWBits :: u32
  co_MaxPOWValue :: int
  co_BIP34Height :: u32
  co_BIP65Height :: u32
  co_BIP66Height :: u32
  co_Enforce_CSV :: u32
  co_Enforce_SEGWIT :: u32
  co_Enforce_Taproot :: u32

record chain =
  ch_Blocks :: block_db
  ch_Unspent :: utxo_db
  ch_nodes :: heap
  ch_next :: nat
  ch_BlockTreeRoot :: nat
  ch_blockTreeEnd :: nat
  ch_Genesis :: bytes
  ch_BlockIndex :: "bytes \<Rightarrow> nat option"
  ch_Consensus :: consensus

text \<open>The rules of a chain, as \<open>NewChainExt\<close> sets them.\<close>

definition is_testnet :: "bytes \<Rightarrow> bool" where
  "is_testnet genesis \<longleftrightarrow> genesis ! 0 = 0x43"

definition new_consensus :: "bytes \<Rightarrow> consensus" where
  "new_consensus genesis =
     (let c = \<lparr>co_GensisTimestamp = 1231006505, co_MaxPOWBits = 0x1d00ffff, co_MaxPOWValue = 2 ^ 224 - 1,
            co_BIP34Height = 227931, co_BIP65Height = 388381, co_BIP66Height = 363725, co_Enforce_CSV = 419328,
            co_Enforce_SEGWIT = 481824, co_Enforce_Taproot = 709632\<rparr>
      in if is_testnet genesis then
           c\<lparr>co_BIP34Height := 21111, co_BIP65Height := 581885, co_BIP66Height := 330776, co_Enforce_CSV := 770112,
             co_Enforce_SEGWIT := 834624, co_Enforce_Taproot := 2011968\<rparr>
         else c)"

definition testnet :: "chain \<Rightarrow> bool" where
  "testnet ch = is_testnet (ch_Genesis ch)"

definition LastBlock :: "chain \<Rightarrow> nat" where
  "LastBlock ch = ch_blockTreeEnd ch"

definition SetLast :: "nat \<Rightarrow> chain \<Rightarrow> chain" where
  "SetLast val ch = ch\<lparr>ch_blockTreeEnd := val\<rparr>"

section \<open>Reading the tree\<close>

definition node :: "heap \<Rightarrow> nat option \<Rightarrow> go_panic + tree_node" where
  "node h p = andThen (deref p) (\<lambda>a. deref (h a))"

definition BlockVersion :: "tree_node \<Rightarrow> u32" where
  "BlockVersion n = le_word (take 4 (tn_BlockHeader n))"

definition Timestamp :: "tree_node \<Rightarrow> u32" where
  "Timestamp n = le_word (take 4 (drop 68 (tn_BlockHeader n)))"

definition NodeBits :: "tree_node \<Rightarrow> u32" where
  "NodeBits n = le_word (take 4 (drop 72 (tn_BlockHeader n)))"

text \<open>The loop of \<open>GetMedianTimePast\<close>: the times of a node and its ancestors, at most \<open>i\<close> of them.\<close>

fun past_times :: "heap \<Rightarrow> nat \<Rightarrow> nat option \<Rightarrow> go_panic + u32 list" where
  "past_times h 0 p = Inr []"
| "past_times h (Suc i) None = Inr []"
| "past_times h (Suc i) (Some a) =
     andThen (node h (Some a)) (\<lambda>n. andThen (past_times h i (tn_Parent n)) (\<lambda>ts. Inr (Timestamp n # ts)))"

definition GetMedianTimePast :: "heap \<Rightarrow> nat option \<Rightarrow> go_panic + u32" where
  "GetMedianTimePast h p = andThen (past_times h 11 p) (\<lambda>ts. index (sort ts) (length ts div 2))"

fun FindFarthestNode :: "nat \<Rightarrow> heap \<Rightarrow> nat \<Rightarrow> (go_panic + nat \<times> nat) option" where
  "FindFarthestNode 0 h n = None"
| "FindFarthestNode (Suc fuel) h n =
     (case h n of
        None \<Rightarrow> Some (Inl NilPointer)
      | Some x \<Rightarrow>
          (case tn_Childs x of
             [] \<Rightarrow> Some (Inr (n, 0))
           | c # cs \<Rightarrow>
               bindR (bindR (FindFarthestNode fuel h c)
                        (foldR (\<lambda>c (res, depth). bindR (FindFarthestNode fuel h c)
                           (\<lambda>(re, dept). Some (Inr (if dept > depth then (re, dept) else (res, depth))))) cs))
                 (\<lambda>(res, depth). Some (Inr (res, Suc depth)))))"

text \<open>Climbing from the end to the child of the given node.\<close>

partial_function (option) climb :: "heap \<Rightarrow> nat \<Rightarrow> nat option \<Rightarrow> (go_panic + nat) option" where
  "climb h n e =
     (case e of
        None \<Rightarrow> Some (Inl NilPointer)
      | Some e \<Rightarrow>
          (case h e of
             None \<Rightarrow> Some (Inl NilPointer)
           | Some x \<Rightarrow> if tn_Parent x = Some n then Some (Inr e) else climb h n (tn_Parent x)))"

definition FindPathTo :: "heap \<Rightarrow> nat \<Rightarrow> nat \<Rightarrow> (go_panic + nat option) option" where
  "FindPathTo h n e =
     (if n = e then Some (Inr None)
      else case (h n, h e) of
          (Some x, Some y) \<Rightarrow>
            if tn_Height y \<le> tn_Height x then Some (Inl (ExplicitPanic ''FindPathTo: End block is not higher then current''))
            else (case tn_Childs x of
                    [] \<Rightarrow> Some (Inl (ExplicitPanic ''FindPathTo: Unknown path to block ''))
                  | [c] \<Rightarrow> Some (Inr (Some c))
                  | _ \<Rightarrow> bindR (climb h n (Some e)) (\<lambda>c. Some (Inr (Some c))))
        | _ \<Rightarrow> Some (Inl NilPointer))"

partial_function (option) active :: "heap \<Rightarrow> nat option \<Rightarrow> nat option \<Rightarrow> (go_panic + bool) option" where
  "active h dst t0 =
     (if dst = t0 then Some (Inr True)
      else case node h dst of
          Inl e \<Rightarrow> Some (Inl e)
        | Inr d \<Rightarrow>
            (case node h t0 of
               Inl e \<Rightarrow> Some (Inl e)
             | Inr t \<Rightarrow> if tn_Height d \<ge> tn_Height t then Some (Inr False) else active h dst (tn_Parent t)))"

definition OnActiveBranch :: "chain \<Rightarrow> nat option \<Rightarrow> (go_panic + bool) option" where
  "OnActiveBranch ch dst = active (ch_nodes ch) dst (Some (LastBlock ch))"

partial_function (option) HasAllParents :: "chain \<Rightarrow> nat option \<Rightarrow> (go_panic + bool) option" where
  "HasAllParents ch dst =
     (case node (ch_nodes ch) dst of
        Inl e \<Rightarrow> Some (Inl e)
      | Inr d \<Rightarrow>
          bindR (OnActiveBranch ch (tn_Parent d)) (\<lambda>on.
          if on then Some (Inr True)
          else case tn_Parent d of
              None \<Rightarrow> Some (Inr False)
            | Some p \<Rightarrow>
                (case node (ch_nodes ch) (Some p) of
                   Inl e \<Rightarrow> Some (Inl e)
                 | Inr x \<Rightarrow> if tn_TxCount x = 0 then Some (Inr False) else HasAllParents ch (Some p))))"

section \<open>Changing the tree\<close>

definition addChild :: "nat \<Rightarrow> nat \<Rightarrow> heap \<Rightarrow> go_panic + heap" where
  "addChild n c h = andThen (node h (Some n)) (\<lambda>x. Inr (h(n \<mapsto> x\<lparr>tn_Childs := tn_Childs x @ [c]\<rparr>)))"

text \<open>\<open>AcceptHeader\<close> makes a node at the next address; the second result is the node.\<close>

definition AcceptHeader :: "block \<Rightarrow> chain \<Rightarrow> go_panic + nat \<times> chain" where
  "AcceptHeader bl ch =
     andThen (ParentHash bl) (\<lambda>ph.
     case ch_BlockIndex ch (BIdx ph) of
       None \<Rightarrow> Inl (ExplicitPanic ''This should not happen'')
     | Some prevblk \<Rightarrow>
         andThen (node (ch_nodes ch) (Some prevblk)) (\<lambda>prev.
         andThen (slice_range (bl_Raw bl) 0 80) (\<lambda>hdr.
         let cur = ch_next ch;
             h = (ch_nodes ch)(cur \<mapsto> \<lparr>tn_BlockHash = bl_Hash bl, tn_Height = tn_Height prev + 1, tn_Parent = Some prevblk,
                   tn_Childs = [], tn_BlockSize = 0, tn_TxCount = 0, tn_SigopsCost = 0, tn_BlockHeader = hdr\<rparr>)
         in andThen (addChild prevblk cur h) (\<lambda>h.
            Inr (cur, ch\<lparr>ch_nodes := h, ch_next := Suc cur,
              ch_BlockIndex := (ch_BlockIndex ch)(BIdx (bl_Hash bl) \<mapsto> cur)\<rparr>)))))"

text \<open>The new slice is one shorter than the old one, and filling it up to its end panics.\<close>

definition del_from :: "nat \<Rightarrow> nat list \<Rightarrow> go_panic + nat list" where
  "del_from c cs =
     (let kept = filter (\<lambda>x. x \<noteq> c) cs in
      if cs = [] then Inl MakeSlice
      else if length kept = length cs then Inl IndexOutOfRange
      else if length kept \<noteq> length cs - 1 then Inl (ExplicitPanic ''Child not found'')
      else Inr kept)"

definition delChild :: "nat \<Rightarrow> nat \<Rightarrow> heap \<Rightarrow> go_panic + heap" where
  "delChild n c h =
     andThen (node h (Some n)) (\<lambda>x. andThen (del_from c (tn_Childs x)) (\<lambda>cs. Inr (h(n \<mapsto> x\<lparr>tn_Childs := cs\<rparr>))))"

definition BlocksInvalid :: "bytes \<Rightarrow> chain \<Rightarrow> go_panic + chain" where
  "BlocksInvalid h ch = andThen (BlockInvalid h (ch_Blocks ch)) (\<lambda>db. Inr (ch\<lparr>ch_Blocks := db\<rparr>))"

definition unindex :: "bytes \<Rightarrow> chain \<Rightarrow> chain" where
  "unindex h ch = ch\<lparr>ch_BlockIndex := (ch_BlockIndex ch)(BIdx h := None)\<rparr>"

text \<open>What is below a node is taken out of the index; the callback is left out.\<close>

fun delAllChildren :: "nat \<Rightarrow> nat \<Rightarrow> chain \<Rightarrow> (go_panic + chain) option" where
  "delAllChildren 0 cur ch = None"
| "delAllChildren (Suc fuel) cur ch =
     (case ch_nodes ch cur of
        None \<Rightarrow> Some (Inl NilPointer)
      | Some x \<Rightarrow>
          bindR (foldR (\<lambda>c ch.
              bindR (delAllChildren fuel c ch) (\<lambda>ch.
              case ch_nodes ch c of
                None \<Rightarrow> Some (Inl NilPointer)
              | Some y \<Rightarrow> Some (BlocksInvalid (tn_BlockHash x) (unindex (tn_BlockHash y) ch)))) (tn_Childs x) ch) (\<lambda>ch.
          case ch_nodes ch cur of
            None \<Rightarrow> Some (Inl NilPointer)
          | Some x \<Rightarrow> Some (Inr (ch\<lparr>ch_nodes := (ch_nodes ch)(cur \<mapsto> x\<lparr>tn_Childs := []\<rparr>)\<rparr>))))"

definition DeleteBranch :: "nat \<Rightarrow> nat \<Rightarrow> chain \<Rightarrow> (go_panic + chain) option" where
  "DeleteBranch fuel cur ch =
     (case ch_nodes ch cur of
        None \<Rightarrow> Some (Inl NilPointer)
      | Some x \<Rightarrow>
          (case BlocksInvalid (tn_BlockHash x) ch of
             Inl e \<Rightarrow> Some (Inl e)
           | Inr ch \<Rightarrow>
               let ch = unindex (tn_BlockHash x) ch in
               (case andThen (deref (tn_Parent x)) (\<lambda>p. delChild p cur (ch_nodes ch)) of
                  Inl e \<Rightarrow> Some (Inl e)
                | Inr h \<Rightarrow> delAllChildren fuel cur (ch\<lparr>ch_nodes := h\<rparr>))))"

end
