(* ===== verification/BlockTreeLaws.thy ===== *)
theory BlockTreeLaws
  imports BlockTree
begin

text \<open>
  The tree of headers is a tree: every block of the index but the root is a child of its parent, one higher. The
  operations keep it so, the loops over it end, and the searches find what they look for.
\<close>

section \<open>The invariant\<close>

definition live :: "chain \<Rightarrow> nat \<Rightarrow> bool" where
  "live ch a \<longleftrightarrow> (\<exists>k. ch_BlockIndex ch k = Some a)"

definition childs_ok :: "heap \<Rightarrow> (nat \<Rightarrow> bool) \<Rightarrow> nat \<Rightarrow> bool" where
  "childs_ok h S a \<longleftrightarrow> (\<exists>x. h a = Some x \<and> distinct (tn_Childs x) \<and>
     (\<forall>c\<in>set (tn_Childs x). S c \<and> (\<exists>z. h c = Some z \<and> tn_Parent z = Some a \<and> unat (tn_Height z) = Suc (unat (tn_Height x)))))"

definition parent_ok :: "heap \<Rightarrow> (nat \<Rightarrow> bool) \<Rightarrow> nat \<Rightarrow> bool" where
  "parent_ok h S a \<longleftrightarrow> (\<exists>x p y. h a = Some x \<and> tn_Parent x = Some p \<and> S p \<and> h p = Some y \<and> a \<in> set (tn_Childs y))"

definition tree_inv :: "chain \<Rightarrow> bool" where
  "tree_inv ch \<longleftrightarrow>
     live ch (ch_BlockTreeRoot ch) \<and> (\<exists>x. ch_nodes ch (ch_BlockTreeRoot ch) = Some x \<and> tn_Parent x = None)
   \<and> live ch (ch_blockTreeEnd ch)
   \<and> (\<forall>k a. ch_BlockIndex ch k = Some a \<longrightarrow> (\<exists>x. ch_nodes ch a = Some x \<and> BIdx (tn_BlockHash x) = k)
        \<and> childs_ok (ch_nodes ch) (live ch) a \<and> (a \<noteq> ch_BlockTreeRoot ch \<longrightarrow> parent_ok (ch_nodes ch) (live ch) a))
   \<and> (\<forall>a\<ge>ch_next ch. ch_nodes ch a = None)"

text \<open>\<open>anc h a b\<close>: following parents from \<open>b\<close> leads to \<open>a\<close>.\<close>

inductive anc :: "heap \<Rightarrow> nat \<Rightarrow> nat \<Rightarrow> bool" for h :: heap and a :: nat where
  anc_refl: "anc h a a"
| anc_step: "h b = Some x \<Longrightarrow> tn_Parent x = Some p \<Longrightarrow> anc h a p \<Longrightarrow> anc h a b"

lemma anc_trans: "anc h b c \<Longrightarrow> anc h a b \<Longrightarrow> anc h a c"
  by (induction rule: anc.induct) (auto intro: anc_step)

lemma anc_child: "h c = Some z \<Longrightarrow> tn_Parent z = Some a \<Longrightarrow> anc h a c"
  by (rule anc_step [OF _ _ anc_refl])

lemma live_node:
  assumes "tree_inv ch" and "live ch a"
  obtains x where "ch_nodes ch a = Some x" "ch_BlockIndex ch (BIdx (tn_BlockHash x)) = Some a" "distinct (tn_Childs x)"
    "\<And>c. c \<in> set (tn_Childs x) \<Longrightarrow> live ch c \<and> (\<exists>z. ch_nodes ch c = Some z \<and> tn_Parent z = Some a \<and> unat (tn_Height z) = Suc (unat (tn_Height x)))"
proof -
  from assms obtain k where k: "ch_BlockIndex ch k = Some a" by (auto simp: live_def)
  with assms(1) obtain x where x: "ch_nodes ch a = Some x" "BIdx (tn_BlockHash x) = k" "childs_ok (ch_nodes ch) (live ch) a"
    unfolding tree_inv_def by blast
  show thesis using x k by (intro that [of x]) (auto simp: childs_ok_def)
qed

lemma tree_parent:
  assumes "tree_inv ch" and "live ch a" and "a \<noteq> ch_BlockTreeRoot ch"
  obtains x p y where "ch_nodes ch a = Some x" "tn_Parent x = Some p" "live ch p" "ch_nodes ch p = Some y" "a \<in> set (tn_Childs y)"
    "unat (tn_Height x) = Suc (unat (tn_Height y))"
proof -
  from assms obtain x p y where x: "ch_nodes ch a = Some x" "tn_Parent x = Some p" "live ch p" "ch_nodes ch p = Some y" "a \<in> set (tn_Childs y)"
    unfolding tree_inv_def live_def parent_ok_def by metis
  from live_node [OF assms(1) x(3)] x show thesis by (metis option.inject that)
qed

lemma root_parent: "tree_inv ch \<Longrightarrow> ch_nodes ch (ch_BlockTreeRoot ch) = Some x \<Longrightarrow> tn_Parent x = None"
  by (auto simp: tree_inv_def)

text \<open>Ancestors are in the tree and lower.\<close>

lemma anc_live:
  assumes "tree_inv ch" and "live ch b" and "anc (ch_nodes ch) a b"
  shows "live ch a"
  using assms(3,2)
proof (induction rule: anc.induct)
  case (anc_step b x p)
  then have "b \<noteq> ch_BlockTreeRoot ch" using root_parent [OF assms(1)] by auto
  from tree_parent [OF assms(1) anc_step.prems this] anc_step.hyps(1,2) have "live ch p" by (metis option.inject)
  with anc_step.IH show ?case by blast
qed

lemma anc_height:
  assumes "tree_inv ch" and "live ch b" and "anc (ch_nodes ch) a b" and "ch_nodes ch a = Some x" and "ch_nodes ch b = Some y"
  shows "unat (tn_Height x) \<le> unat (tn_Height y) \<and> (unat (tn_Height x) = unat (tn_Height y) \<longrightarrow> a = b)"
  using assms(3,2,5)
proof (induction arbitrary: y rule: anc.induct)
  case anc_refl
  then show ?case using assms(4) by simp
next
  case (anc_step b z p)
  then have "b \<noteq> ch_BlockTreeRoot ch" using root_parent [OF assms(1)] by auto
  from tree_parent [OF assms(1) anc_step.prems(1) this] obtain y' where y': "ch_nodes ch p = Some y'" "live ch p"
    "unat (tn_Height z) = Suc (unat (tn_Height y'))" using anc_step.hyps(1,2) by (metis option.inject)
  from anc_step.IH [OF y'(2,1)] y'(3) anc_step.hyps(1) anc_step.prems(2) show ?case by simp
qed

lemma anc_antisym: "tree_inv ch \<Longrightarrow> live ch a \<Longrightarrow> live ch b \<Longrightarrow> anc (ch_nodes ch) a b \<Longrightarrow> anc (ch_nodes ch) b a \<Longrightarrow> a = b"
  by (metis anc_height le_antisym live_node)

text \<open>The root is above everything.\<close>

lemma root_anc:
  assumes "tree_inv ch"
  shows "live ch b \<Longrightarrow> anc (ch_nodes ch) (ch_BlockTreeRoot ch) b"
proof (induction "unat (tn_Height (the (ch_nodes ch b)))" arbitrary: b rule: less_induct)
  case less
  show ?case
  proof (cases "b = ch_BlockTreeRoot ch")
    case True
    then show ?thesis by (simp add: anc_refl)
  next
    case False
    from tree_parent [OF assms less.prems this] obtain x p y where "ch_nodes ch b = Some x" "tn_Parent x = Some p" "live ch p"
      "ch_nodes ch p = Some y" "unat (tn_Height x) = Suc (unat (tn_Height y))" by metis
    with less.hyps [of p] show ?thesis by (auto intro: anc_step)
  qed
qed

text \<open>Two nodes above the same node are above one another.\<close>

lemma anc_linear: "anc h a c \<Longrightarrow> anc h b c \<Longrightarrow> anc h a b \<or> anc h b a"
proof (induction rule: anc.induct)
  case anc_refl
  then show ?case by simp
next
  case (anc_step c x p)
  from anc_step.prems show ?case
  proof (cases rule: anc.cases)
    case anc_refl
    then show ?thesis using anc_step.hyps by (auto intro: anc.anc_step)
  next
    case (anc_step x' p')
    then show ?thesis using \<open>h c = Some x\<close> \<open>tn_Parent x = Some p\<close> anc_step.IH by auto
  qed
qed

section \<open>Searches\<close>

text \<open>Climbing from a node to its ancestor stops at the child of the ancestor.\<close>

lemma climb_anc:
  "anc h n e \<Longrightarrow> e \<noteq> n \<Longrightarrow> \<exists>c z. climb h n (Some e) = Some (Inr c) \<and> h c = Some z \<and> tn_Parent z = Some n \<and> anc h c e"
proof (induction rule: anc.induct)
  case (anc_step b x p)
  show ?case
  proof (cases "p = n")
    case True
    then show ?thesis using anc_step.hyps by (subst climb.simps) (auto intro: anc_refl)
  next
    case False
    with anc_step.IH obtain c z where "climb h n (Some p) = Some (Inr c)" "h c = Some z" "tn_Parent z = Some n" "anc h c p" by blast
    with anc_step.hyps False show ?thesis by (subst climb.simps) (auto intro: anc.anc_step)
  qed
qed simp

lemma FindPathTo_found:
  assumes inv: "tree_inv ch" and e: "live ch e" and a: "anc (ch_nodes ch) n e" and ne: "n \<noteq> e"
  obtains c z where "FindPathTo (ch_nodes ch) n e = Some (Inr (Some c))" "ch_nodes ch c = Some z" "tn_Parent z = Some n" "live ch c"
    "anc (ch_nodes ch) c e"
proof -
  let ?h = "ch_nodes ch"
  have n: "live ch n" by (rule anc_live [OF inv e a])
  obtain x where x: "?h n = Some x" "distinct (tn_Childs x)"
    "\<And>c. c \<in> set (tn_Childs x) \<Longrightarrow> live ch c \<and> (\<exists>z. ?h c = Some z \<and> tn_Parent z = Some n \<and> unat (tn_Height z) = Suc (unat (tn_Height x)))"
    by (rule live_node [OF inv n]) blast
  obtain y where y: "?h e = Some y" by (rule live_node [OF inv e])
  have lt: "\<not> tn_Height y \<le> tn_Height x"
    using anc_height [OF inv e a x(1) y] ne by (auto simp: word_le_nat_alt)
  obtain c z where c: "climb ?h n (Some e) = Some (Inr c)" "?h c = Some z" "tn_Parent z = Some n" "anc ?h c e"
    using climb_anc [OF a] ne by blast
  have cl: "live ch c" by (rule anc_live [OF inv e c(4)])
  have "c \<noteq> ch_BlockTreeRoot ch" using root_parent [OF inv] c(2,3) by auto
  from tree_parent [OF inv cl this] c(2,3) x(1) have cin: "c \<in> set (tn_Childs x)" by (metis option.inject)
  have "FindPathTo ?h n e = Some (Inr (Some c))"
  proof (cases "tn_Childs x")
    case Nil
    then show ?thesis using cin by simp
  next
    case (Cons c1 cs)
    then show ?thesis using cin ne lt c(1) by (cases cs) (auto simp: FindPathTo_def x(1) y)
  qed
  from that [OF this c(2,3) cl c(4)] show thesis .
qed

text \<open>The times of a node and its ancestors.\<close>

fun ancestors :: "heap \<Rightarrow> nat \<Rightarrow> nat option \<Rightarrow> tree_node list" where
  "ancestors h 0 p = []"
| "ancestors h (Suc i) p = (case p of None \<Rightarrow> [] | Some a \<Rightarrow> (case h a of None \<Rightarrow> [] | Some x \<Rightarrow> x # ancestors h i (tn_Parent x)))"

lemma past_times_ancestors:
  assumes "tree_inv ch"
  shows "live ch a \<Longrightarrow> past_times (ch_nodes ch) i (Some a) = Inr (map Timestamp (ancestors (ch_nodes ch) i (Some a)))"
proof (induction i arbitrary: a)
  case (Suc i)
  obtain x where x: "ch_nodes ch a = Some x" by (rule live_node [OF assms Suc.prems])
  show ?case
  proof (cases "a = ch_BlockTreeRoot ch")
    case True
    then have "tn_Parent x = None" using root_parent [OF assms] x by simp
    then show ?thesis by (cases i) (simp_all add: x node_def)
  next
    case False
    from tree_parent [OF assms Suc.prems this] x obtain p where "tn_Parent x = Some p" "live ch p" by (metis option.inject)
    with Suc.IH [of p] show ?thesis by (simp add: x node_def)
  qed
qed simp

lemma GetMedianTimePast_live:
  assumes "tree_inv ch" and "live ch a"
  defines "ts \<equiv> map Timestamp (ancestors (ch_nodes ch) 11 (Some a))"
  shows "GetMedianTimePast (ch_nodes ch) (Some a) = Inr (sort ts ! (length ts div 2))"
proof -
  obtain x where x: "ch_nodes ch a = Some x" by (rule live_node [OF assms(1,2)])
  have "ts \<noteq> []" by (simp add: ts_def x eval_nat_numeral)
  then show ?thesis
    by (simp add: GetMedianTimePast_def past_times_ancestors [OF assms(1,2)] ts_def [symmetric])
qed

text \<open>The farthest node: below the given one, and as far below as any.\<close>

definition farthest :: "chain \<Rightarrow> nat \<Rightarrow> nat \<Rightarrow> nat \<Rightarrow> bool" where
  "farthest ch n m d \<longleftrightarrow> live ch m \<and> anc (ch_nodes ch) n m
     \<and> unat (tn_Height (the (ch_nodes ch m))) = unat (tn_Height (the (ch_nodes ch n))) + d
     \<and> (\<forall>b. live ch b \<and> anc (ch_nodes ch) n b \<longrightarrow> unat (tn_Height (the (ch_nodes ch b))) \<le> unat (tn_Height (the (ch_nodes ch n))) + d)"

lemma anc_via_child:
  assumes inv: "tree_inv ch" and b: "live ch b" and a: "anc (ch_nodes ch) n b" and ne: "b \<noteq> n" and x: "ch_nodes ch n = Some x"
  obtains c where "c \<in> set (tn_Childs x)" "anc (ch_nodes ch) c b"
proof -
  from climb_anc [OF a ne] obtain c z where c: "ch_nodes ch c = Some z" "tn_Parent z = Some n" "anc (ch_nodes ch) c b" by blast
  have cl: "live ch c" by (rule anc_live [OF inv b c(3)])
  have "c \<noteq> ch_BlockTreeRoot ch" using root_parent [OF inv] c by auto
  from tree_parent [OF inv cl this] c x have "c \<in> set (tn_Childs x)" by (metis option.inject)
  with c(3) that show thesis by blast
qed

lemma FindFarthestNode_farthest:
  assumes inv: "tree_inv ch"
  shows "live ch n \<Longrightarrow> (\<And>b. live ch b \<Longrightarrow> unat (tn_Height (the (ch_nodes ch b))) < unat (tn_Height (the (ch_nodes ch n))) + fuel) \<Longrightarrow>
    \<exists>m d. FindFarthestNode fuel (ch_nodes ch) n = Some (Inr (m, d)) \<and> farthest ch n m d"
proof (induction fuel arbitrary: n)
  case 0
  then show ?case by (metis add.right_neutral less_irrefl)
next
  case (Suc fuel)
  let ?h = "ch_nodes ch" let ?H = "\<lambda>a. unat (tn_Height (the (?h a)))"
  obtain x where x: "?h n = Some x" "\<And>c. c \<in> set (tn_Childs x) \<Longrightarrow> live ch c \<and>
      (\<exists>z. ?h c = Some z \<and> tn_Parent z = Some n \<and> unat (tn_Height z) = Suc (unat (tn_Height x)))"
    by (rule live_node [OF inv Suc.prems(1)]) blast
  have kids: "live ch c" "anc ?h n c" "?H c = Suc (?H n)" if "c \<in> set (tn_Childs x)" for c
    using x(2) [OF that] by (auto simp: x(1) intro: anc_child)
  have ih: "\<exists>m d. FindFarthestNode fuel ?h c = Some (Inr (m, d)) \<and> farthest ch c m d" if "c \<in> set (tn_Childs x)" for c
    using Suc.IH [OF kids(1) [OF that]] Suc.prems(2) kids(3) [OF that] by simp
  show ?case
  proof (cases "tn_Childs x")
    case Nil
    have "?H b \<le> ?H n" if "live ch b" "anc ?h n b" for b
    proof (cases "b = n")
      case False
      from anc_via_child [OF inv that False x(1)] Nil show ?thesis by auto
    qed simp
    then have "farthest ch n n 0" using Suc.prems(1) by (auto simp: farthest_def intro: anc_refl)
    then show ?thesis by (simp add: x(1) Nil)
  next
    case (Cons c0 cs)
    define best where "best done r \<longleftrightarrow> (\<exists>c\<in>done. farthest ch c (fst r) (snd r)) \<and> (\<forall>c\<in>done. \<exists>m d. farthest ch c m d \<and> d \<le> snd r)"
      for "done" :: "nat set" and r
    let ?f = "\<lambda>c (res, depth). bindR (FindFarthestNode fuel ?h c)
                           (\<lambda>(re, dept). Some (Inr (if dept > depth then (re, dept) else (res, depth))))"
    have loop: "\<exists>r'. foldR ?f ds r = Some (Inr r') \<and> best (D \<union> set ds) r'" if "set ds \<subseteq> set (tn_Childs x)" "best D r" for ds D r
      using that
    proof (induction ds arbitrary: D r)
      case (Cons c ds)
      obtain m d where c: "FindFarthestNode fuel ?h c = Some (Inr (m, d))" "farthest ch c m d" using ih [of c] Cons.prems(1) by auto
      let ?r = "if d > snd r then (m, d) else r"
      have "best (insert c D) ?r" using Cons.prems(2) c(2) unfolding best_def by (auto intro: order.strict_implies_order order.trans; fastforce)
      from Cons.IH [OF _ this] Cons.prems(1) c(1) show ?case by (cases r) auto
    qed (auto simp: best_def)
    obtain m0 d0 where c0: "FindFarthestNode fuel ?h c0 = Some (Inr (m0, d0))" "farthest ch c0 m0 d0" using ih [of c0] Cons by auto
    have "best {c0} (m0, d0)" using c0(2) by (auto simp: best_def)
    from loop [OF _ this, of cs] Cons obtain r where r: "foldR ?f cs (m0, d0) = Some (Inr r)" "best (set (tn_Childs x)) r" by auto
    obtain m d where md: "r = (m, d)" by fastforce
    have "farthest ch n m (Suc d)"
    proof -
      from r(2) md obtain c where c: "c \<in> set (tn_Childs x)" "farthest ch c m d" by (auto simp: best_def)
      have "?H b \<le> ?H n + Suc d" if b: "live ch b" "anc ?h n b" for b
      proof (cases "b = n")
        case False
        from anc_via_child [OF inv b False x(1)] obtain c' where c': "c' \<in> set (tn_Childs x)" "anc ?h c' b" by blast
        with r(2) md obtain m' d' where "farthest ch c' m' d'" "d' \<le> d" unfolding best_def by auto
        then have "?H b \<le> ?H c' + d'" using b(1) c'(2) unfolding farthest_def by blast
        then show ?thesis using kids(3) [OF c'(1)] \<open>d' \<le> d\<close> by simp
      qed simp
      then show ?thesis using c(2) kids [OF c(1)] unfolding farthest_def by (auto intro: anc_trans)
    qed
    then show ?thesis using c0(1) r(1) md by (auto simp: x(1) Cons)
  qed
qed

end
