(* ===== verification/ChainDiff.thy ===== *)
theory ChainDiff
  imports BlockTreeLaws Target
begin

text \<open>
  Proof of work along the tree (\<open>lib/chain/chain_diff.go\<close>, \<open>GetDifficulty\<close> of \<open>lib/btc/target.go\<close>): the target a
  new block must have, and which of two branches has more work. The \<open>float64\<close> arithmetic is a parameter
  (record \<open>float_ops\<close>): the processor's.
\<close>

section \<open>The target of the next block\<close>

abbreviation (input) POWRetargetSpam :: int where "POWRetargetSpam \<equiv> 1209600"
abbreviation (input) TargetSpacing :: u32 where "TargetSpacing \<equiv> 600"
abbreviation (input) targetInterval :: nat where "targetInterval \<equiv> 2016"

text \<open>Following \<open>i\<close> parents.\<close>

fun go_back :: "heap \<Rightarrow> nat \<Rightarrow> nat option \<Rightarrow> go_panic + nat option" where
  "go_back h 0 p = Inr p"
| "go_back h (Suc i) p = andThen (node h p) (\<lambda>x. go_back h i (tn_Parent x))"

text \<open>On the test network: the bits of the last block that was not allowed the minimum.\<close>

partial_function (option) last_hard :: "heap \<Rightarrow> u32 \<Rightarrow> nat option \<Rightarrow> (go_panic + u32) option" where
  "last_hard h maxbits prv =
     (case node h prv of
        Inl e \<Rightarrow> Some (Inl e)
      | Inr x \<Rightarrow>
          if tn_Parent x \<noteq> None \<and> tn_Height x mod 2016 \<noteq> 0 \<and> NodeBits x = maxbits then last_hard h maxbits (tn_Parent x)
          else Some (Inr (NodeBits x)))"

definition retarget :: "consensus \<Rightarrow> u32 \<Rightarrow> u32 \<Rightarrow> u32 \<Rightarrow> u32" where
  "retarget c bits lstTime prvTime =
     (let actualTimespan = uint (lstTime - prvTime);
          actualTimespan = (if actualTimespan < POWRetargetSpam div 4 then POWRetargetSpam div 4 else actualTimespan);
          actualTimespan = (if actualTimespan > POWRetargetSpam * 4 then POWRetargetSpam * 4 else actualTimespan);
          bnewbn = SetCompact bits * actualTimespan div POWRetargetSpam
      in GetCompact (if bnewbn > co_MaxPOWValue c then co_MaxPOWValue c else bnewbn))"

definition GetNextWorkRequired :: "chain \<Rightarrow> nat \<Rightarrow> u32 \<Rightarrow> (go_panic + u32) option" where
  "GetNextWorkRequired ch lst ts =
     (case node (ch_nodes ch) (Some lst) of
        Inl e \<Rightarrow> Some (Inl e)
      | Inr l \<Rightarrow>
          if tn_Parent l = None then Some (Inr (co_MaxPOWBits (ch_Consensus ch)))
          else if (tn_Height l + 1) mod 2016 \<noteq> 0 then
            (if testnet ch then
               (if ts > Timestamp l + TargetSpacing * 2 then Some (Inr (co_MaxPOWBits (ch_Consensus ch)))
                else last_hard (ch_nodes ch) (co_MaxPOWBits (ch_Consensus ch)) (Some lst))
             else Some (Inr (NodeBits l)))
          else
            Some (andThen (go_back (ch_nodes ch) (targetInterval - 1) (Some lst)) (\<lambda>prv.
            andThen (node (ch_nodes ch) prv) (\<lambda>p.
            Inr (retarget (ch_Consensus ch) (NodeBits l) (Timestamp l) (Timestamp p))))))"

section \<open>More work\<close>

record 'f float_ops =
  fl_of :: "nat \<Rightarrow> 'f"
  fl_add :: "'f \<Rightarrow> 'f \<Rightarrow> 'f"
  fl_mul :: "'f \<Rightarrow> 'f \<Rightarrow> 'f"
  fl_div :: "'f \<Rightarrow> 'f \<Rightarrow> 'f"
  fl_gt :: "'f \<Rightarrow> 'f \<Rightarrow> bool"

definition GetDifficulty :: "'f float_ops \<Rightarrow> u32 \<Rightarrow> 'f" where
  "GetDifficulty ops bits =
     (let shift = unat (drop_bit 24 bits AND 0xff);
          diff = fl_div ops (fl_of ops 0xffff) (fl_of ops (unat (bits AND 0x00ffffff)))
      in if shift < 29 then ((\<lambda>d. fl_mul ops d (fl_of ops 256)) ^^ (29 - shift)) diff
         else ((\<lambda>d. fl_div ops d (fl_of ops 256)) ^^ (shift - 29)) diff)"

text \<open>One branch is followed down to the height of the other, and then both to their common block.\<close>

partial_function (option) work_down :: "'f float_ops \<Rightarrow> heap \<Rightarrow> u32 \<Rightarrow> nat option \<Rightarrow> 'f \<Rightarrow> (go_panic + nat option \<times> 'f) option" where
  "work_down ops h lim b s =
     (case node h b of
        Inl e \<Rightarrow> Some (Inl e)
      | Inr x \<Rightarrow>
          if tn_Height x > lim then work_down ops h lim (tn_Parent x) (fl_add ops s (GetDifficulty ops (NodeBits x)))
          else Some (Inr (b, s)))"

partial_function (option) work_both :: "'f float_ops \<Rightarrow> heap \<Rightarrow> nat option \<Rightarrow> nat option \<Rightarrow> 'f \<Rightarrow> 'f \<Rightarrow> (go_panic + 'f \<times> 'f) option" where
  "work_both ops h b1 b2 s1 s2 =
     (if b1 = b2 then Some (Inr (s1, s2))
      else case (node h b1, node h b2) of
          (Inr x, Inr y) \<Rightarrow> work_both ops h (tn_Parent x) (tn_Parent y)
             (fl_add ops s1 (GetDifficulty ops (NodeBits x))) (fl_add ops s2 (GetDifficulty ops (NodeBits y)))
        | _ \<Rightarrow> Some (Inl NilPointer))"

definition MorePOW :: "'f float_ops \<Rightarrow> heap \<Rightarrow> nat \<Rightarrow> nat \<Rightarrow> (go_panic + bool) option" where
  "MorePOW ops h b1 b2 =
     (case (node h (Some b1), node h (Some b2)) of
        (Inr x, Inr y) \<Rightarrow>
          bindR (work_down ops h (tn_Height y) (Some b1) (fl_of ops 0)) (\<lambda>(b1, b1sum).
          case node h b1 of
            Inl e \<Rightarrow> Some (Inl e)
          | Inr x \<Rightarrow>
              bindR (work_down ops h (tn_Height x) (Some b2) (fl_of ops 0)) (\<lambda>(b2, b2sum).
              bindR (work_both ops h b1 b2 b1sum b2sum) (\<lambda>(b1sum, b2sum). Some (Inr (fl_gt ops b1sum b2sum)))))
      | _ \<Rightarrow> Some (Inl NilPointer))"

section \<open>The retarget is bounded\<close>

lemma retarget_eq:
  assumes "SetCompact bits \<ge> 0"
  obtains span where "302400 \<le> span" "span \<le> 4838400"
    "retarget c bits t1 t0 = GetCompact (min (SetCompact bits * span div 1209600) (co_MaxPOWValue c))"
proof -
  define s where "s = (if uint (t1 - t0) < 302400 then 302400 else if uint (t1 - t0) > 4838400 then 4838400 else uint (t1 - t0))"
  have "retarget c bits t1 t0 = GetCompact (min (SetCompact bits * s div 1209600) (co_MaxPOWValue c))"
    unfolding retarget_def Let_def s_def by (auto simp: min_def)
  moreover have "302400 \<le> s" "s \<le> 4838400" by (auto simp: s_def)
  ultimately show thesis using that by blast
qed

lemma byte_len_mono: "m \<le> n \<Longrightarrow> byte_len m \<le> byte_len n"
proof (rule ccontr)
  assume mn: "m \<le> n" and "\<not> byte_len m \<le> byte_len n"
  then have l: "byte_len n \<le> byte_len m - 1" "m > 0" by (auto intro: ccontr)
  have "n < 256 ^ byte_len n" using byte_len_bounds [of n] by (cases "n = 0") auto
  also have "\<dots> \<le> 256 ^ (byte_len m - 1)" using l(1) by (intro power_increasing) auto
  also have "\<dots> \<le> m" using byte_len_bounds [OF l(2)] by simp
  finally show False using mn by simp
qed

text \<open>The new target is at most four times the old one and at most the limit, and at least a quarter of the old
  one, but for the rounding of the compact form.\<close>

lemma retarget_bounds:
  assumes "SetCompact bits = int t" and "t > 0" and "4 \<le> t" and "co_MaxPOWValue c = int m" and "byte_len m < 255" and "m > 0"
  shows "\<exists>r. SetCompact (retarget c bits t1 t0) = int r \<and> r \<le> 4 * t \<and> r \<le> m \<and> 2 ^ 15 * (min (t div 4) m - r) < min (4 * t) m"
proof -
  obtain span where s: "302400 \<le> span" "span \<le> 4838400" "retarget c bits t1 t0 = GetCompact (min (SetCompact bits * span div 1209600) (co_MaxPOWValue c))"
    by (rule retarget_eq [of bits]) (use assms(1) in auto)
  define u where "u = min (t * nat span div 1209600) m"
  have ns: "302400 \<le> nat span" "nat span \<le> 4838400" using s by simp_all
  have le: "t * nat span div 1209600 \<le> 4 * t"
  proof -
    have "t * nat span \<le> t * 4838400" using ns(2) by simp
    then have "t * nat span div 1209600 \<le> t * 4838400 div 1209600" by (rule div_le_mono)
    then show ?thesis by simp
  qed
  have ge: "t div 4 \<le> t * nat span div 1209600"
  proof -
    have "t * 302400 \<le> t * nat span" using ns(1) by simp
    then have "t * 302400 div 1209600 \<le> t * nat span div 1209600" by (rule div_le_mono)
    moreover have "t * 302400 div 1209600 = t div 4"
      using div_mult_mult1 [of 302400 t 4] by (simp add: mult.commute)
    ultimately show ?thesis by simp
  qed
  have r: "retarget c bits t1 t0 = GetCompact (int u)"
    using s ns assms(1,4) by (simp add: u_def zdiv_int of_nat_min)
  have "u > 0" using ge assms(3,6) by (auto simp: u_def)
  moreover have "byte_len u < 255" using byte_len_mono [of u m] assms(5) by (simp add: u_def)
  ultimately obtain v where v: "SetCompact (GetCompact (int u)) = int v" "v \<le> u" "2 ^ 15 * (u - v) < u"
    using SetCompact_GetCompact by blast
  have "min (t div 4) m \<le> u" using ge by (simp add: u_def min_def)
  then have "min (t div 4) m - v \<le> u - v" by (rule diff_le_mono)
  moreover have "u \<le> min (4 * t) m" using le by (simp add: u_def)
  ultimately have "2 ^ 15 * (min (t div 4) m - v) < min (4 * t) m"
    by (meson v(3) less_le_trans le_less_trans mult_le_mono2)
  moreover have "v \<le> 4 * t" "v \<le> m" using v(2) le by (simp_all add: u_def)
  ultimately show ?thesis using r v(1) by auto
qed

text \<open>When the last block is older than the first, the difference wraps: the longest timespan, not the shortest.\<close>

lemma retarget_backwards:
  assumes "t1 < t0" and "unat t0 - unat t1 < 2 ^ 31"
  shows "retarget c bits t1 t0 = GetCompact (min (SetCompact bits * 4) (co_MaxPOWValue c))"
proof -
  have "uint (t1 - t0) = uint t1 - uint t0 + 2 ^ 32"
  proof -
    have lt: "uint t1 < uint t0" using assms(1) by (simp add: word_less_def)
    have b: "uint t0 < 4294967296" "0 \<le> uint t1" using uint_lt2p [of t0] by simp_all
    have "uint (t1 - t0) = (uint t1 - uint t0) mod 4294967296" by (simp add: uint_word_ariths)
    also have "\<dots> = (uint t1 - uint t0 + 4294967296) mod 4294967296" by simp
    also have "\<dots> = uint t1 - uint t0 + 4294967296" using lt b(1) uint_ge_0 [of t1] by (intro mod_pos_pos_trivial) linarith+
    also have "\<dots> = uint t1 - uint t0 + 2 ^ 32" by simp
    finally show ?thesis .
  qed
  moreover have "uint t0 - uint t1 < 2147483648"
  proof -
    have "unat t1 < unat t0" using assms(1) by (simp add: word_less_nat_alt)
    moreover have "unat t0 - unat t1 < 2147483648" using assms(2) by simp
    ultimately show ?thesis unfolding uint_nat by linarith
  qed
  ultimately have "uint (t1 - t0) > 4838400" by simp
  then show ?thesis by (simp add: retarget_def Let_def min_def mult.commute)
qed

section \<open>Comparing branches\<close>

abbreviation height_of :: "chain \<Rightarrow> nat \<Rightarrow> nat" where
  "height_of ch a \<equiv> unat (tn_Height (the (ch_nodes ch a)))"

text \<open>What is relied on of \<open>float64\<close>: adding a positive number to a sum that is zero or positive gives a positive
  one.\<close>

definition float_ok :: "'f float_ops \<Rightarrow> bool" where
  "float_ok ops \<longleftrightarrow> (\<forall>s d. (s = fl_of ops 0 \<or> fl_gt ops s (fl_of ops 0)) \<and> fl_gt ops d (fl_of ops 0)
     \<longrightarrow> fl_gt ops (fl_add ops s d) (fl_of ops 0))"

lemma root_lowest: "tree_inv ch \<Longrightarrow> live ch b \<Longrightarrow> height_of ch (ch_BlockTreeRoot ch) \<le> height_of ch b"
  by (metis anc_height option.sel root_anc tree_inv_def live_node)

lemma root_only:
  assumes inv: "tree_inv ch" and b: "live ch b" and h: "height_of ch b = height_of ch (ch_BlockTreeRoot ch)"
  shows "b = ch_BlockTreeRoot ch"
proof -
  obtain y where y: "ch_nodes ch b = Some y" by (rule live_node [OF inv b])
  obtain x where x: "ch_nodes ch (ch_BlockTreeRoot ch) = Some x" using inv by (auto simp: tree_inv_def)
  from anc_height [OF inv b root_anc [OF inv b] x y] h x y show ?thesis by simp
qed

lemma work_down_live:
  assumes inv: "tree_inv ch"
  shows "live ch b \<Longrightarrow> height_of ch (ch_BlockTreeRoot ch) \<le> unat lim \<Longrightarrow>
    \<exists>b' s'. work_down ops (ch_nodes ch) lim (Some b) s = Some (Inr (Some b', s')) \<and> live ch b' \<and> anc (ch_nodes ch) b' b
      \<and> height_of ch b' = min (height_of ch b) (unat lim)
      \<and> (height_of ch b \<le> unat lim \<longrightarrow> s' = s)
      \<and> (float_ok ops \<and> (\<forall>a. live ch a \<longrightarrow> fl_gt ops (GetDifficulty ops (NodeBits (the (ch_nodes ch a)))) (fl_of ops 0))
           \<and> (s = fl_of ops 0 \<or> fl_gt ops s (fl_of ops 0)) \<and> unat lim < height_of ch b \<longrightarrow> fl_gt ops s' (fl_of ops 0))"
proof (induction "height_of ch b" arbitrary: b s rule: less_induct)
  case less
  obtain x where x: "ch_nodes ch b = Some x" by (rule live_node [OF inv less.prems(1)])
  show ?case
  proof (cases "tn_Height x > lim")
    case False
    then have "work_down ops (ch_nodes ch) lim (Some b) s = Some (Inr (Some b, s))"
      by (subst work_down.simps) (simp add: node_def x)
    moreover have "height_of ch b \<le> unat lim" using False x by (simp add: word_less_nat_alt)
    ultimately show ?thesis using less.prems(1) by (intro exI [of _ b] exI [of _ s]) (auto intro: anc_refl)
  next
    case True
    let ?d = "GetDifficulty ops (NodeBits x)"
    have gt: "height_of ch b > unat lim" using True x by (simp add: word_less_nat_alt)
    then have "b \<noteq> ch_BlockTreeRoot ch" using less.prems(2) by auto
    from tree_parent [OF inv less.prems(1) this] x obtain p y where p: "tn_Parent x = Some p" "live ch p" "ch_nodes ch p = Some y"
      "unat (tn_Height x) = Suc (unat (tn_Height y))" by (metis option.inject)
    have step: "work_down ops (ch_nodes ch) lim (Some b) s = work_down ops (ch_nodes ch) lim (Some p) (fl_add ops s ?d)"
      using True by (subst work_down.simps) (simp add: node_def x p(1))
    from less.hyps [OF _ p(2) less.prems(2), of "fl_add ops s ?d"] x p(3,4) obtain b' s' where
      ih: "work_down ops (ch_nodes ch) lim (Some p) (fl_add ops s ?d) = Some (Inr (Some b', s'))" "live ch b'" "anc (ch_nodes ch) b' p"
        "height_of ch b' = min (height_of ch p) (unat lim)" "height_of ch p \<le> unat lim \<longrightarrow> s' = fl_add ops s ?d"
        "float_ok ops \<and> (\<forall>a. live ch a \<longrightarrow> fl_gt ops (GetDifficulty ops (NodeBits (the (ch_nodes ch a)))) (fl_of ops 0))
           \<and> (fl_add ops s ?d = fl_of ops 0 \<or> fl_gt ops (fl_add ops s ?d) (fl_of ops 0)) \<and> unat lim < height_of ch p \<longrightarrow> fl_gt ops s' (fl_of ops 0)"
      by auto
    have pos: "fl_gt ops (fl_add ops s ?d) (fl_of ops 0)"
      if "float_ok ops" "\<forall>a. live ch a \<longrightarrow> fl_gt ops (GetDifficulty ops (NodeBits (the (ch_nodes ch a)))) (fl_of ops 0)"
        "s = fl_of ops 0 \<or> fl_gt ops s (fl_of ops 0)"
    proof -
      have "fl_gt ops ?d (fl_of ops 0)" using that(2) less.prems(1) x by auto
      then show ?thesis using that(1,3) unfolding float_ok_def by blast
    qed
    have "anc (ch_nodes ch) b' b" using ih(3) x p(1) by (auto intro: anc_step)
    moreover have "height_of ch b' = min (height_of ch b) (unat lim)" using ih(4) gt x p(3,4) by (simp add: min_def)
    moreover have "fl_gt ops s' (fl_of ops 0)"
      if h: "float_ok ops" "\<forall>a. live ch a \<longrightarrow> fl_gt ops (GetDifficulty ops (NodeBits (the (ch_nodes ch a)))) (fl_of ops 0)"
        "s = fl_of ops 0 \<or> fl_gt ops s (fl_of ops 0)"
      using ih(5,6) pos [OF h] h(1,2) by (cases "height_of ch p \<le> unat lim") auto
    ultimately show ?thesis using ih(1,2) step gt by auto
  qed
qed

lemma work_both_live:
  assumes inv: "tree_inv ch"
  shows "live ch b1 \<Longrightarrow> live ch b2 \<Longrightarrow> height_of ch b1 = height_of ch b2 \<Longrightarrow>
    \<exists>t. work_both ops (ch_nodes ch) (Some b1) (Some b2) s1 s2 = Some (Inr t)"
proof (induction "height_of ch b1" arbitrary: b1 b2 s1 s2 rule: less_induct)
  case less
  show ?case
  proof (cases "b1 = b2")
    case True
    then show ?thesis by (subst work_both.simps) simp
  next
    case False
    obtain x where x: "ch_nodes ch b1 = Some x" by (rule live_node [OF inv less.prems(1)])
    obtain y where y: "ch_nodes ch b2 = Some y" by (rule live_node [OF inv less.prems(2)])
    have r1: "b1 \<noteq> ch_BlockTreeRoot ch" using root_only [OF inv less.prems(2)] less.prems(3) False by metis
    have r2: "b2 \<noteq> ch_BlockTreeRoot ch" using root_only [OF inv less.prems(1)] less.prems(3) False by metis
    from tree_parent [OF inv less.prems(1) r1] x obtain p u where p: "tn_Parent x = Some p" "live ch p" "ch_nodes ch p = Some u"
      "unat (tn_Height x) = Suc (unat (tn_Height u))" by (metis option.inject)
    from tree_parent [OF inv less.prems(2) r2] y obtain q v where q: "tn_Parent y = Some q" "live ch q" "ch_nodes ch q = Some v"
      "unat (tn_Height y) = Suc (unat (tn_Height v))" by (metis option.inject)
    have "height_of ch p < height_of ch b1" "height_of ch p = height_of ch q" using less.prems(3) p q x y by auto
    from less.hyps [OF this(1) p(2) q(2) this(2)] show ?thesis
      using False by (subst work_both.simps) (simp add: node_def x y p(1) q(1))
  qed
qed

lemma MorePOW_total:
  assumes inv: "tree_inv ch" and l: "live ch b1" "live ch b2"
  shows "\<exists>r. MorePOW ops (ch_nodes ch) b1 b2 = Some (Inr r)"
    and "anc (ch_nodes ch) b2 b1 \<Longrightarrow> b1 \<noteq> b2 \<Longrightarrow> float_ok ops \<Longrightarrow>
      (\<forall>a. live ch a \<longrightarrow> fl_gt ops (GetDifficulty ops (NodeBits (the (ch_nodes ch a)))) (fl_of ops 0)) \<Longrightarrow>
      MorePOW ops (ch_nodes ch) b1 b2 = Some (Inr True)"
proof -
  obtain x where x: "ch_nodes ch b1 = Some x" by (rule live_node [OF inv l(1)])
  obtain y where y: "ch_nodes ch b2 = Some y" by (rule live_node [OF inv l(2)])
  have ry: "height_of ch (ch_BlockTreeRoot ch) \<le> unat (tn_Height y)" using root_lowest [OF inv l(2)] y by simp
  let ?z = "fl_of ops 0"
  obtain c1 s1 where c1: "work_down ops (ch_nodes ch) (tn_Height y) (Some b1) ?z = Some (Inr (Some c1, s1))" "live ch c1"
    "anc (ch_nodes ch) c1 b1" "height_of ch c1 = min (height_of ch b1) (unat (tn_Height y))"
    "float_ok ops \<and> (\<forall>a. live ch a \<longrightarrow> fl_gt ops (GetDifficulty ops (NodeBits (the (ch_nodes ch a)))) (fl_of ops 0))
           \<and> unat (tn_Height y) < height_of ch b1 \<longrightarrow> fl_gt ops s1 ?z"
    using work_down_live [OF inv l(1) ry, of ops ?z] by blast
  obtain w where w: "ch_nodes ch c1 = Some w" by (rule live_node [OF inv c1(2)])
  have rw: "height_of ch (ch_BlockTreeRoot ch) \<le> unat (tn_Height w)" using root_lowest [OF inv c1(2)] w by simp
  obtain c2 s2 where c2: "work_down ops (ch_nodes ch) (tn_Height w) (Some b2) ?z = Some (Inr (Some c2, s2))" "live ch c2"
    "height_of ch c2 = min (height_of ch b2) (unat (tn_Height w))" "height_of ch b2 \<le> unat (tn_Height w) \<longrightarrow> s2 = ?z" "anc (ch_nodes ch) c2 b2"
    using work_down_live [OF inv l(2) rw, of ops ?z] by blast
  have eq: "height_of ch c1 = height_of ch c2" using c1(4) c2(3) w y by simp
  from work_both_live [OF inv c1(2) c2(2) eq, of ops s1 s2] obtain t where t: "work_both ops (ch_nodes ch) (Some c1) (Some c2) s1 s2 = Some (Inr t)" by blast
  have M: "MorePOW ops (ch_nodes ch) b1 b2 = Some (Inr (fl_gt ops (fst t) (snd t)))"
    by (simp add: MorePOW_def node_def x y c1(1) w c2(1) t case_prod_unfold)
  then show "\<exists>r. MorePOW ops (ch_nodes ch) b1 b2 = Some (Inr r)" by blast
  assume a: "anc (ch_nodes ch) b2 b1" "b1 \<noteq> b2" "float_ok ops"
    "\<forall>a. live ch a \<longrightarrow> fl_gt ops (GetDifficulty ops (NodeBits (the (ch_nodes ch a)))) (fl_of ops 0)"
  have gt: "unat (tn_Height y) < height_of ch b1" using anc_height [OF inv l(1) a(1) y x] a(2) x by auto
  then have hc1: "height_of ch c1 = unat (tn_Height y)" using c1(4) by simp
  have "c1 = b2"
    using anc_linear [OF c1(3) a(1)] anc_height [OF inv l(2) _ w y] anc_height [OF inv c1(2) _ y w] hc1 w by auto
  then have yw: "w = y" using w y by simp
  then have "s2 = ?z" "c2 = b2" using c2(3,4,5) y anc_height [OF inv l(2) c2(5) _ y] live_node [OF inv c2(2)] by (auto, metis option.sel)
  then have "t = (s1, ?z)" using t \<open>c1 = b2\<close> by (simp add: work_both.simps)
  then show "MorePOW ops (ch_nodes ch) b1 b2 = Some (Inr True)" using M c1(5) a(3,4) gt by simp
qed

end
