(* ===== verification/BlockCheck.thy ===== *)
theory BlockCheck
  imports ChainDiff ChainTxLaws
begin

text \<open>
  The checks of a new block (\<open>lib/chain/block_check.go\<close>, \<open>CheckTransactions\<close> of \<open>lib/chain/chain_accept.go\<close>): of its
  header before it is taken, and of its transactions. The clock is an argument. \<open>CheckTransactions\<close> runs a goroutine
  per transaction and reports one of the errors; here it is the first in the order of the block.
\<close>

datatype check_error =
    BadLength | BadVersion | HighHash | TimeTooNew | GenesisBlock | DuplicateBlock | ParentNotFound | HooksTooDeep
  | BadDiffBits | TimeTooOld | RejectedVersion
  | BadTxList block_error | BadWeight | CoinbaseMissing | CoinbaseHeight | CoinbaseMultiple | DuplicateTransaction
  | MerkleMismatch | WitnessNonceSize | WitnessMerkleMismatch | UnexpectedWitness
  | TxFailed tx_error | NonFinal

abbreviation (input) MovingCheckopintDepth :: int where "MovingCheckopintDepth \<equiv> 2016"
abbreviation (input) BIP16SwitchTime :: u32 where "BIP16SwitchTime \<equiv> 1333238400"
abbreviation (input) MAX_BLOCK_WEIGHT :: u64 where "MAX_BLOCK_WEIGHT \<equiv> 4000000"

section \<open>The header\<close>

text \<open>The checks that need the parent: \<open>prevblk\<close> is its node. The second result is the block with its height and
  median time.\<close>

definition check_parent :: "chain \<Rightarrow> u32 \<Rightarrow> nat \<Rightarrow> block \<Rightarrow> (go_panic + (bool \<times> bool \<times> check_error option) \<times> block) option" where
  "check_parent ch ver prevblk bl =
     (case node (ch_nodes ch) (Some prevblk) of
        Inl e \<Rightarrow> Some (Inl e)
      | Inr prev \<Rightarrow>
     (case node (ch_nodes ch) (Some (LastBlock ch)) of
        Inl e \<Rightarrow> Some (Inl e)
      | Inr lst \<Rightarrow>
          let bl = bl\<lparr>bl_Height := tn_Height prev + 1\<rparr> in
          if prevblk \<noteq> LastBlock ch \<and> uint (tn_Height lst) - uint (bl_Height bl) \<ge> MovingCheckopintDepth
          then Some (Inr ((False, False, Some HooksTooDeep), bl))
          else
            bindR (Some (BlockTime bl)) (\<lambda>btime.
            bindR (GetNextWorkRequired ch prevblk btime) (\<lambda>gnwr.
            bindR (Some (Bits bl)) (\<lambda>bits.
            if bits \<noteq> gnwr then Some (Inr ((True, False, Some BadDiffBits), bl))
            else
              bindR (Some (GetMedianTimePast (ch_nodes ch) (Some prevblk))) (\<lambda>mpt.
              let bl = bl\<lparr>bl_MedianPastTime := mpt\<rparr>; c = ch_Consensus ch in
              if btime \<le> mpt then Some (Inr ((True, False, Some TimeTooOld), bl))
              else if ver < 2 \<and> bl_Height bl \<ge> co_BIP34Height c \<or> ver < 3 \<and> bl_Height bl \<ge> co_BIP66Height c
                   \<or> ver < 4 \<and> bl_Height bl \<ge> co_BIP65Height c
              then Some (Inr ((True, False, Some RejectedVersion), bl))
              else Some (Inr ((False, False, None), bl))))))))"

definition PreCheckBlock :: "chain \<Rightarrow> int \<Rightarrow> block \<Rightarrow> (go_panic + (bool \<times> bool \<times> check_error option) \<times> block) option" where
  "PreCheckBlock ch now bl =
     (if length (sl_data (bl_Raw bl)) < 80 then Some (Inr ((True, False, Some BadLength), bl))
      else
        bindR (Some (Version bl)) (\<lambda>ver.
        if ver = 0 then Some (Inr ((True, False, Some BadVersion), bl))
        else
          bindR (Some (Bits bl)) (\<lambda>bits.
          if \<not> CheckProofOfWork (bl_Hash bl) bits then Some (Inr ((True, False, Some HighHash), bl))
          else
            bindR (Some (BlockTime bl)) (\<lambda>btime.
            if uint btime > now + 2 * 60 * 60 then Some (Inr ((True, False, Some TimeTooNew), bl))
            else case ch_BlockIndex ch (BIdx (bl_Hash bl)) of
                Some prv \<Rightarrow>
                  bindR (Some (node (ch_nodes ch) (Some prv))) (\<lambda>x.
                  Some (Inr ((False, False, Some (if tn_Parent x = None then GenesisBlock else DuplicateBlock)), bl)))
              | None \<Rightarrow>
                  bindR (Some (ParentHash bl)) (\<lambda>ph.
                  case ch_BlockIndex ch (BIdx ph) of
                    None \<Rightarrow> Some (Inr ((False, True, Some ParentNotFound), bl))
                  | Some prevblk \<Rightarrow> check_parent ch ver prevblk bl)))))"

section \<open>The flags of a block\<close>

definition GetBlockFlags :: "consensus \<Rightarrow> u32 \<Rightarrow> u32 \<Rightarrow> u32" where
  "GetBlockFlags c block_height block_time =
     (if block_time = 0 \<or> block_time \<ge> BIP16SwitchTime then VER_P2SH else 0)
     OR (if block_height \<ge> co_BIP66Height c then VER_DERSIG else 0)
     OR (if block_height \<ge> co_BIP65Height c then VER_CLTV else 0)
     OR (if co_Enforce_CSV c \<noteq> 0 \<and> block_height \<ge> co_Enforce_CSV c then VER_CSV else 0)
     OR (if co_Enforce_SEGWIT c \<noteq> 0 \<and> block_height \<ge> co_Enforce_SEGWIT c then VER_WITNESS OR VER_NULLDUMMY else 0)
     OR (if co_Enforce_Taproot c \<noteq> 0 \<and> block_height \<ge> co_Enforce_Taproot c then VER_TAPROOT else 0)"

definition ApplyBlockFlags :: "chain \<Rightarrow> block \<Rightarrow> go_panic + block" where
  "ApplyBlockFlags ch bl =
     andThen (BlockTime bl) (\<lambda>btime. Inr (bl\<lparr>bl_VerifyFlags := GetBlockFlags (ch_Consensus ch) (bl_Height bl) btime\<rparr>))"

section \<open>The transactions\<close>

text \<open>The bytes a coinbase script must start with: the length of the height and the height. The buffer has six bytes.\<close>

fun exp_len :: "bytes \<Rightarrow> nat \<Rightarrow> nat" where
  "exp_len e n = (if n > 1 then (if e ! n \<noteq> 0 \<or> e ! (n - 1) \<ge> 0x80 then n else exp_len e (n - 1)) else n)"

declare exp_len.simps [simp del]

definition height_prefix :: "u32 \<Rightarrow> bytes" where
  "height_prefix height =
     (let e = 0 # le_bytes 4 height @ [0]; n = exp_len e 5 in take (n + 1) (e[0 := of_nat n]))"

text \<open>No transaction from the second on is a coinbase.\<close>

fun no_coinbase :: "tx option list \<Rightarrow> go_panic + bool" where
  "no_coinbase [] = Inr True"
| "no_coinbase (p # ps) =
     andThen (deref p) (\<lambda>t. andThen (IsCoinBase t) (\<lambda>cb. if cb then Inr False else no_coinbase ps))"

definition check_coinbase :: "consensus \<Rightarrow> block \<Rightarrow> go_panic + check_error option" where
  "check_coinbase c bl =
     (case txs_of bl of
        [] \<Rightarrow> Inr (Some CoinbaseMissing)
      | None # _ \<Rightarrow> Inr (Some CoinbaseMissing)
      | Some t # ts \<Rightarrow>
          andThen (IsCoinBase t) (\<lambda>cb.
          if \<not> cb then Inr (Some CoinbaseMissing)
          else
            andThen (if bl_Height bl \<ge> co_BIP34Height c then
                       andThen (index (tx_TxIn t) 0) (\<lambda>p. andThen (deref p) (\<lambda>i.
                       let pre = height_prefix (bl_Height bl) in Inr (take (length pre) (ti_ScriptSig i) = pre)))
                     else Inr True) (\<lambda>ok.
            if \<not> ok then Inr (Some CoinbaseHeight)
            else andThen (no_coinbase ts) (\<lambda>ok. Inr (if ok then None else Some CoinbaseMultiple)))))"

text \<open>The witness commitment: the last output of the coinbase that looks like one. The result is the error and whether
  there was a commitment.\<close>

definition is_commitment :: "bytes \<Rightarrow> bool" where
  "is_commitment s \<longleftrightarrow> length s \<ge> 38 \<and> take 6 s = [0x6a, 0x24, 0xaa, 0x21, 0xa9, 0xed]"

fun check_commitment :: "tx option list \<Rightarrow> tx \<Rightarrow> txout option list \<Rightarrow> go_panic + check_error option \<times> bool" where
  "check_commitment txs cb [] = Inr (None, False)"
| "check_commitment txs cb (p # ps) =
     andThen (deref p) (\<lambda>out.
     if is_commitment (to_Pk_script out) then
       (case tx_SegWit cb of
          Some [[nonce]] \<Rightarrow>
            if length nonce \<noteq> 32 then Inr (Some WitnessNonceSize, False)
            else
              andThen (GetWitnessMerkle txs) (\<lambda>(merkle, _).
              if Sha2Sum (merkle @ nonce) \<noteq> take 32 (drop 6 (to_Pk_script out)) then Inr (Some WitnessMerkleMismatch, False)
              else Inr (None, True))
        | _ \<Rightarrow> Inr (Some WitnessNonceSize, False))
     else check_commitment txs cb ps)"

fun any_witness :: "tx option list \<Rightarrow> go_panic + bool" where
  "any_witness [] = Inr False"
| "any_witness (p # ps) = andThen (deref p) (\<lambda>t. if tx_SegWit t \<noteq> None then Inr True else any_witness ps)"

fun CheckTransactions :: "tx option list \<Rightarrow> u32 \<Rightarrow> u32 \<Rightarrow> go_panic + check_error option" where
  "CheckTransactions [] height btime = Inr None"
| "CheckTransactions (p # ps) height btime =
     andThen (deref p) (\<lambda>t.
     case CheckTransaction t of
       Inl (TxPanic e) \<Rightarrow> Inl e
     | Inl e \<Rightarrow> Inr (Some (TxFailed e))
     | Inr _ \<Rightarrow>
         andThen (IsFinal t height btime) (\<lambda>fin.
         if fin then CheckTransactions ps height btime else Inr (Some NonFinal)))"

definition check_witness :: "block \<Rightarrow> go_panic + check_error option" where
  "check_witness bl =
     andThen (if bl_VerifyFlags bl AND VER_WITNESS \<noteq> 0 then
                andThen (index (txs_of bl) 0) (\<lambda>p. andThen (deref p) (\<lambda>cb. check_commitment (txs_of bl) cb (rev (tx_TxOut cb))))
              else Inr (None, False)) (\<lambda>(er, had_witness).
     if er \<noteq> None then Inr er
     else if had_witness then Inr None
     else andThen (any_witness (txs_of bl)) (\<lambda>w. Inr (if w then Some UnexpectedWitness else None)))"

text \<open>\<open>PostCheckBlock\<close>, in the order of the code. The list is built, and the weight looked at, only if there is none yet.\<close>

definition build_if_needed :: "block \<Rightarrow> go_panic + check_error option \<times> block" where
  "build_if_needed bl =
     (if bl_Txs bl = None then
        andThen (BuildTxList bl) (\<lambda>(e, bl).
        case e of
          Some er \<Rightarrow> Inr (Some (BadTxList er), bl)
        | None \<Rightarrow> if bl_BlockWeight bl > MAX_BLOCK_WEIGHT then Inr (Some BadWeight, bl) else Inr (None, bl))
      else Inr (None, bl))"

definition check_merkle :: "block \<Rightarrow> go_panic + check_error option" where
  "check_merkle bl =
     andThen (GetMerkle bl) (\<lambda>(merkle, mutated).
     if mutated then Inr (Some DuplicateTransaction)
     else andThen (MerkleRoot bl) (\<lambda>root. Inr (if merkle \<noteq> root then Some MerkleMismatch else None)))"

definition check_contents :: "block \<Rightarrow> go_panic + check_error option" where
  "check_contents bl =
     andThen (BlockTime bl) (\<lambda>btime.
     let blockTime = (if bl_VerifyFlags bl AND VER_CSV \<noteq> 0 then bl_MedianPastTime bl else btime) in
     andThen (check_witness bl) (\<lambda>er.
     if er \<noteq> None then Inr er else CheckTransactions (txs_of bl) (bl_Height bl) blockTime))"

definition PostCheckBlock :: "chain \<Rightarrow> block \<Rightarrow> go_panic + check_error option \<times> block" where
  "PostCheckBlock ch bl =
     (if length (sl_data (bl_Raw bl)) < 81 then Inr (Some BadLength, bl)
      else
        andThen (build_if_needed bl) (\<lambda>(er, bl).
        if er \<noteq> None then Inr (er, bl)
        else
          andThen (if bl_Trusted bl then Inr None else check_coinbase (ch_Consensus ch) bl) (\<lambda>er.
          if er \<noteq> None then Inr (er, bl)
          else
            andThen (check_merkle bl) (\<lambda>er.
            if er \<noteq> None then Inr (er, bl)
            else
              andThen (ApplyBlockFlags ch bl) (\<lambda>bl.
              if bl_Trusted bl then Inr (None, bl)
              else andThen (check_contents bl) (\<lambda>er. Inr (er, bl)))))))"

definition CheckBlock :: "chain \<Rightarrow> int \<Rightarrow> block \<Rightarrow> (go_panic + (bool \<times> bool \<times> check_error option) \<times> block) option" where
  "CheckBlock ch now bl =
     bindR (PreCheckBlock ch now bl) (\<lambda>((dos, maybelater, er), bl).
     if er \<noteq> None then Some (Inr ((dos, maybelater, er), bl))
     else bindR (Some (PostCheckBlock ch bl)) (\<lambda>(er, bl). Some (Inr ((er \<noteq> None, maybelater, er), bl))))"

end
