(* ===== verification/BlockCheckLaws.thy ===== *)
theory BlockCheckLaws
  imports BlockCheck
begin

text \<open>
  What an accepted block has: the facts each check establishes, collected for the header and for the contents.
\<close>

section \<open>The height in the coinbase\<close>

lemma mag_le_bytes: "mag (le_bytes n (x :: 'a::len word)) = unat x mod 256 ^ n"
proof (induction n arbitrary: x)
  case (Suc n)
  have e: "le_bytes (Suc n) x = ucast x # le_bytes n (drop_bit 8 x)"
  proof (rule nth_equalityI)
    fix i assume "i < length (le_bytes (Suc n) x)"
    then show "le_bytes (Suc n) x ! i = (ucast x # le_bytes n (drop_bit 8 x)) ! i"
      by (cases i) (simp_all add: le_bytes_def ac_simps nth_append del: upt_Suc)
  qed simp
  have "unat (ucast x :: byte) = unat x mod 256" by (simp add: unsigned_ucast_eq take_bit_eq_mod)
  moreover have "unat (drop_bit 8 x) = unat x div 256" by (simp add: unat_drop_bit_eq drop_bit_eq_div del: drop_bit_eq_div) (simp add: drop_bit_eq_div)
  ultimately show ?case by (simp add: e Suc mod_mult2_eq)
qed (simp add: le_bytes_def)

lemma int_enc_bytes:
  assumes "mag (m @ [b]) = n" and "b \<noteq> 0"
  shows "int_enc (int n) = (if 128 \<le> unat b then m @ [b, 0] else m @ [b])"
proof -
  have i: "int_bytes n = m @ [b]" using int_bytes_mag [of "m @ [b]"] assms by simp
  then have "n \<noteq> 0" by (metis int_bytes_0 snoc_eq_iff_butlast)
  then show ?thesis using byte_sign [of b] by (simp add: int_enc_def i Let_def)
qed

lemma le_bytes_4: obtains b0 b1 b2 b3 where "le_bytes 4 (h :: u32) = [b0, b1, b2, b3]" "mag [b0, b1, b2, b3] = unat h"
proof -
  obtain b0 b1 b2 b3 where b: "le_bytes 4 h = [b0, b1, b2, b3]"
    by (rule that [of "ucast h" "ucast (drop_bit 8 h)" "ucast (drop_bit 16 h)" "ucast (drop_bit 24 h)"]) (simp add: le_bytes_def upt_rec)
  have "unat h < 2 ^ LENGTH(32)" by (rule unsigned_less)
  then have "mag (le_bytes 4 h) = unat h" by (simp add: mag_le_bytes)
  with b that show thesis by metis
qed

lemma exp_len_5: "exp_len [x, b0, b1, b2, b3, 0] 5 =
    (if b3 \<ge> 0x80 then 5 else if b3 \<noteq> 0 \<or> b2 \<ge> 0x80 then 4 else if b2 \<noteq> 0 \<or> b1 \<ge> 0x80 then 3
     else if b1 \<noteq> 0 \<or> b0 \<ge> 0x80 then 2 else 1)"
  by (simp add: exp_len.simps [of _ 5] exp_len.simps [of _ 4] exp_len.simps [of _ 3] exp_len.simps [of _ 2] exp_len.simps [of _ "Suc 0"])

lemma height_prefix_bytes: "le_bytes 4 h = [b0, b1, b2, b3] \<Longrightarrow> height_prefix h =
    (if b3 \<ge> 0x80 then [5, b0, b1, b2, b3, 0] else if b3 \<noteq> 0 \<or> b2 \<ge> 0x80 then [4, b0, b1, b2, b3]
     else if b2 \<noteq> 0 \<or> b1 \<ge> 0x80 then [3, b0, b1, b2] else if b1 \<noteq> 0 \<or> b0 \<ge> 0x80 then [2, b0, b1] else [1, b0])"
  by (simp add: height_prefix_def Let_def exp_len_5)

text \<open>The prefix is a push of the height as a script number.\<close>

lemma height_prefix_enc:
  assumes "h \<noteq> 0"
  shows "height_prefix h = of_nat (length (int_enc (uint h))) # int_enc (uint h)"
proof -
  obtain b0 b1 b2 b3 where b: "le_bytes 4 h = [b0, b1, b2, b3]" and m: "mag [b0, b1, b2, b3] = unat h" by (rule le_bytes_4)
  have u: "uint h = int (unat h)" by simp
  have nz: "\<not> (b0 = 0 \<and> b1 = 0 \<and> b2 = 0 \<and> b3 = 0)" using m assms by (auto simp: unat_eq_zero)
  have ge: "0x80 \<le> (b :: byte) \<longleftrightarrow> 128 \<le> unat b" for b by (simp add: word_le_nat_alt)
  note P = height_prefix_bytes [OF b]
  consider (a) "b3 \<noteq> 0" | (b) "b3 = 0" "b2 \<noteq> 0" | (c) "b3 = 0" "b2 = 0" "b1 \<noteq> 0" | (d) "b3 = 0" "b2 = 0" "b1 = 0" "b0 \<noteq> 0" using nz by blast
  then show ?thesis
  proof cases
    case a
    have "int_enc (int (unat h)) = (if 128 \<le> unat b3 then [b0, b1, b2, b3, 0] else [b0, b1, b2, b3])"
      using int_enc_bytes [of "[b0, b1, b2]" b3 "unat h"] m a by simp
    then show ?thesis using a by (simp add: P u ge del: of_nat_unat)
  next
    case b
    have "int_enc (int (unat h)) = (if 128 \<le> unat b2 then [b0, b1, b2, 0] else [b0, b1, b2])"
      using int_enc_bytes [of "[b0, b1]" b2 "unat h"] m b by simp
    then show ?thesis using b by (simp add: P u ge del: of_nat_unat)
  next
    case c
    have "int_enc (int (unat h)) = (if 128 \<le> unat b1 then [b0, b1, 0] else [b0, b1])"
      using int_enc_bytes [of "[b0]" b1 "unat h"] m c by simp
    then show ?thesis using c by (simp add: P u ge del: of_nat_unat)
  next
    case d
    have "int_enc (int (unat h)) = (if 128 \<le> unat b0 then [b0, 0] else [b0])"
      using int_enc_bytes [of "[]" b0 "unat h"] m d by simp
    then show ?thesis using d by (simp add: P u ge del: of_nat_unat)
  qed
qed

section \<open>The flags\<close>

lemma sub_or:
  fixes a :: u32
  assumes "a AND a' = a" and "b AND b' = b"
  shows "(a OR b) AND (a' OR b') = a OR b"
proof (rule bit_eqI)
  fix n
  have "bit a n \<Longrightarrow> bit a' n" by (metis assms(1) bit_and_iff)
  moreover have "bit b n \<Longrightarrow> bit b' n" by (metis assms(2) bit_and_iff)
  ultimately show "bit ((a OR b) AND (a' OR b')) n = bit (a OR b) n" by (auto simp: bit_and_iff bit_or_iff)
qed

text \<open>A rule that is in force stays in force.\<close>

lemma flags_monotone:
  assumes "h \<le> h'"
  shows "GetBlockFlags c h t AND GetBlockFlags c h' t = GetBlockFlags c h t"
proof -
  have one: "(if h \<ge> k then f else 0) AND (if h' \<ge> k then f else 0) = (if h \<ge> k then f else (0 :: u32))" for k f
    using assms by auto
  have one': "(if k \<noteq> 0 \<and> h \<ge> k then f else 0) AND (if k \<noteq> 0 \<and> h' \<ge> k then f else 0) = (if k \<noteq> 0 \<and> h \<ge> k then f else (0 :: u32))" for k f
    using assms by auto
  show ?thesis unfolding GetBlockFlags_def by (intro sub_or one one') auto
qed

section \<open>Accepted contents\<close>

lemma no_coinbase_ok: "no_coinbase ps = Inr True \<Longrightarrow> p \<in> set ps \<Longrightarrow> \<exists>t. p = Some t \<and> IsCoinBase t = Inr False"
  by (induction ps) (auto simp: ok_iff split: if_splits)

definition script_prefix :: "bytes \<Rightarrow> tx \<Rightarrow> bool" where
  "script_prefix pre t \<longleftrightarrow> (\<exists>i r. tx_TxIn t = Some i # r \<and> take (length pre) (ti_ScriptSig i) = pre)"

lemma check_coinbase_ok:
  assumes "check_coinbase c bl = Inr None"
  obtains t ts where "txs_of bl = Some t # ts" "IsCoinBase t = Inr True" "\<And>p. p \<in> set ts \<Longrightarrow> \<exists>t. p = Some t \<and> IsCoinBase t = Inr False"
    "bl_Height bl \<ge> co_BIP34Height c \<Longrightarrow> script_prefix (height_prefix (bl_Height bl)) t"
proof -
  from assms obtain t ts where t: "txs_of bl = Some t # ts" by (auto simp: check_coinbase_def split: list.splits option.splits)
  with assms obtain cb ok nc where cb: "IsCoinBase t = Inr cb" "cb" and nc: "no_coinbase ts = Inr nc" "nc"
    and ok: "(if bl_Height bl \<ge> co_BIP34Height c then
                       andThen (index (tx_TxIn t) 0) (\<lambda>p. andThen (deref p) (\<lambda>i.
                       let pre = height_prefix (bl_Height bl) in Inr (take (length pre) (ti_ScriptSig i) = pre)))
                     else Inr True) = Inr ok" "ok"
    by (auto simp: check_coinbase_def ok_iff split: if_splits)
  have "script_prefix (height_prefix (bl_Height bl)) t" if "bl_Height bl \<ge> co_BIP34Height c"
    using ok that by (cases "tx_TxIn t") (auto simp: ok_iff Let_def script_prefix_def)
  with t cb nc no_coinbase_ok show thesis by (intro that) auto
qed

lemma CheckTransactions_ok:
  "CheckTransactions ps height btime = Inr None \<Longrightarrow> p \<in> set ps \<Longrightarrow>
     \<exists>t. p = Some t \<and> CheckTransaction t = Inr () \<and> IsFinal t height btime = Inr True"
proof (induction ps)
  case (Cons q ps)
  from Cons.prems(1) obtain t where q: "q = Some t" by (cases q) auto
  show ?case
  proof (cases "CheckTransaction t")
    case (Inl e)
    then show ?thesis using Cons.prems(1) by (cases e) (simp_all add: q)
  next
    case (Inr u)
    with Cons.prems(1) obtain fin where "IsFinal t height btime = Inr fin" "(if fin then CheckTransactions ps height btime else Inr (Some NonFinal)) = Inr None"
      by (auto simp: q andThen_ok)
    then have "IsFinal t height btime = Inr True" "CheckTransactions ps height btime = Inr None" by (simp_all split: if_splits)
    with Cons.IH Cons.prems(2) Inr q show ?thesis by auto
  qed
qed simp

lemma any_witness_ok: "any_witness ps = Inr False \<Longrightarrow> Some t \<in> set ps \<Longrightarrow> tx_SegWit t = None"
  by (induction ps) (auto simp: ok_iff split: if_splits)

lemma check_commitment_ok:
  "check_commitment txs cb outs = Inr (None, w) \<Longrightarrow> w \<Longrightarrow>
     \<exists>out nonce merkle m. Some out \<in> set outs \<and> is_commitment (to_Pk_script out) \<and> tx_SegWit cb = Some [[nonce]] \<and> length nonce = 32
       \<and> GetWitnessMerkle txs = Inr (merkle, m) \<and> Sha2Sum (merkle @ nonce) = take 32 (drop 6 (to_Pk_script out))"
proof (induction outs)
  case (Cons p ps)
  from Cons.prems obtain out where out: "p = Some out" by (cases p) auto
  show ?case
  proof (cases "is_commitment (to_Pk_script out)")
    case False
    then show ?thesis using Cons out by auto
  next
    case True
    have c: "(case tx_SegWit cb of
          Some [[nonce]] \<Rightarrow>
            if length nonce \<noteq> 32 then Inr (Some WitnessNonceSize, False)
            else andThen (GetWitnessMerkle txs) (\<lambda>(merkle, _).
              if Sha2Sum (merkle @ nonce) \<noteq> take 32 (drop 6 (to_Pk_script out)) then Inr (Some WitnessMerkleMismatch, False)
              else Inr (None, True))
        | _ \<Rightarrow> Inr (Some WitnessNonceSize, False)) = Inr (None, w)"
      using Cons.prems(1) unfolding out check_commitment.simps deref_simps andThen_simps if_P [OF True] .
    then obtain nonce where n: "tx_SegWit cb = Some [[nonce]]" by (auto split: option.splits list.splits)
    from c have l: "length nonce = 32" unfolding n by (simp split: if_splits)
    from c l obtain merkle m where m: "GetWitnessMerkle txs = Inr (merkle, m)" "Sha2Sum (merkle @ nonce) = take 32 (drop 6 (to_Pk_script out))"
      unfolding n by (auto simp: ok_iff split: if_splits)
    show ?thesis using n l m True out by auto
  qed
qed simp

definition committed :: "tx option list \<Rightarrow> tx \<Rightarrow> bool" where
  "committed txs cb \<longleftrightarrow> (\<exists>out nonce merkle m. Some out \<in> set (tx_TxOut cb) \<and> is_commitment (to_Pk_script out) \<and> tx_SegWit cb = Some [[nonce]]
     \<and> GetWitnessMerkle txs = Inr (merkle, m) \<and> Sha2Sum (merkle @ nonce) = take 32 (drop 6 (to_Pk_script out)))"

lemma check_witness_ok:
  assumes "check_witness bl = Inr None" and "txs_of bl = Some cb # ts" and "Some t \<in> set (txs_of bl)" and "tx_SegWit t \<noteq> None"
  shows "bl_VerifyFlags bl AND VER_WITNESS \<noteq> 0 \<and> committed (txs_of bl) cb"
proof -
  from assms(1) obtain er had where w: "(if bl_VerifyFlags bl AND VER_WITNESS \<noteq> 0 then
                andThen (index (txs_of bl) 0) (\<lambda>p. andThen (deref p) (\<lambda>cb. check_commitment (txs_of bl) cb (rev (tx_TxOut cb))))
              else Inr (None, False)) = Inr (er, had)"
    and r: "(if er \<noteq> None then Inr er else if had then Inr None
       else andThen (any_witness (txs_of bl)) (\<lambda>w. Inr (if w then Some UnexpectedWitness else None))) = Inr None"
    unfolding check_witness_def andThen_ok by auto
  have er: "er = None" using r by (auto split: if_splits)
  have "had"
  proof (rule ccontr)
    assume "\<not> had"
    then have "any_witness (txs_of bl) = Inr False" using r er by (auto simp: ok_iff split: if_splits)
    from any_witness_ok [OF this assms(3)] assms(4) show False by simp
  qed
  then have f: "bl_VerifyFlags bl AND VER_WITNESS \<noteq> 0" using w by (auto split: if_splits)
  then have "check_commitment (txs_of bl) cb (rev (tx_TxOut cb)) = Inr (None, had)" using w er assms(2) by (simp add: ok_iff)
  from check_commitment_ok [OF this \<open>had\<close>] f show ?thesis unfolding committed_def by auto
qed

text \<open>
  What \<open>PostCheckBlock\<close> establishes: the Merkle root and the rules in force for every block, the weight if it built the
  list of transactions itself (\<open>built\<close>), and the rest for a block that is not trusted.
\<close>

definition block_time_for_locks :: "block \<Rightarrow> u32 \<Rightarrow> u32" where
  "block_time_for_locks bl btime = (if bl_VerifyFlags bl AND VER_CSV \<noteq> 0 then bl_MedianPastTime bl else btime)"

definition accepted_txs :: "consensus \<Rightarrow> block \<Rightarrow> u32 \<Rightarrow> bool" where
  "accepted_txs c bl btime \<longleftrightarrow> (\<exists>cb ts.
     txs_of bl = Some cb # ts \<and> IsCoinBase cb = Inr True
   \<and> (\<forall>p\<in>set ts. \<exists>t. p = Some t \<and> IsCoinBase t = Inr False)
   \<and> (bl_Height bl \<ge> co_BIP34Height c \<longrightarrow> script_prefix (height_prefix (bl_Height bl)) cb)
   \<and> (\<forall>p\<in>set (txs_of bl). \<exists>t. p = Some t \<and> CheckTransaction t = Inr () \<and> IsFinal t (bl_Height bl) (block_time_for_locks bl btime) = Inr True
        \<and> (tx_SegWit t \<noteq> None \<longrightarrow> bl_VerifyFlags bl AND VER_WITNESS \<noteq> 0 \<and> committed (txs_of bl) cb)))"

definition accepted :: "consensus \<Rightarrow> bool \<Rightarrow> block \<Rightarrow> bool" where
  "accepted c built bl \<longleftrightarrow> (\<exists>root btime.
     GetMerkle bl = Inr (root, False) \<and> MerkleRoot bl = Inr root
   \<and> BlockTime bl = Inr btime \<and> bl_VerifyFlags bl = GetBlockFlags c (bl_Height bl) btime
   \<and> (built \<longrightarrow> bl_BlockWeight bl \<le> MAX_BLOCK_WEIGHT)
   \<and> (\<not> bl_Trusted bl \<longrightarrow> accepted_txs c bl btime))"

lemma merkle_flags: "GetMerkle (bl\<lparr>bl_VerifyFlags := f\<rparr>) = GetMerkle bl" "MerkleRoot (bl\<lparr>bl_VerifyFlags := f\<rparr>) = MerkleRoot bl"
    "BlockTime (bl\<lparr>bl_VerifyFlags := f\<rparr>) = BlockTime bl" "txs_of (bl\<lparr>bl_VerifyFlags := f\<rparr>) = txs_of bl"
proof -
  show "txs_of (bl\<lparr>bl_VerifyFlags := f\<rparr>) = txs_of bl" by (simp add: txs_of_def)
  then show "GetMerkle (bl\<lparr>bl_VerifyFlags := f\<rparr>) = GetMerkle bl" by (simp add: GetMerkle_def)
qed (simp_all add: MerkleRoot_def BlockTime_def)

lemma PostCheckBlock_accepts:
  assumes ok: "PostCheckBlock ch bl = Inr (None, bl')"
  shows "accepted (ch_Consensus ch) (bl_Txs bl = None) bl'"
proof -
  from ok obtain er1 bl1 where b: "build_if_needed bl = Inr (er1, bl1)" "er1 = None"
    and r1: "andThen (if bl_Trusted bl1 then Inr None else check_coinbase (ch_Consensus ch) bl1) (\<lambda>er.
          if er \<noteq> None then Inr (er, bl1)
          else andThen (check_merkle bl1) (\<lambda>er. if er \<noteq> None then Inr (er, bl1)
            else andThen (ApplyBlockFlags ch bl1) (\<lambda>bl. if bl_Trusted bl then Inr (None, bl)
              else andThen (check_contents bl) (\<lambda>er. Inr (er, bl))))) = Inr (None, bl')"
    unfolding PostCheckBlock_def by (auto simp: andThen_ok split: if_splits)
  from r1 obtain er2 where c: "(if bl_Trusted bl1 then Inr None else check_coinbase (ch_Consensus ch) bl1) = Inr er2" "er2 = None"
    and r2: "andThen (check_merkle bl1) (\<lambda>er. if er \<noteq> None then Inr (er, bl1)
            else andThen (ApplyBlockFlags ch bl1) (\<lambda>bl. if bl_Trusted bl then Inr (None, bl)
              else andThen (check_contents bl) (\<lambda>er. Inr (er, bl)))) = Inr (None, bl')"
    unfolding andThen_ok [of "if bl_Trusted bl1 then Inr None else check_coinbase (ch_Consensus ch) bl1"] by (auto split: if_splits)
  from r2 obtain er3 bl2 where m: "check_merkle bl1 = Inr er3" "er3 = None" and a: "ApplyBlockFlags ch bl1 = Inr bl2"
    and r3: "(if bl_Trusted bl2 then Inr (None, bl2) else andThen (check_contents bl2) (\<lambda>er. Inr (er, bl2))) = Inr (None, bl')"
    unfolding andThen_ok [of "check_merkle bl1"] by (auto simp: andThen_ok split: if_splits)
  from a obtain btime where bt: "BlockTime bl1 = Inr btime"
    and bl2: "bl2 = bl1\<lparr>bl_VerifyFlags := GetBlockFlags (ch_Consensus ch) (bl_Height bl1) btime\<rparr>"
    by (auto simp: ApplyBlockFlags_def ok_iff)
  have bl': "bl' = bl2" using r3 by (auto simp: ok_iff split: if_splits)
  have w: "bl_BlockWeight bl1 \<le> MAX_BLOCK_WEIGHT" if "bl_Txs bl = None"
    using b that by (auto simp: build_if_needed_def ok_iff split: if_splits option.splits)
  from m obtain root where root: "GetMerkle bl1 = Inr (root, False)" "MerkleRoot bl1 = Inr root"
    by (auto simp: check_merkle_def ok_iff split: if_splits)
  have txs: "accepted_txs (ch_Consensus ch) bl2 btime" if nt: "\<not> bl_Trusted bl2"
  proof -
    have nt1: "\<not> bl_Trusted bl1" using nt bl2 by simp
    have cc: "check_contents bl2 = Inr None" using r3 nt by (auto simp: ok_iff)
    have "check_coinbase (ch_Consensus ch) bl1 = Inr None" using c nt1 by simp
    then obtain cb ts where cb: "txs_of bl1 = Some cb # ts" "IsCoinBase cb = Inr True" "\<And>p. p \<in> set ts \<Longrightarrow> \<exists>t. p = Some t \<and> IsCoinBase t = Inr False"
      "bl_Height bl1 \<ge> co_BIP34Height (ch_Consensus ch) \<Longrightarrow> script_prefix (height_prefix (bl_Height bl1)) cb"
      by (rule check_coinbase_ok) blast
    have wit: "check_witness bl2 = Inr None"
      and txs: "CheckTransactions (txs_of bl2) (bl_Height bl2) (block_time_for_locks bl2 btime) = Inr None"
      using cc bt by (auto simp: check_contents_def ok_iff Let_def block_time_for_locks_def bl2 merkle_flags split: if_splits)
    have t2: "txs_of bl2 = Some cb # ts" using cb(1) by (simp add: bl2 merkle_flags)
    have each: "\<exists>t. p = Some t \<and> CheckTransaction t = Inr () \<and> IsFinal t (bl_Height bl2) (block_time_for_locks bl2 btime) = Inr True
          \<and> (tx_SegWit t \<noteq> None \<longrightarrow> bl_VerifyFlags bl2 AND VER_WITNESS \<noteq> 0 \<and> committed (txs_of bl2) cb)" if "p \<in> set (txs_of bl2)" for p
    proof -
      from CheckTransactions_ok [OF txs that] obtain t where t: "p = Some t" "CheckTransaction t = Inr ()"
        "IsFinal t (bl_Height bl2) (block_time_for_locks bl2 btime) = Inr True" by blast
      with check_witness_ok [OF wit t2, of t] that show ?thesis by auto
    qed
    show ?thesis
      unfolding accepted_txs_def
      by (rule exI [of _ cb], rule exI [of _ ts], intro conjI ballI impI) (use cb each t2 in \<open>simp_all add: bl2 merkle_flags\<close>)
  qed
  have "accepted (ch_Consensus ch) (bl_Txs bl = None) bl2"
    unfolding accepted_def
    by (rule exI [of _ root], rule exI [of _ btime], intro conjI impI txs) (use w root bt in \<open>simp_all add: bl2 merkle_flags\<close>)
  then show ?thesis by (simp add: bl')
qed

section \<open>The header check returns\<close>

lemma tree_node_of: "tree_inv ch \<Longrightarrow> live ch a \<Longrightarrow> \<exists>x. node (ch_nodes ch) (Some a) = Inr x \<and> ch_nodes ch a = Some x"
  by (rule live_node) (auto simp: node_def)

lemma last_hard_returns:
  assumes inv: "tree_inv ch"
  shows "live ch a \<Longrightarrow> \<exists>b. last_hard (ch_nodes ch) m (Some a) = Some (Inr b)"
proof (induction "height_of ch a" arbitrary: a rule: less_induct)
  case less
  obtain x where x: "ch_nodes ch a = Some x" by (rule live_node [OF inv less.prems])
  show ?case
  proof (cases "tn_Parent x \<noteq> None \<and> tn_Height x mod 2016 \<noteq> 0 \<and> NodeBits x = m")
    case False
    then show ?thesis by (subst last_hard.simps) (auto simp: node_def x)
  next
    case True
    then have "a \<noteq> ch_BlockTreeRoot ch" using root_parent [OF inv] x by auto
    from tree_parent [OF inv less.prems this] x obtain p y where p: "tn_Parent x = Some p" "live ch p" "ch_nodes ch p = Some y"
      "unat (tn_Height x) = Suc (unat (tn_Height y))" by (metis option.inject)
    with less.hyps [of p] x obtain b where "last_hard (ch_nodes ch) m (Some p) = Some (Inr b)" by auto
    then show ?thesis using True p(1) by (subst last_hard.simps) (simp add: node_def x)
  qed
qed

lemma go_back_returns:
  assumes inv: "tree_inv ch"
  shows "live ch a \<Longrightarrow> height_of ch (ch_BlockTreeRoot ch) + i \<le> height_of ch a \<Longrightarrow> \<exists>b. go_back (ch_nodes ch) i (Some a) = Inr (Some b) \<and> live ch b"
proof (induction i arbitrary: a)
  case (Suc i)
  obtain x where x: "ch_nodes ch a = Some x" by (rule live_node [OF inv Suc.prems(1)])
  have "a \<noteq> ch_BlockTreeRoot ch" using Suc.prems(2) by auto
  from tree_parent [OF inv Suc.prems(1) this] x obtain p y where p: "tn_Parent x = Some p" "live ch p" "ch_nodes ch p = Some y"
    "unat (tn_Height x) = Suc (unat (tn_Height y))" by (metis option.inject)
  with Suc.IH [OF p(2)] Suc.prems(2) x show ?case by (simp add: node_def)
qed simp

lemma GetNextWorkRequired_returns:
  assumes inv: "tree_inv ch" and l: "live ch a" and z: "height_of ch (ch_BlockTreeRoot ch) = 0"
  shows "\<exists>b. GetNextWorkRequired ch a ts = Some (Inr b)"
proof -
  obtain x where x: "ch_nodes ch a = Some x" by (rule live_node [OF inv l])
  have N: "node (ch_nodes ch) (Some a) = Inr x" by (simp add: node_def x)
  consider (r) "tn_Parent x = None" | (k) "tn_Parent x \<noteq> None" "(tn_Height x + 1) mod 2016 \<noteq> 0" | (t) "tn_Parent x \<noteq> None" "\<not> (tn_Height x + 1) mod 2016 \<noteq> 0"
    by (cases "tn_Parent x = None"; cases "(tn_Height x + 1) mod 2016 \<noteq> 0")
  then show ?thesis
  proof cases
    case r
    show ?thesis unfolding GetNextWorkRequired_def N sum.case if_P [OF r] by simp
  next
    case k
    show ?thesis using last_hard_returns [OF inv l] unfolding GetNextWorkRequired_def N sum.case if_not_P [OF k(1)] if_P [OF k(2)] by simp
  next
    case t
    have "2015 \<le> unat (tn_Height x)"
    proof (rule ccontr)
      assume "\<not> 2015 \<le> unat (tn_Height x)"
      then have lt: "unat (tn_Height x) < 2015" by simp
      then have u: "unat (tn_Height x + 1) = unat (tn_Height x) + 1" by (subst unat_add_small) simp_all
      have "unat ((tn_Height x + 1) mod 2016) = (unat (tn_Height x) + 1) mod 2016" by (simp add: unat_mod u del: mod_eq_0_iff_dvd)
      moreover have "unat ((tn_Height x + 1) mod 2016) = 0" using t(2) by simp
      ultimately show False using lt by simp
    qed
    with go_back_returns [OF inv l, of 2015] z x obtain b where b: "go_back (ch_nodes ch) 2015 (Some a) = Inr (Some b)" "live ch b" by auto
    have "targetInterval - 1 = 2015" by simp
    from tree_node_of [OF inv b(2)] obtain p where "node (ch_nodes ch) (Some b) = Inr p" by blast
    then have "andThen (go_back (ch_nodes ch) (targetInterval - 1) (Some a)) (\<lambda>prv. andThen (node (ch_nodes ch) prv) (\<lambda>p.
            Inr (retarget (ch_Consensus ch) (NodeBits x) (Timestamp x) (Timestamp p)))) = Inr (retarget (ch_Consensus ch) (NodeBits x) (Timestamp x) (Timestamp p))"
      unfolding \<open>targetInterval - 1 = 2015\<close> b(1) by simp
    then show ?thesis unfolding GetNextWorkRequired_def N sum.case if_not_P [OF t(1)] if_not_P [OF t(2)] by simp
  qed
qed

lemma header_slices:
  assumes "length (sl_data (bl_Raw bl)) \<ge> 80"
  shows "\<exists>v. Version bl = Inr v" "\<exists>v. ParentHash bl = Inr v" "\<exists>v. BlockTime bl = Inr v" "\<exists>v. Bits bl = Inr v"
  using assms by (simp_all add: Version_def ParentHash_def BlockTime_def Bits_def slice_range_def)

lemma slices_height: "BlockTime (bl\<lparr>bl_Height := h\<rparr>) = BlockTime bl" "Bits (bl\<lparr>bl_Height := h\<rparr>) = Bits bl"
  by (simp_all add: BlockTime_def Bits_def)

lemma check_parent_result:
  assumes inv: "tree_inv ch" and l: "live ch p" and z: "height_of ch (ch_BlockTreeRoot ch) = 0" and len: "length (sl_data (bl_Raw bl)) \<ge> 80"
    and v: "BlockTime bl = Inr btime" "Bits bl = Inr bits" and x: "ch_nodes ch p = Some x"
  obtains dos er bl' where "check_parent ch ver p bl = Some (Inr ((dos, False, er), bl'))"
    "er = None \<Longrightarrow> \<not> dos \<and> GetNextWorkRequired ch p btime = Some (Inr bits) \<and>
       (\<exists>mpt. GetMedianTimePast (ch_nodes ch) (Some p) = Inr mpt \<and> mpt < btime \<and>
         bl' = bl\<lparr>bl_Height := tn_Height x + 1, bl_MedianPastTime := mpt\<rparr>)"
proof -
  from inv have le: "live ch (LastBlock ch)" by (simp add: tree_inv_def LastBlock_def)
  obtain y where y: "ch_nodes ch (ch_blockTreeEnd ch) = Some y" using live_node [OF inv le] by (auto simp: LastBlock_def)
  obtain g where g: "GetNextWorkRequired ch p btime = Some (Inr g)" using GetNextWorkRequired_returns [OF inv l z] by blast
  obtain mpt where mpt: "GetMedianTimePast (ch_nodes ch) (Some p) = Inr mpt" using GetMedianTimePast_live [OF inv l] by blast
  let ?bl = "bl\<lparr>bl_Height := tn_Height x + 1\<rparr>"
  have N: "node (ch_nodes ch) (Some p) = Inr x" "node (ch_nodes ch) (Some (LastBlock ch)) = Inr y" by (simp_all add: node_def LastBlock_def x y)
  have V: "BlockTime ?bl = Inr btime" "Bits ?bl = Inr bits" by (simp_all add: slices_height v)
  note C = check_parent_def [of ch ver p bl, unfolded N Let_def sum.case V bindR_simps g mpt]
  consider (d) "p \<noteq> LastBlock ch \<and> uint (tn_Height y) - uint (bl_Height ?bl) \<ge> MovingCheckopintDepth"
    | (b) "\<not> (p \<noteq> LastBlock ch \<and> uint (tn_Height y) - uint (bl_Height ?bl) \<ge> MovingCheckopintDepth)" "bits \<noteq> g"
    | (o) "\<not> (p \<noteq> LastBlock ch \<and> uint (tn_Height y) - uint (bl_Height ?bl) \<ge> MovingCheckopintDepth)" "\<not> bits \<noteq> g" by blast
  then show thesis
  proof cases
    case d
    show thesis by (rule that [OF C [unfolded if_P [OF d]]]) simp
  next
    case b
    show thesis by (rule that [OF C [unfolded if_not_P [OF b(1)] if_P [OF b(2)]]]) simp
  next
    case o
    note C = C [unfolded if_not_P [OF o(1)] if_not_P [OF o(2)]]
    show thesis
    proof (cases "btime \<le> mpt")
      case True
      show thesis by (rule that [OF C [unfolded if_P [OF True]]]) simp
    next
      case False
      note C = C [unfolded if_not_P [OF False]]
      have acc: "GetNextWorkRequired ch p btime = Some (Inr bits)" "mpt < btime" using g o(2) False by simp_all
      show thesis
      proof (cases "ver < 2 \<and> bl_Height ?bl \<ge> co_BIP34Height (ch_Consensus ch) \<or> ver < 3 \<and> bl_Height ?bl \<ge> co_BIP66Height (ch_Consensus ch)
          \<or> ver < 4 \<and> bl_Height ?bl \<ge> co_BIP65Height (ch_Consensus ch)")
        case True
        show thesis by (rule that [of True "Some RejectedVersion"]) (use True in \<open>simp_all add: C\<close>)
      next
        case False
        show thesis by (rule that [of False None "?bl\<lparr>bl_MedianPastTime := mpt\<rparr>"]) (use False acc mpt in \<open>simp_all add: C\<close>)
      qed
    qed
  qed
qed

text \<open>\<open>PreCheckBlock\<close>, one step at a time.\<close>

definition header_ok :: "chain \<Rightarrow> int \<Rightarrow> block \<Rightarrow> block \<Rightarrow> bool" where
  "header_ok ch now bl bl' \<longleftrightarrow> length (sl_data (bl_Raw bl)) \<ge> 80 \<and> ch_BlockIndex ch (BIdx (bl_Hash bl)) = None
   \<and> (\<exists>ph p x ver btime bits mpt.
        ParentHash bl = Inr ph \<and> ch_BlockIndex ch (BIdx ph) = Some p \<and> ch_nodes ch p = Some x
      \<and> Version bl = Inr ver \<and> ver \<noteq> 0 \<and> Bits bl = Inr bits \<and> CheckProofOfWork (bl_Hash bl) bits
      \<and> GetNextWorkRequired ch p btime = Some (Inr bits)
      \<and> BlockTime bl = Inr btime \<and> uint btime \<le> now + 7200
      \<and> GetMedianTimePast (ch_nodes ch) (Some p) = Inr mpt \<and> mpt < btime
      \<and> bl' = bl\<lparr>bl_Height := tn_Height x + 1, bl_MedianPastTime := mpt\<rparr>)"

lemma PreCheckBlock_result:
  assumes inv: "tree_inv ch" and z: "height_of ch (ch_BlockTreeRoot ch) = 0"
  obtains dos later er bl' where "PreCheckBlock ch now bl = Some (Inr ((dos, later, er), bl'))" "er = None \<Longrightarrow> \<not> dos \<and> \<not> later \<and> header_ok ch now bl bl'"
proof (cases "length (sl_data (bl_Raw bl)) < 80")
  case True
  show thesis by (rule that [OF PreCheckBlock_def [of ch now bl, unfolded if_P [OF True]]]) simp
next
  case False
  then have len: "length (sl_data (bl_Raw bl)) \<ge> 80" by simp
  obtain ver ph btime bits where v: "Version bl = Inr ver" "ParentHash bl = Inr ph" "BlockTime bl = Inr btime" "Bits bl = Inr bits"
    using header_slices [OF len] by blast
  note C = PreCheckBlock_def [of ch now bl, unfolded if_not_P [OF False] v bindR_simps]
  consider "ver = 0" | "ver \<noteq> 0" "\<not> CheckProofOfWork (bl_Hash bl) bits"
    | "ver \<noteq> 0" "CheckProofOfWork (bl_Hash bl) bits" "uint btime > now + 2 * 60 * 60"
    | (ok) "ver \<noteq> 0" "CheckProofOfWork (bl_Hash bl) bits" "\<not> uint btime > now + 2 * 60 * 60" by blast
  then show thesis
  proof cases
    case ok
    note C = C [unfolded if_not_P [OF ok(1)] if_not_P [OF ok(3)]]
    show thesis
    proof (cases "ch_BlockIndex ch (BIdx (bl_Hash bl))")
      case (Some prv)
      then have "live ch prv" by (auto simp: live_def)
      from tree_node_of [OF inv this] obtain x where "node (ch_nodes ch) (Some prv) = Inr x" by blast
      with C Some ok show thesis by (intro that [of False False "Some (if tn_Parent x = None then GenesisBlock else DuplicateBlock)" bl]) simp_all
    next
      case None
      show thesis
      proof (cases "ch_BlockIndex ch (BIdx ph)")
        case None
        with C \<open>ch_BlockIndex ch (BIdx (bl_Hash bl)) = None\<close> ok show thesis by (intro that [of False True "Some ParentNotFound" bl]) simp_all
      next
        case (Some p)
        have l: "live ch p" using Some by (auto simp: live_def)
        obtain x where x: "ch_nodes ch p = Some x" by (rule live_node [OF inv l])
        from check_parent_result [OF inv l z len v(3,4) x, of ver] obtain dos er bl' where r: "check_parent ch ver p bl = Some (Inr ((dos, False, er), bl'))"
          "er = None \<Longrightarrow> \<not> dos \<and> GetNextWorkRequired ch p btime = Some (Inr bits) \<and>
             (\<exists>mpt. GetMedianTimePast (ch_nodes ch) (Some p) = Inr mpt \<and> mpt < btime \<and> bl' = bl\<lparr>bl_Height := tn_Height x + 1, bl_MedianPastTime := mpt\<rparr>)" by blast
        have e: "PreCheckBlock ch now bl = Some (Inr ((dos, False, er), bl'))" using C None Some ok r(1) by simp
        have "\<not> dos \<and> \<not> False \<and> header_ok ch now bl bl'" if n: "er = None"
        proof -
          from r(2) [OF n] obtain mpt where m: "\<not> dos" "GetNextWorkRequired ch p btime = Some (Inr bits)"
            "GetMedianTimePast (ch_nodes ch) (Some p) = Inr mpt" "mpt < btime" "bl' = bl\<lparr>bl_Height := tn_Height x + 1, bl_MedianPastTime := mpt\<rparr>" by blast
          have t: "uint btime \<le> now + 7200" using ok(3) by simp
          show ?thesis unfolding header_ok_def using len None v Some x ok(1,2) t m by blast
        qed
        with e show thesis by (rule that)
      qed
    qed
  qed (use C in \<open>auto intro!: that\<close>)
qed

end
