(* ===== verification/BlockTreeOps.thy ===== *)
theory BlockTreeOps
  imports BlockTreeLaws
begin

text \<open>
  Changing the tree: a new header is a new leaf, and deleting a branch takes exactly the blocks of the branch out of
  the index, when the database of blocks lets it.
\<close>

section \<open>A new header\<close>

lemma AcceptHeader_inv:
  assumes inv: "tree_inv ch" and acc: "AcceptHeader bl ch = Inr (cur, ch')" and new: "ch_BlockIndex ch (BIdx (bl_Hash bl)) = None"
    and low: "\<forall>a x. live ch a \<and> ch_nodes ch a = Some x \<longrightarrow> unat (tn_Height x) < 2 ^ 32 - 1"
  obtains p x where "tree_inv ch'" "\<And>a. live ch' a \<longleftrightarrow> live ch a \<or> a = cur" "\<not> live ch cur" "live ch p" "ch_nodes ch p = Some x"
    "ch_nodes ch' = (ch_nodes ch)(cur \<mapsto> \<lparr>tn_BlockHash = bl_Hash bl, tn_Height = tn_Height x + 1, tn_Parent = Some p,
                   tn_Childs = [], tn_BlockSize = 0, tn_TxCount = 0, tn_SigopsCost = 0, tn_BlockHeader = take 80 (sl_data (bl_Raw bl) @ sl_spare (bl_Raw bl))\<rparr>,
        p \<mapsto> x\<lparr>tn_Childs := tn_Childs x @ [cur]\<rparr>)" "ParentHash bl = Inr ph \<Longrightarrow> ch_BlockIndex ch (BIdx ph) = Some p"
    "ch' = ch\<lparr>ch_nodes := ch_nodes ch', ch_next := Suc cur, ch_BlockIndex := (ch_BlockIndex ch)(BIdx (bl_Hash bl) \<mapsto> cur)\<rparr>" "p \<noteq> cur"
proof -
  from acc obtain ph' p hdr x h where
    ph: "ParentHash bl = Inr ph'" "ch_BlockIndex ch (BIdx ph') = Some p" "ch_nodes ch p = Some x"
      "slice_range (bl_Raw bl) 0 80 = Inr hdr" "cur = ch_next ch"
    and h: "addChild p cur ((ch_nodes ch)(cur \<mapsto> \<lparr>tn_BlockHash = bl_Hash bl, tn_Height = tn_Height x + 1, tn_Parent = Some p,
                   tn_Childs = [], tn_BlockSize = 0, tn_TxCount = 0, tn_SigopsCost = 0, tn_BlockHeader = hdr\<rparr>)) = Inr h"
    and ch': "ch' = ch\<lparr>ch_nodes := h, ch_next := Suc cur, ch_BlockIndex := (ch_BlockIndex ch)(BIdx (bl_Hash bl) \<mapsto> cur)\<rparr>"
    by (auto simp: AcceptHeader_def ok_iff node_def Let_def split: option.splits)
  have fresh: "\<And>a. a \<ge> cur \<Longrightarrow> ch_nodes ch a = None" using inv ph(5) by (auto simp: tree_inv_def)
  have lp: "live ch p" using ph(2) by (auto simp: live_def)
  have nl: "\<not> live ch cur"
    using live_node [OF inv, of cur] fresh [of cur] by auto
  then have pc: "p \<noteq> cur" using lp by auto
  let ?n = "\<lparr>tn_BlockHash = bl_Hash bl, tn_Height = tn_Height x + 1, tn_Parent = Some p,
                   tn_Childs = [], tn_BlockSize = 0, tn_TxCount = 0, tn_SigopsCost = 0, tn_BlockHeader = hdr\<rparr>"
  have h': "h = (ch_nodes ch)(cur \<mapsto> ?n, p \<mapsto> x\<lparr>tn_Childs := tn_Childs x @ [cur]\<rparr>)"
    using h ph(3) pc by (auto simp: addChild_def ok_iff node_def)
  have live': "live ch' a \<longleftrightarrow> live ch a \<or> a = cur" for a
    using new unfolding ch' live_def by (auto, metis option.distinct(1))
  have hgt: "unat (tn_Height x + 1) = Suc (unat (tn_Height x))"
    using low lp ph(3) by (subst unat_add_small) auto
  have ix: "ch_BlockIndex ch' = (ch_BlockIndex ch)(BIdx (bl_Hash bl) \<mapsto> cur)" "ch_BlockTreeRoot ch' = ch_BlockTreeRoot ch"
    "ch_blockTreeEnd ch' = ch_blockTreeEnd ch" "ch_nodes ch' = h" "ch_next ch' = Suc cur" by (simp_all add: ch')
  have root: "ch_BlockTreeRoot ch \<noteq> cur" "live ch (ch_BlockTreeRoot ch)" "live ch (ch_blockTreeEnd ch)" using inv nl by (auto simp: tree_inv_def)
  have old: "h a = (if a = p then Some (x\<lparr>tn_Childs := tn_Childs x @ [cur]\<rparr>) else ch_nodes ch a)" if "live ch a" for a
    using that nl by (auto simp: h')
  have tree: "tree_inv ch'"
    unfolding tree_inv_def ix
  proof (intro conjI allI impI)
    show "live ch' (ch_BlockTreeRoot ch)" "live ch' (ch_blockTreeEnd ch)" using root by (simp_all add: live')
    show "\<exists>y. h (ch_BlockTreeRoot ch) = Some y \<and> tn_Parent y = None"
      using root_parent [OF inv] live_node [OF inv root(2)] ph(3) old [OF root(2)] by (cases "ch_BlockTreeRoot ch = p") (auto, metis)
    show "h a = None" if "a \<ge> Suc cur" for a
      using fresh [of a] fresh [of cur] that ph(3) by (auto simp: h')
  next
    fix k a assume "((ch_BlockIndex ch)(BIdx (bl_Hash bl) \<mapsto> cur)) k = Some a"
    then consider (new) "k = BIdx (bl_Hash bl)" "a = cur" | (old) "k \<noteq> BIdx (bl_Hash bl)" "ch_BlockIndex ch k = Some a" by (auto split: if_splits)
    then have "(\<exists>x. h a = Some x \<and> BIdx (tn_BlockHash x) = k) \<and> childs_ok h (live ch') a \<and> (a \<noteq> ch_BlockTreeRoot ch \<longrightarrow> parent_ok h (live ch') a)"
    proof cases
      case new
      then show ?thesis using pc lp by (simp add: h' childs_ok_def parent_ok_def live')
    next
      case old
      then have la: "live ch a" by (auto simp: live_def)
      with nl have ac: "a \<noteq> cur" by auto
      obtain y where y: "ch_nodes ch a = Some y" "ch_BlockIndex ch (BIdx (tn_BlockHash y)) = Some a" "distinct (tn_Childs y)"
        "\<And>c. c \<in> set (tn_Childs y) \<Longrightarrow> live ch c \<and> (\<exists>z. ch_nodes ch c = Some z \<and> tn_Parent z = Some a \<and> unat (tn_Height z) = Suc (unat (tn_Height y)))"
        by (rule live_node [OF inv la]) blast
      have ky: "BIdx (tn_BlockHash y) = k" using inv old(2) y(1) unfolding tree_inv_def by (metis option.inject)
      have hc: "\<exists>z. h c = Some z \<and> tn_Parent z = Some a \<and> unat (tn_Height z) = Suc (unat (tn_Height y))" if "c \<in> set (tn_Childs y)" for c
        using y(4) [OF that] ph(3) \<open>\<not> live ch cur\<close> by (auto simp: h')
      have c1: "childs_ok h (live ch') a"
      proof (cases "a = p")
        case True
        then have yx: "y = x" using y(1) ph(3) by simp
        have "cur \<notin> set (tn_Childs y)" using y(4) nl by blast
        then show ?thesis using True y hc pc hgt yx by (auto simp: childs_ok_def h' live')
      next
        case False
        then show ?thesis using ac y hc by (auto simp: childs_ok_def h' live')
      qed
      have "parent_ok h (live ch') a" if nr: "a \<noteq> ch_BlockTreeRoot ch"
      proof -
        from tree_parent [OF inv la nr] obtain q z where q: "tn_Parent y = Some q" "live ch q" "ch_nodes ch q = Some z" "a \<in> set (tn_Childs z)"
          using y(1) by (metis option.inject)
        have "q \<noteq> cur" using q(2) nl by auto
        then show ?thesis using q y(1) ac ph(3) by (cases "a = p"; cases "q = p") (auto simp: parent_ok_def h' live')
      qed
      moreover have "\<exists>x. h a = Some x \<and> BIdx (tn_BlockHash x) = k" using y(1) ky ph(3) ac by (auto simp: h')
      ultimately show ?thesis using c1 by blast
    qed
    then show "\<exists>x. h a = Some x \<and> BIdx (tn_BlockHash x) = k" "childs_ok h (live ch') a"
      "a \<noteq> ch_BlockTreeRoot ch \<Longrightarrow> parent_ok h (live ch') a" by blast+
  qed
  have hdr: "hdr = take 80 (sl_data (bl_Raw bl) @ sl_spare (bl_Raw bl))" using ph(4) by (simp add: slice_range_ok)
  show thesis
    by (rule that [OF tree live' nl lp ph(3)]) (use ph pc ch' in \<open>simp_all add: h' hdr\<close>)
qed

section \<open>Deleting a branch\<close>

definition branch :: "chain \<Rightarrow> nat \<Rightarrow> nat set" where
  "branch ch c = {a. live ch a \<and> anc (ch_nodes ch) c a}"

definition node_key :: "chain \<Rightarrow> nat \<Rightarrow> bytes" where
  "node_key ch a = BIdx (tn_BlockHash (the (ch_nodes ch a)))"

text \<open>What deletion does to the tree: the nodes of \<open>S\<close> lose their children, those of \<open>T\<close> leave the index.\<close>

definition pruned :: "chain \<Rightarrow> nat set \<Rightarrow> nat set \<Rightarrow> chain \<Rightarrow> chain \<Rightarrow> bool" where
  "pruned ch0 S T ch ch' \<longleftrightarrow>
     ch_nodes ch' = (\<lambda>a. if a \<in> S then map_option (\<lambda>x. x\<lparr>tn_Childs := []\<rparr>) (ch_nodes ch0 a) else ch_nodes ch a)
   \<and> ch_BlockIndex ch' = (\<lambda>k. if k \<in> node_key ch0 ` T then None else ch_BlockIndex ch k)
   \<and> ch_next ch' = ch_next ch \<and> ch_BlockTreeRoot ch' = ch_BlockTreeRoot ch \<and> ch_blockTreeEnd ch' = ch_blockTreeEnd ch
   \<and> ch_Unspent ch' = ch_Unspent ch \<and> ch_Genesis ch' = ch_Genesis ch \<and> ch_Consensus ch' = ch_Consensus ch"

lemma pruned_trans: "pruned ch0 S T a b \<Longrightarrow> pruned ch0 S' T' b c \<Longrightarrow> pruned ch0 (S \<union> S') (T \<union> T') a c"
  by (auto simp: pruned_def fun_eq_iff)

lemma pruned_blocks: "BlocksInvalid h ch = Inr ch' \<Longrightarrow> pruned ch0 {} {} ch ch'"
  by (auto simp: BlocksInvalid_def ok_iff pruned_def)

text \<open>No block with a key of \<open>K\<close> is trusted or written: marking those invalid does not panic.\<close>

definition calm :: "bytes set \<Rightarrow> chain \<Rightarrow> bool" where
  "calm K ch \<longleftrightarrow> (\<forall>k\<in>K. \<forall>r. bd_blockIndex (ch_Blocks ch) k = Some r \<longrightarrow> \<not> ob_trusted r \<and> ob_ipos r = - 1)"

lemma calm_invalid:
  assumes "calm K ch" and "BIdx h \<in> K"
  obtains ch' where "BlocksInvalid h ch = Inr ch'" "calm K ch'"
  using assms by (cases "bd_blockIndex (ch_Blocks ch) (BIdx h)")
    (auto simp: BlocksInvalid_def BlockInvalid_def Let_def calm_def)

lemma calm_simps [simp]: "calm K (unindex h ch) = calm K ch" "calm K (ch\<lparr>ch_nodes := n\<rparr>) = calm K ch"
  by (simp_all add: calm_def unindex_def)

lemma branch_child:
  assumes inv: "tree_inv ch" and n: "live ch n" and x: "ch_nodes ch n = Some x"
  shows "branch ch n = insert n (\<Union> (branch ch ` set (tn_Childs x)))"
proof (intro set_eqI iffI)
  fix b assume "b \<in> branch ch n"
  then have b: "live ch b" "anc (ch_nodes ch) n b" by (simp_all add: branch_def)
  show "b \<in> insert n (\<Union> (branch ch ` set (tn_Childs x)))"
  proof (cases "b = n")
    case False
    from anc_via_child [OF inv b False x] b(1) show ?thesis by (auto simp: branch_def)
  qed simp
next
  fix b assume b: "b \<in> insert n (\<Union> (branch ch ` set (tn_Childs x)))"
  from live_node [OF inv n] x have c: "\<And>c. c \<in> set (tn_Childs x) \<Longrightarrow> \<exists>z. ch_nodes ch c = Some z \<and> tn_Parent z = Some n" by (metis option.inject)
  from b show "b \<in> branch ch n" using n c by (auto simp: branch_def intro: anc_refl anc_trans anc_child)
qed

text \<open>The branches of two children do not meet.\<close>

lemma branch_disjoint:
  assumes inv: "tree_inv ch" and n: "live ch n" and x: "ch_nodes ch n = Some x"
    and c: "c \<in> set (tn_Childs x)" "d \<in> set (tn_Childs x)" "c \<noteq> d"
  shows "branch ch c \<inter> branch ch d = {}"
proof -
  from live_node [OF inv n] x have k: "\<And>c. c \<in> set (tn_Childs x) \<Longrightarrow> live ch c \<and> (\<exists>z. ch_nodes ch c = Some z \<and> unat (tn_Height z) = Suc (unat (tn_Height x)))"
    by (metis option.inject)
  have "\<not> anc (ch_nodes ch) a b" if "a \<in> set (tn_Childs x)" "b \<in> set (tn_Childs x)" "a \<noteq> b" for a b
    using k [OF that(1)] k [OF that(2)] that(3) anc_height [OF inv, of b a] by fastforce
  then show ?thesis using c anc_linear [of "ch_nodes ch" c _ d] by (auto simp: branch_def)
qed

lemma delAllChildren_pruned:
  assumes inv: "tree_inv ch0"
  shows "live ch0 n \<Longrightarrow> (\<And>b. live ch0 b \<Longrightarrow> unat (tn_Height (the (ch_nodes ch0 b))) < unat (tn_Height (the (ch_nodes ch0 n))) + fuel) \<Longrightarrow>
    (\<And>a. a \<in> branch ch0 n \<Longrightarrow> ch_nodes ch a = ch_nodes ch0 a) \<Longrightarrow> node_key ch0 ` branch ch0 n \<subseteq> K \<Longrightarrow>
    (\<exists>e. delAllChildren fuel n ch = Some (Inl e) \<and> \<not> calm K ch) \<or>
    (\<exists>ch'. delAllChildren fuel n ch = Some (Inr ch') \<and> pruned ch0 (branch ch0 n) (branch ch0 n - {n}) ch ch' \<and> (calm K ch \<longrightarrow> calm K ch'))"
proof (induction fuel arbitrary: n ch)
  case 0
  then show ?case by (metis add.right_neutral less_irrefl)
next
  case (Suc fuel)
  let ?h = "ch_nodes ch0" let ?H = "\<lambda>a. unat (tn_Height (the (?h a)))"
  obtain x where x: "?h n = Some x" "distinct (tn_Childs x)" "\<And>c. c \<in> set (tn_Childs x) \<Longrightarrow> live ch0 c \<and>
      (\<exists>z. ?h c = Some z \<and> tn_Parent z = Some n \<and> unat (tn_Height z) = Suc (unat (tn_Height x)))"
    by (rule live_node [OF inv Suc.prems(1)]) blast
  note bc = branch_child [OF inv Suc.prems(1) x(1)]
  have nk: "BIdx (tn_BlockHash x) \<in> K" using Suc.prems(1,4) x(1) by (auto simp: branch_def node_key_def image_subset_iff intro: anc_refl)
  have cur: "ch_nodes ch n = Some x" using Suc.prems(3) [of n] x(1) Suc.prems(1) by (simp add: branch_def anc_refl)
  let ?f = "\<lambda>c ch. bindR (delAllChildren fuel c ch) (\<lambda>ch. case ch_nodes ch c of None \<Rightarrow> Some (Inl NilPointer)
              | Some y \<Rightarrow> Some (BlocksInvalid (tn_BlockHash x) (unindex (tn_BlockHash y) ch)))"
  have loop: "(\<exists>e. foldR ?f cs ch1 = Some (Inl e) \<and> \<not> calm K ch1) \<or>
      (\<exists>ch'. foldR ?f cs ch1 = Some (Inr ch') \<and> pruned ch0 (\<Union> (branch ch0 ` set cs)) (\<Union> (branch ch0 ` set cs)) ch1 ch' \<and> (calm K ch1 \<longrightarrow> calm K ch'))"
    if "set cs \<subseteq> set (tn_Childs x)" "distinct cs" "\<And>a c. c \<in> set cs \<Longrightarrow> a \<in> branch ch0 c \<Longrightarrow> ch_nodes ch1 a = ?h a" for cs ch1
    using that
  proof (induction cs arbitrary: ch1)
    case Nil
    then show ?case by (simp add: pruned_def)
  next
    case (Cons c cs)
    have c: "c \<in> set (tn_Childs x)" using Cons.prems(1) by simp
    then obtain z where z: "live ch0 c" "?h c = Some z" "?H c = Suc (?H n)" using x(3) [OF c] x(1) by auto
    have ih: "(\<exists>e. delAllChildren fuel c ch1 = Some (Inl e) \<and> \<not> calm K ch1) \<or>
      (\<exists>ch'. delAllChildren fuel c ch1 = Some (Inr ch') \<and> pruned ch0 (branch ch0 c) (branch ch0 c - {c}) ch1 ch' \<and> (calm K ch1 \<longrightarrow> calm K ch'))"
    proof (rule Suc.IH [OF z(1)])
      show "node_key ch0 ` branch ch0 c \<subseteq> K" using Suc.prems(4) c by (auto simp: bc)
    qed (use Suc.prems(2) z(3) Cons.prems(3) [of c] in simp_all)
    then show ?case
    proof (elim disjE exE conjE)
      fix e assume "delAllChildren fuel c ch1 = Some (Inl e)" "\<not> calm K ch1"
      then show ?thesis by simp
    next
      fix ch2 assume d: "delAllChildren fuel c ch1 = Some (Inr ch2)" and p: "pruned ch0 (branch ch0 c) (branch ch0 c - {c}) ch1 ch2" and k: "calm K ch1 \<longrightarrow> calm K ch2"
      have cb: "c \<in> branch ch0 c" using z(1) by (simp add: branch_def anc_refl)
      then have nc: "ch_nodes ch2 c = Some (z\<lparr>tn_Childs := []\<rparr>)" using p z(2) by (simp add: pruned_def)
      show ?thesis
      proof (cases "BlocksInvalid (tn_BlockHash x) (unindex (tn_BlockHash z) ch2)")
        case (Inl e)
        then have "\<not> calm K ch1" using calm_invalid [of K "unindex (tn_BlockHash z) ch2"] nk k by force
        with Inl show ?thesis by (simp add: d nc)
      next
        case (Inr ch3)
        have "pruned ch0 {} {c} ch2 (unindex (tn_BlockHash z) ch2)" by (auto simp: pruned_def unindex_def node_key_def z(2))
        from pruned_trans [OF pruned_trans [OF p this] pruned_blocks [OF Inr]] cb
        have p3: "pruned ch0 (branch ch0 c) (branch ch0 c) ch1 ch3" by (simp add: insert_absorb)
        have "ch_nodes ch3 a = ?h a" if "e \<in> set cs" "a \<in> branch ch0 e" for a e
        proof -
          have "e \<noteq> c" "e \<in> set (tn_Childs x)" using that(1) Cons.prems by auto
          then have "a \<notin> branch ch0 c" using branch_disjoint [OF inv Suc.prems(1) x(1) c, of e] that(2) by auto
          then show ?thesis using p3 Cons.prems(3) [of e a] that by (simp add: pruned_def)
        qed
        have k3: "calm K ch1 \<longrightarrow> calm K ch3" using calm_invalid [of K "unindex (tn_BlockHash z) ch2"] nk k Inr by force
        from Cons.IH [OF _ _ \<open>\<And>e a. e \<in> set cs \<Longrightarrow> a \<in> branch ch0 e \<Longrightarrow> ch_nodes ch3 a = ?h a\<close>] Cons.prems(1,2)
        have "(\<exists>e. foldR ?f cs ch3 = Some (Inl e) \<and> \<not> calm K ch3) \<or>
          (\<exists>ch'. foldR ?f cs ch3 = Some (Inr ch') \<and> pruned ch0 (\<Union> (branch ch0 ` set cs)) (\<Union> (branch ch0 ` set cs)) ch3 ch' \<and> (calm K ch3 \<longrightarrow> calm K ch'))" by auto
        then show ?thesis using pruned_trans [OF p3] k3 by (auto simp: d nc Inr)
      qed
    qed
  qed
  have start: "ch_nodes ch a = ?h a" if "c \<in> set (tn_Childs x)" "a \<in> branch ch0 c" for a c
    using Suc.prems(3) [of a] that by (auto simp: bc)
  from loop [OF _ x(2) start] have l: "(\<exists>e. foldR ?f (tn_Childs x) ch = Some (Inl e) \<and> \<not> calm K ch) \<or>
      (\<exists>ch'. foldR ?f (tn_Childs x) ch = Some (Inr ch') \<and> pruned ch0 (\<Union> (branch ch0 ` set (tn_Childs x))) (\<Union> (branch ch0 ` set (tn_Childs x))) ch ch' \<and> (calm K ch \<longrightarrow> calm K ch'))"
    by simp
  have out: "n \<notin> \<Union> (branch ch0 ` set (tn_Childs x))"
  proof
    assume "n \<in> \<Union> (branch ch0 ` set (tn_Childs x))"
    then obtain c where c: "c \<in> set (tn_Childs x)" "anc ?h c n" by (auto simp: branch_def)
    with x(3) [OF c(1)] anc_height [OF inv Suc.prems(1) c(2) _ x(1)] show False by auto
  qed
  from l show ?case
  proof (elim disjE exE conjE)
    fix e assume "foldR ?f (tn_Childs x) ch = Some (Inl e)" "\<not> calm K ch"
    then show ?thesis by (simp add: cur)
  next
    fix ch' assume f: "foldR ?f (tn_Childs x) ch = Some (Inr ch')"
      and p: "pruned ch0 (\<Union> (branch ch0 ` set (tn_Childs x))) (\<Union> (branch ch0 ` set (tn_Childs x))) ch ch'" and k: "calm K ch \<longrightarrow> calm K ch'"
    have n: "ch_nodes ch' n = Some x" using p out cur by (simp add: pruned_def)
    let ?ch = "ch'\<lparr>ch_nodes := (ch_nodes ch')(n \<mapsto> x\<lparr>tn_Childs := []\<rparr>)\<rparr>"
    have "pruned ch0 {n} {} ch' ?ch" by (auto simp: pruned_def x(1))
    from pruned_trans [OF p this] out have "pruned ch0 (branch ch0 n) (branch ch0 n - {n}) ch ?ch"
      by (simp add: bc)
    then show ?thesis using k by (simp add: cur f n)
  qed
qed

lemma branch_step: "live ch a \<Longrightarrow> ch_nodes ch a = Some x \<Longrightarrow> tn_Parent x = Some p \<Longrightarrow> p \<in> branch ch c \<Longrightarrow> a \<in> branch ch c"
  by (auto simp: branch_def intro: anc_step)

lemma branch_parent:
  assumes inv: "tree_inv ch" and a: "a \<in> branch ch c" "a \<noteq> c" and x: "ch_nodes ch a = Some x" "tn_Parent x = Some p"
  shows "p \<in> branch ch c"
proof -
  have l: "live ch a" and c: "anc (ch_nodes ch) c a" using a(1) by (simp_all add: branch_def)
  have pc: "anc (ch_nodes ch) c p" using c a(2) x by (cases rule: anc.cases) auto
  have "a \<noteq> ch_BlockTreeRoot ch" using root_parent [OF inv] x by auto
  from tree_parent [OF inv l this] x have "live ch p" by (metis option.inject)
  with pc show ?thesis by (simp add: branch_def)
qed

lemma key_inj:
  assumes "tree_inv ch" and "live ch a" and "live ch b" and "node_key ch a = node_key ch b"
  shows "a = b"
  using live_node [OF assms(1,2)] live_node [OF assms(1,3)] assms(4) by (metis node_key_def option.inject option.sel)

lemma pruned_tree:
  assumes inv: "tree_inv ch" and cur: "live ch cur" "cur \<noteq> ch_BlockTreeRoot ch" "ch_blockTreeEnd ch \<notin> branch ch cur"
    and p: "ch_nodes ch cur = Some z" "tn_Parent z = Some p" "ch_nodes ch p = Some y"
    and n: "\<And>a. a \<notin> branch ch cur \<Longrightarrow> ch_nodes ch' a = ((ch_nodes ch)(p \<mapsto> y\<lparr>tn_Childs := filter (\<lambda>c. c \<noteq> cur) (tn_Childs y)\<rparr>)) a"
    and ix: "ch_BlockIndex ch' = (\<lambda>k. if k \<in> node_key ch ` branch ch cur then None else ch_BlockIndex ch k)"
    and rest: "ch_next ch' = ch_next ch" "ch_BlockTreeRoot ch' = ch_BlockTreeRoot ch" "ch_blockTreeEnd ch' = ch_blockTreeEnd ch"
      "\<And>a. a \<ge> ch_next ch \<Longrightarrow> ch_nodes ch' a = None"
  shows "tree_inv ch' \<and> (\<forall>a. live ch' a \<longleftrightarrow> live ch a \<and> a \<notin> branch ch cur)"
proof -
  let ?B = "branch ch cur"
  have live': "live ch' a \<longleftrightarrow> live ch a \<and> a \<notin> ?B" for a
  proof
    assume "live ch' a"
    then obtain k where k: "ch_BlockIndex ch k = Some a" "k \<notin> node_key ch ` ?B" by (auto simp: live_def ix split: if_splits)
    then have l: "live ch a" by (auto simp: live_def)
    have "node_key ch a = k" using inv k(1) unfolding tree_inv_def node_key_def by (metis option.sel)
    with k(2) l show "live ch a \<and> a \<notin> ?B" by blast
  next
    assume a: "live ch a \<and> a \<notin> ?B"
    then obtain k where k: "ch_BlockIndex ch k = Some a" by (auto simp: live_def)
    have ka: "node_key ch a = k" using inv k unfolding tree_inv_def node_key_def by (metis option.sel)
    have "k \<notin> node_key ch ` ?B"
    proof
      assume "k \<in> node_key ch ` ?B"
      then obtain b where b: "b \<in> ?B" "node_key ch b = k" by blast
      then have "b = a" using key_inj [OF inv, of b a] a ka by (simp add: branch_def)
      with a b show False by simp
    qed
    then show "live ch' a" using k by (auto simp: live_def ix)
  qed
  have rootB: "ch_BlockTreeRoot ch \<notin> ?B"
  proof
    assume "ch_BlockTreeRoot ch \<in> ?B"
    then have "anc (ch_nodes ch) cur (ch_BlockTreeRoot ch)" by (simp add: branch_def)
    then show False using cur(2) root_parent [OF inv] by (cases rule: anc.cases) auto
  qed
  have old: "\<exists>x. ch_nodes ch a = Some x \<and> ch_nodes ch' a = Some (if a = p then x\<lparr>tn_Childs := filter (\<lambda>c. c \<noteq> cur) (tn_Childs x)\<rparr> else x)"
    if l: "live ch a" and nB: "a \<notin> ?B" for a
  proof -
    obtain x where "ch_nodes ch a = Some x" by (rule live_node [OF inv l])
    then show ?thesis using n [OF nB] p(3) by auto
  qed
  have "tree_inv ch'"
    unfolding tree_inv_def rest(1,2,3)
  proof (intro conjI allI impI)
    show "live ch' (ch_BlockTreeRoot ch)" "live ch' (ch_blockTreeEnd ch)" using inv rootB cur(3) by (simp_all add: live' tree_inv_def)
    show "\<exists>x. ch_nodes ch' (ch_BlockTreeRoot ch) = Some x \<and> tn_Parent x = None"
      using old [OF _ rootB] inv root_parent [OF inv] unfolding tree_inv_def by force
    show "ch_nodes ch' a = None" if "a \<ge> ch_next ch" for a using rest(4) [OF that] .
  next
    fix k a assume "ch_BlockIndex ch' k = Some a"
    then have "live ch' a" and k: "ch_BlockIndex ch k = Some a" by (auto simp: live_def ix split: if_splits)
    then have l: "live ch a" "a \<notin> ?B" by (simp_all add: live')
    obtain x where x: "ch_nodes ch a = Some x" "distinct (tn_Childs x)" "\<And>c. c \<in> set (tn_Childs x) \<Longrightarrow> live ch c \<and>
        (\<exists>z. ch_nodes ch c = Some z \<and> tn_Parent z = Some a \<and> unat (tn_Height z) = Suc (unat (tn_Height x)))"
      by (rule live_node [OF inv l(1)]) blast
    let ?x = "if a = p then x\<lparr>tn_Childs := filter (\<lambda>c. c \<noteq> cur) (tn_Childs x)\<rparr> else x"
    have x': "ch_nodes ch' a = Some ?x" using old [OF l] x(1) by auto
    have h: "BIdx (tn_BlockHash x) = k" using inv k x(1) unfolding tree_inv_def by (metis option.inject)
    have kid: "live ch' c \<and> (\<exists>z. ch_nodes ch' c = Some z \<and> tn_Parent z = Some a \<and> unat (tn_Height z) = Suc (unat (tn_Height x)))"
      if c: "c \<in> set (tn_Childs ?x)" for c
    proof -
      have cx: "c \<in> set (tn_Childs x)" and nc: "a = p \<Longrightarrow> c \<noteq> cur" using c by (auto split: if_splits)
      from x(3) [OF cx] obtain w where w: "live ch c" "ch_nodes ch c = Some w" "tn_Parent w = Some a" "unat (tn_Height w) = Suc (unat (tn_Height x))" by blast
      have "c \<notin> ?B"
      proof
        assume cB: "c \<in> ?B"
        show False
        proof (cases "c = cur")
          case True
          then show False using nc w(2,3) p(1,2) by auto
        next
          case False
          from branch_parent [OF inv cB False w(2,3)] l(2) show False by blast
        qed
      qed
      with w old [OF w(1)] show ?thesis by (auto simp: live')
    qed
    have par: "parent_ok (ch_nodes ch') (live ch') a" if nr: "a \<noteq> ch_BlockTreeRoot ch"
    proof -
      from tree_parent [OF inv l(1) nr] x(1) obtain q w where q: "tn_Parent x = Some q" "live ch q" "ch_nodes ch q = Some w" "a \<in> set (tn_Childs w)"
        by (metis option.inject)
      have qB: "q \<notin> ?B" using branch_step [OF l(1) x(1) q(1)] l(2) by blast
      have "a \<noteq> cur" using l cur(1) by (auto simp: branch_def intro: anc_refl)
      then show ?thesis using q old [OF q(2) qB] qB x' by (auto simp: parent_ok_def live')
    qed
    show "\<exists>x. ch_nodes ch' a = Some x \<and> BIdx (tn_BlockHash x) = k" using x' h by simp
    show "childs_ok (ch_nodes ch') (live ch') a" using x' x(2) kid by (auto simp: childs_ok_def)
    show "parent_ok (ch_nodes ch') (live ch') a" if "a \<noteq> ch_BlockTreeRoot ch" by (rule par [OF that])
  qed
  with live' show ?thesis by blast
qed

text \<open>The fuel: heights have 32 bits.\<close>

lemma fuel_enough: "unat (h1 :: u32) < unat (h2 :: u32) + 2 ^ 32"
proof -
  have "unat h1 < 2 ^ LENGTH(32)" by (rule unsigned_less)
  then show ?thesis by simp
qed

lemma length_filter_out: "distinct xs \<Longrightarrow> x \<in> set xs \<Longrightarrow> length (filter (\<lambda>y. y \<noteq> x) xs) = length xs - 1"
proof (induction xs)
  case (Cons y ys)
  show ?case
  proof (cases "y = x")
    case True
    then have "filter (\<lambda>y. y \<noteq> x) ys = ys" using Cons.prems(1) by (intro filter_True) auto
    then show ?thesis using True by simp
  next
    case False
    then have "x \<in> set ys" using Cons.prems(2) by simp
    then show ?thesis using False Cons by (cases ys) auto
  qed
qed simp

lemma DeleteBranch_inv:
  assumes inv: "tree_inv ch" and cur: "live ch cur" "cur \<noteq> ch_BlockTreeRoot ch" "ch_blockTreeEnd ch \<notin> branch ch cur"
  shows "(\<exists>e. DeleteBranch (2 ^ 32) cur ch = Some (Inl e) \<and> \<not> calm (node_key ch ` branch ch cur) ch) \<or>
    (\<exists>ch'. DeleteBranch (2 ^ 32) cur ch = Some (Inr ch') \<and> tree_inv ch' \<and> (\<forall>a. live ch' a \<longleftrightarrow> live ch a \<and> a \<notin> branch ch cur)
      \<and> ch_blockTreeEnd ch' = ch_blockTreeEnd ch \<and> ch_Unspent ch' = ch_Unspent ch \<and> ch_BlockTreeRoot ch' = ch_BlockTreeRoot ch
      \<and> (\<forall>a. live ch' a \<longrightarrow> map_option tn_Height (ch_nodes ch' a) = map_option tn_Height (ch_nodes ch a)))"
proof -
  obtain z p y where z: "ch_nodes ch cur = Some z" "tn_Parent z = Some p" "live ch p" "ch_nodes ch p = Some y" "cur \<in> set (tn_Childs y)"
    "unat (tn_Height z) = Suc (unat (tn_Height y))"
    by (rule tree_parent [OF inv cur(1,2)]) blast
  obtain y' where y': "ch_nodes ch p = Some y'" "distinct (tn_Childs y')" by (rule live_node [OF inv z(3)])
  have ds: "distinct (tn_Childs y)" using y' z(4) by simp
  have pB: "p \<notin> branch ch cur"
  proof
    assume "p \<in> branch ch cur"
    then have "anc (ch_nodes ch) cur p" by (simp add: branch_def)
    from anc_height [OF inv z(3) this z(1,4)] z(6) show False by simp
  qed
  have del: "del_from cur (tn_Childs y) = Inr (filter (\<lambda>c. c \<noteq> cur) (tn_Childs y))"
  proof -
    have "length (filter (\<lambda>c. c \<noteq> cur) (tn_Childs y)) = length (tn_Childs y) - 1" by (rule length_filter_out [OF ds z(5)])
    moreover obtain m where "length (tn_Childs y) = Suc m" using z(5) by (cases "tn_Childs y") auto
    ultimately show ?thesis by (auto simp: del_from_def Let_def)
  qed
  let ?K = "node_key ch ` branch ch cur"
  have zk: "BIdx (tn_BlockHash z) \<in> ?K" using cur(1) z(1) by (auto simp: branch_def node_key_def image_iff intro!: bexI [of _ cur] anc_refl)
  show ?thesis
  proof (cases "BlocksInvalid (tn_BlockHash z) ch")
    case (Inl e)
    then have "\<not> calm ?K ch" using calm_invalid [OF _ zk] by force
    with Inl show ?thesis by (simp add: DeleteBranch_def z(1))
  next
    case (Inr ch1)
    note p1 = pruned_blocks [OF Inr, of ch]
    let ?h = "(ch_nodes ch)(p \<mapsto> y\<lparr>tn_Childs := filter (\<lambda>c. c \<noteq> cur) (tn_Childs y)\<rparr>)"
    let ?ch3 = "(unindex (tn_BlockHash z) ch1)\<lparr>ch_nodes := ?h\<rparr>"
    have n1: "ch_nodes (unindex (tn_BlockHash z) ch1) = ch_nodes ch" using p1 by (simp add: pruned_def unindex_def)
    have D: "DeleteBranch (2 ^ 32) cur ch = delAllChildren (2 ^ 32) cur ?ch3"
      by (simp add: DeleteBranch_def z(1,2) Inr Let_def n1 delChild_def node_def z(4) del)
    have agree: "ch_nodes ?ch3 a = ch_nodes ch a" if "a \<in> branch ch cur" for a using that pB by auto
    have k1: "calm ?K ch \<longrightarrow> calm ?K ?ch3" using calm_invalid [OF _ zk] Inr by force
    have "(\<exists>e. delAllChildren (2 ^ 32) cur ?ch3 = Some (Inl e) \<and> \<not> calm ?K ?ch3) \<or>
      (\<exists>ch'. delAllChildren (2 ^ 32) cur ?ch3 = Some (Inr ch') \<and> pruned ch (branch ch cur) (branch ch cur - {cur}) ?ch3 ch'
        \<and> (calm ?K ?ch3 \<longrightarrow> calm ?K ch'))"
      by (rule delAllChildren_pruned [OF inv cur(1) fuel_enough agree order.refl])
    then show ?thesis
    proof (elim disjE exE conjE)
      fix e assume "delAllChildren (2 ^ 32) cur ?ch3 = Some (Inl e)" "\<not> calm ?K ?ch3"
      then show ?thesis using D k1 by simp
    next
      fix ch' assume d: "delAllChildren (2 ^ 32) cur ?ch3 = Some (Inr ch')"
        and p: "pruned ch (branch ch cur) (branch ch cur - {cur}) ?ch3 ch'"
      have cb: "cur \<in> branch ch cur" using cur(1) by (simp add: branch_def anc_refl)
      have nodes: "ch_nodes ch' a = ?h a" if "a \<notin> branch ch cur" for a using p that by (simp add: pruned_def)
      have ix: "ch_BlockIndex ch' = (\<lambda>k. if k \<in> node_key ch ` branch ch cur then None else ch_BlockIndex ch k)"
      proof -
        have "node_key ch ` branch ch cur = insert (BIdx (tn_BlockHash z)) (node_key ch ` (branch ch cur - {cur}))"
        proof -
          have "branch ch cur = insert cur (branch ch cur - {cur})" using cb by auto
          moreover have "node_key ch cur = BIdx (tn_BlockHash z)" by (simp add: node_key_def z(1))
          ultimately show ?thesis by (metis image_insert)
        qed
        then show ?thesis using p p1 by (auto simp: pruned_def unindex_def fun_eq_iff)
      qed
      have rest: "ch_next ch' = ch_next ch" "ch_BlockTreeRoot ch' = ch_BlockTreeRoot ch" "ch_blockTreeEnd ch' = ch_blockTreeEnd ch"
        "ch_Unspent ch' = ch_Unspent ch"
        using p p1 by (simp_all add: pruned_def unindex_def)
      have fresh: "ch_nodes ch' a = None" if "a \<ge> ch_next ch" for a
      proof -
        have a: "ch_nodes ch a = None" using inv that by (auto simp: tree_inv_def)
        then have "a \<notin> branch ch cur" using live_node [OF inv, of a] by (auto simp: branch_def)
        then show ?thesis using nodes a z(4) by auto
      qed
      have ht: "map_option tn_Height (ch_nodes ch' a) = map_option tn_Height (ch_nodes ch a)" if "a \<notin> branch ch cur" for a
        using nodes [OF that] z(4) by auto
      from pruned_tree [OF inv cur z(1,2,4) nodes ix rest(1,2,3) fresh] rest(2,3,4) d D ht show ?thesis by auto
    qed
  qed
qed

end
