(* ===== verification/SnappyLaws.thy ===== *)
theory SnappyLaws
  imports Snappy
begin

text \<open>
  What \<open>lib/others/snappy\<close> decodes from the chunks it writes, one by one.
\<close>

section \<open>Varints\<close>

lemma or_eq_add:
  fixes x y :: "'a :: len word"
  assumes "x AND y = 0"
  shows "x OR y = x + y"
  using assms by (simp add: word_plus_and_or [of x y, symmetric])

lemma high_bit: "unat (x :: 'a :: len word) < 2 ^ k \<Longrightarrow> bit x n \<Longrightarrow> n < k"
proof (rule ccontr)
  assume a: "unat x < 2 ^ k" "bit x n" "\<not> n < k"
  then have "unat x < 2 ^ n" by (meson less_le_trans linorder_not_less one_le_numeral power_increasing)
  then have "\<not> bit (unat x) n" by (simp add: bit_iff_odd)
  then show False using a(2) bit_imp_le_length [OF a(2)] by (simp add: bit_unsigned_iff)
qed

lemma low_high: "unat (x :: u64) < 2 ^ k \<Longrightarrow> x AND push_bit k y = 0"
  by (rule bit_word_eqI) (auto simp: bit_simps dest: high_bit)

lemma unat_eq_ucast: "unat (b :: byte) = n \<Longrightarrow> ucast b = (of_nat n :: u64)"
  by auto

lemma uvarint_put:
  assumes "x < 2 ^ 32" and "n < 2 ^ 32" and "unat acc + x * 2 ^ (7 * i) = n" and "unat acc < 2 ^ (7 * i)" and "i < 5"
  shows "uvarint i acc (PutUvarint x @ rest) = (of_nat n, int (i + length (PutUvarint x)))"
  using assms(1,3-5)
proof (induction x arbitrary: i acc rule: PutUvarint.induct)
  case (1 x)
  have pow: "push_bit (7 * i) (of_nat y :: u64) = of_nat (y * 2 ^ (7 * i))" for y by (simp add: push_bit_eq_mult)
  have join: "acc OR push_bit (7 * i) (of_nat y) = of_nat (unat acc + y * 2 ^ (7 * i))" for y
    using low_high [OF 1(4), of "of_nat y"] by (simp add: or_eq_add pow)
  show ?case
  proof (cases "x < 128")
    case True
    have "ucast (of_nat x :: byte) = (of_nat x :: u64)" using True by (intro unat_eq_ucast) (simp add: unat_of_nat)
    moreover have "(of_nat x :: byte) < 0x80" using True by (simp add: word_less_nat_alt unat_of_nat)
    ultimately show ?thesis using 1 True by (subst PutUvarint.simps) (simp add: join, subst PutUvarint.simps, simp)
  next
    case False
    let ?b = "of_nat (x mod 128 + 128) :: byte"
    have v: "unat ?b = x mod 128 + 128" by (simp only: unat_of_nat) simp
    then have b: "\<not> ?b < 0x80" by (simp add: word_less_nat_alt)
    have "unat (?b AND 0x7f) = x mod 128" by (simp only: byte_low7 v) simp
    then have c: "ucast (?b AND 0x7f) = (of_nat (x mod 128) :: u64)" by (rule unat_eq_ucast)
    let ?acc = "acc OR push_bit (7 * i) (of_nat (x mod 128))"
    have x: "x = x mod 128 + 128 * (x div 128)" by simp
    have p: "(2 :: nat) ^ (7 * Suc i) = 128 * 2 ^ (7 * i)" by (simp add: power_add)
    have "x mod 128 * 2 ^ (7 * i) \<le> 127 * 2 ^ (7 * i)" by (rule mult_right_mono) simp_all
    then have lt: "unat acc + x mod 128 * 2 ^ (7 * i) < 2 ^ (7 * Suc i)" using 1(4) unfolding p by linarith
    have "unat acc + x mod 128 * 2 ^ (7 * i) + (x div 128) * 2 ^ (7 * Suc i) = unat acc + (x mod 128 + 128 * (x div 128)) * 2 ^ (7 * i)"
      unfolding p by (simp only: algebra_simps)
    then have n: "unat acc + x mod 128 * 2 ^ (7 * i) + (x div 128) * 2 ^ (7 * Suc i) = n" using 1(3) x by simp
    have "(2 :: nat) ^ (7 * Suc i) \<le> 2 ^ 35" using 1(5) by (intro power_increasing) simp_all
    with lt have "unat acc + x mod 128 * 2 ^ (7 * i) < 2 ^ 64" by (simp del: power_Suc)
    then have a: "unat ?acc = unat acc + x mod 128 * 2 ^ (7 * i)" by (simp only: join unat_of_nat) simp
    have i: "Suc i < 5"
    proof (rule ccontr)
      assume "\<not> Suc i < 5"
      with 1(5) have "i = 4" by simp
      with n assms(2) have "(x div 128) * 2 ^ 35 < 2 ^ 32" by simp
      with False show False by simp
    qed
    from 1(1) [OF False _ _ _ i, of ?acc] n lt a 1(2)
    have "uvarint (Suc i) ?acc (PutUvarint (x div 128) @ rest) = (of_nat n, int (Suc i + length (PutUvarint (x div 128))))" by simp
    moreover have "PutUvarint x = ?b # PutUvarint (x div 128)" using False by (subst PutUvarint.simps) simp
    ultimately show ?thesis using b i c by simp
  qed
qed

lemma length_PutUvarint: "x < 128 ^ k \<Longrightarrow> 0 < k \<Longrightarrow> length (PutUvarint x) \<le> k"
proof (induction x arbitrary: k rule: PutUvarint.induct)
  case (1 x)
  show ?case
  proof (cases "x < 128")
    case True
    then show ?thesis using 1(3) by (subst PutUvarint.simps) simp
  next
    case False
    obtain j where j: "k = Suc j" using 1(3) by (cases k) simp_all
    have p: "0 < j" using 1(2) False unfolding j by (cases j) simp_all
    have "x div 128 < 128 ^ j" using 1(2) unfolding j by (simp add: less_mult_imp_div_less mult.commute)
    from 1(1) [OF False this p] False show ?thesis by (subst PutUvarint.simps) (simp add: j)
  qed
qed

lemma decodedLen_put:
  assumes "n < 2 ^ 32"
  shows "decodedLen (PutUvarint n @ rest) = Inr (n, length (PutUvarint n))"
proof -
  have "Uvarint (PutUvarint n @ rest) = (of_nat n, int (length (PutUvarint n)))"
    using uvarint_put [OF assms assms, of 0 0] by (simp add: Uvarint_def)
  moreover have "unat (of_nat n :: u64) = n" using assms by (simp add: unat_of_nat)
  moreover have "length (PutUvarint n) > 0" by (subst PutUvarint.simps) simp
  ultimately show ?thesis using assms by (simp add: decodedLen_def word_less_nat_alt)
qed

section \<open>Chunks\<close>

lemma tag_kind: "(push_bit 2 (m :: byte) OR k) AND 3 = k AND 3"
proof -
  have m: "x AND 3 = take_bit 2 x" for x :: byte by (simp add: take_bit_eq_mask mask_eq_exp_minus_1)
  show ?thesis unfolding m by (simp only: take_bit_or) (simp add: take_bit_push_bit)
qed

lemma tag_value:
  assumes "unat m < 64" and "unat k < 4"
  shows "drop_bit 2 (push_bit 2 (m :: byte) OR k) = m"
proof -
  have "unat (drop_bit 2 k) = unat k div 4" by (simp only: unat_drop_bit_eq) (simp add: drop_bit_eq_div)
  with assms(2) have "unat (drop_bit 2 k) = 0" by simp
  then have "drop_bit 2 k = 0" by (simp add: unat_eq_zero)
  moreover have "take_bit 6 m = m" using assms(1) by (simp only: word_unat_eq_iff unsigned_take_bit_eq) (simp add: take_bit_eq_mod)
  moreover have "drop_bit 2 (push_bit 2 m) = take_bit 6 m" by (rule bit_word_eqI) (auto simp: bit_simps)
  ultimately show ?thesis by (simp add: drop_bit_or)
qed

lemma le_word_2: "(le_word [a, b] :: u32) = of_nat (unat a + 256 * unat b)"
proof -
  have z: "(ucast a :: u32) AND push_bit 8 (ucast b) = 0" by (rule bit_word_eqI) (auto simp: bit_simps dest: bit_imp_le_length)
  have "(le_word [a, b] :: u32) = ucast a + push_bit 8 (ucast b)" by (simp add: or_eq_add z)
  then show ?thesis by (simp add: push_bit_eq_mult)
qed

lemma le_word_1: "(le_word [a] :: u32) = ucast a"
  by simp

lemma offset_bytes: "offset < 65536 \<Longrightarrow> unat (le_word [of_nat offset, of_nat (drop_bit 8 offset)] :: u32) = offset"
  by (simp only: le_word_2) (simp add: unat_of_nat drop_bit_eq_div)

lemma ucast_of_nat: "(ucast (of_nat k :: u64) :: byte) = of_nat k"
  by (simp add: unsigned_of_nat word_of_nat_eq_iff)

lemma take_2 [simp]: "take 2 (a # b # xs) = [a, b]" "drop 2 (a # b # xs) = xs"
  by (simp_all add: numeral_2_eq_2)

lemma decode_literal:
  assumes "0 < length lit" "length lit \<le> 65536" "length dst + length lit \<le> n"
  shows "decode n dst (emitLiteral lit @ rest) = decode n (dst @ lit) rest"
proof -
  obtain k where k: "length lit = Suc k" using assms(1) by (cases lit) simp_all
  have w: "(word_of_int (int (length lit) - 1) :: u64) = of_nat k" by (simp add: k)
  have u: "unat (of_nat k :: u64) = k" using assms(2) k by (simp add: unat_of_nat)
  have go: "decode n dst (t # hdr @ lit @ rest) = decode n (dst @ lit) rest"
    if "read_tag t (hdr @ lit @ rest) = Inr (LiteralChunk x, lit @ rest)" "unat x = k" for t hdr x
  proof -
    have l: "int (unat x) + 1 = int (length lit)" using that(2) k by simp
    show ?thesis unfolding decode.simps that(1) andThen_simps prod.case snappy_chunk.case Let_def l using assms by simp
  qed
  show ?thesis
  proof (cases "k < 60")
    case True
    let ?m = "of_nat k :: byte"
    have m: "unat ?m = k" using True by (simp add: unat_of_nat)
    have e: "emitLiteral lit = push_bit 2 ?m # [] @ lit" using True u
      unfolding emitLiteral_def Let_def w by (simp add: word_less_nat_alt ucast_of_nat)
    have "unat (0 :: byte) < 4" "unat ?m < 64" using m True by simp_all
    from tag_value [OF this(2,1)] tag_kind [of ?m 0]
    have "push_bit 2 ?m AND 3 = 0" "drop_bit 2 (push_bit 2 ?m) = ?m" by simp_all
    moreover have "?m < 60" using m True by (simp add: word_less_nat_alt)
    ultimately have "read_tag (push_bit 2 ?m) ([] @ lit @ rest) = Inr (LiteralChunk (ucast ?m), lit @ rest)"
      by (simp add: read_tag_def Let_def)
    moreover have "unat (ucast ?m :: u32) = k" using True by (simp only: unsigned_ucast_eq m) (simp add: take_bit_eq_mod)
    ultimately have "decode n dst (push_bit 2 ?m # [] @ lit @ rest) = decode n (dst @ lit) rest" by (rule go)
    then show ?thesis unfolding e by (simp only: append_Cons append_Nil)
  next
    case False
    show ?thesis
    proof (cases "k < 256")
      case True
      have e: "emitLiteral lit = 0xf0 # [of_nat k] @ lit" using True False u
        unfolding emitLiteral_def Let_def w by (simp add: word_less_nat_alt ucast_of_nat)
      have "read_tag 0xf0 ([of_nat k] @ lit @ rest) = Inr (LiteralChunk (le_word [of_nat k]), lit @ rest)"
        by (simp add: read_tag_def Let_def)
      moreover have "unat (le_word [of_nat k] :: u32) = k" using True by (simp only: le_word_1 unsigned_ucast_eq unat_of_nat) (simp add: take_bit_eq_mod)
      ultimately show ?thesis using go [of "0xf0" "[of_nat k]"] unfolding e by simp
    next
      case ge: False
      have "k div 256 < 2 ^ 64" using assms(2) k by simp
      then have "unat (of_nat (k div 256) :: u64) = k div 256" by (simp only: unat_of_nat) simp
      then have d: "drop_bit 8 (of_nat k :: u64) = of_nat (drop_bit 8 k)"
        by (simp only: word_unat_eq_iff unat_drop_bit_eq u) (simp add: drop_bit_eq_div)
      have e: "emitLiteral lit = 0xf4 # [of_nat k, of_nat (drop_bit 8 k)] @ lit" using False ge u
        unfolding emitLiteral_def Let_def w by (simp add: word_less_nat_alt ucast_of_nat d)
      have "read_tag 0xf4 ([of_nat k, of_nat (drop_bit 8 k)] @ lit @ rest) = Inr (LiteralChunk (le_word [of_nat k, of_nat (drop_bit 8 k)]), lit @ rest)"
        by (simp add: read_tag_def Let_def)
      moreover have "k < 65536" using assms(2) k by simp
      ultimately show ?thesis using go [of "0xf4" "[of_nat k, of_nat (drop_bit 8 k)]"] offset_bytes [of k] unfolding e by simp
    qed
  qed
qed

lemma length_forwardCopy [simp]: "length (forwardCopy offset k dst) = length dst + k"
  by (induction k arbitrary: dst) simp_all

lemma forwardCopy_add: "forwardCopy offset (a + b) dst = forwardCopy offset b (forwardCopy offset a dst)"
  by (induction a arbitrary: dst) simp_all

lemma decode_copy2:
  assumes "0 < len" "len \<le> 64" "0 < offset" "offset < 65536" "offset \<le> length dst" "length dst + len \<le> n"
  shows "decode n dst (copy2 offset len @ rest) = decode n (forwardCopy offset len dst) rest"
proof -
  let ?m = "of_nat len - 1 :: byte"
  have m: "?m = of_nat (len - 1)" using assms(1) by (cases len) simp_all
  have u: "unat ?m = len - 1" using assms(2) unfolding m by (simp add: unat_of_nat)
  then have "unat ?m < 64" "unat (2 :: byte) < 4" using assms(1,2) by simp_all
  from tag_value [OF this] tag_kind [of ?m 2]
  have t: "(push_bit 2 ?m OR 2) AND 3 = 2" "drop_bit 2 (push_bit 2 ?m OR 2) = ?m" by simp_all
  have r: "read_tag x ([of_nat offset, of_nat (drop_bit 8 offset)] @ rest) = Inr (CopyChunk len offset, rest)"
    if "x AND 3 = 2" "drop_bit 2 x = ?m" for x
    using offset_bytes [OF assms(4)] assms(1) by (simp add: read_tag_def that u [unfolded One_nat_def] Let_def)
  show ?thesis using assms r [OF t] unfolding copy2_def by simp
qed

lemma copy1_tag:
  assumes "unat (a :: byte) < 8" and "unat b < 8"
  shows "(push_bit 5 a OR push_bit 2 b OR 1) AND 3 = 1" "drop_bit 2 (push_bit 5 a OR push_bit 2 b OR 1) AND 7 = b"
    "push_bit 3 (ucast (push_bit 5 a OR push_bit 2 b OR 1) AND 0xe0) = (push_bit 8 (ucast a) :: u32)"
proof -
  have c: "(3 :: byte) = mask 2" "(7 :: byte) = mask 3" "(0xe0 :: u32) = push_bit 5 (mask 3)" "(1 :: byte) = mask 1"
    by (simp_all add: mask_eq_exp_minus_1)
  have l: "bit a n \<Longrightarrow> n < 3" "bit b n \<Longrightarrow> n < 3" for n using assms high_bit [of a 3 n] high_bit [of b 3 n] by simp_all
  show "(push_bit 5 a OR push_bit 2 b OR 1) AND 3 = 1" "drop_bit 2 (push_bit 5 a OR push_bit 2 b OR 1) AND 7 = b"
    "push_bit 3 (ucast (push_bit 5 a OR push_bit 2 b OR 1) AND 0xe0) = (push_bit 8 (ucast a) :: u32)"
    unfolding c by (rule bit_word_eqI, auto simp: bit_simps dest: l)+
qed

lemma decode_emitCopy:
  assumes "4 \<le> len" "0 < offset" "offset < 65536" "offset \<le> length dst" "length dst + len \<le> n"
  shows "decode n dst (emitCopy offset len @ rest) = decode n (forwardCopy offset len dst) rest"
  using assms
proof (induction offset len arbitrary: dst rule: emitCopy.induct)
  case (1 offset len)
  note two = decode_copy2 [OF _ _ 1(4-6)]
  show ?case
  proof (cases "len \<ge> 68")
    case True
    then have e: "emitCopy offset len = copy2 offset 64 @ emitCopy offset (len - 64)" by (subst emitCopy.simps) simp
    have "forwardCopy offset len dst = forwardCopy offset (len - 64) (forwardCopy offset 64 dst)"
      using True forwardCopy_add [of offset 64 "len - 64"] by simp
    then show ?thesis unfolding e using two [of 64] 1(1) [OF True _ 1(4,5)] 1(6,7) True by simp
  next
    case lt: False
    show ?thesis
    proof (cases "len > 64")
      case True
      then have e: "emitCopy offset len = copy2 offset 60 @ emitCopy offset (len - 60)" using lt by (subst emitCopy.simps) simp
      have "forwardCopy offset len dst = forwardCopy offset (len - 60) (forwardCopy offset 60 dst)"
        using True forwardCopy_add [of offset 60 "len - 60"] by simp
      then show ?thesis unfolding e using two [of 60] 1(2) [OF lt True _ 1(4,5)] 1(6,7) True by simp
    next
      case le: False
      show ?thesis
      proof (cases "len \<ge> 12 \<or> offset \<ge> 2048")
        case True
        then have e: "emitCopy offset len = copy2 offset len" using lt le by (subst emitCopy.simps) simp
        show ?thesis unfolding e using two [of len] le 1(3,7) by simp
      next
        case False
        let ?a = "of_nat (drop_bit 8 offset) :: byte" let ?b = "of_nat len - 4 :: byte"
        have e: "emitCopy offset len = [push_bit 5 ?a OR push_bit 2 ?b OR 1, of_nat offset]" using False lt le by (subst emitCopy.simps) simp
        have b: "?b = of_nat (len - 4)" using 1(3) by (simp add: of_nat_diff)
        have "len - 4 < 256" using False by auto
        then have ub: "unat ?b = len - 4" unfolding b by (simp only: unat_of_nat) simp
        have "offset div 256 < 8" using False by auto
        then have ua: "unat ?a = offset div 256" by (simp add: unat_of_nat drop_bit_eq_div)
        have l: "unat ?a < 8" "unat ?b < 8" using ua ub False 1(3) by auto
        have "push_bit 8 (ucast ?a) OR ucast (of_nat offset :: byte) = (le_word [of_nat offset, ?a] :: u32)"
          by (simp add: or.commute)
        then have "unat (push_bit 8 (ucast ?a) OR ucast (of_nat offset :: byte) :: u32) = offset" using offset_bytes [OF 1(5)] by simp
        then have "read_tag (push_bit 5 ?a OR push_bit 2 ?b OR 1) (of_nat offset # rest) = Inr (CopyChunk len offset, rest)"
          using copy1_tag [OF l] ub 1(3) by (simp add: read_tag_def)
        then show ?thesis unfolding e using 1(4-7) by simp
      qed
    qed
  qed
qed

end
