(* ===== verification/SnappyEncode.thy ===== *)
theory SnappyEncode
  imports SnappyLaws
begin

text \<open>
  The encoder of \<open>lib/others/snappy\<close> writes chunks from which its input is decoded again, stays within its input and
  within the buffer of \<open>MaxEncodedLen\<close> bytes, and never panics on an input it takes.
\<close>

section \<open>Loads\<close>

lemma le_word_bytes:
  "ucast (le_word [a, b, c, d] :: u32) = a" "ucast (drop_bit 8 (le_word [a, b, c, d] :: u32)) = b"
  "ucast (drop_bit 16 (le_word [a, b, c, d] :: u32)) = c" "ucast (drop_bit 24 (le_word [a, b, c, d] :: u32)) = d"
  by (rule bit_word_eqI, auto simp: bit_simps dest: bit_imp_le_length)+

lemma le_word_inj: "(le_word [a, b, c, d] :: u32) = le_word [a', b', c', d'] \<Longrightarrow> a = a' \<and> b = b' \<and> c = c' \<and> d = d'"
  by (metis le_word_bytes)

lemma take_4_drop: "i + 4 \<le> length p \<Longrightarrow> take 4 (drop i p) = [p ! i, p ! (i + 1), p ! (i + 2), p ! (i + 3)]"
  by (rule nth_equalityI) (auto simp: less_Suc_eq numeral_eq_Suc nth_Cons split: nat.splits)

lemma take_8_drop: "i + 8 \<le> length p \<Longrightarrow> take 8 (drop i p) =
   [p ! i, p ! (i + 1), p ! (i + 2), p ! (i + 3), p ! (i + 4), p ! (i + 5), p ! (i + 6), p ! (i + 7)]"
  by (rule nth_equalityI) (auto simp: less_Suc_eq numeral_eq_Suc nth_Cons split: nat.splits)

lemma load32_ok: "load32 p i = Inr u \<longleftrightarrow> i + 4 \<le> length p \<and> u = le_word [p ! i, p ! (i + 1), p ! (i + 2), p ! (i + 3)]"
  by (auto simp: load32_def take_4_drop)

lemma load32_in: "i + 4 \<le> length p \<Longrightarrow> load32 p i = Inr (le_word [p ! i, p ! (i + 1), p ! (i + 2), p ! (i + 3)])"
  by (simp add: load32_ok)

lemma load32_eq:
  assumes "load32 p i = Inr u" "load32 p j = Inr u" "k < 4"
  shows "p ! (i + k) = p ! (j + k)"
proof -
  from assms(1,2) le_word_inj have "p ! i = p ! j \<and> p ! (i + 1) = p ! (j + 1) \<and> p ! (i + 2) = p ! (j + 2) \<and> p ! (i + 3) = p ! (j + 3)"
    unfolding load32_ok by blast
  moreover from assms(3) have "k = 0 \<or> k = 1 \<or> k = 2 \<or> k = 3" by auto
  ultimately show ?thesis by auto
qed

lemma load64_in: "i + 8 \<le> length p \<Longrightarrow> \<exists>x. load64 p i = Inr x \<and> load32 p (i + 1) = Inr (ucast (drop_bit 8 x))"
proof -
  assume l: "i + 8 \<le> length p"
  have *: "ucast (drop_bit 8 (le_word [a, b, c, d, e, f, g, h] :: u64)) = (le_word [b, c, d, e] :: u32)" for a b c d e f g h :: byte
    by (rule bit_word_eqI) (auto simp: bit_simps dest: bit_imp_le_length)
  have e: "load32 p (i + 1) = Inr (le_word [p ! (i + 1), p ! (i + 2), p ! (i + 3), p ! (i + 4)])"
    using load32_in [of "i + 1" p] l by (simp add: eval_nat_numeral)
  show ?thesis unfolding load64_def take_8_drop [OF l] if_P [OF l] e by (intro exI conjI, rule refl) (simp only: *)
qed

section \<open>Copies of what is there\<close>

lemma forwardCopy_block:
  assumes "c < b" "b + k \<le> length p" "\<forall>j<k. p ! (c + j) = p ! (b + j)"
  shows "forwardCopy (b - c) k (pre @ take b p) = pre @ take (b + k) p"
  using assms
proof (induction k arbitrary: b c)
  case (Suc k)
  have "(pre @ take b p) ! (length (pre @ take b p) - (b - c)) = p ! c"
    using Suc.prems(1,2) by (simp add: nth_append)
  also have "\<dots> = p ! b" using Suc.prems(3) by (metis add.right_neutral zero_less_Suc)
  finally have "forwardCopy (b - c) (Suc k) (pre @ take b p) = forwardCopy (Suc b - Suc c) k (pre @ take (Suc b) p)"
    using Suc.prems(2) by (simp add: take_Suc_conv_app_nth)
  moreover have "\<forall>j<k. p ! (Suc c + j) = p ! (Suc b + j)" using Suc.prems(3) by (metis Suc_less_eq add_Suc_shift)
  ultimately show ?case using Suc.IH [of "Suc c" "Suc b"] Suc.prems(1,2) by simp
qed simp

lemma extendMatch_same:
  assumes "i < j" "j \<le> length p"
  shows "extendMatch p i j \<le> length p \<and> (\<forall>k < extendMatch p i j - j. p ! (i + k) = p ! (j + k))"
  using assms
proof (induction p i j rule: extendMatch.induct)
  case (1 p i j)
  show ?case
  proof (cases "j < length p \<and> p ! i = p ! j")
    case True
    then have e: "extendMatch p i j = extendMatch p (i + 1) (j + 1)" by (subst extendMatch.simps) simp
    have IH: "extendMatch p (i + 1) (j + 1) \<le> length p" "\<forall>k < extendMatch p (i + 1) (j + 1) - (j + 1). p ! (i + 1 + k) = p ! (j + 1 + k)"
      using 1 True by auto
    have "p ! (i + k) = p ! (j + k)" if "k < extendMatch p (i + 1) (j + 1) - j" for k
    proof (cases k)
      case 0
      then show ?thesis using True by simp
    next
      case (Suc k')
      then show ?thesis using IH(2) that by (metis add.assoc add.commute diff_diff_left less_diff_conv plus_1_eq_Suc)
    qed
    then show ?thesis unfolding e using IH(1) by blast
  next
    case False
    then have "extendMatch p i j = j" by (subst extendMatch.simps) auto
    then show ?thesis using 1(3) by simp
  qed
qed

section \<open>The size of the chunks\<close>

lemma emitLiteral_size:
  assumes "0 < length lit" "length lit \<le> 65536"
  shows "60 * length (emitLiteral lit) \<le> 61 * length lit + 60"
proof -
  obtain k where k: "length lit = Suc k" using assms(1) by (cases lit) simp_all
  have w: "(word_of_int (int (length lit) - 1) :: u64) = of_nat k" by (simp add: k)
  have u: "unat (of_nat k :: u64) = k" using assms(2) k by (simp add: unat_of_nat)
  show ?thesis unfolding emitLiteral_def w Let_def using u by (auto simp: word_less_nat_alt k)
qed

lemma length_copy2 [simp]: "length (copy2 offset len) = 3"
  by (simp add: copy2_def)

lemma emitCopy_size: "4 \<le> len \<Longrightarrow> 60 * length (emitCopy offset len) + 60 \<le> 61 * len"
proof (induction offset len rule: emitCopy.induct)
  case (1 offset len)
  consider "len \<ge> 68" | "len < 68" "len > 64" | "len \<le> 64" by linarith
  then show ?case
  proof cases
    case 1
    then have e: "emitCopy offset len = copy2 offset 64 @ emitCopy offset (len - 64)" by (subst emitCopy.simps) simp
    have "60 * length (emitCopy offset (len - 64)) + 60 \<le> 61 * (len - 64)" using "1.IH"(1) 1 by simp
    then show ?thesis unfolding e using 1 by (simp add: diff_mult_distrib2)
  next
    case 2
    then have e: "emitCopy offset len = copy2 offset 60 @ emitCopy offset (len - 60)" by (subst emitCopy.simps) simp
    have "60 * length (emitCopy offset (len - 60)) + 60 \<le> 61 * (len - 60)" using "1.IH"(2) 2 by simp
    then show ?thesis unfolding e using 2 by (simp add: diff_mult_distrib2)
  next
    case 3
    then show ?thesis using "1.prems" by (subst emitCopy.simps) auto
  qed
qed

section \<open>The search\<close>

definition entries_below :: "nat \<Rightarrow> table \<Rightarrow> bool" where
  "entries_below n tab \<longleftrightarrow> (\<forall>k. unat (tab k) < n)"

lemma entries_below_mono: "entries_below n tab \<Longrightarrow> n \<le> m \<Longrightarrow> entries_below m tab"
  by (auto simp: entries_below_def intro: less_le_trans)

lemma entries_below_upd: "entries_below n tab \<Longrightarrow> s < n \<Longrightarrow> s < 65536 \<Longrightarrow> entries_below n (tab(k := of_nat s))"
  by (simp add: entries_below_def unat_of_nat)

definition found :: "bytes \<Rightarrow> nat \<Rightarrow> nat \<Rightarrow> (nat \<times> nat \<times> table) option \<Rightarrow> bool" where
  "found p sLimit s r \<longleftrightarrow> (\<forall>s1 c tab1. r = Some (s1, c, tab1) \<longrightarrow>
     s \<le> s1 \<and> s1 < sLimit \<and> c < s1 \<and> (\<forall>j<4. p ! (c + j) = p ! (s1 + j)) \<and> entries_below (Suc s1) tab1)"

lemma found_mono: "found p sLimit s' r \<Longrightarrow> s \<le> s' \<Longrightarrow> found p sLimit s r"
  by (auto simp: found_def)

lemma find_match_found:
  assumes "sLimit + 15 = length p" "length p \<le> 65536" "entries_below s tab"
  shows "\<exists>r. find_match p sLimit sh s k h tab = Inr r \<and> found p sLimit s r"
  using assms
proof (induction p sLimit sh s k h tab rule: find_match.induct)
  case (1 p sLimit sh s k h tab)
  let ?n = "s + (32 + k) div 32"
  have l: "s < ?n" by simp
  show ?case
  proof (cases "?n > sLimit")
    case True
    then show ?thesis by (subst find_match.simps) (simp add: Let_def found_def)
  next
    case False
    let ?c = "unat (tab (slot h))"
    have c: "?c < s" using 1(4) by (simp add: entries_below_def)
    obtain u a b where u: "load32 p ?n = Inr u" "load32 p s = Inr a" "load32 p ?c = Inr b"
      using load32_in [of ?n p] load32_in [of s p] load32_in [of ?c p] c l False 1(2) by auto
    have s: "s < 65536" using l False 1(2,3) by simp
    have t: "entries_below (Suc s) (tab(slot h := of_nat s))" by (rule entries_below_upd [OF entries_below_mono [OF 1(4)]]) (simp_all add: s)
    show ?thesis
    proof (cases "a = b")
      case True
      have "\<forall>j<4. p ! (?c + j) = p ! (s + j)" using load32_eq [OF u(3) u(2) [unfolded True]] by simp
      moreover have "find_match p sLimit sh s k h tab = Inr (Some (s, ?c, tab(slot h := of_nat s)))"
        using u True False by (subst find_match.simps) (simp add: Let_def)
      ultimately show ?thesis using c l False t by (auto simp: found_def)
    next
      case ne: False
      have e: "find_match p sLimit sh s k h tab = find_match p sLimit sh ?n (k + (32 + k) div 32) (snappy_hash u sh) (tab(slot h := of_nat s))"
        using u ne False by (subst find_match.simps) (simp add: Let_def)
      have "Suc s \<le> ?n" using l by simp
      from 1(1) [OF refl refl False refl refl u ne 1(2,3) entries_below_mono [OF t this]] l
      show ?thesis unfolding e by (meson found_mono less_imp_le_nat)
    qed
  qed
qed

section \<open>The copies\<close>

text \<open>What is emitted up to \<open>e\<close> turns what was decoded before \<open>s\<close> into what is decoded before \<open>e\<close>.\<close>

definition emits :: "bytes \<Rightarrow> nat \<Rightarrow> nat \<Rightarrow> bytes \<Rightarrow> bool" where
  "emits p s e out \<longleftrightarrow> (\<forall>(pre :: bytes) n rest. length pre + length p \<le> n \<longrightarrow>
     decode n (pre @ take s p) (out @ rest) = decode n (pre @ take e p) rest)"

lemma emits_append: "emits p s e out \<Longrightarrow> emits p e e' out' \<Longrightarrow> emits p s e' (out @ out')"
  by (simp add: emits_def)

lemma emits_nil: "emits p s s []"
  by (simp add: emits_def)

lemma emits_literal:
  assumes "s < e" "e \<le> length p" "length p \<le> 65536"
  shows "emits p s e (emitLiteral (take (e - s) (drop s p)))"
proof -
  have "take s p @ take (e - s) (drop s p) = take e p" using assms(1) by (metis append_take_drop_id le_add_diff_inverse less_imp_le_nat take_add)
  then show ?thesis unfolding emits_def using assms decode_literal [of "take (e - s) (drop s p)"] by simp
qed

lemma emits_copy:
  assumes "c < s" "s + 4 \<le> e" "e \<le> length p" "length p \<le> 65536" "\<forall>j<e - s. p ! (c + j) = p ! (s + j)"
  shows "emits p s e (emitCopy (s - c) (e - s))"
  unfolding emits_def
proof (intro allI impI)
  fix pre :: bytes and n rest assume "length pre + length p \<le> n"
  then have "decode n (pre @ take s p) (emitCopy (s - c) (e - s) @ rest) = decode n (forwardCopy (s - c) (e - s) (pre @ take s p)) rest"
    using assms by (intro decode_emitCopy) simp_all
  also have "forwardCopy (s - c) (e - s) (pre @ take s p) = pre @ take (s + (e - s)) p"
    using assms by (intro forwardCopy_block) simp_all
  finally show "decode n (pre @ take s p) (emitCopy (s - c) (e - s) @ rest) = decode n (pre @ take e p) rest" using assms(2) by simp
qed

text \<open>The loop of copies: it emits up to \<open>e\<close>, and does not pay more than it covers.\<close>

lemma emit_copies_ok:
  assumes "sLimit + 15 = length p" "length p \<le> 65536" "c < s" "s < sLimit" "\<forall>j<4. p ! (c + j) = p ! (s + j)" "entries_below (Suc s) tab"
  shows "\<exists>out e r. emit_copies p sLimit sh s c tab = Inr (out, e, r) \<and> s < e \<and> e \<le> length p \<and> emits p s e out
    \<and> 60 * length out + 60 \<le> 61 * (e - s) \<and> (\<forall>s1 h tab1. r = Some (s1, h, tab1) \<longrightarrow> s1 = Suc e \<and> e < sLimit \<and> entries_below s1 tab1)"
  using assms
proof (induction p sLimit sh s c tab rule: emit_copies.induct)
  case (1 p sLimit sh s c tab)
  let ?e = "extendMatch p (c + 4) (s + 4)" and ?out = "emitCopy (s - c) (extendMatch p (c + 4) (s + 4) - s)"
  have g: "s + 4 \<le> ?e" by (rule extendMatch_ge)
  have x: "?e \<le> length p" "\<forall>k < ?e - (s + 4). p ! (c + 4 + k) = p ! (s + 4 + k)"
    using extendMatch_same [of "c + 4" "s + 4" p] 1(2,4,5) by simp_all
  have "\<forall>j < ?e - s. p ! (c + j) = p ! (s + j)"
  proof (intro allI impI)
    fix j assume j: "j < ?e - s"
    show "p ! (c + j) = p ! (s + j)"
    proof (cases "j < 4")
      case True
      then show ?thesis using 1(6) by simp
    next
      case False
      then have "j - 4 < ?e - (s + 4)" "c + 4 + (j - 4) = c + j" "s + 4 + (j - 4) = s + j" using j by simp_all
      then show ?thesis using x(2) by metis
    qed
  qed
  then have em: "emits p s ?e ?out" using emits_copy 1(3,4) g x(1) by simp
  have sz: "60 * length ?out + 60 \<le> 61 * (?e - s)" using emitCopy_size g by simp
  show ?case
  proof (cases "?e \<ge> sLimit")
    case True
    then have "emit_copies p sLimit sh s c tab = Inr (?out, ?e, None)" by (subst emit_copies.simps) (simp add: Let_def)
    then show ?thesis using em sz g x(1) by auto
  next
    case False
    have lt: "?e < 65536" using False 1(2,3) by simp
    obtain y where y: "load64 p (?e - 1) = Inr y" "load32 p ?e = Inr (ucast (drop_bit 8 y))"
      using load64_in [of "?e - 1" p] False 1(2) g by auto
    let ?t1 = "tab(slot (snappy_hash (ucast y) sh) := of_nat (?e - 1))" and ?h = "snappy_hash (ucast (drop_bit 8 y)) sh"
    let ?c = "unat (?t1 (slot ?h))" and ?t2 = "(?t1)(slot ?h := of_nat ?e)"
    have t1: "entries_below ?e ?t1" by (rule entries_below_upd [OF entries_below_mono [OF 1(7)]]) (use g lt in simp_all)
    then have c: "?c < ?e" by (simp add: entries_below_def)
    have t2: "entries_below (Suc ?e) ?t2" by (rule entries_below_upd [OF entries_below_mono [OF t1]]) (simp_all add: lt)
    have "?c + 4 \<le> length p" using c False 1(2) by linarith
    from load32_in [OF this] obtain b where b: "load32 p ?c = Inr b" ..
    show ?thesis
    proof (cases "ucast (drop_bit 8 y) \<noteq> b")
      case True
      have "emit_copies p sLimit sh s c tab = Inr (?out, ?e, Some (?e + 1, snappy_hash (ucast (drop_bit 16 y)) sh, ?t2))"
        unfolding emit_copies.simps [of p sLimit sh s c tab] Let_def if_not_P [OF False] y(1) b andThen_simps if_P [OF True] ..
      then show ?thesis using em sz g x(1) t2 False by auto
    next
      case same: False
      then have "load32 p ?c = Inr (ucast (drop_bit 8 y))" using b by simp
      from load32_eq [OF this y(2)] have m: "\<forall>j<4. p ! (?c + j) = p ! (?e + j)" by simp
      have "?e < sLimit" using False by simp
      from 1(1) [OF refl refl False y(1) refl refl refl refl b same 1(2,3) c this m t2]
      obtain out e r where o: "emit_copies p sLimit sh ?e ?c ?t2 = Inr (out, e, r)" "?e < e" "e \<le> length p" "emits p ?e e out"
        "60 * length out + 60 \<le> 61 * (e - ?e)" "\<forall>s1 h tab1. r = Some (s1, h, tab1) \<longrightarrow> s1 = Suc e \<and> e < sLimit \<and> entries_below s1 tab1"
        by blast
      have "emit_copies p sLimit sh s c tab = Inr (?out @ out, e, r)"
        unfolding emit_copies.simps [of p sLimit sh s c tab] Let_def if_not_P [OF False] y(1) b andThen_simps if_not_P [OF same] o(1) prod.case ..
      moreover have "60 * length (?out @ out) + 60 \<le> 61 * (e - s)" using sz o(2,5) g by (simp add: diff_mult_distrib2)
      ultimately show ?thesis using emits_append [OF em o(4)] o(2,3,6) g by auto
    qed
  qed
qed

section \<open>A block\<close>

lemma last_literal_ok:
  assumes "e \<le> length p" "length p \<le> 65536"
  shows "emits p e (length p) (last_literal p e) \<and> 60 * length (last_literal p e) \<le> 61 * (length p - e) + 60"
proof (cases "e < length p")
  case True
  have "take (length p - e) (drop e p) = drop e p" by simp
  with True show ?thesis using emits_literal [of e "length p" p] emitLiteral_size [of "drop e p"] assms(2) by (simp add: last_literal_def)
next
  case False
  then show ?thesis using assms(1) by (simp add: last_literal_def emits_nil)
qed

lemma encode_main_ok:
  assumes "sLimit + 15 = length p" "length p \<le> 65536" "e < s" "e \<le> length p" "entries_below s tab"
  shows "\<exists>out. encode_main p sLimit sh s e h tab = Inr out \<and> emits p e (length p) out \<and> 60 * length out \<le> 61 * (length p - e) + 60"
  using assms
proof (induction p sLimit sh s e h tab rule: encode_main.induct)
  case (1 p sLimit sh s e h tab)
  obtain r where r: "find_match p sLimit sh s 0 h tab = Inr r"
    "\<forall>s1 c tab1. r = Some (s1, c, tab1) \<longrightarrow> s \<le> s1 \<and> s1 < sLimit \<and> c < s1 \<and> (\<forall>j<4. p ! (c + j) = p ! (s1 + j)) \<and> entries_below (Suc s1) tab1"
    using find_match_found [OF 1(2,3,6)] unfolding found_def by blast
  show ?case
  proof (cases r)
    case None
    then have "encode_main p sLimit sh s e h tab = Inr (last_literal p e)" using r(1) by (subst encode_main.simps) simp
    then show ?thesis using last_literal_ok [OF 1(5,3)] by simp
  next
    case (Some m)
    obtain s1 c tab1 where m: "r = Some (s1, c, tab1)" using Some by (cases m) auto
    with r(2) have f: "s \<le> s1" "s1 < sLimit" "c < s1" "\<forall>j<4. p ! (c + j) = p ! (s1 + j)" "entries_below (Suc s1) tab1" by auto
    let ?lit = "take (s1 - e) (drop e p)"
    have lit: "sub_list p e s1 = Inr ?lit" using f 1(2,4) by (simp add: sub_list_def)
    have le: "e < s1" "s1 \<le> length p" using f(1,2) 1(2,4) by simp_all
    have l: "length ?lit = s1 - e" using le by simp
    have em: "emits p e s1 (emitLiteral ?lit)" by (rule emits_literal [OF le 1(3)])
    have sz: "60 * length (emitLiteral ?lit) \<le> 61 * (s1 - e) + 60" using emitLiteral_size [of ?lit] l le 1(3) by simp
    obtain out e2 q where o: "emit_copies p sLimit sh s1 c tab1 = Inr (out, e2, q)" "s1 < e2" "e2 \<le> length p" "emits p s1 e2 out"
      "60 * length out + 60 \<le> 61 * (e2 - s1)" "\<forall>s2 h2 tab2. q = Some (s2, h2, tab2) \<longrightarrow> s2 = Suc e2 \<and> e2 < sLimit \<and> entries_below s2 tab2"
      using emit_copies_ok [OF 1(2,3) f(3,2,4,5)] by blast
    note step = encode_main.simps [of p sLimit sh s e h tab, unfolded r(1) m lit o(1) andThen_simps option.case prod.case]
    have both: "emits p e e2 (emitLiteral ?lit @ out)" "60 * length (emitLiteral ?lit @ out) \<le> 61 * (e2 - e)"
      using emits_append [OF em o(4)] sz o(2,5) le by (simp_all add: diff_mult_distrib2)
    have fin: ?thesis if "encode_main p sLimit sh s e h tab = Inr ((emitLiteral ?lit @ out) @ more)" "emits p e2 (length p) more"
      "60 * length more \<le> 61 * (length p - e2) + 60" for more
    proof -
      have "60 * length ((emitLiteral ?lit @ out) @ more) \<le> 61 * (length p - e) + 60"
        using both(2) that(3) o(2,3) le by (simp add: diff_mult_distrib2)
      with that(1) emits_append [OF both(1) that(2)] show ?thesis by blast
    qed
    show ?thesis
    proof (cases q)
      case None
      then have "encode_main p sLimit sh s e h tab = Inr ((emitLiteral ?lit @ out) @ last_literal p e2)" using step by simp
      with last_literal_ok [OF o(3) 1(3)] show ?thesis using fin by blast
    next
      case (Some z)
      obtain s2 h2 tab2 where z: "q = Some (s2, h2, tab2)" using Some by (cases z) auto
      with o(6) have q: "s2 = Suc e2" "e2 < sLimit" "entries_below s2 tab2" by auto
      from 1(1) [OF r(1) m refl refl lit o(1) refl refl z refl refl 1(2,3) _ o(3) q(3)] q(1)
      obtain more where "encode_main p sLimit sh s2 e2 h2 tab2 = Inr more" "emits p e2 (length p) more"
        "60 * length more \<le> 61 * (length p - e2) + 60" by auto
      then show ?thesis using fin step z by simp
    qed
  qed
qed

lemma encodeBlock_ok:
  assumes "17 \<le> length p" "length p \<le> 65536"
  shows "\<exists>out. encodeBlock p = Inr out \<and> emits p 0 (length p) out \<and> 60 * length out \<le> 61 * length p + 60"
proof -
  obtain u where u: "load32 p 1 = Inr u" using load32_in [of 1 p] assms(1) by auto
  have "length p - 15 + 15 = length p" "entries_below 1 (\<lambda>_. 0)" using assms(1) by (simp_all add: entries_below_def)
  from encode_main_ok [OF this(1) assms(2) _ _ this(2), of 0] show ?thesis by (simp add: encodeBlock_def Let_def u [unfolded One_nat_def])
qed

section \<open>Encoding and decoding\<close>

lemma encode_blocks_ok:
  "\<exists>out. encode_blocks src = Inr out \<and> 6 * length out \<le> 7 * length src + 6
    \<and> (\<forall>pre n rest. length pre + length src \<le> n \<longrightarrow> decode n pre (out @ rest) = decode n (pre @ src) rest)"
proof (induction src rule: encode_blocks.induct)
  case (1 src)
  show ?case
  proof (cases "src = []")
    case True
    then show ?thesis by (subst encode_blocks.simps) simp
  next
    case False
    let ?p = "take 65536 src" and ?q = "drop 65536 src"
    have p: "length ?p \<le> 65536" "0 < length ?p" using False by simp_all
    obtain b where b: "(if length ?p < 17 then Inr (emitLiteral ?p) else encodeBlock ?p) = Inr b" "emits ?p 0 (length ?p) b"
      "60 * length b \<le> 61 * length ?p + 60"
    proof (cases "length ?p < 17")
      case True
      show thesis
        by (rule that [of "emitLiteral ?p"]) (use True emits_literal [of 0 "length ?p" ?p] emitLiteral_size [OF p(2,1)] p in simp_all)
    next
      case False
      then obtain out where "encodeBlock ?p = Inr out" "emits ?p 0 (length ?p) out" "60 * length out \<le> 61 * length ?p + 60"
        using encodeBlock_ok [of ?p] p(1) by (metis not_less)
      then show thesis using False by (intro that [of out]) (simp_all only: if_False)
    qed
    from 1(1) [OF False refl b(1)] obtain out where o: "encode_blocks ?q = Inr out" "6 * length out \<le> 7 * length ?q + 6"
      "\<forall>pre n rest. length pre + length ?q \<le> n \<longrightarrow> decode n pre (out @ rest) = decode n (pre @ ?q) rest" by blast
    have e: "encode_blocks src = Inr (b @ out)" using b(1) o(1) False by (subst encode_blocks.simps) (simp add: Let_def)
    have "6 * length (b @ out) \<le> 7 * length src + 6"
    proof (cases "?q = []")
      case True
      have "out = []" using o(1) unfolding True by (subst (asm) encode_blocks.simps) simp
      then show ?thesis using b(3) True by simp
    next
      case False
      then show ?thesis using b(3) o(2) by simp
    qed
    moreover have "decode n pre ((b @ out) @ rest) = decode n (pre @ src) rest" if "length pre + length src \<le> n" for pre n rest
    proof -
      have "length pre + length ?p \<le> n" "length (pre @ ?p) + length ?q \<le> n" using that by auto
      note l = this
      have "decode n pre (b @ out @ rest) = decode n (pre @ ?p) (out @ rest)"
        using b(2) [unfolded emits_def, rule_format, OF l(1), of "out @ rest"]
        by (simp only: take0 take_0 append_Nil2 take_all [OF order_refl])
      also have "\<dots> = decode n ((pre @ ?p) @ ?q) rest" using o(3) l(2) by blast
      finally have "decode n pre (b @ out @ rest) = decode n ((pre @ ?p) @ ?q) rest" .
      then show ?thesis by simp
    qed
    ultimately show ?thesis using e by blast
  qed
qed

lemma MaxEncodedLen_bound: "MaxEncodedLen n \<ge> 0 \<Longrightarrow> MaxEncodedLen n = int (32 + n + n div 6) \<and> 32 + n + n div 6 < 2 ^ 32"
  by (auto simp: MaxEncodedLen_def Let_def split: if_splits)

theorem Decode_Encode:
  assumes "MaxEncodedLen (length src) \<ge> 0"
  obtains out where "Encode src = Inr out" "int (length out) \<le> MaxEncodedLen (length src)" "out \<noteq> []" "Decode out = Inr src"
proof -
  note m = MaxEncodedLen_bound [OF assms]
  obtain out where o: "encode_blocks src = Inr out" "6 * length out \<le> 7 * length src + 6"
    "\<forall>pre n rest. length pre + length src \<le> n \<longrightarrow> decode n pre (out @ rest) = decode n (pre @ src) rest"
    using encode_blocks_ok by blast
  have n: "length src < 2 ^ 32" using m by linarith
  then have "length src < 128 ^ 5" by simp
  from length_PutUvarint [OF this] have l: "length (PutUvarint (length src)) \<le> 5" by simp
  have "PutUvarint (length src) \<noteq> []" by (subst PutUvarint.simps) simp
  moreover have "Encode src = Inr (PutUvarint (length src) @ out)" using assms o(1) by (simp add: Encode_def)
  moreover have "int (length (PutUvarint (length src) @ out)) \<le> MaxEncodedLen (length src)" using m l o(2) by simp
  moreover have "decode (length src) [] (out @ []) = decode (length src) ([] @ src) []" using o(3) by (metis add_0 list.size(3) order_refl)
  then have "decode (length src) [] out = Inr src" by simp
  then have "Decode (PutUvarint (length src) @ out) = Inr src" by (simp add: Decode_def decodedLen_put [OF n])
  ultimately show thesis using that by blast
qed

end
