(* ===== verification/BlockDbLaws.thy ===== *)
theory BlockDbLaws
  imports BlockDb SnappyEncode
begin

text \<open>
  What the database of blocks promises: a block that was added is found with its bytes and its flag, whatever is
  cached, written or loaded again. The invariant has four parts: the cache, the queue, the data files, the index file.
\<close>

lemma unat_of_nat_small: "n < 2 ^ LENGTH('a) \<Longrightarrow> unat (of_nat n :: 'a::len word) = n"
  by (simp add: unsigned_of_nat take_bit_nat_eq_self)

section \<open>Files\<close>

lemma write_at_end: "pos = length f \<Longrightarrow> write_at pos d f = f @ d"
  by (simp add: write_at_def)

lemma length_written: "length (take pos (f @ replicate (pos - length f) 0)) = pos"
  by simp

lemma write_at_length: "length (write_at pos d f) = max (pos + length d) (length f)"
  unfolding write_at_def length_append length_written length_drop by simp

lemma write_at_read: "take (length d) (drop pos (write_at pos d f)) = d"
proof -
  have "length p = pos \<Longrightarrow> take (length d) (drop pos (p @ d @ x)) = d" for p x :: bytes by simp
  from this [OF length_written] show ?thesis by (simp add: write_at_def)
qed

lemma write_at_before: "a + n \<le> pos \<Longrightarrow> a + n \<le> length f \<Longrightarrow> take n (drop a (write_at pos d f)) = take n (drop a f)"
  by (simp add: write_at_def take_drop min_def add.commute)

lemma write_at_in: "i < length f \<Longrightarrow> write_at i [x] f = f[i := x]"
  by (simp add: write_at_def upd_conv_take_nth_drop)

section \<open>What the database holds\<close>

text \<open>The bytes of a block in the data files, and what the database holds under a key: the bytes and whether the
  block is trusted.\<close>

definition disk_data :: "bdb_opts \<Rightarrow> one_bl \<Rightarrow> (u32 \<Rightarrow> bytes option) \<Rightarrow> bytes option" where
  "disk_data opts r dat = (case read_block opts r dat of Inr (d, None) \<Rightarrow> Some d | _ \<Rightarrow> None)"

abbreviation cache_data :: "block_db \<Rightarrow> bytes \<Rightarrow> bytes option" where
  "cache_data db k \<equiv> map_option cr_Data (map_of (bd_cache db) k)"

definition held :: "bdb_opts \<Rightarrow> one_bl \<Rightarrow> bytes option \<Rightarrow> (u32 \<Rightarrow> bytes option) \<Rightarrow> (bytes \<times> bool) option" where
  "held opts r c dat = (case c of
     Some d \<Rightarrow> Some (d, ob_trusted r)
   | None \<Rightarrow> map_option (\<lambda>d. (d, ob_trusted r)) (disk_data opts r dat))"

lemma held_cached [simp]: "held opts r (Some d) dat = Some (d, ob_trusted r)"
  by (simp add: held_def)

definition contents :: "bdb_opts \<Rightarrow> block_db \<Rightarrow> bytes \<Rightarrow> (bytes \<times> bool) option" where
  "contents opts db k = (case bd_blockIndex db k of
     None \<Rightarrow> None
   | Some r \<Rightarrow> held opts r (cache_data db k) (bd_dat db))"

lemma contents_Some: "bd_blockIndex db k = Some r \<Longrightarrow> contents opts db k = held opts r (cache_data db k) (bd_dat db)"
  by (simp add: contents_def)

lemma contents_None: "bd_blockIndex db k = None \<Longrightarrow> contents opts db k = None"
  by (simp add: contents_def)

lemma contents_cong:
  "bd_blockIndex db' = bd_blockIndex db \<Longrightarrow> bd_cache db' = bd_cache db \<Longrightarrow> bd_dat db' = bd_dat db \<Longrightarrow> contents opts db' = contents opts db"
  by (rule ext) (simp add: contents_def split: option.split)

text \<open>What is written for a block; no data file is removed.\<close>

definition on_disk :: "bdb_opts \<Rightarrow> bytes \<Rightarrow> bytes" where
  "on_disk opts d = (if bo_CompressOnDisk opts then (case Encode d of Inr c \<Rightarrow> c | Inl _ \<Rightarrow> []) else d)"

definition keeps_files :: "bdb_opts \<Rightarrow> bool" where
  "keeps_files opts \<longleftrightarrow> bo_data_files_keep opts = 0 \<or> bo_data_files_backup opts"

text \<open>A block that fits: its header is there and it can be compressed; and the key is the one of its header.\<close>

definition b2w_ok :: "bdb_opts \<Rightarrow> one_b2w \<Rightarrow> bool" where
  "b2w_ok opts b \<longleftrightarrow> 80 \<le> length (bw_data b) \<and> 0 \<le> MaxEncodedLen (length (bw_data b))
     \<and> bw_idx b = BIdx (Sha2Sum (take 80 (bw_data b)))"

lemma on_disk_encoded:
  assumes "0 \<le> MaxEncodedLen (length d)"
  shows "(if bo_CompressOnDisk opts then Encode d else Inr d) = Inr (on_disk opts d)" "int (length (on_disk opts d)) \<le> MaxEncodedLen (length d)"
    "d \<noteq> [] \<Longrightarrow> on_disk opts d \<noteq> []" "bo_CompressOnDisk opts \<Longrightarrow> Decode (on_disk opts d) = Inr d"
    "length d < 2 ^ 32" "length (on_disk opts d) < 2 ^ 32"
proof -
  obtain c where c: "Encode d = Inr c" "int (length c) \<le> MaxEncodedLen (length d)" "c \<noteq> []" "Decode c = Inr d" by (rule Decode_Encode [OF assms])
  note m = MaxEncodedLen_bound [OF assms]
  show "(if bo_CompressOnDisk opts then Encode d else Inr d) = Inr (on_disk opts d)" "d \<noteq> [] \<Longrightarrow> on_disk opts d \<noteq> []"
    "bo_CompressOnDisk opts \<Longrightarrow> Decode (on_disk opts d) = Inr d"
    using c by (auto simp: on_disk_def)
  show l: "int (length (on_disk opts d)) \<le> MaxEncodedLen (length d)" using c(2) m by (auto simp: on_disk_def c(1))
  show "length d < 2 ^ 32" "length (on_disk opts d) < 2 ^ 32" using m l by linarith+
qed

text \<open>The files have room for what is queued, and for \<open>n\<close> more blocks of \<open>x\<close> bytes together: \<open>T\<close> bounds the
  end of every block on disk.\<close>

definition fits_in :: "block_db \<Rightarrow> nat \<Rightarrow> bool" where
  "fits_in db T \<longleftrightarrow> bd_maxdatfilepos db \<le> T
     \<and> (\<forall>k r. bd_blockIndex db k = Some r \<and> ob_ipos r \<noteq> - 1 \<longrightarrow> unat (ob_fpos r) + unat (ob_blen r) \<le> T)"

definition room :: "bdb_opts \<Rightarrow> nat \<Rightarrow> nat \<Rightarrow> block_db \<Rightarrow> bool" where
  "room opts x n db \<longleftrightarrow> unat (bd_maxdatfileidx db) + length (bd_blocksToWrite db) + n < 2 ^ 32 - 1
     \<and> (\<exists>T. fits_in db T \<and> T + sum_list (map (\<lambda>b. length (on_disk opts (bw_data b))) (bd_blocksToWrite db)) + x < 2 ^ 63)"

lemma room_mono: "room opts (y + x) (m + n) db \<Longrightarrow> room opts x n db"
  by (fastforce simp: room_def)

definition cache_inv :: "block_db \<Rightarrow> bool" where
  "cache_inv db \<longleftrightarrow> fst ` set (bd_cache db) \<subseteq> dom (bd_blockIndex db)"

definition queue_inv :: "bdb_opts \<Rightarrow> block_db \<Rightarrow> bool" where
  "queue_inv opts db \<longleftrightarrow>
     (\<forall>b\<in>set (bd_blocksToWrite db). b2w_ok opts b)
   \<and> (\<forall>k r. bd_blockIndex db k = Some r \<and> ob_ipos r = - 1 \<longrightarrow>
        k \<in> bw_idx ` set (bd_blocksToWrite db)
      \<and> (\<exists>d. cache_data db k = Some d \<and> (\<forall>b\<in>set (bd_blocksToWrite db). bw_idx b = k \<longrightarrow> bw_data b = d)))"

definition below :: "one_bl \<Rightarrow> u32 \<Rightarrow> nat \<Rightarrow> bool" where
  "below r i pos \<longleftrightarrow> ob_datfileidx r < i \<or> ob_datfileidx r = i \<and> unat (ob_fpos r) + unat (ob_blen r) \<le> pos"

definition disk_inv :: "bdb_opts \<Rightarrow> block_db \<Rightarrow> bool" where
  "disk_inv opts db \<longleftrightarrow> (\<forall>k r. bd_blockIndex db k = Some r \<and> ob_ipos r \<noteq> - 1 \<longrightarrow>
     below r (bd_maxdatfileidx db) (bd_maxdatfilepos db)
   \<and> (\<exists>d. disk_data opts r (bd_dat db) = Some d \<and> cache_data db k \<in> {None, Some d}))"

text \<open>The index file: whole records, one for each block of the index that is on disk.\<close>

definition chunk :: "bytes \<Rightarrow> nat \<Rightarrow> bytes" where
  "chunk f i = take 136 (drop (136 * i) f)"

abbreviation hdr_key :: "bytes \<Rightarrow> bytes" where
  "hdr_key c \<equiv> BIdx (Sha2Sum (drop 56 c))"

definition rec_matches :: "bytes \<Rightarrow> one_bl \<Rightarrow> bool" where
  "rec_matches c r \<longleftrightarrow> length c = 136 \<and> c ! 0 AND BLOCK_INVALID = 0 \<and> c ! 0 AND BLOCK_LENGTH \<noteq> 0 \<and> c ! 0 AND BLOCK_INDEX \<noteq> 0
   \<and> ob_trusted r = (c ! 0 AND BLOCK_TRUSTED \<noteq> 0) \<and> ob_compressed r = (c ! 0 AND BLOCK_COMPRSD \<noteq> 0)
   \<and> ob_snappied r = (c ! 0 AND BLOCK_SNAPPED \<noteq> 0)
   \<and> ob_datfileidx r = le_word (take 4 (drop 28 c)) \<and> ob_fpos r = le_word (take 8 (drop 40 c))
   \<and> ob_blen r = le_word (take 4 (drop 48 c)) \<and> (le_word (take 4 (drop 32 c)) :: u32) \<noteq> 0"

definition file_inv :: "block_db \<Rightarrow> bool" where
  "file_inv db \<longleftrightarrow> (\<exists>n. length (bd_blockindx db) = 136 * n \<and> bd_maxidxfilepos db = 136 * n
   \<and> (\<forall>i<n. \<exists>r. bd_blockIndex db (hdr_key (chunk (bd_blockindx db) i)) = Some r \<and> ob_ipos r = int (136 * i)
        \<and> rec_matches (chunk (bd_blockindx db) i) r)
   \<and> (\<forall>k r. bd_blockIndex db k = Some r \<and> ob_ipos r \<noteq> - 1 \<longrightarrow> (\<exists>i<n. hdr_key (chunk (bd_blockindx db) i) = k)))"

definition db_inv :: "bdb_opts \<Rightarrow> block_db \<Rightarrow> bool" where
  "db_inv opts db \<longleftrightarrow> cache_inv db \<and> queue_inv opts db \<and> disk_inv opts db \<and> file_inv db
     \<and> unat (bd_maxdatfileidx db) < 2 ^ 32 - 1"

section \<open>The cache\<close>

lemma oldest_total:
  "fst ` set cs \<subseteq> dom ix \<Longrightarrow> \<exists>x. oldest ix cs acc = Inr x"
proof (induction cs arbitrary: acc)
  case (Cons c cs)
  obtain k v where c: "c = (k, v)" by fastforce
  from Cons.prems obtain r where "ix k = Some r" by (auto simp: c)
  with Cons c show ?case by simp
qed simp

lemma oldest_on_disk:
  "oldest ix cs acc = Inr (Some (k, t)) \<Longrightarrow> acc = Some (k, t) \<or> (\<exists>r. ix k = Some r \<and> ob_ipos r \<noteq> - 1)"
proof (induction cs arbitrary: acc)
  case (Cons c cs)
  obtain k' v where c: "c = (k', v)" by fastforce
  from Cons.prems obtain acc' where a: "oldest ix cs acc' = Inr (Some (k, t))"
    "acc' = acc \<or> (acc' = Some (k', cr_LastUsed v) \<and> (\<exists>r. ix k' = Some r \<and> ob_ipos r \<noteq> - 1))"
    by (auto simp: c ok_iff split: if_splits)
  from Cons.IH [OF a(1)] a(2) show ?case by auto
qed simp

text \<open>Only blocks that are on disk leave the cache.\<close>

lemma evict_spec:
  "fst ` set cache \<subseteq> dom ix \<Longrightarrow>
   \<exists>cache'. evict maxc ix cache = Inr cache' \<and> fst ` set cache' \<subseteq> fst ` set cache \<and>
     (\<forall>k. map_of cache' k = map_of cache k \<or> map_of cache' k = None \<and> (\<exists>r. ix k = Some r \<and> ob_ipos r \<noteq> - 1))"
proof (induction "length cache" arbitrary: cache rule: less_induct)
  case less
  obtain x where x: "oldest ix cache None = Inr x" using oldest_total [OF less.prems] by blast
  show ?case
  proof (cases "maxc \<le> length cache")
    case False
    then show ?thesis by (subst evict.simps) auto
  next
    case True
    note step = evict.simps [of maxc ix cache, unfolded x, simplified True if_True sum.case]
    show ?thesis
    proof (cases x)
      case None
      then show ?thesis by (simp add: step)
    next
      case (Some y)
      obtain k t where y: "y = (k, t)" by fastforce
      from x Some y have o: "oldest ix cache None = Inr (Some (k, t))" by simp
      from oldest_mem [OF o] have m: "k \<in> fst ` set cache" by simp
      from oldest_on_disk [OF o] obtain r where r: "ix k = Some r" "ob_ipos r \<noteq> - 1" by auto
      have sub: "fst ` set (AList.delete k cache) \<subseteq> fst ` set cache" by (auto simp: AList.delete_eq)
      obtain c' where c': "evict maxc ix (AList.delete k cache) = Inr c'" "fst ` set c' \<subseteq> fst ` set (AList.delete k cache)"
        "\<forall>j. map_of c' j = map_of (AList.delete k cache) j \<or> map_of c' j = None \<and> (\<exists>r. ix j = Some r \<and> ob_ipos r \<noteq> - 1)"
        using less.hyps [OF length_delete_mem [OF m]] sub less.prems by blast
      have "map_of c' j = map_of cache j \<or> map_of c' j = None \<and> (\<exists>r. ix j = Some r \<and> ob_ipos r \<noteq> - 1)" for j
        using c'(3) [rule_format, of j] r by (cases "j = k") (auto simp: delete_conv')
      then show ?thesis using c'(1,2) sub by (auto simp: step Some y)
    qed
  qed
qed

lemma addToCache_hit:
  assumes "map_of (bd_cache db) (BIdx h) = Some c"
  shows "addToCache opts h bl db = Inr (c\<lparr>cr_LastUsed := bd_clock db\<rparr>,
    db\<lparr>bd_clock := Suc (bd_clock db), bd_cache := AList.update (BIdx h) (c\<lparr>cr_LastUsed := bd_clock db\<rparr>) (bd_cache db)\<rparr>)"
  using assms by (simp add: addToCache_def Let_def)

lemma addToCache_miss:
  assumes "map_of (bd_cache db) (BIdx h) = None" and "cache_inv db"
  obtains cache' where
    "addToCache opts h bl db = Inr (\<lparr>cr_Data = bl, cr_LastUsed = bd_clock db\<rparr>,
       db\<lparr>bd_clock := Suc (bd_clock db), bd_cache := AList.update (BIdx h) \<lparr>cr_Data = bl, cr_LastUsed = bd_clock db\<rparr> cache'\<rparr>)"
    "fst ` set cache' \<subseteq> fst ` set (bd_cache db)"
    "\<And>k. map_of cache' k = map_of (bd_cache db) k \<or> map_of cache' k = None \<and> (\<exists>r. bd_blockIndex db k = Some r \<and> ob_ipos r \<noteq> - 1)"
proof -
  from assms(2) have "fst ` set (bd_cache db) \<subseteq> dom (bd_blockIndex db)" by (simp add: cache_inv_def)
  from evict_spec [OF this, of "max_cached_blocks opts"] obtain cache' where
    "evict (max_cached_blocks opts) (bd_blockIndex db) (bd_cache db) = Inr cache'"
    "fst ` set cache' \<subseteq> fst ` set (bd_cache db)"
    "\<forall>k. map_of cache' k = map_of (bd_cache db) k \<or> map_of cache' k = None \<and> (\<exists>r. bd_blockIndex db k = Some r \<and> ob_ipos r \<noteq> - 1)"
    by blast
  with that [of cache'] assms(1) show thesis by (simp add: addToCache_def Let_def)
qed

text \<open>The cache does not show: it may forget what is on disk and remember what is there.\<close>

lemma recache:
  assumes "db_inv opts db" and "fst ` set cs \<subseteq> dom (bd_blockIndex db)"
    and "\<And>k r. bd_blockIndex db k = Some r \<Longrightarrow> map_option cr_Data (map_of cs k) = cache_data db k
      \<or> ob_ipos r \<noteq> - 1 \<and> map_option cr_Data (map_of cs k) \<in> {None, disk_data opts r (bd_dat db)}"
  shows "db_inv opts (db\<lparr>bd_clock := t, bd_cache := cs\<rparr>) \<and> contents opts (db\<lparr>bd_clock := t, bd_cache := cs\<rparr>) = contents opts db"
proof
  let ?db = "db\<lparr>bd_clock := t, bd_cache := cs\<rparr>"
  from assms(1) have i: "cache_inv db" "queue_inv opts db" "disk_inv opts db" "file_inv db" "unat (bd_maxdatfileidx db) < 2 ^ 32 - 1"
    by (simp_all add: db_inv_def)
  have "cache_inv ?db" using assms(2) by (simp add: cache_inv_def)
  moreover have "queue_inv opts ?db"
    using i(2) assms(3) unfolding queue_inv_def by (fastforce simp del: map_option_eq_Some)
  moreover have "disk_inv opts ?db"
    unfolding disk_inv_def
  proof (intro allI impI, elim conjE)
    fix k r assume kr: "bd_blockIndex ?db k = Some r" "ob_ipos r \<noteq> - 1"
    from i(3) kr obtain d where d: "below r (bd_maxdatfileidx db) (bd_maxdatfilepos db)" "disk_data opts r (bd_dat db) = Some d"
      "cache_data db k \<in> {None, Some d}" unfolding disk_inv_def by fastforce
    with assms(3) [of k r] kr have "cache_data ?db k \<in> {None, Some d}" by auto
    with d show "below r (bd_maxdatfileidx ?db) (bd_maxdatfilepos ?db) \<and>
      (\<exists>d. disk_data opts r (bd_dat ?db) = Some d \<and> cache_data ?db k \<in> {None, Some d})" by auto
  qed
  moreover have "file_inv ?db" using i(4) by (simp add: file_inv_def)
  ultimately show "db_inv opts ?db" using i(5) by (simp add: db_inv_def)
  show "contents opts ?db = contents opts db"
  proof
    fix k
    show "contents opts ?db k = contents opts db k"
    proof (cases "bd_blockIndex db k")
      case (Some r)
      show ?thesis
      proof (cases "ob_ipos r = - 1")
        case True
        with assms(3) [OF Some] have "cache_data ?db k = cache_data db k" by simp
        then show ?thesis using Some by (simp add: contents_def del: map_option_eq_Some)
      next
        case False
        with i(3) Some obtain d where "disk_data opts r (bd_dat db) = Some d" "cache_data db k \<in> {None, Some d}"
          unfolding disk_inv_def by blast
        with assms(3) [OF Some] False have "cache_data ?db k \<in> {None, Some d} \<and> cache_data db k \<in> {None, Some d} \<and> disk_data opts r (bd_dat db) = Some d"
          by auto
        then have "held opts r (cache_data ?db k) (bd_dat db) = held opts r (cache_data db k) (bd_dat db)"
          by (auto simp: held_def)
        then show ?thesis using Some by (simp add: contents_def)
      qed
    qed (simp add: contents_def)
  qed
qed

section \<open>Getting a block\<close>

definition unpack :: "bdb_opts \<Rightarrow> one_bl \<Rightarrow> bytes \<Rightarrow> bytes option" where
  "unpack opts r bl = (if ob_compressed r then
     (if ob_snappied r then (case Decode bl of Inr (x # xs) \<Rightarrow> Some (x # xs) | _ \<Rightarrow> None) else Some (bo_gz opts bl)) else Some bl)"

lemma disk_data_Some:
  "disk_data opts r dat = Some d \<longleftrightarrow> ob_ipos r \<noteq> - 1 \<and> ob_blen r \<noteq> 0 \<and>
     (\<exists>f. dat (ob_datfileidx r) = Some f \<and> unat (ob_fpos r) + unat (ob_blen r) \<le> length f
        \<and> unpack opts r (take (unat (ob_blen r)) (drop (unat (ob_fpos r)) f)) = Some d)"
  by (auto simp: disk_data_def read_block_def unpack_def Let_def split: option.splits if_splits sum.splits list.splits)

lemma disk_data_read: "disk_data opts r dat = Some d \<Longrightarrow> read_block opts r dat = Inr (d, None)"
  by (auto simp: disk_data_def split: sum.splits option.splits)

lemma disk_data_olen: "disk_data opts (r\<lparr>ob_olen := x\<rparr>) dat = disk_data opts r dat"
proof -
  have "(\<And>d. y = Some d \<longleftrightarrow> z = Some d) \<Longrightarrow> y = z" for y z :: "bytes option" by (cases y; cases z) auto
  moreover have "disk_data opts (r\<lparr>ob_olen := x\<rparr>) dat = Some d \<longleftrightarrow> disk_data opts r dat = Some d" for d
    by (simp add: disk_data_Some unpack_def)
  ultimately show ?thesis by blast
qed

lemma held_olen: "held opts (r\<lparr>ob_olen := x\<rparr>) c dat = held opts r c dat"
  by (cases c) (simp_all add: held_def disk_data_olen)

lemma contents_dom: "db_inv opts db \<Longrightarrow> bd_blockIndex db k = Some r \<Longrightarrow>
    \<exists>d. held opts r (cache_data db k) (bd_dat db) = Some (d, ob_trusted r)
      \<and> (cache_data db k = Some d \<or> cache_data db k = None \<and> disk_data opts r (bd_dat db) = Some d)"
  by (cases "ob_ipos r = - 1") (force simp: db_inv_def queue_inv_def disk_inv_def held_def)+

text \<open>Changing the index at one key, in a way that keeps where the block is.\<close>

lemma relen:
  fixes x :: u32
  assumes inv: "db_inv opts db" and r: "bd_blockIndex db k = Some r"
  defines "db' \<equiv> db\<lparr>bd_blockIndex := (bd_blockIndex db)(k \<mapsto> r\<lparr>ob_olen := x\<rparr>)\<rparr>"
  shows "db_inv opts db' \<and> contents opts db' = contents opts db"
proof
  have i: "cache_inv db" "queue_inv opts db" "disk_inv opts db" "file_inv db" "unat (bd_maxdatfileidx db) < 2 ^ 32 - 1"
    using inv by (simp_all add: db_inv_def)
  have ix: "bd_blockIndex db' j = Some r' \<longleftrightarrow> (\<exists>r0. bd_blockIndex db j = Some r0 \<and> r' = (if j = k then r0\<lparr>ob_olen := x\<rparr> else r0))" for j r'
    using r by (auto simp: db'_def)
  have q: "cache_inv db'" using i(1) r by (auto simp: cache_inv_def db'_def)
  have same: "bd_blocksToWrite db' = bd_blocksToWrite db" "bd_cache db' = bd_cache db" by (simp_all add: db'_def)
  have "queue_inv opts db'"
    unfolding queue_inv_def same
  proof (intro conjI allI impI)
    show "\<forall>b\<in>set (bd_blocksToWrite db). b2w_ok opts b" using i(2) by (simp add: queue_inv_def)
  next
    fix j r' assume "bd_blockIndex db' j = Some r' \<and> ob_ipos r' = - 1"
    then obtain r0 where r0: "bd_blockIndex db j = Some r0" "ob_ipos r0 = - 1" unfolding ix by (auto split: if_splits)
    with i(2) show "j \<in> bw_idx ` set (bd_blocksToWrite db)"
      "\<exists>d. cache_data db j = Some d \<and> (\<forall>b\<in>set (bd_blocksToWrite db). bw_idx b = j \<longrightarrow> bw_data b = d)"
      unfolding queue_inv_def by (blast, blast)
  qed
  moreover have "disk_inv opts db'"
    unfolding disk_inv_def ix
  proof (intro allI impI, elim conjE exE)
    fix j r' r0 assume a: "ob_ipos r' \<noteq> - 1" "bd_blockIndex db j = Some r0" "r' = (if j = k then r0\<lparr>ob_olen := x\<rparr> else r0)"
    then have "ob_ipos r0 \<noteq> - 1" by (auto split: if_splits)
    with i(3) a(2) have "below r0 (bd_maxdatfileidx db) (bd_maxdatfilepos db) \<and>
      (\<exists>d. disk_data opts r0 (bd_dat db) = Some d \<and> cache_data db j \<in> {None, Some d})" unfolding disk_inv_def by blast
    with a(3) show "below r' (bd_maxdatfileidx db') (bd_maxdatfilepos db') \<and>
      (\<exists>d. disk_data opts r' (bd_dat db') = Some d \<and> cache_data db' j \<in> {None, Some d})"
      by (auto simp: db'_def disk_data_olen below_def)
  qed
  moreover have "file_inv db'"
  proof -
    from i(4) obtain n where n: "length (bd_blockindx db) = 136 * n" "bd_maxidxfilepos db = 136 * n"
      "\<forall>i<n. \<exists>r. bd_blockIndex db (hdr_key (chunk (bd_blockindx db) i)) = Some r \<and> ob_ipos r = int (136 * i)
        \<and> rec_matches (chunk (bd_blockindx db) i) r"
      "\<forall>k r. bd_blockIndex db k = Some r \<and> ob_ipos r \<noteq> - 1 \<longrightarrow> (\<exists>i<n. hdr_key (chunk (bd_blockindx db) i) = k)"
      unfolding file_inv_def by blast
    have f: "bd_blockindx db' = bd_blockindx db" "bd_maxidxfilepos db' = bd_maxidxfilepos db" by (simp_all add: db'_def)
    have "\<forall>i<n. \<exists>r. bd_blockIndex db' (hdr_key (chunk (bd_blockindx db) i)) = Some r \<and> ob_ipos r = int (136 * i)
        \<and> rec_matches (chunk (bd_blockindx db) i) r"
    proof (intro allI impI)
      fix i assume "i < n"
      with n(3) obtain r0 where "bd_blockIndex db (hdr_key (chunk (bd_blockindx db) i)) = Some r0" "ob_ipos r0 = int (136 * i)"
        "rec_matches (chunk (bd_blockindx db) i) r0" by blast
      then show "\<exists>r. bd_blockIndex db' (hdr_key (chunk (bd_blockindx db) i)) = Some r \<and> ob_ipos r = int (136 * i)
        \<and> rec_matches (chunk (bd_blockindx db) i) r" unfolding ix by (auto simp: rec_matches_def)
    qed
    moreover have "\<forall>k r. bd_blockIndex db' k = Some r \<and> ob_ipos r \<noteq> - 1 \<longrightarrow> (\<exists>i<n. hdr_key (chunk (bd_blockindx db) i) = k)"
      using n(4) unfolding ix by (auto split: if_splits)
    ultimately show ?thesis using n(1,2) unfolding file_inv_def f by blast
  qed
  ultimately show "db_inv opts db'" using q i(5) by (simp add: db_inv_def db'_def)
  show "contents opts db' = contents opts db"
    using r by (auto simp: contents_def db'_def held_olen fun_eq_iff split: option.split)
qed

lemma fits_in_cache [simp]: "fits_in (db\<lparr>bd_clock := t, bd_cache := c\<rparr>) T = fits_in db T"
  by (simp add: fits_in_def)

text \<open>Reading leaves the files as they are.\<close>

definition same_files :: "block_db \<Rightarrow> block_db \<Rightarrow> bool" where
  "same_files db db' \<longleftrightarrow> bd_blocksToWrite db' = bd_blocksToWrite db \<and> bd_blockindx db' = bd_blockindx db \<and> bd_dat db' = bd_dat db
     \<and> bd_maxdatfileidx db' = bd_maxdatfileidx db \<and> (\<forall>T. fits_in db T \<longrightarrow> fits_in db' T)
     \<and> dom (bd_blockIndex db') = dom (bd_blockIndex db)"

lemma same_files_trans: "same_files a b \<Longrightarrow> same_files b c \<Longrightarrow> same_files a c"
  by (simp add: same_files_def)

lemma same_files_room: "same_files db db' \<Longrightarrow> room opts x n db \<Longrightarrow> room opts x n db'"
  unfolding same_files_def room_def by metis

lemma addToCache_keeps:
  assumes inv: "db_inv opts db" and r: "bd_blockIndex db (BIdx h) = Some r" and d: "disk_data opts r (bd_dat db) = Some d"
    and m: "map_of (bd_cache db) (BIdx h) = None"
  obtains crec db' where "addToCache opts h d db = Inr (crec, db')" "cr_Data crec = d" "db_inv opts db'"
    "contents opts db' = contents opts db" "same_files db db'"
proof -
  have c: "cache_inv db" using inv by (simp add: db_inv_def)
  obtain cache' where a: "addToCache opts h d db = Inr (\<lparr>cr_Data = d, cr_LastUsed = bd_clock db\<rparr>,
       db\<lparr>bd_clock := Suc (bd_clock db), bd_cache := AList.update (BIdx h) \<lparr>cr_Data = d, cr_LastUsed = bd_clock db\<rparr> cache'\<rparr>)"
    "fst ` set cache' \<subseteq> fst ` set (bd_cache db)"
    "\<And>k. map_of cache' k = map_of (bd_cache db) k \<or> map_of cache' k = None \<and> (\<exists>r. bd_blockIndex db k = Some r \<and> ob_ipos r \<noteq> - 1)"
    by (rule addToCache_miss [OF m c, of opts d]) blast
  let ?cs = "AList.update (BIdx h) \<lparr>cr_Data = d, cr_LastUsed = bd_clock db\<rparr> cache'"
  have sub: "fst ` set ?cs \<subseteq> dom (bd_blockIndex db)"
    using a(2) c r by (auto simp: cache_inv_def dom_update [symmetric] dom_map_of_conv_image_fst [symmetric] update_conv')
  have ip: "ob_ipos r \<noteq> - 1" using d by (simp add: disk_data_Some)
  have same: "map_option cr_Data (map_of ?cs k) = cache_data db k
      \<or> ob_ipos r' \<noteq> - 1 \<and> map_option cr_Data (map_of ?cs k) \<in> {None, disk_data opts r' (bd_dat db)}"
    if "bd_blockIndex db k = Some r'" for k r'
    using that a(3) [of k] r d ip by (cases "k = BIdx h") (auto simp: update_conv')
  from recache [OF inv sub same] show thesis
    by (intro that [OF a(1)]) (simp_all add: same_files_def)
qed

lemma BlockGetInternal_contents:
  assumes inv: "db_inv opts db" and s: "contents opts db (BIdx h) = Some (d, t)"
  obtains db' where "BlockGetInternal opts h nc db = Inr ((Some d, t, None), db')" "db_inv opts db'"
    "contents opts db' = contents opts db" "same_files db db'"
proof -
  from s obtain r where r: "bd_blockIndex db (BIdx h) = Some r" by (auto simp: contents_def split: option.splits)
  from contents_dom [OF inv r] s obtain t: "t = ob_trusted r"
    and d: "cache_data db (BIdx h) = Some d \<or> cache_data db (BIdx h) = None \<and> disk_data opts r (bd_dat db) = Some d"
    by (auto simp: contents_Some [OF r])
  show thesis
  proof (cases "map_of (bd_cache db) (BIdx h)")
    case (Some c)
    with d have c: "cr_Data c = d" by simp
    let ?cs = "AList.update (BIdx h) (c\<lparr>cr_LastUsed := bd_clock db\<rparr>) (bd_cache db)"
    have sub: "fst ` set ?cs \<subseteq> dom (bd_blockIndex db)"
      using inv r by (auto simp: db_inv_def cache_inv_def dom_map_of_conv_image_fst [symmetric] update_conv')
    have "map_option cr_Data (map_of ?cs k) = cache_data db k" for k
      using Some by (simp add: update_conv')
    then have "db_inv opts (db\<lparr>bd_clock := Suc (bd_clock db), bd_cache := ?cs\<rparr>) \<and>
      contents opts (db\<lparr>bd_clock := Suc (bd_clock db), bd_cache := ?cs\<rparr>) = contents opts db"
      using recache [OF inv sub] by blast
    then show thesis
      by (intro that [of "db\<lparr>bd_clock := Suc (bd_clock db), bd_cache := ?cs\<rparr>"])
        (simp_all add: BlockGetInternal_def Let_def r Some c t same_files_def)
  next
    case None
    with d have d: "disk_data opts r (bd_dat db) = Some d" by simp
    define r' where "r' = (if ob_olen r = 0 then r\<lparr>ob_olen := of_nat (length d)\<rparr> else r)"
    define db1 where "db1 = db\<lparr>bd_blockIndex := (bd_blockIndex db)(BIdx h \<mapsto> r')\<rparr>"
    have r': "r' = r\<lparr>ob_olen := ob_olen r'\<rparr>" by (simp add: r'_def)
    have db1: "db_inv opts db1" "contents opts db1 = contents opts db"
      using relen [OF inv r, of "ob_olen r'"] by (simp_all add: db1_def r' [symmetric])
    have f: "same_files db db1"
      using r by (auto simp: same_files_def db1_def fits_in_def r'_def)
    have ip: "ob_ipos r \<noteq> - 1" using d by (simp add: disk_data_Some)
    show ?thesis
    proof (cases nc)
      case True
      then show ?thesis
        using db1 f by (intro that [of db1]) (auto simp: BlockGetInternal_def Let_def r None disk_data_read [OF d] t db1_def r'_def)
    next
      case False
      have "bd_blockIndex db1 (BIdx h) = Some r'" "disk_data opts r' (bd_dat db1) = Some d" "map_of (bd_cache db1) (BIdx h) = None"
        using d None by (auto simp: db1_def r'_def disk_data_olen)
      from addToCache_keeps [OF db1(1) this] obtain crec db' where a: "addToCache opts h d db1 = Inr (crec, db')" "cr_Data crec = d"
        "db_inv opts db'" "contents opts db' = contents opts db1" "same_files db1 db'" by blast
      then show ?thesis using db1(2) same_files_trans [OF f] False
        by (intro that [of db']) (auto simp: BlockGetInternal_def Let_def r None disk_data_read [OF d] t db1_def [symmetric]
            r'_def [symmetric])
    qed
  qed
qed

end
