(* ===== verification/BlockDbWrite.thy ===== *)
theory BlockDbWrite
  imports BlockDbLaws
begin

text \<open>
  Adding and writing blocks: what the database holds does not depend on whether a block is in the queue or in the
  files. Writing keeps the invariant and every block; adding a new block adds just that one.
\<close>

section \<open>Index records\<close>

lemma record_layout:
  fixes x :: byte
  assumes "length r = 27" "length a = 4" "length b = 4" "length c = 4" "length d = 8" "length e = 4" "length f = 4" "length h = 80"
  defines "fl \<equiv> x # r @ a @ b @ c @ d @ e @ f @ h"
  shows "length fl = 136" "drop 56 fl = h" "fl ! 0 = x" "take 4 (drop 28 fl) = a" "take 4 (drop 32 fl) = b"
    "take 4 (drop 36 fl) = c" "take 8 (drop 40 fl) = d" "take 4 (drop 48 fl) = e" "take 4 (drop 52 fl) = f"
  using assms by (simp_all add: fl_def)

lemma index_record_fields:
  assumes "80 \<le> length (bw_data b)"
  obtains fl where "index_record r b = Inr fl" "length fl = 136" "drop 56 fl = take 80 (bw_data b)"
    "fl ! 0 = (if ob_compressed r then BLOCK_COMPRSD else 0) OR (if ob_snappied r then BLOCK_SNAPPED else 0)
               OR (if ob_trusted r then BLOCK_TRUSTED else 0) OR (BLOCK_LENGTH OR BLOCK_INDEX)"
    "le_word (take 4 (drop 28 fl)) = ob_datfileidx r" "le_word (take 4 (drop 32 fl)) = (of_nat (length (bw_data b)) :: u32)"
    "le_word (take 4 (drop 36 fl)) = bw_height b" "le_word (take 8 (drop 40 fl)) = ob_fpos r"
    "le_word (take 4 (drop 48 fl)) = ob_blen r" "le_word (take 4 (drop 52 fl)) = bw_txcount b"
proof -
  let ?x = "(if ob_compressed r then BLOCK_COMPRSD else 0) OR (if ob_snappied r then BLOCK_SNAPPED else 0)
    OR (if ob_trusted r then BLOCK_TRUSTED else 0) OR (BLOCK_LENGTH OR BLOCK_INDEX)"
  define fl where "fl = ?x # replicate 27 0 @ le_bytes 4 (ob_datfileidx r)
    @ le_bytes 4 (of_nat (length (bw_data b)) :: u32) @ le_bytes 4 (bw_height b) @ le_bytes 8 (ob_fpos r) @ le_bytes 4 (ob_blen r)
    @ le_bytes 4 (bw_txcount b) @ take 80 (bw_data b)"
  have l: "length (take 80 (bw_data b)) = 80" using assms by simp
  note f = record_layout [OF length_replicate length_le_bytes length_le_bytes length_le_bytes length_le_bytes length_le_bytes
    length_le_bytes l, of ?x 0 "ob_datfileidx r" "of_nat (length (bw_data b)) :: u32" "bw_height b" "ob_fpos r" "ob_blen r"
    "bw_txcount b", folded fl_def]
  have "index_record r b = Inr fl"
    using assms by (simp add: index_record_def slice_range_def Let_def fl_def)
  then show thesis by (rule that) (simp_all only: f, simp_all)
qed

section \<open>Writing one block\<close>

lemma roll_cases:
  assumes "keeps_files opts"
  shows "roll_file opts c db = db \<or> roll_file opts c db =
    db\<lparr>bd_dat := (bd_dat db)(bd_maxdatfileidx db + 1 \<mapsto> []), bd_maxdatfilepos := 0, bd_maxdatfileidx := bd_maxdatfileidx db + 1\<rparr>"
  using assms by (auto simp: roll_file_def keeps_files_def removeDatFile_def Let_def)

definition written_rec :: "bdb_opts \<Rightarrow> one_bl \<Rightarrow> one_b2w \<Rightarrow> nat \<Rightarrow> u32 \<Rightarrow> nat \<Rightarrow> one_bl" where
  "written_rec opts r b ip i pos = r\<lparr>ob_compressed := bo_CompressOnDisk opts, ob_snappied := bo_CompressOnDisk opts,
     ob_blen := of_nat (length (on_disk opts (bw_data b))), ob_ipos := int ip, ob_datfileidx := i, ob_fpos := of_nat pos\<rparr>"

definition written_db :: "bdb_opts \<Rightarrow> block_db \<Rightarrow> one_b2w \<Rightarrow> one_b2w list \<Rightarrow> one_bl \<Rightarrow> bytes \<Rightarrow> u32 \<Rightarrow> nat \<Rightarrow> (u32 \<Rightarrow> bytes option) \<Rightarrow> block_db" where
  "written_db opts db b rest r' fl i pos dat =
     db\<lparr>bd_blockIndex := (bd_blockIndex db)(bw_idx b \<mapsto> r'), bd_blocksToWrite := rest,
       bd_datToWrite := bd_datToWrite db - of_nat (length (bw_data b)),
       bd_blockindx := write_at (bd_maxidxfilepos db) fl (bd_blockindx db),
       bd_dat := dat(i \<mapsto> write_at pos (on_disk opts (bw_data b)) (case dat i of None \<Rightarrow> [] | Some f \<Rightarrow> f)),
       bd_maxidxfilepos := bd_maxidxfilepos db + 136, bd_maxdatfilepos := pos + length (on_disk opts (bw_data b)),
       bd_maxdatfileidx := i\<rparr>"

definition where_to :: "block_db \<Rightarrow> u32 \<Rightarrow> nat \<Rightarrow> (u32 \<Rightarrow> bytes option) \<Rightarrow> bool" where
  "where_to db i pos dat \<longleftrightarrow> i = bd_maxdatfileidx db \<and> pos = bd_maxdatfilepos db \<and> dat = bd_dat db
     \<or> i = bd_maxdatfileidx db + 1 \<and> pos = 0 \<and> dat = (bd_dat db)(i \<mapsto> [])"

lemma writeOne_writes:
  assumes "keeps_files opts" and "bd_blocksToWrite db = b # rest" and "bd_blockIndex db (bw_idx b) = Some r" and "ob_ipos r = - 1"
    and "80 \<le> length (bw_data b)" and "0 \<le> MaxEncodedLen (length (bw_data b))"
  obtains i pos dat fl where "where_to db i pos dat"
    "index_record (written_rec opts r b (bd_maxidxfilepos db) i pos) b = Inr fl"
    "writeOne opts db = Inr (True, written_db opts db b rest (written_rec opts r b (bd_maxidxfilepos db) i pos) fl i pos dat)"
proof -
  let ?db = "db\<lparr>bd_blocksToWrite := rest, bd_datToWrite := bd_datToWrite db - of_nat (length (bw_data b))\<rparr>"
  let ?c = "on_disk opts (bw_data b)"
  note c = on_disk_encoded(1) [OF assms(6), of opts]
  have cl: "unat (of_nat (length ?c) :: u32) = length ?c" using on_disk_encoded(6) [OF assms(6)] by (intro unat_of_nat_small) simp
  note W = writeOne_def [of opts db, unfolded assms(2) list.case Let_def, simplified c, simplified]
  show thesis
  proof (cases "roll_file opts ?c ?db = ?db")
    case True
    let ?r = "written_rec opts r b (bd_maxidxfilepos db) (bd_maxdatfileidx db) (bd_maxdatfilepos db)"
    obtain fl where fl: "index_record ?r b = Inr fl" by (rule index_record_fields [OF assms(5), of ?r]) blast
    show thesis
      by (rule that [OF _ fl, of "bd_dat db"])
        (simp_all add: where_to_def W cl assms(3,4) True fl [unfolded written_rec_def] written_db_def written_rec_def)
  next
    case False
    then have R: "roll_file opts ?c ?db = ?db\<lparr>bd_dat := (bd_dat db)(bd_maxdatfileidx db + 1 \<mapsto> []), bd_maxdatfilepos := 0,
        bd_maxdatfileidx := bd_maxdatfileidx db + 1\<rparr>"
      using roll_cases [OF assms(1), of ?c ?db] by simp
    let ?r = "written_rec opts r b (bd_maxidxfilepos db) (bd_maxdatfileidx db + 1) 0"
    obtain fl where fl: "index_record ?r b = Inr fl" by (rule index_record_fields [OF assms(5), of ?r]) blast
    show thesis
      by (rule that [OF _ fl, of "(bd_dat db)(bd_maxdatfileidx db + 1 \<mapsto> [])"])
        (simp_all add: where_to_def W cl assms(3,4) R fl [unfolded written_rec_def, simplified] written_db_def written_rec_def)
  qed
qed

lemma i_next: "unat (i :: u32) < 2 ^ 32 - 1 \<Longrightarrow> unat (i + 1) = unat i + 1"
  by (subst unat_add_small) simp_all

lemma old_region:
  assumes w: "where_to db i pos dat" and bel: "below r0 (bd_maxdatfileidx db) (bd_maxdatfilepos db)"
    and d: "disk_data opts r0 (bd_dat db) = Some d" and m: "unat (bd_maxdatfileidx db) < 2 ^ 32 - 1"
  shows "disk_data opts r0 (dat(i \<mapsto> write_at pos c (case dat i of None \<Rightarrow> [] | Some f \<Rightarrow> f))) = Some d"
    and "below r0 i (pos + length c)"
proof -
  from d obtain f where f: "bd_dat db (ob_datfileidx r0) = Some f" "unat (ob_fpos r0) + unat (ob_blen r0) \<le> length f"
    by (auto simp: disk_data_Some)
  have lt: "bd_maxdatfileidx db < bd_maxdatfileidx db + 1" using i_next [OF m] by (simp add: word_less_nat_alt)
  from w consider (same) "i = bd_maxdatfileidx db" "pos = bd_maxdatfilepos db" "dat = bd_dat db"
    | (roll) "i = bd_maxdatfileidx db + 1" "pos = 0" "dat = (bd_dat db)(i \<mapsto> [])" by (auto simp: where_to_def)
  then have "disk_data opts r0 (dat(i \<mapsto> write_at pos c (case dat i of None \<Rightarrow> [] | Some f \<Rightarrow> f))) = Some d \<and> below r0 i (pos + length c)"
  proof cases
    case same
    show ?thesis
    proof (cases "ob_datfileidx r0 = i")
      case True
      then have "unat (ob_fpos r0) + unat (ob_blen r0) \<le> pos" using bel same by (auto simp: below_def)
      then show ?thesis
        using d f True same by (auto simp: disk_data_Some write_at_length write_at_before below_def)
    next
      case False
      then show ?thesis using d bel same by (auto simp: disk_data_Some below_def)
    qed
  next
    case roll
    with bel lt have "ob_datfileidx r0 < i" by (auto simp: below_def)
    then show ?thesis using d roll by (auto simp: disk_data_Some below_def)
  qed
  then show "disk_data opts r0 (dat(i \<mapsto> write_at pos c (case dat i of None \<Rightarrow> [] | Some f \<Rightarrow> f))) = Some d"
    "below r0 i (pos + length c)" by simp_all
qed

lemma new_region:
  fixes r :: one_bl and ip :: nat and i :: u32
  assumes "keeps_files opts" and "b2w_ok opts b" and "pos + length (on_disk opts (bw_data b)) < 2 ^ 63"
  defines "r' \<equiv> written_rec opts r b ip i pos"
  shows "disk_data opts r' (dat(i \<mapsto> write_at pos (on_disk opts (bw_data b)) f)) = Some (bw_data b)"
    and "below r' i (pos + length (on_disk opts (bw_data b)))"
proof -
  let ?c = "on_disk opts (bw_data b)"
  have m: "0 \<le> MaxEncodedLen (length (bw_data b))" and l: "80 \<le> length (bw_data b)" using assms(2) by (simp_all add: b2w_ok_def)
  note enc = on_disk_encoded [OF m]
  have u: "unat (of_nat (length ?c) :: u32) = length ?c" "unat (of_nat pos :: u64) = pos"
    using enc(6) assms(3) by (simp_all add: unat_of_nat_small)
  have d: "bw_data b \<noteq> []" using l by auto
  have n: "?c \<noteq> []" by (rule enc(3) [OF d])
  then have "(of_nat (length ?c) :: u32) \<noteq> 0" using u(1) by (metis length_0_conv unat_0)
  moreover have "unpack opts r' ?c = Some (bw_data b)"
    using enc(4) d by (simp add: unpack_def r'_def written_rec_def on_disk_def split: list.split)
  ultimately show "disk_data opts r' (dat(i \<mapsto> write_at pos ?c f)) = Some (bw_data b)"
    by (simp add: disk_data_Some r'_def written_rec_def u write_at_length write_at_read)
  show "below r' i (pos + length ?c)"
    by (simp add: below_def r'_def written_rec_def u)
qed

lemma chunk_append: "length f = 136 * n \<Longrightarrow> i < n \<Longrightarrow> chunk (f @ g) i = chunk f i"
  by (simp add: chunk_def)

lemma chunk_last: "length f = 136 * n \<Longrightarrow> length g = 136 \<Longrightarrow> chunk (f @ g) n = g"
  by (simp add: chunk_def)

lemma written_rec_matches:
  assumes "b2w_ok opts b" and "index_record (written_rec opts r b ip i pos) b = Inr fl"
  shows "rec_matches fl (written_rec opts r b ip i pos)" and "hdr_key fl = bw_idx b" and "length fl = 136"
proof -
  let ?r = "written_rec opts r b ip i pos"
  have l: "80 \<le> length (bw_data b)" "length (bw_data b) < 2 ^ 32" "bw_idx b = BIdx (Sha2Sum (take 80 (bw_data b)))"
    using assms(1) on_disk_encoded(5) by (simp_all add: b2w_ok_def)
  obtain fl' where fl': "index_record ?r b = Inr fl'" "length fl' = 136" "drop 56 fl' = take 80 (bw_data b)"
    "fl' ! 0 = (if ob_compressed ?r then BLOCK_COMPRSD else 0) OR (if ob_snappied ?r then BLOCK_SNAPPED else 0)
               OR (if ob_trusted ?r then BLOCK_TRUSTED else 0) OR (BLOCK_LENGTH OR BLOCK_INDEX)"
    "le_word (take 4 (drop 28 fl')) = ob_datfileidx ?r" "le_word (take 4 (drop 32 fl')) = (of_nat (length (bw_data b)) :: u32)"
    "le_word (take 8 (drop 40 fl')) = ob_fpos ?r" "le_word (take 4 (drop 48 fl')) = ob_blen ?r"
    by (rule index_record_fields [OF l(1), of ?r]) blast
  have [simp]: "fl' = fl" using fl'(1) assms(2) by simp
  have "unat (of_nat (length (bw_data b)) :: u32) = length (bw_data b)" using l(2) by (simp add: unat_of_nat_small)
  then have nz: "(of_nat (length (bw_data b)) :: u32) \<noteq> 0" using l(1) by (metis not_numeral_le_zero unat_0)
  show "rec_matches fl ?r"
    using fl'(2-8) nz unfolding rec_matches_def by (cases "ob_compressed ?r"; cases "ob_snappied ?r"; cases "ob_trusted ?r") simp_all
  show "hdr_key fl = bw_idx b" "length fl = 136" using fl'(2,3) l(3) by simp_all
qed

lemma written_file_inv:
  assumes "file_inv db" and "length fl = 136" and "hdr_key fl = bw_idx b" and "rec_matches fl r'"
    and "bd_blockIndex db (bw_idx b) = Some r" and "ob_ipos r = - 1" and "ob_ipos r' = int (bd_maxidxfilepos db)"
  shows "file_inv (written_db opts db b rest r' fl i pos dat)"
proof -
  from assms(1) obtain n where n: "length (bd_blockindx db) = 136 * n" "bd_maxidxfilepos db = 136 * n"
    "\<forall>i<n. \<exists>r. bd_blockIndex db (hdr_key (chunk (bd_blockindx db) i)) = Some r \<and> ob_ipos r = int (136 * i)
      \<and> rec_matches (chunk (bd_blockindx db) i) r"
    "\<forall>k r. bd_blockIndex db k = Some r \<and> ob_ipos r \<noteq> - 1 \<longrightarrow> (\<exists>i<n. hdr_key (chunk (bd_blockindx db) i) = k)"
    unfolding file_inv_def by blast
  let ?db = "written_db opts db b rest r' fl i pos dat"
  have f: "bd_blockindx ?db = bd_blockindx db @ fl" "bd_maxidxfilepos ?db = 136 * Suc n"
    "bd_blockIndex ?db = (bd_blockIndex db)(bw_idx b \<mapsto> r')"
    by (simp_all add: written_db_def n write_at_end)
  have c: "chunk (bd_blockindx db @ fl) j = (if j < n then chunk (bd_blockindx db) j else fl)" if "j < Suc n" for j
  proof (cases "j < n")
    case True
    then show ?thesis by (simp add: chunk_append [OF n(1)])
  next
    case False
    with that have "j = n" by simp
    then show ?thesis by (simp add: chunk_last [OF n(1) assms(2)])
  qed
  have 1: "\<exists>r. bd_blockIndex ?db (hdr_key (chunk (bd_blockindx ?db) j)) = Some r \<and> ob_ipos r = int (136 * j)
      \<and> rec_matches (chunk (bd_blockindx ?db) j) r" if j: "j < Suc n" for j
  proof (cases "j < n")
    case True
    with n(3) obtain rj where rj: "bd_blockIndex db (hdr_key (chunk (bd_blockindx db) j)) = Some rj" "ob_ipos rj = int (136 * j)"
      "rec_matches (chunk (bd_blockindx db) j) rj" by blast
    with assms(5,6) have "hdr_key (chunk (bd_blockindx db) j) \<noteq> bw_idx b" by auto
    with rj True show ?thesis by (simp add: f c [OF j])
  next
    case False
    with j have "j = n" by simp
    then show ?thesis using assms(3,4,7) n(2) c [of n] by (simp add: f)
  qed
  have 2: "\<exists>j<Suc n. hdr_key (chunk (bd_blockindx ?db) j) = k" if "bd_blockIndex ?db k = Some r0" "ob_ipos r0 \<noteq> - 1" for k r0
  proof (cases "k = bw_idx b")
    case True
    then show ?thesis using assms(3) c [of n] by (intro exI [of _ n]) (simp add: f)
  next
    case False
    with that n(4) obtain j where "j < n" "hdr_key (chunk (bd_blockindx db) j) = k" by (auto simp: f)
    then show ?thesis using c [of j] by (intro exI [of _ j]) (simp add: f)
  qed
  have "length (bd_blockindx ?db) = 136 * Suc n" using n(1) assms(2) by (simp add: f)
  with f(2) 1 2 show ?thesis unfolding file_inv_def by blast
qed

lemma written_inv:
  assumes inv: "db_inv opts db" and keep: "keeps_files opts" and rm: "room opts s m db"
    and q: "bd_blocksToWrite db = b # rest" and r: "bd_blockIndex db (bw_idx b) = Some r" "ob_ipos r = - 1"
    and w: "where_to db i pos dat" and fl: "index_record (written_rec opts r b (bd_maxidxfilepos db) i pos) b = Inr fl"
  defines "db' \<equiv> written_db opts db b rest (written_rec opts r b (bd_maxidxfilepos db) i pos) fl i pos dat"
  shows "db_inv opts db' \<and> contents opts db' = contents opts db \<and> room opts s m db'"
proof -
  let ?r = "written_rec opts r b (bd_maxidxfilepos db) i pos"
  let ?c = "on_disk opts (bw_data b)"
  have I: "cache_inv db" "queue_inv opts db" "disk_inv opts db" "file_inv db" "unat (bd_maxdatfileidx db) < 2 ^ 32 - 1"
    using inv by (simp_all add: db_inv_def)
  have b: "b2w_ok opts b" using I(2) q by (simp add: queue_inv_def)
  have c: "cache_data db (bw_idx b) = Some (bw_data b)"
    using I(2) r q unfolding queue_inv_def by (metis list.set_intros(1))
  note m = written_rec_matches [OF b fl]
  have f: "bd_cache db' = bd_cache db" "bd_blocksToWrite db' = rest" "bd_blockIndex db' = (bd_blockIndex db)(bw_idx b \<mapsto> ?r)"
    "bd_maxdatfileidx db' = i" "bd_maxdatfilepos db' = pos + length ?c"
    "bd_dat db' = dat(i \<mapsto> write_at pos ?c (case dat i of None \<Rightarrow> [] | Some f \<Rightarrow> f))"
    by (simp_all add: db'_def written_db_def)
  have ip: "ob_ipos ?r = int (bd_maxidxfilepos db)" "ob_trusted ?r = ob_trusted r" by (simp_all add: written_rec_def)
  have il: "unat i \<le> unat (bd_maxdatfileidx db) + 1" using w i_next [OF I(5)] by (auto simp: where_to_def)
  from rm obtain T where T: "fits_in db T" "T + (length ?c + sum_list (map (\<lambda>b. length (on_disk opts (bw_data b))) rest)) + s < 2 ^ 63"
    by (auto simp: room_def q)
  have posl: "pos \<le> T" using w T(1) by (auto simp: where_to_def fits_in_def)
  have iok: "unat i + length rest + m < 2 ^ 32 - 1" using il rm q by (simp add: room_def)
  have fits: "pos + length ?c < 2 ^ 63" using posl T(2) by simp
  note new = new_region(1) [OF keep b fits, of r "bd_maxidxfilepos db" i dat "case dat i of None \<Rightarrow> [] | Some f \<Rightarrow> f"]
    new_region(2) [OF keep b fits, of r "bd_maxidxfilepos db" i]
  have ix: "bd_blockIndex db' k = Some r0 \<longleftrightarrow> (if k = bw_idx b then r0 = ?r else bd_blockIndex db k = Some r0)" for k r0
    by (auto simp: f)
  have "unat (ob_fpos ?r) + unat (ob_blen ?r) \<le> T + length ?c"
    using new(2) posl by (simp add: below_def written_rec_def)
  then have "fits_in db' (T + length ?c)"
    using T(1) posl by (fastforce simp: fits_in_def f ix)
  then have room: "room opts s m db'" using T(2) iok unfolding room_def f by (intro conjI exI [of _ "T + length ?c"]) simp_all
  have "cache_inv db'" using I(1) by (auto simp: cache_inv_def f)
  moreover have "queue_inv opts db'"
    unfolding queue_inv_def f(1,2)
  proof (intro conjI allI impI)
    show "\<forall>b\<in>set rest. b2w_ok opts b" using I(2) q by (simp add: queue_inv_def)
  next
    fix k r0 assume "bd_blockIndex db' k = Some r0 \<and> ob_ipos r0 = - 1"
    then have k: "k \<noteq> bw_idx b" "bd_blockIndex db k = Some r0 \<and> ob_ipos r0 = - 1" by (auto simp: ix ip split: if_splits)
    from I(2) k(2) have "k \<in> bw_idx ` set (b # rest)"
      "\<exists>d. cache_data db k = Some d \<and> (\<forall>b\<in>set (b # rest). bw_idx b = k \<longrightarrow> bw_data b = d)"
      unfolding queue_inv_def q by (blast, blast)
    with k(1) show "k \<in> bw_idx ` set rest" "\<exists>d. cache_data db k = Some d \<and> (\<forall>b\<in>set rest. bw_idx b = k \<longrightarrow> bw_data b = d)" by auto
  qed
  moreover have disk: "below r0 (bd_maxdatfileidx db') (bd_maxdatfilepos db') \<and> disk_data opts r0 (bd_dat db') = disk_data opts r0 (bd_dat db)"
    if k: "k \<noteq> bw_idx b" "bd_blockIndex db k = Some r0" "ob_ipos r0 \<noteq> - 1" for k r0
  proof -
    from I(3) k obtain d where d: "below r0 (bd_maxdatfileidx db) (bd_maxdatfilepos db)" "disk_data opts r0 (bd_dat db) = Some d"
      unfolding disk_inv_def by blast
    from old_region [OF w d I(5), of ?c] d(2) show ?thesis by (simp add: f)
  qed
  moreover have "disk_inv opts db'"
    unfolding disk_inv_def
  proof (intro allI impI, elim conjE)
    fix k r0 assume a: "bd_blockIndex db' k = Some r0" "ob_ipos r0 \<noteq> - 1"
    show "below r0 (bd_maxdatfileidx db') (bd_maxdatfilepos db') \<and> (\<exists>d. disk_data opts r0 (bd_dat db') = Some d \<and> cache_data db' k \<in> {None, Some d})"
    proof (cases "k = bw_idx b")
      case True
      with a have "r0 = ?r" by (simp add: ix)
      then show ?thesis using new c True by (auto simp: f)
    next
      case False
      with a have a': "bd_blockIndex db k = Some r0" by (simp add: ix)
      with I(3) a(2) obtain d where "disk_data opts r0 (bd_dat db) = Some d" "cache_data db k \<in> {None, Some d}"
        unfolding disk_inv_def by blast
      with disk [OF False a' a(2)] show ?thesis by (simp add: f(1))
    qed
  qed
  moreover have "file_inv db'"
    unfolding db'_def by (rule written_file_inv [OF I(4) m(3,2,1) r ip(1)])
  ultimately have inv': "db_inv opts db'" using iok by (simp add: db_inv_def f)
  have "contents opts db' k = contents opts db k" for k
  proof (cases "k = bw_idx b")
    case True
    then show ?thesis using r by (simp add: contents_def f c ip del: map_option_eq_Some)
  next
    case False
    show ?thesis
    proof (cases "bd_blockIndex db k")
      case (Some r0)
      have "held opts r0 (cache_data db k) (bd_dat db') = held opts r0 (cache_data db k) (bd_dat db)"
      proof (cases "ob_ipos r0 = - 1")
        case True
        with I(2) Some obtain d where "cache_data db k = Some d" unfolding queue_inv_def by blast
        then show ?thesis by (simp del: map_option_eq_Some)
      next
        case on: False
        show ?thesis using disk [OF False Some on] by (cases "cache_data db k") (auto simp: held_def)
      qed
      then show ?thesis using False Some by (simp add: contents_def f(1,3))
    qed (simp add: contents_def f False)
  qed
  with inv' room show ?thesis by blast
qed

text \<open>A queue entry that is not to be written any more is just taken off.\<close>

lemma discard_inv:
  fixes x :: u64
  assumes inv: "db_inv opts db" and rm: "room opts s m db" and q: "bd_blocksToWrite db = b # rest"
    and r: "\<And>r. bd_blockIndex db (bw_idx b) = Some r \<Longrightarrow> ob_ipos r \<noteq> - 1"
  defines "db' \<equiv> db\<lparr>bd_blocksToWrite := rest, bd_datToWrite := x\<rparr>"
  shows "db_inv opts db' \<and> contents opts db' = contents opts db \<and> room opts s m db'"
proof -
  have I: "cache_inv db" "queue_inv opts db" "disk_inv opts db" "file_inv db" "unat (bd_maxdatfileidx db) < 2 ^ 32 - 1"
    using inv by (simp_all add: db_inv_def)
  have f: "bd_cache db' = bd_cache db" "bd_blocksToWrite db' = rest" "bd_blockIndex db' = bd_blockIndex db" by (simp_all add: db'_def)
  have fi: "fits_in db' T = fits_in db T" for T by (simp add: fits_in_def db'_def)
  have rm': "room opts s m db'" using rm unfolding room_def fi by (auto simp: q db'_def)
  have "queue_inv opts db'"
    unfolding queue_inv_def f
  proof (intro conjI allI impI)
    show "\<forall>b\<in>set rest. b2w_ok opts b" using I(2) q by (simp add: queue_inv_def)
  next
    fix k r0 assume k: "bd_blockIndex db k = Some r0 \<and> ob_ipos r0 = - 1"
    then have "k \<noteq> bw_idx b" using r by auto
    moreover from I(2) k have "k \<in> bw_idx ` set (b # rest)"
      "\<exists>d. cache_data db k = Some d \<and> (\<forall>b\<in>set (b # rest). bw_idx b = k \<longrightarrow> bw_data b = d)"
      unfolding queue_inv_def q by (blast, blast)
    ultimately show "k \<in> bw_idx ` set rest" "\<exists>d. cache_data db k = Some d \<and> (\<forall>b\<in>set rest. bw_idx b = k \<longrightarrow> bw_data b = d)" by auto
  qed
  moreover have "cache_inv db' = cache_inv db" "disk_inv opts db' = disk_inv opts db" "file_inv db' = file_inv db"
    by (simp_all add: cache_inv_def disk_inv_def file_inv_def db'_def)
  moreover have "contents opts db' = contents opts db" by (rule contents_cong) (simp_all add: db'_def)
  ultimately show ?thesis using I rm' by (simp add: db_inv_def db'_def)
qed

lemma writeOne_keeps:
  assumes inv: "db_inv opts db" and keep: "keeps_files opts" and rm: "room opts s m db" and q: "bd_blocksToWrite db = b # rest"
  obtains db' where "writeOne opts db = Inr (True, db')" "db_inv opts db'" "contents opts db' = contents opts db" "room opts s m db'"
    "bd_blocksToWrite db' = rest"
proof (cases "\<exists>r. bd_blockIndex db (bw_idx b) = Some r \<and> ob_ipos r = - 1")
  case True
  then obtain r where r: "bd_blockIndex db (bw_idx b) = Some r" "ob_ipos r = - 1" by blast
  have "80 \<le> length (bw_data b)" "0 \<le> MaxEncodedLen (length (bw_data b))"
    using inv q by (simp_all add: db_inv_def queue_inv_def b2w_ok_def)
  from writeOne_writes [OF keep q r this] obtain i pos dat fl where w: "where_to db i pos dat"
    "index_record (written_rec opts r b (bd_maxidxfilepos db) i pos) b = Inr fl"
    "writeOne opts db = Inr (True, written_db opts db b rest (written_rec opts r b (bd_maxidxfilepos db) i pos) fl i pos dat)"
    by blast
  from written_inv [OF inv keep rm q r w(1,2)] show thesis by (intro that [OF w(3)]) (simp_all add: written_db_def)
next
  case False
  then have r: "\<And>r. bd_blockIndex db (bw_idx b) = Some r \<Longrightarrow> ob_ipos r \<noteq> - 1" by blast
  let ?db = "db\<lparr>bd_blocksToWrite := rest, bd_datToWrite := bd_datToWrite db - of_nat (length (bw_data b))\<rparr>"
  have "writeOne opts db = Inr (True, ?db)"
    using r by (auto simp: writeOne_def q Let_def split: option.split)
  from that [OF this] discard_inv [OF inv rm q r] show thesis by simp
qed

lemma write_n_keeps:
  "db_inv opts db \<Longrightarrow> keeps_files opts \<Longrightarrow> room opts s m db \<Longrightarrow> n = length (bd_blocksToWrite db) \<Longrightarrow>
   \<exists>db'. write_n opts n db = Inr db' \<and> db_inv opts db' \<and> contents opts db' = contents opts db \<and> room opts s m db' \<and> bd_blocksToWrite db' = []"
proof (induction n arbitrary: db)
  case (Suc n)
  then obtain b rest where q: "bd_blocksToWrite db = b # rest" by (metis length_Suc_conv)
  from writeOne_keeps [OF Suc.prems(1-3) q] obtain db1 where d: "writeOne opts db = Inr (True, db1)" "db_inv opts db1"
    "contents opts db1 = contents opts db" "room opts s m db1" "bd_blocksToWrite db1 = rest" by blast
  from Suc.IH [OF d(2) Suc.prems(2) d(4)] Suc.prems(4) q d(5) have "\<exists>db'. write_n opts n db1 = Inr db' \<and> db_inv opts db'
    \<and> contents opts db' = contents opts db1 \<and> room opts s m db' \<and> bd_blocksToWrite db' = []" by simp
  with d(1,3) show ?case by simp
qed simp

lemma writeAll_keeps:
  assumes "db_inv opts db" and "keeps_files opts" and "room opts s m db"
  obtains db' where "writeAll opts db = Inr (bd_blocksToWrite db \<noteq> [], db')" "db_inv opts db'" "contents opts db' = contents opts db"
    "room opts s m db'" "bd_blocksToWrite db' = []"
  using write_n_keeps [OF assms refl] by (auto simp: writeAll_def)

section \<open>Adding a block\<close>

text \<open>What is asked of a block that is added: it fits, its hash is the one of its header, and a block with the same
  key that still waits in the queue has the same bytes.\<close>

definition bl_b2w :: "u32 \<Rightarrow> block \<Rightarrow> one_b2w" where
  "bl_b2w height bl = \<lparr>bw_idx = BIdx (bl_Hash bl), bw_h = bl_Hash bl, bw_data = sl_data (bl_Raw bl), bw_height = height,
     bw_txcount = word_of_int (bl_TxCount bl)\<rparr>"

definition may_add :: "bdb_opts \<Rightarrow> block \<Rightarrow> block_db \<Rightarrow> bool" where
  "may_add opts bl db \<longleftrightarrow> b2w_ok opts (bl_b2w 0 bl)
     \<and> (\<forall>b\<in>set (bd_blocksToWrite db). bw_idx b = BIdx (bl_Hash bl) \<longrightarrow> bw_data b = sl_data (bl_Raw bl))"

lemma queued_inv:
  fixes now :: nat and x :: u64 and height :: u32
  assumes inv: "db_inv opts db" and may: "may_add opts bl db"
    and rm: "room opts (length (on_disk opts (sl_data (bl_Raw bl))) + s) (Suc m) db" and new: "bd_blockIndex db (BIdx (bl_Hash bl)) = None"
    and cs: "fst ` set cs \<subseteq> fst ` set (bd_cache db)"
    and cs2: "\<And>k. map_of cs k = map_of (bd_cache db) k \<or> map_of cs k = None \<and>
      (\<exists>r. ((bd_blockIndex db)(BIdx (bl_Hash bl) \<mapsto> new_bl t)) k = Some r \<and> ob_ipos r \<noteq> - 1)"
    and crec: "cr_Data crec = sl_data (bl_Raw bl)"
  defines "db' \<equiv> db\<lparr>bd_blockIndex := (bd_blockIndex db)(BIdx (bl_Hash bl) \<mapsto> new_bl t), bd_clock := now,
    bd_cache := AList.update (BIdx (bl_Hash bl)) crec cs, bd_datToWrite := x,
    bd_blocksToWrite := bd_blocksToWrite db @ [bl_b2w height bl]\<rparr>"
  shows "db_inv opts db' \<and> contents opts db' = (contents opts db)(BIdx (bl_Hash bl) \<mapsto> (sl_data (bl_Raw bl), t)) \<and> room opts s m db'"
proof -
  let ?k = "BIdx (bl_Hash bl)" let ?b = "bl_b2w height bl"
  have I: "cache_inv db" "queue_inv opts db" "disk_inv opts db" "file_inv db" "unat (bd_maxdatfileidx db) < 2 ^ 32 - 1"
    using inv by (simp_all add: db_inv_def)
  have b: "b2w_ok opts ?b" "bw_idx ?b = ?k" "bw_data ?b = sl_data (bl_Raw bl)"
    using may by (simp_all add: may_add_def b2w_ok_def bl_b2w_def)
  have q: "bd_blocksToWrite db' = bd_blocksToWrite db @ [?b]" by (simp add: db'_def)
  have ix: "bd_blockIndex db' = (bd_blockIndex db)(?k \<mapsto> new_bl t)" by (simp add: db'_def)
  have ca: "cache_data db' k = (if k = ?k then Some (sl_data (bl_Raw bl)) else map_option cr_Data (map_of cs k))" for k
  proof -
    have "bd_cache db' = AList.update ?k crec cs" by (simp add: db'_def)
    then have "map_of (bd_cache db') = (map_of cs)(?k \<mapsto> crec)" by (simp only: update_conv')
    then show ?thesis using crec by simp
  qed
  have old: "bd_blockIndex db k = Some r \<Longrightarrow> k \<noteq> ?k" for k r using new by auto
  have ca': "cache_data db' k = cache_data db k \<or> cache_data db' k = None \<and> ob_ipos r \<noteq> - 1" if "bd_blockIndex db k = Some r" for k r
    using cs2 [of k] old [OF that] that by (auto simp: ca)
  have "cache_inv db'"
  proof -
    have "fst ` set (bd_cache db') = insert ?k (fst ` set cs)" by (simp add: db'_def dom_update)
    moreover have "dom (bd_blockIndex db') = insert ?k (dom (bd_blockIndex db))" by (simp add: ix)
    moreover have "insert ?k (fst ` set cs) \<subseteq> insert ?k (dom (bd_blockIndex db))"
      using I(1) cs unfolding cache_inv_def by (intro insert_mono) (rule subset_trans)
    ultimately show ?thesis unfolding cache_inv_def by simp
  qed
  moreover have "queue_inv opts db'"
    unfolding queue_inv_def
  proof (intro conjI allI impI)
    show "\<forall>b\<in>set (bd_blocksToWrite db'). b2w_ok opts b" using I(2) b by (simp add: queue_inv_def q)
  next
    fix k r0 assume k: "bd_blockIndex db' k = Some r0 \<and> ob_ipos r0 = - 1"
    have "k \<in> bw_idx ` set (bd_blocksToWrite db') \<and> (\<exists>d. cache_data db' k = Some d \<and> (\<forall>b\<in>set (bd_blocksToWrite db'). bw_idx b = k \<longrightarrow> bw_data b = d))"
    proof (cases "k = ?k")
      case True
      have "\<forall>b\<in>set (bd_blocksToWrite db). bw_idx b = ?k \<longrightarrow> bw_data b = sl_data (bl_Raw bl)" using may by (simp add: may_add_def)
      then show ?thesis using b(2,3) True by (simp add: ca q)
    next
      case False
      with k have k': "bd_blockIndex db k = Some r0" "ob_ipos r0 = - 1" by (simp_all add: ix)
      with I(2) have kq: "k \<in> bw_idx ` set (bd_blocksToWrite db)" and
        "\<exists>d. cache_data db k = Some d \<and> (\<forall>b\<in>set (bd_blocksToWrite db). bw_idx b = k \<longrightarrow> bw_data b = d)"
        unfolding queue_inv_def by (blast, blast)
      then obtain d where d: "cache_data db k = Some d" "\<forall>b\<in>set (bd_blocksToWrite db). bw_idx b = k \<longrightarrow> bw_data b = d" by blast
      have "cache_data db' k = Some d" using ca' [OF k'(1)] k'(2) d(1) by simp
      moreover have "\<forall>b\<in>set (bd_blocksToWrite db'). bw_idx b = k \<longrightarrow> bw_data b = d" using d(2) False b(2) by (simp add: q)
      moreover have "k \<in> bw_idx ` set (bd_blocksToWrite db')" using kq by (simp add: q)
      ultimately show ?thesis by blast
    qed
    then show "k \<in> bw_idx ` set (bd_blocksToWrite db')"
      "\<exists>d. cache_data db' k = Some d \<and> (\<forall>b\<in>set (bd_blocksToWrite db'). bw_idx b = k \<longrightarrow> bw_data b = d)" by simp_all
  qed
  moreover have "disk_inv opts db'"
    unfolding disk_inv_def
  proof (intro allI impI, elim conjE)
    fix k r0 assume a: "bd_blockIndex db' k = Some r0" "ob_ipos r0 \<noteq> - 1"
    then have a': "bd_blockIndex db k = Some r0" by (auto simp: ix new_bl_def split: if_splits)
    with I(3) a(2) obtain d where "below r0 (bd_maxdatfileidx db) (bd_maxdatfilepos db)" "disk_data opts r0 (bd_dat db) = Some d"
      "cache_data db k \<in> {None, Some d}" unfolding disk_inv_def by blast
    with ca' [OF a'] show "below r0 (bd_maxdatfileidx db') (bd_maxdatfilepos db') \<and>
      (\<exists>d. disk_data opts r0 (bd_dat db') = Some d \<and> cache_data db' k \<in> {None, Some d})"
      by (auto simp: db'_def)
  qed
  moreover have "file_inv db'"
  proof -
    from I(4) obtain n where n: "length (bd_blockindx db) = 136 * n" "bd_maxidxfilepos db = 136 * n"
      "\<forall>i<n. \<exists>r. bd_blockIndex db (hdr_key (chunk (bd_blockindx db) i)) = Some r \<and> ob_ipos r = int (136 * i)
        \<and> rec_matches (chunk (bd_blockindx db) i) r"
      "\<forall>k r. bd_blockIndex db k = Some r \<and> ob_ipos r \<noteq> - 1 \<longrightarrow> (\<exists>i<n. hdr_key (chunk (bd_blockindx db) i) = k)"
      unfolding file_inv_def by blast
    have f: "bd_blockindx db' = bd_blockindx db" "bd_maxidxfilepos db' = bd_maxidxfilepos db" by (simp_all add: db'_def)
    have "bd_blockIndex db' k = Some r" if "bd_blockIndex db k = Some r" for k r using that old [OF that] by (simp add: ix)
    with n(3) have 1: "\<forall>i<n. \<exists>r. bd_blockIndex db' (hdr_key (chunk (bd_blockindx db) i)) = Some r \<and> ob_ipos r = int (136 * i)
        \<and> rec_matches (chunk (bd_blockindx db) i) r" by blast
    have "\<forall>k r. bd_blockIndex db' k = Some r \<and> ob_ipos r \<noteq> - 1 \<longrightarrow> (\<exists>i<n. hdr_key (chunk (bd_blockindx db) i) = k)"
      using n(4) by (simp add: ix new_bl_def)
    with 1 n(1,2) show ?thesis unfolding file_inv_def f by blast
  qed
  ultimately have "db_inv opts db'" using I(5) by (simp add: db_inv_def db'_def)
  moreover have "contents opts db' k = ((contents opts db)(?k \<mapsto> (sl_data (bl_Raw bl), t))) k" for k
  proof (cases "bd_blockIndex db k")
    case None
    then show ?thesis by (simp add: contents_def ix ca new_bl_def del: map_option_eq_Some)
  next
    case (Some r)
    have "held opts r (cache_data db' k) (bd_dat db) = held opts r (cache_data db k) (bd_dat db)"
    proof (cases "ob_ipos r = - 1")
      case True
      with ca' [OF Some] show ?thesis by simp
    next
      case False
      with I(3) Some obtain d where "disk_data opts r (bd_dat db) = Some d" "cache_data db k \<in> {None, Some d}"
        unfolding disk_inv_def by blast
      then show ?thesis using ca' [OF Some] by (auto simp: held_def)
    qed
    then show ?thesis using Some old [OF Some] by (simp add: contents_def ix db'_def)
  qed
  moreover have "room opts s m db'"
  proof -
    from rm obtain T where T: "fits_in db T" "T + sum_list (map (\<lambda>b. length (on_disk opts (bw_data b))) (bd_blocksToWrite db))
      + (length (on_disk opts (sl_data (bl_Raw bl))) + s) < 2 ^ 63" by (auto simp: room_def)
    have "bd_maxdatfilepos db' = bd_maxdatfilepos db" by (simp add: db'_def)
    then have "fits_in db' T" using T(1) by (auto simp: fits_in_def ix new_bl_def)
    then show ?thesis using T(2) rm b(3) unfolding room_def by (intro conjI exI [of _ T]) (simp_all add: q, simp_all add: db'_def)
  qed
  ultimately show ?thesis by blast
qed

end
