(* ===== verification/BlockDbFlags.thy ===== *)
theory BlockDbFlags
  imports BlockDbWrite
begin

text \<open>
  The flag of a trusted block, in the index and in its file, and the operations of the database as a whole: adding,
  trusting, writing, forgetting a block that was never written.
\<close>

section \<open>Trusting a block\<close>

lemma disk_data_trusted: "disk_data opts (r\<lparr>ob_trusted := x\<rparr>) dat = disk_data opts r dat"
proof -
  have "(\<And>d. y = Some d \<longleftrightarrow> z = Some d) \<Longrightarrow> y = z" for y z :: "bytes option" by (cases y; cases z) auto
  moreover have "disk_data opts (r\<lparr>ob_trusted := x\<rparr>) dat = Some d \<longleftrightarrow> disk_data opts r dat = Some d" for d
    by (simp add: disk_data_Some unpack_def)
  ultimately show ?thesis by blast
qed

lemma chunk_update_other: "j \<noteq> i \<Longrightarrow> chunk (f[136 * i := x]) j = chunk f j"
  by (intro nth_equalityI) (auto simp: chunk_def nth_list_update)

lemma chunk_update_same: "chunk (f[136 * i := x]) i = (chunk f i)[0 := x]"
  by (intro nth_equalityI) (auto simp: chunk_def nth_list_update)

lemma chunk_length: "length f = 136 * n \<Longrightarrow> i < n \<Longrightarrow> length (chunk f i) = 136"
  by (simp add: chunk_def)

lemma trust_bit:
  fixes x :: byte
  shows "(x OR 1) AND BLOCK_INVALID = x AND BLOCK_INVALID" "(x OR 1) AND BLOCK_LENGTH = x AND BLOCK_LENGTH"
    "(x OR 1) AND BLOCK_INDEX = x AND BLOCK_INDEX" "(x OR 1) AND BLOCK_COMPRSD = x AND BLOCK_COMPRSD"
    "(x OR 1) AND BLOCK_SNAPPED = x AND BLOCK_SNAPPED" "(x OR 1) AND 1 \<noteq> 0"
proof -
  show "(x OR 1) AND BLOCK_INVALID = x AND BLOCK_INVALID" "(x OR 1) AND BLOCK_LENGTH = x AND BLOCK_LENGTH"
    "(x OR 1) AND BLOCK_INDEX = x AND BLOCK_INDEX" "(x OR 1) AND BLOCK_COMPRSD = x AND BLOCK_COMPRSD"
    "(x OR 1) AND BLOCK_SNAPPED = x AND BLOCK_SNAPPED" by (simp_all add: bit.conj_disj_distrib2)
  have "(x OR 1) AND 1 = 1" by (simp add: and.commute [of _ 1])
  then show "(x OR 1) AND 1 \<noteq> 0" by simp
qed

lemma rec_matches_trust:
  assumes "rec_matches c r"
  shows "rec_matches (c[0 := c ! 0 OR 1]) (r\<lparr>ob_trusted := True\<rparr>)" "hdr_key (c[0 := x]) = hdr_key c"
proof -
  obtain b bs where c: "c = b # bs" "length bs = 135" using assms by (cases c) (auto simp: rec_matches_def)
  show "rec_matches (c[0 := c ! 0 OR 1]) (r\<lparr>ob_trusted := True\<rparr>)"
    using assms trust_bit [of b] by (simp add: c rec_matches_def)
  show "hdr_key (c[0 := x]) = hdr_key c" by (simp add: c)
qed

lemma trust_file:
  assumes f: "file_inv db" and r: "bd_blockIndex db k = Some r" and db': "db' = setBlockFlag k BLOCK_TRUSTED r db" and ip: "ob_ipos r \<ge> - 1"
  shows "file_inv db'"
proof -
  from f obtain n where n: "length (bd_blockindx db) = 136 * n" "bd_maxidxfilepos db = 136 * n"
    "\<forall>i<n. \<exists>r. bd_blockIndex db (hdr_key (chunk (bd_blockindx db) i)) = Some r \<and> ob_ipos r = int (136 * i)
      \<and> rec_matches (chunk (bd_blockindx db) i) r"
    "\<forall>k r. bd_blockIndex db k = Some r \<and> ob_ipos r \<noteq> - 1 \<longrightarrow> (\<exists>i<n. hdr_key (chunk (bd_blockindx db) i) = k)"
    unfolding file_inv_def by blast
  have ix: "bd_blockIndex db' = (bd_blockIndex db)(k \<mapsto> r\<lparr>ob_trusted := True\<rparr>)" "bd_maxidxfilepos db' = 136 * n"
    by (simp_all add: db' setBlockFlag_def Let_def n)
  have key: "\<exists>i<n. hdr_key (chunk (bd_blockindx db) i) = j" if "bd_blockIndex db' j = Some r0" "ob_ipos r0 \<noteq> - 1" for j r0
    using that n(4) r by (auto simp: ix split: if_splits)
  show ?thesis
  proof (cases "ob_ipos r = - 1")
    case True
    have fx: "bd_blockindx db' = bd_blockindx db" by (simp add: db' setBlockFlag_def Let_def True)
    have "hdr_key (chunk (bd_blockindx db) i) \<noteq> k" if "i < n" for i using n(3) that r True by fastforce
    with n(3) have "\<forall>i<n. \<exists>r. bd_blockIndex db' (hdr_key (chunk (bd_blockindx db) i)) = Some r \<and> ob_ipos r = int (136 * i)
      \<and> rec_matches (chunk (bd_blockindx db) i) r" by (simp add: ix)
    then show ?thesis using n(1) ix(2) key unfolding file_inv_def fx by blast
  next
    case False
    with r n(4) obtain i where i: "i < n" "hdr_key (chunk (bd_blockindx db) i) = k" by blast
    with n(3) r have ri: "ob_ipos r = int (136 * i)" "rec_matches (chunk (bd_blockindx db) i) r" by auto
    have lt: "136 * i < length (bd_blockindx db)" using i(1) n(1) by simp
    have c0: "bd_blockindx db ! (136 * i) = chunk (bd_blockindx db) i ! 0" using lt by (simp add: chunk_def)
    have fx: "bd_blockindx db' = (bd_blockindx db)[136 * i := chunk (bd_blockindx db) i ! 0 OR 1]"
      using lt c0 by (simp add: db' setBlockFlag_def Let_def ri(1) write_at_in nat_mult_distrib)
    have k: "hdr_key (chunk (bd_blockindx db') j) = hdr_key (chunk (bd_blockindx db) j)" for j
      using rec_matches_trust(2) [OF ri(2)] by (cases "j = i") (simp_all add: fx chunk_update_same chunk_update_other)
    have "\<exists>r. bd_blockIndex db' (hdr_key (chunk (bd_blockindx db') j)) = Some r \<and> ob_ipos r = int (136 * j)
      \<and> rec_matches (chunk (bd_blockindx db') j) r" if j: "j < n" for j
    proof (cases "j = i")
      case True
      then show ?thesis
        using rec_matches_trust(1) [OF ri(2)] i(2) ri(1) unfolding k by (simp add: ix fx chunk_update_same)
    next
      case False
      from n(3) j obtain rj where rj: "bd_blockIndex db (hdr_key (chunk (bd_blockindx db) j)) = Some rj" "ob_ipos rj = int (136 * j)"
        "rec_matches (chunk (bd_blockindx db) j) rj" by blast
      with ri(1) r False have "hdr_key (chunk (bd_blockindx db) j) \<noteq> k" by auto
      with rj False show ?thesis unfolding k by (simp add: ix fx chunk_update_other)
    qed
    moreover have "length (bd_blockindx db') = 136 * n" by (simp add: fx n)
    ultimately show ?thesis using ix(2) key unfolding file_inv_def k by blast
  qed
qed

lemma trust_inv:
  assumes inv: "db_inv opts db" and r: "bd_blockIndex db k = Some r" and ip: "ob_ipos r \<ge> - 1"
  defines "db' \<equiv> setBlockFlag k BLOCK_TRUSTED r db"
  shows "db_inv opts db' \<and> contents opts db' = (contents opts db)(k := map_option (\<lambda>(d, _). (d, True)) (contents opts db k))
    \<and> bd_blocksToWrite db' = bd_blocksToWrite db \<and> dom (bd_blockIndex db') = dom (bd_blockIndex db)
    \<and> (room opts s m db \<longrightarrow> room opts s m db')"
proof -
  let ?r = "r\<lparr>ob_trusted := True\<rparr>"
  have I: "cache_inv db" "queue_inv opts db" "disk_inv opts db" "file_inv db" "unat (bd_maxdatfileidx db) < 2 ^ 32 - 1"
    using inv by (simp_all add: db_inv_def)
  have f: "bd_blockIndex db' = (bd_blockIndex db)(k \<mapsto> ?r)" "bd_cache db' = bd_cache db" "bd_blocksToWrite db' = bd_blocksToWrite db"
    "bd_dat db' = bd_dat db" "bd_maxdatfileidx db' = bd_maxdatfileidx db" "bd_maxdatfilepos db' = bd_maxdatfilepos db"
    by (simp_all add: db'_def setBlockFlag_def Let_def)
  have ix: "bd_blockIndex db' j = Some r' \<longleftrightarrow> (\<exists>r0. bd_blockIndex db j = Some r0 \<and> r' = (if j = k then r0\<lparr>ob_trusted := True\<rparr> else r0))" for j r'
    using r by (auto simp: f)
  have "dom (bd_blockIndex db') = dom (bd_blockIndex db)" using r by (auto simp: f)
  then have "cache_inv db'" using I(1) by (simp add: cache_inv_def f(2))
  moreover have "queue_inv opts db'"
    unfolding queue_inv_def f(2,3)
  proof (intro conjI allI impI)
    show "\<forall>b\<in>set (bd_blocksToWrite db). b2w_ok opts b" using I(2) by (simp add: queue_inv_def)
  next
    fix j r' assume "bd_blockIndex db' j = Some r' \<and> ob_ipos r' = - 1"
    then obtain r0 where r0: "bd_blockIndex db j = Some r0" "ob_ipos r0 = - 1" unfolding ix by (auto split: if_splits)
    with I(2) show "j \<in> bw_idx ` set (bd_blocksToWrite db)"
      "\<exists>d. cache_data db j = Some d \<and> (\<forall>b\<in>set (bd_blocksToWrite db). bw_idx b = j \<longrightarrow> bw_data b = d)"
      unfolding queue_inv_def by (blast, blast)
  qed
  moreover have "disk_inv opts db'"
    unfolding disk_inv_def ix
  proof (intro allI impI, elim conjE exE)
    fix j r' r0 assume a: "ob_ipos r' \<noteq> - 1" "bd_blockIndex db j = Some r0" "r' = (if j = k then r0\<lparr>ob_trusted := True\<rparr> else r0)"
    then have "ob_ipos r0 \<noteq> - 1" by (auto split: if_splits)
    with I(3) a(2) have "below r0 (bd_maxdatfileidx db) (bd_maxdatfilepos db) \<and>
      (\<exists>d. disk_data opts r0 (bd_dat db) = Some d \<and> cache_data db j \<in> {None, Some d})" unfolding disk_inv_def by blast
    with a(3) show "below r' (bd_maxdatfileidx db') (bd_maxdatfilepos db') \<and>
      (\<exists>d. disk_data opts r' (bd_dat db') = Some d \<and> cache_data db' j \<in> {None, Some d})"
      by (auto simp: f disk_data_trusted below_def)
  qed
  moreover have "file_inv db'" by (rule trust_file [OF I(4) r _ ip]) (simp add: db'_def)
  ultimately have "db_inv opts db'" using I(5) by (simp add: db_inv_def f)
  moreover have "contents opts db' j = ((contents opts db)(k := map_option (\<lambda>(d, _). (d, True)) (contents opts db k))) j" for j
  proof (cases "j = k")
    case True
    from contents_dom [OF inv r] obtain d where d: "cache_data db k = Some d \<or> cache_data db k = None \<and> disk_data opts r (bd_dat db) = Some d" by blast
    then show ?thesis using True r
      by (elim disjE) (auto simp: contents_def f held_def disk_data_trusted)
  next
    case False
    then show ?thesis by (simp add: contents_def f split: option.split)
  qed
  moreover have "fits_in db' T" if "fits_in db T" for T
    using that unfolding fits_in_def ix by (auto simp: f split: if_splits)
  then have "room opts s m db \<longrightarrow> room opts s m db'" unfolding room_def f by blast
  moreover have "dom (bd_blockIndex db') = dom (bd_blockIndex db)" using r by (auto simp: f)
  ultimately show ?thesis by (auto simp: f)
qed

lemma ipos_cases: "db_inv opts db \<Longrightarrow> bd_blockIndex db k = Some r \<Longrightarrow> ob_ipos r \<ge> - 1"
  by (cases "ob_ipos r = - 1") (auto simp: db_inv_def file_inv_def, smt (verit) of_nat_0_le_iff option.inject)

lemma BlockTrusted_keeps:
  assumes "db_inv opts db"
  shows "db_inv opts (BlockTrusted h db)
    \<and> contents opts (BlockTrusted h db) = (contents opts db)(BIdx h := map_option (\<lambda>(d, _). (d, True)) (contents opts db (BIdx h)))
    \<and> bd_blocksToWrite (BlockTrusted h db) = bd_blocksToWrite db \<and> dom (bd_blockIndex (BlockTrusted h db)) = dom (bd_blockIndex db)
    \<and> (room opts s m db \<longrightarrow> room opts s m (BlockTrusted h db))"
proof (cases "bd_blockIndex db (BIdx h)")
  case None
  then show ?thesis using assms by (simp add: BlockTrusted_def Let_def contents_None fun_upd_idem)
next
  case (Some r)
  show ?thesis
  proof (cases "ob_trusted r")
    case True
    from contents_dom [OF assms Some] obtain d where "contents opts db (BIdx h) = Some (d, True)" by (auto simp: contents_Some [OF Some] True)
    then show ?thesis using assms Some True by (simp add: BlockTrusted_def Let_def fun_upd_idem)
  next
    case False
    then show ?thesis using trust_inv [OF assms Some ipos_cases [OF assms Some]] Some by (simp add: BlockTrusted_def Let_def)
  qed
qed

section \<open>Adding a block\<close>

text \<open>What an addition does to the content: a new block with its flag, or the flag of a known one.\<close>

definition added :: "block \<Rightarrow> (bytes \<Rightarrow> (bytes \<times> bool) option) \<Rightarrow> bytes \<Rightarrow> (bytes \<times> bool) option" where
  "added bl m = m(BIdx (bl_Hash bl) \<mapsto> (case m (BIdx (bl_Hash bl)) of
     None \<Rightarrow> (sl_data (bl_Raw bl), bl_Trusted bl)
   | Some (d, t) \<Rightarrow> (d, t \<or> bl_Trusted bl)))"

lemma BlockAdd_known:
  assumes inv: "db_inv opts db" and r: "bd_blockIndex db (BIdx (bl_Hash bl)) = Some r"
  obtains db' where "BlockAdd opts height bl db = Inr db'" "db_inv opts db'" "contents opts db' = added bl (contents opts db)"
    "bd_blocksToWrite db' = bd_blocksToWrite db" "dom (bd_blockIndex db') = dom (bd_blockIndex db)"
    "\<And>s m. room opts s m db \<Longrightarrow> room opts s m db'"
proof -
  let ?k = "BIdx (bl_Hash bl)"
  from contents_dom [OF inv r] obtain d where d: "contents opts db ?k = Some (d, ob_trusted r)" by (auto simp: contents_Some [OF r])
  show thesis
  proof (cases "\<not> ob_trusted r \<and> bl_Trusted bl")
    case False
    have "(contents opts db)(?k \<mapsto> (d, ob_trusted r \<or> bl_Trusted bl)) = contents opts db"
      using d False by (intro fun_upd_idem) auto
    then show thesis using inv r False d by (intro that [of db]) (auto simp: BlockAdd_def Let_def added_def)
  next
    case True
    let ?db = "setBlockFlag ?k BLOCK_TRUSTED r db"
    have "BlockAdd opts height bl db = Inr ?db"
      using True r by (cases "ob_ipos r = - 1") (simp_all add: BlockAdd_def Let_def BlockTrusted_def, simp add: setBlockFlag_def Let_def)
    then show thesis using trust_inv [OF inv r ipos_cases [OF inv r]] d True by (intro that [of ?db]) (simp_all add: added_def)
  qed
qed

lemma BlockAdd_new:
  assumes inv: "db_inv opts db" and keep: "keeps_files opts" and may: "may_add opts bl db"
    and rm: "room opts (length (on_disk opts (sl_data (bl_Raw bl))) + s) (Suc m) db" and None: "bd_blockIndex db (BIdx (bl_Hash bl)) = None"
  obtains db' where "BlockAdd opts height bl db = Inr db'" "db_inv opts db'" "contents opts db' = added bl (contents opts db)"
    "set (bd_blocksToWrite db') \<subseteq> insert (bl_b2w height bl) (set (bd_blocksToWrite db))" "room opts s m db'"
proof -
  let ?k = "BIdx (bl_Hash bl)" let ?raw = "sl_data (bl_Raw bl)"
  let ?db0 = "db\<lparr>bd_blockIndex := (bd_blockIndex db)(?k \<mapsto> new_bl (bl_Trusted bl))\<rparr>"
  have C: "cache_inv db" using inv by (simp add: db_inv_def)
  then have c0: "cache_inv ?db0" by (auto simp: cache_inv_def)
  have m0: "map_of (bd_cache ?db0) ?k = None" using C None by (auto simp: cache_inv_def map_of_eq_None_iff)
  obtain cs where cs: "addToCache opts (bl_Hash bl) ?raw ?db0 = Inr (\<lparr>cr_Data = ?raw, cr_LastUsed = bd_clock ?db0\<rparr>,
       ?db0\<lparr>bd_clock := Suc (bd_clock ?db0), bd_cache := AList.update ?k \<lparr>cr_Data = ?raw, cr_LastUsed = bd_clock ?db0\<rparr> cs\<rparr>)"
    "fst ` set cs \<subseteq> fst ` set (bd_cache ?db0)"
    "\<And>k. map_of cs k = map_of (bd_cache ?db0) k \<or> map_of cs k = None \<and> (\<exists>r. bd_blockIndex ?db0 k = Some r \<and> ob_ipos r \<noteq> - 1)"
    by (rule addToCache_miss [OF m0 c0, of opts ?raw]) blast
  let ?db1 = "db\<lparr>bd_blockIndex := (bd_blockIndex db)(?k \<mapsto> new_bl (bl_Trusted bl)), bd_clock := Suc (bd_clock db),
    bd_cache := AList.update ?k \<lparr>cr_Data = ?raw, cr_LastUsed = bd_clock db\<rparr> cs, bd_datToWrite := bd_datToWrite db + of_nat (length ?raw),
    bd_blocksToWrite := bd_blocksToWrite db @ [bl_b2w height bl]\<rparr>"
  have add: "BlockAdd opts height bl db = (if length (bd_blocksToWrite ?db1) \<ge> MAX_BLOCKS_TO_WRITE \<or> bd_datToWrite ?db1 \<ge> MAX_DATA_WRITE
    then andThen (writeAll opts ?db1) (\<lambda>(sync, db). if sync then Inr db else Inl (ExplicitPanic ''many to write but nothing stored''))
    else Inr ?db1)"
    using None cs(1) by (simp add: BlockAdd_def Let_def bl_b2w_def)
  have sub: "fst ` set cs \<subseteq> fst ` set (bd_cache db)" using cs(2) by simp
  have cs3: "map_of cs k = map_of (bd_cache db) k \<or> map_of cs k = None \<and>
      (\<exists>r. ((bd_blockIndex db)(?k \<mapsto> new_bl (bl_Trusted bl))) k = Some r \<and> ob_ipos r \<noteq> - 1)" for k using cs(3) [of k] by simp
  from queued_inv [where crec = "\<lparr>cr_Data = ?raw, cr_LastUsed = bd_clock db\<rparr>" and now = "Suc (bd_clock db)"
      and x = "bd_datToWrite db + of_nat (length ?raw)" and height = height, OF inv may rm None sub cs3]
  have Q: "db_inv opts ?db1" "contents opts ?db1 = added bl (contents opts db)" "room opts s m ?db1"
    using contents_None [OF None] by (simp_all add: added_def)
  show thesis
  proof (cases "length (bd_blocksToWrite ?db1) \<ge> MAX_BLOCKS_TO_WRITE \<or> bd_datToWrite ?db1 \<ge> MAX_DATA_WRITE")
    case False
    with add have "BlockAdd opts height bl db = Inr ?db1" by (simp only: if_False)
    from that [OF this Q(1,2) _ Q(3)] show thesis by simp
  next
    case True
    from writeAll_keeps [OF Q(1) keep Q(3)] obtain db' where db': "writeAll opts ?db1 = Inr (bd_blocksToWrite ?db1 \<noteq> [], db')"
      "db_inv opts db'" "contents opts db' = contents opts ?db1" "room opts s m db'" "bd_blocksToWrite db' = []" by blast
    have "BlockAdd opts height bl db = Inr db'" unfolding add if_P [OF True] db'(1) by simp
    from that [OF this db'(2)] db'(3,4,5) Q(2) show thesis by (simp only: empty_subsetI list.set)
  qed
qed

end
