(* ===== verification/BlockDbLoad.thy ===== *)
theory BlockDbLoad
  imports BlockDbFlags
begin

text \<open>
  Opening the database again over the files it wrote gives the same content: every record of the index file is read
  back as the entry it was written from.
\<close>

lemma load_matches:
  assumes m: "rec_matches c r0" and ip: "ob_ipos r0 = int (bd_maxidxfilepos db)" and fi: "ob_datfileidx r0 \<noteq> 0xffffffff"
    and fit: "unat (ob_fpos r0) + unat (ob_blen r0) < 2 ^ 63"
  obtains w x where "load_record c db = (Some w,
    (if ob_datfileidx r0 > bd_maxdatfileidx db
     then db\<lparr>bd_maxdatfileidx := ob_datfileidx r0,
             bd_blockIndex := (bd_blockIndex db)(hdr_key c \<mapsto> r0\<lparr>ob_olen := x\<rparr>),
             bd_maxdatfilepos := unat (ob_fpos r0) + unat (ob_blen r0), bd_maxidxfilepos := bd_maxidxfilepos db + 136\<rparr>
     else db\<lparr>bd_blockIndex := (bd_blockIndex db)(hdr_key c \<mapsto> r0\<lparr>ob_olen := x\<rparr>),
             bd_maxdatfilepos := max (bd_maxdatfilepos db) (unat (ob_fpos r0) + unat (ob_blen r0)),
             bd_maxidxfilepos := bd_maxidxfilepos db + 136\<rparr>))"
proof -
  let ?x = "le_word (take 4 (drop 32 c)) :: u32"
  have f: "c ! 0 AND BLOCK_INVALID = 0" "c ! 0 AND BLOCK_LENGTH \<noteq> 0" "c ! 0 AND BLOCK_INDEX \<noteq> 0"
    "ob_trusted r0 = (c ! 0 AND BLOCK_TRUSTED \<noteq> 0)" "ob_compressed r0 = (c ! 0 AND BLOCK_COMPRSD \<noteq> 0)"
    "ob_snappied r0 = (c ! 0 AND BLOCK_SNAPPED \<noteq> 0)" "ob_datfileidx r0 = le_word (take 4 (drop 28 c))"
    "ob_fpos r0 = le_word (take 8 (drop 40 c))" "ob_blen r0 = le_word (take 4 (drop 48 c))" "?x \<noteq> 0"
    using m by (simp_all add: rec_matches_def)
  have sum: "unat (ob_fpos r0 + ucast (ob_blen r0)) = unat (ob_fpos r0) + unat (ob_blen r0)"
  proof -
    have "unat (ucast (ob_blen r0) :: u64) = unat (ob_blen r0)"
      using unsigned_less [of "ob_blen r0", where 'a=nat] by (simp add: unsigned_ucast_eq take_bit_nat_eq_self)
    then show ?thesis using fit by (subst unat_add_small) simp_all
  qed
  have e: "nat (sint (ob_fpos r0 + ucast (ob_blen r0))) = unat (ob_fpos r0) + unat (ob_blen r0)"
  proof -
    have "int (unat (ob_fpos r0 + ucast (ob_blen r0))) < int (2 ^ 63)" using fit by (simp only: sum of_nat_less_iff)
    then have "uint (ob_fpos r0 + ucast (ob_blen r0)) < 2 ^ 63" by simp
    moreover have "- (2 ^ 63) \<le> uint (ob_fpos r0 + ucast (ob_blen r0))" by (rule order_trans [OF _ unsigned_greater_eq]) simp
    ultimately have "sint (ob_fpos r0 + ucast (ob_blen r0)) = uint (ob_fpos r0 + ucast (ob_blen r0))"
      by (simp add: sint_uint signed_take_bit_int_eq_self)
    then show ?thesis using sum by simp
  qed
  have "?x > 0" using f(10) by (simp add: word_neq_0_conv)
  moreover have "\<lparr>ob_fpos = le_word (take 8 (drop 40 c)), ob_ipos = int (bd_maxidxfilepos db), ob_blen = le_word (take 4 (drop 48 c)), ob_olen = ?x,
      ob_datfileidx = le_word (take 4 (drop 28 c)), ob_trusted = c ! 0 AND BLOCK_TRUSTED \<noteq> 0, ob_compressed = c ! 0 AND BLOCK_COMPRSD \<noteq> 0,
      ob_snappied = c ! 0 AND BLOCK_SNAPPED \<noteq> 0\<rparr> = r0\<lparr>ob_olen := ?x\<rparr>"
    using f(4-9) ip by (cases r0) simp
  ultimately show thesis
    using fi f(1-3,10)
    by (intro that [of _ ?x]) (simp add: load_record_def Let_def e [unfolded f(8,9)] f(7-9))
qed

text \<open>Loading, one record after the other.\<close>

fun loaded :: "bytes \<Rightarrow> block_db \<Rightarrow> nat \<Rightarrow> block_db" where
  "loaded f db 0 = db"
| "loaded f db (Suc i) = snd (load_record (chunk f i) (loaded f db i))"

lemma load_records_loaded:
  assumes "length f = 136 * n" and "i \<le> n"
  shows "snd (load_records (drop (136 * i) f) (loaded f db i)) = loaded f db n"
  using assms(2)
proof (induction "n - i" arbitrary: i)
  case 0
  then show ?case using assms(1) by (subst load_records.simps) simp
next
  case (Suc d)
  then have i: "d = n - Suc i" "Suc i \<le> n" by simp_all
  have "\<not> length (drop (136 * i) f) < 136" using assms(1) i(2) by simp
  moreover have "take 136 (drop (136 * i) f) = chunk f i" by (simp add: chunk_def)
  moreover have "drop 136 (drop (136 * i) f) = drop (136 * Suc i) f" by (simp add: add.commute)
  ultimately show ?case
    using Suc.hyps(1) [OF i]
    by (subst load_records.simps) (simp add: Let_def case_prod_unfold del: drop_drop mult_Suc_right)
qed

definition half_loaded :: "block_db \<Rightarrow> nat \<Rightarrow> block_db \<Rightarrow> bool" where
  "half_loaded db i l \<longleftrightarrow> bd_maxidxfilepos l = 136 * i \<and> bd_cache l = [] \<and> bd_blocksToWrite l = []
   \<and> bd_blockindx l = bd_blockindx db \<and> bd_dat l = bd_dat db
   \<and> (\<forall>k. bd_blockIndex l k \<noteq> None \<longleftrightarrow> (\<exists>j<i. hdr_key (chunk (bd_blockindx db) j) = k))
   \<and> (\<forall>k r. bd_blockIndex l k = Some r \<longrightarrow> below r (bd_maxdatfileidx l) (bd_maxdatfilepos l)
        \<and> (\<exists>r0 x. bd_blockIndex db k = Some r0 \<and> ob_ipos r0 \<noteq> - 1 \<and> r = r0\<lparr>ob_olen := x\<rparr>))
   \<and> bd_maxdatfileidx l \<le> bd_maxdatfileidx db \<and> (\<forall>T. fits_in db T \<longrightarrow> bd_maxdatfilepos l \<le> T)"

lemma below_olen [simp]: "below (r\<lparr>ob_olen := x\<rparr>) i p = below r i p"
  by (simp add: below_def)

lemma half_loaded_step:
  assumes h: "half_loaded db i l" and inv: "disk_inv opts db" and m: "unat (bd_maxdatfileidx db) < 2 ^ 32 - 1"
    and T: "fits_in db T" "T < 2 ^ 63"
    and r0: "bd_blockIndex db (hdr_key (chunk (bd_blockindx db) i)) = Some r0" "ob_ipos r0 = int (136 * i)"
      "rec_matches (chunk (bd_blockindx db) i) r0"
  shows "half_loaded db (Suc i) (snd (load_record (chunk (bd_blockindx db) i) l))"
proof -
  let ?c = "chunk (bd_blockindx db) i"
  let ?e = "unat (ob_fpos r0) + unat (ob_blen r0)"
  have h': "bd_maxidxfilepos l = 136 * i" "bd_cache l = []" "bd_blocksToWrite l = []" "bd_blockindx l = bd_blockindx db" "bd_dat l = bd_dat db"
    "\<And>k. bd_blockIndex l k \<noteq> None \<longleftrightarrow> (\<exists>j<i. hdr_key (chunk (bd_blockindx db) j) = k)"
    "\<And>k r. bd_blockIndex l k = Some r \<Longrightarrow> below r (bd_maxdatfileidx l) (bd_maxdatfilepos l)
        \<and> (\<exists>r0 x. bd_blockIndex db k = Some r0 \<and> ob_ipos r0 \<noteq> - 1 \<and> r = r0\<lparr>ob_olen := x\<rparr>)"
    "bd_maxdatfileidx l \<le> bd_maxdatfileidx db" "\<And>T. fits_in db T \<Longrightarrow> bd_maxdatfilepos l \<le> T"
    using h unfolding half_loaded_def by blast+
  have on: "ob_ipos r0 \<noteq> - 1" using r0(2) by simp
  have b: "below r0 (bd_maxdatfileidx db) (bd_maxdatfilepos db)" using inv r0(1) on unfolding disk_inv_def by blast
  then have le: "ob_datfileidx r0 \<le> bd_maxdatfileidx db" by (auto simp: below_def)
  then have "unat (ob_datfileidx r0) < 2 ^ 32 - 1" using m by (simp add: word_le_nat_alt)
  then have fi: "ob_datfileidx r0 \<noteq> 0xffffffff" by auto
  have fit: "?e < 2 ^ 63" using T r0(1) on by (fastforce simp: fits_in_def)
  have ip: "ob_ipos r0 = int (bd_maxidxfilepos l)" using r0(2) h'(1) by simp
  obtain w x where lr: "load_record ?c l = (Some w,
    (if ob_datfileidx r0 > bd_maxdatfileidx l
     then l\<lparr>bd_maxdatfileidx := ob_datfileidx r0, bd_blockIndex := (bd_blockIndex l)(hdr_key ?c \<mapsto> r0\<lparr>ob_olen := x\<rparr>),
             bd_maxdatfilepos := ?e, bd_maxidxfilepos := bd_maxidxfilepos l + 136\<rparr>
     else l\<lparr>bd_blockIndex := (bd_blockIndex l)(hdr_key ?c \<mapsto> r0\<lparr>ob_olen := x\<rparr>),
             bd_maxdatfilepos := max (bd_maxdatfilepos l) ?e, bd_maxidxfilepos := bd_maxidxfilepos l + 136\<rparr>))"
    by (rule load_matches [OF r0(3) ip fi fit]) blast
  define l' where "l' = snd (load_record ?c l)"
  have ix: "bd_blockIndex l' = (bd_blockIndex l)(hdr_key ?c \<mapsto> r0\<lparr>ob_olen := x\<rparr>)" by (simp add: l'_def lr)
  have same: "bd_maxidxfilepos l' = 136 * Suc i" "bd_cache l' = []" "bd_blocksToWrite l' = []" "bd_blockindx l' = bd_blockindx db"
    "bd_dat l' = bd_dat db" by (simp_all add: l'_def lr h'(1-5))
  have pos: "bd_maxdatfileidx l' = max (bd_maxdatfileidx l) (ob_datfileidx r0)"
    "bd_maxdatfilepos l' = (if ob_datfileidx r0 > bd_maxdatfileidx l then ?e else max (bd_maxdatfilepos l) ?e)"
    by (auto simp: l'_def lr max_def)
  have "below r (bd_maxdatfileidx l') (bd_maxdatfilepos l')" if "below r (bd_maxdatfileidx l) (bd_maxdatfilepos l) \<or> r = r0" for r
    using that by (auto simp: below_def pos max_def not_less)
  with h'(7) r0(1) on have k: "\<And>k r. bd_blockIndex l' k = Some r \<Longrightarrow> below r (bd_maxdatfileidx l') (bd_maxdatfilepos l')
        \<and> (\<exists>r0 x. bd_blockIndex db k = Some r0 \<and> ob_ipos r0 \<noteq> - 1 \<and> r = r0\<lparr>ob_olen := x\<rparr>)"
    by (auto simp: ix split: if_splits)
  have "bd_blockIndex l' k \<noteq> None \<longleftrightarrow> (\<exists>j<Suc i. hdr_key (chunk (bd_blockindx db) j) = k)" for k
    using h'(6) [of k] by (auto simp: ix less_Suc_eq)
  moreover have "bd_maxdatfilepos l' \<le> T" if "fits_in db T" for T
    using h'(9) [OF that] that r0(1) on by (auto simp: pos fits_in_def)
  moreover have "bd_maxdatfileidx l' \<le> bd_maxdatfileidx db" using h'(8) le by (simp add: pos)
  ultimately show ?thesis
    using same k unfolding half_loaded_def l'_def [symmetric] by blast
qed

lemma half_loaded_all:
  assumes "db_inv opts db" and "bd_blocksToWrite db = []" and T: "fits_in db T" "T < 2 ^ 63"
  obtains n where "length (bd_blockindx db) = 136 * n" "half_loaded db n (loaded (bd_blockindx db) (NewBlockDBExt (bd_blockindx db) (bd_dat db)) n)"
    "\<forall>k r. bd_blockIndex db k = Some r \<longrightarrow> (\<exists>i<n. hdr_key (chunk (bd_blockindx db) i) = k)"
    "\<forall>i<n. \<exists>r. bd_blockIndex db (hdr_key (chunk (bd_blockindx db) i)) = Some r \<and> ob_ipos r = int (136 * i)
        \<and> rec_matches (chunk (bd_blockindx db) i) r"
proof -
  have I: "queue_inv opts db" "disk_inv opts db" "file_inv db" "unat (bd_maxdatfileidx db) < 2 ^ 32 - 1"
    using assms(1) by (simp_all add: db_inv_def)
  from I(3) obtain n where n: "length (bd_blockindx db) = 136 * n"
      "\<forall>i<n. \<exists>r. bd_blockIndex db (hdr_key (chunk (bd_blockindx db) i)) = Some r \<and> ob_ipos r = int (136 * i)
        \<and> rec_matches (chunk (bd_blockindx db) i) r"
      "\<forall>k r. bd_blockIndex db k = Some r \<and> ob_ipos r \<noteq> - 1 \<longrightarrow> (\<exists>i<n. hdr_key (chunk (bd_blockindx db) i) = k)"
      unfolding file_inv_def by blast
  have on: "ob_ipos r \<noteq> - 1" if "bd_blockIndex db k = Some r" for k r
    using I(1) that assms(2) unfolding queue_inv_def by force
  have "half_loaded db i (loaded (bd_blockindx db) (NewBlockDBExt (bd_blockindx db) (bd_dat db)) i)" if "i \<le> n" for i
    using that
  proof (induction i)
    case 0
    show ?case by (auto simp: half_loaded_def NewBlockDBExt_def)
  next
    case (Suc i)
    then have "i < n" by simp
    with n(2) obtain r0 where "bd_blockIndex db (hdr_key (chunk (bd_blockindx db) i)) = Some r0" "ob_ipos r0 = int (136 * i)"
      "rec_matches (chunk (bd_blockindx db) i) r0" by blast
    from half_loaded_step [OF Suc.IH I(2,4) T this] Suc.prems show ?case by simp
  qed
  with n on show thesis by (intro that [of n]) blast+
qed

lemma remove_old_backup: "bo_data_files_backup opts \<Longrightarrow> remove_old opts n i dat = dat"
  by (induction n arbitrary: i) (simp_all add: removeDatFile_def Let_def)

lemma LoadBlockIndex_loaded:
  fixes dat :: "u32 \<Rightarrow> bytes option"
  assumes "keeps_files opts" and "length f = 136 * n"
  defines "l \<equiv> loaded f (NewBlockDBExt f dat) n"
  shows "snd (LoadBlockIndex opts (NewBlockDBExt f dat)) =
    l\<lparr>bd_dat := (if bd_dat l (bd_maxdatfileidx l) = None then (bd_dat l)(bd_maxdatfileidx l \<mapsto> []) else bd_dat l)\<rparr>"
proof -
  have "(NewBlockDBExt f dat)\<lparr>bd_maxidxfilepos := 0\<rparr> = NewBlockDBExt f dat" "bd_blockindx (NewBlockDBExt f dat) = f"
    by (simp_all add: NewBlockDBExt_def)
  moreover have "snd (load_records f (NewBlockDBExt f dat)) = l"
    using load_records_loaded [OF assms(2), of 0 "NewBlockDBExt f dat"] by (simp add: l_def)
  moreover have "(if bo_data_files_keep opts \<noteq> 0 \<and> i > bo_data_files_keep opts
      then remove_old opts 3 (i - bo_data_files_keep opts) d else d) = d" for i d
    using assms(1) by (auto simp: keeps_files_def remove_old_backup)
  ultimately show ?thesis by (simp add: LoadBlockIndex_def Let_def case_prod_unfold)
qed

definition reopened :: "bdb_opts \<Rightarrow> block_db \<Rightarrow> block_db" where
  "reopened opts db = snd (LoadBlockIndex opts (NewBlockDBExt (bd_blockindx db) (bd_dat db)))"

lemma reopen_keeps:
  assumes inv: "db_inv opts db" and keep: "keeps_files opts" and q: "bd_blocksToWrite db = []"
    and rm: "room opts s m db"
  shows "db_inv opts (reopened opts db) \<and> contents opts (reopened opts db) = contents opts db \<and> bd_blocksToWrite (reopened opts db) = []
    \<and> room opts s m (reopened opts db)"
proof -
  let ?f = "bd_blockindx db"
  from rm obtain T where T: "fits_in db T" "T < 2 ^ 63" unfolding room_def by force
  obtain n where n: "length ?f = 136 * n" "half_loaded db n (loaded ?f (NewBlockDBExt ?f (bd_dat db)) n)"
    "\<forall>k r. bd_blockIndex db k = Some r \<longrightarrow> (\<exists>i<n. hdr_key (chunk ?f i) = k)"
    "\<forall>i<n. \<exists>r. bd_blockIndex db (hdr_key (chunk ?f i)) = Some r \<and> ob_ipos r = int (136 * i) \<and> rec_matches (chunk ?f i) r"
    by (rule half_loaded_all [OF inv q T]) blast
  define l where "l = loaded ?f (NewBlockDBExt ?f (bd_dat db)) n"
  have l: "bd_maxidxfilepos l = 136 * n" "bd_cache l = []" "bd_blocksToWrite l = []" "bd_blockindx l = ?f" "bd_dat l = bd_dat db"
    "\<And>k. bd_blockIndex l k \<noteq> None \<longleftrightarrow> (\<exists>j<n. hdr_key (chunk ?f j) = k)"
    "\<And>k r. bd_blockIndex l k = Some r \<Longrightarrow> below r (bd_maxdatfileidx l) (bd_maxdatfilepos l)"
    "\<And>k r. bd_blockIndex l k = Some r \<Longrightarrow> \<exists>r0 x. bd_blockIndex db k = Some r0 \<and> ob_ipos r0 \<noteq> - 1 \<and> r = r0\<lparr>ob_olen := x\<rparr>"
    "bd_maxdatfileidx l \<le> bd_maxdatfileidx db" "\<And>T. fits_in db T \<Longrightarrow> bd_maxdatfilepos l \<le> T"
    using n(2) unfolding half_loaded_def l_def [symmetric] by blast+
  let ?dat = "if bd_dat l (bd_maxdatfileidx l) = None then (bd_dat l)(bd_maxdatfileidx l \<mapsto> []) else bd_dat l"
  have re: "reopened opts db = l\<lparr>bd_dat := ?dat\<rparr>"
    unfolding reopened_def LoadBlockIndex_loaded [OF keep n(1)] l_def by simp
  define d where "d = reopened opts db"
  have f: "bd_maxidxfilepos d = 136 * n" "bd_cache d = []" "bd_blocksToWrite d = []" "bd_blockindx d = ?f" "bd_dat d = ?dat"
    "bd_blockIndex d = bd_blockIndex l" "bd_maxdatfileidx d = bd_maxdatfileidx l" "bd_maxdatfilepos d = bd_maxdatfilepos l"
    by (simp_all add: d_def re l)
  have I: "disk_inv opts db" "unat (bd_maxdatfileidx db) < 2 ^ 32 - 1" using inv by (simp_all add: db_inv_def)
  have data: "\<exists>x. disk_data opts r0 (bd_dat d) = Some x \<and> disk_data opts r0 (bd_dat db) = Some x" if "bd_blockIndex db k = Some r0" "ob_ipos r0 \<noteq> - 1" for k r0
  proof -
    from I(1) that obtain x where x: "disk_data opts r0 (bd_dat db) = Some x" unfolding disk_inv_def by blast
    moreover have "disk_data opts r0 (bd_dat d) = Some x" using x by (auto simp: f(5) l(5) disk_data_Some)
    ultimately show ?thesis by blast
  qed
  have "cache_inv d" by (simp add: cache_inv_def f)
  moreover have on: "ob_ipos r \<noteq> - 1" if "bd_blockIndex d k = Some r" for k r using l(8) [of k r] that by (auto simp: f)
  then have "queue_inv opts d" by (auto simp: queue_inv_def f)
  moreover have "disk_inv opts d"
    unfolding disk_inv_def
  proof (intro allI impI, elim conjE)
    fix k r assume a: "bd_blockIndex d k = Some r" "ob_ipos r \<noteq> - 1"
    then have k: "bd_blockIndex l k = Some r" by (simp add: f)
    from l(8) [OF k] obtain r0 x where r0: "bd_blockIndex db k = Some r0" "ob_ipos r0 \<noteq> - 1" "r = r0\<lparr>ob_olen := x\<rparr>" by blast
    from data [OF r0(1,2)] obtain y where "disk_data opts r0 (bd_dat d) = Some y" by blast
    then show "below r (bd_maxdatfileidx d) (bd_maxdatfilepos d) \<and> (\<exists>y. disk_data opts r (bd_dat d) = Some y \<and> cache_data d k \<in> {None, Some y})"
      using l(7) [OF k] r0(3) by (simp add: f(2,7,8) disk_data_olen)
  qed
  moreover have "file_inv d"
  proof -
    have 1: "\<exists>r. bd_blockIndex d (hdr_key (chunk ?f i)) = Some r \<and> ob_ipos r = int (136 * i) \<and> rec_matches (chunk ?f i) r" if "i < n" for i
    proof -
      from l(6) that obtain r where r: "bd_blockIndex l (hdr_key (chunk ?f i)) = Some r" by blast
      from l(8) [OF r] obtain r0 x where r0: "bd_blockIndex db (hdr_key (chunk ?f i)) = Some r0" "r = r0\<lparr>ob_olen := x\<rparr>" by blast
      with n(4) that have "ob_ipos r0 = int (136 * i)" "rec_matches (chunk ?f i) r0" by auto
      with r r0 show ?thesis by (simp add: f rec_matches_def)
    qed
    have "\<exists>i<n. hdr_key (chunk ?f i) = k" if "bd_blockIndex d k = Some r" for k r using that l(6) [of k] by (simp add: f)
    with 1 n(1) show ?thesis unfolding file_inv_def f(1,4) by blast
  qed
  moreover have "unat (bd_maxdatfileidx d) < 2 ^ 32 - 1" using I(2) l(9) by (simp add: f word_le_nat_alt)
  ultimately have inv': "db_inv opts d" by (simp add: db_inv_def)
  have "contents opts d k = contents opts db k" for k
  proof (cases "bd_blockIndex db k")
    case None
    then have "bd_blockIndex d k = None" using l(8) [of k] by (cases "bd_blockIndex l k") (auto simp: f)
    then show ?thesis using None by (simp add: contents_None)
  next
    case (Some r0)
    then obtain r where r: "bd_blockIndex l k = Some r" using n(3) l(6) [of k] by blast
    from l(8) [OF r] Some obtain x where r0: "r = r0\<lparr>ob_olen := x\<rparr>" "ob_ipos r0 \<noteq> - 1" by auto
    from data [OF Some r0(2)] obtain y where y: "disk_data opts r0 (bd_dat d) = Some y" "disk_data opts r0 (bd_dat db) = Some y" by blast
    have "contents opts d k = Some (y, ob_trusted r0)"
      using r y by (simp add: contents_def f(2,6) r0 held_olen) (simp add: held_def)
    moreover have "contents opts db k = Some (y, ob_trusted r0)"
      using contents_dom [OF inv Some] I(1) Some r0(2) y unfolding disk_inv_def contents_Some [OF Some] by fastforce
    ultimately show ?thesis by simp
  qed
  moreover have "room opts s m d"
  proof -
    have "fits_in d T" if "fits_in db T" for T
      using l(8,10) that unfolding fits_in_def f by fastforce
    then show ?thesis using rm l(9) unfolding room_def f(3,7) q by (auto simp: word_le_nat_alt)
  qed
  ultimately show ?thesis using inv' f(3) unfolding d_def by blast
qed

end
