(* ===== verification/BlockDbSpec.thy ===== *)
theory BlockDbSpec
  imports BlockDbLoad
begin

text \<open>
  The database of blocks against its specification: a map from keys to the bytes of a block and its flag. A run of
  operations of the database gives what the same operations on the map give, whatever is cached, queued, written,
  rolled over to a new data file or loaded again. The simulation is stated once, in a locale.
\<close>

section \<open>Runs and simulations\<close>

fun exec :: "('op \<Rightarrow> 's \<Rightarrow> 'e + 'o \<times> 's) \<Rightarrow> 'op list \<Rightarrow> 's \<Rightarrow> 'e + 'o list \<times> 's" where
  "exec step [] s = Inr ([], s)"
| "exec step (x # xs) s = andThen (step x s) (\<lambda>(y, s). andThen (exec step xs s) (\<lambda>(ys, s). Inr (y # ys, s)))"

fun exec_spec :: "('op \<Rightarrow> 'a \<Rightarrow> 'o \<times> 'a) \<Rightarrow> 'op list \<Rightarrow> 'a \<Rightarrow> 'o list \<times> 'a" where
  "exec_spec spec [] m = ([], m)"
| "exec_spec spec (x # xs) m = (let (y, m) = spec x m; (ys, m) = exec_spec spec xs m in (y # ys, m))"

locale simulation =
  fixes step :: "'op \<Rightarrow> 's \<Rightarrow> 'e + 'o \<times> 's" and spec :: "'op \<Rightarrow> 'a \<Rightarrow> 'o \<times> 'a"
    and content :: "'s \<Rightarrow> 'a" and ok :: "'op list \<Rightarrow> 's \<Rightarrow> bool"
  assumes sim: "ok (x # xs) s \<Longrightarrow>
    \<exists>s'. step x s = Inr (fst (spec x (content s)), s') \<and> content s' = snd (spec x (content s)) \<and> ok xs s'"
begin

lemma run:
  "ok xs s \<Longrightarrow> \<exists>s'. exec step xs s = Inr (fst (exec_spec spec xs (content s)), s') \<and> content s' = snd (exec_spec spec xs (content s)) \<and> ok [] s'"
proof (induction xs arbitrary: s)
  case (Cons x xs)
  from sim [OF Cons.prems] obtain s' where s': "step x s = Inr (fst (spec x (content s)), s')"
    "content s' = snd (spec x (content s))" "ok xs s'" by blast
  from Cons.IH [OF s'(3)] s'(1,2) show ?case by (auto simp: case_prod_unfold Let_def)
qed simp

end

section \<open>Operations\<close>

datatype db_op = OpAdd u32 block | OpTrust bytes | OpGet bytes | OpIdle | OpReopen

type_synonym db_answer = "(bytes option \<times> bool \<times> bdb_error option) option"

text \<open>\<open>Idle\<close> and \<open>Close\<close> write what is queued; opening again starts from the files alone.\<close>

fun db_step :: "bdb_opts \<Rightarrow> db_op \<Rightarrow> block_db \<Rightarrow> go_panic + db_answer \<times> block_db" where
  "db_step opts (OpAdd height bl) db = andThen (BlockAdd opts height bl db) (\<lambda>db. Inr (None, db))"
| "db_step opts (OpTrust h) db = Inr (None, BlockTrusted h db)"
| "db_step opts (OpGet h) db = andThen (BlockGet opts h db) (\<lambda>(a, db). Inr (Some a, db))"
| "db_step opts OpIdle db = andThen (writeAll opts db) (\<lambda>(_, db). Inr (None, db))"
| "db_step opts OpReopen db = andThen (writeAll opts db) (\<lambda>(_, db). Inr (None, reopened opts db))"

fun db_spec :: "db_op \<Rightarrow> (bytes \<Rightarrow> (bytes \<times> bool) option) \<Rightarrow> db_answer \<times> (bytes \<Rightarrow> (bytes \<times> bool) option)" where
  "db_spec (OpAdd height bl) m = (None, added bl m)"
| "db_spec (OpTrust h) m = (None, m(BIdx h := map_option (\<lambda>(d, _). (d, True)) (m (BIdx h))))"
| "db_spec (OpGet h) m = (Some (case m (BIdx h) of None \<Rightarrow> (None, False, Some NotInIndex) | Some (d, t) \<Rightarrow> (Some d, t, None)), m)"
| "db_spec OpIdle m = (None, m)"
| "db_spec OpReopen m = (None, m)"

text \<open>What a run asks: every block that is added fits, and there is room for all of them.\<close>

fun put_size :: "bdb_opts \<Rightarrow> db_op \<Rightarrow> nat" where
  "put_size opts (OpAdd _ bl) = length (on_disk opts (sl_data (bl_Raw bl)))"
| "put_size opts _ = 0"

fun put_fits :: "bdb_opts \<Rightarrow> db_op \<Rightarrow> bool" where
  "put_fits opts (OpAdd _ bl) = b2w_ok opts (bl_b2w 0 bl)"
| "put_fits opts _ = True"

definition run_ok :: "bdb_opts \<Rightarrow> db_op list \<Rightarrow> block_db \<Rightarrow> bool" where
  "run_ok opts ops db \<longleftrightarrow> keeps_files opts \<and> db_inv opts db
     \<and> (\<forall>b\<in>set (bd_blocksToWrite db). contents opts db (bw_idx b) \<noteq> None)
     \<and> (\<forall>op\<in>set ops. put_fits opts op)
     \<and> room opts (sum_list (map (put_size opts) ops)) (length ops) db"

lemma contents_iff: "db_inv opts db \<Longrightarrow> contents opts db k = None \<longleftrightarrow> bd_blockIndex db k = None"
  using contents_dom [of opts db k] by (cases "bd_blockIndex db k") (auto simp: contents_Some contents_None)

lemma run_ok_writeAll:
  assumes ok: "run_ok opts (x # ops) db" and x: "put_size opts x = 0"
  obtains db' where "writeAll opts db = Inr (bd_blocksToWrite db \<noteq> [], db')" "contents opts db' = contents opts db"
    "bd_blocksToWrite db' = []" "run_ok opts ops db'"
proof -
  have I: "db_inv opts db" "keeps_files opts" "\<forall>op\<in>set ops. put_fits opts op" using ok by (simp_all add: run_ok_def)
  have rm: "room opts (sum_list (map (put_size opts) ops)) (length ops) db"
    using ok room_mono [of opts 0 "sum_list (map (put_size opts) ops)" 1 "length ops" db] by (simp add: run_ok_def x)
  obtain db' where d: "writeAll opts db = Inr (bd_blocksToWrite db \<noteq> [], db')" "db_inv opts db'"
    "contents opts db' = contents opts db" "room opts (sum_list (map (put_size opts) ops)) (length ops) db'" "bd_blocksToWrite db' = []"
    by (rule writeAll_keeps [OF I(1,2) rm])
  show thesis using d I by (intro that [OF d(1,3,5)]) (simp add: run_ok_def)
qed

lemma db_sim:
  assumes ok: "run_ok opts (x # ops) db"
  shows "\<exists>db'. db_step opts x db = Inr (fst (db_spec x (contents opts db)), db') \<and> contents opts db' = snd (db_spec x (contents opts db)) \<and> run_ok opts ops db'"
proof -
  let ?s = "sum_list (map (put_size opts) ops)"
  have I: "db_inv opts db" "keeps_files opts" "\<forall>b\<in>set (bd_blocksToWrite db). contents opts db (bw_idx b) \<noteq> None"
    "room opts (put_size opts x + ?s) (1 + length ops) db" "\<forall>op\<in>set ops. put_fits opts op" "put_fits opts x"
    using ok by (simp_all add: run_ok_def)
  have rm: "room opts ?s (length ops) db" by (rule room_mono [OF I(4)])
  show ?thesis
  proof (cases x)
    case (OpAdd height bl)
    let ?k = "BIdx (bl_Hash bl)"
    have mono: "added bl m k \<noteq> None" if "m k \<noteq> None" for m k using that by (simp add: added_def)
    show ?thesis
    proof (cases "bd_blockIndex db ?k")
      case None
      have "may_add opts bl db" using I(3,6) None by (auto simp: may_add_def OpAdd contents_None)
      moreover have "room opts (length (on_disk opts (sl_data (bl_Raw bl))) + ?s) (Suc (length ops)) db" using I(4) by (simp add: OpAdd)
      ultimately obtain db' where d: "BlockAdd opts height bl db = Inr db'" "db_inv opts db'" "contents opts db' = added bl (contents opts db)"
        "set (bd_blocksToWrite db') \<subseteq> insert (bl_b2w height bl) (set (bd_blocksToWrite db))" "room opts ?s (length ops) db'"
        by (rule BlockAdd_new [OF I(1,2) _ _ None]) blast
      have "contents opts db' (bw_idx (bl_b2w height bl)) \<noteq> None" by (simp add: d(3) added_def bl_b2w_def)
      then have "\<forall>b\<in>set (bd_blocksToWrite db'). contents opts db' (bw_idx b) \<noteq> None"
        using d(4) I(3) mono unfolding d(3) by blast
      then show ?thesis using d I by (simp add: OpAdd run_ok_def)
    next
      case (Some r)
      obtain db' where d: "BlockAdd opts height bl db = Inr db'" "db_inv opts db'" "contents opts db' = added bl (contents opts db)"
        "bd_blocksToWrite db' = bd_blocksToWrite db" "\<And>s m. room opts s m db \<Longrightarrow> room opts s m db'"
        by (rule BlockAdd_known [OF I(1) Some, of height]) blast
      then have "\<forall>b\<in>set (bd_blocksToWrite db'). contents opts db' (bw_idx b) \<noteq> None" using I(3) mono by simp
      then show ?thesis using d I rm by (simp add: OpAdd run_ok_def)
    qed
  next
    case (OpTrust h)
    from BlockTrusted_keeps [OF I(1), of h ?s "length ops"] I rm show ?thesis by (auto simp: OpTrust run_ok_def)
  next
    case (OpGet h)
    show ?thesis
    proof (cases "contents opts db (BIdx h)")
      case None
      then have "bd_blockIndex db (BIdx h) = None" using contents_iff [OF I(1)] by simp
      then show ?thesis using None I rm by (simp add: OpGet run_ok_def BlockGet_def BlockGetInternal_def)
    next
      case (Some p)
      obtain d t where p: "p = (d, t)" by fastforce
      from BlockGetInternal_contents [OF I(1) Some [unfolded p]] obtain db' where
        g: "BlockGetInternal opts h False db = Inr ((Some d, t, None), db')" "db_inv opts db'" "contents opts db' = contents opts db" "same_files db db'" .
      from same_files_room [OF g(4) rm] g I Some p show ?thesis by (simp add: OpGet run_ok_def BlockGet_def same_files_def)
    qed
  next
    case OpIdle
    have z: "put_size opts x = 0" by (simp add: OpIdle)
    obtain db' where "writeAll opts db = Inr (bd_blocksToWrite db \<noteq> [], db')" "contents opts db' = contents opts db" "run_ok opts ops db'"
      by (rule run_ok_writeAll [OF ok z])
    then show ?thesis by (simp add: OpIdle)
  next
    case OpReopen
    have z: "put_size opts x = 0" by (simp add: OpReopen)
    obtain db' where d: "writeAll opts db = Inr (bd_blocksToWrite db \<noteq> [], db')" "contents opts db' = contents opts db"
      "bd_blocksToWrite db' = []" "run_ok opts ops db'" by (rule run_ok_writeAll [OF ok z])
    have J: "db_inv opts db'" "room opts ?s (length ops) db'" using d(4) by (simp_all add: run_ok_def)
    from reopen_keeps [OF J(1) I(2) d(3) J(2)] J(2) d I show ?thesis by (simp add: OpReopen run_ok_def)
  qed
qed

interpretation blockdb: simulation "db_step opts" db_spec "contents opts" "run_ok opts" for opts
  by unfold_locales (rule db_sim)

text \<open>A new database, over no files.\<close>

definition new_db :: "bdb_opts \<Rightarrow> block_db" where
  "new_db opts = snd (LoadBlockIndex opts (NewBlockDBExt [] (\<lambda>_. None)))"

lemma new_db_ok:
  assumes "keeps_files opts" and "\<forall>op\<in>set ops. put_fits opts op"
    and "sum_list (map (put_size opts) ops) < 2 ^ 63" and "length ops < 2 ^ 32 - 1"
  shows "run_ok opts ops (new_db opts)" and "contents opts (new_db opts) = (\<lambda>_. None)"
proof -
  have n: "new_db opts = (NewBlockDBExt [] (\<lambda>_. None))\<lparr>bd_dat := [0 \<mapsto> []]\<rparr>"
    using LoadBlockIndex_loaded [OF assms(1), of "[]" 0] by (simp add: new_db_def NewBlockDBExt_def)
  have f: "bd_blockIndex (new_db opts) = (\<lambda>_. None)" "bd_cache (new_db opts) = []" "bd_blocksToWrite (new_db opts) = []"
    "bd_blockindx (new_db opts) = []" "bd_maxidxfilepos (new_db opts) = 0" "bd_maxdatfilepos (new_db opts) = 0" "bd_maxdatfileidx (new_db opts) = 0"
    by (simp_all add: n NewBlockDBExt_def)
  have "db_inv opts (new_db opts)"
    by (simp add: db_inv_def cache_inv_def queue_inv_def disk_inv_def file_inv_def f)
  moreover have "fits_in (new_db opts) 0" by (simp add: fits_in_def f)
  then have "room opts (sum_list (map (put_size opts) ops)) (length ops) (new_db opts)"
    using assms(3,4) unfolding room_def f by (intro conjI exI [of _ 0]) simp_all
  ultimately show "run_ok opts ops (new_db opts)" using assms(1,2) by (simp add: run_ok_def f)
  show "contents opts (new_db opts) = (\<lambda>_. None)" by (simp add: contents_def f fun_eq_iff)
qed

end
