(* ===== verification/StoreSpec.thy ===== *)
theory StoreSpec
  imports BlockDbSpec
begin

text \<open>
  The properties of the database of blocks, each with a concrete instance.
\<close>

section \<open>The database is a map\<close>

text \<open>
  C5. The database of blocks is a map: for any sequence of additions, trusted marks, reads, writes and restarts on a
  new database, the reads return what a map from keys to bytes and flags returns, however the blocks are spread over
  the cache, the queue and the data files, and nothing panics.
\<close>

theorem block_db_is_a_map:
  assumes "keeps_files opts" and "\<forall>op\<in>set ops. put_fits opts op"
    and "sum_list (map (put_size opts) ops) < 2 ^ 63" and "length ops < 2 ^ 32 - 1"
  shows "\<exists>db. exec (db_step opts) ops (new_db opts) = Inr (fst (exec_spec db_spec ops (\<lambda>_. None)), db)
    \<and> contents opts db = snd (exec_spec db_spec ops (\<lambda>_. None))"
proof -
  note new = new_db_ok [OF assms]
  from blockdb.run [OF new(1)] show ?thesis unfolding new(2) by blast
qed

definition demo_opts :: bdb_opts where
  "demo_opts = \<lparr>bo_gz = id, bo_MaxCachedBlocks = 1, bo_max_data_file_size = 100, bo_data_files_keep = 1,
     bo_data_files_backup = True, bo_CompressOnDisk = True\<rparr>"

definition demo_block :: "byte \<Rightarrow> block" where
  "demo_block b = zero_block\<lparr>bl_Raw := \<lparr>sl_data = replicate 81 b, sl_spare = []\<rparr>, bl_Hash := Sha2Sum (replicate 80 b)\<rparr>"

lemma demo_keeps: "keeps_files demo_opts"
  by (simp add: keeps_files_def demo_opts_def)

lemma demo_fits: "put_fits demo_opts (OpAdd h (demo_block b))"
proof -
  have "0 \<le> MaxEncodedLen 81" by (simp add: MaxEncodedLen_def)
  moreover have "take 80 (replicate 81 b) = replicate 80 b" by (simp only: take_replicate) simp
  ultimately show ?thesis by (simp add: b2w_ok_def bl_b2w_def demo_block_def)
qed

lemma block_db_is_a_map_witness:
  "\<exists>db. exec (db_step demo_opts) [OpAdd 1 (demo_block 1), OpGet (bl_Hash (demo_block 1)), OpIdle, OpTrust (bl_Hash (demo_block 1)),
      OpReopen, OpGet (bl_Hash (demo_block 1))] (new_db demo_opts)
    = Inr ([None, Some (Some (replicate 81 1), False, None), None, None, None, Some (Some (replicate 81 1), True, None)], db)"
proof -
  let ?ops = "[OpAdd 1 (demo_block 1), OpGet (bl_Hash (demo_block 1)), OpIdle, OpTrust (bl_Hash (demo_block 1)),
      OpReopen, OpGet (bl_Hash (demo_block 1))]"
  have t: "bl_Trusted (demo_block 1) = False" "sl_data (bl_Raw (demo_block 1)) = replicate 81 1"
    by (simp_all add: demo_block_def zero_block_def)
  have "0 \<le> MaxEncodedLen (length (replicate 81 (1 :: byte)))" by (simp add: MaxEncodedLen_def)
  from on_disk_encoded(6) [OF this] have s: "put_size demo_opts (OpAdd 1 (demo_block 1)) < 2 ^ 32" by (simp add: t)
  have "fst (exec_spec db_spec ?ops (\<lambda>_. None))
      = [None, Some (Some (replicate 81 1), False, None), None, None, None, Some (Some (replicate 81 1), True, None)]"
    by (simp add: added_def t)
  moreover have "\<forall>op\<in>set ?ops. put_fits demo_opts op" using demo_fits by simp
  moreover have "sum_list (map (put_size demo_opts) ?ops) < 2 ^ 63" "length ?ops < 2 ^ 32 - 1" using s by simp_all
  ultimately show ?thesis using block_db_is_a_map [OF demo_keeps, of ?ops] by metis
qed

section \<open>Compression\<close>

text \<open>
  C7. What \<open>snappy.Encode\<close> makes of a block, \<open>snappy.Decode\<close> turns back into it: for every input up to the size
  \<open>MaxEncodedLen\<close> admits, the encoder returns, stays within the buffer of that many bytes, and its output is decoded
  to the input.
\<close>

theorem snappy_round_trip:
  assumes "0 \<le> MaxEncodedLen (length src)"
  shows "\<exists>out. Encode src = Inr out \<and> int (length out) \<le> MaxEncodedLen (length src) \<and> Decode out = Inr src"
  by (rule Decode_Encode [OF assms]) blast

lemma snappy_round_trip_witness:
  "\<exists>out. Encode (replicate 100000 7) = Inr out \<and> length out \<le> 116698 \<and> Decode out = Inr (replicate 100000 7)"
proof -
  have m: "MaxEncodedLen (length (replicate 100000 (7 :: byte))) = 116698" by (simp only: length_replicate) (simp add: MaxEncodedLen_def)
  have "(0 :: int) \<le> 116698" by simp
  then have "0 \<le> MaxEncodedLen (length (replicate 100000 (7 :: byte)))" unfolding m .
  from snappy_round_trip [OF this] show ?thesis unfolding m by (metis of_nat_le_iff of_nat_numeral)
qed

section \<open>Two faults\<close>

text \<open>
  C38. A record of an invalid block loses another block: when the index file holds an invalid record and then a good
  one, \<open>LoadBlockIndex\<close> does not count the first, and the next block that is added and written overwrites the
  record of the second.
\<close>

theorem invalid_record_loses_a_block:
  assumes keep: "keeps_files opts" and len: "length c1 = 136" "length c2 = 136"
    and fl: "c1 ! 0 AND 0x02 \<noteq> 0" "c2 ! 0 AND 0x02 = 0"
    and new: "BIdx (bl_Hash bl) \<noteq> BIdx (Sha2Sum (drop 56 c2))"
    and raw: "80 \<le> length (sl_data (bl_Raw bl))" "length (sl_data (bl_Raw bl)) < 16 * 1024 * 1024"
  shows "\<exists>db1 db2 fl. BlockAdd opts height bl (snd (LoadBlockIndex opts (NewBlockDBExt (c1 @ c2) dat))) = Inr db1
    \<and> writeAll opts db1 = Inr (True, db2) \<and> length fl = 136 \<and> drop 56 fl = take 80 (sl_data (bl_Raw bl))
    \<and> bd_blockindx db2 = c1 @ fl"
proof -
  define db0 where "db0 = (NewBlockDBExt (c1 @ c2) dat)\<lparr>bd_maxidxfilepos := 0\<rparr>"
  define l where "l = snd (load_record c2 db0)"
  define db where "db = snd (LoadBlockIndex opts (NewBlockDBExt (c1 @ c2) dat))"
  have "load_record c1 db0 = (None, db0)" using fl(1) by (simp add: load_record_def Let_def)
  then have "snd (load_records (c1 @ c2) db0) = l"
    using len by (subst load_records.simps, subst load_records.simps, subst load_records.simps)
      (simp add: Let_def case_prod_unfold l_def)
  then have db: "db = l\<lparr>bd_dat := bd_dat db\<rparr>"
    by (simp add: db_def LoadBlockIndex_def Let_def case_prod_unfold db0_def NewBlockDBExt_def)
  have l: "bd_cache l = []" "bd_blocksToWrite l = []" "bd_datToWrite l = 0" "bd_blockindx l = c1 @ c2" "bd_maxidxfilepos l = 136"
    "bd_blockIndex l (BIdx (bl_Hash bl)) = None"
    using fl(2) new by (simp_all add: l_def load_record_def Let_def db0_def NewBlockDBExt_def)
  have d: "bd_cache db = []" "bd_blocksToWrite db = []" "bd_datToWrite db = 0" "bd_blockindx db = c1 @ c2" "bd_maxidxfilepos db = 136"
    "bd_blockIndex db (BIdx (bl_Hash bl)) = None"
    by (subst db, simp add: l)+
  let ?raw = "sl_data (bl_Raw bl)"
  define db1 where "db1 = db\<lparr>bd_blockIndex := (bd_blockIndex db)(BIdx (bl_Hash bl) \<mapsto> new_bl (bl_Trusted bl)), bd_clock := Suc (bd_clock db),
    bd_cache := [(BIdx (bl_Hash bl), \<lparr>cr_Data = ?raw, cr_LastUsed = bd_clock db\<rparr>)], bd_datToWrite := of_nat (length ?raw),
    bd_blocksToWrite := [bl_b2w height bl]\<rparr>"
  have u: "unat (of_nat (length ?raw) :: u64) = length ?raw" using raw(2) by (intro unat_of_nat_small) simp
  then have nf: "\<not> (of_nat (length ?raw) :: u64) \<ge> MAX_DATA_WRITE" using raw(2) by (simp add: word_le_nat_alt)
  have add: "BlockAdd opts height bl db = Inr db1"
    using d nf by (simp add: BlockAdd_def Let_def addToCache_def evict.simps max_cached_blocks_def db1_def bl_b2w_def)
  have q: "bd_blocksToWrite db1 = [bl_b2w height bl]" "bd_blockIndex db1 (bw_idx (bl_b2w height bl)) = Some (new_bl (bl_Trusted bl))"
    "ob_ipos (new_bl (bl_Trusted bl)) = - 1" "80 \<le> length (bw_data (bl_b2w height bl))"
    "0 \<le> MaxEncodedLen (length (bw_data (bl_b2w height bl)))"
    using raw by (simp_all add: db1_def bl_b2w_def new_bl_def MaxEncodedLen_def)
  obtain i pos dat' f where w: "index_record (written_rec opts (new_bl (bl_Trusted bl)) (bl_b2w height bl) (bd_maxidxfilepos db1) i pos) (bl_b2w height bl) = Inr f"
    "writeOne opts db1 = Inr (True, written_db opts db1 (bl_b2w height bl) []
       (written_rec opts (new_bl (bl_Trusted bl)) (bl_b2w height bl) (bd_maxidxfilepos db1) i pos) f i pos dat')"
    by (rule writeOne_writes [OF keep q]) blast
  let ?db2 = "written_db opts db1 (bl_b2w height bl) []
       (written_rec opts (new_bl (bl_Trusted bl)) (bl_b2w height bl) (bd_maxidxfilepos db1) i pos) f i pos dat'"
  have f: "length f = 136" "drop 56 f = take 80 ?raw"
    using index_record_fields [OF q(4), of "written_rec opts (new_bl (bl_Trusted bl)) (bl_b2w height bl) (bd_maxidxfilepos db1) i pos"] w(1)
    by (metis bl_b2w_def old.sum.inject(2) one_b2w.select_convs(3))+
  have "bd_blockindx db1 = c1 @ c2" "bd_maxidxfilepos db1 = 136" by (simp_all add: db1_def d)
  then have "bd_blockindx ?db2 = c1 @ f" using len f(1) by (simp add: written_db_def write_at_def)
  moreover have "writeAll opts db1 = Inr (True, ?db2)" by (simp add: writeAll_def q(1) w(2))
  ultimately show ?thesis using add f unfolding db_def by blast
qed

lemma invalid_record_loses_a_block_witness:
  "\<exists>db1 db2 fl. BlockAdd demo_opts 7 ((demo_block 1)\<lparr>bl_Hash := []\<rparr>)
      (snd (LoadBlockIndex demo_opts (NewBlockDBExt (replicate 136 2 @ replicate 136 0) (\<lambda>_. Some [])))) = Inr db1
    \<and> writeAll demo_opts db1 = Inr (True, db2) \<and> length fl = 136
    \<and> drop 56 fl = take 80 (sl_data (bl_Raw ((demo_block 1)\<lparr>bl_Hash := []\<rparr>))) \<and> bd_blockindx db2 = replicate 136 2 @ fl"
proof (rule invalid_record_loses_a_block [OF demo_keeps])
  have "length (BIdx (Sha2Sum (drop 56 (replicate 136 0)))) = 8" by (simp add: BIdx_def)
  then show "BIdx (bl_Hash ((demo_block 1)\<lparr>bl_Hash := []\<rparr>)) \<noteq> BIdx (Sha2Sum (drop 56 (replicate 136 0)))"
    by (intro notI) (simp add: BIdx_def, metis length_Sha2Sum list.size(3) zero_neq_numeral)
qed (simp_all add: demo_block_def zero_block_def)

text \<open>
  Marking a block invalid twice panics: \<open>setBlockFlag\<close> sets the flag of a trusted block for an invalid one too,
  so the first call succeeds and the second takes the block for a trusted one.
\<close>

theorem invalid_twice_panics:
  assumes "bd_blockIndex db (BIdx h) = Some r" and "\<not> ob_trusted r" and "ob_ipos r \<noteq> - 1"
  shows "\<exists>db'. BlockInvalid h db = Inr db' \<and> BlockInvalid h db' = Inl (ExplicitPanic ''Trusted block cannot be invalid'')"
  using assms by (simp add: BlockInvalid_def Let_def setBlockFlag_def)

lemma invalid_twice_panics_witness:
  "\<exists>db'. BlockInvalid [1] ((new_db demo_opts)\<lparr>bd_blockIndex := [[1] \<mapsto> (new_bl False)\<lparr>ob_ipos := 0\<rparr>]\<rparr>) = Inr db'
    \<and> BlockInvalid [1] db' = Inl (ExplicitPanic ''Trusted block cannot be invalid'')"
  by (rule invalid_twice_panics [where r = "(new_bl False)\<lparr>ob_ipos := 0\<rparr>"]) (simp_all add: BIdx_def new_bl_def)

end
