(* ===== verification/TreeSpec.thy ===== *)
theory TreeSpec
  imports BlockCheckLaws BlockTreeOps StoreSpec
begin

text \<open>
  The properties of the tree of blocks and of the checks of a block, each with a concrete instance.
\<close>

section \<open>A tree\<close>

text \<open>The root has two children, the second of which has one.\<close>

definition demo_hash :: "byte \<Rightarrow> bytes" where
  "demo_hash k = replicate 32 k"

definition demo_header :: "u32 \<Rightarrow> bytes \<Rightarrow> bytes" where
  "demo_header t prev = [1, 0, 0, 0] @ prev @ replicate 32 0 @ le_bytes 4 t @ [0xff, 0xff, 0x7f, 0x20] @ [0, 0, 0, 0]"

definition demo_node :: "byte \<Rightarrow> u32 \<Rightarrow> byte \<Rightarrow> nat option \<Rightarrow> nat list \<Rightarrow> tree_node" where
  "demo_node k ht prev p cs = \<lparr>tn_BlockHash = demo_hash k, tn_Height = ht, tn_Parent = p, tn_Childs = cs, tn_BlockSize = 0, tn_TxCount = 0,
     tn_SigopsCost = 0, tn_BlockHeader = demo_header (1000 + ucast k) (demo_hash prev)\<rparr>"

definition demo_utxo :: utxo_db where
  "demo_utxo = \<lparr>ud_Map = (\<lambda>_. None), ud_LastBlockHash = Some (demo_hash 2), ud_LastBlockHeight = 1, ud_Undo = (\<lambda>_. None),
     ud_UnwindBufLen = 256, ud_Dirty = False\<rparr>"

definition demo_chain :: chain where
  "demo_chain = \<lparr>ch_Blocks = NewBlockDBExt [] (\<lambda>_. None), ch_Unspent = demo_utxo,
     ch_nodes = [0 \<mapsto> demo_node 1 0 0 None [1, 2], 1 \<mapsto> demo_node 2 1 1 (Some 0) [], 2 \<mapsto> demo_node 3 1 1 (Some 0) [3],
       3 \<mapsto> demo_node 4 2 3 (Some 2) []],
     ch_next = 4, ch_BlockTreeRoot = 0, ch_blockTreeEnd = 1, ch_Genesis = demo_hash 1,
     ch_BlockIndex = [replicate 8 1 \<mapsto> 0, replicate 8 2 \<mapsto> 1, replicate 8 3 \<mapsto> 2, replicate 8 4 \<mapsto> 3],
     ch_Consensus = (new_consensus (demo_hash 1))\<lparr>co_MaxPOWBits := 0x207fffff\<rparr>\<rparr>"

lemma demo_BIdx: "BIdx (demo_hash k) = replicate 8 k"
  by (simp add: BIdx_def demo_hash_def)

lemma demo_nodes:
  "ch_nodes demo_chain 0 = Some (demo_node 1 0 0 None [1, 2])" "ch_nodes demo_chain (Suc 0) = Some (demo_node 2 1 1 (Some 0) [])"
  "ch_nodes demo_chain 2 = Some (demo_node 3 1 1 (Some 0) [3])" "ch_nodes demo_chain 3 = Some (demo_node 4 2 3 (Some 2) [])"
  "a \<ge> 4 \<Longrightarrow> ch_nodes demo_chain a = None"
  by (simp_all add: demo_chain_def)

lemma replicate_8_eq: "replicate 8 (a :: byte) = replicate 8 b \<longleftrightarrow> a = b"
  by (metis replicate_eq_replicate zero_neq_numeral)

lemma demo_index:
  "ch_BlockIndex demo_chain k = (if k = replicate 8 4 then Some 3 else if k = replicate 8 3 then Some 2 else if k = replicate 8 2 then Some 1
     else if k = replicate 8 1 then Some 0 else None)"
  by (simp add: demo_chain_def)

lemma demo_live: "live demo_chain a \<longleftrightarrow> a \<in> {0, 1, 2, 3}"
proof
  assume "live demo_chain a"
  then show "a \<in> {0, 1, 2, 3}" by (auto simp: live_def demo_index split: if_splits)
next
  have "ch_BlockIndex demo_chain (replicate 8 1) = Some 0" "ch_BlockIndex demo_chain (replicate 8 2) = Some 1"
    "ch_BlockIndex demo_chain (replicate 8 3) = Some 2" "ch_BlockIndex demo_chain (replicate 8 4) = Some 3"
    by (simp_all add: demo_index replicate_8_eq)
  moreover assume "a \<in> {0, 1, 2, 3}"
  ultimately show "live demo_chain a" by (auto simp: live_def)
qed

lemma demo_node_simps [simp]: "tn_BlockHash (demo_node k h q p cs) = demo_hash k" "tn_Height (demo_node k h q p cs) = h"
    "tn_Parent (demo_node k h q p cs) = p" "tn_Childs (demo_node k h q p cs) = cs"
  by (simp_all add: demo_node_def)

lemma demo_chain_simps [simp]: "ch_BlockTreeRoot demo_chain = 0" "ch_blockTreeEnd demo_chain = 1" "ch_next demo_chain = 4"
  by (simp_all add: demo_chain_def)

lemma demo_tree: "tree_inv demo_chain"
proof -
  have "(\<exists>x. ch_nodes demo_chain a = Some x \<and> BIdx (tn_BlockHash x) = k) \<and> childs_ok (ch_nodes demo_chain) (live demo_chain) a
      \<and> (a \<noteq> 0 \<longrightarrow> parent_ok (ch_nodes demo_chain) (live demo_chain) a)" if "ch_BlockIndex demo_chain k = Some a" for k a
  proof -
    from that consider "k = replicate 8 4" "a = 3" | "k = replicate 8 3" "a = 2" | "k = replicate 8 2" "a = 1" | "k = replicate 8 1" "a = 0"
      by (auto simp: demo_index split: if_splits)
    then show ?thesis by cases (simp_all add: demo_nodes demo_live demo_BIdx childs_ok_def parent_ok_def)
  qed
  then show ?thesis unfolding tree_inv_def demo_chain_simps by (auto simp: demo_live demo_nodes)
qed

section \<open>Walking the tree\<close>

text \<open>
  C24. \<open>FindPathTo\<close> returns the next block on the way: from a block to one below it, without a panic and without
  running on, it gives the child of the first that the second descends from.
\<close>

theorem next_block_towards:
  assumes "tree_inv ch" and "live ch e" and "anc (ch_nodes ch) n e" and "n \<noteq> e"
  shows "\<exists>c z. FindPathTo (ch_nodes ch) n e = Some (Inr (Some c)) \<and> live ch c \<and> ch_nodes ch c = Some z \<and> tn_Parent z = Some n
    \<and> anc (ch_nodes ch) c e"
  by (rule FindPathTo_found [OF assms]) blast

lemma demo_anc: "anc (ch_nodes demo_chain) 2 3" "anc (ch_nodes demo_chain) 0 2" "anc (ch_nodes demo_chain) 0 1"
  by (auto intro!: anc_child simp: demo_nodes)

lemma next_block_towards_witness:
  "\<exists>c z. FindPathTo (ch_nodes demo_chain) 0 3 = Some (Inr (Some c)) \<and> live demo_chain c \<and> ch_nodes demo_chain c = Some z
    \<and> tn_Parent z = Some 0 \<and> anc (ch_nodes demo_chain) c 3"
  by (rule next_block_towards [OF demo_tree _ anc_trans [OF demo_anc(1,2)]]) (simp_all add: demo_live)

text \<open>
  C25. \<open>FindFarthestNode\<close> terminates, whatever the shape of the tree, and returns a block below the given one that no
  other block below it is higher than, with its distance.
\<close>

theorem farthest_node_is_farthest:
  assumes "tree_inv ch" and "live ch n"
  shows "\<exists>m d. FindFarthestNode (2 ^ 32) (ch_nodes ch) n = Some (Inr (m, d)) \<and> farthest ch n m d"
  by (rule FindFarthestNode_farthest [OF assms fuel_enough])

lemma farthest_node_is_farthest_witness:
  "\<exists>m d. FindFarthestNode (2 ^ 32) (ch_nodes demo_chain) 0 = Some (Inr (m, d)) \<and> farthest demo_chain 0 m d"
  by (rule farthest_node_is_farthest [OF demo_tree]) (simp add: demo_live)

section \<open>Deleting a branch\<close>

text \<open>
  C14. \<open>DeleteBranch\<close> terminates and, unless the block database panics, leaves a tree with exactly the blocks that
  are not below the deleted one, the same head and the same coins. It does not panic when no block of the branch has
  been written or trusted.
\<close>

theorem deleted_branch_is_gone:
  assumes "tree_inv ch" and "live ch cur" and "cur \<noteq> ch_BlockTreeRoot ch" and "ch_blockTreeEnd ch \<notin> branch ch cur"
  shows "(\<exists>e. DeleteBranch (2 ^ 32) cur ch = Some (Inl e) \<and> \<not> calm (node_key ch ` branch ch cur) ch) \<or>
    (\<exists>ch'. DeleteBranch (2 ^ 32) cur ch = Some (Inr ch') \<and> tree_inv ch' \<and> (\<forall>a. live ch' a \<longleftrightarrow> live ch a \<and> a \<notin> branch ch cur)
      \<and> ch_blockTreeEnd ch' = ch_blockTreeEnd ch \<and> ch_Unspent ch' = ch_Unspent ch)"
  using DeleteBranch_inv [OF assms] by blast

lemma demo_calm: "calm K demo_chain"
  by (simp add: calm_def demo_chain_def NewBlockDBExt_def)

lemma demo_end: "1 \<notin> branch demo_chain 2"
proof
  assume "1 \<in> branch demo_chain 2"
  then have "anc (ch_nodes demo_chain) 2 1" by (simp add: branch_def)
  then show False
  proof cases
    case (anc_step x p)
    then have "anc (ch_nodes demo_chain) 2 0" by (auto simp: demo_nodes)
    then show False by cases (auto simp: demo_nodes)
  qed simp
qed

lemma deleted_branch_is_gone_witness:
  "\<exists>ch'. DeleteBranch (2 ^ 32) 2 demo_chain = Some (Inr ch') \<and> tree_inv ch' \<and> live ch' 1 \<and> \<not> live ch' 3"
proof -
  have "3 \<in> branch demo_chain 2" "1 \<notin> branch demo_chain 2" using demo_anc(1) demo_end by (simp_all add: branch_def demo_live)
  with deleted_branch_is_gone [OF demo_tree, of 2] demo_calm show ?thesis by (auto simp: demo_live)
qed

text \<open>
  C39. Deleting a stored block that has a child panics: the block is marked invalid once, which also marks it trusted,
  and once more for its child, where the code means the child.
\<close>

theorem deleting_a_stored_parent_panics:
  assumes inv: "tree_inv ch" and cur: "live ch cur" "cur \<noteq> ch_BlockTreeRoot ch" and x: "ch_nodes ch cur = Some x" "tn_Childs x = c # cs"
    and z: "ch_nodes ch c = Some z" "tn_Childs z = []"
    and r: "bd_blockIndex (ch_Blocks ch) (BIdx (tn_BlockHash x)) = Some r" "\<not> ob_trusted r" "ob_ipos r \<noteq> - 1"
  shows "DeleteBranch (2 ^ 32) cur ch = Some (Inl (ExplicitPanic ''Trusted block cannot be invalid''))"
proof -
  obtain x' p y where p: "ch_nodes ch cur = Some x'" "tn_Parent x' = Some p" "live ch p" "ch_nodes ch p = Some y" "cur \<in> set (tn_Childs y)"
    "unat (tn_Height x') = Suc (unat (tn_Height y))"
    by (rule tree_parent [OF inv cur]) blast
  obtain y' where y': "ch_nodes ch p = Some y'" "distinct (tn_Childs y')" by (rule live_node [OF inv p(3)])
  obtain x'' where c: "ch_nodes ch cur = Some x''" "\<And>c. c \<in> set (tn_Childs x'') \<Longrightarrow> (\<exists>z. ch_nodes ch c = Some z \<and> tn_Parent z = Some cur
      \<and> unat (tn_Height z) = Suc (unat (tn_Height x'')))" by (rule live_node [OF inv cur(1)]) blast
  have h: "unat (tn_Height z) = Suc (unat (tn_Height x))" using c(2) [of c] c(1) x z by auto
  have ne: "cur \<noteq> p" "c \<noteq> p" "c \<noteq> cur" using p x z h by auto
  have px: "tn_Parent x = Some p" using p(1,2) x(1) by simp
  let ?K = "BIdx (tn_BlockHash x)"
  define db where "db = setBlockFlag ?K BLOCK_INVALID r (ch_Blocks ch)"
  let ?ch1 = "ch\<lparr>ch_Blocks := db\<rparr>"
  have b1: "BlocksInvalid (tn_BlockHash x) ch = Inr ?ch1"
    using r by (simp add: BlocksInvalid_def BlockInvalid_def Let_def db_def)
  have t: "bd_blockIndex db ?K = Some (r\<lparr>ob_trusted := True\<rparr>)" by (simp add: db_def setBlockFlag_def Let_def)
  have panic: "BlocksInvalid (tn_BlockHash x) ch2 = Inl (ExplicitPanic ''Trusted block cannot be invalid'')" if "ch_Blocks ch2 = db" for ch2
    using t that by (simp add: BlocksInvalid_def BlockInvalid_def Let_def)
  let ?y = "y\<lparr>tn_Childs := filter (\<lambda>c. c \<noteq> cur) (tn_Childs y)\<rparr>"
  have "length (filter (\<lambda>c. c \<noteq> cur) (tn_Childs y)) = length (tn_Childs y) - 1" using y' p by (intro length_filter_out) auto
  moreover have "tn_Childs y \<noteq> []" using p(5) by auto
  ultimately have del: "del_from cur (tn_Childs y) = Inr (filter (\<lambda>c. c \<noteq> cur) (tn_Childs y))"
    by (cases "tn_Childs y") (simp_all add: del_from_def Let_def)
  let ?ch3 = "(unindex (tn_BlockHash x) ?ch1)\<lparr>ch_nodes := (ch_nodes ch)(p \<mapsto> ?y)\<rparr>"
  have D: "DeleteBranch (2 ^ 32) cur ch = delAllChildren (2 ^ 32) cur ?ch3"
    unfolding DeleteBranch_def x(1) option.case b1 sum.case Let_def px
    by (simp add: delChild_def node_def p(4) del unindex_def)
  obtain k :: nat where s: "2 ^ 32 = Suc (Suc k)" by (rule that [of "2 ^ 32 - 2"]) simp
  have n: "ch_nodes ?ch3 cur = Some x" "ch_nodes ?ch3 c = Some z" "ch_Blocks ?ch3 = db" using x z ne by (simp_all add: unindex_def)
  let ?ch4 = "?ch3\<lparr>ch_nodes := (ch_nodes ?ch3)(c \<mapsto> z\<lparr>tn_Childs := []\<rparr>)\<rparr>"
  have leaf: "delAllChildren (Suc k) c ?ch3 = Some (Inr ?ch4)" 
    unfolding delAllChildren.simps(2) n(2) option.case z(2) foldR.simps bindR_simps ..
  have "ch_Blocks (unindex h ?ch4) = db" for h using n(3) by (simp add: unindex_def)
  then have p4: "BlocksInvalid (tn_BlockHash x) (unindex h ?ch4) = Inl (ExplicitPanic ''Trusted block cannot be invalid'')" for h
    by (rule panic)
  have n4: "ch_nodes ?ch4 c = Some (z\<lparr>tn_Childs := []\<rparr>)" by simp
  show ?thesis unfolding s unfolding D [unfolded s] delAllChildren.simps(2) [of "Suc k"] n(1) option.case x(2) foldR.simps leaf bindR_simps n4 p4 ..
qed

definition demo_stored :: chain where
  "demo_stored = demo_chain\<lparr>ch_Blocks := (NewBlockDBExt [] (\<lambda>_. None))\<lparr>bd_blockIndex := [replicate 8 3 \<mapsto> (new_bl False)\<lparr>ob_ipos := 0\<rparr>]\<rparr>\<rparr>"

lemma demo_stored_tree: "tree_inv demo_stored" "live demo_stored a = live demo_chain a"
proof -
  show l: "live demo_stored a = live demo_chain a" for a by (simp add: demo_stored_def live_def)
  then have "live demo_stored = live demo_chain" by (simp add: fun_eq_iff)
  then show "tree_inv demo_stored" using demo_tree by (simp add: tree_inv_def) (simp add: demo_stored_def)
qed

lemma deleting_a_stored_parent_panics_witness:
  "DeleteBranch (2 ^ 32) 2 demo_stored = Some (Inl (ExplicitPanic ''Trusted block cannot be invalid''))"
proof (rule deleting_a_stored_parent_panics [OF demo_stored_tree(1)])
  show "ch_nodes demo_stored 2 = Some (demo_node 3 1 1 (Some 0) [3])" "ch_nodes demo_stored 3 = Some (demo_node 4 2 3 (Some 2) [])"
    by (simp_all add: demo_stored_def demo_nodes)
  show "bd_blockIndex (ch_Blocks demo_stored) (BIdx (tn_BlockHash (demo_node 3 1 1 (Some 0) [3]))) = Some ((new_bl False)\<lparr>ob_ipos := 0\<rparr>)"
    by (simp add: demo_stored_def demo_BIdx)
  show "live demo_stored 2" by (simp add: demo_stored_tree demo_live)
  show "2 \<noteq> ch_BlockTreeRoot demo_stored" by (simp add: demo_stored_def)
qed (simp_all add: new_bl_def)

section \<open>Taking a header\<close>

lemma AcceptHeader_returns:
  assumes inv: "tree_inv ch" and ok: "header_ok ch now bl bl'"
  shows "\<exists>cur ch'. AcceptHeader bl' ch = Inr (cur, ch')"
proof -
  from ok obtain ph p x h mpt where o: "80 \<le> length (sl_data (bl_Raw bl))" "ParentHash bl = Inr ph" "ch_BlockIndex ch (BIdx ph) = Some p"
    "ch_nodes ch p = Some x" "bl' = bl\<lparr>bl_Height := h, bl_MedianPastTime := mpt\<rparr>" unfolding header_ok_def by blast
  have "live ch p" using o(3) by (auto simp: live_def)
  then have "p < ch_next ch" using inv o(4) unfolding tree_inv_def by (metis not_le option.distinct(1))
  then show ?thesis using o by (simp add: AcceptHeader_def ParentHash_def slice_range_def node_def addChild_def Let_def)
qed

text \<open>
  C8. The check of a header decides, and what it passes can be taken: on a tree rooted at height 0 \<open>PreCheckBlock\<close>
  returns for every block; a block it accepts is new, extends a known block, has the work its place requires, and a time
  between the median of its past and two hours from now; and \<open>AcceptHeader\<close> then returns and leaves a tree with exactly
  one more block, a child of the one its header names, one higher.
\<close>

theorem header_check_decides:
  assumes inv: "tree_inv ch" and z: "height_of ch (ch_BlockTreeRoot ch) = 0"
    and low: "\<forall>a x. live ch a \<and> ch_nodes ch a = Some x \<longrightarrow> unat (tn_Height x) < 2 ^ 32 - 1"
  shows "\<exists>dos later er bl'. PreCheckBlock ch now bl = Some (Inr ((dos, later, er), bl')) \<and>
    (er = None \<longrightarrow> header_ok ch now bl bl' \<and>
      (\<exists>cur ch' p. AcceptHeader bl' ch = Inr (cur, ch') \<and> tree_inv ch' \<and> (\<forall>a. live ch' a \<longleftrightarrow> live ch a \<or> a = cur) \<and> \<not> live ch cur
        \<and> live ch p \<and> tn_Parent (the (ch_nodes ch' cur)) = Some p \<and> height_of ch' cur = Suc (height_of ch p)
        \<and> (\<forall>ph. ParentHash bl = Inr ph \<longrightarrow> ch_BlockIndex ch (BIdx ph) = Some p) \<and> ch_blockTreeEnd ch' = ch_blockTreeEnd ch))"
proof -
  obtain dos later er bl' where r: "PreCheckBlock ch now bl = Some (Inr ((dos, later, er), bl'))"
    "er = None \<Longrightarrow> \<not> dos \<and> \<not> later \<and> header_ok ch now bl bl'" by (rule PreCheckBlock_result [OF inv z, of now bl]) blast
  have "header_ok ch now bl bl' \<and>
      (\<exists>cur ch' p. AcceptHeader bl' ch = Inr (cur, ch') \<and> tree_inv ch' \<and> (\<forall>a. live ch' a \<longleftrightarrow> live ch a \<or> a = cur) \<and> \<not> live ch cur
        \<and> live ch p \<and> tn_Parent (the (ch_nodes ch' cur)) = Some p \<and> height_of ch' cur = Suc (height_of ch p)
        \<and> (\<forall>ph. ParentHash bl = Inr ph \<longrightarrow> ch_BlockIndex ch (BIdx ph) = Some p) \<and> ch_blockTreeEnd ch' = ch_blockTreeEnd ch)"
    if n: "er = None"
  proof -
    have ok: "header_ok ch now bl bl'" using r(2) [OF n] by blast
    then obtain ph p' h mpt where o: "ParentHash bl = Inr ph" "ch_BlockIndex ch (BIdx ph) = Some p'"
      "ch_BlockIndex ch (BIdx (bl_Hash bl)) = None" "bl' = bl\<lparr>bl_Height := h, bl_MedianPastTime := mpt\<rparr>" unfolding header_ok_def by blast
    from AcceptHeader_returns [OF inv ok] obtain cur ch' where a: "AcceptHeader bl' ch = Inr (cur, ch')" by blast
    have new: "ch_BlockIndex ch (BIdx (bl_Hash bl')) = None" and ph: "ParentHash bl' = Inr ph"
      using o by (simp_all add: ParentHash_def)
    obtain p x where p: "tree_inv ch'" "\<And>a. live ch' a \<longleftrightarrow> live ch a \<or> a = cur" "\<not> live ch cur" "live ch p" "ch_nodes ch p = Some x"
      "ch_nodes ch' = (ch_nodes ch)(cur \<mapsto> \<lparr>tn_BlockHash = bl_Hash bl', tn_Height = tn_Height x + 1, tn_Parent = Some p,
                   tn_Childs = [], tn_BlockSize = 0, tn_TxCount = 0, tn_SigopsCost = 0, tn_BlockHeader = take 80 (sl_data (bl_Raw bl') @ sl_spare (bl_Raw bl'))\<rparr>,
        p \<mapsto> x\<lparr>tn_Childs := tn_Childs x @ [cur]\<rparr>)" "ParentHash bl' = Inr ph \<Longrightarrow> ch_BlockIndex ch (BIdx ph) = Some p"
      "ch' = ch\<lparr>ch_nodes := ch_nodes ch', ch_next := Suc cur, ch_BlockIndex := (ch_BlockIndex ch)(BIdx (bl_Hash bl') \<mapsto> cur)\<rparr>" "p \<noteq> cur"
      by (rule AcceptHeader_inv [where ph = ph, OF inv a new low]) blast
    have e: "ch_blockTreeEnd ch' = ch_blockTreeEnd ch" by (subst p(8)) simp
    have "unat (tn_Height x + 1) = Suc (unat (tn_Height x))" using low p(4,5) by (subst unat_add_small) auto
    then have hh: "tn_Parent (the (ch_nodes ch' cur)) = Some p" "height_of ch' cur = Suc (height_of ch p)" using p(5,9) by (simp_all add: p(6))
    have ph': "\<forall>ph. ParentHash bl = Inr ph \<longrightarrow> ch_BlockIndex ch (BIdx ph) = Some p" using p(7) ph o(1) by simp
    show ?thesis using ok a p(1,2,3,4) hh ph' e by blast
  qed
  with r(1) show ?thesis by blast
qed

definition demo_next :: block where
  "demo_next = zero_block\<lparr>bl_Raw := \<lparr>sl_data = demo_header 5000 (demo_hash 1), sl_spare = []\<rparr>, bl_Hash := demo_hash 9\<rparr>"

lemma demo_next_fields:
  "length (sl_data (bl_Raw demo_next)) = 80" "Version demo_next = Inr 1" "ParentHash demo_next = Inr (demo_hash 1)"
  "BlockTime demo_next = Inr 5000" "Bits demo_next = Inr 0x207fffff" "bl_Hash demo_next = demo_hash 9"
  by (simp_all add: demo_next_def demo_header_def demo_hash_def Version_def ParentHash_def BlockTime_def Bits_def slice_range_def
      le_bytes_def upt_rec take_Cons' drop_Cons')

lemma demo_checked:
  "PreCheckBlock demo_chain 10000 demo_next = Some (Inr ((False, False, None), demo_next\<lparr>bl_Height := 1, bl_MedianPastTime := 1001\<rparr>))"
proof -
  have c: "tn_Parent (demo_node 1 0 0 None [1, 2]) = None" "Timestamp (demo_node 1 0 0 None [1, 2]) = 1001"
    by (simp_all add: demo_node_def Timestamp_def demo_header_def demo_hash_def)
  have u: "uint (9 :: byte) = 9" by simp
  have "BigInt (replicate n 9) * 255 = 9 * (256 ^ n - 1)" for n
  proof (induction n)
    case (Suc n)
    have "BigInt (replicate (Suc n) 9) = 9 + 256 * BigInt (replicate n 9)" unfolding BigInt_def replicate_Suc foldr.simps o_apply u ..
    with Suc show ?case by simp
  qed (simp add: BigInt_def)
  from this [of 32] have "BigInt (demo_hash 9) * 255 = 9 * (256 ^ 32 - 1)" by (simp add: demo_hash_def)
  moreover have "SetCompact 0x207fffff = 0x7fffff * 2 ^ 232" by (simp add: SetCompact_def)
  ultimately have w: "CheckProofOfWork (demo_hash 9) 0x207fffff" unfolding CheckProofOfWork_def by simp
  have g: "GetNextWorkRequired demo_chain 0 t = Some (Inr 0x207fffff)" for t
    by (simp add: GetNextWorkRequired_def node_def demo_nodes) (simp add: demo_chain_def)
  have m: "GetMedianTimePast (ch_nodes demo_chain) (Some 0) = Inr 1001"
    using c by (simp add: GetMedianTimePast_def node_def demo_nodes numeral_eq_Suc)
  have ix: "ch_BlockIndex demo_chain (BIdx (demo_hash 9)) = None" "ch_BlockIndex demo_chain (BIdx (demo_hash 1)) = Some 0"
    by (simp_all add: demo_BIdx demo_index replicate_8_eq)
  have "check_parent demo_chain 1 0 demo_next = Some (Inr ((False, False, None), demo_next\<lparr>bl_Height := 1, bl_MedianPastTime := 1001\<rparr>))"
    by (simp add: check_parent_def node_def demo_nodes LastBlock_def Let_def slices_height demo_next_fields g m)
      (simp add: demo_chain_def new_consensus_def is_testnet_def demo_hash_def word_le_nat_alt)
  then show ?thesis by (simp add: PreCheckBlock_def demo_next_fields w ix)
qed

lemma header_check_decides_witness:
  "\<exists>cur ch'. AcceptHeader (demo_next\<lparr>bl_Height := 1, bl_MedianPastTime := 1001\<rparr>) demo_chain = Inr (cur, ch') \<and> tree_inv ch'
    \<and> live ch' cur \<and> height_of ch' cur = 1"
proof -
  have z: "height_of demo_chain (ch_BlockTreeRoot demo_chain) = 0" by (simp add: demo_nodes)
  have low: "\<forall>a x. live demo_chain a \<and> ch_nodes demo_chain a = Some x \<longrightarrow> unat (tn_Height x) < 2 ^ 32 - 1"
    by (auto simp: demo_live demo_nodes)
  have "ch_BlockIndex demo_chain (BIdx (demo_hash 1)) = Some 0" by (simp add: demo_BIdx demo_index replicate_8_eq)
  then have h: "p = 0" if "\<forall>ph. ParentHash demo_next = Inr ph \<longrightarrow> ch_BlockIndex demo_chain (BIdx ph) = Some p" for p
    using that by (simp add: demo_next_fields)
  from header_check_decides [OF demo_tree z low, of 10000 demo_next, unfolded demo_checked]
  obtain cur ch' p where a: "AcceptHeader (demo_next\<lparr>bl_Height := 1, bl_MedianPastTime := 1001\<rparr>) demo_chain = Inr (cur, ch')" "tree_inv ch'"
    "\<forall>a. live ch' a \<longleftrightarrow> live demo_chain a \<or> a = cur" "height_of ch' cur = Suc (height_of demo_chain p)"
    "\<forall>ph. ParentHash demo_next = Inr ph \<longrightarrow> ch_BlockIndex demo_chain (BIdx ph) = Some p"
    by auto
  from h [OF a(5)] a z show ?thesis by auto
qed

end
