(* ===== verification/BlockPlace.thy ===== *)
theory BlockPlace
  imports Block
begin

text \<open>
  What reading the transactions of a block keeps: the bytes, the hash, the place and the flags of the block.
\<close>

definition same_place :: "block \<Rightarrow> block \<Rightarrow> bool" where
  "same_place bl bl' \<longleftrightarrow> bl_Raw bl' = bl_Raw bl \<and> bl_Hash bl' = bl_Hash bl \<and> bl_Height bl' = bl_Height bl \<and> bl_Trusted bl' = bl_Trusted bl
     \<and> bl_VerifyFlags bl' = bl_VerifyFlags bl \<and> bl_MedianPastTime bl' = bl_MedianPastTime bl \<and> bl_LastKnownHeight bl' = bl_LastKnownHeight bl"

lemma andThen_elim: "andThen m g = Inr y \<Longrightarrow> (\<And>x. m = Inr x \<Longrightarrow> g x = Inr y \<Longrightarrow> P) \<Longrightarrow> P"
  by (auto simp: andThen_ok)

lemma same_place_refl [simp]: "same_place bl bl"
  by (simp add: same_place_def)

lemma same_place_trans: "same_place a b \<Longrightarrow> same_place b c \<Longrightarrow> same_place a c"
  by (simp add: same_place_def)

lemma place_updates [simp]:
  "same_place a (b\<lparr>bl_TotalInputs := u\<rparr>) = same_place a b" "same_place a (b\<lparr>bl_BlockWeight := w\<rparr>) = same_place a b"
  "same_place a (b\<lparr>bl_PaidTxsVSize := x\<rparr>) = same_place a b" "same_place a (b\<lparr>bl_NoWitnessSize := y\<rparr>) = same_place a b"
  "same_place a (b\<lparr>bl_OrbTxCnt := p, bl_OrbTxSize := q, bl_OrbTxWeight := r\<rparr>) = same_place a b"
  "same_place a (b\<lparr>bl_Txs := z\<rparr>) = same_place a b" "same_place a (b\<lparr>bl_TxCount := c\<rparr>) = same_place a b"
  "same_place a (b\<lparr>bl_TxOffset := n\<rparr>) = same_place a b"
  by (simp_all add: same_place_def)

lemma place_if [simp]: "same_place a (if c then x else y) = (if c then same_place a x else same_place a y)"
  by simp

lemma build_tx_place: "build_tx dohash i t raw bl = Inr bl' \<Longrightarrow> same_place bl bl'"
proof -
  assume a: "build_tx dohash i t raw bl = Inr bl'"
  show ?thesis
  proof (rule andThen_elim [OF a [unfolded build_tx_def Let_def]], goal_cases)
    case (1 x)
    obtain t1 bl1 where x: "x = (t1, bl1)" by (cases x)
    have p: "same_place bl bl1" using 1(1) by (auto simp: x ok_iff split: if_splits)
    show ?case
    proof (rule andThen_elim [OF 1(2) [unfolded x prod.case]], goal_cases)
      case (1 d)
      obtain d1 d2 d3 where d: "d = (d1, d2, d3)" by (cases d)
      from 1(2) have b: "same_place bl1 bl' = True" unfolding d prod.case sum.inject by (rule subst) (simp only: place_updates place_if same_place_refl if_cancel)
      with p show ?case using same_place_trans by simp
    qed
  qed
qed

lemma build_txs_place: "build_txs dohash n i offs bl = Inr (e, bl') \<Longrightarrow> same_place bl bl'"
proof (induction n arbitrary: i offs bl)
  case (Suc n)
  show ?case
  proof (rule andThen_elim [OF Suc.prems [unfolded build_txs.simps]], goal_cases)
    case (1 b)
    obtain p k where n: "NewTx b = (p, k)" by (cases "NewTx b")
    show ?case
    proof (cases "p = None \<or> k = 0")
      case True
      then show ?thesis using 1(2) by (auto simp: n split: option.splits)
    next
      case False
      then obtain t where p: "p = Some t" "k \<noteq> 0" by auto
      from 1(2) obtain raw bl1 where "build_tx dohash i t raw bl = Inr bl1" "build_txs dohash n (i + 1) (offs + k) bl1 = Inr (e, bl')"
        unfolding n prod.case p(1) option.case if_not_P [OF p(2)] andThen_ok by blast
      with Suc.IH build_tx_place same_place_trans show ?thesis by blast
    qed
  qed
qed simp

lemma build_count_place: "build_count bl = Inr (ok, bl') \<Longrightarrow> same_place bl bl'"
  unfolding build_count_def by (auto simp: ok_iff Let_def split: if_splits prod.splits)

lemma BuildTxList_place: "BuildTxList bl = Inr (e, bl') \<Longrightarrow> same_place bl bl'"
proof -
  assume a: "BuildTxList bl = Inr (e, bl')"
  show ?thesis
  proof (rule andThen_elim [OF a [unfolded BuildTxList_def BuildTxListExt_def]], goal_cases)
    case (1 x)
    obtain ok bl1 where x: "x = (ok, bl1)" by (cases x)
    have p: "same_place bl bl1" using 1(1) by (simp add: x build_count_place)
    moreover have "same_place bl1 bl'" using 1(2)
      by (auto simp: x Let_def split: if_splits dest!: build_txs_place) (simp add: same_place_def)
    ultimately show ?case using same_place_trans by blast
  qed
qed

end
