(* ===== verification/CheckSpec.thy ===== *)
theory CheckSpec
  imports Complex_Main TreeSpec BlockPlace ChainSamples
begin

text \<open>
  The properties of the difficulty, of the rules in force and of the checks of the contents of a block.
\<close>

section \<open>The target\<close>

text \<open>
  C26. The target after a period is at most four times the old one and never above the limit of the chain, and, up to
  the precision of the compact form, at least a quarter of it, for any two timestamps.
\<close>

theorem retarget_is_bounded:
  assumes "SetCompact bits = int t" and "t > 0" and "4 \<le> t" and "co_MaxPOWValue c = int m" and "byte_len m < 255" and "m > 0"
  shows "\<exists>r. SetCompact (retarget c bits t1 t0) = int r \<and> r \<le> 4 * t \<and> r \<le> m \<and> 2 ^ 15 * (min (t div 4) m - r) < min (4 * t) m"
  by (rule retarget_bounds [OF assms])

lemma retarget_is_bounded_witness:
  "\<exists>r. SetCompact (retarget (new_consensus [0]) 0x1b0404cb 1000000 0) = int r \<and> r \<le> 4 * (0x0404cb * 2 ^ 192) \<and> r \<le> 2 ^ 224 - 1
    \<and> 2 ^ 15 * (min ((0x0404cb * 2 ^ 192) div 4) (2 ^ 224 - 1) - r) < min (4 * (0x0404cb * 2 ^ 192)) (2 ^ 224 - 1)"
  by (rule retarget_is_bounded) (simp_all add: SetCompact_def new_consensus_def is_testnet_def byte_len.simps)

text \<open>
  C40. A period whose last block is timestamped before its first, as the median rule allows, quadruples the target
  instead of dividing it by four: the difference is taken in 32 bits without a sign.
\<close>

theorem backward_period_quadruples:
  assumes "t1 < t0" and "unat t0 - unat t1 < 2 ^ 31"
  shows "retarget c bits t1 t0 = GetCompact (min (SetCompact bits * 4) (co_MaxPOWValue c))"
  by (rule retarget_backwards [OF assms])

lemma backward_period_quadruples_witness:
  "retarget (new_consensus [0]) 0x1b0404cb 999 1000 = GetCompact (min (SetCompact 0x1b0404cb * 4) (2 ^ 224 - 1))"
  using backward_period_quadruples [of 999 1000 "new_consensus [0]" "0x1b0404cb"] by (simp add: new_consensus_def is_testnet_def)

section \<open>More work\<close>

text \<open>
  C23. \<open>MorePOW\<close> terminates on any two blocks of the tree, whatever the arithmetic of floating point does. A descendant
  has more work, if the additions and comparisons of floating point numbers are as IEEE has them (\<open>float_ok\<close>) and the
  difficulties of the blocks on the way are positive.
\<close>

theorem more_work_decides:
  assumes "tree_inv ch" and "live ch b1" and "live ch b2"
  shows "(\<exists>r. MorePOW ops (ch_nodes ch) b1 b2 = Some (Inr r)) \<and>
    (anc (ch_nodes ch) b2 b1 \<and> b1 \<noteq> b2 \<and> float_ok ops \<and>
      (\<forall>a. live ch a \<longrightarrow> fl_gt ops (GetDifficulty ops (NodeBits (the (ch_nodes ch a)))) (fl_of ops 0)) \<longrightarrow>
      MorePOW ops (ch_nodes ch) b1 b2 = Some (Inr True))"
  using MorePOW_total [OF assms] by blast

definition demo_floats :: "rat float_ops" where
  "demo_floats = \<lparr>fl_of = of_nat, fl_add = (+), fl_mul = (*), fl_div = (/), fl_gt = (>)\<rparr>"

lemma more_work_decides_witness: "MorePOW demo_floats (ch_nodes demo_chain) 2 0 = Some (Inr True)"
proof -
  have "NodeBits (demo_node k h q p cs) = 0x207fffff" for k h q p cs
    by (simp add: demo_node_def NodeBits_def demo_header_def demo_hash_def)
  then have "NodeBits (the (ch_nodes demo_chain a)) = 0x207fffff" if "live demo_chain a" for a
    using that by (auto simp: demo_live demo_nodes)
  moreover have "fl_gt demo_floats (GetDifficulty demo_floats 0x207fffff) (fl_of demo_floats 0)"
    by (simp add: demo_floats_def GetDifficulty_def Let_def numeral_3_eq_3)
  ultimately have "\<forall>a. live demo_chain a \<longrightarrow> fl_gt demo_floats (GetDifficulty demo_floats (NodeBits (the (ch_nodes demo_chain a)))) (fl_of demo_floats 0)"
    by simp
  moreover have "float_ok demo_floats" by (auto simp: float_ok_def demo_floats_def)
  ultimately show ?thesis using more_work_decides [OF demo_tree, of 2 0 demo_floats] demo_anc(2) by (simp add: demo_live)
qed

section \<open>The height in the coinbase\<close>

text \<open>
  The bytes the coinbase of a block must start with, which the code builds in a buffer of six bytes, are a push of the
  height as the script engine writes numbers, for every height but that of the first block.
\<close>

theorem height_prefix_pushes_the_number:
  assumes "h \<noteq> 0"
  shows "height_prefix h = of_nat (length (int_enc (uint h))) # int_enc (uint h)"
  by (rule height_prefix_enc [OF assms])

lemma height_prefix_pushes_the_number_witness: "height_prefix 227931 = of_nat (length (int_enc 227931)) # int_enc 227931"
  using height_prefix_pushes_the_number [of 227931] by simp

section \<open>The contents of a block\<close>

text \<open>
  C9. What \<open>PostCheckBlock\<close> establishes for a block it accepts. For every block: the Merkle root of its header is the one
  of its transactions, without a repetition at the end of a row, and the rules in force are those of its height and time.
  If the list of transactions was not built before: the block is not heavier than the limit. If the block is not
  trusted: its first transaction is a coinbase and no other one is; from \<open>BIP34Height\<close> on the coinbase starts with the
  height; every transaction is valid and final; and if one carries a witness, the coinbase commits to the witnesses. (The
  code skips the last group for a trusted block, and the weight for a list it did not build.)
\<close>

theorem accepted_block_contents:
  assumes "PostCheckBlock ch bl = Inr (None, bl')"
  shows "accepted (ch_Consensus ch) (bl_Txs bl = None) bl'"
  by (rule PostCheckBlock_accepts [OF assms])

definition demo_cb :: tx where
  "demo_cb = zero_tx\<lparr>tx_TxIn := [Some \<lparr>ti_Input = \<lparr>po_Hash = replicate 32 0, po_Vout = 0xffffffff\<rparr>,
     ti_ScriptSig = [0x51, 0x51], ti_Sequence = 0xffffffff\<rparr>], tx_TxOut := [Some (new_txout 5000000000 [])]\<rparr>"

definition demo_raw :: bytes where
  "demo_raw = block_bytes ([1, 0, 0, 0] @ demo_hash 1 @ Sha2Sum (stripped demo_cb) @ le_bytes 4 (5000 :: u32) @ [0xff, 0xff, 0x7f, 0x20] @ [0, 0, 0, 0])
     [demo_cb]"

lemma demo_cb_valid: "valid_tx demo_cb"
  unfolding valid_tx_def
  by (rule conjI, rule exI [of _ "[the (hd (tx_TxIn demo_cb))]"], rule exI [of _ "[the (hd (tx_TxOut demo_cb))]"])
     (simp_all add: demo_cb_def zero_tx_def valid_txin_def valid_txout_def new_txout_def)

lemma demo_cb_bytes: "length (stripped demo_cb) = 62" "full_bytes demo_cb = stripped demo_cb"
proof -
  have o: "tx_TxOut demo_cb = map Some [new_txout 5000000000 []]" "tx_TxIn demo_cb = map Some [the (hd (tx_TxIn demo_cb))]" "tx_SegWit demo_cb = None"
    by (simp_all add: demo_cb_def zero_tx_def)
  show f: "full_bytes demo_cb = stripped demo_cb" by (rule Serialize_valid(3) [OF demo_cb_valid o(3)])
  show "length (stripped demo_cb) = 62"
    by (simp add: stripped_def Serialize_def WriteSerialized_def demo_cb_def zero_tx_def ser_txin_def ser_txout_def new_txout_def length_WriteVlen VLenSize_def)
qed

lemma demo_built:
  obtains bl0 bl where "NewBlockX \<lparr>sl_data = demo_raw, sl_spare = []\<rparr> [] = Inr (None, bl0)" "build_if_needed bl0 = Inr (None, bl)"
    "txs_of bl = [Some (block_tx 0 demo_cb)]" "sl_data (bl_Raw bl0) = demo_raw" "same_place bl0 bl" "bl_Txs bl0 = None"
    "bl_Trusted bl0 = False" "bl_Height bl0 = 0"
proof -
  let ?hdr = "[1, 0, 0, 0] @ demo_hash 1 @ Sha2Sum (stripped demo_cb) @ le_bytes 4 (5000 :: u32) @ [0xff, 0xff, 0x7f, 0x20] @ [0, 0, 0, 0]"
  have "length ?hdr = 80" by (simp add: demo_hash_def)
  then obtain bl0 bl where b: "NewBlockX \<lparr>sl_data = demo_raw, sl_spare = []\<rparr> [] = Inr (None, bl0)" "BuildTxList bl0 = Inr (None, bl)"
    "txs_of bl = map (\<lambda>(j, t). Some (block_tx j t)) (enumerate 0 [demo_cb])"
    "bl_BlockWeight bl = 4 * (80 + of_nat (VLenSize (of_nat (length [demo_cb])))) + (\<Sum>t\<leftarrow>[demo_cb]. tx_weight t)"
    using BuildTxList_block_bytes [of ?hdr "[demo_cb]" "[]" "[]"] demo_cb_valid unfolding demo_raw_def by auto
  have "length demo_raw > 80" using \<open>length ?hdr = 80\<close> by (simp add: demo_raw_def block_bytes_def length_WriteVlen VLenSize_def)
  with b(1) have p: "sl_data (bl_Raw bl0) = demo_raw" "bl_Txs bl0 = None" "bl_Trusted bl0 = False" "bl_Height bl0 = 0"
    by (auto simp: NewBlockX_def UpdateContent_def ok_iff Let_def zero_block_def split: prod.splits if_splits)
  have "bl_BlockWeight bl \<le> MAX_BLOCK_WEIGHT" using b(4) by (simp add: tx_weight_def demo_cb_bytes VLenSize_def word_le_nat_alt)
  then have "build_if_needed bl0 = Inr (None, bl)" using b(2) p(2) by (simp add: build_if_needed_def not_less)
  from that [OF b(1) this _ p(1) BuildTxList_place [OF b(2)] p(2-4)] b(3) show thesis by simp
qed

lemma accepted_block_contents_witness:
  "\<exists>bl. txs_of bl = [Some (block_tx 0 demo_cb)] \<and> \<not> bl_Trusted bl \<and> accepted (ch_Consensus demo_chain) True bl"
proof -
  obtain bl0 bl where b: "NewBlockX \<lparr>sl_data = demo_raw, sl_spare = []\<rparr> [] = Inr (None, bl0)" "build_if_needed bl0 = Inr (None, bl)"
    "txs_of bl = [Some (block_tx 0 demo_cb)]" "sl_data (bl_Raw bl0) = demo_raw" "same_place bl0 bl" "bl_Txs bl0 = None"
    "bl_Trusted bl0 = False" "bl_Height bl0 = 0"
    by (rule demo_built)
  have raw: "sl_data (bl_Raw bl) = demo_raw" and pl: "\<not> bl_Trusted bl" "bl_Height bl = 0" using b(4,5,7,8) by (simp_all add: same_place_def)
  have t: "tx_TxIn (block_tx 0 demo_cb) = tx_TxIn demo_cb" "tx_SegWit (block_tx 0 demo_cb) = None" "tx_Lock_time (block_tx 0 demo_cb) = 0"
    "tx_Hash (block_tx 0 demo_cb) = Sha2Sum (stripped demo_cb)" "tx_NoWitSize (block_tx 0 demo_cb) = 62" "tx_TxOut (block_tx 0 demo_cb) \<noteq> []"
    by (simp_all add: block_tx_def demo_cb_bytes(1)) (simp_all add: tx_content_def demo_cb_def zero_tx_def)
  have cb: "IsCoinBase (block_tx 0 demo_cb) = Inr True"
    by (simp add: IsCoinBase_def t) (simp add: demo_cb_def zero_tx_def po_IsNull_def allzeros_def list_all_iff)
  let ?c = "ch_Consensus demo_chain"
  have c: "co_BIP34Height ?c = 227931" "GetBlockFlags ?c 0 5000 = 0"
    by (simp_all add: demo_chain_def new_consensus_def is_testnet_def demo_hash_def GetBlockFlags_def word_le_nat_alt)
  have cc: "check_coinbase ?c bl = Inr None" using cb by (simp add: check_coinbase_def b(3) pl(2) c(1) word_le_nat_alt)
  have "Bits bl = Inr 0x207fffff" "BlockTime bl = Inr 5000" "MerkleRoot bl = Inr (Sha2Sum (stripped demo_cb))"
    by (simp_all add: Bits_def BlockTime_def MerkleRoot_def slice_range_def raw demo_raw_def block_bytes_def demo_hash_def le_bytes_def upt_rec)
  note f = this
  have m: "check_merkle bl = Inr None"
    by (simp add: check_merkle_def GetMerkle_def b(3) f t CalcMerkle_root merkle_root.simps)
  let ?bl = "bl\<lparr>bl_VerifyFlags := 0\<rparr>"
  have a: "ApplyBlockFlags demo_chain bl = Inr ?bl" using c(2) by (simp add: ApplyBlockFlags_def f pl(2))
  have ct: "CheckTransaction (block_tx 0 demo_cb) = Inr ()"
    using cb t by (simp add: CheckTransaction_def) (simp add: demo_cb_def zero_tx_def)
  have x: "txs_of ?bl = [Some (block_tx 0 demo_cb)]" using b(3) by (simp add: merkle_flags)
  have cn: "check_contents ?bl = Inr None"
    using ct by (simp add: check_contents_def merkle_flags b(3) f check_witness_def t IsFinal_def)
  have len: "\<not> length (sl_data (bl_Raw bl0)) < 81" using b(4) by (simp add: demo_raw_def block_bytes_def demo_hash_def length_WriteVlen VLenSize_def)
  have "PostCheckBlock demo_chain bl0 = Inr (None, ?bl)"
    unfolding PostCheckBlock_def if_not_P [OF len] b(2) andThen_simps prod.case using pl cc m a cn by simp
  from accepted_block_contents [OF this] b(6) have "accepted (ch_Consensus demo_chain) True ?bl" by simp
  with pl x show ?thesis by (intro exI [of _ ?bl]) simp
qed

text \<open>With it the transactions are what the rule against double spends asks for.\<close>

lemma accepted_txs_one_coinbase:
  assumes "accepted_txs c bl btime"
  shows "one_coinbase_first (txs_of bl)"
proof -
  have "\<exists>cb ts. txs_of bl = Some cb # ts \<and> IsCoinBase cb = Inr True \<and> (\<forall>p\<in>set ts. \<exists>t. p = Some t \<and> IsCoinBase t = Inr False)
      \<and> (\<forall>p\<in>set (txs_of bl). \<exists>t. p = Some t \<and> CheckTransaction t = Inr ())"
    using assms unfolding accepted_txs_def by (elim exE conjE, intro exI conjI) (assumption | fastforce)+
  then obtain cb ts where t: "txs_of bl = Some cb # ts" "IsCoinBase cb = Inr True" "\<forall>p\<in>set ts. \<exists>t. p = Some t \<and> IsCoinBase t = Inr False"
    "\<forall>p\<in>set (txs_of bl). \<exists>t. p = Some t \<and> CheckTransaction t = Inr ()"
    by (elim exE conjE) (rule that)
  have "IsCoinBase t = Inr False \<and> tx_TxIn t \<noteq> []" if m: "Some t \<in> set ts" for t
  proof -
    have "CheckTransaction t = Inr ()" using bspec [OF t(4), of "Some t"] t(1) m by simp
    then have "tx_TxIn t \<noteq> []" by (rule contrapos_pn) (simp add: CheckTransaction_def)
    moreover have "IsCoinBase t = Inr False" using bspec [OF t(3) m] by simp
    ultimately show ?thesis by simp
  qed
  then have "\<forall>p \<in> set ts. \<forall>t. p = Some t \<longrightarrow> IsCoinBase t = Inr False \<and> tx_TxIn t \<noteq> []" by (intro ballI allI impI) simp
  then show ?thesis unfolding one_coinbase_first_def using t(1,2) by (intro exI conjI)
qed

lemma accepted_one_coinbase:
  assumes "accepted c built bl" and "\<not> bl_Trusted bl"
  shows "one_coinbase_first (txs_of bl)"
  using assms unfolding accepted_def by (elim exE conjE) (iprover intro: accepted_txs_one_coinbase)

end
