(* ===== verification/ChainMove.thy ===== *)
theory ChainMove
  imports BlockCheck BlockTreeOps ChainTxFit ChainDiff
begin

text \<open>
  Moving the head of the chain: a block on top of it (\<open>CommitBlock\<close> of \<open>lib/chain/chain_accept.go\<close>), taking the last one
  back, and going to another branch (\<open>UndoLastBlock\<close>, \<open>ParseTillBlock\<close>, \<open>MoveToBlock\<close> of \<open>lib/chain/chain_tree.go\<close>);
  the start from the files (\<open>lib/chain/chain_load.go\<close>). The flag \<open>AbortNow\<close>, which only the end of the program sets, is
  off; the callbacks and the progress messages are left out.
\<close>

section \<open>What the operations need\<close>

record node_env =
  ne_bdb :: bdb_opts
  ne_cfg :: utxo_cfg
  ne_env :: chain_env

text \<open>\<open>commitTxs\<close> reads the outputs from the database of the chain.\<close>

definition env_of :: "node_env \<Rightarrow> chain \<Rightarrow> chain_env" where
  "env_of ne ch = (ne_env ne)\<lparr>ce_get := (\<lambda>h v. case UnspentGet (uc_fmt (ne_cfg ne)) (ud_Map (ch_Unspent ch)) h v of
       Some (Inr r) \<Rightarrow> r | _ \<Rightarrow> None), ce_UnwindBufLen := ud_UnwindBufLen (ch_Unspent ch)\<rparr>"

datatype move_error = NotConnected commit_error | MoveFailed

definition upd_node :: "nat \<Rightarrow> (tree_node \<Rightarrow> tree_node) \<Rightarrow> chain \<Rightarrow> go_panic + chain" where
  "upd_node a f ch = andThen (node (ch_nodes ch) (Some a)) (\<lambda>x. Inr (ch\<lparr>ch_nodes := (ch_nodes ch)(a \<mapsto> f x)\<rparr>))"

section \<open>Taking the last block back\<close>

text \<open>A stored block, parsed: the error of the database is a panic in both uses.\<close>

definition stored_block :: "node_env \<Rightarrow> bytes \<Rightarrow> chain \<Rightarrow> go_panic + (block_error option \<times> block) \<times> bool \<times> chain" where
  "stored_block ne h ch =
     andThen (BlockGetInternal (ne_bdb ne) h True (ch_Blocks ch)) (\<lambda>((dat, trusted, er), db).
     case (er, dat) of
       (None, Some d) \<Rightarrow>
         andThen (NewBlock \<lparr>sl_data = d, sl_spare = []\<rparr>) (\<lambda>r. Inr (r, trusted, ch\<lparr>ch_Blocks := db\<rparr>))
     | _ \<Rightarrow> Inl (ExplicitPanic ''Db.BlockGet()''))"

definition UndoLastBlock :: "node_env \<Rightarrow> chain \<Rightarrow> (go_panic + chain) option" where
  "UndoLastBlock ne ch =
     (let lst = LastBlock ch in
      bindR (Some (node (ch_nodes ch) (Some lst))) (\<lambda>x.
      bindR (Some (stored_block ne (tn_BlockHash x) ch)) (\<lambda>((er, bl), _, ch).
      if er \<noteq> None then Some (Inl (ExplicitPanic ''UndoLastBlock: NewBlock() should not fail with block from disk''))
      else
        bindR (Some (BuildTxList bl)) (\<lambda>(er, bl).
        if er \<noteq> None then Some (Inl (ExplicitPanic ''UndoLastBlock: BuildTxList() should not fail with block from disk''))
        else
          bindR (Some (node (ch_nodes ch) (tn_Parent x))) (\<lambda>y.
          bindR (UndoBlockTxs (ne_cfg ne) (ch_Unspent ch) (tx_ids (txs_of bl)) (tn_BlockHash y)) (\<lambda>ud.
          Some (Inr (SetLast (the (tn_Parent x)) (ch\<lparr>ch_Unspent := ud\<rparr>)))))))))"

section \<open>One block forward\<close>

definition drop_branch :: "nat \<Rightarrow> chain \<Rightarrow> (go_panic + bool \<times> chain) option" where
  "drop_branch nxt ch = bindR (DeleteBranch (2 ^ 32) nxt ch) (\<lambda>ch. Some (Inr (False, ch)))"

text \<open>The part of \<open>ParseTillBlock\<close>'s loop for a block that was read and parsed.\<close>

definition connect_stored :: "node_env \<Rightarrow> u32 \<Rightarrow> nat \<Rightarrow> tree_node \<Rightarrow> bool \<Rightarrow> block \<Rightarrow> chain \<Rightarrow> (go_panic + bool \<times> chain) option" where
  "connect_stored ne lknown nxt x trusted bl ch =
     (case ProcessBlockTransactions (env_of ne ch) (bl\<lparr>bl_Trusted := trusted\<rparr>) (tn_Height x) lknown of
        Inl (CommitPanic e) \<Rightarrow> Some (Inl e)
      | Inl _ \<Rightarrow> drop_branch nxt ch
      | Inr (sigops, changes, _) \<Rightarrow>
          bindR (Some (upd_node nxt (\<lambda>x. x\<lparr>tn_SigopsCost := sigops\<rparr>) ch)) (\<lambda>ch.
          let ch = (if trusted then ch else ch\<lparr>ch_Blocks := BlockTrusted (bl_Hash bl) (ch_Blocks ch)\<rparr>) in
          bindR (CommitBlockTxs (ne_cfg ne) (ch_Unspent ch) changes (bl_Hash bl)) (\<lambda>ud.
          Some (Inr (True, SetLast nxt (ch\<lparr>ch_Unspent := ud\<rparr>))))))"

definition parse_step :: "node_env \<Rightarrow> nat \<Rightarrow> chain \<Rightarrow> (go_panic + bool \<times> chain) option" where
  "parse_step ne dst ch =
     bindR (FindPathTo (ch_nodes ch) (LastBlock ch) dst) (\<lambda>nxt.
     case nxt of
       None \<Rightarrow> Some (Inr (False, ch))
     | Some nxt \<Rightarrow>
         bindR (Some (node (ch_nodes ch) (Some nxt))) (\<lambda>x.
         if tn_BlockSize x = 0 then Some (Inr (False, ch))
         else
           bindR (Some (stored_block ne (tn_BlockHash x) ch)) (\<lambda>((er, bl), trusted, ch).
           if er \<noteq> None then drop_branch nxt ch
           else
             bindR (Some (ApplyBlockFlags ch (bl\<lparr>bl_Height := tn_Height x\<rparr>))) (\<lambda>bl.
             bindR (Some (BuildTxList bl)) (\<lambda>(er, bl).
             if er \<noteq> None then drop_branch nxt ch
             else
               bindR (Some (node (ch_nodes ch) (Some dst))) (\<lambda>e.
               connect_stored ne (tn_Height e) nxt x trusted bl ch))))))"

partial_function (option) parse_loop :: "node_env \<Rightarrow> nat \<Rightarrow> chain \<Rightarrow> (go_panic + chain) option" where
  "parse_loop ne dst ch =
     (if LastBlock ch = dst then Some (Inr ch)
      else bindR (parse_step ne dst ch) (\<lambda>r. if fst r then parse_loop ne dst (snd r) else Some (Inr (snd r))))"

section \<open>To another branch\<close>

text \<open>Down to a height, and down to the common block; nothing if a block on the way has no data yet.\<close>

partial_function (option) down :: "heap \<Rightarrow> u32 \<Rightarrow> nat \<Rightarrow> (go_panic + nat option) option" where
  "down h lim a =
     bindR (Some (node h (Some a))) (\<lambda>x.
     if tn_Height x \<le> lim then Some (Inr (Some a))
     else
       bindR (Some (node h (tn_Parent x))) (\<lambda>y.
       if tn_TxCount y = 0 then Some (Inr None) else down h lim (the (tn_Parent x))))"

partial_function (option) meet :: "heap \<Rightarrow> nat option \<Rightarrow> nat \<Rightarrow> (go_panic + nat option) option" where
  "meet h tmp cur =
     (if tmp = Some cur then Some (Inr (Some cur))
      else
        bindR (Some (node h (Some cur))) (\<lambda>x.
        bindR (Some (node h (tn_Parent x))) (\<lambda>y.
        if tn_TxCount y = 0 then Some (Inr None)
        else bindR (Some (node h tmp)) (\<lambda>t. meet h (tn_Parent t) (the (tn_Parent x))))))"

partial_function (option) unwind :: "node_env \<Rightarrow> nat \<Rightarrow> chain \<Rightarrow> (go_panic + chain) option" where
  "unwind ne cur ch = (if LastBlock ch = cur then Some (Inr ch) else bindR (UndoLastBlock ne ch) (unwind ne cur))"

text \<open>\<open>MoveToBlock\<close> up to its call of \<open>ParseTillBlock\<close>; the flag tells whether it comes to that.\<close>

definition rewind :: "node_env \<Rightarrow> nat \<Rightarrow> chain \<Rightarrow> (go_panic + bool \<times> chain) option" where
  "rewind ne dst ch =
     bindR (Some (node (ch_nodes ch) (Some (LastBlock ch)))) (\<lambda>l.
     bindR (down (ch_nodes ch) (tn_Height l) dst) (\<lambda>cur.
     case cur of
       None \<Rightarrow> Some (Inr (False, ch))
     | Some cur \<Rightarrow>
         bindR (Some (node (ch_nodes ch) (Some cur))) (\<lambda>x.
         bindR (down (ch_nodes ch) (tn_Height x) (LastBlock ch)) (\<lambda>lb.
         case lb of
           None \<Rightarrow> Some (Inr (False, ch))
         | Some lb \<Rightarrow>
             bindR (meet (ch_nodes ch) (Some lb) cur) (\<lambda>c.
             case c of
               None \<Rightarrow> Some (Inr (False, ch))
             | Some c \<Rightarrow> bindR (unwind ne c ch) (\<lambda>ch. Some (Inr (True, ch))))))))"

partial_function (option) ParseTillBlock :: "node_env \<Rightarrow> nat \<Rightarrow> chain \<Rightarrow> (go_panic + chain) option" where
  "ParseTillBlock ne dst ch =
     bindR (parse_loop ne dst ch) (\<lambda>ch.
     if LastBlock ch = dst then Some (Inr ch)
     else
       bindR (FindFarthestNode (2 ^ 32) (ch_nodes ch) (ch_BlockTreeRoot ch)) (\<lambda>f.
       bindR (rewind ne (fst f) ch) (\<lambda>r.
       if fst r then ParseTillBlock ne (fst f) (snd r) else Some (Inr (snd r)))))"

definition MoveToBlock :: "node_env \<Rightarrow> nat \<Rightarrow> chain \<Rightarrow> (go_panic + chain) option" where
  "MoveToBlock ne dst ch =
     bindR (rewind ne dst ch) (\<lambda>(go, ch). if go then ParseTillBlock ne dst ch else Some (Inr ch))"

section \<open>A new block\<close>

definition commit_on_top :: "node_env \<Rightarrow> block \<Rightarrow> nat \<Rightarrow> tree_node \<Rightarrow> chain \<Rightarrow> (go_panic + move_error option \<times> chain) option" where
  "commit_on_top ne bl cur x ch =
     (case ProcessBlockTransactions (env_of ne ch) bl (tn_Height x) (bl_LastKnownHeight bl) of
        Inl (CommitPanic e) \<Rightarrow> Some (Inl e)
      | Inl er \<Rightarrow>
          Some (andThen (deref (tn_Parent x)) (\<lambda>p. andThen (delChild p cur (ch_nodes ch)) (\<lambda>h.
            Inr (Some (NotConnected er), unindex (tn_BlockHash x) (ch\<lparr>ch_nodes := h\<rparr>)))))
      | Inr (sigops, changes, _) \<Rightarrow>
          bindR (Some (upd_node cur (\<lambda>x. x\<lparr>tn_SigopsCost := sigops\<rparr>) ch)) (\<lambda>ch.
          bindR (Some (BlockAdd (ne_bdb ne) (tn_Height x) (bl\<lparr>bl_Trusted := True\<rparr>) (ch_Blocks ch))) (\<lambda>db.
          bindR (CommitBlockTxs (ne_cfg ne) (ch_Unspent ch) changes (bl_Hash bl)) (\<lambda>ud.
          Some (Inr (None, SetLast cur (ch\<lparr>ch_Blocks := db, ch_Unspent := ud\<rparr>)))))))"

definition commit_aside :: "node_env \<Rightarrow> 'f float_ops \<Rightarrow> block \<Rightarrow> nat \<Rightarrow> tree_node \<Rightarrow> chain \<Rightarrow> (go_panic + move_error option \<times> chain) option" where
  "commit_aside ne ops bl cur x ch =
     bindR (Some (BlockAdd (ne_bdb ne) (tn_Height x) bl (ch_Blocks ch))) (\<lambda>db.
     let ch = ch\<lparr>ch_Blocks := db\<rparr> in
     bindR (MorePOW ops (ch_nodes ch) cur (LastBlock ch)) (\<lambda>more.
     if more then
       bindR (MoveToBlock ne cur ch) (\<lambda>ch. Some (Inr (if LastBlock ch \<noteq> cur then Some MoveFailed else None, ch)))
     else Some (Inr (None, ch))))"

definition CommitBlock :: "node_env \<Rightarrow> 'f float_ops \<Rightarrow> block \<Rightarrow> nat \<Rightarrow> chain \<Rightarrow> (go_panic + move_error option \<times> chain) option" where
  "CommitBlock ne ops bl cur ch =
     bindR (Some (upd_node cur (\<lambda>x. x\<lparr>tn_BlockSize := of_nat (length (sl_data (bl_Raw bl))), tn_TxCount := word_of_int (bl_TxCount bl)\<rparr>) ch)) (\<lambda>ch.
     bindR (Some (node (ch_nodes ch) (Some cur))) (\<lambda>x.
     if tn_Parent x = Some (LastBlock ch) then commit_on_top ne bl cur x ch else commit_aside ne ops bl cur x ch))"

definition AcceptBlock :: "node_env \<Rightarrow> 'f float_ops \<Rightarrow> block \<Rightarrow> chain \<Rightarrow> (go_panic + move_error option \<times> chain) option" where
  "AcceptBlock ne ops bl ch = bindR (Some (AcceptHeader bl ch)) (\<lambda>(cur, ch). CommitBlock ne ops bl cur ch)"

end
