(* ===== verification/ChainLoad.thy ===== *)
theory ChainLoad
  imports ChainMove
begin

text \<open>
  The start of the chain from the files: the tree of blocks is built from the index of the database
  (\<open>lib/chain/chain_load.go\<close>), and the blocks the coins do not know yet are applied (the end of \<open>NewChainExt\<close> of
  \<open>lib/chain/chain.go\<close>). Go ranges over a map in no particular order; the order is an argument.
\<close>

section \<open>The nodes\<close>

definition RebuildGenesisHeader :: "chain \<Rightarrow> go_panic + chain" where
  "RebuildGenesisHeader ch =
     upd_node (ch_BlockTreeRoot ch) (\<lambda>x. x\<lparr>tn_BlockHeader :=
       write_at 72 (le_bytes 4 (co_MaxPOWBits (ch_Consensus ch)))
         (write_at 68 (le_bytes 4 (co_GensisTimestamp (ch_Consensus ch))) (write_at 0 (le_bytes 4 (1 :: u32)) (tn_BlockHeader x)))\<rparr>) ch"

definition new_node :: "bytes \<Rightarrow> u32 \<Rightarrow> u32 \<Rightarrow> u32 \<Rightarrow> bytes \<Rightarrow> tree_node" where
  "new_node h height blen txs header = \<lparr>tn_BlockHash = h, tn_Height = height, tn_Parent = None, tn_Childs = [], tn_BlockSize = blen,
     tn_TxCount = txs, tn_SigopsCost = 0, tn_BlockHeader = header\<rparr>"

fun nextBlock :: "walk_args \<Rightarrow> chain \<Rightarrow> chain" where
  "nextBlock (h, header, height, blen, txs) ch =
     (case ch_BlockIndex ch (BIdx h) of
        Some _ \<Rightarrow> ch
      | None \<Rightarrow> ch\<lparr>ch_nodes := (ch_nodes ch)(ch_next ch \<mapsto> new_node h height blen txs header), ch_next := Suc (ch_next ch),
          ch_BlockIndex := (ch_BlockIndex ch)(BIdx h \<mapsto> ch_next ch)\<rparr>)"

definition load_nodes :: "bdb_opts \<Rightarrow> chain \<Rightarrow> go_panic + chain" where
  "load_nodes opts ch =
     (let root = ch_next ch;
          ch = ch\<lparr>ch_nodes := (ch_nodes ch)(root \<mapsto> new_node (ch_Genesis ch) 0 0 0 (replicate 80 0)), ch_next := Suc root,
                 ch_BlockTreeRoot := root\<rparr>
      in andThen (RebuildGenesisHeader ch) (\<lambda>ch.
         let ch = ch\<lparr>ch_BlockIndex := [BIdx (ch_Genesis ch) \<mapsto> root]\<rparr>;
             (ws, db) = LoadBlockIndex opts (ch_Blocks ch)
         in Inr (fold nextBlock ws (ch\<lparr>ch_Blocks := db\<rparr>))))"

section \<open>The links\<close>

definition prev_key :: "tree_node \<Rightarrow> bytes" where
  "prev_key x = BIdx (take 32 (drop 4 (tn_BlockHeader x)))"

text \<open>A key that was deleted meanwhile is not visited.\<close>

definition link_block :: "bytes \<Rightarrow> chain \<Rightarrow> go_panic + chain" where
  "link_block k ch =
     (case ch_BlockIndex ch k of
        None \<Rightarrow> Inr ch
      | Some v \<Rightarrow>
          if v = ch_BlockTreeRoot ch then Inr ch
          else
            andThen (node (ch_nodes ch) (Some v)) (\<lambda>x.
            case ch_BlockIndex ch (prev_key x) of
              None \<Rightarrow> Inr (ch\<lparr>ch_BlockIndex := (ch_BlockIndex ch)(k := None)\<rparr>)
            | Some par \<Rightarrow>
                andThen (upd_node v (\<lambda>x. x\<lparr>tn_Parent := Some par\<rparr>) ch) (\<lambda>ch.
                andThen (addChild par v (ch_nodes ch)) (\<lambda>h. Inr (ch\<lparr>ch_nodes := h\<rparr>)))))"

fun link_blocks :: "bytes list \<Rightarrow> chain \<Rightarrow> go_panic + chain" where
  "link_blocks [] ch = Inr ch"
| "link_blocks (k # ks) ch = andThen (link_block k ch) (link_blocks ks)"

definition loadBlockIndex :: "bdb_opts \<Rightarrow> ((bytes \<Rightarrow> nat option) \<Rightarrow> bytes list) \<Rightarrow> chain \<Rightarrow> go_panic + chain" where
  "loadBlockIndex opts order ch =
     andThen (load_nodes opts ch) (\<lambda>ch.
     andThen (link_blocks (order (ch_BlockIndex ch)) ch) (\<lambda>ch.
     case ud_LastBlockHash (ch_Unspent ch) of
       None \<Rightarrow> Inr (SetLast (ch_BlockTreeRoot ch) ch)
     | Some tlb \<Rightarrow>
         (case ch_BlockIndex ch (BIdx tlb) of
            None \<Rightarrow> Inl (ExplicitPanic ''Last Block Hash not found'')
          | Some lst \<Rightarrow> Inr (SetLast lst ch))))"

section \<open>The start\<close>

record chain_opts =
  cho_rescan :: bool
  cho_UndoBlocks :: nat
  cho_DoNotRescan :: bool

fun undo_blocks :: "node_env \<Rightarrow> nat \<Rightarrow> chain \<Rightarrow> (go_panic + chain) option" where
  "undo_blocks ne 0 ch = Some (Inr ch)"
| "undo_blocks ne (Suc n) ch = bindR (UndoLastBlock ne ch) (undo_blocks ne n)"

definition catch_up :: "node_env \<Rightarrow> chain_opts \<Rightarrow> chain \<Rightarrow> (go_panic + chain) option" where
  "catch_up ne opts ch =
     bindR (FindFarthestNode (2 ^ 32) (ch_nodes ch) (ch_BlockTreeRoot ch)) (\<lambda>f.
     bindR (Some (node (ch_nodes ch) (Some (fst f)))) (\<lambda>e.
     bindR (Some (node (ch_nodes ch) (Some (LastBlock ch)))) (\<lambda>l.
     if tn_Height e > tn_Height l then (if \<not> cho_DoNotRescan opts then ParseTillBlock ne (fst f) ch else Some (Inr ch))
     else Some (Inr (ch\<lparr>ch_Unspent := (ch_Unspent ch)\<lparr>ud_LastBlockHeight := tn_Height e\<rparr>\<rparr>)))))"

definition start_chain :: "node_env \<Rightarrow> ((bytes \<Rightarrow> nat option) \<Rightarrow> bytes list) \<Rightarrow> chain_opts \<Rightarrow> chain \<Rightarrow> (go_panic + chain) option" where
  "start_chain ne order opts ch =
     bindR (Some (loadBlockIndex (ne_bdb ne) order ch)) (\<lambda>ch.
     let ch = (if cho_rescan opts then SetLast (ch_BlockTreeRoot ch) ch else ch) in
     if cho_UndoBlocks opts > 0 then undo_blocks ne (cho_UndoBlocks opts) ch else catch_up ne opts ch)"

section \<open>A transaction of a block\<close>

datatype raw_error = HeightTooBig | BlockNotInDb | RawNewBlock | RawBuildTxList | TxNotFound

partial_function (option) up_to_height :: "heap \<Rightarrow> u32 \<Rightarrow> nat option \<Rightarrow> (go_panic + nat) option" where
  "up_to_height h lim a =
     bindR (Some (node h a)) (\<lambda>x. if tn_Height x > lim then up_to_height h lim (tn_Parent x) else Some (Inr (the a)))"

fun find_raw :: "bytes \<Rightarrow> tx option list \<Rightarrow> go_panic + bytes option" where
  "find_raw txid [] = Inr None"
| "find_raw txid (p # ps) = andThen (deref p) (\<lambda>t. if tx_Hash t = txid then Inr (Some (tx_Raw t)) else find_raw txid ps)"

definition GetRawTx :: "node_env \<Rightarrow> u32 \<Rightarrow> bytes \<Rightarrow> chain \<Rightarrow> (go_panic + (raw_error + bytes) \<times> chain) option" where
  "GetRawTx ne height txid ch =
     bindR (Some (node (ch_nodes ch) (Some (LastBlock ch)))) (\<lambda>n.
     if tn_Height n < height then Some (Inr (Inl HeightTooBig, ch))
     else
       bindR (up_to_height (ch_nodes ch) height (Some (LastBlock ch))) (\<lambda>a.
       bindR (Some (node (ch_nodes ch) (Some a))) (\<lambda>x.
       bindR (Some (BlockGet (ne_bdb ne) (tn_BlockHash x) (ch_Blocks ch))) (\<lambda>((bd, _, e), db).
       let ch = ch\<lparr>ch_Blocks := db\<rparr> in
       case (e, bd) of
         (None, Some d) \<Rightarrow>
           bindR (Some (NewBlock \<lparr>sl_data = d, sl_spare = []\<rparr>)) (\<lambda>(e, bl).
           if e \<noteq> None then Some (Inr (Inl RawNewBlock, ch))
           else
             bindR (Some (BuildTxList bl)) (\<lambda>(e, bl).
             if e \<noteq> None then Some (Inr (Inl RawBuildTxList, ch))
             else
               bindR (Some (find_raw txid (txs_of bl))) (\<lambda>r.
               Some (Inr (case r of None \<Rightarrow> Inl TxNotFound | Some raw \<Rightarrow> Inr raw, ch)))))
       | _ \<Rightarrow> Some (Inr (Inl BlockNotInDb, ch))))))"

end
