(* ===== verification/ChainMoveLaws.thy ===== *)
theory ChainMoveLaws
  imports ChainMove
begin

text \<open>
  The head of the tree and the coins move together: whatever branch the chain goes to, the tree stays a tree and the
  height of the coins is that of the head.
\<close>

section \<open>Changes of data only\<close>

definition shape :: "tree_node \<Rightarrow> bytes \<times> u32 \<times> nat option \<times> nat list" where
  "shape x = (tn_BlockHash x, tn_Height x, tn_Parent x, tn_Childs x)"

definition same_tree :: "chain \<Rightarrow> chain \<Rightarrow> bool" where
  "same_tree ch ch' \<longleftrightarrow> (\<forall>a. map_option shape (ch_nodes ch' a) = map_option shape (ch_nodes ch a))
     \<and> ch_BlockIndex ch' = ch_BlockIndex ch \<and> ch_BlockTreeRoot ch' = ch_BlockTreeRoot ch \<and> ch_next ch' = ch_next ch"

lemma same_tree_refl [simp]: "same_tree ch ch"
  by (simp add: same_tree_def)

lemma same_tree_trans: "same_tree a b \<Longrightarrow> same_tree b c \<Longrightarrow> same_tree a c"
  by (simp add: same_tree_def)

lemma same_tree_updates [simp]:
  "same_tree ch (ch'\<lparr>ch_Blocks := b\<rparr>) = same_tree ch ch'" "same_tree ch (ch'\<lparr>ch_Unspent := u\<rparr>) = same_tree ch ch'"
  "same_tree ch (SetLast a ch') = same_tree ch ch'"
  by (simp_all add: same_tree_def SetLast_def)

lemma same_tree_live: "same_tree ch ch' \<Longrightarrow> live ch' a = live ch a"
  by (simp add: same_tree_def live_def)

lemma same_tree_node:
  assumes "same_tree ch ch'" and "ch_nodes ch a = Some x"
  obtains y where "ch_nodes ch' a = Some y" "tn_BlockHash y = tn_BlockHash x" "tn_Height y = tn_Height x" "tn_Parent y = tn_Parent x"
    "tn_Childs y = tn_Childs x"
proof -
  from assms(1) have "map_option shape (ch_nodes ch' a) = Some (shape x)" by (simp add: same_tree_def assms(2))
  with that show thesis by (auto simp: shape_def)
qed

lemma same_tree_inv:
  assumes inv: "tree_inv ch" and s: "same_tree ch ch'" and e: "live ch (ch_blockTreeEnd ch')"
  shows "tree_inv ch'"
proof -
  have l: "live ch' = live ch" using same_tree_live [OF s] by (simp add: fun_eq_iff)
  have ix: "ch_BlockIndex ch' = ch_BlockIndex ch" "ch_BlockTreeRoot ch' = ch_BlockTreeRoot ch" "ch_next ch' = ch_next ch"
    using s by (simp_all add: same_tree_def)
  note node = same_tree_node [OF s]
  have "(\<exists>x. ch_nodes ch' a = Some x \<and> BIdx (tn_BlockHash x) = k) \<and> childs_ok (ch_nodes ch') (live ch) a
      \<and> (a \<noteq> ch_BlockTreeRoot ch \<longrightarrow> parent_ok (ch_nodes ch') (live ch) a)" if "ch_BlockIndex ch k = Some a" for k a
  proof -
    from inv that obtain x where x: "ch_nodes ch a = Some x" "BIdx (tn_BlockHash x) = k" "childs_ok (ch_nodes ch) (live ch) a"
      "a \<noteq> ch_BlockTreeRoot ch \<longrightarrow> parent_ok (ch_nodes ch) (live ch) a" unfolding tree_inv_def by blast
    obtain x' where x': "ch_nodes ch' a = Some x'" "tn_BlockHash x' = tn_BlockHash x" "tn_Height x' = tn_Height x" "tn_Parent x' = tn_Parent x"
      "tn_Childs x' = tn_Childs x" by (rule node [OF x(1)])
    have "live ch c \<and> (\<exists>z. ch_nodes ch' c = Some z \<and> tn_Parent z = Some a \<and> unat (tn_Height z) = Suc (unat (tn_Height x')))"
      if "c \<in> set (tn_Childs x')" for c
    proof -
      from that x(1,3) x'(5) obtain z where z: "live ch c" "ch_nodes ch c = Some z" "tn_Parent z = Some a" "unat (tn_Height z) = Suc (unat (tn_Height x))"
        by (auto simp: childs_ok_def)
      obtain z' where "ch_nodes ch' c = Some z'" "tn_Height z' = tn_Height z" "tn_Parent z' = tn_Parent z" by (rule node [OF z(2)])
      with z x' show ?thesis by simp
    qed
    moreover have "distinct (tn_Childs x')" using x(1,3) x'(5) by (auto simp: childs_ok_def)
    ultimately have "childs_ok (ch_nodes ch') (live ch) a" using x'(1) by (auto simp: childs_ok_def)
    moreover have "parent_ok (ch_nodes ch') (live ch) a" if "a \<noteq> ch_BlockTreeRoot ch"
    proof -
      from x(1,4) that obtain p y where p: "tn_Parent x = Some p" "live ch p" "ch_nodes ch p = Some y" "a \<in> set (tn_Childs y)"
        by (auto simp: parent_ok_def)
      obtain y' where "ch_nodes ch' p = Some y'" "tn_Childs y' = tn_Childs y" by (rule node [OF p(3)])
      with p x' show ?thesis by (auto simp: parent_ok_def)
    qed
    ultimately show ?thesis using x x' by simp
  qed
  moreover obtain r where "ch_nodes ch (ch_BlockTreeRoot ch) = Some r" "tn_Parent r = None" using inv by (auto simp: tree_inv_def)
  then have "\<exists>x. ch_nodes ch' (ch_BlockTreeRoot ch) = Some x \<and> tn_Parent x = None" using node by metis
  moreover have "ch_nodes ch' a = None" if "a \<ge> ch_next ch" for a
  proof -
    have "ch_nodes ch a = None" using inv that by (auto simp: tree_inv_def)
    then show ?thesis using s unfolding same_tree_def by (metis map_option_is_None option.simps(8))
  qed
  ultimately show ?thesis using inv e unfolding tree_inv_def l ix by blast
qed

lemma upd_node_same:
  assumes "upd_node a f ch = Inr ch'" and "\<And>x. shape (f x) = shape x"
  shows "same_tree ch ch'" "ch_blockTreeEnd ch' = ch_blockTreeEnd ch" "ch_Unspent ch' = ch_Unspent ch" "ch_Blocks ch' = ch_Blocks ch"
    "ch_Consensus ch' = ch_Consensus ch"
  using assms by (auto simp: upd_node_def node_def ok_iff same_tree_def)

section \<open>In step\<close>

definition in_step :: "chain \<Rightarrow> bool" where
  "in_step ch \<longleftrightarrow> tree_inv ch \<and> ud_LastBlockHeight (ch_Unspent ch) = tn_Height (the (ch_nodes ch (ch_blockTreeEnd ch)))"

lemma in_step_tree: "in_step ch \<Longrightarrow> tree_inv ch"
  by (simp add: in_step_def)

text \<open>The head goes to a block, the coins to its height.\<close>

lemma in_step_to:
  assumes inv: "tree_inv ch" and s: "same_tree ch ch'" and a: "live ch a" "ch_nodes ch a = Some x" and ud: "ud_LastBlockHeight ud = tn_Height x"
  shows "in_step (SetLast a (ch'\<lparr>ch_Unspent := ud\<rparr>))" "live (SetLast a (ch'\<lparr>ch_Unspent := ud\<rparr>)) b = live ch b"
    "ch_BlockTreeRoot (SetLast a (ch'\<lparr>ch_Unspent := ud\<rparr>)) = ch_BlockTreeRoot ch"
proof -
  let ?ch = "SetLast a (ch'\<lparr>ch_Unspent := ud\<rparr>)"
  have t: "same_tree ch ?ch" using s by simp
  then show "live ?ch b = live ch b" "ch_BlockTreeRoot ?ch = ch_BlockTreeRoot ch" by (simp_all add: same_tree_live) (simp add: same_tree_def SetLast_def)
  have e: "ch_blockTreeEnd ?ch = a" "ch_Unspent ?ch = ud" by (simp_all add: SetLast_def)
  have "tree_inv ?ch" by (rule same_tree_inv [OF inv t]) (simp add: e a)
  moreover obtain y where "ch_nodes ?ch a = Some y" "tn_Height y = tn_Height x" by (rule same_tree_node [OF t a(2)])
  ultimately show "in_step ?ch" using ud by (simp add: in_step_def e)
qed

lemma in_step_same:
  assumes i: "in_step ch" and s: "same_tree ch ch'" and e: "ch_blockTreeEnd ch' = ch_blockTreeEnd ch" "ch_Unspent ch' = ch_Unspent ch"
  shows "in_step ch'"
proof -
  have l: "live ch (ch_blockTreeEnd ch)" using i by (simp add: in_step_def tree_inv_def)
  obtain x where x: "ch_nodes ch (ch_blockTreeEnd ch) = Some x" by (rule live_node [OF in_step_tree [OF i] l])
  obtain y where "ch_nodes ch' (ch_blockTreeEnd ch) = Some y" "tn_Height y = tn_Height x" by (rule same_tree_node [OF s x])
  moreover have "tree_inv ch'" by (rule same_tree_inv [OF in_step_tree [OF i] s]) (simp add: e l)
  ultimately show ?thesis using i x by (simp add: in_step_def e)
qed

text \<open>The heights the coins go to.\<close>

lemma CommitBlockTxs_height: "CommitBlockTxs cfg db c h = Some (Inr db') \<Longrightarrow> ud_LastBlockHeight db' = bc_Height c"
  unfolding CommitBlockTxs_def
  by (auto simp: bindR_def Let_def split: sum.splits option.splits if_splits)

lemma UndoBlockTxs_height: "UndoBlockTxs cfg db txs h = Some (Inr db') \<Longrightarrow> ud_LastBlockHeight db' = ud_LastBlockHeight db - 1"
  unfolding UndoBlockTxs_def
  by (auto simp: bindR_def split: sum.splits option.splits)

lemma Process_height: "ProcessBlockTransactions env bl h k = Inr (s, c, ts) \<Longrightarrow> bc_Height c = h"
  unfolding ProcessBlockTransactions_def commitTxs_def by (auto simp: ok_iff split: if_splits)

lemma bindR_Inr: "bindR m f = Some (Inr y) \<longleftrightarrow> (\<exists>x. m = Some (Inr x) \<and> f x = Some (Inr y))"
  by (auto simp: bindR_def split: option.split sum.split)

section \<open>Each step keeps them in step\<close>

lemma climb_child:
  assumes "climb h n e = Some r"
  shows "\<forall>c. r = Inr c \<longrightarrow> (\<exists>z. h c = Some z \<and> tn_Parent z = Some n) \<and> (\<exists>a. e = Some a \<and> anc h c a)"
proof (rule climb.raw_induct [OF _ assms, where P = "\<lambda>h n e r. \<forall>c. r = Inr c \<longrightarrow> (\<exists>z. h c = Some z \<and> tn_Parent z = Some n) \<and> (\<exists>a. e = Some a \<and> anc h c a)"], goal_cases)
  case (1 f h n e r)
  from 1(2) consider "\<exists>p. r = Inl p" | a x where "e = Some a" "h a = Some x" "tn_Parent x = Some n" "r = Inr a"
    | a x where "e = Some a" "h a = Some x" "f h n (tn_Parent x) = Some r"
    by (auto split: option.splits if_splits)
  then show ?case
  proof cases
    case 3
    from 1(1) [OF 3(3)] 3(1,2) show ?thesis by (auto intro: anc_step)
  qed (auto intro: anc_refl)
qed

lemma FindPathTo_child:
  assumes inv: "tree_inv ch" and n: "live ch n" and e: "live ch e" and f: "FindPathTo (ch_nodes ch) n e = Some (Inr (Some c))"
  obtains z where "live ch c" "ch_nodes ch c = Some z" "tn_Parent z = Some n"
proof -
  obtain x where x: "ch_nodes ch n = Some x" "\<And>c. c \<in> set (tn_Childs x) \<Longrightarrow> live ch c \<and> (\<exists>z. ch_nodes ch c = Some z \<and> tn_Parent z = Some n)"
    by (rule live_node [OF inv n]) blast
  from f x(1) consider "tn_Childs x = [c]" | "climb (ch_nodes ch) n (Some e) = Some (Inr c)"
    by (auto simp: FindPathTo_def bindR_Inr split: option.splits if_splits list.splits)
  then show thesis
  proof cases
    case 1
    then show thesis using x(2) [of c] that by auto
  next
    case 2
    from climb_child [OF 2, rule_format, OF refl] obtain z where "ch_nodes ch c = Some z" "tn_Parent z = Some n" "anc (ch_nodes ch) c e" by blast
    with anc_live [OF inv e] that show thesis by blast
  qed
qed

lemma drop_in_step:
  assumes i: "in_step ch" and l: "live ch nxt" and z: "ch_nodes ch nxt = Some z" "tn_Parent z = Some (ch_blockTreeEnd ch)"
    and d: "drop_branch nxt ch = Some (Inr (go, ch'))"
  shows "\<not> go \<and> in_step ch' \<and> ch_BlockTreeRoot ch' = ch_BlockTreeRoot ch"
proof -
  note inv = in_step_tree [OF i]
  from d have D: "DeleteBranch (2 ^ 32) nxt ch = Some (Inr ch')" and go: "\<not> go" by (auto simp: drop_branch_def bindR_Inr)
  have nr: "nxt \<noteq> ch_BlockTreeRoot ch" using root_parent [OF inv] z by auto
  have el: "live ch (ch_blockTreeEnd ch)" using inv by (simp add: tree_inv_def)
  obtain e where e: "ch_nodes ch (ch_blockTreeEnd ch) = Some e" by (rule live_node [OF inv el])
  have ne: "ch_blockTreeEnd ch \<notin> branch ch nxt"
  proof
    assume "ch_blockTreeEnd ch \<in> branch ch nxt"
    then have "anc (ch_nodes ch) nxt (ch_blockTreeEnd ch)" by (simp add: branch_def)
    from anc_height [OF inv el this z(1) e] tree_parent [OF inv l nr] z e show False by (metis Suc_n_not_le_n option.inject)
  qed
  from DeleteBranch_inv [OF inv l nr ne] D have r: "tree_inv ch'" "\<forall>a. live ch' a \<longleftrightarrow> live ch a \<and> a \<notin> branch ch nxt"
    "ch_blockTreeEnd ch' = ch_blockTreeEnd ch" "ch_Unspent ch' = ch_Unspent ch" "ch_BlockTreeRoot ch' = ch_BlockTreeRoot ch"
    "\<forall>a. live ch' a \<longrightarrow> map_option tn_Height (ch_nodes ch' a) = map_option tn_Height (ch_nodes ch a)" by auto
  from r(2) el ne have "live ch' (ch_blockTreeEnd ch)" by blast
  with r(6) e have "map_option tn_Height (ch_nodes ch' (ch_blockTreeEnd ch)) = Some (tn_Height e)" by simp
  then have "tn_Height (the (ch_nodes ch' (ch_blockTreeEnd ch))) = tn_Height e" by auto
  with i e r go show ?thesis by (simp add: in_step_def)
qed

lemma stored_block_same: "stored_block ne h ch = Inr (r, t, ch') \<Longrightarrow>
    same_tree ch ch' \<and> ch_blockTreeEnd ch' = ch_blockTreeEnd ch \<and> ch_Unspent ch' = ch_Unspent ch"
  by (auto simp: stored_block_def ok_iff split: option.splits)

lemma connect_stored_in_step:
  assumes i: "in_step ch" and l: "live ch nxt" and x: "ch_nodes ch nxt = Some x" "tn_Parent x = Some (ch_blockTreeEnd ch)"
    and c: "connect_stored ne k nxt x tr bl ch = Some (Inr (go, ch'))"
  shows "in_step ch' \<and> ch_BlockTreeRoot ch' = ch_BlockTreeRoot ch \<and> (go \<longrightarrow> (\<forall>a. live ch' a = live ch a))"
proof (cases "ProcessBlockTransactions (env_of ne ch) (bl\<lparr>bl_Trusted := tr\<rparr>) (tn_Height x) k")
  case (Inl e)
  then have "drop_branch nxt ch = Some (Inr (go, ch'))" using c by (cases e) (simp_all add: connect_stored_def)
  from drop_in_step [OF i l x this] show ?thesis by simp
next
  case (Inr r)
  obtain s cs ts where r: "r = (s, cs, ts)" by (cases r)
  from c obtain ch1 ud where u: "upd_node nxt (\<lambda>x. x\<lparr>tn_SigopsCost := s\<rparr>) ch = Inr ch1"
    "CommitBlockTxs (ne_cfg ne) (ch_Unspent ch1) cs (bl_Hash bl) = Some (Inr ud)" "go"
    "ch' = SetLast nxt ((if tr then ch1 else ch1\<lparr>ch_Blocks := BlockTrusted (bl_Hash bl) (ch_Blocks ch1)\<rparr>)\<lparr>ch_Unspent := ud\<rparr>)"
    unfolding connect_stored_def Inr r sum.case prod.case bindR_Inr Let_def by (cases tr) auto
  have "same_tree ch ch1" by (rule upd_node_same [OF u(1)]) (simp add: shape_def)
  then have t: "same_tree ch (if tr then ch1 else ch1\<lparr>ch_Blocks := BlockTrusted (bl_Hash bl) (ch_Blocks ch1)\<rparr>)" by simp
  have h: "ud_LastBlockHeight ud = tn_Height x" using CommitBlockTxs_height [OF u(2)] Process_height [OF Inr [unfolded r]] by simp
  from in_step_to [OF in_step_tree [OF i] t l x(1) h] show ?thesis unfolding u(4) by blast
qed

lemma parse_step_in_step:
  assumes i: "in_step ch" and d: "live ch dst" and p: "parse_step ne dst ch = Some (Inr (go, ch'))"
  shows "in_step ch' \<and> ch_BlockTreeRoot ch' = ch_BlockTreeRoot ch \<and> (go \<longrightarrow> live ch' dst)"
proof -
  note inv = in_step_tree [OF i]
  have el: "live ch (LastBlock ch)" using inv by (simp add: tree_inv_def LastBlock_def)
  from p obtain f where f: "FindPathTo (ch_nodes ch) (LastBlock ch) dst = Some (Inr f)" by (auto simp: parse_step_def bindR_Inr)
  show ?thesis
  proof (cases f)
    case None
    then show ?thesis using p f i d by (simp add: parse_step_def)
  next
    case (Some nxt)
    obtain x where x: "live ch nxt" "ch_nodes ch nxt = Some x" "tn_Parent x = Some (LastBlock ch)"
      by (rule FindPathTo_child [OF inv el d f [unfolded Some]])
    have N: "node (ch_nodes ch) (Some nxt) = Inr x" by (simp add: node_def x)
    note P = p [unfolded parse_step_def f Some bindR_simps option.case N]
    show ?thesis
    proof (cases "tn_BlockSize x = 0")
      case True
      then show ?thesis using P i d by simp
    next
      case False
      from P [unfolded if_not_P [OF False] bindR_Inr] obtain er bl tr ch1 where s: "stored_block ne (tn_BlockHash x) ch = Inr ((er, bl), tr, ch1)"
        by auto
      note P = P [unfolded if_not_P [OF False] s bindR_simps prod.case]
      have t: "same_tree ch ch1" "ch_blockTreeEnd ch1 = ch_blockTreeEnd ch" "ch_Unspent ch1 = ch_Unspent ch"
        using stored_block_same [OF s] by blast+
      have i1: "in_step ch1" by (rule in_step_same [OF i t])
      have l1: "live ch1 nxt" "live ch1 dst" using same_tree_live [OF t(1)] x(1) d by simp_all
      obtain x1 where x1: "ch_nodes ch1 nxt = Some x1" "tn_Height x1 = tn_Height x" "tn_Parent x1 = tn_Parent x" by (rule same_tree_node [OF t(1) x(2)])
      have pa: "tn_Parent x1 = Some (ch_blockTreeEnd ch1)" using x1 x(3) t(2) by (simp add: LastBlock_def)
      have rt: "ch_BlockTreeRoot ch1 = ch_BlockTreeRoot ch" using t(1) by (simp add: same_tree_def)
      from P consider (d) "drop_branch nxt ch1 = Some (Inr (go, ch'))"
        | (c) k bl' where "connect_stored ne k nxt x tr bl' ch1 = Some (Inr (go, ch'))"
        by (auto simp: bindR_Inr split: if_splits)
      then show ?thesis
      proof cases
        case d
        from drop_in_step [OF i1 l1(1) x1(1) pa this] rt show ?thesis by simp
      next
        case c
        have same: "connect_stored ne k nxt x tr bl' ch1 = connect_stored ne k nxt x1 tr bl' ch1" by (simp add: connect_stored_def x1(2))
        from connect_stored_in_step [OF i1 l1(1) x1(1) pa c [unfolded same]] rt l1 show ?thesis by simp
      qed
    qed
  qed
qed

section \<open>Runs keep them in step\<close>

lemma parse_loop_in_step:
  assumes "parse_loop ne dst ch = Some (Inr ch')" and "in_step ch" and "live ch dst"
  shows "in_step ch' \<and> ch_BlockTreeRoot ch' = ch_BlockTreeRoot ch"
proof -
  have "\<forall>ch'. r = Inr ch' \<longrightarrow> in_step ch \<longrightarrow> live ch dst \<longrightarrow> in_step ch' \<and> ch_BlockTreeRoot ch' = ch_BlockTreeRoot ch"
    if "parse_loop ne dst ch = Some r" for r
  proof (rule parse_loop.raw_induct [OF _ that, where P = "\<lambda>ne dst ch r. \<forall>ch'. r = Inr ch' \<longrightarrow> in_step ch \<longrightarrow> live ch dst \<longrightarrow>
      in_step ch' \<and> ch_BlockTreeRoot ch' = ch_BlockTreeRoot ch"], goal_cases)
    case (1 f ne dst ch r)
    show ?case
    proof (intro allI impI)
      fix ch' assume r: "r = Inr ch'" and i: "in_step ch" "live ch dst"
      show "in_step ch' \<and> ch_BlockTreeRoot ch' = ch_BlockTreeRoot ch"
      proof (cases "LastBlock ch = dst")
        case True
        then show ?thesis using 1(2) r i by simp
      next
        case False
        from 1(2) [unfolded if_not_P [OF False] r bindR_Inr] obtain go ch1 where p: "parse_step ne dst ch = Some (Inr (go, ch1))"
          "(if go then f ne dst ch1 else Some (Inr ch1)) = Some (Inr ch')" by (metis fst_conv snd_conv surj_pair)
        note s = parse_step_in_step [OF i p(1)]
        show ?thesis
        proof (cases go)
          case True
          with p(2) have "f ne dst ch1 = Some (Inr ch')" by simp
          from 1(1) [OF this] s True show ?thesis by simp
        next
          case False
          then show ?thesis using p(2) s by simp
        qed
      qed
    qed
  qed
  with assms show ?thesis by blast
qed

lemma UndoLastBlock_in_step:
  assumes i: "in_step ch" and u: "UndoLastBlock ne ch = Some (Inr ch')"
  shows "in_step ch' \<and> ch_BlockTreeRoot ch' = ch_BlockTreeRoot ch \<and> (\<forall>a. live ch' a = live ch a)"
proof -
  note inv = in_step_tree [OF i]
  have el: "live ch (LastBlock ch)" using inv by (simp add: tree_inv_def LastBlock_def)
  obtain x where x: "ch_nodes ch (LastBlock ch) = Some x" by (rule live_node [OF inv el])
  have N: "node (ch_nodes ch) (Some (LastBlock ch)) = Inr x" by (simp add: node_def x)
  from u [unfolded UndoLastBlock_def Let_def N bindR_simps bindR_Inr] obtain er bl t ch1
    where s: "stored_block ne (tn_BlockHash x) ch = Inr ((er, bl), t, ch1)" by auto
  have t: "same_tree ch ch1" "ch_blockTreeEnd ch1 = ch_blockTreeEnd ch" "ch_Unspent ch1 = ch_Unspent ch"
    using stored_block_same [OF s] by blast+
  from u [unfolded UndoLastBlock_def Let_def N bindR_simps s prod.case] obtain y txs ud where y: "node (ch_nodes ch1) (tn_Parent x) = Inr y"
    "UndoBlockTxs (ne_cfg ne) (ch_Unspent ch1) txs (tn_BlockHash y) = Some (Inr ud)"
    "ch' = SetLast (the (tn_Parent x)) (ch1\<lparr>ch_Unspent := ud\<rparr>)"
    by (auto simp: bindR_Inr split: if_splits)
  then obtain p where p: "tn_Parent x = Some p" by (cases "tn_Parent x") (auto simp: node_def)
  have "LastBlock ch \<noteq> ch_BlockTreeRoot ch" using root_parent [OF inv] x p by auto
  from tree_parent [OF inv el this] x p obtain z where z: "live ch p" "ch_nodes ch p = Some z" "unat (tn_Height x) = Suc (unat (tn_Height z))"
    by (metis option.inject)
  have "tn_Height z = tn_Height x - 1"
  proof -
    have "unat (tn_Height x - 1) = unat (tn_Height x) - 1" using z(3) by (intro unat_minus_one) auto
    then show ?thesis using z(3) by (metis diff_Suc_1 unsigned_word_eqI)
  qed
  then have h: "ud_LastBlockHeight ud = tn_Height z"
    using UndoBlockTxs_height [OF y(2)] i x t(3) by (simp add: in_step_def LastBlock_def)
  from in_step_to [OF inv t(1) z(1,2) h] show ?thesis unfolding y(3) p option.sel by blast
qed

lemma unwind_in_step:
  assumes "unwind ne cur ch = Some (Inr ch')" and "in_step ch"
  shows "in_step ch' \<and> ch_BlockTreeRoot ch' = ch_BlockTreeRoot ch \<and> (\<forall>a. live ch' a = live ch a) \<and> LastBlock ch' = cur"
proof -
  have "\<forall>ch'. r = Inr ch' \<longrightarrow> in_step ch \<longrightarrow> in_step ch' \<and> ch_BlockTreeRoot ch' = ch_BlockTreeRoot ch \<and> (\<forall>a. live ch' a = live ch a) \<and> LastBlock ch' = cur"
    if "unwind ne cur ch = Some r" for r
  proof (rule unwind.raw_induct [OF _ that, where P = "\<lambda>ne cur ch r. \<forall>ch'. r = Inr ch' \<longrightarrow> in_step ch \<longrightarrow>
      in_step ch' \<and> ch_BlockTreeRoot ch' = ch_BlockTreeRoot ch \<and> (\<forall>a. live ch' a = live ch a) \<and> LastBlock ch' = cur"], goal_cases)
    case (1 f ne cur ch r)
    show ?case
    proof (intro allI impI)
      fix ch' assume r: "r = Inr ch'" and i: "in_step ch"
      show "in_step ch' \<and> ch_BlockTreeRoot ch' = ch_BlockTreeRoot ch \<and> (\<forall>a. live ch' a = live ch a) \<and> LastBlock ch' = cur"
      proof (cases "LastBlock ch = cur")
        case True
        then show ?thesis using 1(2) r i by simp
      next
        case False
        from 1(2) [unfolded if_not_P [OF False] r bindR_Inr] obtain ch1 where u: "UndoLastBlock ne ch = Some (Inr ch1)" "f ne cur ch1 = Some (Inr ch')"
          by auto
        from 1(1) [OF u(2)] UndoLastBlock_in_step [OF i u(1)] show ?thesis by simp
      qed
    qed
  qed
  with assms show ?thesis by blast
qed

lemma rewind_in_step:
  assumes r: "rewind ne dst ch = Some (Inr (go, ch'))" and i: "in_step ch"
  shows "in_step ch' \<and> ch_BlockTreeRoot ch' = ch_BlockTreeRoot ch \<and> (\<forall>a. live ch' a = live ch a)"
  using r i unfolding rewind_def bindR_Inr
  by (auto simp: bindR_Inr split: option.splits dest!: unwind_in_step [OF _ i])

lemma ParseTillBlock_in_step:
  assumes "ParseTillBlock ne dst ch = Some (Inr ch')" and "in_step ch" and "live ch dst"
  shows "in_step ch' \<and> ch_BlockTreeRoot ch' = ch_BlockTreeRoot ch"
proof -
  have "\<forall>ch'. r = Inr ch' \<longrightarrow> in_step ch \<longrightarrow> live ch dst \<longrightarrow> in_step ch' \<and> ch_BlockTreeRoot ch' = ch_BlockTreeRoot ch"
    if "ParseTillBlock ne dst ch = Some r" for r
  proof (rule ParseTillBlock.raw_induct [OF _ that, where P = "\<lambda>ne dst ch r. \<forall>ch'. r = Inr ch' \<longrightarrow> in_step ch \<longrightarrow> live ch dst \<longrightarrow>
      in_step ch' \<and> ch_BlockTreeRoot ch' = ch_BlockTreeRoot ch"], goal_cases)
    case (1 f ne dst ch r)
    show ?case
    proof (intro allI impI)
      fix ch' assume r: "r = Inr ch'" and i: "in_step ch" "live ch dst"
      from 1(2) [unfolded r bindR_Inr] obtain ch1 where p: "parse_loop ne dst ch = Some (Inr ch1)"
        "(if LastBlock ch1 = dst then Some (Inr ch1) else
           bindR (FindFarthestNode (2 ^ 32) (ch_nodes ch1) (ch_BlockTreeRoot ch1)) (\<lambda>f'.
           bindR (rewind ne (fst f') ch1) (\<lambda>r. if fst r then f ne (fst f') (snd r) else Some (Inr (snd r))))) = Some (Inr ch')"
        by blast
      note s = parse_loop_in_step [OF p(1) i]
      show "in_step ch' \<and> ch_BlockTreeRoot ch' = ch_BlockTreeRoot ch"
      proof (cases "LastBlock ch1 = dst")
        case True
        then show ?thesis using p(2) s by simp
      next
        case False
        have i1: "in_step ch1" and inv: "tree_inv ch1" using s in_step_tree by blast+
        have "live ch1 (ch_BlockTreeRoot ch1)" using inv by (simp add: tree_inv_def)
        from FindFarthestNode_farthest [OF inv this fuel_enough] obtain m d
          where m: "FindFarthestNode (2 ^ 32) (ch_nodes ch1) (ch_BlockTreeRoot ch1) = Some (Inr (m, d))" "live ch1 m"
          by (auto simp: farthest_def)
        from p(2) [unfolded if_not_P [OF False] m(1) bindR_simps bindR_Inr fst_conv] obtain go ch2 where w: "rewind ne m ch1 = Some (Inr (go, ch2))"
          "(if go then f ne m ch2 else Some (Inr ch2)) = Some (Inr ch')" by (metis fst_conv snd_conv surj_pair)
        note s2 = rewind_in_step [OF w(1) i1]
        show ?thesis
        proof (cases go)
          case True
          with w(2) have "f ne m ch2 = Some (Inr ch')" by simp
          from 1(1) [OF this] s s2 m(2) show ?thesis by simp
        next
          case False
          then show ?thesis using w(2) s s2 by simp
        qed
      qed
    qed
  qed
  with assms show ?thesis by blast
qed

lemma MoveToBlock_in_step:
  assumes m: "MoveToBlock ne dst ch = Some (Inr ch')" and i: "in_step ch" and l: "live ch dst"
  shows "in_step ch' \<and> ch_BlockTreeRoot ch' = ch_BlockTreeRoot ch"
proof -
  from m obtain go ch1 where r: "rewind ne dst ch = Some (Inr (go, ch1))" "(if go then ParseTillBlock ne dst ch1 else Some (Inr ch1)) = Some (Inr ch')"
    unfolding MoveToBlock_def bindR_Inr by auto
  from rewind_in_step [OF r(1) i] r(2) l ParseTillBlock_in_step [of ne dst ch1 ch'] show ?thesis by (auto split: if_splits)
qed

text \<open>A leaf that is taken out.\<close>

lemma leaf_branch:
  assumes inv: "tree_inv ch" and l: "live ch cur" and x: "ch_nodes ch cur = Some x" "tn_Childs x = []"
  shows "branch ch cur = {cur}"
proof (intro equalityI subsetI)
  fix b assume b: "b \<in> branch ch cur"
  show "b \<in> {cur}"
  proof (rule ccontr)
    assume "b \<notin> {cur}"
    with b anc_via_child [OF inv, of b cur x] x show False by (auto simp: branch_def)
  qed
qed (use l in \<open>simp add: branch_def anc_refl\<close>)

lemma leaf_removed:
  assumes i: "in_step ch" and l: "live ch cur" and x: "ch_nodes ch cur = Some x" "tn_Childs x = []" "tn_Parent x = Some (ch_blockTreeEnd ch)"
    and d: "delChild (ch_blockTreeEnd ch) cur (ch_nodes ch) = Inr h"
  shows "in_step (unindex (tn_BlockHash x) (ch\<lparr>ch_nodes := h\<rparr>))"
proof -
  note inv = in_step_tree [OF i]
  let ?p = "ch_blockTreeEnd ch" let ?ch = "unindex (tn_BlockHash x) (ch\<lparr>ch_nodes := h\<rparr>)"
  have nr: "cur \<noteq> ch_BlockTreeRoot ch" using root_parent [OF inv] x by auto
  obtain y where y: "live ch ?p" "ch_nodes ch ?p = Some y" "cur \<in> set (tn_Childs y)" "unat (tn_Height x) = Suc (unat (tn_Height y))"
    by (rule tree_parent [OF inv l nr]) (use x in auto)
  have ne: "cur \<noteq> ?p" using x y by auto
  from d y(2) have h: "h = (ch_nodes ch)(?p \<mapsto> y\<lparr>tn_Childs := filter (\<lambda>c. c \<noteq> cur) (tn_Childs y)\<rparr>)"
    by (auto simp: delChild_def node_def ok_iff del_from_def Let_def split: if_splits)
  note B = leaf_branch [OF inv l x(1,2)]
  have k: "node_key ch ` branch ch cur = {BIdx (tn_BlockHash x)}" by (simp add: B node_key_def x(1))
  have t: "tree_inv ?ch \<and> (\<forall>a. live ?ch a \<longleftrightarrow> live ch a \<and> a \<notin> branch ch cur)"
  proof (rule pruned_tree [OF inv l nr _ x(1,3) y(2)])
    show "ch_blockTreeEnd ch \<notin> branch ch cur" using ne by (simp add: B)
    show "ch_nodes ?ch a = ((ch_nodes ch)(?p \<mapsto> y\<lparr>tn_Childs := filter (\<lambda>c. c \<noteq> cur) (tn_Childs y)\<rparr>)) a" if "a \<notin> branch ch cur" for a
      by (simp add: unindex_def h)
    show "ch_BlockIndex ?ch = (\<lambda>k. if k \<in> node_key ch ` branch ch cur then None else ch_BlockIndex ch k)"
      by (auto simp: k unindex_def fun_eq_iff)
    show "ch_nodes ?ch a = None" if "a \<ge> ch_next ch" for a
    proof -
      have "ch_nodes ch a = None" using inv that by (auto simp: tree_inv_def)
      then show ?thesis using y(2) by (auto simp: unindex_def h)
    qed
  qed (simp_all add: unindex_def)
  then show ?thesis using i y(2) by (simp add: in_step_def) (simp add: unindex_def h)
qed

lemma commit_on_top_in_step:
  assumes i: "in_step ch" and l: "live ch cur" and x: "ch_nodes ch cur = Some x" "tn_Parent x = Some (ch_blockTreeEnd ch)"
    and c: "commit_on_top ne bl cur x ch = Some (Inr (er, ch'))" and leaf: "(\<exists>e. er = Some (NotConnected e)) \<longrightarrow> tn_Childs x = []"
  shows "in_step ch' \<and> ch_BlockTreeRoot ch' = ch_BlockTreeRoot ch"
proof (cases "ProcessBlockTransactions (env_of ne ch) bl (tn_Height x) (bl_LastKnownHeight bl)")
  case (Inl e)
  have "Some (andThen (deref (tn_Parent x)) (\<lambda>p. andThen (delChild p cur (ch_nodes ch)) (\<lambda>h.
            Inr (Some (NotConnected e), unindex (tn_BlockHash x) (ch\<lparr>ch_nodes := h\<rparr>))))) = Some (Inr (er, ch'))"
    using c Inl by (cases e) (simp_all add: commit_on_top_def)
  then obtain h where h: "delChild (ch_blockTreeEnd ch) cur (ch_nodes ch) = Inr h" "er = Some (NotConnected e)"
    "ch' = unindex (tn_BlockHash x) (ch\<lparr>ch_nodes := h\<rparr>)" by (auto simp: x(2) ok_iff)
  from leaf_removed [OF i l x(1) _ x(2) h(1)] leaf h show ?thesis by (simp add: unindex_def)
next
  case (Inr r)
  obtain s cs ts where r: "r = (s, cs, ts)" by (cases r)
  from c obtain ch1 db ud where u: "upd_node cur (\<lambda>x. x\<lparr>tn_SigopsCost := s\<rparr>) ch = Inr ch1"
    "CommitBlockTxs (ne_cfg ne) (ch_Unspent ch1) cs (bl_Hash bl) = Some (Inr ud)"
    "ch' = SetLast cur ((ch1\<lparr>ch_Blocks := db\<rparr>)\<lparr>ch_Unspent := ud\<rparr>)"
    unfolding commit_on_top_def Inr r sum.case prod.case bindR_Inr by auto
  have "same_tree ch ch1" by (rule upd_node_same [OF u(1)]) (simp add: shape_def)
  then have t: "same_tree ch (ch1\<lparr>ch_Blocks := db\<rparr>)" by simp
  have h: "ud_LastBlockHeight ud = tn_Height x" using CommitBlockTxs_height [OF u(2)] Process_height [OF Inr [unfolded r]] by simp
  from in_step_to [OF in_step_tree [OF i] t l x(1) h] show ?thesis unfolding u(3) by blast
qed

lemma CommitBlock_in_step:
  assumes i: "in_step ch" and l: "live ch cur" and x: "ch_nodes ch cur = Some x"
    and c: "CommitBlock ne ops bl cur ch = Some (Inr (er, ch'))" and leaf: "(\<exists>e. er = Some (NotConnected e)) \<longrightarrow> tn_Childs x = []"
  shows "in_step ch' \<and> ch_BlockTreeRoot ch' = ch_BlockTreeRoot ch"
proof -
  let ?f = "\<lambda>x. x\<lparr>tn_BlockSize := of_nat (length (sl_data (bl_Raw bl))), tn_TxCount := word_of_int (bl_TxCount bl)\<rparr>"
  from c [unfolded CommitBlock_def bindR_Inr] obtain ch1 x1 where u: "upd_node cur ?f ch = Inr ch1" "node (ch_nodes ch1) (Some cur) = Inr x1"
    "(if tn_Parent x1 = Some (LastBlock ch1) then commit_on_top ne bl cur x1 ch1 else commit_aside ne ops bl cur x1 ch1) = Some (Inr (er, ch'))"
    by auto
  have sh: "shape (?f x) = shape x" for x by (simp add: shape_def)
  note t = upd_node_same [OF u(1) sh]
  note i1 = in_step_same [OF i t(1,2,3)]
  have l1: "live ch1 cur" using same_tree_live [OF t(1)] l by simp
  have x1: "ch_nodes ch1 cur = Some x1" using u(2) by (auto simp: node_def ok_iff split: option.splits)
  have ch: "tn_Childs x1 = tn_Childs x" using same_tree_node [OF t(1) x] x1 by auto
  have rt: "ch_BlockTreeRoot ch1 = ch_BlockTreeRoot ch" using t(1) by (simp add: same_tree_def)
  show ?thesis
  proof (cases "tn_Parent x1 = Some (LastBlock ch1)")
    case True
    then have "tn_Parent x1 = Some (ch_blockTreeEnd ch1)" by (simp add: LastBlock_def)
    moreover have "commit_on_top ne bl cur x1 ch1 = Some (Inr (er, ch'))" using u(3) True by simp
    ultimately show ?thesis using commit_on_top_in_step [OF i1 l1 x1] leaf ch rt by simp
  next
    case False
    with u(3) obtain db more where b: "(if more then bindR (MoveToBlock ne cur (ch1\<lparr>ch_Blocks := db\<rparr>)) (\<lambda>ch. Some (Inr (if LastBlock ch \<noteq> cur then Some MoveFailed else None, ch)))
         else Some (Inr (None, ch1\<lparr>ch_Blocks := db\<rparr>))) = Some (Inr (er, ch'))"
      unfolding commit_aside_def Let_def if_not_P [OF False] bindR_Inr by blast
    have i2: "in_step (ch1\<lparr>ch_Blocks := db\<rparr>)" by (rule in_step_same [OF i1]) simp_all
    show ?thesis
    proof (cases more)
      case True
      with b obtain ch2 where m: "MoveToBlock ne cur (ch1\<lparr>ch_Blocks := db\<rparr>) = Some (Inr ch2)" "ch' = ch2" by (auto simp: bindR_Inr)
      have "live (ch1\<lparr>ch_Blocks := db\<rparr>) cur" using l1 by (simp add: live_def)
      from MoveToBlock_in_step [OF m(1) i2 this] m(2) rt show ?thesis by simp
    next
      case False
      then show ?thesis using b i2 rt by auto
    qed
  qed
qed

end
