(* ===== verification/ChainLoadLaws.thy ===== *)
theory ChainLoadLaws
  imports ChainLoad ChainMoveLaws
begin

text \<open>
  The tree that is built from the index of the database is a tree, in whatever order the blocks are linked, if every
  block has its parent there, one lower.
\<close>

section \<open>The nodes\<close>

text \<open>The index and the nodes of the walk: nothing is linked yet.\<close>

definition loose :: "chain \<Rightarrow> bool" where
  "loose ch \<longleftrightarrow> ch_BlockIndex ch (BIdx (ch_Genesis ch)) = Some (ch_BlockTreeRoot ch)
   \<and> (\<forall>k a. ch_BlockIndex ch k = Some a \<longrightarrow> (\<exists>x. ch_nodes ch a = Some x \<and> BIdx (tn_BlockHash x) = k \<and> tn_Parent x = None \<and> tn_Childs x = []))
   \<and> (\<forall>a x. ch_nodes ch a = Some x \<longrightarrow> tn_Childs x = []) \<and> finite (dom (ch_BlockIndex ch))
   \<and> (\<forall>a\<ge>ch_next ch. ch_nodes ch a = None)"

text \<open>What the operations of the start leave alone.\<close>

definition same_rest :: "chain \<Rightarrow> chain \<Rightarrow> bool" where
  "same_rest ch ch' \<longleftrightarrow> ch_Unspent ch' = ch_Unspent ch \<and> ch_Genesis ch' = ch_Genesis ch \<and> ch_Consensus ch' = ch_Consensus ch"

lemma nextBlock_loose:
  assumes "loose ch"
  shows "loose (nextBlock w ch) \<and> same_rest ch (nextBlock w ch) \<and> ch_BlockTreeRoot (nextBlock w ch) = ch_BlockTreeRoot ch
    \<and> ch_Blocks (nextBlock w ch) = ch_Blocks ch"
proof -
  obtain h header height blen txs where w: "w = (h, header, height, blen, txs)" by (cases w)
  show ?thesis
  proof (cases "ch_BlockIndex ch (BIdx h)")
    case None
    have n: "ch_nodes ch (ch_next ch) = None" using assms by (simp add: loose_def)
    have l: "ch_BlockIndex ch k = Some a \<Longrightarrow> a \<noteq> ch_next ch" for k a
      using assms n by (metis loose_def option.distinct(1))
    have "loose (nextBlock w ch)"
      unfolding loose_def
    proof (intro conjI allI impI)
      show "ch_BlockIndex (nextBlock w ch) (BIdx (ch_Genesis (nextBlock w ch))) = Some (ch_BlockTreeRoot (nextBlock w ch))"
        using assms None by (auto simp: w loose_def)
    next
      fix k a assume "ch_BlockIndex (nextBlock w ch) k = Some a"
      then have "k = BIdx h \<and> a = ch_next ch \<or> ch_BlockIndex ch k = Some a" using None by (auto simp: w split: if_splits)
      then show "\<exists>x. ch_nodes (nextBlock w ch) a = Some x \<and> BIdx (tn_BlockHash x) = k \<and> tn_Parent x = None \<and> tn_Childs x = []"
        using assms None l [of k a] by (auto simp: w loose_def new_node_def)
    next
      fix a x assume "ch_nodes (nextBlock w ch) a = Some x"
      then show "tn_Childs x = []" using assms None by (auto simp: w loose_def new_node_def split: if_splits)
    next
      show "finite (dom (ch_BlockIndex (nextBlock w ch)))" using assms None by (simp add: w loose_def)
    next
      fix a assume "ch_next (nextBlock w ch) \<le> a"
      then show "ch_nodes (nextBlock w ch) a = None" using assms None by (auto simp: w loose_def)
    qed
    then show ?thesis using None by (simp add: w same_rest_def)
  next
    case (Some a)
    then show ?thesis using assms by (simp add: w same_rest_def)
  qed
qed

lemma fold_nextBlock_loose:
  "loose ch \<Longrightarrow> loose (fold nextBlock ws ch) \<and> same_rest ch (fold nextBlock ws ch) \<and> ch_BlockTreeRoot (fold nextBlock ws ch) = ch_BlockTreeRoot ch
    \<and> ch_Blocks (fold nextBlock ws ch) = ch_Blocks ch"
proof (induction ws arbitrary: ch)
  case (Cons w ws)
  from nextBlock_loose [OF Cons.prems, of w] Cons.IH [of "nextBlock w ch"] show ?case by (simp add: same_rest_def)
qed (simp add: same_rest_def)

lemma load_nodes_loose:
  assumes "ch_nodes ch = (\<lambda>_. None)"
  obtains ch1 where "load_nodes opts ch = Inr ch1" "loose ch1" "same_rest ch ch1" "ch_Blocks ch1 = snd (LoadBlockIndex opts (ch_Blocks ch))"
proof -
  let ?a = "ch_next ch"
  let ?n = "new_node (ch_Genesis ch) 0 0 0 (replicate 80 0)"
  let ?c = "ch\<lparr>ch_nodes := (ch_nodes ch)(?a \<mapsto> ?n), ch_next := Suc ?a, ch_BlockTreeRoot := ?a\<rparr>"
  obtain x where x: "RebuildGenesisHeader ?c = Inr (?c\<lparr>ch_nodes := (ch_nodes ?c)(?a \<mapsto> x)\<rparr>)" "tn_BlockHash x = ch_Genesis ch" "tn_Parent x = None" "tn_Childs x = []"
    by (simp add: RebuildGenesisHeader_def upd_node_def node_def new_node_def)
  obtain ws db where l: "LoadBlockIndex opts (ch_Blocks ch) = (ws, db)" by fastforce
  let ?d = "(?c\<lparr>ch_nodes := (ch_nodes ?c)(?a \<mapsto> x)\<rparr>)\<lparr>ch_BlockIndex := [BIdx (ch_Genesis ch) \<mapsto> ?a], ch_Blocks := db\<rparr>"
  have "loose ?d" using assms x by (simp add: loose_def)
  moreover have "load_nodes opts ch = Inr (fold nextBlock ws ?d)" by (simp add: load_nodes_def Let_def x(1) [simplified] l)
  ultimately show thesis using fold_nextBlock_loose [of ?d ws] that by (simp add: same_rest_def l)
qed

section \<open>The links\<close>

text \<open>Every block but the root has its parent in the index, one lower.\<close>

definition chained :: "chain \<Rightarrow> bool" where
  "chained ch \<longleftrightarrow> (\<forall>k a x. ch_BlockIndex ch k = Some a \<and> a \<noteq> ch_BlockTreeRoot ch \<and> ch_nodes ch a = Some x \<longrightarrow>
     (\<exists>p y. ch_BlockIndex ch (prev_key x) = Some p \<and> ch_nodes ch p = Some y \<and> unat (tn_Height x) = Suc (unat (tn_Height y))))"

text \<open>After the blocks of \<open>D\<close> were linked: parents and children, in some order.\<close>

definition parent_of :: "chain \<Rightarrow> nat \<Rightarrow> nat option" where
  "parent_of ch a = (case ch_nodes ch a of None \<Rightarrow> None | Some x \<Rightarrow> ch_BlockIndex ch (prev_key x))"

definition linked :: "chain \<Rightarrow> nat set \<Rightarrow> chain \<Rightarrow> bool" where
  "linked ch0 D ch \<longleftrightarrow> (\<exists>cs. ch = ch0\<lparr>ch_nodes := (\<lambda>a. map_option (\<lambda>x. x\<lparr>tn_Parent := (if a \<in> D then parent_of ch0 a else tn_Parent x), tn_Childs := cs a\<rparr>) (ch_nodes ch0 a))\<rparr>
     \<and> (\<forall>a. distinct (cs a) \<and> set (cs a) = {b \<in> D. parent_of ch0 b = Some a}))"

lemma prev_key_updates [simp]: "prev_key (x\<lparr>tn_Parent := q\<rparr>) = prev_key x" "prev_key (x\<lparr>tn_Childs := c\<rparr>) = prev_key x"
  by (simp_all add: prev_key_def)

lemma link_block_linked:
  assumes l: "loose ch0" "chained ch0" and d: "linked ch0 D ch" and k: "ch_BlockIndex ch0 k = Some v" and v: "v \<notin> D"
  shows "\<exists>ch'. link_block k ch = Inr ch' \<and> linked ch0 (if v = ch_BlockTreeRoot ch0 then D else insert v D) ch'"
proof -
  obtain cs where ch: "ch = ch0\<lparr>ch_nodes := (\<lambda>a. map_option (\<lambda>x. x\<lparr>tn_Parent := (if a \<in> D then parent_of ch0 a else tn_Parent x), tn_Childs := cs a\<rparr>) (ch_nodes ch0 a))\<rparr>"
    and cs: "\<And>a. distinct (cs a)" "\<And>a. set (cs a) = {b \<in> D. parent_of ch0 b = Some a}"
    using d unfolding linked_def by blast
  show ?thesis
  proof (cases "v = ch_BlockTreeRoot ch0")
    case True
    then have "link_block k ch = Inr ch" using k by (simp add: link_block_def ch)
    then show ?thesis using d True by simp
  next
    case False
    obtain x where x: "ch_nodes ch0 v = Some x" using l(1) k unfolding loose_def by blast
    obtain p y where p: "ch_BlockIndex ch0 (prev_key x) = Some p" "ch_nodes ch0 p = Some y" "unat (tn_Height x) = Suc (unat (tn_Height y))"
      using l(2) k False x unfolding chained_def by blast
    have ne: "p \<noteq> v" using p x by auto
    have pv: "parent_of ch0 v = Some p" by (simp add: parent_of_def x p(1))
    let ?cs = "cs(p := cs p @ [v])"
    let ?ch = "ch0\<lparr>ch_nodes := (\<lambda>a. map_option (\<lambda>x. x\<lparr>tn_Parent := (if a \<in> insert v D then parent_of ch0 a else tn_Parent x), tn_Childs := ?cs a\<rparr>) (ch_nodes ch0 a))\<rparr>"
    have "ch_nodes ch v = Some (x\<lparr>tn_Parent := tn_Parent x, tn_Childs := cs v\<rparr>)" "ch_BlockIndex ch = ch_BlockIndex ch0"
      "ch_BlockTreeRoot ch = ch_BlockTreeRoot ch0"
      "ch_nodes ch p = Some (y\<lparr>tn_Parent := (if p \<in> D then parent_of ch0 p else tn_Parent y), tn_Childs := cs p\<rparr>)"
      using v by (simp_all add: ch x p(2))
    then have h: "link_block k ch = Inr (ch\<lparr>ch_nodes := (ch_nodes ch)(v \<mapsto> x\<lparr>tn_Childs := cs v, tn_Parent := Some p\<rparr>,
        p \<mapsto> y\<lparr>tn_Parent := (if p \<in> D then parent_of ch0 p else tn_Parent y), tn_Childs := cs p @ [v]\<rparr>)\<rparr>)"
      using k False p(1) ne by (cases "p \<in> D") (simp_all add: link_block_def node_def upd_node_def addChild_def)
    have "(ch_nodes ch)(v \<mapsto> x\<lparr>tn_Childs := cs v, tn_Parent := Some p\<rparr>,
        p \<mapsto> y\<lparr>tn_Parent := (if p \<in> D then parent_of ch0 p else tn_Parent y), tn_Childs := cs p @ [v]\<rparr>) = ch_nodes ?ch"
      by (rule ext) (use v pv ne x p(2) in \<open>auto simp: ch\<close>)
    then have "link_block k ch = Inr ?ch" unfolding h by (simp add: ch)
    moreover have "linked ch0 (insert v D) ?ch"
      unfolding linked_def by (rule exI [of _ ?cs], intro conjI refl allI) (use cs v pv in \<open>auto split: if_splits\<close>)
    ultimately show ?thesis using False by auto
  qed
qed

lemma loose_inj: "loose ch \<Longrightarrow> ch_BlockIndex ch k = Some a \<Longrightarrow> ch_BlockIndex ch k' = Some a \<Longrightarrow> k = k'"
  by (metis loose_def option.inject)

lemma link_blocks_linked:
  assumes l: "loose ch0" "chained ch0"
  shows "linked ch0 D ch \<Longrightarrow> distinct ks \<Longrightarrow> (\<forall>k\<in>set ks. \<exists>v. ch_BlockIndex ch0 k = Some v \<and> v \<notin> D) \<Longrightarrow>
    \<exists>ch'. link_blocks ks ch = Inr ch' \<and> linked ch0 (D \<union> ({v. \<exists>k\<in>set ks. ch_BlockIndex ch0 k = Some v} - {ch_BlockTreeRoot ch0})) ch'"
proof (induction ks arbitrary: D ch)
  case (Cons k ks)
  obtain v where v: "ch_BlockIndex ch0 k = Some v" "v \<notin> D" using Cons.prems(3) by auto
  obtain ch1 where c: "link_block k ch = Inr ch1" "linked ch0 (if v = ch_BlockTreeRoot ch0 then D else insert v D) ch1"
    using link_block_linked [OF l Cons.prems(1) v] by blast
  have "\<forall>k'\<in>set ks. \<exists>w. ch_BlockIndex ch0 k' = Some w \<and> w \<notin> (if v = ch_BlockTreeRoot ch0 then D else insert v D)"
    using Cons.prems(2,3) loose_inj [OF l(1) v(1)] by (auto split: if_splits)
  from Cons.IH [OF c(2) _ this] Cons.prems(2) obtain ch' where "link_blocks ks ch1 = Inr ch'"
    "linked ch0 ((if v = ch_BlockTreeRoot ch0 then D else insert v D) \<union> ({v. \<exists>k\<in>set ks. ch_BlockIndex ch0 k = Some v} - {ch_BlockTreeRoot ch0})) ch'" by auto
  moreover have "(if v = ch_BlockTreeRoot ch0 then D else insert v D) \<union> ({v. \<exists>k\<in>set ks. ch_BlockIndex ch0 k = Some v} - {ch_BlockTreeRoot ch0})
     = D \<union> ({v. \<exists>k\<in>set (k # ks). ch_BlockIndex ch0 k = Some v} - {ch_BlockTreeRoot ch0})"
    using v(1) by (auto split: if_splits)
  ultimately show ?case using c(1) by auto
qed simp

lemma linked_tree:
  assumes l: "loose ch0" "chained ch0" and d: "linked ch0 ({v. live ch0 v} - {ch_BlockTreeRoot ch0}) ch" and e: "live ch0 e"
  shows "tree_inv (SetLast e ch)" and "live (SetLast e ch) a = live ch0 a"
proof -
  let ?D = "{v. live ch0 v} - {ch_BlockTreeRoot ch0}"
  obtain cs where ch: "ch = ch0\<lparr>ch_nodes := (\<lambda>a. map_option (\<lambda>x. x\<lparr>tn_Parent := (if a \<in> ?D then parent_of ch0 a else tn_Parent x), tn_Childs := cs a\<rparr>) (ch_nodes ch0 a))\<rparr>"
    and cs: "\<And>a. distinct (cs a)" "\<And>a. set (cs a) = {b \<in> ?D. parent_of ch0 b = Some a}"
    using d unfolding linked_def by blast
  show lv: "live (SetLast e ch) a = live ch0 a" for a by (simp add: live_def SetLast_def ch)
  let ?h = "ch_nodes (SetLast e ch)"
  have nd: "?h a = map_option (\<lambda>x. x\<lparr>tn_Parent := (if a \<in> ?D then parent_of ch0 a else tn_Parent x), tn_Childs := cs a\<rparr>) (ch_nodes ch0 a)" for a
    by (simp add: ch SetLast_def)
  have par: "\<exists>x p y. ch_nodes ch0 b = Some x \<and> parent_of ch0 b = Some p \<and> live ch0 p \<and> ch_nodes ch0 p = Some y \<and> unat (tn_Height x) = Suc (unat (tn_Height y))"
    if b: "b \<in> ?D" for b
  proof -
    obtain k where k: "ch_BlockIndex ch0 k = Some b" "b \<noteq> ch_BlockTreeRoot ch0" using b by (auto simp: live_def)
    then obtain x where x: "ch_nodes ch0 b = Some x" using l(1) unfolding loose_def by blast
    with l(2) k show ?thesis unfolding chained_def parent_of_def live_def by fastforce
  qed
  have root: "ch_BlockTreeRoot (SetLast e ch) = ch_BlockTreeRoot ch0" "ch_blockTreeEnd (SetLast e ch) = e" "ch_next (SetLast e ch) = ch_next ch0"
    "ch_BlockIndex (SetLast e ch) = ch_BlockIndex ch0"
    by (simp_all add: ch SetLast_def)
  have lr: "live ch0 (ch_BlockTreeRoot ch0)" using l(1) by (auto simp: loose_def live_def)
  have "childs_ok ?h (live (SetLast e ch)) a" if a: "live ch0 a" for a
  proof -
    obtain x where x: "ch_nodes ch0 a = Some x" using a l(1) unfolding loose_def live_def by blast
    show ?thesis
      unfolding childs_ok_def lv
    proof (rule exI, intro conjI ballI)
      show "?h a = Some (x\<lparr>tn_Parent := (if a \<in> ?D then parent_of ch0 a else tn_Parent x), tn_Childs := cs a\<rparr>)" by (simp add: nd x)
      show "distinct (tn_Childs (x\<lparr>tn_Parent := (if a \<in> ?D then parent_of ch0 a else tn_Parent x), tn_Childs := cs a\<rparr>))" using cs(1) by simp
    next
      fix c assume "c \<in> set (tn_Childs (x\<lparr>tn_Parent := (if a \<in> ?D then parent_of ch0 a else tn_Parent x), tn_Childs := cs a\<rparr>))"
      then have c: "c \<in> ?D" "parent_of ch0 c = Some a" using cs(2) by simp_all
      then show "live ch0 c" by simp
      from par [OF c(1)] c(2) x obtain z where z: "ch_nodes ch0 c = Some z" "unat (tn_Height z) = Suc (unat (tn_Height x))" by auto
      then show "\<exists>z. ?h c = Some z \<and> tn_Parent z = Some a \<and>
         unat (tn_Height z) = Suc (unat (tn_Height (x\<lparr>tn_Parent := (if a \<in> ?D then parent_of ch0 a else tn_Parent x), tn_Childs := cs a\<rparr>)))"
        using c by (auto simp: nd)
    qed
  qed
  moreover have "parent_ok ?h (live (SetLast e ch)) a" if a: "live ch0 a" "a \<noteq> ch_BlockTreeRoot ch0" for a
  proof -
    have D: "a \<in> ?D" using a by simp
    from par [OF D] obtain x p y where p: "ch_nodes ch0 a = Some x" "parent_of ch0 a = Some p" "live ch0 p" "ch_nodes ch0 p = Some y" by blast
    then have "a \<in> set (cs p)" using D cs(2) by simp
    then show ?thesis unfolding parent_ok_def lv nd using p a by simp
  qed
  moreover have "\<exists>x. ?h a = Some x \<and> BIdx (tn_BlockHash x) = k" if "ch_BlockIndex ch0 k = Some a" for k a
  proof -
    note k = that
    obtain x where "ch_nodes ch0 a = Some x" "BIdx (tn_BlockHash x) = k" using k l(1) unfolding loose_def by blast
    then show ?thesis by (simp add: nd)
  qed
  moreover have "\<exists>x. ?h (ch_BlockTreeRoot ch0) = Some x \<and> tn_Parent x = None"
  proof -
    obtain x where "ch_nodes ch0 (ch_BlockTreeRoot ch0) = Some x" "tn_Parent x = None" using l(1) unfolding loose_def by blast
    then show ?thesis by (simp add: nd)
  qed
  moreover have "\<forall>a\<ge>ch_next ch0. ?h a = None" using l(1) unfolding nd by (simp add: loose_def)
  ultimately show "tree_inv (SetLast e ch)"
    unfolding tree_inv_def root lv using lr e by (metis live_def)
qed

section \<open>The chain at the start\<close>

lemma linked_start:
  assumes "loose ch"
  shows "linked ch {} ch"
proof -
  have "map_option (\<lambda>x. x\<lparr>tn_Parent := (if a \<in> {} then parent_of ch a else tn_Parent x), tn_Childs := []\<rparr>) (ch_nodes ch a) = ch_nodes ch a" for a
    using assms by (cases "ch_nodes ch a") (simp_all add: loose_def)
  then have "(\<lambda>a. map_option (\<lambda>x. x\<lparr>tn_Parent := (if a \<in> {} then parent_of ch a else tn_Parent x), tn_Childs := []\<rparr>) (ch_nodes ch a)) = ch_nodes ch"
    by (rule ext)
  then show ?thesis unfolding linked_def by (intro exI [of _ "\<lambda>_. []"]) (simp only:, simp)
qed

text \<open>An order in which Go may range over a map: every key once.\<close>

definition some_order :: "((bytes \<Rightarrow> nat option) \<Rightarrow> bytes list) \<Rightarrow> bool" where
  "some_order order \<longleftrightarrow> (\<forall>m. finite (dom m) \<longrightarrow> distinct (order m) \<and> set (order m) = dom m)"

text \<open>The block the coins are at.\<close>

definition coins_block :: "chain \<Rightarrow> nat option" where
  "coins_block ch = (case ud_LastBlockHash (ch_Unspent ch) of None \<Rightarrow> Some (ch_BlockTreeRoot ch) | Some h \<Rightarrow> ch_BlockIndex ch (BIdx h))"

lemma loadBlockIndex_tree:
  assumes n: "ch_nodes ch = (\<lambda>_. None)" and o: "some_order order" and c: "\<And>ch1. load_nodes opts ch = Inr ch1 \<Longrightarrow> chained ch1 \<and> coins_block ch1 \<noteq> None"
  obtains ch1 ch2 where "load_nodes opts ch = Inr ch1" "loadBlockIndex opts order ch = Inr ch2" "tree_inv ch2" "coins_block ch1 = Some (LastBlock ch2)"
    "ch_BlockIndex ch2 = ch_BlockIndex ch1" "ch_Blocks ch2 = snd (LoadBlockIndex opts (ch_Blocks ch))" "same_rest ch ch2"
    "ch_BlockTreeRoot ch2 = ch_BlockTreeRoot ch1"
    "\<And>a. map_option tn_Parent (ch_nodes ch2 a) = (if live ch1 a \<and> a \<noteq> ch_BlockTreeRoot ch1 then Some (parent_of ch1 a) else map_option tn_Parent (ch_nodes ch1 a))"
    "\<And>a. map_option tn_Height (ch_nodes ch2 a) = map_option tn_Height (ch_nodes ch1 a)"
proof -
  obtain ch1 where l: "load_nodes opts ch = Inr ch1" "loose ch1" "same_rest ch ch1" "ch_Blocks ch1 = snd (LoadBlockIndex opts (ch_Blocks ch))"
    by (rule load_nodes_loose [OF n])
  obtain e where e: "chained ch1" "coins_block ch1 = Some e" using c [OF l(1)] by blast
  let ?ks = "order (ch_BlockIndex ch1)"
  have ks: "distinct ?ks" "set ?ks = dom (ch_BlockIndex ch1)" using o l(2) by (auto simp: some_order_def loose_def)
  then have "\<forall>k\<in>set ?ks. \<exists>v. ch_BlockIndex ch1 k = Some v \<and> v \<notin> {}" by auto
  from link_blocks_linked [OF l(2) e(1) linked_start [OF l(2)] ks(1) this] obtain ch' where
    b: "link_blocks ?ks ch1 = Inr ch'" "linked ch1 ({} \<union> ({v. \<exists>k\<in>set ?ks. ch_BlockIndex ch1 k = Some v} - {ch_BlockTreeRoot ch1})) ch'" by blast
  have D: "{} \<union> ({v. \<exists>k\<in>set ?ks. ch_BlockIndex ch1 k = Some v} - {ch_BlockTreeRoot ch1}) = {v. live ch1 v} - {ch_BlockTreeRoot ch1}"
    unfolding ks(2) live_def by auto
  have le: "live ch1 e" using e(2) l(2) by (auto simp: coins_block_def live_def loose_def split: option.splits)
  note t = linked_tree [OF l(2) e(1) b(2) [unfolded D] le]
  obtain cs where f: "ch' = ch1\<lparr>ch_nodes := (\<lambda>a. map_option (\<lambda>x. x\<lparr>tn_Parent := (if a \<in> {v. live ch1 v} - {ch_BlockTreeRoot ch1} then parent_of ch1 a
      else tn_Parent x), tn_Childs := cs a\<rparr>) (ch_nodes ch1 a))\<rparr>"
    using b(2) unfolding D linked_def by blast
  have g: "ch_BlockIndex ch' = ch_BlockIndex ch1" "ch_Unspent ch' = ch_Unspent ch1" "ch_BlockTreeRoot ch' = ch_BlockTreeRoot ch1"
    by (simp_all add: f)
  have r: "loadBlockIndex opts order ch = Inr (SetLast e ch')"
    using e(2) unfolding loadBlockIndex_def l(1) andThen_simps b(1) coins_block_def g by (cases "ud_LastBlockHash (ch_Unspent ch1)") simp_all
  show thesis
  proof (rule that [OF l(1) r t(1)])
    fix a
    have "\<exists>x. ch_nodes ch1 a = Some x" if "live ch1 a" using that l(2) unfolding live_def loose_def by blast
    then show "map_option tn_Parent (ch_nodes (SetLast e ch') a) = (if live ch1 a \<and> a \<noteq> ch_BlockTreeRoot ch1 then Some (parent_of ch1 a)
      else map_option tn_Parent (ch_nodes ch1 a))"
      by (cases "ch_nodes ch1 a") (auto simp: f SetLast_def)
    show "map_option tn_Height (ch_nodes (SetLast e ch') a) = map_option tn_Height (ch_nodes ch1 a)"
      by (cases "ch_nodes ch1 a") (simp_all add: f SetLast_def)
  qed (use e(2) l in \<open>simp_all add: f SetLast_def LastBlock_def same_rest_def\<close>)
qed

end
