(* ===== verification/MoveSpec.thy ===== *)
theory MoveSpec
  imports ChainMoveLaws ChainSpec CheckSpec
begin

text \<open>
  The properties of moving the head of the chain, where the tree, the database of blocks and the coins work together.
\<close>

section \<open>One block on top, and back\<close>

lemma stored_block_contents:
  assumes "db_inv (ne_bdb ne) (ch_Blocks ch)" and "contents (ne_bdb ne) (ch_Blocks ch) (BIdx h) = Some (d, t)"
    and "NewBlock \<lparr>sl_data = d, sl_spare = []\<rparr> = Inr r"
  obtains db where "stored_block ne h ch = Inr (r, t, ch\<lparr>ch_Blocks := db\<rparr>)"
proof -
  obtain db where "BlockGetInternal (ne_bdb ne) h True (ch_Blocks ch) = Inr ((Some d, t, None), db)"
    by (rule BlockGetInternal_contents [OF assms(1,2), where nc = True]) blast
  with assms(3) that show thesis by (simp add: stored_block_def)
qed

lemma env_of_reads:
  assumes "db_setup (ne_cfg ne) ok" and "coins_ok ok R" and "ud_Map (ch_Unspent ch) = store_of (uc_fmt (ne_cfg ne)) R"
  shows "\<forall>h v. UnspentGet (uc_fmt (ne_cfg ne)) (ud_Map (ch_Unspent ch)) h v = Some (Inr (ce_get (env_of ne ch) h v))"
  using utxo_store.UnspentGet_coins [OF db_setup_store [OF assms(1)] assms(2)] by (simp add: env_of_def assms(3))

text \<open>What is asked of a block for the two operations: it is the one of the node, on top of the head, its bytes are
  those of its transactions, and they are connected.\<close>

definition on_top :: "node_env \<Rightarrow> (utxo_out \<Rightarrow> bool) \<Rightarrow> coins \<Rightarrow> chain \<Rightarrow> nat \<Rightarrow> block \<Rightarrow> block_changes \<Rightarrow> bool" where
  "on_top ne ok R ch cur bl cs \<longleftrightarrow>
     (\<exists>x p. ch_nodes ch cur = Some x \<and> tn_Parent x = Some (LastBlock ch) \<and> cur \<noteq> LastBlock ch \<and> ch_nodes ch (LastBlock ch) = Some p
        \<and> bl_Hash bl = tn_BlockHash x \<and> length (bl_Hash bl) = 32
        \<and> (\<exists>sigops ts. commitTxs (env_of ne ch) bl (tn_Height x) (bl_LastKnownHeight bl) = Inr (sigops, cs, ts))
        \<and> bl_LastKnownHeight bl \<le> tn_Height x + ud_UnwindBufLen (ch_Unspent ch))
   \<and> (\<exists>b0 b1. NewBlock \<lparr>sl_data = sl_data (bl_Raw bl), sl_spare = []\<rparr> = Inr (None, b0) \<and> BuildTxList b0 = Inr (None, b1) \<and> txs_of b1 = txs_of bl)
   \<and> block_fits ok R (txs_of bl)
   \<and> (\<forall>us. bc_UndoData cs = Some us \<longrightarrow> (\<forall>u \<in> set us. 32 + length (rec_bytes (uc_fmt (ne_cfg ne)) u) \<le> 0x100000))"

lemma on_top_and_back:
  assumes "db_setup (ne_cfg ne) ok" and "coins_ok ok R" and "ud_Map (ch_Unspent ch) = store_of (uc_fmt (ne_cfg ne)) R"
    and "ud_UnwindBufLen (ch_Unspent ch) \<noteq> 0" and "on_top ne ok R ch cur bl cs"
    and "db_inv (ne_bdb ne) (ch_Blocks ch)" and "keeps_files (ne_bdb ne)" and "may_add (ne_bdb ne) bl (ch_Blocks ch)"
    and "room (ne_bdb ne) (length (on_disk (ne_bdb ne) (sl_data (bl_Raw bl)))) 1 (ch_Blocks ch)"
    and "bd_blockIndex (ch_Blocks ch) (BIdx (bl_Hash bl)) = None"
  shows "\<exists>ch1 ch2. CommitBlock ne ops bl cur ch = Some (Inr (None, ch1)) \<and> LastBlock ch1 = cur
    \<and> ud_Map (ch_Unspent ch1) = store_of (uc_fmt (ne_cfg ne)) (coins_commit (bc_AddList cs) (bc_DeledTxs cs) R)
    \<and> contents (ne_bdb ne) (ch_Blocks ch1) (BIdx (bl_Hash bl)) = Some (sl_data (bl_Raw bl), True)
    \<and> UndoLastBlock ne ch1 = Some (Inr ch2) \<and> LastBlock ch2 = LastBlock ch \<and> ud_Map (ch_Unspent ch2) = ud_Map (ch_Unspent ch)
    \<and> ud_LastBlockHash (ch_Unspent ch2) = map_option tn_BlockHash (ch_nodes ch (LastBlock ch))
    \<and> ud_LastBlockHeight (ch_Unspent ch2) = tn_Height (the (ch_nodes ch cur)) - 1"
proof -
  let ?cfg = "ne_cfg ne" let ?o = "ne_bdb ne" let ?b = "bl\<lparr>bl_Trusted := True\<rparr>"
  obtain x p sigops ts where x: "ch_nodes ch cur = Some x" "tn_Parent x = Some (LastBlock ch)" "cur \<noteq> LastBlock ch" "ch_nodes ch (LastBlock ch) = Some p"
    "bl_Hash bl = tn_BlockHash x" "length (bl_Hash bl) = 32"
    and c: "commitTxs (env_of ne ch) bl (tn_Height x) (bl_LastKnownHeight bl) = Inr (sigops, cs, ts)"
    and k: "bl_LastKnownHeight bl \<le> tn_Height x + ud_UnwindBufLen (ch_Unspent ch)" using assms(5) unfolding on_top_def by blast
  obtain b0 b1 where b: "NewBlock \<lparr>sl_data = sl_data (bl_Raw bl), sl_spare = []\<rparr> = Inr (None, b0)" "BuildTxList b0 = Inr (None, b1)" "txs_of b1 = txs_of bl"
    and fit: "block_fits ok R (txs_of bl)"
    and us: "\<forall>us. bc_UndoData cs = Some us \<longrightarrow> (\<forall>u \<in> set us. 32 + length (rec_bytes (uc_fmt ?cfg) u) \<le> 0x100000)"
    using assms(5) unfolding on_top_def by blast
  have "bl_LastKnownHeight bl \<le> tn_Height x + ce_UnwindBufLen (env_of ne ch)" using k by (simp add: env_of_def)
  from utxo_store.connect_disconnect [OF db_setup_store [OF assms(1)] assms(2,3) env_of_reads [OF assms(1-3)] c fit this us x(6) assms(4), of "tn_BlockHash p"]
  obtain u1 u2 where u: "CommitBlockTxs ?cfg (ch_Unspent ch) cs (bl_Hash bl) = Some (Inr u1)"
    "ud_Map u1 = store_of (uc_fmt ?cfg) (coins_commit (bc_AddList cs) (bc_DeledTxs cs) R)"
    "UndoBlockTxs ?cfg u1 (tx_ids (txs_of bl)) (tn_BlockHash p) = Some (Inr u2)" "ud_Map u2 = ud_Map (ch_Unspent ch)"
    "ud_LastBlockHeight u2 = tn_Height x - 1" "ud_LastBlockHash u2 = Some (tn_BlockHash p)" by auto
  have may: "may_add ?o ?b (ch_Blocks ch)" using assms(8) by (simp add: may_add_def b2w_ok_def bl_b2w_def)
  have rm: "room ?o (length (on_disk ?o (sl_data (bl_Raw ?b))) + 0) (Suc 0) (ch_Blocks ch)" using assms(9) by simp
  have new: "bd_blockIndex (ch_Blocks ch) (BIdx (bl_Hash ?b)) = None" using assms(10) by simp
  obtain db where db: "BlockAdd ?o (tn_Height x) ?b (ch_Blocks ch) = Inr db" "db_inv ?o db" "contents ?o db = added ?b (contents ?o (ch_Blocks ch))"
    by (rule BlockAdd_new [OF assms(6,7) may rm new]) blast
  have "contents ?o (ch_Blocks ch) (BIdx (bl_Hash bl)) = None" using assms(10) by (simp add: contents_def)
  then have ct: "contents ?o db (BIdx (bl_Hash bl)) = Some (sl_data (bl_Raw bl), True)" by (simp add: db(3) added_def)
  let ?x1 = "x\<lparr>tn_BlockSize := of_nat (length (sl_data (bl_Raw bl))), tn_TxCount := word_of_int (bl_TxCount bl)\<rparr>"
  let ?x2 = "?x1\<lparr>tn_SigopsCost := sigops\<rparr>"
  let ?ch1 = "ch\<lparr>ch_nodes := (ch_nodes ch)(cur \<mapsto> ?x2), ch_Blocks := db, ch_Unspent := u1, ch_blockTreeEnd := cur\<rparr>"
  have env: "env_of ne (ch\<lparr>ch_nodes := h\<rparr>) = env_of ne ch" for h by (simp add: env_of_def)
  have commit: "CommitBlock ne ops bl cur ch = Some (Inr (None, ?ch1))"
    using x c u(1) db(1)
    by (simp add: CommitBlock_def upd_node_def node_def LastBlock_def commit_on_top_def ProcessBlockTransactions_def env SetLast_def)
  have i1: "db_inv ?o (ch_Blocks ?ch1)" "contents ?o (ch_Blocks ?ch1) (BIdx (tn_BlockHash ?x2)) = Some (sl_data (bl_Raw bl), True)"
    using db(2) ct x(5) by simp_all
  obtain db' where s: "stored_block ne (tn_BlockHash ?x2) ?ch1 = Inr ((None, b0), True, ?ch1\<lparr>ch_Blocks := db'\<rparr>)"
    by (rule stored_block_contents [OF i1 b(1)])
  have N: "node (ch_nodes ?ch1) (Some (LastBlock ?ch1)) = Inr ?x2" by (simp add: LastBlock_def node_def)
  have "node (ch_nodes (?ch1\<lparr>ch_Blocks := db'\<rparr>)) (tn_Parent ?x2) = Inr p" using x by (simp add: node_def)
  then have undo: "UndoLastBlock ne ?ch1 = Some (Inr (SetLast (the (tn_Parent ?x2)) (?ch1\<lparr>ch_Blocks := db', ch_Unspent := u2\<rparr>)))"
    unfolding UndoLastBlock_def Let_def N bindR_simps s prod.case using b(2,3) u(3) by simp
  show ?thesis
    by (rule exI [of _ ?ch1], rule exI [of _ "SetLast (the (tn_Parent ?x2)) (?ch1\<lparr>ch_Blocks := db', ch_Unspent := u2\<rparr>)"], intro conjI)
      (use commit undo u x ct in \<open>simp_all add: LastBlock_def SetLast_def\<close>)
qed

section \<open>A chain with a block on top\<close>

text \<open>The root is the head; the block above it has a coinbase only.\<close>

definition top_hash :: bytes where
  "top_hash = Sha2Sum (take 80 demo_raw)"

definition top_root :: bytes where
  "top_root = map ((+) 1) top_hash"

definition demo_top :: chain where
  "demo_top = \<lparr>ch_Blocks = new_db demo_opts, ch_Unspent = demo_utxo\<lparr>ud_LastBlockHeight := 0\<rparr>,
     ch_nodes = [0 \<mapsto> (demo_node 1 0 0 None [1])\<lparr>tn_BlockHash := top_root\<rparr>, 1 \<mapsto> (demo_node 2 1 1 (Some 0) [])\<lparr>tn_BlockHash := top_hash\<rparr>],
     ch_next = 2, ch_BlockTreeRoot = 0, ch_blockTreeEnd = 0, ch_Genesis = top_root,
     ch_BlockIndex = [BIdx top_root \<mapsto> 0, BIdx top_hash \<mapsto> 1], ch_Consensus = new_consensus top_root\<rparr>"

definition demo_env :: node_env where
  "demo_env = \<lparr>ne_bdb = demo_opts, ne_cfg = sample_cfg, ne_env = sample_chain\<rparr>"

lemma top_keys: "BIdx top_root \<noteq> BIdx top_hash" "length top_hash = 32"
proof -
  show l: "length top_hash = 32" by (simp add: top_hash_def)
  have "BIdx top_root ! 0 = 1 + top_hash ! 0" "BIdx top_hash ! 0 = top_hash ! 0" by (simp_all add: BIdx_def top_root_def l)
  moreover have "1 + x \<noteq> x" for x :: byte by simp
  ultimately show "BIdx top_root \<noteq> BIdx top_hash" by metis
qed

lemma demo_top_live: "live demo_top a \<longleftrightarrow> a = 0 \<or> a = Suc 0"
proof
  assume "live demo_top a"
  then show "a = 0 \<or> a = Suc 0" by (auto simp: live_def demo_top_def split: if_splits)
next
  have "ch_BlockIndex demo_top (BIdx top_root) = Some 0" "ch_BlockIndex demo_top (BIdx top_hash) = Some 1"
    using top_keys(1) by (simp_all add: demo_top_def)
  moreover assume "a = 0 \<or> a = Suc 0"
  ultimately show "live demo_top a" by (auto simp: live_def)
qed

lemma demo_top_in_step: "in_step demo_top"
proof -
  have "(\<exists>x. ch_nodes demo_top a = Some x \<and> BIdx (tn_BlockHash x) = k) \<and> childs_ok (ch_nodes demo_top) (live demo_top) a
      \<and> (a \<noteq> 0 \<longrightarrow> parent_ok (ch_nodes demo_top) (live demo_top) a)" if "ch_BlockIndex demo_top k = Some a" for k a
  proof -
    from that consider "k = BIdx top_hash" "a = Suc 0" | "k = BIdx top_root" "a = 0"
      by (auto simp: demo_top_def split: if_splits)
    then show ?thesis by cases (simp_all add: demo_top_live childs_ok_def parent_ok_def, simp_all add: demo_top_def)
  qed
  moreover have "ch_BlockTreeRoot demo_top = 0" "ch_blockTreeEnd demo_top = 0" "ch_next demo_top = 2" by (simp_all add: demo_top_def)
  moreover have "ch_nodes demo_top 0 = Some ((demo_node 1 0 0 None [1])\<lparr>tn_BlockHash := top_root\<rparr>)" "\<forall>a\<ge>2. ch_nodes demo_top a = None"
    "ud_LastBlockHeight (ch_Unspent demo_top) = 0"
    by (simp_all add: demo_top_def)
  ultimately show ?thesis unfolding in_step_def tree_inv_def by (simp add: demo_top_live)
qed

lemma demo_top_fields [simp]:
  "ch_nodes demo_top (Suc 0) = Some ((demo_node 2 1 1 (Some 0) [])\<lparr>tn_BlockHash := top_hash\<rparr>)" "LastBlock demo_top = 0"
  "ch_nodes demo_top 0 = Some ((demo_node 1 0 0 None [1])\<lparr>tn_BlockHash := top_root\<rparr>)"
  "ch_Unspent demo_top = demo_utxo\<lparr>ud_LastBlockHeight := 0\<rparr>" "ch_Blocks demo_top = new_db demo_opts"
  "ne_cfg demo_env = sample_cfg" "ne_bdb demo_env = demo_opts"
  by (simp_all add: demo_top_def demo_env_def LastBlock_def)

text \<open>What \<open>commitTxs\<close> finds in the block.\<close>

definition top_changes :: block_changes where
  "top_changes = \<lparr>bc_Height = 1, bc_LastKnownHeight = 0,
     bc_AddList = [\<lparr>ur_TxID = Sha2Sum (stripped demo_cb), ur_Coinbase = True, ur_InBlock = 1, ur_Outs = [Some \<lparr>uo_Value = 5000000000, uo_PKScr = []\<rparr>]\<rparr>],
     bc_DeledTxs = [], bc_UndoData = Some []\<rparr>"

lemma top_tx: "tx_TxIn (block_tx 0 demo_cb) = tx_TxIn demo_cb" "tx_Hash (block_tx 0 demo_cb) = Sha2Sum (stripped demo_cb)"
    "tx_TxOut (block_tx 0 demo_cb) = [Some ((new_txout 5000000000 [])\<lparr>to_WasCoinbase := True\<rparr>)]"
  by (simp_all add: block_tx_def) (simp_all add: tx_content_def demo_cb_def zero_tx_def)

lemma top_commit:
  assumes "txs_of bl = [Some (block_tx 0 demo_cb)]"
  shows "\<exists>ts. commitTxs (env_of demo_env demo_top) bl 1 0 = Inr (0, top_changes, ts)"
proof -
  have e: "GetSigOpCount [] False = 0" by (simp add: GetSigOpCount_def sigop_loop.simps)
  have g: "GetLegacySigOpCount (block_tx 0 demo_cb) = Inr 0"
    by (simp add: GetLegacySigOpCount_def top_tx) (simp add: demo_cb_def GetSigOpCount_def sigop_loop.simps GetOpcode_nonpush new_txout_def)
  have r: "GetBlockReward 1 = 5000000000" by (simp add: GetBlockReward_def)
  have c: "commit_coinbase (block_tx 0 demo_cb) = Inr ()" by (simp add: commit_coinbase_def top_tx) (simp add: demo_cb_def)
  show ?thesis
    by (simp add: commitTxs_def assms commit_tx_def g c top_tx commit_start_def r env_of_def new_txout_def demo_utxo_def)
      (simp add: top_changes_def List.map_filter_def add_record_def)
qed

lemma demo_on_top:
  assumes bl: "txs_of bl = [Some (block_tx 0 demo_cb)]" "sl_data (bl_Raw bl) = demo_raw" "bl_Hash bl = top_hash" "bl_LastKnownHeight bl = 0"
    and b: "NewBlock \<lparr>sl_data = demo_raw, sl_spare = []\<rparr> = Inr (None, b0)" "BuildTxList b0 = Inr (None, bl)"
  shows "on_top demo_env (comp_ok sample_keys_ops) (\<lambda>_. None) demo_top (Suc 0) bl top_changes"
proof -
  have "block_fits (comp_ok sample_keys_ops) (\<lambda>_. None) (txs_of bl)"
    by (simp add: block_fits_def bl ids_agree_def top_tx comp_ok_def new_txout_def sample_keys_ops_def)
  then show ?thesis
    unfolding on_top_def using b top_commit [OF bl(1)] by (auto simp: bl top_keys top_changes_def demo_utxo_def)
qed

lemma top_store:
  assumes bl: "sl_data (bl_Raw bl) = demo_raw" "bl_Hash bl = top_hash"
  shows "db_inv demo_opts (new_db demo_opts)" "may_add demo_opts bl (new_db demo_opts)"
    "room demo_opts (length (on_disk demo_opts (sl_data (bl_Raw bl)))) 1 (new_db demo_opts)" "bd_blockIndex (new_db demo_opts) k = None"
proof -
  have l: "length demo_raw = 143"
    by (simp add: demo_raw_def block_bytes_def demo_hash_def length_WriteVlen VLenSize_def demo_cb_bytes)
  have e: "0 \<le> MaxEncodedLen (length demo_raw)" by (simp add: MaxEncodedLen_def l)
  note d = on_disk_encoded(6) [OF e, of demo_opts]
  have f: "put_fits demo_opts (OpAdd 1 bl)" using e by (simp add: b2w_ok_def bl_b2w_def bl l top_hash_def)
  have "run_ok demo_opts [OpAdd 1 bl] (new_db demo_opts)" "contents demo_opts (new_db demo_opts) = (\<lambda>_. None)"
    by (rule new_db_ok [OF demo_keeps, of "[OpAdd 1 bl]"]; use f d in \<open>simp add: bl l\<close>)+
  then show i: "db_inv demo_opts (new_db demo_opts)" and "room demo_opts (length (on_disk demo_opts (sl_data (bl_Raw bl)))) 1 (new_db demo_opts)"
    and n: "bd_blockIndex (new_db demo_opts) k = None" for k
    by (simp_all add: run_ok_def) (metis contents_iff)
  have "bd_blocksToWrite (new_db demo_opts) = []"
    using LoadBlockIndex_loaded [OF demo_keeps, of "[]" 0] by (simp add: new_db_def NewBlockDBExt_def)
  then show "may_add demo_opts bl (new_db demo_opts)" using f by (simp add: may_add_def b2w_ok_def bl_b2w_def)
qed

lemma top_block:
  obtains b0 bl where "NewBlock \<lparr>sl_data = demo_raw, sl_spare = []\<rparr> = Inr (None, b0)" "BuildTxList b0 = Inr (None, bl)"
    "txs_of bl = [Some (block_tx 0 demo_cb)]" "sl_data (bl_Raw bl) = demo_raw" "bl_Hash bl = top_hash" "\<not> bl_Trusted bl"
    "bl_LastKnownHeight bl = 0"
proof -
  let ?hdr = "[1, 0, 0, 0] @ demo_hash 1 @ Sha2Sum (stripped demo_cb) @ le_bytes 4 (5000 :: u32) @ [0xff, 0xff, 0x7f, 0x20] @ [0, 0, 0, 0]"
  have h: "length ?hdr = 80" by (simp add: demo_hash_def)
  then obtain b0 bl where b: "NewBlockX \<lparr>sl_data = demo_raw, sl_spare = []\<rparr> top_hash = Inr (None, b0)" "BuildTxList b0 = Inr (None, bl)"
    "txs_of bl = map (\<lambda>(j, t). Some (block_tx j t)) (enumerate 0 [demo_cb])"
    using BuildTxList_block_bytes [of ?hdr "[demo_cb]" "[]" top_hash] demo_cb_valid unfolding demo_raw_def by auto
  have l: "length demo_raw > 80" using h by (simp add: demo_raw_def block_bytes_def length_WriteVlen VLenSize_def)
  with b(1) have p: "sl_data (bl_Raw b0) = demo_raw" "bl_Trusted b0 = False" "bl_Hash b0 = top_hash" "bl_LastKnownHeight b0 = 0"
    by (auto simp: NewBlockX_def UpdateContent_def ok_iff Let_def zero_block_def split: prod.splits if_splits)
  have "NewBlock \<lparr>sl_data = demo_raw, sl_spare = []\<rparr> = Inr (None, b0)"
    using b(1) l by (simp add: NewBlock_def slice_range_def top_hash_def)
  from that [OF this b(2)] b(3) p BuildTxList_place [OF b(2)] show thesis by (simp add: same_place_def)
qed

lemma demo_commit:
  obtains bl ok where "txs_of bl = [Some (block_tx 0 demo_cb)]" "db_setup (ne_cfg demo_env) ok" "coins_ok ok (\<lambda>_. None)"
    "ud_Map (ch_Unspent demo_top) = store_of (uc_fmt (ne_cfg demo_env)) (\<lambda>_. None)" "ud_UnwindBufLen (ch_Unspent demo_top) \<noteq> 0"
    "on_top demo_env ok (\<lambda>_. None) demo_top (Suc 0) bl top_changes" "db_inv (ne_bdb demo_env) (ch_Blocks demo_top)"
    "keeps_files (ne_bdb demo_env)" "may_add (ne_bdb demo_env) bl (ch_Blocks demo_top)"
    "room (ne_bdb demo_env) (length (on_disk (ne_bdb demo_env) (sl_data (bl_Raw bl)))) 1 (ch_Blocks demo_top)"
    "bd_blockIndex (ch_Blocks demo_top) (BIdx (bl_Hash bl)) = None"
proof -
  obtain b0 bl where b: "NewBlock \<lparr>sl_data = demo_raw, sl_spare = []\<rparr> = Inr (None, b0)" "BuildTxList b0 = Inr (None, bl)"
    "txs_of bl = [Some (block_tx 0 demo_cb)]" "sl_data (bl_Raw bl) = demo_raw" "bl_Hash bl = top_hash" "\<not> bl_Trusted bl"
    "bl_LastKnownHeight bl = 0"
    by (rule top_block)
  note on = demo_on_top [OF b(3-5,7,1,2)] and st = top_store [OF b(4,5)]
  show thesis
    by (rule that [OF b(3) _ _ _ _ on]) (use st in \<open>simp_all add: sample_setup coins_ok_def store_of_def demo_utxo_def demo_keeps\<close>)
qed

text \<open>
  C3. A block on top of the head and back: when \<open>commitTxs\<close> accepts a new block over the coins of the chain, \<open>CommitBlock\<close>
  stores it as trusted, applies its changes and moves the head to it, and \<open>UndoLastBlock\<close>, which reads the block
  from the database again, brings the coins, their height and the head back.
\<close>

theorem block_on_top_and_back:
  assumes "db_setup (ne_cfg ne) ok" and "coins_ok ok R" and "ud_Map (ch_Unspent ch) = store_of (uc_fmt (ne_cfg ne)) R"
    and "ud_UnwindBufLen (ch_Unspent ch) \<noteq> 0" and "on_top ne ok R ch cur bl cs"
    and "db_inv (ne_bdb ne) (ch_Blocks ch)" and "keeps_files (ne_bdb ne)" and "may_add (ne_bdb ne) bl (ch_Blocks ch)"
    and "room (ne_bdb ne) (length (on_disk (ne_bdb ne) (sl_data (bl_Raw bl)))) 1 (ch_Blocks ch)"
    and "bd_blockIndex (ch_Blocks ch) (BIdx (bl_Hash bl)) = None"
  shows "\<exists>ch1 ch2. CommitBlock ne ops bl cur ch = Some (Inr (None, ch1)) \<and> LastBlock ch1 = cur
    \<and> ud_Map (ch_Unspent ch1) = store_of (uc_fmt (ne_cfg ne)) (coins_commit (bc_AddList cs) (bc_DeledTxs cs) R)
    \<and> contents (ne_bdb ne) (ch_Blocks ch1) (BIdx (bl_Hash bl)) = Some (sl_data (bl_Raw bl), True)
    \<and> UndoLastBlock ne ch1 = Some (Inr ch2) \<and> LastBlock ch2 = LastBlock ch \<and> ud_Map (ch_Unspent ch2) = ud_Map (ch_Unspent ch)
    \<and> ud_LastBlockHash (ch_Unspent ch2) = map_option tn_BlockHash (ch_nodes ch (LastBlock ch))
    \<and> ud_LastBlockHeight (ch_Unspent ch2) = tn_Height (the (ch_nodes ch cur)) - 1"
  using assms by (rule on_top_and_back)

lemma block_on_top_and_back_witness:
  "\<exists>bl ch1 ch2. txs_of bl = [Some (block_tx 0 demo_cb)] \<and> CommitBlock demo_env demo_floats bl (Suc 0) demo_top = Some (Inr (None, ch1))
    \<and> LastBlock ch1 = Suc 0 \<and> UndoLastBlock demo_env ch1 = Some (Inr ch2) \<and> LastBlock ch2 = 0 \<and> ud_LastBlockHash (ch_Unspent ch2) = Some top_root"
proof (rule demo_commit, goal_cases)
  case (1 bl ok)
  from block_on_top_and_back [OF 1(2-), of demo_floats] 1(1) show ?case by auto
qed

section \<open>The head and the coins\<close>

text \<open>
  C4. The head and the coins move together: when \<open>CommitBlock\<close> returns, whether it put the block on the head, left it
  aside, or took blocks back and went to another branch, deleting blocks that turned out invalid, the tree is a tree
  and the coins have the height of its head. A block that is refused must have no block on it.
\<close>

theorem head_and_coins_in_step:
  assumes "in_step ch" and "live ch cur" and "ch_nodes ch cur = Some x" and "CommitBlock ne ops bl cur ch = Some (Inr (er, ch'))"
    and "(\<exists>e. er = Some (NotConnected e)) \<longrightarrow> tn_Childs x = []"
  shows "tree_inv ch' \<and> live ch' (LastBlock ch') \<and> ud_LastBlockHeight (ch_Unspent ch') = tn_Height (the (ch_nodes ch' (LastBlock ch')))"
proof -
  have "in_step ch'" using CommitBlock_in_step [OF assms] by simp
  then show ?thesis by (simp add: in_step_def tree_inv_def LastBlock_def)
qed

lemma head_and_coins_in_step_witness:
  "\<exists>bl ch1. txs_of bl = [Some (block_tx 0 demo_cb)] \<and> CommitBlock demo_env demo_floats bl (Suc 0) demo_top = Some (Inr (None, ch1))
    \<and> LastBlock ch1 = Suc 0 \<and> tree_inv ch1 \<and> ud_LastBlockHeight (ch_Unspent ch1) = tn_Height (the (ch_nodes ch1 (LastBlock ch1)))"
proof (rule demo_commit, goal_cases)
  case (1 bl ok)
  obtain ch1 where c: "CommitBlock demo_env demo_floats bl (Suc 0) demo_top = Some (Inr (None, ch1))" "LastBlock ch1 = Suc 0"
    using on_top_and_back [OF 1(2-), of demo_floats] by blast
  from head_and_coins_in_step [OF demo_top_in_step _ demo_top_fields(1) c(1)] 1(1) c show ?case by (auto simp: demo_top_live)
qed

section \<open>A move that does not end\<close>

lemma ParseTillBlock_loops:
  assumes p: "parse_loop ne c ch = Some (Inr ch)" and l: "LastBlock ch \<noteq> c"
    and f: "FindFarthestNode (2 ^ 32) (ch_nodes ch) (ch_BlockTreeRoot ch) = Some (Inr (c, d))" and r: "rewind ne c ch = Some (Inr (True, ch))"
  shows "ParseTillBlock ne c ch = None"
proof (rule ccontr)
  assume "ParseTillBlock ne c ch \<noteq> None"
  then obtain y where y: "ParseTillBlock ne c ch = Some y" by blast
  have "\<not> (ne = ne \<and> c = c \<and> ch = ch)"
  proof (rule ParseTillBlock.raw_induct [OF _ y, where P = "\<lambda>n e s r. \<not> (n = ne \<and> e = c \<and> s = ch)"], goal_cases)
    case (1 g n e s r)
    show ?case
    proof
      assume "n = ne \<and> e = c \<and> s = ch"
      then have e: "n = ne" "e = c" "s = ch" by auto
      from 1(2) have "g ne c ch = Some r" unfolding e p bindR_simps if_not_P [OF l] f by (simp add: r)
      from 1(1) [OF this] show False by simp
    qed
  qed
  then show False by simp
qed

text \<open>
  C37. A header without data on top of the head, when nothing is higher, makes \<open>ParseTillBlock\<close> run forever: it cannot go on,
  looks for the farthest block, finds the one it comes from, and starts over. (\<open>MoveToBlock\<close> gets there when a
  branch it tried turns out invalid and it goes back to the old one.)
\<close>

theorem header_on_top_never_ends:
  assumes l: "ch_nodes ch (LastBlock ch) = Some x" "tn_Childs x = [c]" "tn_TxCount x \<noteq> 0"
    and c: "ch_nodes ch c = Some z" "tn_Parent z = Some (LastBlock ch)" "tn_Height x < tn_Height z" "tn_BlockSize z = 0"
    and f: "FindFarthestNode (2 ^ 32) (ch_nodes ch) (ch_BlockTreeRoot ch) = Some (Inr (c, d))"
  shows "ParseTillBlock ne c ch = None"
proof (rule ParseTillBlock_loops [OF _ _ f])
  show ne: "LastBlock ch \<noteq> c" using l c by auto
  have n: "node (ch_nodes ch) (Some (LastBlock ch)) = Inr x" "node (ch_nodes ch) (Some c) = Inr z" using l c by (simp_all add: node_def)
  have "FindPathTo (ch_nodes ch) (LastBlock ch) c = Some (Inr (Some c))" using ne l c by (simp add: FindPathTo_def not_le)
  then have "parse_step ne c ch = Some (Inr (False, ch))" using c(4) n by (simp add: parse_step_def)
  with ne show "parse_loop ne c ch = Some (Inr ch)" by (subst parse_loop.simps) simp
  have d1: "down (ch_nodes ch) (tn_Height x) (LastBlock ch) = Some (Inr (Some (LastBlock ch)))" by (subst down.simps) (simp add: n)
  have "\<not> tn_Height z \<le> tn_Height x" using c(3) by simp
  with d1 have d2: "down (ch_nodes ch) (tn_Height x) c = Some (Inr (Some (LastBlock ch)))"
    using c(2) l(3) by (subst down.simps) (simp add: n)
  have m: "meet (ch_nodes ch) (Some (LastBlock ch)) (LastBlock ch) = Some (Inr (Some (LastBlock ch)))" by (subst meet.simps) simp
  have u: "unwind ne (LastBlock ch) ch = Some (Inr ch)" by (subst unwind.simps) simp
  show "rewind ne c ch = Some (Inr (True, ch))" by (simp add: rewind_def n d1 d2 m u)
qed

text \<open>The head has one block on it, of which only the header has come.\<close>

definition demo_stuck :: chain where
  "demo_stuck = demo_chain\<lparr>ch_nodes := [0 \<mapsto> demo_node 1 0 0 None [1], 1 \<mapsto> (demo_node 2 1 1 (Some 0) [2])\<lparr>tn_TxCount := 1\<rparr>,
     2 \<mapsto> demo_node 3 2 2 (Some 1) []]\<rparr>"

lemma demo_stuck_nodes:
  "ch_nodes demo_stuck 0 = Some (demo_node 1 0 0 None [1])" "ch_nodes demo_stuck (Suc 0) = Some ((demo_node 2 1 1 (Some 0) [2])\<lparr>tn_TxCount := 1\<rparr>)"
  "ch_nodes demo_stuck 2 = Some (demo_node 3 2 2 (Some 1) [])" "LastBlock demo_stuck = Suc 0" "ch_BlockTreeRoot demo_stuck = 0"
  by (simp_all add: demo_stuck_def LastBlock_def)

lemma header_on_top_never_ends_witness: "ParseTillBlock demo_env 2 demo_stuck = None"
proof -
  have "3 \<le> n \<Longrightarrow> \<exists>k. n = Suc (Suc (Suc k))" for n :: nat by presburger
  moreover have "(3 :: nat) \<le> 2 ^ 32" by simp
  ultimately obtain k where k: "(2 :: nat) ^ 32 = Suc (Suc (Suc k))" by blast
  have "FindFarthestNode (Suc (Suc (Suc k))) (ch_nodes demo_stuck) (ch_BlockTreeRoot demo_stuck) = Some (Inr (2, 2))"
    by (simp add: demo_stuck_nodes node_def)
  then have "FindFarthestNode (2 ^ 32) (ch_nodes demo_stuck) (ch_BlockTreeRoot demo_stuck) = Some (Inr (2, 2))" by (simp only: k)
  from header_on_top_never_ends [OF _ _ _ _ _ _ _ this] show ?thesis
    by (simp add: demo_stuck_nodes) (simp add: demo_node_def)
qed

end
