(* ===== verification/LoadSpec.thy ===== *)
theory LoadSpec
  imports ChainLoadLaws MoveSpec "HOL-Library.List_Lexorder"
begin

text \<open>
  The properties of the start of the chain from its files.
\<close>

section \<open>The start\<close>

text \<open>What the files have to hold: every block of the index has its parent there, one lower, the block the coins are
  at is there, and its height is the one of the coins.\<close>

definition loadable :: "bdb_opts \<Rightarrow> chain \<Rightarrow> bool" where
  "loadable opts ch \<longleftrightarrow> ch_nodes ch = (\<lambda>_. None) \<and>
     (\<exists>ch1 e. load_nodes opts ch = Inr ch1 \<and> chained ch1 \<and> coins_block ch1 = Some e
        \<and> ud_LastBlockHeight (ch_Unspent ch) = tn_Height (the (ch_nodes ch1 e)))"

lemma loadable_loads:
  assumes "loadable opts ch" and "some_order order"
  obtains ch1 ch2 where "load_nodes opts ch = Inr ch1" "loadBlockIndex opts order ch = Inr ch2" "in_step ch2" "coins_block ch1 = Some (LastBlock ch2)"
    "ch_BlockIndex ch2 = ch_BlockIndex ch1" "ch_Blocks ch2 = snd (LoadBlockIndex opts (ch_Blocks ch))" "ch_Unspent ch2 = ch_Unspent ch"
    "ch_BlockTreeRoot ch2 = ch_BlockTreeRoot ch1"
    "\<And>a. map_option tn_Parent (ch_nodes ch2 a) = (if live ch1 a \<and> a \<noteq> ch_BlockTreeRoot ch1 then Some (parent_of ch1 a) else map_option tn_Parent (ch_nodes ch1 a))"
proof -
  obtain ch0 e where c: "load_nodes opts ch = Inr ch0" "chained ch0" "coins_block ch0 = Some e"
    "ud_LastBlockHeight (ch_Unspent ch) = tn_Height (the (ch_nodes ch0 e))" using assms(1) unfolding loadable_def by blast
  have n: "ch_nodes ch = (\<lambda>_. None)" using assms(1) by (simp add: loadable_def)
  show thesis
  proof (rule loadBlockIndex_tree [OF n assms(2), of opts], goal_cases)
    case (1 ch1)
    then show ?case using c by simp
  next
    case (2 ch1 ch2)
    have e: "ch1 = ch0" "e = LastBlock ch2" using 2(1,4) c(1,3) by simp_all
    have l: "live ch2 (LastBlock ch2)" using 2(3) by (simp add: tree_inv_def LastBlock_def)
    obtain x where x: "ch_nodes ch2 (LastBlock ch2) = Some x" by (rule live_node [OF 2(3) l])
    have "map_option tn_Height (ch_nodes ch0 (LastBlock ch2)) = Some (tn_Height x)" using 2(10) [of "LastBlock ch2"] x by (simp add: e)
    then have "tn_Height (the (ch_nodes ch0 (LastBlock ch2))) = tn_Height x" by auto
    then have "in_step ch2" using 2(3,7) c(4) x by (simp add: in_step_def same_rest_def e LastBlock_def)
    then show ?case using 2 by (intro that [of ch1 ch2]) (simp_all add: same_rest_def)
  qed
qed

lemma undo_blocks_in_step: "undo_blocks ne n ch = Some (Inr ch') \<Longrightarrow> in_step ch \<Longrightarrow> in_step ch'"
proof (induction n arbitrary: ch)
  case (Suc n)
  from Suc.prems(1) obtain ch1 where "UndoLastBlock ne ch = Some (Inr ch1)" "undo_blocks ne n ch1 = Some (Inr ch')" by (auto simp: bindR_Inr)
  then show ?case using Suc.IH UndoLastBlock_in_step [OF Suc.prems(2)] by blast
qed simp

lemma catch_up_in_step:
  assumes i: "in_step ch" and c: "catch_up ne opts ch = Some (Inr ch')"
  shows "in_step ch'"
proof -
  note inv = in_step_tree [OF i]
  have r: "live ch (ch_BlockTreeRoot ch)" and el: "live ch (LastBlock ch)" using inv by (simp_all add: tree_inv_def LastBlock_def)
  obtain m d where f: "FindFarthestNode (2 ^ 32) (ch_nodes ch) (ch_BlockTreeRoot ch) = Some (Inr (m, d))" "farthest ch (ch_BlockTreeRoot ch) m d"
    using FindFarthestNode_farthest [OF inv r fuel_enough] by blast
  have m: "live ch m" using f(2) by (simp add: farthest_def)
  obtain e where e: "ch_nodes ch m = Some e" by (rule live_node [OF inv m])
  obtain l where l: "ch_nodes ch (LastBlock ch) = Some l" by (rule live_node [OF inv el])
  have far: "tn_Height l \<le> tn_Height e"
    using f(2) el root_anc [OF inv el] e l by (auto simp: farthest_def word_le_nat_alt)
  note C = c [unfolded catch_up_def f(1)]
  show ?thesis
  proof (cases "tn_Height e > tn_Height l")
    case True
    show ?thesis
    proof (cases "cho_DoNotRescan opts")
      case True
      then have "ch' = ch" using C \<open>tn_Height e > tn_Height l\<close> by (simp add: node_def e l)
      then show ?thesis using i by simp
    next
      case False
      then have "ParseTillBlock ne m ch = Some (Inr ch')" using C True by (simp add: node_def e l)
      then show ?thesis using ParseTillBlock_in_step i m by blast
    qed
  next
    case False
    then have h: "tn_Height e = tn_Height l" using far by simp
    have "ch' = ch\<lparr>ch_Unspent := (ch_Unspent ch)\<lparr>ud_LastBlockHeight := tn_Height e\<rparr>\<rparr>" using C False by (simp add: node_def e l)
    moreover have "ud_LastBlockHeight (ch_Unspent ch) = tn_Height l" using i l by (simp add: in_step_def LastBlock_def)
    ultimately have "ch' = ch" using h by simp
    then show ?thesis using i by simp
  qed
qed

text \<open>
  C6. Loading the chain from its files: if every block of the index has its parent there, \<open>loadBlockIndex\<close> returns
  for every order in which Go ranges over the map of blocks, and each order gives a tree with the same blocks, parents
  and head, which is at the height of the coins. When the start of the chain returns, having undone blocks or caught up
  with the farthest one, the head and the coins are in step.
\<close>

theorem chain_is_loaded:
  assumes "loadable (ne_bdb ne) ch" and "cho_rescan opts \<longrightarrow> ud_LastBlockHash (ch_Unspent ch) = None" and "some_order order" and "some_order order'"
  shows "\<exists>ch2 ch3. loadBlockIndex (ne_bdb ne) order ch = Inr ch2 \<and> loadBlockIndex (ne_bdb ne) order' ch = Inr ch3 \<and> tree_inv ch2
    \<and> ud_LastBlockHeight (ch_Unspent ch2) = tn_Height (the (ch_nodes ch2 (LastBlock ch2)))
    \<and> ch_BlockIndex ch3 = ch_BlockIndex ch2 \<and> LastBlock ch3 = LastBlock ch2
    \<and> (\<forall>a. map_option tn_Parent (ch_nodes ch3 a) = map_option tn_Parent (ch_nodes ch2 a))
    \<and> (\<forall>ch'. start_chain ne order opts ch = Some (Inr ch') \<longrightarrow>
         tree_inv ch' \<and> ud_LastBlockHeight (ch_Unspent ch') = tn_Height (the (ch_nodes ch' (LastBlock ch'))))"
proof -
  obtain ch1 ch2 where a: "load_nodes (ne_bdb ne) ch = Inr ch1" "loadBlockIndex (ne_bdb ne) order ch = Inr ch2" "in_step ch2" "coins_block ch1 = Some (LastBlock ch2)"
    "ch_BlockIndex ch2 = ch_BlockIndex ch1" "ch_Unspent ch2 = ch_Unspent ch" "ch_BlockTreeRoot ch2 = ch_BlockTreeRoot ch1"
    "\<And>a. map_option tn_Parent (ch_nodes ch2 a) = (if live ch1 a \<and> a \<noteq> ch_BlockTreeRoot ch1 then Some (parent_of ch1 a) else map_option tn_Parent (ch_nodes ch1 a))"
    by (rule loadable_loads [OF assms(1,3)]) blast
  obtain ch1' ch3 where b: "load_nodes (ne_bdb ne) ch = Inr ch1'" "loadBlockIndex (ne_bdb ne) order' ch = Inr ch3" "coins_block ch1' = Some (LastBlock ch3)"
    "ch_BlockIndex ch3 = ch_BlockIndex ch1'"
    "\<And>a. map_option tn_Parent (ch_nodes ch3 a) = (if live ch1' a \<and> a \<noteq> ch_BlockTreeRoot ch1' then Some (parent_of ch1' a) else map_option tn_Parent (ch_nodes ch1' a))"
    by (rule loadable_loads [OF assms(1,4)]) blast
  have e: "ch1' = ch1" using a(1) b(1) by simp
  have "in_step ch'" if s: "start_chain ne order opts ch = Some (Inr ch')" for ch'
  proof -
    let ?c = "if cho_rescan opts then SetLast (ch_BlockTreeRoot ch2) ch2 else ch2"
    have "LastBlock ch2 = ch_BlockTreeRoot ch2" if "cho_rescan opts"
    proof -
      have "ch_nodes ch = (\<lambda>_. None)" using assms(1) by (simp add: loadable_def)
      then obtain c where "load_nodes (ne_bdb ne) ch = Inr c" "same_rest ch c" by (rule load_nodes_loose) blast
      then have "ud_LastBlockHash (ch_Unspent ch1) = None" using assms(2) that a(1) by (simp add: same_rest_def)
      then show ?thesis using a(4,7) by (simp add: coins_block_def)
    qed
    then have c: "?c = ch2" by (simp add: SetLast_def LastBlock_def)
    note s [unfolded start_chain_def a(2) bindR_simps Let_def c]
    then show ?thesis
      by (cases "cho_UndoBlocks opts > 0") (auto intro: undo_blocks_in_step [OF _ a(3)] catch_up_in_step [OF a(3)])
  qed
  moreover have "LastBlock ch3 = LastBlock ch2" using a(4) b(3) by (simp add: e)
  moreover have "map_option tn_Parent (ch_nodes ch3 a) = map_option tn_Parent (ch_nodes ch2 a)" for a
    using a(8) [of a] b(5) [of a] unfolding e by simp
  moreover have "ch_BlockIndex ch3 = ch_BlockIndex ch2" using a(5) b(4) by (simp add: e)
  ultimately show ?thesis
    using a(2,3) b(2) unfolding in_step_def LastBlock_def by blast
qed

text \<open>An index file of one block on top of the genesis block; the coins are at the start.\<close>

definition demo_record :: bytes where
  "demo_record = replicate 36 0 @ le_bytes 4 (1 :: u32) @ replicate 16 0 @ demo_header 5000 (demo_hash 9)"

definition demo_files :: chain where
  "demo_files = \<lparr>ch_Blocks = NewBlockDBExt demo_record (\<lambda>_. Some []), ch_Unspent = demo_utxo\<lparr>ud_LastBlockHash := None, ud_LastBlockHeight := 0\<rparr>,
     ch_nodes = (\<lambda>_. None), ch_next = 0, ch_BlockTreeRoot = 0, ch_blockTreeEnd = 0, ch_Genesis = demo_hash 9, ch_BlockIndex = (\<lambda>_. None),
     ch_Consensus = new_consensus (demo_hash 9)\<rparr>"

definition demo_start :: chain_opts where
  "demo_start = \<lparr>cho_rescan = False, cho_UndoBlocks = 0, cho_DoNotRescan = True\<rparr>"

lemma key_orders: "some_order (\<lambda>m. sorted_list_of_set (dom m))" "some_order (\<lambda>m. rev (sorted_list_of_set (dom m)))"
  by (simp_all add: some_order_def)

lemma demo_walk:
  "fst (LoadBlockIndex demo_opts (NewBlockDBExt demo_record (\<lambda>_. Some []))) =
     [(Sha2Sum (demo_header 5000 (demo_hash 9)), demo_header 5000 (demo_hash 9), 1, 0, 0)]"
proof -
  have h: "length (demo_header 5000 (demo_hash 9)) = 80" by (simp add: demo_header_def demo_hash_def)
  have r: "length demo_record = 136" "drop 56 demo_record = demo_header 5000 (demo_hash 9)" "demo_record ! 0 = 0"
    by (simp_all add: demo_record_def h nth_append)
  have "take 4 (drop 36 demo_record) = le_bytes 4 (1 :: u32)" "take 4 (drop 48 demo_record) = replicate 4 0" "take 4 (drop 52 demo_record) = replicate 4 0"
    by (simp_all add: demo_record_def)
  then have u: "le_word (take 4 (drop 36 demo_record)) = (1 :: u32)" "le_word (take 4 (drop 48 demo_record)) = (0 :: u32)"
    "le_word (take 4 (drop 52 demo_record)) = (0 :: u32)"
    by (simp_all add: le_bytes_def numeral_eq_Suc)
  have "fst (load_record demo_record db) = Some (Sha2Sum (demo_header 5000 (demo_hash 9)), demo_header 5000 (demo_hash 9), 1, 0, 0)" for db
    by (simp add: load_record_def Let_def r u)
  then have "fst (load_records demo_record db) = [(Sha2Sum (demo_header 5000 (demo_hash 9)), demo_header 5000 (demo_hash 9), 1, 0, 0)]" for db
    using r(1) by (subst load_records.simps, subst load_records.simps) (simp add: Let_def case_prod_unfold)
  then show ?thesis by (simp add: LoadBlockIndex_def Let_def case_prod_unfold NewBlockDBExt_def)
qed

lemma demo_loadable: "loadable demo_opts demo_files"
proof -
  let ?hdr = "demo_header 5000 (demo_hash 9)"
  obtain x where x: "RebuildGenesisHeader (demo_files\<lparr>ch_nodes := [0 \<mapsto> new_node (demo_hash 9) 0 0 0 (replicate 80 0)], ch_next := 1, ch_BlockTreeRoot := 0\<rparr>)
      = Inr ((demo_files\<lparr>ch_nodes := Map.empty, ch_next := 1, ch_BlockTreeRoot := 0\<rparr>)\<lparr>ch_nodes := [0 \<mapsto> x]\<rparr>)" "tn_Height x = 0"
    by (simp add: RebuildGenesisHeader_def upd_node_def node_def new_node_def)
  obtain db where l: "LoadBlockIndex demo_opts (ch_Blocks demo_files) = ([(Sha2Sum ?hdr, ?hdr, 1, 0, 0)], db)"
    using demo_walk by (metis chain.select_convs(1) demo_files_def surjective_pairing)
  have g: "ch_Genesis demo_files = demo_hash 9" "ch_nodes demo_files = (\<lambda>_. None)" "ch_next demo_files = 0" "ch_BlockTreeRoot demo_files = 0"
    "ud_LastBlockHash (ch_Unspent demo_files) = None" "ud_LastBlockHeight (ch_Unspent demo_files) = 0"
    by (simp_all add: demo_files_def)
  let ?c = "demo_files\<lparr>ch_nodes := [0 \<mapsto> x], ch_next := 1, ch_BlockTreeRoot := 0, ch_BlockIndex := [BIdx (demo_hash 9) \<mapsto> 0], ch_Blocks := db\<rparr>"
  have n: "load_nodes demo_opts demo_files = Inr (nextBlock (Sha2Sum ?hdr, ?hdr, 1, 0, 0) ?c)"
    using x(1) by (simp add: load_nodes_def g l)
  have p: "take 32 (drop 4 ?hdr) = demo_hash 9" by (simp add: demo_header_def demo_hash_def)
  have "chained (nextBlock (Sha2Sum ?hdr, ?hdr, 1, 0, 0) ?c)"
    by (auto simp: chained_def new_node_def prev_key_def p x(2) split: if_splits)
  moreover have "coins_block (nextBlock (Sha2Sum ?hdr, ?hdr, 1, 0, 0) ?c) = Some 0" by (simp add: coins_block_def g)
  moreover have "tn_Height (the (ch_nodes (nextBlock (Sha2Sum ?hdr, ?hdr, 1, 0, 0) ?c) 0)) = 0" using x(2) by simp
  ultimately show ?thesis unfolding loadable_def using n g by auto
qed

lemma chain_is_loaded_witness:
  "\<exists>ch2. loadBlockIndex demo_opts (\<lambda>m. rev (sorted_list_of_set (dom m))) demo_files = Inr ch2 \<and> tree_inv ch2
    \<and> ud_LastBlockHeight (ch_Unspent ch2) = tn_Height (the (ch_nodes ch2 (LastBlock ch2)))"
proof -
  have "ne_bdb demo_env = demo_opts" by (simp add: demo_env_def)
  with chain_is_loaded [of demo_env demo_files demo_start, OF _ _ key_orders(2,1)] demo_loadable show ?thesis
    by (auto simp: demo_start_def)
qed

end
