(* ===== verification/UtxoFile.thy ===== *)
theory UtxoFile
  imports UtxoDb
begin

text \<open>
  The file of the database of unspent outputs (\<open>save\<close>, \<open>NewUnspentDb\<close> and \<open>PurgeUnspendable\<close> of
  \<open>lib/utxo/unspent_db.go\<close>): what is written, and how it is read when the program starts. The interruption of the
  reading by \<open>AbortNow\<close> and the progress messages are left out; the goroutines that write the file are in the
  theory \<open>UtxoSave\<close>.
\<close>

section \<open>Writing\<close>

text \<open>A nil slice is written as an empty one.\<close>

definition file_rec :: "bytes \<times> bytes option \<Rightarrow> bytes" where
  "file_rec = (\<lambda>(k, v). let b = (case v of None \<Rightarrow> [] | Some b \<Rightarrow> b) in WriteVlen (of_nat (UtxoIdxLen + length b)) @ k @ b)"

text \<open>The first bytes: the height with the flag of the compressed format, the hash, the number of records.\<close>

definition file_head :: "bool \<Rightarrow> utxo_db \<Rightarrow> nat \<Rightarrow> bytes" where
  "file_head compr db n =
     (let u = ucast (ud_LastBlockHeight db) :: u64; u = (if compr then u OR 0x8000000000000000 else u)
      in le_bytes 8 u @ (case ud_LastBlockHash db of None \<Rightarrow> [] | Some h \<Rightarrow> h) @ le_bytes 8 (of_nat n :: u64))"

text \<open>The whole file, for one order of the keys.\<close>

definition recs_of :: "utxo_db \<Rightarrow> bytes list \<Rightarrow> (bytes \<times> bytes option) list" where
  "recs_of db ks = map (\<lambda>k. (k, the (ud_Map db k))) ks"

definition file_bytes :: "bool \<Rightarrow> utxo_db \<Rightarrow> bytes list \<Rightarrow> bytes" where
  "file_bytes compr db ks = file_head compr db (length ks) @ concat (map file_rec (recs_of db ks))"

section \<open>Reading\<close>

text \<open>The records of the file entered into the map: \<open>None\<close> is an error of the reader, which ends the attempt.\<close>

fun read_recs :: "nat \<Rightarrow> bytes \<Rightarrow> utxo_map \<Rightarrow> go_panic + utxo_map option" where
  "read_recs 0 rd m = Inr (Some m)"
| "read_recs (Suc n) rd m =
     (case ReadVLen rd of
        Inl _ \<Rightarrow> Inr None
      | Inr (le, rd) \<Rightarrow>
          (case ReadFull rd UtxoIdxLen of
             Inl _ \<Rightarrow> Inr None
           | Inr (k, rd) \<Rightarrow>
               if \<not> make_ok 1 (sint le - int UtxoIdxLen) then Inl MakeSlice
               else
                 (case ReadFull rd (nat (sint le - int UtxoIdxLen)) of
                    Inl _ \<Rightarrow> Inr None
                  | Inr (b, rd) \<Rightarrow> read_recs n rd (m(k \<mapsto> Some b)))))"

text \<open>
  One attempt, on a file that may not be there: the flag of the compressed format, which stays set when the attempt
  fails later, and the height, hash and map that were read. \<open>Read\<close> of the hash is content with fewer bytes.
\<close>

definition try_file :: "bytes option \<Rightarrow> bool \<Rightarrow> go_panic + bool \<times> (u32 \<times> bytes \<times> utxo_map) option" where
  "try_file f compr =
     (case f of
        None \<Rightarrow> Inr (compr, None)
      | Some rd \<Rightarrow>
          (case ReadFull rd 8 of
             Inl _ \<Rightarrow> Inr (compr, None)
           | Inr (w, rd) \<Rightarrow>
               let u = le_word w :: u64; height = ucast u; compr = (u AND 0x8000000000000000 \<noteq> 0) in
               if rd = [] then Inr (compr, None)
               else
                 let h = take 32 rd @ replicate (32 - length rd) 0 in
                 (case ReadFull (drop 32 rd) 8 of
                    Inl _ \<Rightarrow> Inr (compr, None)
                  | Inr (w, rd) \<Rightarrow>
                      andThen (read_recs (unat (le_word w :: u64)) rd Map.empty) (\<lambda>r.
                      Inr (compr, map_option (\<lambda>m. (height, h, m)) r)))))"

text \<open>
  The database and what the process has beside it: the field \<open>ComprssedUTXO\<close>, which decides the flag of the next
  file, and whether the function variables \<open>Serialize\<close>, \<open>NewUtxoRec\<close>, \<open>\<dots>\<close> are the compressed ones.
\<close>

record utxo_dir =
  dir_db :: "bytes option"
  dir_old :: "bytes option"

record unspent_opts =
  uo_Rescan :: bool
  uo_CompressRecords :: bool

record utxo_state =
  us_db :: utxo_db
  us_ComprssedUTXO :: bool
  us_functions :: bool

definition no_utxo :: "(u32 \<Rightarrow> bytes option) \<Rightarrow> utxo_db" where
  "no_utxo undo = \<lparr>ud_Map = Map.empty, ud_LastBlockHash = None, ud_LastBlockHeight = 0, ud_Undo = undo,
     ud_UnwindBufLen = 2560, ud_Dirty = False\<rparr>"

definition utxo_loaded :: "(u32 \<Rightarrow> bytes option) \<Rightarrow> bool \<Rightarrow> u32 \<times> bytes \<times> utxo_map \<Rightarrow> utxo_state" where
  "utxo_loaded undo compr = (\<lambda>(height, h, m).
     \<lparr>us_db = (no_utxo undo)\<lparr>ud_Map := m, ud_LastBlockHash := Some h, ud_LastBlockHeight := height\<rparr>,
      us_ComprssedUTXO = compr, us_functions = compr\<rparr>)"

definition NewUnspentDb :: "unspent_opts \<Rightarrow> (u32 \<Rightarrow> bytes option) \<Rightarrow> utxo_dir \<Rightarrow> go_panic + utxo_state" where
  "NewUnspentDb opts undo d =
     (let none = (\<lambda>c. \<lparr>us_db = no_utxo undo, us_ComprssedUTXO = c, us_functions = False\<rparr>);
          compr = uo_CompressRecords opts
      in if uo_Rescan opts then Inr (none compr)
         else
           andThen (try_file (dir_db d) compr) (\<lambda>(compr, r).
           case r of
             Some x \<Rightarrow> Inr (utxo_loaded undo compr x)
           | None \<Rightarrow>
               andThen (try_file (dir_old d) compr) (\<lambda>(compr, r).
               Inr (case r of Some x \<Rightarrow> utxo_loaded undo compr x | None \<Rightarrow> none compr))))"

text \<open>The functions a process calls for its records.\<close>

definition state_cfg :: "key_ops \<Rightarrow> utxo_state \<Rightarrow> utxo_cfg" where
  "state_cfg ks st = (if us_functions st then compressed_cfg ks else plain_cfg ks)"

section \<open>Purging\<close>

definition out_bad :: "key_ops \<Rightarrow> utxo_out option \<Rightarrow> bool" where
  "out_bad ks r = (case r of None \<Rightarrow> False | Some x \<Rightarrow> IsUnspendable ks (uo_PKScr x))"

definition purge_key :: "utxo_cfg \<Rightarrow> bool \<Rightarrow> bytes \<Rightarrow> utxo_map \<Rightarrow> (go_panic + utxo_map) option" where
  "purge_key cfg purge_all k m =
     (case m k of
        None \<Rightarrow> Some (Inr m)
      | Some v \<Rightarrow>
          bindR (NewUtxoRec (uc_fmt cfg) k \<lparr>sl_data = (case v of None \<Rightarrow> [] | Some b \<Rightarrow> b), sl_spare = []\<rparr>) (\<lambda>rec.
          let bad = out_bad (uc_keys cfg);
              spendable_found = (\<exists>r \<in> set (ur_Outs rec). r \<noteq> None \<and> \<not> bad r);
              record_removed = purge_all \<and> (\<exists>r \<in> set (ur_Outs rec). bad r);
              outs = (if purge_all then map (\<lambda>r. if bad r then None else r) (ur_Outs rec) else ur_Outs rec)
          in if \<not> spendable_found then Some (Inr (m(k := None)))
             else if record_removed then
               (case serialize (uc_fmt cfg) (uc_alloc cfg) (rec\<lparr>ur_Outs := outs\<rparr>) False None of
                  Inl e \<Rightarrow> Some (Inl e)
                | Inr v \<Rightarrow> Some (Inr (m(k \<mapsto> v))))
             else Some (Inr m)))"

text \<open>The keys in the order in which Go ranges over the maps.\<close>

definition PurgeUnspendable :: "utxo_cfg \<Rightarrow> bool \<Rightarrow> bytes list \<Rightarrow> utxo_map \<Rightarrow> (go_panic + utxo_map) option" where
  "PurgeUnspendable cfg purge_all ks m = foldR (purge_key cfg purge_all) ks m"

section \<open>The file is read back\<close>

text \<open>What a database must be for its file to hold it, and what is left of it.\<close>

definition file_ok :: "utxo_db \<Rightarrow> bool" where
  "file_ok db \<longleftrightarrow> (\<exists>h. ud_LastBlockHash db = Some h \<and> length h = 32) \<and>
     (\<forall>k v. ud_Map db k = Some v \<longrightarrow> length k = UtxoIdxLen \<and> (case v of None \<Rightarrow> True | Some b \<Rightarrow> length b \<le> 2 ^ 48))"

definition keys_of :: "utxo_db \<Rightarrow> bytes list \<Rightarrow> bool" where
  "keys_of db ks \<longleftrightarrow> distinct ks \<and> set ks = dom (ud_Map db) \<and> length ks < 2 ^ 64"

definition as_read :: "bytes option \<Rightarrow> bytes option" where
  "as_read v = (case v of None \<Rightarrow> Some [] | Some b \<Rightarrow> Some b)"

definition same_database :: "utxo_db \<Rightarrow> utxo_db \<Rightarrow> bool" where
  "same_database db db' \<longleftrightarrow> ud_LastBlockHeight db' = ud_LastBlockHeight db \<and> ud_LastBlockHash db' = ud_LastBlockHash db
     \<and> (\<forall>k. ud_Map db' k = map_option as_read (ud_Map db k))"

lemma sint_of_nat_small: "n < 2 ^ 63 \<Longrightarrow> sint (of_nat n :: u64) = int n"
proof -
  assume n: "n < 2 ^ 63"
  then have "uint (of_nat n :: u64) = int n" by (simp add: unsigned_of_nat take_bit_nat_eq_self)
  then show ?thesis using n sint_small [of "of_nat n"] by simp
qed

lemma read_file_rec:
  assumes "length k = UtxoIdxLen" "case v of None \<Rightarrow> True | Some b \<Rightarrow> length b \<le> 2 ^ 48"
  shows "read_recs (Suc n) (file_rec (k, v) @ rest) m = read_recs n rest (m(k \<mapsto> as_read v))"
proof -
  define b where "b = (case v of None \<Rightarrow> [] | Some b \<Rightarrow> b)"
  have b: "length b \<le> 2 ^ 48" "as_read v = Some b" using assms(2) by (auto simp: b_def as_read_def split: option.splits)
  have s: "sint (of_nat (UtxoIdxLen + length b) :: u64) = int (UtxoIdxLen + length b)"
    by (rule sint_of_nat_small) (use b(1) in simp)
  have f: "file_rec (k, v) @ rest = WriteVlen (of_nat (UtxoIdxLen + length b)) @ k @ b @ rest"
    by (simp add: file_rec_def b_def Let_def)
  have k: "ReadFull (k @ b @ rest) UtxoIdxLen = Inr (k, b @ rest)" using assms(1) by (simp add: ReadFull_def)
  have r: "ReadFull (b @ rest) (length b) = Inr (b, rest)" by (simp add: ReadFull_def)
  have m: "make_ok 1 (sint (of_nat (UtxoIdxLen + length b) :: u64) - int UtxoIdxLen)"
    unfolding s using b(1) by (simp add: make_ok_def)
  have n: "nat (sint (of_nat (UtxoIdxLen + length b) :: u64) - int UtxoIdxLen) = length b" unfolding s by simp
  show ?thesis
    unfolding f read_recs.simps ReadVLen_WriteVlen sum.case prod.case k n r b(2) using m by simp
qed

lemma read_recs_all:
  assumes "\<And>k. k \<in> set ks \<Longrightarrow> length k = UtxoIdxLen \<and> (case g k of None \<Rightarrow> True | Some b \<Rightarrow> length b \<le> 2 ^ 48)"
  shows "read_recs (length ks) (concat (map file_rec (map (\<lambda>k. (k, g k)) ks)) @ rest) m =
    Inr (Some (\<lambda>x. if x \<in> set ks then Some (as_read (g x)) else m x))"
  using assms
proof (induction ks arbitrary: m)
  case (Cons k ks)
  have "read_recs (length (k # ks)) (concat (map file_rec (map (\<lambda>k. (k, g k)) (k # ks))) @ rest) m =
      read_recs (length ks) (concat (map file_rec (map (\<lambda>k. (k, g k)) ks)) @ rest) (m(k \<mapsto> as_read (g k)))"
    using Cons.prems [of k] by (simp add: read_file_rec del: read_recs.simps)
  also have "\<dots> = Inr (Some (\<lambda>x. if x \<in> set ks then Some (as_read (g x)) else (m(k \<mapsto> as_read (g k))) x))"
    by (rule Cons.IH) (use Cons.prems in simp)
  also have "(\<lambda>x. if x \<in> set ks then Some (as_read (g x)) else (m(k \<mapsto> as_read (g k))) x) =
      (\<lambda>x. if x \<in> set (k # ks) then Some (as_read (g x)) else m x)"
    by (auto simp: fun_eq_iff)
  finally show ?case .
qed simp

lemma height_flag:
  fixes h :: u32
  defines "u \<equiv> ucast h :: u64"
  shows "(u OR 0x8000000000000000) AND 0x8000000000000000 \<noteq> 0" "u AND 0x8000000000000000 = 0"
    "ucast (u OR 0x8000000000000000) = h" "ucast u = h"
proof -
  have b: "bit (0x8000000000000000 :: u64) n \<longleftrightarrow> n = 63" for n
  proof -
    have p: "(0x8000000000000000 :: u64) = push_bit 63 1" by (simp add: push_bit_eq_mult)
    have "bit (push_bit 63 1 :: u64) n \<longleftrightarrow> n = 63" unfolding bit_push_bit_iff by (auto simp: bit_1_iff possible_bit_def)
    then show ?thesis unfolding p .
  qed
  have hb: "\<not> bit h n" if "32 \<le> n" for n using bit_imp_le_length [of h n] that by auto
  show "(u OR 0x8000000000000000) AND 0x8000000000000000 \<noteq> 0"
  proof
    assume "(u OR 0x8000000000000000) AND 0x8000000000000000 = 0"
    then have "\<not> bit ((u OR 0x8000000000000000) AND 0x8000000000000000) 63" by (simp only: bit_0_eq) simp
    then show False by (simp add: bit_and_iff bit_or_iff b)
  qed
  show "u AND 0x8000000000000000 = 0"
  proof (rule bit_word_eqI)
    fix n assume "n < LENGTH(64)"
    have "\<not> bit h 63" by (rule hb) simp
    then show "bit (u AND 0x8000000000000000) n = bit (0 :: u64) n" unfolding bit_and_iff b u_def bit_ucast_iff by auto
  qed
  show "ucast (u OR 0x8000000000000000) = h"
  proof (rule bit_word_eqI)
    fix n assume "n < LENGTH(32)"
    then show "bit (ucast (u OR 0x8000000000000000) :: u32) n = bit h n" unfolding bit_ucast_iff bit_or_iff b u_def by auto
  qed
  show "ucast u = h" unfolding u_def by (rule bit_word_eqI) (auto simp: bit_ucast_iff)
qed

text \<open>The round trip.\<close>

lemma try_file_bytes:
  assumes "file_ok db" "keys_of db ks"
  shows "\<exists>h m. try_file (Some (file_bytes compr db ks @ rest)) c = Inr (compr, Some (ud_LastBlockHeight db, h, m)) \<and>
    ud_LastBlockHash db = Some h \<and> m = (\<lambda>k. map_option as_read (ud_Map db k))"
proof -
  obtain h where h: "ud_LastBlockHash db = Some h" "length h = 32" using assms(1) by (auto simp: file_ok_def)
  define u where "u = (if compr then ucast (ud_LastBlockHeight db) OR 0x8000000000000000 else ucast (ud_LastBlockHeight db) :: u64)"
  define recs where "recs = concat (map file_rec (recs_of db ks)) @ rest"
  have bytes: "file_bytes compr db ks @ rest = le_bytes 8 u @ h @ le_bytes 8 (of_nat (length ks) :: u64) @ recs"
    by (simp add: file_bytes_def file_head_def u_def h(1) recs_def)
  have flag: "(u AND 0x8000000000000000 \<noteq> 0) = compr" "ucast u = ud_LastBlockHeight db"
    using height_flag [of "ud_LastBlockHeight db"] by (simp_all add: u_def)
  have cnt: "unat (of_nat (length ks) :: u64) = length ks"
    using assms(2) by (simp add: keys_of_def unsigned_of_nat take_bit_nat_eq_self)
  have "read_recs (length ks) recs Map.empty = Inr (Some (\<lambda>x. if x \<in> set ks then Some (as_read (the (ud_Map db x))) else None))"
    unfolding recs_def recs_of_def
    using assms by (subst read_recs_all) (auto simp: file_ok_def keys_of_def)
  moreover have "(\<lambda>x. if x \<in> set ks then Some (as_read (the (ud_Map db x))) else None) = (\<lambda>k. map_option as_read (ud_Map db k))"
    using assms(2) by (auto simp: keys_of_def fun_eq_iff split: option.split)
  ultimately have r: "read_recs (length ks) recs Map.empty = Inr (Some (\<lambda>k. map_option as_read (ud_Map db k)))" by simp
  have h32: "take 32 (h @ xs) = h" "drop 32 (h @ xs) = xs" "h \<noteq> []" for xs :: bytes using h(2) by auto
  have rf: "ReadFull (le_bytes 8 (x :: u64) @ xs) 8 = Inr (le_bytes 8 x, xs)" for x xs by (simp add: ReadFull_def)
  show ?thesis
    unfolding bytes try_file_def option.case rf sum.case prod.case Let_def
    using h flag cnt r by (simp add: h32 rf)
qed


section \<open>What purging does to the coins\<close>

definition coin_purge :: "key_ops \<Rightarrow> bool \<Rightarrow> utxo_rec option \<Rightarrow> utxo_rec option" where
  "coin_purge ks purge_all r = (case r of
     None \<Rightarrow> None
   | Some rec \<Rightarrow>
       if \<exists>r \<in> set (ur_Outs rec). r \<noteq> None \<and> \<not> out_bad ks r
       then Some (if purge_all then rec\<lparr>ur_Outs := map (\<lambda>r. if out_bad ks r then None else r) (ur_Outs rec)\<rparr> else rec)
       else None)"

context utxo_store begin

lemma purge_key_coins:
  assumes R: "coins_ok ok R"
  shows "purge_key cfg purge_all k (S R) = Some (Inr (S (upd_at id (\<lambda>_. coin_purge (uc_keys cfg) purge_all) k R))) \<and>
    coins_ok ok (upd_at id (\<lambda>_. coin_purge (uc_keys cfg) purge_all) k R)"
proof (cases "R k")
  case None
  then have "upd_at id (\<lambda>_. coin_purge (uc_keys cfg) purge_all) k R = R" by (auto simp: upd_at_def coin_purge_def)
  then show ?thesis using R None by (simp add: purge_key_def store_of_def)
next
  case (Some rec)
  let ?bad = "out_bad (uc_keys cfg)"
  let ?some = "\<exists>r \<in> set (ur_Outs rec). r \<noteq> None \<and> \<not> ?bad r" and ?rem = "\<exists>r \<in> set (ur_Outs rec). ?bad r"
  let ?new = "rec\<lparr>ur_Outs := map (\<lambda>r. if ?bad r then None else r) (ur_Outs rec)\<rparr>"
  have ok: "record_ok ok rec" "UtxoKey (ur_TxID rec) = k" using R Some by (auto simp: coins_ok_def)
  have m: "S R k = Some (Some (drop 8 (ur_TxID rec) @ rec_bytes (uc_fmt cfg) rec))" by (simp add: store_of_def Some)
  have key: "purge_key cfg purge_all k (S R) =
      (if \<not> ?some then Some (Inr ((S R)(k := None)))
       else if purge_all \<and> ?rem then
         (case serialize (uc_fmt cfg) (uc_alloc cfg) (rec\<lparr>ur_Outs := if purge_all then map (\<lambda>r. if ?bad r then None else r) (ur_Outs rec) else ur_Outs rec\<rparr>) False None of
            Inl e \<Rightarrow> Some (Inl e) | Inr v \<Rightarrow> Some (Inr ((S R)(k \<mapsto> v))))
       else Some (Inr (S R)))"
    unfolding purge_key_def m option.case load [OF R Some] bindR_simps Let_def ..
  have upd: "upd_at id (\<lambda>_. coin_purge (uc_keys cfg) purge_all) k R = R(k := if ?some then Some (if purge_all then ?new else rec) else None)"
    by (simp add: upd_at_def coin_purge_def Some)
  show ?thesis
  proof (cases ?some)
    case False
    then show ?thesis using R unfolding key upd by (auto simp: store_of_def coins_ok_def fun_eq_iff)
  next
    case True
    show ?thesis
    proof (cases "purge_all \<and> ?rem")
      case rem: True
      have new: "record_ok ok ?new"
        using ok(1) True unfolding record_ok_def outs_ok_def by (auto split: if_splits)
      show ?thesis
        using R True rem ok new save [OF new] unfolding key upd
        by (auto simp: store_of_def coins_ok_def fun_eq_iff)
    next
      case no: False
      have "(if purge_all then ?new else rec) = rec"
      proof (cases purge_all)
        case True
        with no have "map (\<lambda>r. if ?bad r then None else r) (ur_Outs rec) = ur_Outs rec" by (intro map_idI) auto
        then show ?thesis by simp
      qed simp
      then have "upd_at id (\<lambda>_. coin_purge (uc_keys cfg) purge_all) k R = R" unfolding upd using True Some by auto
      moreover have "purge_key cfg purge_all k (S R) = Some (Inr (S R))"
        unfolding key if_not_P [OF no] using True by (simp only: not_True_eq_False not_not if_False if_True simp_thms)
      ultimately show ?thesis using R by simp
    qed
  qed
qed

lemma PurgeUnspendable_coins:
  fixes purge_all :: bool
  assumes R: "coins_ok ok R" and ks: "distinct ks" "set ks = dom R"
  defines "R' \<equiv> \<lambda>k. coin_purge (uc_keys cfg) purge_all (R k)"
  shows "PurgeUnspendable cfg purge_all ks (S R) = Some (Inr (S R')) \<and> coins_ok ok R'"
proof -
  let ?g = "\<lambda>_. coin_purge (uc_keys cfg) purge_all"
  have d: "distinct (map id ks)" using ks(1) by simp
  have "foldR (purge_key cfg purge_all) ks (S R) = Some (Inr (S (fold (upd_at id ?g) ks R))) \<and> coins_ok ok (fold (upd_at id ?g) ks R)"
    by (rule foldR_upd_at [where pre = "\<lambda>_ _. True" and I = "coins_ok ok", OF d R]) (use purge_key_coins in blast)+
  moreover have "fold (upd_at id ?g) ks R = R'"
  proof
    fix k
    show "fold (upd_at id ?g) ks R k = R' k"
    proof (cases "k \<in> set ks")
      case True
      then show ?thesis using fold_upd_at [OF d True, of ?g R] by (simp add: R'_def)
    next
      case False
      then have "R k = None" using ks(2) by auto
      then show ?thesis using False fold_upd_at_other [of k id ks ?g R] by (simp add: R'_def coin_purge_def)
    qed
  qed
  ultimately show ?thesis by (simp add: PurgeUnspendable_def)
qed

text \<open>An answer of the database after the purge, for one output.\<close>

lemma lookup_purged:
  "(case coin_purge ks purge_all r of None \<Rightarrow> None | Some rec \<Rightarrow> lookup_out rec v) =
   (case (case r of None \<Rightarrow> None | Some rec \<Rightarrow> lookup_out rec v) of
      None \<Rightarrow> None
    | Some t \<Rightarrow> if IsUnspendable ks (to_Pk_script t) \<and> (purge_all \<or> coin_purge ks False r = None) then None else Some t)"
  (is "?new = ?old")
proof (cases r)
  case None
  then show ?thesis by (simp add: coin_purge_def)
next
  case (Some rec)
  let ?some = "\<exists>r \<in> set (ur_Outs rec). r \<noteq> None \<and> \<not> out_bad ks r"
  show ?thesis
  proof (cases "unat v < length (ur_Outs rec) \<and> ur_Outs rec ! unat v \<noteq> None")
    case False
    then show ?thesis using Some by (auto simp: coin_purge_def lookup_out_def out_bad_def split: option.split)
  next
    case True
    then obtain x where x: "unat v < length (ur_Outs rec)" "ur_Outs rec ! unat v = Some x" by blast
    then have mem: "Some x \<in> set (ur_Outs rec)" by (metis nth_mem)
    have bad: "out_bad ks (Some x) = IsUnspendable ks (uo_PKScr x)" by (simp add: out_bad_def)
    show ?thesis
    proof (cases ?some)
      case True
      then show ?thesis using Some x bad by (simp add: coin_purge_def lookup_out_def)
    next
      case False
      then have "IsUnspendable ks (uo_PKScr x)" using mem bad by auto
      then show ?thesis using Some x False by (simp add: coin_purge_def lookup_out_def)
    qed
  qed
qed

end

end
