(* ===== verification/UtxoSave.thy ===== *)
theory UtxoSave
  imports UtxoFile
begin

text \<open>
  The writing of the database (\<open>Save\<close>, \<open>save\<close>, \<open>Idle\<close>, \<open>HurryUp\<close> and \<open>abortWriting\<close> of
  \<open>lib/utxo/unspent_db.go\<close>): \<open>save\<close> runs in a goroutine of its own, ranges over the map and hands pieces of about
  64 kB over a channel to a second goroutine, which writes them to a temporary file and renames it at the end. A
  block that arrives asks \<open>save\<close> to stop and waits for it, but not for the second goroutine. A schedule is a list of
  events, each one step of one of the goroutines or a request from outside; that the process ends is the end of the
  schedule. How long \<open>save\<close> waits to spread the work over time is left open; writing, renaming and removing a file
  succeed; the temporary file is seen by its writer only, since the start of the program removes such files, and two that
  are being written at the same time have different names (which come from the hash of the block).
\<close>

section \<open>State\<close>

text \<open>
  One call of \<open>save\<close> with its writer: what \<open>save\<close> has still to do (the records, its buffer, \<open>check_time\<close>,
  \<open>hurryup\<close>, whether it is still running), the two channels, and the local state of the writer.
\<close>

record save_run =
  sr_recs :: "(bytes \<times> bytes option) list"
  sr_buf :: bytes
  sr_check_time :: bool
  sr_hurryup :: bool
  sr_running :: bool
  sr_data_channel :: "bytes list"
  sr_exit_channel :: "bool option"
  wr_dat :: "bytes option"
  wr_exit :: bool
  wr_abort :: bool
  wr_file :: bytes

record utxo_sys =
  sy_db :: utxo_db
  sy_ComprssedUTXO :: bool
  sy_CurrentHeightOnDisk :: u32
  sy_abortwritingnow :: bool
  sy_hurryup :: bool
  sy_dir :: utxo_dir
  sy_runs :: "save_run list"

definition save_buffer_min :: nat where "save_buffer_min = 0x10000"
definition save_buffer_cnt :: nat where "save_buffer_cnt = 100"

definition WritingInProgress :: "utxo_sys \<Rightarrow> bool" where
  "WritingInProgress s \<longleftrightarrow> (\<exists>r \<in> set (sy_runs s). sr_running r)"

section \<open>Steps of \<open>save\<close>\<close>

definition new_run :: "bool \<Rightarrow> utxo_db \<Rightarrow> bytes list \<Rightarrow> bool \<Rightarrow> save_run" where
  "new_run compr db ks hurry =
     \<lparr>sr_recs = recs_of db ks, sr_buf = file_head compr db (length ks), sr_check_time = False, sr_hurryup = hurry,
      sr_running = True, sr_data_channel = [], sr_exit_channel = None, wr_dat = None, wr_exit = False, wr_abort = False,
      wr_file = []\<rparr>"

text \<open>The order \<open>ks\<close> of the keys is that of the maps; \<open>hurry\<close> is whether \<open>UTXO_WRITING_TIME_TARGET\<close> is zero.\<close>

definition Save :: "bytes list \<Rightarrow> bool \<Rightarrow> utxo_sys \<Rightarrow> utxo_sys" where
  "Save ks hurry s =
     (if WritingInProgress s then s
      else
        let d = sy_dir s;
            d = (case dir_db d of None \<Rightarrow> d | Some f \<Rightarrow> \<lparr>dir_db = None, dir_old = Some f\<rparr>)
        in s\<lparr>sy_dir := d, sy_runs := sy_runs s @ [new_run (sy_ComprssedUTXO s) (sy_db s) ks hurry]\<rparr>)"

definition Idle :: "bool \<Rightarrow> u32 \<Rightarrow> bytes list \<Rightarrow> bool \<Rightarrow> utxo_sys \<Rightarrow> utxo_sys" where
  "Idle volatimemode skip_blocks ks hurry s =
     (if volatimemode then s
      else if ud_Dirty (sy_db s) \<and> ud_LastBlockHeight (sy_db s) - sy_CurrentHeightOnDisk s > skip_blocks
      then Save ks hurry s else s)"

definition HurryUp :: "utxo_sys \<Rightarrow> utxo_sys" where
  "HurryUp s = s\<lparr>sy_hurryup := True\<rparr>"

text \<open>\<open>Close\<close> up to the point where it waits for the goroutines to end.\<close>

definition Close :: "bytes list \<Rightarrow> bool \<Rightarrow> utxo_sys \<Rightarrow> utxo_sys" where
  "Close ks hurry s = (if ud_Dirty (sy_db s) then Save ks hurry (HurryUp s) else s)"

text \<open>One record. There must be room in the channel before, since the piece it completes is sent at once.\<close>

definition put_rec :: "save_run \<Rightarrow> save_run option" where
  "put_rec r =
     (case sr_recs r of
        [] \<Rightarrow> None
      | x # xs \<Rightarrow>
          if sr_running r \<and> length (sr_data_channel r) < save_buffer_cnt then
            let buf = sr_buf r @ file_rec x in
            if length buf \<ge> save_buffer_min
            then Some (r\<lparr>sr_recs := xs, sr_buf := [], sr_check_time := \<not> sr_hurryup r, sr_data_channel := sr_data_channel r @ [buf]\<rparr>)
            else Some (r\<lparr>sr_recs := xs, sr_buf := buf, sr_check_time := False\<rparr>)
          else None)"

text \<open>The places before a record where \<open>save\<close> listens to the other channels.\<close>

definition listens :: "save_run \<Rightarrow> bool" where
  "listens r \<longleftrightarrow> sr_running r \<and> sr_recs r \<noteq> [] \<and> (sr_check_time r \<or> length (sr_data_channel r) \<ge> save_buffer_cnt)"

definition stop_save :: "save_run \<Rightarrow> save_run option" where
  "stop_save r = (if listens r then Some (r\<lparr>sr_running := False, sr_exit_channel := Some True\<rparr>) else None)"

definition hurry_save :: "save_run \<Rightarrow> save_run option" where
  "hurry_save r = (if listens r then Some (r\<lparr>sr_check_time := False, sr_hurryup := True\<rparr>) else None)"

definition send_last :: "save_run \<Rightarrow> save_run option" where
  "send_last r =
     (if sr_running r \<and> sr_recs r = [] \<and> sr_buf r \<noteq> [] \<and> length (sr_data_channel r) < save_buffer_cnt
      then Some (r\<lparr>sr_buf := [], sr_data_channel := sr_data_channel r @ [sr_buf r]\<rparr>) else None)"

definition end_save :: "save_run \<Rightarrow> save_run option" where
  "end_save r =
     (if sr_running r \<and> sr_recs r = [] \<and> sr_buf r = []
      then Some (r\<lparr>sr_running := False, sr_exit_channel := Some False\<rparr>) else None)"

section \<open>Steps of the writer\<close>

definition recv_data :: "save_run \<Rightarrow> save_run option" where
  "recv_data r =
     (if wr_dat r = None \<and> \<not> wr_abort r then
        (case sr_data_channel r of
           [] \<Rightarrow> None
         | d # ds \<Rightarrow> Some (r\<lparr>sr_data_channel := ds, wr_dat := Some d\<rparr>))
      else None)"

text \<open>With a piece in hand the writer looks whether there is a message to stop.\<close>

definition write_data :: "save_run \<Rightarrow> save_run option" where
  "write_data r =
     (case wr_dat r of
        None \<Rightarrow> None
      | Some d \<Rightarrow>
          (case sr_exit_channel r of
             None \<Rightarrow> Some (r\<lparr>wr_dat := None, wr_file := wr_file r @ d\<rparr>)
           | Some ab \<Rightarrow>
               if ab then Some (r\<lparr>sr_exit_channel := None, wr_dat := None, wr_abort := True\<rparr>)
               else Some (r\<lparr>sr_exit_channel := None, wr_dat := None, wr_exit := True, wr_file := wr_file r @ d\<rparr>)))"

definition recv_exit :: "save_run \<Rightarrow> save_run option" where
  "recv_exit r =
     (if wr_dat r = None \<and> \<not> wr_abort r \<and> (\<not> wr_exit r \<or> sr_data_channel r \<noteq> []) then
        (case sr_exit_channel r of
           None \<Rightarrow> None
         | Some ab \<Rightarrow>
             if ab then Some (r\<lparr>sr_exit_channel := None, wr_abort := True\<rparr>)
             else Some (r\<lparr>sr_exit_channel := None, wr_exit := True\<rparr>))
      else None)"

text \<open>The end of the writer: the temporary file is removed, or it becomes the file of the database.\<close>

definition close_file :: "save_run \<Rightarrow> utxo_dir \<Rightarrow> utxo_dir option" where
  "close_file r d =
     (if wr_abort r then Some d
      else if wr_dat r = None \<and> wr_exit r \<and> sr_data_channel r = [] then Some (d\<lparr>dir_db := Some (wr_file r)\<rparr>)
      else None)"

section \<open>The system\<close>

datatype save_event =
    SaveStarts "bytes list" bool
  | PutRec nat | SeesAbort nat | SeesHurry nat | SendsLast nat | EndsSave nat
  | RecvData nat | WritesData nat | RecvExit nat | ClosesFile nat
  | AsksAbort | AsksHurry | Changes utxo_db

definition in_run :: "nat \<Rightarrow> (save_run \<Rightarrow> save_run option) \<Rightarrow> utxo_sys \<Rightarrow> utxo_sys option" where
  "in_run i f s =
     (if i < length (sy_runs s) then map_option (\<lambda>r. s\<lparr>sy_runs := (sy_runs s)[i := r]\<rparr>) (f (sy_runs s ! i)) else None)"

definition without_nth :: "nat \<Rightarrow> 'a list \<Rightarrow> 'a list" where
  "without_nth i xs = take i xs @ drop (Suc i) xs"

text \<open>
  \<open>abortWriting\<close> is \<open>AsksAbort\<close>, after which the caller waits, under the lock, until \<open>save\<close> is no longer running, and
  empties the channel; then the database changes (\<open>CommitBlockTxs\<close>, \<open>UndoBlockTxs\<close>, \<open>PurgeUnspendable\<close>).
\<close>

fun save_step :: "save_event \<Rightarrow> utxo_sys \<Rightarrow> utxo_sys option" where
  "save_step (SaveStarts ks hurry) s = (if keys_of (sy_db s) ks then Some (Save ks hurry s) else None)"
| "save_step (PutRec i) s = in_run i put_rec s"
| "save_step (SeesAbort i) s = (if sy_abortwritingnow s then in_run i stop_save (s\<lparr>sy_abortwritingnow := False\<rparr>) else None)"
| "save_step (SeesHurry i) s = (if sy_hurryup s then in_run i hurry_save (s\<lparr>sy_hurryup := False\<rparr>) else None)"
| "save_step (SendsLast i) s = in_run i send_last s"
| "save_step (EndsSave i) s =
     in_run i end_save (s\<lparr>sy_db := sy_db s\<lparr>ud_Dirty := False\<rparr>, sy_CurrentHeightOnDisk := ud_LastBlockHeight (sy_db s)\<rparr>)"
| "save_step (RecvData i) s = in_run i recv_data s"
| "save_step (WritesData i) s = in_run i write_data s"
| "save_step (RecvExit i) s = in_run i recv_exit s"
| "save_step (ClosesFile i) s =
     (if i < length (sy_runs s)
      then map_option (\<lambda>d. s\<lparr>sy_dir := d, sy_runs := without_nth i (sy_runs s)\<rparr>) (close_file (sy_runs s ! i) (sy_dir s))
      else None)"
| "save_step AsksAbort s = (if WritingInProgress s then Some (s\<lparr>sy_abortwritingnow := True\<rparr>) else None)"
| "save_step AsksHurry s = Some (HurryUp s)"
| "save_step (Changes db) s =
     (if WritingInProgress s then None else Some (s\<lparr>sy_abortwritingnow := False, sy_db := db\<rparr>))"

fun run_saves :: "save_event list \<Rightarrow> utxo_sys \<Rightarrow> utxo_sys option" where
  "run_saves [] s = Some s"
| "run_saves (e # es) s = (case save_step e s of None \<Rightarrow> None | Some s' \<Rightarrow> run_saves es s')"

section \<open>What every schedule keeps\<close>

text \<open>What the file of a run will hold if it is not stopped.\<close>

definition run_content :: "save_run \<Rightarrow> bytes" where
  "run_content r = wr_file r @ (case wr_dat r of None \<Rightarrow> [] | Some d \<Rightarrow> d) @ concat (sr_data_channel r) @ sr_buf r
     @ concat (map file_rec (sr_recs r))"

definition file_of :: "bool \<Rightarrow> utxo_db set \<Rightarrow> bytes \<Rightarrow> bool" where
  "file_of compr V f \<longleftrightarrow> (\<exists>db \<in> V. \<exists>ks. keys_of db ks \<and> f = file_bytes compr db ks)"

definition run_inv :: "(bytes \<Rightarrow> bool) \<Rightarrow> save_run \<Rightarrow> bool" where
  "run_inv good r \<longleftrightarrow>
     (sr_running r \<longrightarrow> sr_exit_channel r = None \<and> \<not> wr_exit r \<and> \<not> wr_abort r \<and> good (run_content r)) \<and>
     (\<not> sr_running r \<and> sr_exit_channel r = None \<longrightarrow> wr_exit r \<or> wr_abort r) \<and>
     (sr_exit_channel r = Some True \<longrightarrow> \<not> wr_exit r) \<and>
     (sr_exit_channel r = Some False \<or> wr_exit r \<longrightarrow>
        \<not> wr_abort r \<and> \<not> sr_running r \<and> sr_recs r = [] \<and> sr_buf r = [] \<and> good (run_content r))"

definition dir_holds :: "(bytes \<Rightarrow> bool) \<Rightarrow> utxo_dir \<Rightarrow> bool" where
  "dir_holds good d \<longleftrightarrow> (case dir_db d of
     Some f \<Rightarrow> good f
   | None \<Rightarrow> (case dir_old d of Some f \<Rightarrow> good f | None \<Rightarrow> False))"

text \<open>The steps of a run keep its invariant.\<close>

lemmas run_step_defs = put_rec_def stop_save_def hurry_save_def send_last_def end_save_def recv_data_def write_data_def
  recv_exit_def

lemma put_rec_inv: "put_rec r = Some r' \<Longrightarrow> run_inv good r \<Longrightarrow> run_inv good r'"
  unfolding put_rec_def listens_def Let_def
  by (simp split: list.split_asm if_split_asm; clarsimp simp: run_inv_def run_content_def)

lemma stop_save_inv: "stop_save r = Some r' \<Longrightarrow> run_inv good r \<Longrightarrow> run_inv good r'"
  unfolding stop_save_def listens_def Let_def
  by (simp split: if_split_asm; clarsimp simp: run_inv_def run_content_def)

lemma hurry_save_inv: "hurry_save r = Some r' \<Longrightarrow> run_inv good r \<Longrightarrow> run_inv good r'"
  unfolding hurry_save_def listens_def Let_def
  by (simp split: if_split_asm; clarsimp simp: run_inv_def run_content_def)

lemma send_last_inv: "send_last r = Some r' \<Longrightarrow> run_inv good r \<Longrightarrow> run_inv good r'"
  unfolding send_last_def listens_def Let_def
  by (simp split: if_split_asm; clarsimp simp: run_inv_def run_content_def)

lemma end_save_inv: "end_save r = Some r' \<Longrightarrow> run_inv good r \<Longrightarrow> run_inv good r'"
  unfolding end_save_def listens_def Let_def
  by (simp split: if_split_asm; clarsimp simp: run_inv_def run_content_def)

lemma recv_data_inv: "recv_data r = Some r' \<Longrightarrow> run_inv good r \<Longrightarrow> run_inv good r'"
proof -
  assume a: "recv_data r = Some r'" and b: "run_inv good r"
  then obtain d ds where c: "wr_dat r = None" "sr_data_channel r = d # ds" "r' = r\<lparr>sr_data_channel := ds, wr_dat := Some d\<rparr>"
    by (cases "sr_data_channel r") (simp_all add: recv_data_def split: if_split_asm)
  have f: "sr_running r' = sr_running r" "sr_exit_channel r' = sr_exit_channel r" "wr_exit r' = wr_exit r" "wr_abort r' = wr_abort r"
    "sr_recs r' = sr_recs r" "sr_buf r' = sr_buf r" "run_content r' = run_content r" by (simp_all add: c run_content_def)
  show "run_inv good r'" using b unfolding run_inv_def f .
qed

lemma write_data_inv: "write_data r = Some r' \<Longrightarrow> run_inv good r \<Longrightarrow> run_inv good r'"
  unfolding write_data_def listens_def Let_def
  by (simp split: option.split_asm if_split_asm; clarsimp simp: run_inv_def run_content_def)

lemma recv_exit_inv: "recv_exit r = Some r' \<Longrightarrow> run_inv good r \<Longrightarrow> run_inv good r'"
  unfolding recv_exit_def listens_def Let_def
  by (simp split: option.split_asm if_split_asm; clarsimp simp: run_inv_def run_content_def)

lemma close_file_holds: "close_file r d = Some d' \<Longrightarrow> run_inv good r \<Longrightarrow> dir_holds good d \<Longrightarrow> dir_holds good d'"
  unfolding close_file_def
  by (simp split: if_split_asm; clarsimp simp: run_inv_def run_content_def dir_holds_def)

lemma new_run_inv: "good (file_bytes compr db ks) \<Longrightarrow> run_inv good (new_run compr db ks hurry)"
  by (simp add: new_run_def run_inv_def run_content_def file_bytes_def)

text \<open>The steps of the system keep it for every run, and a complete file in the directory.\<close>

definition sys_inv :: "(bytes \<Rightarrow> bool) \<Rightarrow> bool \<Rightarrow> utxo_sys \<Rightarrow> bool" where
  "sys_inv good compr s \<longleftrightarrow> sy_ComprssedUTXO s = compr \<and> dir_holds good (sy_dir s) \<and> (\<forall>r \<in> set (sy_runs s). run_inv good r)
     \<and> (\<forall>ks. keys_of (sy_db s) ks \<longrightarrow> good (file_bytes compr (sy_db s) ks))"

lemma sys_inv_parts:
  assumes "sys_inv good compr s"
  shows "sy_ComprssedUTXO s = compr" "dir_holds good (sy_dir s)" "r \<in> set (sy_runs s) \<Longrightarrow> run_inv good r"
    "keys_of (sy_db s) ks \<Longrightarrow> good (file_bytes compr (sy_db s) ks)"
  using assms unfolding sys_inv_def by (elim conjE, assumption | blast)+

lemma sys_inv_cong:
  assumes "sys_inv good compr s" "sy_ComprssedUTXO s' = sy_ComprssedUTXO s" "sy_dir s' = sy_dir s" "sy_runs s' = sy_runs s"
    and "\<And>ks. keys_of (sy_db s') ks = keys_of (sy_db s) ks" "\<And>ks. file_bytes compr (sy_db s') ks = file_bytes compr (sy_db s) ks"
  shows "sys_inv good compr s'"
  using assms(1) unfolding sys_inv_def assms(2-6) .

lemma clean_file [simp]: "keys_of (db\<lparr>ud_Dirty := b\<rparr>) ks = keys_of db ks" "file_bytes compr (db\<lparr>ud_Dirty := b\<rparr>) ks = file_bytes compr db ks"
  by (simp_all add: keys_of_def file_bytes_def file_head_def recs_of_def)

lemma in_run_Some:
  assumes "in_run i f s = Some s'"
  obtains r where "i < length (sy_runs s)" "f (sy_runs s ! i) = Some r" "s' = s\<lparr>sy_runs := (sy_runs s)[i := r]\<rparr>"
proof (cases "i < length (sy_runs s)")
  case True
  show thesis
  proof (cases "f (sy_runs s ! i)")
    case None
    with True assms show thesis by (simp add: in_run_def)
  next
    case (Some r)
    with True assms show thesis by (intro that [of r]) (simp_all add: in_run_def)
  qed
next
  case False
  with assms show thesis by (simp add: in_run_def)
qed

lemma in_run_inv:
  assumes "in_run i f s = Some s'" "sys_inv good compr s" and f: "\<And>r r'. f r = Some r' \<Longrightarrow> run_inv good r \<Longrightarrow> run_inv good r'"
  shows "sys_inv good compr s'"
proof -
  obtain r where r: "i < length (sy_runs s)" "f (sy_runs s ! i) = Some r" "s' = s\<lparr>sy_runs := (sy_runs s)[i := r]\<rparr>"
    by (rule in_run_Some [OF assms(1)])
  have "run_inv good r" by (rule f [OF r(2) sys_inv_parts(3) [OF assms(2) nth_mem [OF r(1)]]])
  moreover have "x = r \<or> x \<in> set (sy_runs s)" if "x \<in> set ((sy_runs s)[i := r])" for x
    using that set_update_subset_insert [of "sy_runs s" i r] by blast
  ultimately have all: "run_inv good x" if "x \<in> set ((sy_runs s)[i := r])" for x
    using that sys_inv_parts(3) [OF assms(2)] by metis
  have p: "sy_ComprssedUTXO s' = sy_ComprssedUTXO s" "sy_dir s' = sy_dir s" "sy_db s' = sy_db s" "sy_runs s' = (sy_runs s)[i := r]"
    unfolding r(3) by simp_all
  show ?thesis using assms(2) all unfolding sys_inv_def p by simp
qed

lemma Save_inv:
  assumes "sys_inv good compr s" "keys_of (sy_db s) ks"
  shows "sys_inv good compr (Save ks hurry s)"
proof (cases "WritingInProgress s")
  case True
  then show ?thesis using assms(1) by (simp add: Save_def)
next
  case False
  define d where "d = (case dir_db (sy_dir s) of None \<Rightarrow> sy_dir s | Some f \<Rightarrow> \<lparr>dir_db = None, dir_old = Some f\<rparr>)"
  have c: "sy_ComprssedUTXO s = compr" by (rule sys_inv_parts(1) [OF assms(1)])
  have S: "Save ks hurry s = s\<lparr>sy_dir := d, sy_runs := sy_runs s @ [new_run compr (sy_db s) ks hurry]\<rparr>"
    using False by (simp add: Save_def d_def c Let_def)
  have "dir_holds good d" using sys_inv_parts(2) [OF assms(1)] by (auto simp: d_def dir_holds_def split: option.splits)
  moreover have "run_inv good (new_run compr (sy_db s) ks hurry)" by (rule new_run_inv, rule sys_inv_parts(4) [OF assms])
  ultimately show ?thesis using assms(1) unfolding sys_inv_def S by simp
qed

lemma save_step_inv:
  assumes "save_step e s = Some s'" "sys_inv good compr s"
    and new: "\<And>db ks. e = Changes db \<Longrightarrow> keys_of db ks \<Longrightarrow> good (file_bytes compr db ks)"
  shows "sys_inv good compr s'"
proof (cases e)
  case (SaveStarts ks hurry)
  then have "keys_of (sy_db s) ks" "s' = Save ks hurry s" using assms(1) by (simp_all split: if_splits)
  then show ?thesis using Save_inv [OF assms(2)] by simp
next
  case (PutRec i)
  show ?thesis by (rule in_run_inv [OF _ assms(2) put_rec_inv]) (use assms(1) PutRec in simp_all)
next
  case (SeesAbort i)
  have 1: "sys_inv good compr (s\<lparr>sy_abortwritingnow := False\<rparr>)" by (rule sys_inv_cong [OF assms(2)]) simp_all
  have 2: "in_run i stop_save (s\<lparr>sy_abortwritingnow := False\<rparr>) = Some s'" using assms(1) SeesAbort by (simp split: if_splits)
  show ?thesis by (rule in_run_inv [OF 2 1 stop_save_inv])
next
  case (SeesHurry i)
  have 1: "sys_inv good compr (s\<lparr>sy_hurryup := False\<rparr>)" by (rule sys_inv_cong [OF assms(2)]) simp_all
  have 2: "in_run i hurry_save (s\<lparr>sy_hurryup := False\<rparr>) = Some s'" using assms(1) SeesHurry by (simp split: if_splits)
  show ?thesis by (rule in_run_inv [OF 2 1 hurry_save_inv])
next
  case (SendsLast i)
  show ?thesis by (rule in_run_inv [OF _ assms(2) send_last_inv]) (use assms(1) SendsLast in simp_all)
next
  case (EndsSave i)
  let ?s = "s\<lparr>sy_db := sy_db s\<lparr>ud_Dirty := False\<rparr>, sy_CurrentHeightOnDisk := ud_LastBlockHeight (sy_db s)\<rparr>"
  have 1: "sys_inv good compr ?s" by (rule sys_inv_cong [OF assms(2)]) simp_all
  have 2: "in_run i end_save ?s = Some s'" using assms(1) EndsSave by simp
  show ?thesis by (rule in_run_inv [OF 2 1 end_save_inv])
next
  case (RecvData i)
  show ?thesis by (rule in_run_inv [OF _ assms(2) recv_data_inv]) (use assms(1) RecvData in simp_all)
next
  case (WritesData i)
  show ?thesis by (rule in_run_inv [OF _ assms(2) write_data_inv]) (use assms(1) WritesData in simp_all)
next
  case (RecvExit i)
  show ?thesis by (rule in_run_inv [OF _ assms(2) recv_exit_inv]) (use assms(1) RecvExit in simp_all)
next
  case (ClosesFile i)
  then have i: "i < length (sy_runs s)" using assms(1) by (simp split: if_splits)
  show ?thesis
  proof (cases "close_file (sy_runs s ! i) (sy_dir s)")
    case None
    then show ?thesis using assms(1) ClosesFile i by simp
  next
    case (Some d)
    then have s': "s' = s\<lparr>sy_dir := d, sy_runs := without_nth i (sy_runs s)\<rparr>" using assms(1) ClosesFile i by simp
    have "dir_holds good d"
      by (rule close_file_holds [OF Some sys_inv_parts(3) [OF assms(2) nth_mem [OF i]] sys_inv_parts(2) [OF assms(2)]])
    moreover have "set (without_nth i (sy_runs s)) \<subseteq> set (sy_runs s)"
      by (auto simp: without_nth_def dest: in_set_takeD in_set_dropD)
    ultimately show ?thesis using assms(2) unfolding sys_inv_def s' by (simp add: subset_iff)
  qed
next
  case AsksAbort
  then have "s' = s\<lparr>sy_abortwritingnow := True\<rparr>" using assms(1) by (simp split: if_splits)
  then show ?thesis by (intro sys_inv_cong [OF assms(2)]) simp_all
next
  case AsksHurry
  then have "s' = s\<lparr>sy_hurryup := True\<rparr>" using assms(1) by (simp add: HurryUp_def)
  then show ?thesis by (intro sys_inv_cong [OF assms(2)]) simp_all
next
  case (Changes db)
  then have s': "s' = s\<lparr>sy_abortwritingnow := False, sy_db := db\<rparr>" using assms(1) by (simp split: if_splits)
  show ?thesis using assms(2) new [OF Changes] unfolding sys_inv_def s' by simp
qed

lemma run_saves_inv:
  assumes "run_saves es s = Some s'" "sys_inv good compr s"
    and "\<And>db ks. Changes db \<in> set es \<Longrightarrow> keys_of db ks \<Longrightarrow> good (file_bytes compr db ks)"
  shows "sys_inv good compr s'"
  using assms
proof (induction es arbitrary: s)
  case (Cons e es)
  show ?case
  proof (cases "save_step e s")
    case None
    with Cons.prems(1) show ?thesis by simp
  next
    case (Some t)
    have "sys_inv good compr t" by (rule save_step_inv [OF Some Cons.prems(2)]) (use Cons.prems(3) in simp)
    moreover have "run_saves es t = Some s'" using Cons.prems(1) Some by simp
    ultimately show ?thesis using Cons.IH Cons.prems(3) by simp
  qed
qed simp

section \<open>What is loaded after a crash\<close>

lemma load_dir:
  assumes "dir_holds (file_of compr V) d" "\<And>db. db \<in> V \<Longrightarrow> file_ok db" "\<not> uo_Rescan opts"
  obtains st db where "NewUnspentDb opts undo d = Inr st" "db \<in> V" "same_database db (us_db st)"
    "us_ComprssedUTXO st = compr" "us_functions st = compr"
proof -
  have fl: "\<exists>db h m. db \<in> V \<and> try_file (Some f) c = Inr (compr, Some (ud_LastBlockHeight db, h, m)) \<and>
      same_database db (us_db (utxo_loaded undo compr (ud_LastBlockHeight db, h, m)))"
    if "file_of compr V f" for f c
  proof -
    from that obtain db ks where d: "db \<in> V" "keys_of db ks" "f = file_bytes compr db ks" unfolding file_of_def by (elim bexE exE conjE) (rule that)
    from try_file_bytes [OF assms(2) [OF d(1)] d(2), of compr "[]" c, unfolded append_Nil2, folded d(3)] obtain h m where
      t: "try_file (Some f) c = Inr (compr, Some (ud_LastBlockHeight db, h, m))" "ud_LastBlockHash db = Some h"
        "m = (\<lambda>k. map_option as_read (ud_Map db k))" by (elim exE conjE) (rule that)
    have "same_database db (us_db (utxo_loaded undo compr (ud_LastBlockHeight db, h, m)))"
      using t(2,3) by (simp add: same_database_def utxo_loaded_def no_utxo_def)
    with d(1) t(1) show ?thesis by iprover
  qed
  show thesis
  proof (cases "dir_db d")
    case (Some f)
    then have "file_of compr V f" using assms(1) by (simp add: dir_holds_def)
    from fl [OF this, of "uo_CompressRecords opts"] obtain db h m where f: "db \<in> V"
      "try_file (Some f) (uo_CompressRecords opts) = Inr (compr, Some (ud_LastBlockHeight db, h, m))"
      "same_database db (us_db (utxo_loaded undo compr (ud_LastBlockHeight db, h, m)))" by (elim exE conjE) (rule that)
    show thesis
      by (rule that [OF _ f(1,3)]) (use assms(3) Some f(2) in \<open>simp_all add: NewUnspentDb_def utxo_loaded_def\<close>)
  next
    case None
    then obtain f where f: "dir_old d = Some f" "file_of compr V f" using assms(1) by (auto simp: dir_holds_def split: option.splits)
    have n: "try_file None (uo_CompressRecords opts) = Inr (uo_CompressRecords opts, None)" by (simp add: try_file_def)
    from fl [OF f(2), of "uo_CompressRecords opts"] obtain db h m where g: "db \<in> V"
      "try_file (Some f) (uo_CompressRecords opts) = Inr (compr, Some (ud_LastBlockHeight db, h, m))"
      "same_database db (us_db (utxo_loaded undo compr (ud_LastBlockHeight db, h, m)))" by (elim exE conjE) (rule that)
    show thesis
      by (rule that [OF _ g(1,3)]) (use assms(3) None n f(1) g(2) in \<open>simp_all add: NewUnspentDb_def utxo_loaded_def\<close>)
  qed
qed

text \<open>The versions of the database a schedule sees.\<close>

definition versions :: "utxo_db \<Rightarrow> utxo_db \<Rightarrow> save_event list \<Rightarrow> utxo_db set" where
  "versions d0 d es = {d0, d} \<union> {d'. Changes d' \<in> set es}"

lemma run_saves_holds:
  assumes "run_saves es s = Some s'" "sy_runs s = []" "dir_holds (file_of (sy_ComprssedUTXO s) {d0}) (sy_dir s)"
  shows "dir_holds (file_of (sy_ComprssedUTXO s) (versions d0 (sy_db s) es)) (sy_dir s')"
proof -
  let ?good = "file_of (sy_ComprssedUTXO s) (versions d0 (sy_db s) es)"
  have mono: "?good f" if "file_of (sy_ComprssedUTXO s) {d0} f" for f using that by (auto simp: file_of_def versions_def)
  have "sys_inv ?good (sy_ComprssedUTXO s) s"
    unfolding sys_inv_def assms(2)
  proof (intro conjI)
    show "dir_holds ?good (sy_dir s)" using assms(3) mono by (auto simp: dir_holds_def split: option.splits)
    show "\<forall>ks. keys_of (sy_db s) ks \<longrightarrow> ?good (file_bytes (sy_ComprssedUTXO s) (sy_db s) ks)" by (auto simp: file_of_def versions_def)
  qed simp_all
  then have "sys_inv ?good (sy_ComprssedUTXO s) s'"
    by (rule run_saves_inv [OF assms(1)]) (auto simp: file_of_def versions_def)
  then show ?thesis by (rule sys_inv_parts(2))
qed

section \<open>A save that is left alone ends\<close>

text \<open>The steps of the two goroutines, without requests from outside.\<close>

fun works :: "save_event \<Rightarrow> bool" where
  "works (PutRec i) = True"
| "works (SendsLast i) = True"
| "works (EndsSave i) = True"
| "works (RecvData i) = True"
| "works (WritesData i) = True"
| "works (RecvExit i) = True"
| "works (ClosesFile i) = True"
| "works _ = False"

definition run_work :: "save_run \<Rightarrow> nat" where
  "run_work r = (if sr_running r then 2 else 0) + (if sr_exit_channel r = None then 0 else 1) + 7 * length (sr_recs r)
     + (if sr_buf r = [] then 0 else 4) + 3 * length (sr_data_channel r) + (if wr_dat r = None then 0 else 1)"

definition unstopped :: "save_run \<Rightarrow> bool" where
  "unstopped r \<longleftrightarrow> sr_exit_channel r \<noteq> Some True \<and> \<not> wr_abort r"

lemma put_rec_work: "put_rec r = Some r' \<Longrightarrow> unstopped r \<Longrightarrow> unstopped r' \<and> run_work r' < run_work r \<and> sr_running r' = sr_running r"
  unfolding put_rec_def Let_def by (simp split: list.split_asm if_split_asm; clarsimp simp: unstopped_def run_work_def)

lemma send_last_work: "send_last r = Some r' \<Longrightarrow> unstopped r \<Longrightarrow> unstopped r' \<and> run_work r' < run_work r \<and> sr_running r' = sr_running r"
  unfolding send_last_def by (simp split: if_split_asm; clarsimp simp: unstopped_def run_work_def)

lemma end_save_work: "end_save r = Some r' \<Longrightarrow> run_inv good r \<Longrightarrow> unstopped r \<Longrightarrow> unstopped r' \<and> run_work r' < run_work r"
  unfolding end_save_def by (simp split: if_split_asm; clarsimp simp: unstopped_def run_work_def run_inv_def)

lemma recv_data_work: "recv_data r = Some r' \<Longrightarrow> unstopped r \<Longrightarrow> unstopped r' \<and> run_work r' < run_work r \<and> sr_running r' = sr_running r"
  unfolding recv_data_def by (simp split: list.split_asm if_split_asm; clarsimp simp: unstopped_def run_work_def)

lemma write_data_work: "write_data r = Some r' \<Longrightarrow> unstopped r \<Longrightarrow> unstopped r' \<and> run_work r' < run_work r \<and> sr_running r' = sr_running r"
  unfolding write_data_def by (simp split: option.split_asm if_split_asm; clarsimp simp: unstopped_def run_work_def)

lemma recv_exit_work: "recv_exit r = Some r' \<Longrightarrow> unstopped r \<Longrightarrow> unstopped r' \<and> run_work r' < run_work r \<and> sr_running r' = sr_running r"
  unfolding recv_exit_def by (simp split: option.split_asm if_split_asm; clarsimp simp: unstopped_def run_work_def)

text \<open>One of the two can always go on.\<close>

lemma run_progress:
  assumes "run_inv good r"
  shows "put_rec r \<noteq> None \<or> send_last r \<noteq> None \<or> end_save r \<noteq> None \<or> recv_data r \<noteq> None \<or> write_data r \<noteq> None
    \<or> recv_exit r \<noteq> None \<or> close_file r d \<noteq> None"
proof (cases "wr_abort r")
  case True
  then show ?thesis by (simp add: close_file_def)
next
  case ab: False
  show ?thesis
  proof (cases "wr_dat r")
    case (Some x)
    then show ?thesis by (simp add: write_data_def split: option.split)
  next
    case None
    show ?thesis
    proof (cases "sr_data_channel r")
      case (Cons x xs)
      then show ?thesis using ab None by (simp add: recv_data_def)
    next
      case Nil
      show ?thesis
      proof (cases "sr_running r")
        case True
        then show ?thesis using Nil by (cases "sr_recs r"; cases "sr_buf r")
          (simp_all add: put_rec_def send_last_def end_save_def save_buffer_cnt_def Let_def)
      next
        case False
        then have "sr_exit_channel r \<noteq> None \<or> wr_exit r" using assms ab by (cases "sr_exit_channel r") (simp_all add: run_inv_def)
        then show ?thesis using ab None Nil by (cases "wr_exit r") (auto simp: recv_exit_def close_file_def split: option.split)
      qed
    qed
  qed
qed

text \<open>The system with a single run, which nobody asks to stop, or with none left; \<open>f\<close> is the file to be written.\<close>

definition alone :: "bytes \<Rightarrow> utxo_sys \<Rightarrow> bool" where
  "alone f s \<longleftrightarrow> (case sy_runs s of
     [] \<Rightarrow> dir_db (sy_dir s) = Some f \<and> \<not> ud_Dirty (sy_db s)
   | r # rs \<Rightarrow> rs = [] \<and> run_inv (\<lambda>x. x = f) r \<and> unstopped r \<and> (sr_running r \<or> \<not> ud_Dirty (sy_db s)))"

definition sys_work :: "utxo_sys \<Rightarrow> nat" where
  "sys_work s = (\<Sum>r\<leftarrow>sy_runs s. run_work r + 1)"

lemma in_run_alone:
  assumes "in_run i g s = Some s'" "sy_runs s = [r]"
    and g: "\<And>r'. g r = Some r' \<Longrightarrow> run_inv (\<lambda>x. x = f) r' \<and> unstopped r' \<and> run_work r' < run_work r \<and> (sr_running r' \<or> \<not> ud_Dirty (sy_db s))"
  shows "alone f s' \<and> sys_work s' < run_work r + 1"
proof -
  obtain r' where r: "i < length (sy_runs s)" "g (sy_runs s ! i) = Some r'" "s' = s\<lparr>sy_runs := (sy_runs s)[i := r']\<rparr>"
    by (rule in_run_Some [OF assms(1)])
  have "g r = Some r'" "s' = s\<lparr>sy_runs := [r']\<rparr>" using r assms(2) by simp_all
  with g show ?thesis by (simp add: alone_def sys_work_def)
qed

lemma works_step:
  assumes "save_step e s = Some s'" "works e" "alone f s"
  shows "alone f s' \<and> sys_work s' < sys_work s"
proof (cases "sy_runs s")
  case Nil
  then show ?thesis using assms(1,2) by (cases e) (simp_all add: in_run_def)
next
  case (Cons r rs)
  have a: "run_inv (\<lambda>x. x = f) r" "unstopped r" "sr_running r \<or> \<not> ud_Dirty (sy_db s)" and R: "sy_runs s = [r]"
    using assms(3) Cons by (simp_all add: alone_def)
  have w: "sys_work s = run_work r + 1" by (simp add: sys_work_def R)
  have step: "alone f s' \<and> sys_work s' < sys_work s"
    if "in_run i g s = Some s'" "\<And>r'. g r = Some r' \<Longrightarrow> run_inv (\<lambda>x. x = f) r'"
      "\<And>r'. g r = Some r' \<Longrightarrow> unstopped r' \<and> run_work r' < run_work r \<and> sr_running r' = sr_running r" for i g
    unfolding w by (rule in_run_alone [OF that(1) R]) (use that(2,3) a(3) in blast)
  show ?thesis
  proof (cases e)
    case (PutRec i)
    then show ?thesis using assms(1) put_rec_inv [OF _ a(1)] put_rec_work [OF _ a(2)] by (intro step [of i put_rec]) simp_all
  next
    case (SendsLast i)
    then show ?thesis using assms(1) send_last_inv [OF _ a(1)] send_last_work [OF _ a(2)] by (intro step [of i send_last]) simp_all
  next
    case (EndsSave i)
    let ?s = "s\<lparr>sy_db := sy_db s\<lparr>ud_Dirty := False\<rparr>, sy_CurrentHeightOnDisk := ud_LastBlockHeight (sy_db s)\<rparr>"
    have "in_run i end_save ?s = Some s'" using assms(1) EndsSave by simp
    then show ?thesis unfolding w
      by (rule in_run_alone) (use end_save_inv [OF _ a(1)] end_save_work [OF _ a(1,2)] R in simp_all)
  next
    case (RecvData i)
    then show ?thesis using assms(1) recv_data_inv [OF _ a(1)] recv_data_work [OF _ a(2)] by (intro step [of i recv_data]) simp_all
  next
    case (WritesData i)
    then show ?thesis using assms(1) write_data_inv [OF _ a(1)] write_data_work [OF _ a(2)] by (intro step [of i write_data]) simp_all
  next
    case (RecvExit i)
    then show ?thesis using assms(1) recv_exit_inv [OF _ a(1)] recv_exit_work [OF _ a(2)] by (intro step [of i recv_exit]) simp_all
  next
    case (ClosesFile i)
    then have i: "i = 0" "close_file r (sy_dir s) \<noteq> None" using assms(1) R by (cases "close_file r (sy_dir s)"; simp split: if_splits)+
    then have c: "wr_exit r" "wr_dat r = None" "sr_data_channel r = []" using a(2) by (simp_all add: close_file_def unstopped_def split: if_splits)
    then have d: "close_file r (sy_dir s) = Some ((sy_dir s)\<lparr>dir_db := Some (wr_file r)\<rparr>)" using a(2) by (simp add: close_file_def unstopped_def)
    have "s' = s\<lparr>sy_dir := (sy_dir s)\<lparr>dir_db := Some (wr_file r)\<rparr>, sy_runs := []\<rparr>"
      using assms(1) ClosesFile R d i(1) by (simp add: without_nth_def)
    moreover have "wr_file r = f" "\<not> sr_running r" using a(1) c unfolding run_inv_def run_content_def by clarsimp+
    ultimately show ?thesis using a(3) by (simp add: alone_def sys_work_def R)
  qed (use assms(2) in simp_all)
qed

lemma run_works:
  assumes "run_saves es s = Some s'" "\<forall>e \<in> set es. works e" "alone f s"
  shows "alone f s' \<and> sys_work s' + length es \<le> sys_work s"
  using assms
proof (induction es arbitrary: s)
  case (Cons e es)
  show ?case
  proof (cases "save_step e s")
    case None
    with Cons.prems(1) show ?thesis by simp
  next
    case (Some t)
    have t: "alone f t" "sys_work t < sys_work s" using works_step [OF Some _ Cons.prems(3)] Cons.prems(2) by simp_all
    have "run_saves es t = Some s'" using Cons.prems(1) Some by simp
    from Cons.IH [OF this _ t(1)] Cons.prems(2) t(2) show ?thesis by simp
  qed
qed simp

lemma works_on:
  assumes "alone f s" "sy_runs s \<noteq> []"
  obtains e where "works e" "save_step e s \<noteq> None"
proof -
  obtain r where r: "sy_runs s = [r]" "run_inv (\<lambda>x. x = f) r"
    using assms by (cases "sy_runs s") (simp_all add: alone_def)
  have i: "in_run 0 g t \<noteq> None" if "g r \<noteq> None" "sy_runs t = [r]" for g t using that by (simp add: in_run_def)
  consider "put_rec r \<noteq> None" | "send_last r \<noteq> None" | "end_save r \<noteq> None" | "recv_data r \<noteq> None" | "write_data r \<noteq> None"
    | "recv_exit r \<noteq> None" | "close_file r (sy_dir s) \<noteq> None" using run_progress [OF r(2), of "sy_dir s"] by iprover
  then show thesis
  proof cases
    case 1 with i r(1) show thesis by (intro that [of "PutRec 0"]) simp_all
  next
    case 2 with i r(1) show thesis by (intro that [of "SendsLast 0"]) simp_all
  next
    case 3 with i r(1) show thesis by (intro that [of "EndsSave 0"]) simp_all
  next
    case 4 with i r(1) show thesis by (intro that [of "RecvData 0"]) simp_all
  next
    case 5 with i r(1) show thesis by (intro that [of "WritesData 0"]) simp_all
  next
    case 6 with i r(1) show thesis by (intro that [of "RecvExit 0"]) simp_all
  next
    case 7 with r(1) show thesis by (intro that [of "ClosesFile 0"]) simp_all
  qed
qed

text \<open>A save that starts when no other one is under way.\<close>

lemma save_ends:
  assumes "sy_runs s = []" "run_saves (SaveStarts ks hurry # es) s = Some s'" "\<forall>e \<in> set es. works e"
  shows "length es \<le> 7 * length ks + 7" and "sy_runs s' \<noteq> [] \<Longrightarrow> \<exists>e. works e \<and> save_step e s' \<noteq> None"
    and "sy_runs s' = [] \<Longrightarrow> keys_of (sy_db s) ks \<and> dir_db (sy_dir s') = Some (file_bytes (sy_ComprssedUTXO s) (sy_db s) ks) \<and> \<not> ud_Dirty (sy_db s')"
proof -
  let ?f = "file_bytes (sy_ComprssedUTXO s) (sy_db s) ks" and ?r = "new_run (sy_ComprssedUTXO s) (sy_db s) ks hurry"
  have k: "keys_of (sy_db s) ks" and es: "run_saves es (Save ks hurry s) = Some s'" using assms(2) by (simp_all split: if_splits)
  have "\<not> WritingInProgress s" using assms(1) by (simp add: WritingInProgress_def)
  then have R: "sy_runs (Save ks hurry s) = [?r]" using assms(1) by (simp add: Save_def Let_def)
  have "run_inv (\<lambda>x. x = ?f) ?r" by (rule new_run_inv) simp
  moreover have "unstopped ?r" "sr_running ?r" by (simp_all add: unstopped_def new_run_def)
  ultimately have a: "alone ?f (Save ks hurry s)" by (simp add: alone_def R)
  have "run_work ?r \<le> 7 * length ks + 6" by (simp add: run_work_def new_run_def recs_of_def)
  then have "sys_work (Save ks hurry s) \<le> 7 * length ks + 7" by (simp add: sys_work_def R)
  with run_works [OF es assms(3) a] have f: "alone ?f s'" and l: "length es \<le> 7 * length ks + 7" by simp_all
  show "length es \<le> 7 * length ks + 7" by (rule l)
  show "\<exists>e. works e \<and> save_step e s' \<noteq> None" if "sy_runs s' \<noteq> []"
    by (rule works_on [OF f that]) (rule exI, rule conjI)
  show "keys_of (sy_db s) ks \<and> dir_db (sy_dir s') = Some ?f \<and> \<not> ud_Dirty (sy_db s')" if "sy_runs s' = []"
    using f k that by (simp add: alone_def)
qed

lemma keys_of_same: "keys_of db ks \<Longrightarrow> file_ok db \<Longrightarrow> dir_db d = Some (file_bytes compr db ks) \<Longrightarrow> \<not> uo_Rescan opts \<Longrightarrow>
  NewUnspentDb opts undo d = Inr st \<Longrightarrow> same_database db (us_db st)"
proof -
  assume a: "keys_of db ks" "file_ok db" "dir_db d = Some (file_bytes compr db ks)" "\<not> uo_Rescan opts" "NewUnspentDb opts undo d = Inr st"
  have g: "file_of compr {db} (file_bytes compr db ks)" unfolding file_of_def using a(1) by (intro bexI [of _ db] exI [of _ ks] conjI) (assumption, rule refl, rule singletonI)
  have h: "dir_holds (file_of compr {db}) d" unfolding dir_holds_def a(3) option.case by (rule g)
  have ok: "file_ok x" if "x \<in> {db}" for x using that a(2) by (simp only: singleton_iff)
  show "same_database db (us_db st)"
  proof (rule load_dir [OF h ok a(4), of undo])
    fix st' d' assume b: "NewUnspentDb opts undo d = Inr st'" "d' \<in> {db}" "same_database d' (us_db st')"
    have "st' = st" using a(5) b(1) by (simp only: sum.inject)
    moreover have "d' = db" using b(2) by (simp only: singleton_iff)
    ultimately show ?thesis using b(3) by (simp only:)
  qed
qed

lemma loaded_after:
  assumes run: "run_saves es s = Some s'" and runs: "sy_runs s = []" and dir: "dir_holds (file_of (sy_ComprssedUTXO s) {d0}) (sy_dir s)"
    and ok: "\<forall>d \<in> versions d0 (sy_db s) es. file_ok d" and opts: "\<not> uo_Rescan opts"
  shows "\<exists>st d. NewUnspentDb opts undo (sy_dir s') = Inr st \<and> d \<in> versions d0 (sy_db s) es \<and> same_database d (us_db st) \<and>
    us_ComprssedUTXO st = sy_ComprssedUTXO s \<and> us_functions st = sy_ComprssedUTXO s \<and>
    (\<forall>ks hurry es'. es = SaveStarts ks hurry # es' \<and> (\<forall>e \<in> set es'. works e) \<longrightarrow>
       length es' \<le> 7 * length ks + 7 \<and>
       ((\<exists>e. works e \<and> save_step e s' \<noteq> None) \<or> sy_runs s' = [] \<and> \<not> ud_Dirty (sy_db s') \<and> same_database (sy_db s) (us_db st)))"
proof -
  have "file_ok d" if "d \<in> versions d0 (sy_db s) es" for d using ok that by (rule bspec)
  from load_dir [OF run_saves_holds [OF run runs dir] this opts, of undo] obtain st d where
    l: "NewUnspentDb opts undo (sy_dir s') = Inr st" "d \<in> versions d0 (sy_db s) es" "same_database d (us_db st)"
      "us_ComprssedUTXO st = sy_ComprssedUTXO s" "us_functions st = sy_ComprssedUTXO s" .
  have dbok: "file_ok (sy_db s)" using ok by (rule bspec) (simp add: versions_def)
  have ended: "length es' \<le> 7 * length ks + 7 \<and>
      ((\<exists>e. works e \<and> save_step e s' \<noteq> None) \<or> sy_runs s' = [] \<and> \<not> ud_Dirty (sy_db s') \<and> same_database (sy_db s) (us_db st))"
    if es: "es = SaveStarts ks hurry # es'" "\<forall>e \<in> set es'. works e" for ks hurry es'
  proof -
    note e = save_ends [OF runs run [unfolded es(1)] es(2)]
    show ?thesis
    proof (cases "sy_runs s' = []")
      case True
      note f = e(3) [OF True]
      have "same_database (sy_db s) (us_db st)" by (rule keys_of_same [OF _ dbok _ opts l(1)]) (use f in blast)+
      then show ?thesis using e(1) f True by iprover
    next
      case False
      then show ?thesis using e(1,2) by iprover
    qed
  qed
  have "\<forall>ks hurry es'. es = SaveStarts ks hurry # es' \<and> (\<forall>e \<in> set es'. works e) \<longrightarrow>
       length es' \<le> 7 * length ks + 7 \<and>
       ((\<exists>e. works e \<and> save_step e s' \<noteq> None) \<or> sy_runs s' = [] \<and> \<not> ud_Dirty (sy_db s') \<and> same_database (sy_db s) (us_db st))"
    by (intro allI impI, elim conjE) (rule ended)
  with l show ?thesis by (intro exI conjI)
qed

end
