(* ===== verification/FileSpec.thy ===== *)
theory FileSpec
  imports UtxoSave ChainSamples
begin

text \<open>
  The property of the file of the database of unspent outputs: what is found when the program starts again, at whatever
  moment it was stopped.
\<close>

section \<open>Stopping and starting again\<close>

text \<open>
  C31. At whatever point of whatever schedule of the goroutines that save the database (with blocks arriving, stopping
  the saving and changing the database in between) the process ends, \<open>NewUnspentDb\<close> then loads a complete database: the one
  of the file that was there at the beginning or one of those the database had since, and with it the format of its records. If the schedule is a save that is left alone, it has at most \<open>7 n + 7\<close> steps for \<open>n\<close> records, and either
  one of its goroutines can go on, or it is over and the database loaded is the one that was saved. (The databases have
  a hash of 32 bytes, keys of eight and records of at most \<open>2 ^ 48\<close>; the operations on files succeed, and files that are
  being written at the same time have different names, which come from the hash of the block.)
\<close>

theorem interrupted_save_keeps_a_database:
  assumes "run_saves es s = Some s'" "sy_runs s = []" "dir_holds (file_of (sy_ComprssedUTXO s) {d0}) (sy_dir s)"
    "\<forall>d \<in> versions d0 (sy_db s) es. file_ok d" "\<not> uo_Rescan opts"
  shows "\<exists>st d. NewUnspentDb opts undo (sy_dir s') = Inr st \<and> d \<in> versions d0 (sy_db s) es \<and> same_database d (us_db st) \<and>
    us_ComprssedUTXO st = sy_ComprssedUTXO s \<and> us_functions st = sy_ComprssedUTXO s \<and>
    (\<forall>ks hurry es'. es = SaveStarts ks hurry # es' \<and> (\<forall>e \<in> set es'. works e) \<longrightarrow>
       length es' \<le> 7 * length ks + 7 \<and>
       ((\<exists>e. works e \<and> save_step e s' \<noteq> None) \<or> sy_runs s' = [] \<and> \<not> ud_Dirty (sy_db s') \<and> same_database (sy_db s) (us_db st)))"
  by (rule loaded_after [OF assms])

text \<open>A block arrives while the first save waits for its writer; the second save is cut off before its file is renamed.\<close>

definition file_db :: "u32 \<Rightarrow> utxo_db" where
  "file_db height = (no_utxo (\<lambda>_. None))\<lparr>ud_Map := [replicate 8 7 \<mapsto> Some [1, 2, 3]], ud_LastBlockHash := Some (replicate 32 (ucast height)),
     ud_LastBlockHeight := height, ud_Dirty := True\<rparr>"

definition file_sys :: utxo_sys where
  "file_sys = \<lparr>sy_db = file_db 2, sy_ComprssedUTXO = True, sy_CurrentHeightOnDisk = 1, sy_abortwritingnow = False, sy_hurryup = False,
     sy_dir = \<lparr>dir_db = Some (file_bytes True (file_db 1) [replicate 8 7]), dir_old = None\<rparr>, sy_runs = []\<rparr>"

definition file_events :: "save_event list" where
  "file_events = [SaveStarts [replicate 8 7] False, PutRec 0, SendsLast 0, EndsSave 0, Changes (file_db 3),
     SaveStarts [replicate 8 7] False, RecvExit 0, RecvData 0, PutRec 1]"

lemma file_db_ok: "file_ok (file_db h)" "keys_of (file_db h) [replicate 8 7]"
  by (simp_all add: file_ok_def keys_of_def file_db_def no_utxo_def)

lemma file_lengths: "length (file_head True (file_db h) n) = 48" "file_head True (file_db h) n \<noteq> []"
  "length (file_rec (replicate 8 7, Some [1, 2, 3])) = 12"
proof -
  show l: "length (file_head True (file_db h) n) = 48" by (simp add: file_head_def file_db_def Let_def)
  show "file_head True (file_db h) n \<noteq> []" using l by (cases "file_head True (file_db h) n") simp_all
  show "length (file_rec (replicate 8 7, Some [1, 2, 3])) = 12" by (simp add: file_rec_def WriteVlen_def)
qed

lemma file_recs: "recs_of (file_db h) [replicate 8 7] = [(replicate 8 7, Some [1, 2, 3])]"
  by (simp add: recs_of_def file_db_def)

lemmas file_step_defs = in_run_def put_rec_def send_last_def end_save_def recv_exit_def recv_data_def Save_def WritingInProgress_def
  new_run_def Let_def

lemma file_run:
  "\<exists>s'. run_saves file_events file_sys = Some s' \<and> dir_db (sy_dir s') = None \<and> length (sy_runs s') = 2"
  by (simp add: file_events_def file_sys_def file_step_defs file_db_ok file_recs file_lengths save_buffer_cnt_def save_buffer_min_def
    del: replicate.simps)

theorem interrupted_save_keeps_a_database_witness:
  "\<exists>s' st. run_saves file_events file_sys = Some s' \<and> dir_db (sy_dir s') = None \<and> length (sy_runs s') = 2 \<and>
     NewUnspentDb \<lparr>uo_Rescan = False, uo_CompressRecords = False\<rparr> (\<lambda>_. None) (sy_dir s') = Inr st \<and>
     ud_LastBlockHeight (us_db st) \<in> {1, 2, 3} \<and> us_functions st"
proof -
  obtain s' where s: "run_saves file_events file_sys = Some s'" "dir_db (sy_dir s') = None" "length (sy_runs s') = 2"
    using file_run by (elim exE conjE) (rule that)
  have v: "versions (file_db 1) (sy_db file_sys) file_events = {file_db 1, file_db 2, file_db 3}"
    by (auto simp: versions_def file_sys_def file_events_def)
  let ?o = "\<lparr>uo_Rescan = False, uo_CompressRecords = False\<rparr>"
  have "\<exists>st d. NewUnspentDb ?o (\<lambda>_. None) (sy_dir s') = Inr st \<and> d \<in> versions (file_db 1) (sy_db file_sys) file_events \<and>
      same_database d (us_db st) \<and> us_ComprssedUTXO st = sy_ComprssedUTXO file_sys \<and> us_functions st = sy_ComprssedUTXO file_sys"
  proof -
    have dir: "dir_holds (file_of (sy_ComprssedUTXO file_sys) {file_db 1}) (sy_dir file_sys)"
      using file_db_ok(2) [of 1] by (auto simp: dir_holds_def file_of_def file_sys_def)
    have "\<forall>d \<in> versions (file_db 1) (sy_db file_sys) file_events. file_ok d" unfolding v using file_db_ok(1) by simp
    from interrupted_save_keeps_a_database [OF s(1) _ dir this, of ?o "\<lambda>_. None"] show ?thesis
      by (simp only: file_sys_def utxo_sys.simps unspent_opts.simps simp_thms) iprover
  qed
  then obtain st d where st: "NewUnspentDb ?o (\<lambda>_. None) (sy_dir s') = Inr st" "d \<in> {file_db 1, file_db 2, file_db 3}" "same_database d (us_db st)"
    "us_functions st = sy_ComprssedUTXO file_sys" unfolding v by (elim exE conjE) (rule that)
  have "ud_LastBlockHeight (us_db st) \<in> {1, 2, 3}" using st(2,3) by (auto simp: same_database_def file_db_def)
  moreover have "us_functions st" using st(4) by (simp add: file_sys_def)
  ultimately show ?thesis using s st(1) by (intro exI conjI)
qed

end
