(* ===== verification/Spec2Isabelle.thy ===== *)
theory Spec2Isabelle
  imports Samples TxLaws Amounts ChainSpec CheckSpec LoadSpec FileSpec
begin

text \<open>
  This development verifies the consensus core of the Bitcoin library of goocoin: the packages under
  \<open>lib/btc\<close> (transactions, blocks, scripts, hashes, encodings), \<open>lib/script\<close> (the script interpreter), \<open>lib/utxo\<close> (the
  database of unspent outputs) and \<open>lib/chain\<close> (the tree of blocks, its checks, its database on disk, connecting a block).

  \<^bold>\<open>The program.\<close> A node receives transactions as bytes. \<open>lib/btc\<close> parses them (\<open>NewTx\<close>), computes their sizes,
  hashes and signature hashes, and serialises them again. \<open>lib/script\<close> decides whether an input may spend the
  output it names: \<open>VerifyTxScript\<close> runs the input's and the output's script on one stack, then the P2SH script
  or the witness program, and calls back into \<open>lib/btc\<close> for the hash each signature commits to. A block is parsed by \<open>BuildTxList\<close>;
  \<open>commitTxs\<close> of \<open>lib/chain\<close> looks up each input in the database or among the outputs of the block, has its script
  verified, checks the sums and collects the changes, which \<open>CommitBlockTxs\<close> of \<open>lib/utxo\<close> applies and \<open>UndoBlockTxs\<close>
  takes back. Before that, \<open>PreCheckBlock\<close> checks the header against the tree of blocks, \<open>AcceptHeader\<close> puts it there,
  and \<open>PostCheckBlock\<close> checks the contents; the bytes of the blocks are kept by the database of \<open>lib/chain/blockdb.go\<close>.

  \<^bold>\<open>The theories\<close>, in the order they import each other.
  \<^item> \<open>Prelude\<close>: machine words, Go panics as values, the error monad, slices with their capacity.
  \<^item> \<open>Encoding\<close>, \<open>Amounts\<close>: \<open>lib/btc/funcs.go\<close>, the variable-length integers and the amount compression.
  \<^item> \<open>Opcodes\<close>: \<open>lib/btc/funcs.go\<close> and \<open>lib/btc/script.go\<close>, \<open>GetOpcode\<close> and the scans built on it.
  \<^item> \<open>Hashes\<close>, \<open>Ripemd160\<close>: \<open>lib/btc/hash.go\<close>, \<open>lib/others/ripemd160\<close>; SHA-1 and SHA-256 from their standard.
  \<^item> \<open>Tx\<close>, \<open>TxCodec\<close>, \<open>TxChecks\<close>, \<open>TxLaws\<close>: \<open>lib/btc/tx.go\<close>; parser, serialiser, size scan, sanity checks.
  \<^item> \<open>SigHash\<close>, \<open>SigHashLaws\<close>: the three signature hashes of \<open>lib/btc/tx.go\<close> and \<open>lib/btc/taproot.go\<close>.
  \<^item> \<open>ScriptNum\<close>: \<open>lib/script/stack.go\<close>, the stack and script numbers.
  \<^item> \<open>SigEncoding\<close>, \<open>Checker\<close>: \<open>lib/script/misc.go\<close>, \<open>lib/secp256k1/sig.go\<close>, \<open>lib/script/checker.go\<close>.
  \<^item> \<open>StackOps\<close>, \<open>Interp\<close>, \<open>Verify\<close>: \<open>lib/script/script.go\<close> and \<open>lib/script/witness.go\<close>.
  \<^item> \<open>StackProps\<close>, \<open>InterpProps\<close>, \<open>VerifyProps\<close>, \<open>ScriptLaws\<close>, \<open>P2PKH\<close>, \<open>Multisig\<close>: their properties.
  \<^item> \<open>Merkle\<close>, \<open>Target\<close>, \<open>Block\<close>: \<open>CalcMerkle\<close> of \<open>lib/btc/funcs.go\<close>, \<open>lib/btc/target.go\<close>, \<open>lib/btc/block.go\<close>.
  \<^item> \<open>UtxoRec\<close>, \<open>UtxoComp\<close>: the records of \<open>lib/utxo/unspent_recu.go\<close> and \<open>unspent_recc.go\<close>; the code has each reader
    and writer twice, the model once, over a \<open>utxo_format\<close>; the locale \<open>record_format\<close> states what a format promises and
    is interpreted on both.
  \<^item> \<open>UtxoDb\<close>: \<open>lib/utxo/unspent_db.go\<close>; the locale \<open>utxo_store\<close> relates it to a map of coins and is interpreted on both
    configurations. \<open>UtxoFile\<close>, \<open>UtxoSave\<close>: the file \<open>UTXO.db\<close> of the same source, reading and purging, and the two goroutines
    that save it, as schedules of their steps; \<open>FileSpec\<close>: what is loaded after a crash.
  \<^item> \<open>ChainTx\<close>: \<open>commitTxs\<close> of \<open>lib/chain/chain_accept.go\<close>. \<open>ChainTxLaws\<close>: its double-spend checks; \<open>ChainTxFit\<close>: its
    changes fit the database; \<open>ChainTxValue\<close>: the sums; \<open>ChainLedger\<close>: the abstract ledger.
  \<^item> \<open>Snappy\<close>: \<open>lib/others/snappy\<close>, the compression of blocks. \<open>SnappyLaws\<close>, \<open>SnappyEncode\<close>: what the decoder makes of
    each chunk, and that the encoder's chunks are its input.
  \<^item> \<open>BlockDb\<close>: \<open>lib/chain/blockdb.go\<close>, with the files, the cache and the queue as parts of its state. \<open>BlockDbLaws\<close>,
    \<open>BlockDbWrite\<close>, \<open>BlockDbFlags\<close>, \<open>BlockDbLoad\<close>: its invariant and the operations; \<open>BlockDbSpec\<close>: the locale
    \<open>simulation\<close> and its interpretation, the database against a map; \<open>StoreSpec\<close>: its properties.
  \<^item> \<open>BlockTree\<close>: \<open>lib/chain/chain_tree.go\<close> and \<open>AcceptHeader\<close>, the nodes in a heap of addresses. \<open>BlockTreeLaws\<close>,
    \<open>BlockTreeOps\<close>: the tree invariant, paths, and what the operations do to it.
  \<^item> \<open>ChainDiff\<close>: \<open>lib/chain/chain_diff.go\<close>. \<open>BlockCheck\<close>, \<open>BlockCheckLaws\<close>, \<open>BlockPlace\<close>: \<open>lib/chain/block_check.go\<close>.
    \<open>TreeSpec\<close>, \<open>CheckSpec\<close>: the properties of the tree and of the checks.
  \<^item> \<open>ChainMove\<close>: \<open>CommitBlock\<close> of \<open>lib/chain/chain_accept.go\<close> and \<open>MoveToBlock\<close>, \<open>ParseTillBlock\<close>, \<open>UndoLastBlock\<close> of
    \<open>chain_tree.go\<close>, over the tree, the database of blocks and the coins. \<open>ChainMoveLaws\<close>: the head and the coins move
    together; \<open>MoveSpec\<close>: the properties.
  \<^item> \<open>ChainLoad\<close>: \<open>lib/chain/chain_load.go\<close> and the end of \<open>NewChainExt\<close>, the start from the files. \<open>ChainLoadLaws\<close>:
    the links give a tree in every order; \<open>LoadSpec\<close>: the property.
  \<^item> \<open>Samples\<close>, \<open>ChainSamples\<close>: concrete data for the witnesses. \<open>ChainSpec\<close>: the properties of blocks, database and
    chain. This theory: those of transactions and scripts.

  \<^bold>\<open>State and operations.\<close> A Go struct is a record with its fields, a pointer that can be nil an option, a byte slice
  a list of bytes (with its spare capacity where \<open>b[lo:hi]\<close> can reach it). A panic is a value \<open>Inl\<close> of type
  \<open>go_panic\<close>; \<open>recover\<close> turns it into a result as the code does. The interpreter state \<open>estate\<close> has the local
  variables of \<open>evalScript\<close>; the caches of partial hashes are fields of the transaction and passed along.

  \<^bold>\<open>Bounds and termination.\<close> Every loop is a terminating function: scans consume their script, the item loops
  count down, the interpreter's loop advances by a positive instruction size. The readers of the database's records
  are partial (\<open>None\<close> is a loop that does not end): they return on every record the program writes, and not on a
  plain record cut within a length; so are the loops that climb the tree of blocks, which return wherever the tree invariant holds. The two
  functions that descend into it take fuel for the depth; \<open>2 ^ 32\<close> is enough, as heights are 32 bits wide. Words have
  their width where the code can wrap; lengths and indices are natural numbers.

  \<^bold>\<open>Parameters.\<close> The elliptic-curve checks are function variables of the code (\<open>EC_Verify\<close>, \<open>Schnorr_Verify\<close>,
  \<open>CheckPayToContract\<close>) and are arguments here (record \<open>ec\<close>); so is the optional hook of \<open>VerifyTxScript\<close>. Of the
  public keys the compressed scripts use only validity and expansion (record \<open>key_ops\<close>). Go's \<open>gzip\<close>, the
  arithmetic of floating point in \<open>MorePOW\<close> (record \<open>float_ops\<close>) and the clock are arguments.

  \<^bold>\<open>Not modelled.\<close> Field and group arithmetic of \<open>lib/secp256k1\<close>, file and network I/O, the client, the wallet
  and the tools, address text formats, debug output, locks (an operation is atomic, except the saving of the unspent
  outputs, whose goroutines are modelled step by step).
\<close>

section \<open>Verifying a spend\<close>

text \<open>
  C10. A spend accepted under a set of verification flags is accepted under every weaker set: the flags
  only ever forbid. (The weaker set must be one the code allows: clean-stack and witness checks need
  \<open>VER_P2SH\<close>, and the discouraged upgradable opcodes may not become defined.)
\<close>

theorem flags_are_soft_forks:
  assumes "VerifyTxScript ec None pk c f = Inr True" "softfork_flags g f"
  shows "VerifyTxScript ec None pk c g = Inr True"
  using assms by (rule VerifyTxScript_softfork)

theorem flags_are_soft_forks_witness:
  "VerifyTxScript sample_ec None [0x51] (sample_checker []) (VER_P2SH OR VER_CLEANSTACK) = Inr True \<and>
   VerifyTxScript sample_ec None [0x51] (sample_checker []) VER_P2SH = Inr True"
proof -
  have 1: "VerifyTxScript sample_ec None [0x51] (sample_checker []) (VER_P2SH OR VER_CLEANSTACK) = Inr True"
    by (rule sample_verify_true) (simp_all add: sane_flags_def flag_on_def)
  have "softfork_flags VER_P2SH (VER_P2SH OR VER_CLEANSTACK)"
    by (simp add: softfork_flags_def softfork_le_def flags_le_def sane_flags_def flag_on_def)
  with 1 show ?thesis using flags_are_soft_forks by blast
qed

text \<open>
  C11. A pay-to-pubkey-hash output is spent by a signature and a key, each pushed by a single length byte (2 to 75 bytes,
  which every signature and key of the program's formats has), exactly when the key hashes to the output's hash, the
  signature check of the code accepts the pair for the whole output script, and, where \<open>VER_WITNESS\<close> is on, the input
  carries no witness of its own. The other inputs may have witnesses.
\<close>

theorem pay_to_pubkey_hash:
  assumes "length h = 20" "2 \<le> length sig" "length sig \<le> 75" "2 \<le> length pub" "length pub \<le> 75"
    and "get_txin (sc_Tx c) (sc_Idx c) = Inr x" "ti_ScriptSig x = push_data sig @ push_data pub"
    and "witness_stack (sc_Tx c) (sc_Idx c) = Inr w" "sane_flags f"
  shows "VerifyTxScript ec None (p2pkh_script h) c f = Inr True \<longleftrightarrow>
    ripemd160 (sha256 pub) = h \<and>
    evalChecksigPreTapscript ec c sig pub (p2pkh_script h) 0 f SIGVERSION_BASE = Inr ((True, True), sc_Tx c) \<and>
    (flag_on f VER_WITNESS \<longrightarrow> w = [])"
  using assms by (rule VerifyTxScript_p2pkh)

theorem pay_to_pubkey_hash_witness:
  "VerifyTxScript sample_ec None (p2pkh_script (ripemd160 (sha256 sample_pub))) sample_p2pkh VER_P2SH = Inr True \<longleftrightarrow>
    evalChecksigPreTapscript sample_ec sample_p2pkh sample_sig sample_pub
      (p2pkh_script (ripemd160 (sha256 sample_pub))) 0 VER_P2SH SIGVERSION_BASE =
      Inr ((True, True), sc_Tx sample_p2pkh)"
  by (subst pay_to_pubkey_hash [of _ sample_sig sample_pub _ "sample_in (push_data sample_sig @ push_data sample_pub)" "[]"])
     (simp_all add: witness_stack_def sample_p2pkh_def sample_sig_def sample_pub_def sample_checker_def sample_txin,
      simp_all add: sample_defs zero_tx_def sane_flags_def flag_on_def)

text \<open>
  C16. The hash caches a transaction carries (filled by earlier checks of other inputs) do not change the
  result: with consistent caches it is the result with none.
\<close>

theorem caches_do_not_matter:
  assumes "caches_ok (sc_Tx c)"
  shows "VerifyTxScript ec None pk c f = VerifyTxScript ec None pk (c\<lparr>sc_Tx := no_caches (sc_Tx c)\<rparr>) f"
  using assms by (rule VerifyTxScript_cache)

theorem caches_do_not_matter_witness:
  "VerifyTxScript sample_ec None [0x51] ((sample_checker [])\<lparr>sc_Tx := sample_cached\<rparr>) VER_P2SH =
   VerifyTxScript sample_ec None [0x51] ((sample_checker [])\<lparr>sc_Tx := no_caches sample_cached\<rparr>) VER_P2SH"
  using caches_do_not_matter [of "(sample_checker [])\<lparr>sc_Tx := sample_cached\<rparr>" sample_ec "[0x51]" VER_P2SH]
    sample_cached_ok by simp



text \<open>
  C17. A successful run says that its script is well formed: it parses to the end, no instruction of it,
  executed or not, is disabled or pushes more than 520 bytes, and outside tapscript it has at most
  10000 bytes and 201 counted opcodes.
\<close>

theorem accepted_scripts_are_well_formed:
  assumes "evalScript ec p s c f sv ed = Inr r"
  shows "snd (script_ops p) \<and> list_all instr_allowed (fst (script_ops p)) \<and>
    (count_limited sv \<longrightarrow> length p \<le> MAX_SCRIPT_SIZE \<and> length (filter counted (fst (script_ops p))) \<le> 201)"
  using assms by (rule evalScript_wellformed)

theorem accepted_scripts_are_well_formed_witness:
  "snd (script_ops [0x51]) \<and> list_all instr_allowed (fst (script_ops [0x51])) \<and>
   length (filter counted (fst (script_ops [0x51]))) \<le> 201"
  using accepted_scripts_are_well_formed [OF sample_run_true [of sample_ec "sample_checker []" 0 zero_execdata]]
  by (simp add: count_limited_def)

text \<open>
  C18. The stack stays within its bounds: from at most 1000 elements of at most 520 bytes a run ends with
  at most 1000 elements of at most 520 bytes.
\<close>

theorem stack_stays_bounded:
  assumes "evalScript ec p s c f sv ed = Inr (s', ed', t')" "elems s" "length s \<le> 1000"
  shows "elems s' \<and> length s' \<le> 1000"
  using assms by (rule evalScript_inv)

theorem stack_stays_bounded_witness: "elems [[1 :: byte]] \<and> length [[1 :: byte]] \<le> 1000"
  by (rule stack_stays_bounded [OF sample_run_true [of sample_ec "sample_checker []" 0 zero_execdata]])
     (simp_all add: elems_def)

text \<open>
  An instruction in a branch that is not taken, other than the ones that open and close branches,
  changes nothing but the opcode count.
\<close>

theorem skipped_instructions_change_nothing:
  assumes "\<not> nofalse (es_exestack st)" "\<not> (0x63 \<le> opcode \<and> opcode \<le> 0x68)"
    "eval_instr env opcode pushval idx st = Inr st'"
  shows "st' = st\<lparr>es_opcnt := es_opcnt st'\<rparr>"
  using assms by (rule unexecuted_instruction)

theorem skipped_instructions_change_nothing_witness:
  "eval_instr sample_env 0x76 None 0 (sample_state\<lparr>es_exestack := [[]]\<rparr>) =
     Inr (sample_state\<lparr>es_exestack := [[]], es_opcnt := 1\<rparr>)"
proof -
  let ?st = "sample_state\<lparr>es_exestack := [[]]\<rparr>"
  have 1: "\<exists>st'. eval_instr sample_env 0x76 None 0 ?st = Inr st' \<and> es_opcnt st' = 1"
    by (simp add: eval_instr_def pre_checks_def nofalse_def disabled_opcodes_def sample_state_def eval_init_def
        sample_env_def ms_stack_def sample_sigs_def sample_keys_def Let_def)
  then obtain st' where "eval_instr sample_env 0x76 None 0 ?st = Inr st'" "es_opcnt st' = 1" by blast
  with skipped_instructions_change_nothing [OF _ _ this(1)] show ?thesis by (simp add: nofalse_def)
qed

section \<open>Encodings\<close>

text \<open>
  C20. \<open>NewTx\<close> reads back what \<open>SerializeNew\<close> writes, whatever follows it, and consumes exactly that:
  version, inputs, outputs, witnesses and lock time, in the legacy and in the segregated form.
\<close>

theorem transaction_round_trip:
  assumes "valid_tx t" "SerializeNew t = Inr raw" "sl_data b = raw @ rest"
  shows "NewTx b = (Some (tx_content t), length raw)"
  using assms by (rule NewTx_SerializeNew)

theorem transaction_round_trip_witness:
  "\<exists>raw. SerializeNew (sample_tx [1]) = Inr raw \<and>
     NewTx \<lparr>sl_data = raw @ [9], sl_spare = []\<rparr> = (Some (sample_tx [1]), length raw)"
proof -
  have v: "valid_tx (sample_tx [1])"
    unfolding valid_tx_def
    by (intro conjI exI [of _ "[sample_in [1]]"] exI [of _ "[new_txout 5000 [0x51]]"])
       (simp_all add: sample_defs zero_tx_def valid_txin_def valid_txout_def new_txout_def)
  have c: "tx_content (sample_tx [1]) = sample_tx [1]"
    by (simp add: tx_content_def sample_tx_def zero_tx_def)
  obtain raw where raw: "SerializeNew (sample_tx [1]) = Inr raw"
    by (auto simp: SerializeNew_def WriteSerializedNew_def WriteSerialized_def sample_tx_def zero_tx_def
        ser_txin_def ser_txout_def)
  show ?thesis
    using transaction_round_trip [OF v raw, of "\<lparr>sl_data = raw @ [9], sl_spare = []\<rparr>" "[9]"] raw c by simp
qed

text \<open>
  C27. The size scan \<open>TxSize\<close>, which reads no item, agrees with the parser on every byte string the
  parser accepts.
\<close>

theorem size_scan_agrees_with_parser:
  assumes "NewTx \<lparr>sl_data = d, sl_spare = []\<rparr> = (Some t, n)" "length d < 2 ^ 63"
  shows "TxSize d = int n"
  using assms by (rule TxSize_NewTx)

theorem size_scan_agrees_with_parser_witness: "TxSize nil_input_tx = 42"
proof -
  obtain t where "NewTx \<lparr>sl_data = nil_input_tx, sl_spare = []\<rparr> = (Some t, 42)"
    using NewTx_nil_input by blast
  from size_scan_agrees_with_parser [OF this] show ?thesis by (simp add: nil_input_head)
qed

text \<open>
  The virtual size is the weight divided by four, rounded up, for every size but the largest 32-bit
  number.
\<close>

theorem virtual_size_rounds_up:
  assumes "tx_NoWitSize t \<noteq> - 1"
  shows "VSize t = (Weight t + 3) div 4"
  using assms by (rule VSize_Weight)

theorem virtual_size_rounds_up_witness:
  "VSize (zero_tx\<lparr>tx_NoWitSize := 100, tx_Size := 107\<rparr>) = 102"
  by (subst virtual_size_rounds_up) (simp_all add: Weight_def zero_tx_def)

text \<open>
  C28. The strict-DER check accepts exactly the encodings of two integers that are not negative, each of at least one
  byte and without padding, together of at most 66 bytes, followed by a hash type, and no index of it is ever out of range.
\<close>

theorem strict_der:
  "(IsValidSignatureEncoding sig = Inr True \<longleftrightarrow>
     (\<exists>r s ht. sig = der_sig r s ht \<and> der_int r \<and> der_int s \<and> length r + length s \<le> 66)) \<and>
   (\<exists>b. IsValidSignatureEncoding sig = Inr b)"
  using IsValidSignatureEncoding_iff IsValidSignatureEncoding_eq by blast

text \<open>Parsing a strict-DER signature gives the two integers it encodes and its length.\<close>

theorem der_round_trip:
  assumes "der_int r" "der_int s" "length r + length s \<le> 66"
  shows "ParseBytes (der_sig r s ht) = Some (be_nat r, be_nat s, length r + length s + 6)"
  using assms by (rule ParseBytes_der_sig)

theorem der_round_trip_witness:
  "ParseBytes (der_sig [5] [0, 0x81] 1) = Some (5, 0x81, 9)"
  by (subst der_round_trip) (simp_all add: der_int_def be_nat_def)

text \<open>
  C29. Script numbers: what \<open>pushInt\<close> pushes is the minimal encoding and \<open>popInt\<close> reads it back, for all
  numbers of 31 bits and a sign; and a minimal encoding is the only one of its number.
\<close>

theorem script_number_round_trip:
  assumes "\<bar>v\<bar> < 2 ^ 31" "is_minimal d"
  shows "popInt check_for_min (pushInt v s) = Inr (v, s) \<and> is_minimal (int_enc v) \<and> int_enc (bts_num d) = d"
  using popInt_pushInt [OF assms(1)] is_minimal_int_enc int_enc_bts_num [OF assms(2)] by blast

theorem script_number_round_trip_witness:
  "popInt True (pushInt (- 2147483647) []) = Inr (- 2147483647, []) \<and> int_enc (bts_num [0xff, 0x00]) = [0xff, 0x00]"
proof -
  have "is_minimal [0xff, 0x00]" by (simp add: is_minimal_def)
  then show ?thesis using script_number_round_trip [of "- 2147483647" "[0xff, 0x00]" True] by simp
qed

text \<open>Amounts up to twenty billion coins survive the compression of the UTXO records.\<close>

theorem amount_round_trip:
  assumes "unat n \<le> 2000000000000000000"
  shows "DecompressAmount (CompressAmount n) = n"
  using assms by (rule Decompress_Compress)

theorem amount_round_trip_witness: "DecompressAmount (CompressAmount 2100000000000000) = 2100000000000000"
  by (rule amount_round_trip) simp

text \<open>
  The variable-length integers: the three readers, from a slice or from a reader, undo the writer,
  whatever follows, and \<open>VLenSize\<close> is the number of bytes written.
\<close>

theorem varint_round_trip:
  "VULe (WriteVlen x @ rest) = (x, VLenSize x) \<and> VLen (WriteVlen x @ rest) = (sint x, VLenSize x) \<and>
   ReadVLen (WriteVlen x @ rest) = Inr (x, rest) \<and> length (WriteVlen x) = VLenSize x"
  by (simp_all add: length_WriteVlen)

text \<open>
  The streaming RIPEMD-160 digest: writing a message in any number of pieces and summing gives the
  hash of the whole message (pad, then compress block by block).
\<close>

theorem ripemd160_streams:
  "rmd_Sum (fold (\<lambda>p d. rmd_Write d p) ps rmd_New) inp = Inr (inp @ ripemd160 (concat ps))"
proof -
  have "rmd_repr (fold (\<lambda>p d. rmd_Write d p) ps d) (m @ concat ps)" if "rmd_repr d m" for d m
    using that
  proof (induction ps arbitrary: d m)
    case (Cons p ps)
    from Cons.IH [OF rmd_Write_repr [OF Cons.prems]] show ?case by simp
  qed simp
  from rmd_Sum_repr [OF this [OF rmd_repr_New]] show ?thesis by simp
qed

section \<open>Signature hashes\<close>

text \<open>
  No signature hash commits to a signature: replacing every input script by the empty one and dropping
  the witnesses changes none of the legacy, the segregated and the taproot hash.
\<close>

theorem hashes_ignore_signatures:
  "SignatureHash (strip_sigs t) sc n ht = SignatureHash t sc n ht \<and>
   WitnessSigHash (strip_sigs t) sc am n ht = andThen (WitnessSigHash t sc am n ht) (\<lambda>(x, t). Inr (x, strip_sigs t)) \<and>
   TaprootSigHash (strip_sigs t) ed n th scr = andThen (TaprootSigHash t ed n th scr) (\<lambda>(x, t). Inr (x, strip_sigs t))"
  by (intro conjI SignatureHash_strip WitnessSigHash_strip TaprootSigHash_strip)

text \<open>
  What the hash types leave out: with \<open>SIGHASH_NONE\<close> the outputs, with \<open>SIGHASH_ANYONECANPAY\<close> all inputs
  but the signed one.
\<close>

theorem hash_types_leave_out:
  assumes "ht AND 0x1f = SIGHASH_NONE" "ha AND SIGHASH_ANYONECANPAY \<noteq> 0"
    "get_txin (t\<lparr>tx_TxIn := ins\<rparr>) n = get_txin t n"
  shows "SignatureHash (t\<lparr>tx_TxOut := outs\<rparr>) sc n ht = SignatureHash t sc n ht \<and>
    SignatureHash (t\<lparr>tx_TxIn := ins\<rparr>) sc n ha = SignatureHash t sc n ha"
  using SignatureHash_none [OF assms(1)] SignatureHash_anyonecanpay [OF assms(2,3)] by blast

theorem hash_types_leave_out_witness:
  "SignatureHash ((sample_tx [])\<lparr>tx_TxOut := []\<rparr>) [0xac] 0 2 = SignatureHash (sample_tx []) [0xac] 0 2 \<and>
   SignatureHash ((sample_tx [])\<lparr>tx_TxIn := [Some (sample_in []), None]\<rparr>) [0xac] 0 0x81 =
     SignatureHash (sample_tx []) [0xac] 0 0x81"
  using hash_types_leave_out [where ht = 2 and ha = "0x81" and t = "sample_tx []" and n = 0 and outs = "[]" and
      ins = "[Some (sample_in []), None]" and sc = "[0xac]"]
  by (simp add: get_txin_def sample_tx_def)

text \<open>
  \<open>SIGHASH_SINGLE\<close> on an input without a matching output signs the constant 1: the hash depends on
  nothing of the transaction.
\<close>

theorem single_without_output_is_one:
  assumes "ht AND 0x1f = SIGHASH_SINGLE" "length (tx_TxOut t) \<le> n" "None \<notin> set (tx_TxIn t)"
    "n < length (tx_TxIn t)"
  shows "SignatureHash t sc n ht = Inr one_hash"
  using assms by (rule SignatureHash_single_one)

theorem single_without_output_is_one_witness:
  "SignatureHash ((sample_tx [])\<lparr>tx_TxOut := []\<rparr>) [0xac] 0 3 = Inr one_hash"
  by (rule single_without_output_is_one) (simp_all add: sample_tx_def)

text \<open>
  \<open>delSig\<close> removes from a script the instructions that are the push of the signature, and counts them,
  for every signature a one-byte push can carry.
\<close>

theorem delSig_removes_the_pushes:
  assumes "length sig \<le> 75"
  shows "delSig scr sig =
    Inr (concat (filter (\<lambda>i. i \<noteq> push_data sig) (raw_ops scr)), length (filter (\<lambda>i. i = push_data sig) (raw_ops scr)))"
  using delSig_eq [of sig scr] assms by (simp add: push_data_def Let_def)

theorem delSig_removes_the_pushes_witness:
  "delSig [0x76, 0x02, 5, 6, 0xac] [5, 6] = Inr ([0x76, 0xac], 1)"
  by (subst delSig_removes_the_pushes)
     (simp_all add: raw_ops_def script_ops.simps GetOpcode_short GetOpcode_nonpush push_data_def)

section \<open>Where the code departs from its intent\<close>

text \<open>
  C30. A Schnorr signature with an undefined hash type is not rejected: it is verified against 32 zero
  bytes, so that one signature of the zero message is good for every transaction.
\<close>

theorem undefined_hash_type_signs_zero:
  assumes "length sig = 64" "\<not> valid_taproot_hashtype ht"
  shows "CheckSchnorrSignature ec c (sig @ [ht]) pk sv ed = Inr (Schnorr_Verify ec pk sig (replicate 32 0), sc_Tx c)"
  using assms by (rule CheckSchnorrSignature_undefined)

theorem undefined_hash_type_signs_zero_witness:
  "CheckSchnorrSignature sample_ec (sample_checker []) (replicate 64 1 @ [0x04]) [7] SIGVERSION_TAPROOT zero_execdata =
     Inr (True, sample_tx [])"
  by (subst undefined_hash_type_signs_zero) (simp_all add: valid_taproot_hashtype_def sample_ec_def sample_checker_def)

end
